(* ===== verification/Gem5_Prelude.thy ===== *)
theory Gem5_Prelude
  imports Main "HOL-Library.Word"
begin

text \<open>
  Shared vocabulary of the development: the result type that carries the simulator's
  \<^verbatim>\<open>assert\<close>, \<^verbatim>\<open>panic\<close> and \<^verbatim>\<open>fatal\<close> exits as values, checked access to a
  \<^verbatim>\<open>std::vector\<close>, the names of the machine types the sources use (\<^verbatim>\<open>base/types.hh\<close>),
  and the generic facts on lists and words that the component theories draw on.
\<close>

unbundle bit_operations_syntax

section \<open>Machine types\<close>

text \<open>\<^verbatim>\<open>Addr\<close>, \<^verbatim>\<open>Tick\<close>, \<^verbatim>\<open>RegVal\<close> and \<^verbatim>\<open>InstSeqNum\<close> are 64-bit unsigned, \<^verbatim>\<open>unsigned\<close> is 32-bit.\<close>

type_synonym u8 = "8 word"
type_synonym u16 = "16 word"
type_synonym u32 = "32 word"
type_synonym u64 = "64 word"
type_synonym addr = "64 word"
type_synonym tick = "64 word"
type_synonym seqnum = "64 word"

definition MaxThreads :: nat where
  "MaxThreads = 4"

section \<open>Results\<close>

text \<open>
  \<open>Assertion\<close> is a failed \<^verbatim>\<open>assert\<close>, \<open>Panic\<close> and \<open>Fatal\<close> are the calls of those names in
  \<^verbatim>\<open>base/logging.hh\<close>, \<open>OutOfRange\<close> is an element access outside a vector, \<open>NullDeref\<close> a
  dereferenced null or dangling pointer, \<open>DivByZero\<close> an integer division by zero, \<open>Diverges\<close> an
  exhausted step budget of a loop.
\<close>

datatype error = Assertion | Panic | Fatal | OutOfRange | NullDeref | DivByZero | Diverges

type_synonym 'a res = "error + 'a"

definition rbind :: "'a res \<Rightarrow> ('a \<Rightarrow> 'b res) \<Rightarrow> 'b res" where
  "rbind r f = (case r of Inl e \<Rightarrow> Inl e | Inr x \<Rightarrow> f x)"

definition check :: "bool \<Rightarrow> error \<Rightarrow> unit res" where
  "check b e = (if b then Inr () else Inl e)"

definition vget :: "'a list \<Rightarrow> nat \<Rightarrow> 'a res" where
  "vget xs i = (if i < length xs then Inr (xs ! i) else Inl OutOfRange)"

definition vset :: "'a list \<Rightarrow> nat \<Rightarrow> 'a \<Rightarrow> 'a list res" where
  "vset xs i v = (if i < length xs then Inr (xs[i := v]) else Inl OutOfRange)"

named_theorems res_defs \<open>unfolding rules of the result combinators\<close>

declare rbind_def [res_defs] check_def [res_defs] vget_def [res_defs] vset_def [res_defs]

lemma rbind_Inr [simp]: "rbind (Inr x) f = f x"
  by (simp add: rbind_def)

lemma rbind_Inl [simp]: "rbind (Inl e) f = Inl e"
  by (simp add: rbind_def)

lemma rbind_eq_Inr: "rbind r f = Inr y \<longleftrightarrow> (\<exists>x. r = Inr x \<and> f x = Inr y)"
  by (cases r) auto

lemma rbind_assoc: "rbind (rbind r f) g = rbind r (\<lambda>x. rbind (f x) g)"
  by (cases r) auto

lemma check_eq_Inr [simp]: "check b e = Inr u \<longleftrightarrow> b"
  by (simp add: check_def)

lemma check_True [simp]: "b \<Longrightarrow> check b e = Inr ()"
  by (simp add: check_def)

lemma check_False [simp]: "\<not> b \<Longrightarrow> check b e = Inl e"
  by (simp add: check_def)

lemma vget_in [simp]: "i < length xs \<Longrightarrow> vget xs i = Inr (xs ! i)"
  by (simp add: vget_def)

lemma vget_out [simp]: "length xs \<le> i \<Longrightarrow> vget xs i = Inl OutOfRange"
  by (simp add: vget_def)

lemma vget_eq_Inr: "vget xs i = Inr x \<longleftrightarrow> i < length xs \<and> x = xs ! i"
  by (auto simp: vget_def)

lemma vset_in [simp]: "i < length xs \<Longrightarrow> vset xs i v = Inr (xs[i := v])"
  by (simp add: vset_def)

lemma vset_out [simp]: "length xs \<le> i \<Longrightarrow> vset xs i v = Inl OutOfRange"
  by (simp add: vset_def)

lemma vset_eq_Inr: "vset xs i v = Inr ys \<longleftrightarrow> i < length xs \<and> ys = xs[i := v]"
  by (auto simp: vset_def)

lemmas res_eqs = rbind_eq_Inr vget_eq_Inr vset_eq_Inr

text \<open>A loop over a list whose body may fail (a range-\<^verbatim>\<open>for\<close> with early exits by error).\<close>

fun rfold :: "('a \<Rightarrow> 's \<Rightarrow> 's res) \<Rightarrow> 'a list \<Rightarrow> 's \<Rightarrow> 's res" where
  "rfold f [] s = Inr s"
| "rfold f (x # xs) s = rbind (f x s) (rfold f xs)"

lemma rfold_append: "rfold f (xs @ ys) s = rbind (rfold f xs s) (rfold f ys)"
  by (induction xs arbitrary: s) (auto simp: rbind_def split: sum.splits)

lemma rfold_invariant:
  assumes "rfold f xs s = Inr t" and "P s"
    and "\<And>x s t. x \<in> set xs \<Longrightarrow> P s \<Longrightarrow> f x s = Inr t \<Longrightarrow> P t"
  shows "P t"
  using assms
proof (induction xs arbitrary: s)
  case Nil
  then show ?case by simp
next
  case (Cons x xs)
  from Cons.prems(1) obtain s' where s': "f x s = Inr s'" "rfold f xs s' = Inr t"
    by (auto simp: rbind_eq_Inr)
  from Cons.prems(2,3) s'(1) have "P s'" by auto
  with s'(2) Cons.prems(3) show ?case
    by (auto intro: Cons.IH)
qed

lemma rfold_total:
  assumes "P s"
    and "\<And>x s. x \<in> set xs \<Longrightarrow> P s \<Longrightarrow> \<exists>t. f x s = Inr t \<and> P t"
  shows "\<exists>t. rfold f xs s = Inr t \<and> P t"
  using assms
proof (induction xs arbitrary: s)
  case Nil
  then show ?case by simp
next
  case (Cons x xs)
  then obtain s' where "f x s = Inr s'" "P s'" by force
  with Cons.prems(2) Cons.IH [of s'] show ?case by auto
qed

section \<open>Lists\<close>

lemma list_all_update: "list_all P xs \<Longrightarrow> P v \<Longrightarrow> list_all P (xs[i := v])"
  using set_update_subset_insert [of xs i v] by (auto simp: list_all_iff)

lemma list_all_nth: "list_all P xs \<Longrightarrow> i < length xs \<Longrightarrow> P (xs ! i)"
  by (simp add: list_all_length)

lemma nth_update_if: "i < length xs \<Longrightarrow> xs[i := v] ! j = (if i = j then v else xs ! j)"
  by auto

section \<open>Words\<close>

lemma unat_take_bit: "unat (take_bit k x :: 'a::len word) = unat x mod 2 ^ k"
  unfolding unsigned_take_bit_eq by (rule take_bit_eq_mod)

lemma unat_and_mask: "unat (x AND mask k :: 'a::len word) = unat x mod 2 ^ k"
  unfolding take_bit_eq_mask [symmetric] by (rule unat_take_bit)

lemma unat_drop_bit: "unat (drop_bit k x :: 'a::len word) = unat x div 2 ^ k"
  unfolding unat_drop_bit_eq by (rule drop_bit_eq_div)

lemma bit_word_iff_div: "bit (x :: 'a::len word) n \<longleftrightarrow> odd (unat x div 2 ^ n)"
proof -
  have "bit x n \<longleftrightarrow> bit (unat x) n"
    by (auto simp: bit_unsigned_iff dest: bit_imp_le_length)
  then show ?thesis by (simp add: bit_iff_odd)
qed

lemma unat_power2: "k < LENGTH('a) \<Longrightarrow> unat (2 ^ k :: 'a::len word) = 2 ^ k"
  using unat_of_nat [where 'a = 'a, of "2 ^ k"] by simp

lemma u64_bit_less: "bit (x :: u64) n \<Longrightarrow> n < 64"
  using bit_imp_le_length [of x n] by simp

lemma word_zero_iff_bits: "(x :: 'a::len word) = 0 \<longleftrightarrow> (\<forall>i. \<not> bit x i)"
  by (auto simp: bit_eq_iff) (use bit_imp_le_length in blast)

lemma u64_unat_lt: "unat (x :: u64) < 2 ^ 64"
  by (rule order.strict_trans2 [OF unsigned_less]) simp

lemma u32_unat_lt: "unat (x :: u32) < 2 ^ 32"
  by (rule order.strict_trans2 [OF unsigned_less]) simp

lemma unat_ucast: "unat (ucast x :: 'b::len word) = unat (x :: 'a::len word) mod 2 ^ LENGTH('b)"
  by (simp only: unsigned_ucast_eq take_bit_eq_mod)

lemma unat_lt_size: "unat (x :: 'a::len word) < 2 ^ LENGTH('a)"
  by (rule unsigned_less)

lemma unat_of_nat_small: "n < 2 ^ LENGTH('a) \<Longrightarrow> unat (of_nat n :: 'a::len word) = n"
  by (simp add: unat_of_nat take_bit_nat_eq_self_iff)

lemma uint_word_of_int_below:
  fixes w :: "'a::len word"
  assumes "0 \<le> v" "v \<le> uint w"
  shows "uint (word_of_int v :: 'a word) = v"
proof -
  have "v < 2 ^ LENGTH('a)" using assms(2) uint_lt2p [of w] by linarith
  with assms(1) show ?thesis by (simp add: unsigned_of_int take_bit_int_eq_self)
qed

end
