(* ===== verification/Bitfield.thy ===== *)
theory Bitfield
  imports Gem5_Prelude
begin

text \<open>
  Bit-field helpers of \<^verbatim>\<open>base/bitfield.hh\<close>, for 64-bit operands: masks, extraction and
  insertion of a bit range, sign extension, position of the highest and of the lowest set
  bit, and bit reversal through the table of \<^verbatim>\<open>base/bitfield.cc\<close>. The lemmas read each
  helper bit by bit.
\<close>

section \<open>Masks and bit ranges\<close>

definition mask64 :: "nat \<Rightarrow> u64" where
  "mask64 nbits = (if 64 \<le> nbits then - 1 else push_bit nbits 1 - 1)"

definition bits_val :: "u64 \<Rightarrow> nat \<Rightarrow> nat \<Rightarrow> u64" where
  "bits_val val first low = drop_bit low val AND mask64 (first - low + 1)"

definition bits :: "u64 \<Rightarrow> nat \<Rightarrow> nat \<Rightarrow> u64 res" where
  "bits val first low = rbind (check (low \<le> first) Assertion) (\<lambda>_. Inr (bits_val val first low))"

definition mbits :: "u64 \<Rightarrow> nat \<Rightarrow> nat \<Rightarrow> u64" where
  "mbits val first low = val AND (mask64 (first + 1) AND NOT (mask64 low))"

definition mask_range :: "nat \<Rightarrow> nat \<Rightarrow> u64" where
  "mask_range first low = mbits (- 1) first low"

definition insertBits :: "u64 \<Rightarrow> nat \<Rightarrow> nat \<Rightarrow> u64 \<Rightarrow> u64 res" where
  "insertBits val first low bit_val =
     rbind (check (low \<le> first) Assertion) (\<lambda>_.
       let bmask = mask_range first low;
           val = val AND NOT bmask
       in Inr (val OR (push_bit low bit_val AND bmask)))"

definition sext :: "u64 \<Rightarrow> nat \<Rightarrow> u64" where
  "sext val N = (if bits_val val (N - 1) (N - 1) \<noteq> 0 then val OR NOT (mask64 N) else val)"

definition szext :: "u64 \<Rightarrow> nat \<Rightarrow> u64" where
  "szext val N =
     (if bits_val val (N - 1) (N - 1) \<noteq> 0 then val OR NOT (mask64 N) else val AND mask64 N)"

lemma mask64_eq_mask [simp]: "mask64 n = mask n"
proof (cases "64 \<le> n")
  case True
  then show ?thesis by (auto simp: mask64_def bit_eq_iff bit_mask_iff)
next
  case False
  then show ?thesis by (simp add: mask64_def mask_eq_exp_minus_1 push_bit_eq_mult)
qed

lemma bit_bits_val: "bit (bits_val v f l) i \<longleftrightarrow> i \<le> f - l \<and> bit v (l + i)"
  by (auto simp: bits_val_def bit_and_iff bit_drop_bit_eq bit_mask_iff dest: bit_imp_le_length)

lemma bit_mbits: "bit (mbits v f l) i \<longleftrightarrow> l \<le> i \<and> i \<le> f \<and> bit v i"
  by (auto simp: mbits_def bit_and_iff bit_not_iff bit_mask_iff dest: bit_imp_le_length)

lemma bit_mask_range: "bit (mask_range f l) i \<longleftrightarrow> l \<le> i \<and> i \<le> f \<and> i < 64"
  by (auto simp: mask_range_def bit_mbits)

lemma insertBits_bit:
  assumes "insertBits v f l b = Inr w" and "i < 64"
  shows "bit w i \<longleftrightarrow> (if l \<le> i \<and> i \<le> f then bit b (i - l) else bit v i)"
  using assms
  by (auto simp: insertBits_def rbind_eq_Inr Let_def bit_or_iff bit_and_iff bit_not_iff
      bit_mask_range bit_push_bit_iff)

lemma sign_bit_nonzero: "bits_val v n n \<noteq> 0 \<longleftrightarrow> bit v n"
proof
  assume "bit v n"
  then have "bit (bits_val v n n) 0" by (simp add: bit_bits_val)
  then show "bits_val v n n \<noteq> 0" by auto
next
  assume "bits_val v n n \<noteq> 0"
  then obtain i where "bit (bits_val v n n) i" by (auto simp: bit_eq_iff)
  then show "bit v n" by (auto simp: bit_bits_val)
qed

lemma szext_bit:
  assumes "0 < N" "i < 64"
  shows "bit (szext v N) i \<longleftrightarrow> (if i < N then bit v i else bit v (N - 1))"
  using assms by (auto simp: szext_def sign_bit_nonzero bit_or_iff bit_and_iff bit_not_iff bit_mask_iff)

section \<open>Most and least significant set bit\<close>

text \<open>One halving step of \<^verbatim>\<open>findMsbSet\<close>: \<^verbatim>\<open>if (bits(val, 2k-1, k)) { msb += k; val >>= k; }\<close>.\<close>

definition msb_step :: "nat \<Rightarrow> nat \<times> u64 \<Rightarrow> nat \<times> u64" where
  "msb_step k s = (case s of (msb, val) \<Rightarrow>
     if bits_val val (2 * k - 1) k \<noteq> 0 then (msb + k, drop_bit k val) else (msb, val))"

definition findMsbSet :: "u64 \<Rightarrow> nat" where
  "findMsbSet val =
     (if val = 0 then 0
      else fst (msb_step 1 (msb_step 2 (msb_step 4 (msb_step 8 (msb_step 16 (msb_step 32 (0, val))))))))"

text \<open>One step of \<^verbatim>\<open>findLsbSetFallback\<close>: \<^verbatim>\<open>if (!bits(val, k-1, 0)) { lsb += k; val >>= k; }\<close>.\<close>

definition lsb_step :: "nat \<Rightarrow> nat \<times> u64 \<Rightarrow> nat \<times> u64" where
  "lsb_step k s = (case s of (lsb, val) \<Rightarrow>
     if bits_val val (k - 1) 0 = 0 then (lsb + k, drop_bit k val) else (lsb, val))"

definition findLsbSetFallback :: "u64 \<Rightarrow> nat" where
  "findLsbSetFallback val =
     (if val = 0 then 64
      else fst (lsb_step 1 (lsb_step 2 (lsb_step 4 (lsb_step 8 (lsb_step 16 (lsb_step 32 (0, val))))))))"

text \<open>
  The loop invariants. For the highest bit: the part of \<open>v\<close> still in hand is \<open>v\<close> shifted
  down by the count so far, is not zero and fits in \<open>w\<close> bits.
\<close>

definition msb_inv :: "u64 \<Rightarrow> nat \<Rightarrow> nat \<times> u64 \<Rightarrow> bool" where
  "msb_inv v w s \<longleftrightarrow> snd s = drop_bit (fst s) v \<and> snd s \<noteq> 0 \<and> (\<forall>i. bit (snd s) i \<longrightarrow> i < w)"

definition lsb_inv :: "u64 \<Rightarrow> nat \<Rightarrow> nat \<times> u64 \<Rightarrow> bool" where
  "lsb_inv v w s \<longleftrightarrow> snd s = drop_bit (fst s) v \<and> (\<forall>i < fst s. \<not> bit v i) \<and> (\<exists>i < w. bit (snd s) i)"

lemma bits_val_zero_iff: "bits_val v f l = 0 \<longleftrightarrow> (\<forall>i. l \<le> i \<and> i \<le> l + (f - l) \<longrightarrow> \<not> bit v i)"
proof
  assume zero: "bits_val v f l = 0"
  show "\<forall>i. l \<le> i \<and> i \<le> l + (f - l) \<longrightarrow> \<not> bit v i"
  proof (intro allI impI)
    fix i assume i: "l \<le> i \<and> i \<le> l + (f - l)"
    from zero have "\<not> bit (bits_val v f l) (i - l)" by simp
    moreover from i have "i - l \<le> f - l" "l + (i - l) = i" by auto
    ultimately show "\<not> bit v i" by (simp add: bit_bits_val)
  qed
next
  assume "\<forall>i. l \<le> i \<and> i \<le> l + (f - l) \<longrightarrow> \<not> bit v i"
  then show "bits_val v f l = 0" by (auto simp: bit_eq_iff bit_bits_val)
qed

lemma msb_step_inv:
  assumes inv: "msb_inv v (2 * k) s" and k: "0 < k"
  shows "msb_inv v k (msb_step k s)"
proof -
  obtain m u where s: "s = (m, u)" by (cases s)
  show ?thesis
  proof (cases "bits_val u (2 * k - 1) k = 0")
    case True
    have "i < k" if "bit u i" for i
    proof (rule ccontr)
      assume "\<not> i < k"
      moreover have "i < 2 * k" using inv that by (auto simp: s msb_inv_def)
      ultimately show False using True that by (auto simp: bits_val_zero_iff)
    qed
    with True inv show ?thesis by (auto simp: s msb_step_def msb_inv_def)
  next
    case False
    then obtain i where "bit u i" "k \<le> i"
      by (auto simp: bits_val_zero_iff)
    then have "bit (drop_bit k u) (i - k)" by (simp add: bit_drop_bit_eq)
    then have "drop_bit k u \<noteq> 0" by auto
    moreover have "i < k" if "bit (drop_bit k u) i" for i
    proof -
      from that have "bit u (k + i)" by (simp add: bit_drop_bit_eq)
      with inv have "k + i < 2 * k" unfolding s msb_inv_def snd_conv by blast
      then show ?thesis by simp
    qed
    ultimately show ?thesis
      using False inv by (simp add: s msb_step_def msb_inv_def ac_simps)
  qed
qed

lemma lsb_step_inv:
  assumes inv: "lsb_inv v (2 * k) s" and k: "0 < k"
  shows "lsb_inv v k (lsb_step k s)"
proof -
  obtain m u where s: "s = (m, u)" by (cases s)
  have range: "i \<le> k - Suc 0 \<longleftrightarrow> i < k" for i using k by auto
  show ?thesis
  proof (cases "bits_val u (k - 1) 0 = 0")
    case True
    then have none: "\<not> bit u i" if "i < k" for i
      using that by (auto simp: bits_val_zero_iff range)
    from inv s have u: "u = drop_bit m v" and below: "\<And>i. i < m \<Longrightarrow> \<not> bit v i"
      by (auto simp: lsb_inv_def)
    have "\<not> bit v i" if "i < m + k" for i
      using that below [of i] none [of "i - m"] by (cases "i < m") (auto simp: u bit_drop_bit_eq)
    moreover obtain i where i: "i < 2 * k" "bit u i" using inv by (auto simp: s lsb_inv_def)
    from i none [of i] have "k \<le> i" by (cases "i < k") auto
    with i have "i - k < k" "bit (drop_bit k u) (i - k)"
      by (auto simp: bit_drop_bit_eq)
    then have "\<exists>i < k. bit (drop_bit k u) i" by blast
    ultimately show ?thesis
      using True by (simp add: s lsb_step_def lsb_inv_def u ac_simps)
  next
    case False
    then have "\<exists>i < k. bit u i" by (simp add: bits_val_zero_iff range)
    with False inv show ?thesis
      by (simp add: s lsb_step_def lsb_inv_def)
  qed
qed

lemma findMsbSet_bit:
  assumes "v \<noteq> 0"
  shows "bit v (findMsbSet v) \<and> (\<forall>i > findMsbSet v. \<not> bit v i)"
proof -
  define s where "s = msb_step 1 (msb_step 2 (msb_step 4 (msb_step 8 (msb_step 16 (msb_step 32 (0, v))))))"
  have "msb_inv v 64 (0, v)"
    using assms by (auto simp: msb_inv_def dest: bit_imp_le_length)
  then have "msb_inv v 1 s"
    unfolding s_def
    using msb_step_inv [of v 32] msb_step_inv [of v 16] msb_step_inv [of v 8]
      msb_step_inv [of v 4] msb_step_inv [of v 2] msb_step_inv [of v 1] by simp
  then have u: "drop_bit (fst s) v \<noteq> 0" and one: "\<And>i. bit (drop_bit (fst s) v) i \<Longrightarrow> i < 1"
    by (auto simp: msb_inv_def)
  from u obtain j where "bit (drop_bit (fst s) v) j" by (auto simp: bit_eq_iff)
  with one have "bit (drop_bit (fst s) v) 0" by (metis less_one)
  then have "bit v (fst s)" by (simp add: bit_drop_bit_eq)
  moreover have "\<not> bit v i" if "i > fst s" for i
    using one [of "i - fst s"] that by (auto simp: bit_drop_bit_eq)
  moreover have "findMsbSet v = fst s" using assms by (simp add: findMsbSet_def s_def)
  ultimately show ?thesis by simp
qed

lemma findLsbSetFallback_bit:
  assumes "v \<noteq> 0"
  shows "bit v (findLsbSetFallback v) \<and> (\<forall>i < findLsbSetFallback v. \<not> bit v i)"
proof -
  define s where "s = lsb_step 1 (lsb_step 2 (lsb_step 4 (lsb_step 8 (lsb_step 16 (lsb_step 32 (0, v))))))"
  have "lsb_inv v 64 (0, v)"
    using assms by (auto simp: lsb_inv_def bit_eq_iff dest: bit_imp_le_length)
  then have "lsb_inv v 1 s"
    unfolding s_def
    using lsb_step_inv [of v 32] lsb_step_inv [of v 16] lsb_step_inv [of v 8]
      lsb_step_inv [of v 4] lsb_step_inv [of v 2] lsb_step_inv [of v 1] by simp
  then have "bit v (fst s) \<and> (\<forall>i < fst s. \<not> bit v i)"
    by (auto simp: lsb_inv_def bit_drop_bit_eq)
  moreover have "findLsbSetFallback v = fst s"
    using assms by (simp add: findLsbSetFallback_def s_def)
  ultimately show ?thesis by simp
qed

section \<open>Bit reversal\<close>

definition reverseBitsLookUpTable :: "u8 list" where
  "reverseBitsLookUpTable =
   [0x00, 0x80, 0x40, 0xc0, 0x20, 0xa0, 0x60, 0xe0, 0x10, 0x90, 0x50, 0xd0,
    0x30, 0xb0, 0x70, 0xf0, 0x08, 0x88, 0x48, 0xc8, 0x28, 0xa8, 0x68, 0xe8,
    0x18, 0x98, 0x58, 0xd8, 0x38, 0xb8, 0x78, 0xf8, 0x04, 0x84, 0x44, 0xc4,
    0x24, 0xa4, 0x64, 0xe4, 0x14, 0x94, 0x54, 0xd4, 0x34, 0xb4, 0x74, 0xf4,
    0x0c, 0x8c, 0x4c, 0xcc, 0x2c, 0xac, 0x6c, 0xec, 0x1c, 0x9c, 0x5c, 0xdc,
    0x3c, 0xbc, 0x7c, 0xfc, 0x02, 0x82, 0x42, 0xc2, 0x22, 0xa2, 0x62, 0xe2,
    0x12, 0x92, 0x52, 0xd2, 0x32, 0xb2, 0x72, 0xf2, 0x0a, 0x8a, 0x4a, 0xca,
    0x2a, 0xaa, 0x6a, 0xea, 0x1a, 0x9a, 0x5a, 0xda, 0x3a, 0xba, 0x7a, 0xfa,
    0x06, 0x86, 0x46, 0xc6, 0x26, 0xa6, 0x66, 0xe6, 0x16, 0x96, 0x56, 0xd6,
    0x36, 0xb6, 0x76, 0xf6, 0x0e, 0x8e, 0x4e, 0xce, 0x2e, 0xae, 0x6e, 0xee,
    0x1e, 0x9e, 0x5e, 0xde, 0x3e, 0xbe, 0x7e, 0xfe, 0x01, 0x81, 0x41, 0xc1,
    0x21, 0xa1, 0x61, 0xe1, 0x11, 0x91, 0x51, 0xd1, 0x31, 0xb1, 0x71, 0xf1,
    0x09, 0x89, 0x49, 0xc9, 0x29, 0xa9, 0x69, 0xe9, 0x19, 0x99, 0x59, 0xd9,
    0x39, 0xb9, 0x79, 0xf9, 0x05, 0x85, 0x45, 0xc5, 0x25, 0xa5, 0x65, 0xe5,
    0x15, 0x95, 0x55, 0xd5, 0x35, 0xb5, 0x75, 0xf5, 0x0d, 0x8d, 0x4d, 0xcd,
    0x2d, 0xad, 0x6d, 0xed, 0x1d, 0x9d, 0x5d, 0xdd, 0x3d, 0xbd, 0x7d, 0xfd,
    0x03, 0x83, 0x43, 0xc3, 0x23, 0xa3, 0x63, 0xe3, 0x13, 0x93, 0x53, 0xd3,
    0x33, 0xb3, 0x73, 0xf3, 0x0b, 0x8b, 0x4b, 0xcb, 0x2b, 0xab, 0x6b, 0xeb,
    0x1b, 0x9b, 0x5b, 0xdb, 0x3b, 0xbb, 0x7b, 0xfb, 0x07, 0x87, 0x47, 0xc7,
    0x27, 0xa7, 0x67, 0xe7, 0x17, 0x97, 0x57, 0xd7, 0x37, 0xb7, 0x77, 0xf7,
    0x0f, 0x8f, 0x4f, 0xcf, 0x2f, 0xaf, 0x6f, 0xef, 0x1f, 0x9f, 0x5f, 0xdf,
    0x3f, 0xbf, 0x7f, 0xff]"

fun reverseBits_loop :: "nat \<Rightarrow> u64 \<Rightarrow> u64 \<Rightarrow> u64" where
  "reverseBits_loop 0 val out = out"
| "reverseBits_loop (Suc n) val out =
     reverseBits_loop n (drop_bit 8 val)
       (push_bit 8 out OR ucast (reverseBitsLookUpTable ! unat (val AND mask64 8)))"

definition reverseBits :: "u64 \<Rightarrow> nat \<Rightarrow> u64 res" where
  "reverseBits val nbytes =
     rbind (check (nbytes \<le> 8) Assertion) (\<lambda>_. Inr (reverseBits_loop nbytes val 0))"

lemma reverse_table_all:
  "list_all (\<lambda>(i, t). list_all (\<lambda>j. bit t j = bit i (7 - j)) [0..<8])
     (zip [0..255 :: int] reverseBitsLookUpTable)"
  by code_simp

lemma reverse_table_length: "length reverseBitsLookUpTable = 256"
  by (simp add: reverseBitsLookUpTable_def)

lemma reverse_table_bit:
  assumes "i < 256" "j < 8"
  shows "bit (reverseBitsLookUpTable ! i) j \<longleftrightarrow> bit i (7 - j)"
proof -
  have "(int i, reverseBitsLookUpTable ! i) \<in> set (zip [0..255] reverseBitsLookUpTable)"
    unfolding in_set_zip using assms(1)
    by (intro exI [of _ i]) (simp add: reverse_table_length nth_upto)
  with reverse_table_all assms(2)
  have "bit (reverseBitsLookUpTable ! i) j \<longleftrightarrow> bit (int i) (7 - j)"
    by (auto simp: list_all_iff)
  then show ?thesis by (simp add: bit_of_nat_iff_bit)
qed

lemma reverse_step_bit:
  assumes "j < 64"
  shows "bit (push_bit 8 out OR ucast (reverseBitsLookUpTable ! unat (v AND mask64 8)) :: u64) j
    \<longleftrightarrow> (if j < 8 then bit v (7 - j) else bit out (j - 8))"
proof -
  have "unat (v AND mask 8) < 256" by (simp add: unat_and_mask)
  moreover have "bit (unat (v AND mask 8)) (7 - j) \<longleftrightarrow> bit v (7 - j)" if "j < 8"
    using that by (auto simp: bit_unsigned_iff bit_and_iff bit_mask_iff)
  ultimately show ?thesis
    using assms by (auto simp: bit_or_iff bit_push_bit_iff bit_ucast_iff reverse_table_bit dest: bit_imp_le_length)
qed

lemma reverseBits_loop_bit:
  assumes "i < 64" "8 * n \<le> 64"
  shows "bit (reverseBits_loop n v out) i \<longleftrightarrow>
    (if i < 8 * n then bit v (8 * n - 1 - i) else bit out (i - 8 * n))"
  using assms
proof (induction n arbitrary: v out)
  case 0
  then show ?case by simp
next
  case (Suc n)
  show ?case
  proof (cases "i < 8 * n")
    case True
    then have "8 + (8 * n - Suc i) = 7 + 8 * n - i" by arith
    with Suc True show ?thesis
      by (simp add: bit_drop_bit_eq)
  next
    case False
    with Suc have "bit (reverseBits_loop (Suc n) v out) i \<longleftrightarrow>
        (if i - 8 * n < 8 then bit v (7 - (i - 8 * n)) else bit out (i - 8 * n - 8))"
      by (simp add: reverse_step_bit del: mask64_eq_mask)
    moreover have "7 - (i - 8 * n) = 8 * Suc n - 1 - i" "i - 8 * n - 8 = i - 8 * Suc n"
      "i - 8 * n < 8 \<longleftrightarrow> i < 8 * Suc n" using False by auto
    ultimately show ?thesis by simp
  qed
qed

section \<open>Properties\<close>

text \<open>Inserting a value into bits \<open>first\<close> down to \<open>low\<close> of a word and extracting the same range
  gives the value back, cut to the width of the range, and extracting any disjoint range gives
  what the word held before.\<close>

theorem insertBits_extract:
  assumes "insertBits v first low b = Inr w" "first < 64"
  shows "bits w first low = Inr (take_bit (first - low + 1) b) \<and>
    (\<forall>f l. l \<le> f \<and> f < 64 \<and> (f < low \<or> first < l) \<longrightarrow> bits w f l = bits v f l)"
proof -
  from assms(1) have le: "low \<le> first" by (auto simp: insertBits_def rbind_eq_Inr)
  have "bits_val w first low = take_bit (first - low + 1) b"
  proof (rule bit_eqI)
    fix i
    have "i \<le> first - low \<longleftrightarrow> low + i \<le> first" using le by auto
    then show "bit (bits_val w first low) i \<longleftrightarrow> bit (take_bit (first - low + 1) b) i"
      using insertBits_bit [OF assms(1), of "low + i"] assms(2)
      by (auto simp: bit_bits_val bit_take_bit_iff less_Suc_eq_le)
  qed
  moreover have "bits_val w f l = bits_val v f l" if "l \<le> f" "f < 64" "f < low \<or> first < l" for f l
  proof (rule bit_eqI)
    fix i
    have "i \<le> f - l \<longleftrightarrow> l + i \<le> f" using that(1) by auto
    then show "bit (bits_val w f l) i \<longleftrightarrow> bit (bits_val v f l) i"
      using insertBits_bit [OF assms(1), of "l + i"] that by (auto simp: bit_bits_val)
  qed
  ultimately show ?thesis using le by (auto simp: bits_def)
qed

theorem insertBits_extract_witness:
  "\<exists>w. insertBits 0xff00 7 4 0xa = Inr w \<and> bits w 7 4 = Inr (take_bit (7 - 4 + 1) 0xa) \<and>
    (\<forall>f l. l \<le> f \<and> f < 64 \<and> (f < 4 \<or> 7 < l) \<longrightarrow> bits w f l = bits 0xff00 f l)"
proof -
  obtain w where "insertBits 0xff00 7 4 0xa = Inr w" by (simp add: insertBits_def Let_def)
  with insertBits_extract [OF this] show ?thesis by simp
qed

text \<open>\<^verbatim>\<open>reverseBits\<close> on all eight bytes, which goes through the 256-entry table one byte at a time,
  mirrors the 64 bits, and so undoes itself.\<close>

theorem reverseBits_mirror:
  "\<exists>w. reverseBits v 8 = Inr w \<and> (\<forall>i < 64. bit w i \<longleftrightarrow> bit v (63 - i)) \<and> reverseBits w 8 = Inr v"
proof -
  let ?w = "reverseBits_loop 8 v 0"
  have bit: "bit (reverseBits_loop 8 x 0) i \<longleftrightarrow> bit x (63 - i)" if "i < 64" for x i
    using reverseBits_loop_bit [of i 8 x 0] that by simp
  have "reverseBits_loop 8 ?w 0 = v"
  proof (rule bit_word_eqI)
    fix i assume "i < LENGTH(64)"
    then show "bit (reverseBits_loop 8 ?w 0) i \<longleftrightarrow> bit v i"
      using bit [of i ?w] bit [of "63 - i" v] by simp
  qed
  with bit [of _ v] show ?thesis by (simp add: reverseBits_def)
qed

theorem reverseBits_mirror_witness: "\<exists>w. reverseBits 1 8 = Inr w \<and> bit w 63 \<and> \<not> bit w 62"
proof -
  from reverseBits_mirror [of 1] obtain w where
    "reverseBits 1 8 = Inr w" "\<forall>i < 64. bit w i \<longleftrightarrow> bit (1 :: u64) (63 - i)" by blast
  then show ?thesis by (simp add: bit_1_iff)
qed

text \<open>For a word that is not zero, \<^verbatim>\<open>findMsbSet\<close> and \<^verbatim>\<open>findLsbSetFallback\<close> return the positions
  of its highest and of its lowest set bit; for zero they return 0 and 64.\<close>

theorem find_set_bit_extremes:
  "if v = 0 then findMsbSet v = 0 \<and> findLsbSetFallback v = 64
   else bit v (findMsbSet v) \<and> bit v (findLsbSetFallback v) \<and>
     (\<forall>i. bit v i \<longrightarrow> findLsbSetFallback v \<le> i \<and> i \<le> findMsbSet v)"
proof (cases "v = 0")
  case True
  then show ?thesis by (simp add: findMsbSet_def findLsbSetFallback_def)
next
  case False
  with findMsbSet_bit [OF False] findLsbSetFallback_bit [OF False] show ?thesis
    by (auto simp: not_le [symmetric])
qed

theorem find_set_bit_extremes_witness:
  "findLsbSetFallback 12 \<le> 2 \<and> 3 \<le> findMsbSet 12 \<and> bit (12 :: u64) (findMsbSet 12)"
proof -
  have "bit (12 :: u64) 2" "bit (12 :: u64) 3" by (simp_all add: bit_word_iff_div)
  with find_set_bit_extremes [of 12] show ?thesis by simp
qed

end
