(* ===== verification/Int_Math.thy ===== *)
theory Int_Math
  imports Bitfield
begin

text \<open>
  Integer helpers of \<^verbatim>\<open>base/intmath.hh\<close> on 64-bit operands: logarithms, powers of two,
  rounding to an alignment, and the widening multiplications with their portable
  carry-by-hand versions.
\<close>

section \<open>Definitions\<close>

text \<open>
  One line of \<^verbatim>\<open>floorLog2\<close>: \<^verbatim>\<open>if (ts >= ... && (ux & m)) { y += k; ux >>= k; }\<close>; the last
  line of the source does not shift, which the result does not observe. The argument \<open>ts\<close> is
  \<^verbatim>\<open>sizeof(T)\<close>, for an unsigned \<^verbatim>\<open>T\<close>.
\<close>

definition flog_step :: "bool \<Rightarrow> u64 \<Rightarrow> nat \<Rightarrow> nat \<times> u64 \<Rightarrow> nat \<times> u64" where
  "flog_step en m k s = (case s of (y, ux) \<Rightarrow>
     if en \<and> ux AND m \<noteq> 0 then (y + k, drop_bit k ux) else (y, ux))"

definition floorLog2 :: "nat \<Rightarrow> u64 \<Rightarrow> nat res" where
  "floorLog2 ts ux =
     rbind (check (0 < ux) Assertion) (\<lambda>_. Inr (fst
       (flog_step True 0x2 1
       (flog_step True 0xc 2
       (flog_step True 0xf0 4
       (flog_step (2 \<le> ts) 0xff00 8
       (flog_step (4 \<le> ts) 0xffff0000 16
       (flog_step (8 \<le> ts) 0xffffffff00000000 32 (0, ux)))))))))"

definition ceilLog2 :: "nat \<Rightarrow> u64 \<Rightarrow> nat res" where
  "ceilLog2 ts n =
     rbind (check (0 < n) Assertion) (\<lambda>_.
       if n = 1 then Inr 0 else rbind (floorLog2 ts (n - 1)) (\<lambda>y. Inr (y + 1)))"

definition isPowerOf2 :: "u64 \<Rightarrow> bool" where
  "isPowerOf2 n \<longleftrightarrow> n \<noteq> 0 \<and> n AND (n - 1) = 0"

definition divCeil :: "u64 \<Rightarrow> u64 \<Rightarrow> u64 res" where
  "divCeil a b = (if b = 0 then Inl DivByZero else Inr ((a + b - 1) div b))"

definition mulUnsigned :: "u64 \<Rightarrow> u64 \<Rightarrow> u64 \<times> u64" where
  "mulUnsigned val_a val_b =
     (let val = (ucast val_a :: 128 word) * ucast val_b
      in (ucast (drop_bit 64 val), ucast val))"

definition mulUnsignedManual :: "u64 \<Rightarrow> u64 \<Rightarrow> u64 \<times> u64" where
  "mulUnsignedManual val_a val_b =
     (let low = val_a * val_b;
          A = ucast (ucast (drop_bit 32 val_a) :: u32);
          a = ucast (ucast val_a :: u32);
          B = ucast (ucast (drop_bit 32 val_b) :: u32);
          b = ucast (ucast val_b :: u32);
          ab = a * b; Ab = A * b; aB = a * B; AB = A * B;
          c1 = ucast (ucast (drop_bit 32 ab) :: u32);
          c2 = drop_bit 1 c1 + drop_bit 1 Ab + drop_bit 1 aB;
          c2 = c2 + drop_bit 1 ((c1 AND 1) + (Ab AND 1) + (aB AND 1));
          c2 = drop_bit 31 c2
      in (AB + c2, low))"

definition mulSignedManual :: "u64 \<Rightarrow> u64 \<Rightarrow> u64 \<times> u64" where
  "mulSignedManual val_a val_b =
     (case mulUnsigned val_a val_b of (u_high, u_low) \<Rightarrow>
        let u_high = (if sint val_a < 0 then u_high - val_b else u_high);
            u_high = (if sint val_b < 0 then u_high - val_a else u_high)
        in (u_high, u_low))"

definition roundUp :: "u64 \<Rightarrow> u64 \<Rightarrow> u64 res" where
  "roundUp val align =
     rbind (check (isPowerOf2 align) Assertion) (\<lambda>_.
       let mask = align - 1 in Inr ((val + mask) AND NOT mask))"

definition roundDown :: "u64 \<Rightarrow> u64 \<Rightarrow> u64 res" where
  "roundDown val align =
     rbind (check (isPowerOf2 align) Assertion) (\<lambda>_.
       let mask = align - 1 in Inr (val AND NOT mask))"

section \<open>Logarithms\<close>

lemma range_mask_zero_iff:
  assumes "0 < k"
  shows "u AND push_bit k (mask k) = 0 \<longleftrightarrow> bits_val u (2 * k - 1) k = (0 :: u64)"
proof -
  have "k + (2 * k - 1 - k) = 2 * k - 1" using assms by auto
  moreover have "k \<le> i \<and> i - k < k \<longleftrightarrow> k \<le> i \<and> i \<le> 2 * k - 1" for i using assms by auto
  moreover have "bit (u AND push_bit k (mask k)) i \<longleftrightarrow> k \<le> i \<and> i - k < k \<and> bit u i" for i
    using u64_bit_less [of u i] by (auto simp: bit_and_iff bit_push_bit_iff bit_mask_iff)
  then have "u AND push_bit k (mask k) = 0 \<longleftrightarrow> (\<forall>i. k \<le> i \<and> i - k < k \<longrightarrow> \<not> bit u i)"
    by (auto simp: word_zero_iff_bits)
  ultimately show ?thesis by (simp add: bits_val_zero_iff)
qed

lemma flog_step_msb:
  assumes "m = push_bit k (mask k)" "0 < k" "en \<or> unat (snd s) < 2 ^ k"
  shows "flog_step en m k s = msb_step k s"
proof -
  obtain y u where s: "s = (y, u)" by (cases s)
  have "bits_val u (2 * k - 1) k = 0" if "unat u < 2 ^ k"
  proof -
    from that have "drop_bit k u = 0" by (simp add: unat_drop_bit flip: unat_eq_zero)
    then show ?thesis by (simp add: bits_val_def)
  qed
  with assms show ?thesis
    by (auto simp: s flog_step_def msb_step_def range_mask_zero_iff)
qed

lemma snd_msb_step_small: "unat (snd s) < 2 ^ k \<Longrightarrow> unat (snd (msb_step j s)) < 2 ^ k"
  by (auto simp: msb_step_def unat_drop_bit split: prod.splits)
    (meson div_le_dividend le_less_trans)

lemma floorLog2_msb:
  assumes "x \<noteq> 0" "unat x < 2 ^ (8 * ts)" "ts \<in> {1, 2, 4, 8}"
  shows "floorLog2 ts x = Inr (findMsbSet x)"
proof -
  have small: "unat x < 2 ^ k" if "8 * ts \<le> k" for k
    using assms(2) that by (meson less_le_trans one_le_numeral power_increasing)
  have en: "(2 \<le> ts \<or> unat x < 2 ^ 8) \<and> (4 \<le> ts \<or> unat x < 2 ^ 16) \<and> (8 \<le> ts \<or> unat x < 2 ^ 32)"
    using small [of 8] small [of 16] small [of 32] assms(3) by auto
  have "flog_step (8 \<le> ts) 0xffffffff00000000 32 (0, x) = msb_step 32 (0, x)"
    by (rule flog_step_msb) (use en in \<open>auto simp: mask_eq_exp_minus_1\<close>)
  moreover have "flog_step (4 \<le> ts) 0xffff0000 16 s = msb_step 16 s" if "s = msb_step 32 (0, x)" for s
    by (rule flog_step_msb)
      (use en that snd_msb_step_small [where k = 16] in \<open>auto simp: mask_eq_exp_minus_1\<close>)
  moreover have "flog_step (2 \<le> ts) 0xff00 8 s = msb_step 8 s" if "s = msb_step 16 (msb_step 32 (0, x))" for s
    by (rule flog_step_msb)
      (use en that snd_msb_step_small [OF snd_msb_step_small, of "(0, x)" 8 16 32] in \<open>auto simp: mask_eq_exp_minus_1\<close>)
  moreover have "flog_step True 0xf0 4 s = msb_step 4 s" "flog_step True 0xc 2 s = msb_step 2 s"
    "flog_step True 0x2 1 s = msb_step 1 s" for s
    by (auto intro!: flog_step_msb simp: mask_eq_exp_minus_1)
  ultimately show ?thesis
    using assms(1) by (simp add: floorLog2_def findMsbSet_def word_greater_zero_iff)
qed

lemma msb_bounds:
  assumes "bit v r" "\<And>i. r < i \<Longrightarrow> \<not> bit (v :: u64) i"
  shows "2 ^ r \<le> unat v \<and> unat v < 2 ^ (r + 1)"
proof -
  from assms(1) have "odd (unat v div 2 ^ r)" by (simp add: bit_word_iff_div)
  then have "0 < unat v div 2 ^ r" by (metis even_zero gr0I)
  then have "2 ^ r \<le> unat v" by (simp add: div_greater_zero_iff)
  moreover have "drop_bit (r + 1) v = 0"
    using assms(2) by (auto simp: bit_eq_iff bit_drop_bit_eq)
  then have "unat v div 2 ^ (r + 1) = 0" by (metis unat_0 unat_drop_bit)
  then have "unat v < 2 ^ (r + 1)" by (simp add: div_eq_0_iff)
  ultimately show ?thesis by simp
qed

lemma findMsbSet_bounds: "v \<noteq> 0 \<Longrightarrow> 2 ^ findMsbSet v \<le> unat v \<and> unat v < 2 ^ (findMsbSet v + 1)"
  using findMsbSet_bit [of v] by (intro msb_bounds) auto

section \<open>Powers of two and alignment\<close>

lemma isPowerOf2_iff: "isPowerOf2 n \<longleftrightarrow> (\<exists>k < 64. n = 2 ^ k)"
proof
  assume p: "isPowerOf2 n"
  let ?r = "findMsbSet n"
  from p have nz: "n \<noteq> 0" by (simp add: isPowerOf2_def)
  then have r: "bit n ?r" "2 ^ ?r \<le> unat n" "unat n < 2 ^ (?r + 1)"
    using findMsbSet_bit findMsbSet_bounds by auto
  then have r64: "?r < 64" by (simp add: u64_bit_less)
  have "unat n = 2 ^ ?r"
  proof (rule ccontr)
    assume "unat n \<noteq> 2 ^ ?r"
    with r nz have "2 ^ ?r \<le> unat (n - 1)" "unat (n - 1) < 2 ^ (?r + 1)"
      by (auto simp: unat_minus_one)
    then have "unat (n - 1) div 2 ^ ?r = 1"
      by (simp add: div_nat_eqI)
    then have "bit (n - 1) ?r" by (simp add: bit_word_iff_div)
    with r(1) have "bit (n AND (n - 1)) ?r" by (simp add: bit_and_iff)
    with p show False by (auto simp: isPowerOf2_def)
  qed
  with r64 have "n = 2 ^ ?r" by (simp add: unat_power2 word_unat_eq_iff)
  with r64 show "\<exists>k < 64. n = 2 ^ k" by blast
next
  assume "\<exists>k < 64. n = 2 ^ k"
  then obtain k where k: "k < 64" "n = 2 ^ k" by blast
  have "n AND (n - 1) = 0"
    unfolding k(2) mask_eq_exp_minus_1 [symmetric]
    by (auto simp: word_zero_iff_bits bit_and_iff bit_mask_iff bit_exp_iff)
  moreover have "n \<noteq> 0" using k unat_power2 [where 'a = 64, of k] by auto
  ultimately show "isPowerOf2 n" by (simp add: isPowerOf2_def)
qed

lemma isPowerOf2E:
  assumes "isPowerOf2 n"
  obtains k where "k < 64" "n = 2 ^ k" "unat n = 2 ^ k" "n - 1 = mask k"
  using assms unat_power2 [where 'a = 64] by (auto simp: isPowerOf2_iff mask_eq_exp_minus_1)

lemma unat_and_not_mask: "unat (x AND NOT (mask k) :: u64) = unat x div 2 ^ k * 2 ^ k"
proof (cases "k < 64")
  case True
  have "x AND NOT (mask k) = push_bit k (drop_bit k x)"
    using u64_bit_less [of x] by (auto simp: bit_eq_iff bit_and_iff bit_not_iff bit_mask_iff bit_push_bit_iff bit_drop_bit_eq)
  then have "unat (x AND NOT (mask k)) = take_bit LENGTH(64) (push_bit k (unat (drop_bit k x)))"
    by (simp only: unsigned_push_bit_eq)
  then have "unat (x AND NOT (mask k)) = (unat x div 2 ^ k * 2 ^ k) mod 2 ^ 64"
    by (simp only: unat_drop_bit take_bit_eq_mod push_bit_eq_mult) simp
  moreover have "unat x div 2 ^ k * 2 ^ k < 2 ^ 64"
    using div_times_less_eq_dividend u64_unat_lt by (rule le_less_trans)
  ultimately show ?thesis by simp
next
  case False
  have "unat x < 2 ^ 64" by (rule u64_unat_lt)
  also have "(2::nat) ^ 64 \<le> 2 ^ k" using False by (intro power_increasing) auto
  finally have "unat x div 2 ^ k = 0" by simp
  moreover have "x AND NOT (mask k) = 0"
    using False by (auto simp: word_zero_iff_bits bit_and_iff bit_not_iff bit_mask_iff dest: u64_bit_less)
  ultimately show ?thesis by simp
qed

lemma roundDown_unat:
  "isPowerOf2 a \<Longrightarrow> \<exists>r. roundDown v a = Inr r \<and> unat r = unat v div unat a * unat a"
  by (auto elim!: isPowerOf2E simp: roundDown_def unat_and_not_mask)

lemma roundUp_unat:
  assumes "isPowerOf2 a" "unat v + unat a - 1 < 2 ^ 64"
  shows "\<exists>r. roundUp v a = Inr r \<and> unat r = (unat v + unat a - 1) div unat a * unat a"
proof -
  from assms(1) obtain k where k: "k < 64" "a = 2 ^ k" "unat a = 2 ^ k" "a - 1 = mask k"
    by (rule isPowerOf2E)
  have "unat (v + mask k) = unat v + unat a - 1"
    using assms(2) k unat_minus_one [of a] by (auto simp: unat_word_ariths(1) simp flip: k(4))
  then show ?thesis
    using assms(1) k by (simp add: roundUp_def unat_and_not_mask Let_def)
qed

section \<open>Widening multiplication\<close>

lemma unat_mult_u64: "unat x * unat y < 2 ^ 64 \<Longrightarrow> unat (x * y :: u64) = unat x * unat y"
  by (simp add: unat_word_ariths)

lemma unat_add_u64: "unat x + unat y < 2 ^ 64 \<Longrightarrow> unat (x + y :: u64) = unat x + unat y"
  by (simp add: unat_word_ariths)

lemma unat_and_1: "unat (x AND 1 :: u64) = unat x mod 2"
  using unat_and_mask [of x 1] by (simp add: mask_eq_exp_minus_1)

lemma mulUnsigned_high_low:
  assumes "mulUnsigned a b = (hi, lo)"
  shows "unat hi = unat a * unat b div 2 ^ 64" and "lo = a * b"
proof -
  let ?p = "(ucast a :: 128 word) * ucast b"
  have lt: "unat a * unat b < 2 ^ 128"
    using mult_strict_mono [OF u64_unat_lt [of a] u64_unat_lt [of b]] by simp
  have c: "unat (ucast x :: 128 word) = unat x" for x :: u64
    using u64_unat_lt [of x] by (simp add: unat_ucast)
  have p: "unat ?p = unat a * unat b"
    using lt by (simp add: unat_word_ariths(2) c)
  have "unat hi = unat (drop_bit 64 ?p) mod 2 ^ 64"
    using assms by (auto simp: mulUnsigned_def Let_def unat_ucast)
  also have "\<dots> = (unat a * unat b div 2 ^ 64) mod 2 ^ 64"
    by (simp only: unat_drop_bit p)
  also have "\<dots> = unat a * unat b div 2 ^ 64"
    using lt by (simp add: less_mult_imp_div_less)
  finally show "unat hi = unat a * unat b div 2 ^ 64" .
  have "lo = ucast ?p" using assms by (auto simp: mulUnsigned_def Let_def)
  then have "unat lo = unat a * unat b mod 2 ^ 64" by (simp add: unat_ucast p)
  then have "unat lo = unat (a * b)" by (simp add: unat_word_ariths(2))
  then show "lo = a * b" by (simp add: word_unat_eq_iff)
qed

lemma halves_sum_parts:
  "(2 * p + r + (2 * q + s) + (2 * t + u)) div 2 = p + q + t + (r + s + u) div (2::nat)"
proof -
  have "2 * p + r + (2 * q + s) + (2 * t + u) = (r + s + u) + 2 * (p + q + t)" by simp
  then show ?thesis by (simp only: div_mult_self2)
qed

lemma halves_sum:
  "(c::nat) div 2 + x div 2 + y div 2 + (c mod 2 + x mod 2 + y mod 2) div 2 = (c + x + y) div 2"
  using halves_sum_parts [of "c div 2" "c mod 2" "x div 2" "x mod 2" "y div 2" "y mod 2"]
  by (simp only: mult_div_mod_eq)

lemma split_product:
  fixes A a B b M :: nat
  assumes "0 < M"
  shows "(A * M + a) * (B * M + b) div (M * M) = A * B + (a * b div M + A * b + a * B) div M"
proof -
  have "(A * M + a) * (B * M + b) = a * b + M * (A * b + a * B + M * (A * B))"
    by (simp add: algebra_simps)
  then have "(A * M + a) * (B * M + b) div (M * M) = (a * b + M * (A * b + a * B + M * (A * B))) div M div M"
    by (simp add: div_mult2_eq)
  also have "(a * b + M * (A * b + a * B + M * (A * B))) div M = a * b div M + A * b + a * B + M * (A * B)"
    using assms by simp
  also have "(a * b div M + A * b + a * B + M * (A * B)) div M = A * B + (a * b div M + A * b + a * B) div M"
    using assms by simp
  finally show ?thesis .
qed

lemma carry_sum:
  fixes c x y :: u64
  assumes "unat c < 2 ^ 32" "unat x + unat y + unat c < 2 ^ 65"
  shows "unat (drop_bit 1 c + drop_bit 1 x + drop_bit 1 y + drop_bit 1 ((c AND 1) + (x AND 1) + (y AND 1))) =
    (unat c + unat x + unat y) div 2"
proof -
  have low: "unat ((c AND 1) + (x AND 1) + (y AND 1)) = unat c mod 2 + unat x mod 2 + unat y mod 2"
    by (simp add: unat_word_ariths(1) unat_and_1)
  define p q r s where "p = drop_bit 1 c" "q = drop_bit 1 x" "r = drop_bit 1 y"
    "s = drop_bit 1 ((c AND 1) + (x AND 1) + (y AND 1))"
  note defs = this
  have u: "unat p = unat c div 2" "unat q = unat x div 2" "unat r = unat y div 2"
    "unat s = (unat c mod 2 + unat x mod 2 + unat y mod 2) div 2"
    by (simp_all only: defs unat_drop_bit low power_one_right)
  have sum: "unat p + unat q + unat r + unat s = (unat c + unat x + unat y) div 2"
    unfolding u by (rule halves_sum)
  moreover have "(unat c + unat x + unat y) div 2 < 2 ^ 64" using assms(2) by simp
  ultimately have b: "unat p + unat q + unat r + unat s < 2 ^ 64" by simp
  then have pq: "unat (p + q) = unat p + unat q" by (intro unat_add_u64) simp
  then have pqr: "unat (p + q + r) = unat p + unat q + unat r"
    using b by (subst unat_add_u64) simp_all
  then have "unat (p + q + r + s) = unat p + unat q + unat r + unat s"
    using b by (subst unat_add_u64) simp_all
  with sum show ?thesis unfolding defs by simp
qed

lemma mulUnsignedManual_eq: "mulUnsignedManual va vb = mulUnsigned va vb"
proof -
  define A a B b where "A = unat va div 2 ^ 32" "a = unat va mod 2 ^ 32"
    "B = unat vb div 2 ^ 32" "b = unat vb mod 2 ^ 32"
  note defs = this
  have lt: "A < 2 ^ 32" "a < 2 ^ 32" "B < 2 ^ 32" "b < 2 ^ 32"
    using u64_unat_lt [of va] u64_unat_lt [of vb] by (auto simp: defs less_mult_imp_div_less)
  define wA wa wB wb :: u64 where "wA = ucast (ucast (drop_bit 32 va) :: u32)"
    "wa = ucast (ucast va :: u32)" "wB = ucast (ucast (drop_bit 32 vb) :: u32)" "wb = ucast (ucast vb :: u32)"
  note wdefs = this
  have w: "unat wA = A" "unat wa = a" "unat wB = B" "unat wb = b"
    using lt by (auto simp: wdefs defs unat_ucast unat_drop_bit)
  have le: "x * y \<le> 18446744065119617025" if "x < 2 ^ 32" "y < 2 ^ 32" for x y :: nat
    using mult_mono [of x "2 ^ 32 - 1" y "2 ^ 32 - 1"] that by simp
  have prod: "unat (x * y) = unat x * unat y" if "unat x < 2 ^ 32" "unat y < 2 ^ 32" for x y :: u64
    using le [OF that] by (intro unat_mult_u64) simp
  define c1 :: u64 where "c1 = ucast (ucast (drop_bit 32 (wa * wb)) :: u32)"
  have ab: "a * b div 2 ^ 32 < 2 ^ 32" using le [OF lt(2,4)] by (simp add: less_mult_imp_div_less)
  then have c1: "unat c1 = a * b div 2 ^ 32"
    using lt by (simp add: c1_def unat_ucast unat_drop_bit prod w)
  have bound: "A * b + a * B + a * b div 2 ^ 32 < 2 ^ 65"
    using le [OF lt(1,4)] le [OF lt(2,3)] ab by simp
  define c2 where "c2 = drop_bit 1 c1 + drop_bit 1 (wA * wb) + drop_bit 1 (wa * wB) +
      drop_bit 1 ((c1 AND 1) + (wA * wb AND 1) + (wa * wB AND 1))"
  have pw: "unat (wA * wb) = A * b" "unat (wa * wB) = a * B" "unat (wA * wB) = A * B"
    using lt by (simp_all add: prod w)
  have "unat c2 = (a * b div 2 ^ 32 + A * b + a * B) div 2"
    unfolding c2_def using carry_sum [of c1 "wA * wb" "wa * wB"] ab bound by (simp only: c1 pw)
  then have c2: "unat (drop_bit 31 c2) = (a * b div 2 ^ 32 + A * b + a * B) div 2 ^ 32"
    by (simp add: unat_drop_bit div_mult2_eq [symmetric])
  have low: "snd (mulUnsignedManual va vb) = va * vb" "fst (mulUnsignedManual va vb) = wA * wB + drop_bit 31 c2"
    by (simp_all add: mulUnsignedManual_def Let_def c2_def c1_def wdefs)
  have v: "unat va = A * 2 ^ 32 + a" "unat vb = B * 2 ^ 32 + b" by (simp_all add: defs)
  have hi: "unat va * unat vb div 2 ^ 64 = A * B + (a * b div 2 ^ 32 + A * b + a * B) div 2 ^ 32"
    using split_product [of "2 ^ 32" A a B b] by (simp add: v)
  have "unat va * unat vb div 2 ^ 64 < 2 ^ 64"
    using mult_strict_mono [OF u64_unat_lt [of va] u64_unat_lt [of vb]] by (simp add: less_mult_imp_div_less)
  then have "unat (fst (mulUnsignedManual va vb)) = unat va * unat vb div 2 ^ 64"
    unfolding low hi using pw(3) c2 by (subst unat_add_u64) simp_all
  moreover obtain h l where m: "mulUnsigned va vb = (h, l)" by fastforce
  ultimately have "fst (mulUnsignedManual va vb) = h" "snd (mulUnsignedManual va vb) = l"
    using mulUnsigned_high_low [OF m] low by (simp_all add: word_unat_eq_iff)
  then show ?thesis unfolding m by (simp add: prod_eq_iff)
qed

lemma sint_uint_u64: "sint (a :: u64) = uint a - 2 ^ 64 * (if sint a < 0 then 1 else 0)"
proof -
  have "sint a = signed_take_bit 63 (uint a)" by (simp add: sint_uint)
  also have "\<dots> = (uint a + 2 ^ 63) mod 2 ^ 64 - 2 ^ 63"
    unfolding signed_take_bit_eq_take_bit_shift take_bit_eq_mod by simp
  finally have s: "sint a = (uint a + 2 ^ 63) mod 2 ^ 64 - 2 ^ 63" .
  have r: "0 \<le> uint a" "uint a < 2 ^ 64" using uint_lt2p [of a] by simp_all
  show ?thesis
  proof (cases "uint a < 2 ^ 63")
    case True
    with r have "(uint a + 2 ^ 63) mod 2 ^ 64 = uint a + 2 ^ 63" by (intro mod_pos_pos_trivial) auto
    with s r show ?thesis by simp
  next
    case False
    with r have "(uint a + 2 ^ 63 - 2 ^ 64) mod 2 ^ 64 = uint a + 2 ^ 63 - 2 ^ 64"
      by (intro mod_pos_pos_trivial) auto
    then have "(uint a + 2 ^ 63) mod 2 ^ 64 = uint a + 2 ^ 63 - 2 ^ 64"
      by (simp only: minus_mod_self2)
    with s r show ?thesis by simp
  qed
qed

lemma sint_word_of_int_u64:
  assumes "- (2 ^ 63) \<le> k" "k < 2 ^ 63"
  shows "sint (word_of_int k :: u64) = k"
proof -
  have "sint (word_of_int k :: u64) = signed_take_bit 63 k" by (simp add: signed_of_int)
  also have "\<dots> = k" using assms by (simp add: signed_take_bit_int_eq_self)
  finally show ?thesis .
qed

lemma signed_expand: "(x - M * s) * (y - M * t) = x * y - M * (s * y + t * x) + M * (M * (s * t :: int))"
  by (simp add: algebra_simps)

lemma mulSignedManual_high_low:
  assumes "mulSignedManual a b = (hi, lo)"
  shows "sint hi * 2 ^ 64 + uint lo = sint a * sint b"
proof -
  define sa sb :: int where "sa = (if sint a < 0 then 1 else 0)" "sb = (if sint b < 0 then 1 else 0)"
  note s_defs = this
  obtain h l where m: "mulUnsigned a b = (h, l)" by fastforce
  note hl = mulUnsigned_high_low [OF m]
  define P K where "P = uint a * uint b" "K = P div 2 ^ 64 - sa * uint b - sb * uint a + 2 ^ 64 * (sa * sb)"
  note defs = this
  have h: "uint h = P div 2 ^ 64"
    using hl(1) unfolding defs uint_nat by (simp add: zdiv_int)
  have lo: "lo = a * b" using assms m hl(2) by (auto simp: mulSignedManual_def Let_def split: if_splits)
  then have lo': "uint lo = P mod 2 ^ 64" by (simp add: uint_mult_lem uint_word_ariths defs)
  have "sint a = uint a - 2 ^ 64 * sa" "sint b = uint b - 2 ^ 64 * sb"
    unfolding s_defs by (rule sint_uint_u64)+
  then have "sint a * sint b = P - 2 ^ 64 * (sa * uint b + sb * uint a) + 2 ^ 64 * (2 ^ 64 * (sa * sb))"
    by (simp only: signed_expand defs(1))
  moreover have "P = 2 ^ 64 * (P div 2 ^ 64) + P mod 2 ^ 64" by (simp only: mult_div_mod_eq)
  ultimately have prod: "sint a * sint b = K * 2 ^ 64 + P mod 2 ^ 64"
    unfolding defs(2) by (simp add: algebra_simps)
  have "hi = h - word_of_int sa * b - word_of_int sb * a"
    using assms m by (auto simp: mulSignedManual_def Let_def s_defs split: if_splits)
  also have "\<dots> = word_of_int (uint h - sa * uint b - sb * uint a) + word_of_int (2 ^ 64 * (sa * sb))"
    by (simp add: s_defs)
  also have "\<dots> = word_of_int K" unfolding defs(2) h by (simp only: of_int_add [symmetric])
  finally have hi: "hi = word_of_int K" .
  have "\<bar>sint x\<bar> \<le> 2 ^ 63" for x :: u64
    using sint_greater_eq [of x] sint_less [of x] by (simp add: abs_le_iff)
  then have "\<bar>sint a * sint b\<bar> \<le> 2 ^ 63 * 2 ^ 63" unfolding abs_mult by (intro mult_mono) auto
  then have "\<bar>K * 2 ^ 64 + P mod 2 ^ 64\<bar> \<le> 2 ^ 126" by (simp only: prod) simp
  moreover have "0 \<le> P mod 2 ^ 64" "P mod 2 ^ 64 < 2 ^ 64" by simp_all
  ultimately have "- (2 ^ 63) \<le> K \<and> K < 2 ^ 63" by (simp add: abs_le_iff) linarith
  then have "sint hi = K" unfolding hi by (simp only: sint_word_of_int_u64)
  then show ?thesis by (simp only: prod lo')
qed

section \<open>Properties\<close>

lemma ceilLog2_msb:
  assumes "1 < n" "unat n < 2 ^ (8 * ts)" "ts \<in> {1, 2, 4, 8}"
  shows "ceilLog2 ts n = Inr (findMsbSet (n - 1) + 1)" and "n - 1 \<noteq> 0" and "unat (n - 1) = unat n - 1"
proof -
  show nz: "n - 1 \<noteq> 0" using assms(1) by auto
  show u: "unat (n - 1) = unat n - 1" using assms(1) by (intro unat_minus_one) auto
  then have "floorLog2 ts (n - 1) = Inr (findMsbSet (n - 1))"
    using nz assms by (intro floorLog2_msb) auto
  moreover have "0 < n" "n \<noteq> 1" using assms(1) by (auto simp: word_greater_zero_iff)
  ultimately show "ceilLog2 ts n = Inr (findMsbSet (n - 1) + 1)"
    by (simp add: ceilLog2_def)
qed

text \<open>For an operand \<open>n\<close> larger than one that fits its type, \<^verbatim>\<open>floorLog2\<close> and \<^verbatim>\<open>ceilLog2\<close> return
  the exponents of the powers of two that enclose it from below and from above.\<close>

theorem log2_encloses:
  assumes "1 < n" "unat n < 2 ^ (8 * ts)" "ts \<in> {1, 2, 4, 8}"
  shows "\<exists>fl ce. floorLog2 ts n = Inr fl \<and> ceilLog2 ts n = Inr ce \<and>
    2 ^ fl \<le> unat n \<and> unat n < 2 ^ (fl + 1) \<and> 2 ^ (ce - 1) < unat n \<and> unat n \<le> 2 ^ ce"
proof -
  have nz: "n \<noteq> 0" using assms(1) by auto
  note c = ceilLog2_msb [OF assms]
  show ?thesis
    using floorLog2_msb [OF nz assms(2,3)] findMsbSet_bounds [OF nz] findMsbSet_bounds [OF c(2)] c(1,3)
    by auto
qed

theorem log2_encloses_witness:
  "\<exists>fl ce. floorLog2 4 100 = Inr fl \<and> ceilLog2 4 100 = Inr ce \<and>
    2 ^ fl \<le> unat (100 :: u64) \<and> unat (100 :: u64) < 2 ^ (fl + 1) \<and>
    2 ^ (ce - 1) < unat (100 :: u64) \<and> unat (100 :: u64) \<le> 2 ^ ce"
  by (rule log2_encloses) simp_all

text \<open>\<^verbatim>\<open>roundUp\<close> to a power-of-two alignment returns the least multiple of the alignment that is not
  below its argument, and \<^verbatim>\<open>roundDown\<close> the greatest one not above it, as long as the sum does
  not leave 64 bits; any other alignment fails the assertion in both.\<close>

theorem round_to_alignment:
  assumes "unat v + unat a \<le> 2 ^ 64"
  shows "if isPowerOf2 a
    then \<exists>up dn. roundUp v a = Inr up \<and> roundDown v a = Inr dn \<and>
      unat a dvd unat up \<and> unat v \<le> unat up \<and> unat up < unat v + unat a \<and>
      unat a dvd unat dn \<and> unat dn \<le> unat v \<and> unat v < unat dn + unat a
    else roundUp v a = Inl Assertion \<and> roundDown v a = Inl Assertion"
proof (cases "isPowerOf2 a")
  case True
  then have pos: "0 < unat a" by (auto elim: isPowerOf2E)
  have "unat v + unat a - 1 < 2 ^ 64" using assms pos by linarith
  then obtain up where up: "roundUp v a = Inr up" "unat up = (unat v + unat a - 1) div unat a * unat a"
    using roundUp_unat [OF True, of v] by blast
  obtain dn where dn: "roundDown v a = Inr dn" "unat dn = unat v div unat a * unat a"
    using roundDown_unat [OF True, of v] by auto
  have split: "x = x div unat a * unat a + x mod unat a" "x mod unat a < unat a" for x
    using pos by simp_all
  have "unat v \<le> unat up \<and> unat up < unat v + unat a"
    unfolding up(2) using split [of "unat v + unat a - 1"] pos by linarith
  moreover have "unat dn \<le> unat v \<and> unat v < unat dn + unat a"
    unfolding dn(2) using split [of "unat v"] by linarith
  ultimately show ?thesis using True up dn by simp
next
  case False
  then show ?thesis by (simp add: roundUp_def roundDown_def)
qed

theorem round_to_alignment_witness:
  "\<exists>up dn. roundUp 1000 64 = Inr up \<and> roundDown 1000 64 = Inr dn \<and>
      unat (64 :: u64) dvd unat up \<and> unat (1000 :: u64) \<le> unat up \<and> unat up < unat (1000 :: u64) + unat (64 :: u64) \<and>
      unat (64 :: u64) dvd unat dn \<and> unat dn \<le> unat (1000 :: u64) \<and> unat (1000 :: u64) < unat dn + unat (64 :: u64)"
proof -
  have "isPowerOf2 64" by (simp add: isPowerOf2_def)
  with round_to_alignment [of 1000 64] show ?thesis by simp
qed

text \<open>The portable 64 by 64 bit multiplications are exact: the pair of words that
  \<^verbatim>\<open>mulUnsignedManual\<close> returns is the 128-bit product and equals what the \<^verbatim>\<open>__uint128_t\<close> version
  returns, and the pair of \<^verbatim>\<open>mulSignedManual\<close>, its high word read as two's complement, is the
  signed product.\<close>

theorem manual_multiplication_exact:
  "mulUnsignedManual a b = mulUnsigned a b \<and>
   (case mulUnsignedManual a b of (hi, lo) \<Rightarrow> unat hi * 2 ^ 64 + unat lo = unat a * unat b) \<and>
   (case mulSignedManual a b of (hi, lo) \<Rightarrow> sint hi * 2 ^ 64 + uint lo = sint a * sint b)"
proof -
  obtain h l where m: "mulUnsigned a b = (h, l)" by fastforce
  have "unat h * 2 ^ 64 + unat l = unat a * unat b"
    using mulUnsigned_high_low [OF m] div_mult_mod_eq [of "unat a * unat b" "2 ^ 64"]
    by (simp add: unat_word_ariths(2))
  moreover obtain h' l' where s: "mulSignedManual a b = (h', l')" by fastforce
  ultimately show ?thesis
    using mulSignedManual_high_low [OF s] by (simp add: mulUnsignedManual_eq m s)
qed

end
