(* ===== verification/Sat_Counter.thy ===== *)
theory Sat_Counter
  imports Gem5_Prelude
begin

text \<open>
  The saturating counter of \<^verbatim>\<open>base/sat_counter.hh\<close> (\<^verbatim>\<open>GenericSatCounter\<close>), for any unsigned
  counter type, and the contract its clients rely on: every operation keeps the counter
  between zero and its maximum, and moves it the way exact arithmetic cut to that range would.
\<close>

section \<open>The counter\<close>

record 'w sat_counter =
  initialVal :: 'w
  maxVal :: 'w
  counter :: 'w

definition mk_sat_counter :: "nat \<Rightarrow> 'a word \<Rightarrow> 'a::len word sat_counter res" where
  "mk_sat_counter nbits initial_val =
     (let mx = ucast (push_bit nbits (1 :: u64) - 1) in
      rbind (check (nbits \<le> LENGTH('a)) Fatal) (\<lambda>_.
      rbind (check (initial_val \<le> mx) Fatal) (\<lambda>_.
        Inr \<lparr>initialVal = initial_val, maxVal = mx, counter = initial_val\<rparr>)))"

definition sc_swap :: "'a::len word sat_counter \<times> 'a word sat_counter \<Rightarrow> 'a word sat_counter \<times> 'a word sat_counter" where
  "sc_swap p = (case p of (this, other) \<Rightarrow> (other, this))"

text \<open>Move construction and move assignment leave \<^verbatim>\<open>GenericSatCounter(0)\<close> in the source object.\<close>

definition sc_move :: "'a::len word sat_counter \<Rightarrow> ('a word sat_counter \<times> 'a word sat_counter) res" where
  "sc_move other = rbind (mk_sat_counter 0 0) (\<lambda>temp. Inr (other, temp))"

definition sc_inc :: "'a::len word sat_counter \<Rightarrow> 'a word sat_counter" where
  "sc_inc c = (if counter c < maxVal c then c\<lparr>counter := counter c + 1\<rparr> else c)"

definition sc_dec :: "'a::len word sat_counter \<Rightarrow> 'a word sat_counter" where
  "sc_dec c = (if 0 < counter c then c\<lparr>counter := counter c - 1\<rparr> else c)"

definition sc_shr :: "'a::len word sat_counter \<Rightarrow> int \<Rightarrow> 'a word sat_counter res" where
  "sc_shr c shift = rbind (check (0 \<le> shift) Assertion) (\<lambda>_.
     Inr (c\<lparr>counter := drop_bit (nat shift) (counter c)\<rparr>))"

definition sc_shl :: "'a::len word sat_counter \<Rightarrow> int \<Rightarrow> 'a word sat_counter res" where
  "sc_shl c shift = rbind (check (0 \<le> shift) Assertion) (\<lambda>_.
     let c' = c\<lparr>counter := push_bit (nat shift) (counter c)\<rparr>
     in Inr (if maxVal c' < counter c' then c'\<lparr>counter := maxVal c'\<rparr> else c'))"

definition sc_add_nonneg :: "'a::len word sat_counter \<Rightarrow> int \<Rightarrow> 'a word sat_counter" where
  "sc_add_nonneg c value =
     (if value \<le> uint (maxVal c - counter c) then c\<lparr>counter := counter c + word_of_int value\<rparr>
      else c\<lparr>counter := maxVal c\<rparr>)"

definition sc_sub_nonneg :: "'a::len word sat_counter \<Rightarrow> int \<Rightarrow> 'a word sat_counter" where
  "sc_sub_nonneg c value =
     (if value < uint (counter c) then c\<lparr>counter := counter c - word_of_int value\<rparr>
      else c\<lparr>counter := 0\<rparr>)"

definition sc_add :: "'a::len word sat_counter \<Rightarrow> int \<Rightarrow> 'a word sat_counter" where
  "sc_add c value = (if 0 \<le> value then sc_add_nonneg c value else sc_sub_nonneg c (- value))"

definition sc_sub :: "'a::len word sat_counter \<Rightarrow> int \<Rightarrow> 'a word sat_counter" where
  "sc_sub c value = (if 0 \<le> value then sc_sub_nonneg c value else sc_add_nonneg c (- value))"

definition sc_reset :: "'a::len word sat_counter \<Rightarrow> 'a word sat_counter" where
  "sc_reset c = c\<lparr>counter := initialVal c\<rparr>"

definition isSaturated :: "'a::len word sat_counter \<Rightarrow> bool" where
  "isSaturated c \<longleftrightarrow> counter c = maxVal c"

definition saturate :: "'a::len word sat_counter \<Rightarrow> 'a word \<times> 'a word sat_counter" where
  "saturate c = (maxVal c - counter c, c\<lparr>counter := maxVal c\<rparr>)"

text \<open>Well-formedness, and the readings of the two fields as numbers.\<close>

definition sat_wf :: "'a::len word sat_counter \<Rightarrow> bool" where
  "sat_wf c \<longleftrightarrow> counter c \<le> maxVal c \<and> initialVal c \<le> maxVal c"

abbreviation sc_val :: "'a::len word sat_counter \<Rightarrow> nat" where
  "sc_val c \<equiv> unat (counter c)"

abbreviation sc_max :: "'a::len word sat_counter \<Rightarrow> nat" where
  "sc_max c \<equiv> unat (maxVal c)"

lemmas sc_defs = sc_inc_def sc_dec_def sc_add_def sc_sub_def sc_add_nonneg_def sc_sub_nonneg_def
  sc_reset_def saturate_def

lemma unat_Suc_less: "(x :: 'a::len word) < y \<Longrightarrow> unat (x + 1) = unat x + 1"
proof -
  assume "x < y"
  then have "unat x + 1 < 2 ^ LENGTH('a)"
    using unat_lt_size [of y] unfolding word_less_nat_alt by linarith
  then show ?thesis by (simp add: unat_word_ariths)
qed

lemma sc_val_inc: "sat_wf c \<Longrightarrow> sc_val (sc_inc c) = min (sc_max c) (sc_val c + 1)"
  by (auto simp: sc_inc_def sat_wf_def unat_Suc_less word_le_nat_alt word_less_nat_alt min_def)

lemma sc_val_dec: "sat_wf c \<Longrightarrow> sc_val (sc_dec c) = sc_val c - 1"
  by (auto simp: sc_dec_def unat_minus_one word_greater_zero_iff)

lemma sc_max_ops [simp]:
  "maxVal (sc_inc c) = maxVal c" "maxVal (sc_dec c) = maxVal c" "maxVal (sc_add c v) = maxVal c"
  "maxVal (sc_sub c v) = maxVal c" "maxVal (sc_reset c) = maxVal c" "maxVal (snd (saturate c)) = maxVal c"
  by (simp_all add: sc_defs)

lemma sc_initial_ops [simp]:
  "initialVal (sc_inc c) = initialVal c" "initialVal (sc_dec c) = initialVal c"
  "initialVal (sc_add c v) = initialVal c" "initialVal (sc_sub c v) = initialVal c"
  "initialVal (sc_reset c) = initialVal c" "initialVal (snd (saturate c)) = initialVal c"
  by (simp_all add: sc_defs)

lemma sat_wf_inc [intro]: "sat_wf c \<Longrightarrow> sat_wf (sc_inc c)"
  using sc_val_inc [of c] by (auto simp: sat_wf_def word_le_nat_alt)

lemma sat_wf_dec [intro]: "sat_wf c \<Longrightarrow> sat_wf (sc_dec c)"
  using sc_val_dec [of c] by (auto simp: sat_wf_def word_le_nat_alt)

lemma sc_add_nonneg_val:
  assumes "sat_wf c" "0 \<le> v"
  shows "int (sc_val (sc_add_nonneg c v)) = min (int (sc_max c)) (int (sc_val c) + v)"
proof (cases "v \<le> uint (maxVal c - counter c)")
  case True
  have u: "unat (maxVal c - counter c) = sc_max c - sc_val c"
    using assms(1) by (intro unat_sub) (simp add: sat_wf_def)
  have v: "unat (word_of_int v :: 'a word) = nat v"
    using uint_word_of_int_below [OF assms(2) True] by (simp flip: nat_uint_eq)
  have le: "sc_val c \<le> sc_max c" using assms(1) by (simp add: sat_wf_def word_le_nat_alt)
  have vle: "nat v \<le> sc_max c - sc_val c" using True assms(2) u unfolding uint_nat by linarith
  then have "sc_val c + nat v < 2 ^ LENGTH('a)"
    using le unat_lt_size [of "maxVal c"] by linarith
  then have "unat (counter c + word_of_int v) = sc_val c + nat v"
    by (simp add: unat_word_ariths v)
  moreover have "int (sc_val c) + v \<le> int (sc_max c)" using vle le assms(2) by linarith
  ultimately show ?thesis using True assms(2) by (simp add: sc_add_nonneg_def min_def)
next
  case False
  have "unat (maxVal c - counter c) = sc_max c - sc_val c"
    using assms(1) by (intro unat_sub) (simp add: sat_wf_def)
  moreover have "sc_val c \<le> sc_max c" using assms(1) by (simp add: sat_wf_def word_le_nat_alt)
  ultimately have "int (sc_max c) \<le> int (sc_val c) + v" using False unfolding uint_nat by linarith
  then show ?thesis using False by (simp add: sc_add_nonneg_def min_def)
qed

lemma sc_sub_nonneg_val:
  assumes "0 \<le> v"
  shows "int (sc_val (sc_sub_nonneg c v)) = max 0 (int (sc_val c) - v)"
proof (cases "v < uint (counter c)")
  case True
  with assms have v: "uint (word_of_int v :: 'a word) = v"
    using uint_word_of_int_below [of v "counter c"] by simp
  then have "word_of_int v \<le> counter c" using True by (simp add: word_le_def)
  then have "unat (counter c - word_of_int v) = sc_val c - unat (word_of_int v :: 'a word)"
    by (rule unat_sub)
  moreover have "int (unat (word_of_int v :: 'a word)) = v" using v by simp
  ultimately have "int (unat (counter c - word_of_int v)) = int (sc_val c) - v"
    using True unfolding uint_nat by linarith
  with True show ?thesis by (simp add: sc_sub_nonneg_def)
next
  case False
  then show ?thesis by (simp add: sc_sub_nonneg_def)
qed

section \<open>The contract of an up/down counter\<close>

text \<open>
  What the predictors assume of a counter: a value between zero and a maximum that the two
  operations move by one and clamp. The lemmas of the locale are the training facts.
\<close>

locale up_down_counter =
  fixes inc dec :: "'c \<Rightarrow> 'c" and val top :: "'c \<Rightarrow> nat" and ok :: "'c \<Rightarrow> bool"
  assumes ok_inc: "ok c \<Longrightarrow> ok (inc c)"
    and ok_dec: "ok c \<Longrightarrow> ok (dec c)"
    and val_inc: "ok c \<Longrightarrow> val (inc c) = min (top c) (val c + 1)"
    and val_dec: "ok c \<Longrightarrow> val (dec c) = val c - 1"
    and top_inc: "top (inc c) = top c"
    and top_dec: "top (dec c) = top c"
    and val_top: "ok c \<Longrightarrow> val c \<le> top c"
begin

lemma ok_step: "ok c \<Longrightarrow> ok (if up then inc c else dec c)"
  by (simp add: ok_inc ok_dec)

lemma iterate_inc:
  assumes "ok c"
  shows "ok ((inc ^^ n) c) \<and> top ((inc ^^ n) c) = top c \<and> val ((inc ^^ n) c) = min (top c) (val c + n)"
  using assms by (induction n) (auto simp: ok_inc val_inc top_inc val_top)

lemma iterate_dec:
  assumes "ok c"
  shows "ok ((dec ^^ n) c) \<and> top ((dec ^^ n) c) = top c \<and> val ((dec ^^ n) c) = val c - n"
  using assms by (induction n) (auto simp: ok_dec val_dec top_dec)

lemma saturates_up: "ok c \<Longrightarrow> top c \<le> n \<Longrightarrow> val ((inc ^^ n) c) = top c"
  using iterate_inc [of c n] by simp

lemma saturates_down: "ok c \<Longrightarrow> top c \<le> n \<Longrightarrow> val ((dec ^^ n) c) = 0"
  using iterate_dec [of c n] val_top [of c] by simp

lemma hysteresis:
  assumes "ok c" "val c = top c" "2 \<le> top c" "t < top c - 1"
  shows "t < val (dec c)"
  using assms by (simp add: val_dec)

end

interpretation sat: up_down_counter sc_inc sc_dec sc_val sc_max sat_wf
  by unfold_locales
    (simp_all add: sc_val_inc sc_val_dec sat_wf_inc sat_wf_dec, simp add: sat_wf_def word_le_nat_alt)

lemma sat_wf_val: "sat_wf c \<Longrightarrow> sc_val c \<le> sc_max c"
  by (simp add: sat_wf_def word_le_nat_alt)

lemma sc_add_val:
  "sat_wf c \<Longrightarrow> int (sc_val (sc_add c v)) = max 0 (min (int (sc_max c)) (int (sc_val c) + v))"
  using sc_add_nonneg_val [of c v] sc_sub_nonneg_val [of "- v" c] 
  by (auto simp: sc_add_def sat_wf_def word_le_def)

lemma sc_sub_val:
  "sat_wf c \<Longrightarrow> int (sc_val (sc_sub c v)) = max 0 (min (int (sc_max c)) (int (sc_val c) - v))"
proof (cases "0 \<le> v")
  case True
  then show "sat_wf c \<Longrightarrow> ?thesis"
    using sc_sub_nonneg_val [of v c] by (auto simp: sc_sub_def sat_wf_def word_le_def)
next
  case False
  then have "0 \<le> min (int (sc_max c)) (int (sc_val c) - v)" by linarith
  with False show "sat_wf c \<Longrightarrow> ?thesis"
    using sc_add_nonneg_val [of c "- v"] by (simp add: sc_sub_def)
qed

lemma sat_wf_ops:
  assumes "sat_wf c"
  shows "sat_wf (sc_add c v) \<and> sat_wf (sc_sub c v) \<and> sat_wf (sc_reset c) \<and> sat_wf (snd (saturate c))"
  using sc_add_val [OF assms, of v] sc_sub_val [OF assms, of v] assms
  by (auto simp: sat_wf_def word_le_def sc_reset_def saturate_def)

lemma mk_sat_counter_wf: "mk_sat_counter n i = Inr c \<Longrightarrow> sat_wf c"
  by (auto simp: mk_sat_counter_def Let_def rbind_eq_Inr sat_wf_def)

lemma sc_shr_wf:
  assumes "sat_wf c" "sc_shr c s = Inr c'"
  shows "sat_wf c'"
proof -
  have "sc_val c' \<le> sc_val c"
    using assms(2) by (auto simp: sc_shr_def rbind_eq_Inr unat_drop_bit)
  then show ?thesis using assms by (auto simp: sc_shr_def rbind_eq_Inr sat_wf_def word_le_nat_alt)
qed

lemma sc_shl_wf: "sat_wf c \<Longrightarrow> sc_shl c s = Inr c' \<Longrightarrow> sat_wf c'"
  by (auto simp: sc_shl_def Let_def rbind_eq_Inr sat_wf_def split: if_splits)

section \<open>Properties\<close>

text \<open>A counter that the constructor accepts stays between zero and its maximum under any of the
  operations, and adding or subtracting a signed amount gives the exact sum or difference cut to
  that range, for every counter width.\<close>

theorem sat_counter_clamps:
  assumes "sat_wf c"
  shows "int (sc_val (sc_add c v)) = max 0 (min (int (sc_max c)) (int (sc_val c) + v)) \<and>
    int (sc_val (sc_sub c v)) = max 0 (min (int (sc_max c)) (int (sc_val c) - v)) \<and>
    sat_wf (sc_inc c) \<and> sat_wf (sc_dec c) \<and> sat_wf (sc_add c v) \<and> sat_wf (sc_sub c v) \<and>
    sat_wf (sc_reset c) \<and> sat_wf (snd (saturate c)) \<and>
    (\<forall>c'. sc_shl c v = Inr c' \<or> sc_shr c v = Inr c' \<longrightarrow> sat_wf c')"
  using sc_add_val [OF assms] sc_sub_val [OF assms] sat_wf_inc [OF assms] sat_wf_dec [OF assms]
    sat_wf_ops [OF assms] sc_shl_wf [OF assms] sc_shr_wf [OF assms]
  by blast

theorem sat_counter_clamps_witness:
  "sc_val (sc_add \<lparr>initialVal = 0, maxVal = (3 :: u8), counter = 2\<rparr> 5) = 3"
  using sat_counter_clamps [of "\<lparr>initialVal = 0, maxVal = (3 :: u8), counter = 2\<rparr>" 5]
  by (simp add: sat_wf_def flip: nat_uint_eq)

text \<open>The left shift saturates as long as the shifted value fits the counter's type. When it does
  not, the bits that leave the type are lost before the comparison with the maximum: an eight-bit
  counter that is at 128 becomes 0 under a shift by one instead of saturating.\<close>

theorem shift_left_saturation:
  assumes "0 \<le> s" "sc_val c * 2 ^ nat s < 2 ^ LENGTH('a)"
  shows "(\<exists>c'. sc_shl (c :: 'a::len word sat_counter) s = Inr c' \<and>
      sc_val c' = min (sc_max c) (sc_val c * 2 ^ nat s)) \<and>
    (\<exists>d d' :: u8 sat_counter. mk_sat_counter 8 128 = Inr d \<and> sc_shl d 1 = Inr d' \<and> sc_val d' = 0)"
proof (rule conjI)
  have "unat (push_bit (nat s) (counter c)) = sc_val c * 2 ^ nat s"
    using assms(2) by (simp add: unsigned_push_bit_eq take_bit_eq_mod push_bit_eq_mult [where 'a = nat])
  then show "\<exists>c'. sc_shl c s = Inr c' \<and> sc_val c' = min (sc_max c) (sc_val c * 2 ^ nat s)"
    using assms(1) by (auto simp: sc_shl_def Let_def word_less_nat_alt)
  show "\<exists>d d' :: u8 sat_counter. mk_sat_counter 8 128 = Inr d \<and> sc_shl d 1 = Inr d' \<and> sc_val d' = 0"
    by (simp add: mk_sat_counter_def sc_shl_def Let_def push_bit_eq_mult)
qed

theorem shift_left_saturation_witness:
  "\<exists>c'. sc_shl \<lparr>initialVal = 0, maxVal = (7 :: u8), counter = 3\<rparr> 2 = Inr c' \<and> sc_val c' = 7"
  using shift_left_saturation [of 2 "\<lparr>initialVal = 0, maxVal = (7 :: u8), counter = 3\<rparr>"] by simp

end
