(* ===== verification/Circular_Queue.thy ===== *)
theory Circular_Queue
  imports Gem5_Prelude
begin

text \<open>
  The circular queue of \<^verbatim>\<open>base/circular_queue.hh\<close> (\<^verbatim>\<open>CircularQueue<T>\<close>, the container of the load
  and store queues): indices only grow and are reduced modulo the capacity on access, a push
  into a full queue drops the oldest element. The refinement lemmas show what each operation does to
  the list of valid elements, oldest first.
  \<^verbatim>\<open>size_t\<close> counters are natural numbers: a wrap of \<open>head\<close> needs \<open>2 ^ 64\<close> removals.
\<close>

section \<open>State and operations\<close>

record 'a circ_queue =
  cq_data :: "'a list"
  cq_capacity :: nat
  cq_size :: nat
  cq_head :: nat

definition cq_new :: "nat \<Rightarrow> 'a \<Rightarrow> 'a circ_queue" where
  "cq_new sz dflt = \<lparr>cq_data = replicate sz dflt, cq_capacity = sz, cq_size = 0, cq_head = 1\<rparr>"

definition cq_slot :: "'a circ_queue \<Rightarrow> nat \<Rightarrow> nat res" where
  "cq_slot q index = (if cq_capacity q = 0 then Inl DivByZero else Inr (index mod cq_capacity q))"

definition cq_get :: "'a circ_queue \<Rightarrow> nat \<Rightarrow> 'a res" where
  "cq_get q index = rbind (cq_slot q index) (vget (cq_data q))"

definition cq_put :: "'a circ_queue \<Rightarrow> nat \<Rightarrow> 'a \<Rightarrow> 'a circ_queue res" where
  "cq_put q index v = rbind (cq_slot q index) (\<lambda>i.
     rbind (vset (cq_data q) i v) (\<lambda>d. Inr (q\<lparr>cq_data := d\<rparr>)))"

definition cq_flush :: "'a circ_queue \<Rightarrow> 'a circ_queue" where
  "cq_flush q = q\<lparr>cq_head := 1, cq_size := 0\<rparr>"

definition cq_isValidIdx :: "'a circ_queue \<Rightarrow> nat \<Rightarrow> bool" where
  "cq_isValidIdx q idx \<longleftrightarrow> cq_head q \<le> idx \<and> idx < cq_head q + cq_size q"

definition cq_tail :: "'a circ_queue \<Rightarrow> nat" where
  "cq_tail q = cq_head q + cq_size q - 1"

definition cq_empty :: "'a circ_queue \<Rightarrow> bool" where
  "cq_empty q \<longleftrightarrow> cq_size q = 0"

definition cq_full :: "'a circ_queue \<Rightarrow> bool" where
  "cq_full q \<longleftrightarrow> cq_size q = cq_capacity q"

definition cq_front :: "'a circ_queue \<Rightarrow> 'a res" where
  "cq_front q = cq_get q (cq_head q)"

definition cq_back :: "'a circ_queue \<Rightarrow> 'a res" where
  "cq_back q = cq_get q (cq_tail q)"

definition cq_pop_front :: "'a circ_queue \<Rightarrow> nat \<Rightarrow> 'a circ_queue res" where
  "cq_pop_front q num_elem = rbind (check (num_elem \<le> cq_size q) Assertion) (\<lambda>_.
     Inr (q\<lparr>cq_head := cq_head q + num_elem, cq_size := cq_size q - num_elem\<rparr>))"

definition cq_pop_back :: "'a circ_queue \<Rightarrow> 'a circ_queue res" where
  "cq_pop_back q = rbind (check (\<not> cq_empty q) Assertion) (\<lambda>_. Inr (q\<lparr>cq_size := cq_size q - 1\<rparr>))"

definition cq_advance_tail :: "'a circ_queue \<Rightarrow> 'a circ_queue" where
  "cq_advance_tail q =
     (if cq_full q then q\<lparr>cq_head := cq_head q + 1\<rparr> else q\<lparr>cq_size := cq_size q + 1\<rparr>)"

definition cq_push_back :: "'a circ_queue \<Rightarrow> 'a \<Rightarrow> 'a circ_queue res" where
  "cq_push_back q v = (let q' = cq_advance_tail q in cq_put q' (cq_tail q') v)"

definition cq_advance_tail_n :: "'a circ_queue \<Rightarrow> nat \<Rightarrow> 'a circ_queue" where
  "cq_advance_tail_n q len =
     (let remaining = cq_capacity q - cq_size q in
      if remaining < len
      then let overflow = len - remaining
           in q\<lparr>cq_head := cq_head q + overflow, cq_size := cq_size q + (len - overflow)\<rparr>
      else q\<lparr>cq_size := cq_size q + len\<rparr>)"

section \<open>Abstraction\<close>

definition cq_ok :: "'a circ_queue \<Rightarrow> bool" where
  "cq_ok q \<longleftrightarrow> 0 < cq_capacity q \<and> length (cq_data q) = cq_capacity q \<and>
     cq_size q \<le> cq_capacity q \<and> 1 \<le> cq_head q"

definition cq_list :: "'a circ_queue \<Rightarrow> 'a list" where
  "cq_list q = map (\<lambda>i. cq_data q ! (i mod cq_capacity q)) [cq_head q ..< cq_head q + cq_size q]"

named_theorems cq_defs \<open>definitions of the queue operations\<close>

declare cq_slot_def [cq_defs] cq_get_def [cq_defs] cq_put_def [cq_defs] cq_tail_def [cq_defs]
  cq_empty_def [cq_defs] cq_full_def [cq_defs] cq_pop_front_def [cq_defs] cq_pop_back_def [cq_defs]
  cq_advance_tail_def [cq_defs] cq_push_back_def [cq_defs] cq_front_def [cq_defs] cq_back_def [cq_defs]

lemma cq_list_length [simp]: "length (cq_list q) = cq_size q"
  by (simp add: cq_list_def)

lemma cq_list_nth: "i < cq_size q \<Longrightarrow> cq_list q ! i = cq_data q ! ((cq_head q + i) mod cq_capacity q)"
  by (simp add: cq_list_def)

text \<open>Distinct valid indices use distinct slots: the window of indices is at most the capacity.\<close>

lemma cq_slots_distinct:
  assumes "cq_size q \<le> cq_capacity q" "cq_head q \<le> i" "i < cq_head q + cq_size q"
    "cq_head q \<le> j" "j < cq_head q + cq_size q" "i mod cq_capacity q = j mod cq_capacity q"
  shows "i = j"
proof (rule ccontr)
  assume ne: "i \<noteq> j"
  have "cq_capacity q dvd (if i < j then j - i else i - j)"
    using mod_eq_dvd_iff_nat [of i j "cq_capacity q"] mod_eq_dvd_iff_nat [of j i "cq_capacity q"] assms(6)
    by auto
  moreover have "0 < (if i < j then j - i else i - j)" "(if i < j then j - i else i - j) < cq_capacity q"
    using ne assms(1-5) by auto
  ultimately show False by (metis nat_dvd_not_less)
qed

lemma cq_new_ok: "0 < sz \<Longrightarrow> cq_ok (cq_new sz d) \<and> cq_list (cq_new sz d) = []"
  by (simp add: cq_ok_def cq_new_def cq_list_def)

lemma cq_get_list:
  assumes "cq_ok q" "cq_isValidIdx q i"
  shows "cq_get q i = Inr (cq_list q ! (i - cq_head q))"
  using assms by (auto simp: cq_defs cq_ok_def cq_isValidIdx_def cq_list_nth)

lemma cq_put_list:
  assumes "cq_ok q" "cq_isValidIdx q i"
  shows "\<exists>q'. cq_put q i v = Inr q' \<and> cq_ok q' \<and> cq_list q' = (cq_list q)[i - cq_head q := v]"
proof -
  let ?s = "i mod cq_capacity q"
  let ?q = "q\<lparr>cq_data := (cq_data q)[?s := v]\<rparr>"
  have s: "?s < length (cq_data q)" using assms(1) by (simp add: cq_ok_def)
  have win: "cq_head q \<le> i" "i < cq_head q + cq_size q" using assms(2) by (simp_all add: cq_isValidIdx_def)
  have "cq_list ?q = (cq_list q)[i - cq_head q := v]"
  proof (rule nth_equalityI)
    show "length (cq_list ?q) = length ((cq_list q)[i - cq_head q := v])" by simp
  next
    fix j assume "j < length (cq_list ?q)"
    then have j: "j < cq_size q" by simp
    have iff: "(cq_head q + j) mod cq_capacity q = ?s \<longleftrightarrow> j = i - cq_head q"
    proof
      assume eq: "(cq_head q + j) mod cq_capacity q = ?s"
      have "cq_head q + j = i"
        by (rule cq_slots_distinct [OF _ _ _ win eq]) (use assms(1) j in \<open>simp_all add: cq_ok_def\<close>)
      then show "j = i - cq_head q" by simp
    qed (use win in simp)
    have "cq_list ?q ! j = (cq_data q)[?s := v] ! ((cq_head q + j) mod cq_capacity q)"
      using j by (simp add: cq_list_nth)
    also have "\<dots> = (if j = i - cq_head q then v else cq_list q ! j)"
      using s j by (simp add: nth_list_update cq_list_nth iff [symmetric] eq_commute [of ?s])
    finally show "cq_list ?q ! j = (cq_list q)[i - cq_head q := v] ! j"
      using j by (simp add: nth_list_update eq_commute [of "i - cq_head q"])
  qed
  moreover have "cq_ok ?q" using assms(1) by (simp add: cq_ok_def)
  ultimately show ?thesis using s assms(1) by (auto simp: cq_defs cq_ok_def)
qed

lemma cq_pop_front_list:
  assumes "cq_ok q" "n \<le> cq_size q"
  shows "\<exists>q'. cq_pop_front q n = Inr q' \<and> cq_ok q' \<and> cq_list q' = drop n (cq_list q)"
  using assms by (auto simp: cq_defs cq_ok_def cq_list_def drop_map)

lemma cq_pop_back_list:
  assumes "cq_ok q" "cq_list q \<noteq> []"
  shows "\<exists>q'. cq_pop_back q = Inr q' \<and> cq_ok q' \<and> cq_list q' = butlast (cq_list q)"
proof -
  from assms have "0 < cq_size q" by (simp flip: cq_list_length)
  then obtain n where "cq_size q = Suc n" by (cases "cq_size q") auto
  with assms(1) show ?thesis by (auto simp: cq_defs cq_ok_def cq_list_def)
qed

lemma cq_advance_tail_list:
  assumes "cq_ok q"
  shows "cq_ok (cq_advance_tail q) \<and> cq_capacity (cq_advance_tail q) = cq_capacity q \<and>
    (\<exists>x. cq_list (cq_advance_tail q) =
       (if cq_size q = cq_capacity q then tl (cq_list q) else cq_list q) @ [x])"
proof (cases "cq_full q")
  case True
  then have "[cq_head q + 1 ..< cq_head q + 1 + cq_size q] = tl [cq_head q ..< cq_head q + cq_size q] @ [cq_head q + cq_size q]"
    using assms by (auto simp: cq_ok_def cq_full_def upt_rec [of "cq_head q"])
  then show ?thesis
    using True assms by (auto simp: cq_advance_tail_def cq_full_def cq_ok_def cq_list_def simp flip: map_tl)
next
  case False
  then show ?thesis
    using assms by (auto simp: cq_advance_tail_def cq_full_def cq_ok_def cq_list_def)
qed

lemma cq_push_back_list:
  assumes "cq_ok q"
  shows "\<exists>q'. cq_push_back q v = Inr q' \<and> cq_ok q' \<and> cq_capacity q' = cq_capacity q \<and>
    cq_list q' = (if length (cq_list q) = cq_capacity q then tl (cq_list q) else cq_list q) @ [v]"
proof -
  let ?q = "cq_advance_tail q"
  let ?xs = "if cq_size q = cq_capacity q then tl (cq_list q) else cq_list q"
  obtain x where x: "cq_ok ?q" "cq_capacity ?q = cq_capacity q" "cq_list ?q = ?xs @ [x]"
    using cq_advance_tail_list [OF assms] by blast
  then have sz: "cq_size ?q = Suc (length ?xs)" using cq_list_length [of ?q] by simp
  then have valid: "cq_isValidIdx ?q (cq_tail ?q)" "cq_tail ?q - cq_head ?q = length ?xs"
    by (auto simp: cq_isValidIdx_def cq_tail_def)
  from cq_put_list [OF x(1) valid(1), of v] obtain q' where
    q': "cq_put ?q (cq_tail ?q) v = Inr q'" "cq_ok q'" "cq_list q' = (?xs @ [x])[length ?xs := v]"
    by (auto simp: x(3) valid(2))
  moreover have "cq_capacity q' = cq_capacity ?q"
    using q'(1) by (auto simp: cq_put_def cq_slot_def rbind_eq_Inr split: if_splits)
  ultimately show ?thesis using x(2) by (simp add: cq_push_back_def Let_def)
qed

lemma cq_advance_tail_n_list:
  assumes "cq_ok q"
  shows "cq_ok (cq_advance_tail_n q n) \<and>
    cq_size (cq_advance_tail_n q n) = min (cq_capacity q) (cq_size q + n) \<and>
    cq_head (cq_advance_tail_n q n) + cq_size (cq_advance_tail_n q n) = cq_head q + cq_size q + n"
  using assms by (auto simp: cq_advance_tail_n_def cq_ok_def Let_def)

section \<open>Whole-buffer view\<close>

text \<open>
  The slots outside the window of valid indices, in index order: together with the valid elements they are the whole
  buffer.  Clients that clear an element before they remove it rely on what is left there.
\<close>

definition cq_rest :: "'a circ_queue \<Rightarrow> 'a list" where
  "cq_rest q = map (\<lambda>i. cq_data q ! (i mod cq_capacity q)) [cq_head q + cq_size q ..< cq_head q + cq_capacity q]"

definition cq_upd :: "'a circ_queue \<Rightarrow> nat \<Rightarrow> 'a \<Rightarrow> 'a circ_queue" where
  "cq_upd q i v = q\<lparr>cq_data := (cq_data q)[i mod cq_capacity q := v]\<rparr>"

lemma cq_upd_sel [simp]: "cq_capacity (cq_upd q i v) = cq_capacity q" "cq_size (cq_upd q i v) = cq_size q"
  "cq_head (cq_upd q i v) = cq_head q" "cq_ok (cq_upd q i v) = cq_ok q"
  by (simp_all add: cq_upd_def cq_ok_def)

lemma cq_tail_upd [simp]: "cq_tail (cq_upd q i v) = cq_tail q" "cq_isValidIdx (cq_upd q i v) = cq_isValidIdx q"
  by (simp_all add: cq_tail_def cq_isValidIdx_def fun_eq_iff)

lemma cq_put_upd: "cq_ok q \<Longrightarrow> cq_put q i v = Inr (cq_upd q i v)"
  by (auto simp: cq_put_def cq_slot_def cq_upd_def cq_ok_def)

lemma cq_list_upd:
  assumes "cq_ok q" "cq_isValidIdx q i"
  shows "cq_list (cq_upd q i v) = (cq_list q)[i - cq_head q := v]"
  using cq_put_list [OF assms, of v] cq_put_upd [OF assms(1), of i v] by simp

lemma window_slots_distinct:
  assumes "h \<le> i" "i < h + c" "h \<le> j" "j < h + c" "i mod c = j mod c"
  shows "i = (j::nat)"
  using cq_slots_distinct [of "\<lparr>cq_data = [], cq_capacity = c, cq_size = c, cq_head = h\<rparr>" i j] assms by simp

lemma cq_rest_upd:
  assumes "cq_ok q" "cq_isValidIdx q i"
  shows "cq_rest (cq_upd q i v) = cq_rest q"
proof -
  have "i mod cq_capacity q \<noteq> j mod cq_capacity q"
    if "j \<in> set [cq_head q + cq_size q ..< cq_head q + cq_capacity q]" for j
    using window_slots_distinct [of "cq_head q" j "cq_capacity q" i] that assms
    by (auto simp: cq_ok_def cq_isValidIdx_def)
  then show ?thesis by (auto simp: cq_rest_def cq_upd_def intro!: nth_list_update_neq)
qed

lemma cq_get_nth: "cq_ok q \<Longrightarrow> k < cq_size q \<Longrightarrow> cq_get q (cq_head q + k) = Inr (cq_list q ! k)"
  using cq_get_list [of q "cq_head q + k"] by (simp add: cq_isValidIdx_def)

lemma cq_get_rest: "cq_ok q \<Longrightarrow> cq_size q < cq_capacity q \<Longrightarrow> cq_get q (cq_head q + cq_size q) = Inr (hd (cq_rest q))"
  by (auto simp: cq_get_def cq_slot_def cq_ok_def cq_rest_def hd_map hd_upt)

definition cq_drop_front :: "'a circ_queue \<Rightarrow> 'a circ_queue" where
  "cq_drop_front q = q\<lparr>cq_head := cq_head q + 1, cq_size := cq_size q - 1\<rparr>"

definition cq_drop_back :: "'a circ_queue \<Rightarrow> 'a circ_queue" where
  "cq_drop_back q = q\<lparr>cq_size := cq_size q - 1\<rparr>"

lemma cq_pop_drop: "0 < cq_size q \<Longrightarrow> cq_pop_front q (Suc 0) = Inr (cq_drop_front q)"
  "0 < cq_size q \<Longrightarrow> cq_pop_back q = Inr (cq_drop_back q)"
  by (auto simp: cq_pop_front_def cq_pop_back_def cq_drop_front_def cq_drop_back_def cq_empty_def)

lemma cq_drop_sel [simp]: "cq_head (cq_drop_front q) = cq_head q + 1" "cq_size (cq_drop_front q) = cq_size q - 1"
  "cq_capacity (cq_drop_front q) = cq_capacity q" "cq_head (cq_drop_back q) = cq_head q"
  "cq_size (cq_drop_back q) = cq_size q - 1" "cq_capacity (cq_drop_back q) = cq_capacity q"
  by (simp_all add: cq_drop_front_def cq_drop_back_def)

lemma cq_drop_ok [simp]: "cq_ok q \<Longrightarrow> cq_ok (cq_drop_front q)" "cq_ok q \<Longrightarrow> cq_ok (cq_drop_back q)"
  by (auto simp: cq_ok_def cq_drop_front_def cq_drop_back_def)

lemma cq_drop_list: "0 < cq_size q \<Longrightarrow> cq_list (cq_drop_front q) = tl (cq_list q)"
  "0 < cq_size q \<Longrightarrow> cq_list (cq_drop_back q) = butlast (cq_list q)"
  by (cases "cq_size q"; simp add: cq_list_def cq_drop_front_def cq_drop_back_def upt_conv_Cons del: upt_Suc)
    (cases "cq_size q"; simp add: cq_list_def cq_drop_front_def cq_drop_back_def)

lemma cq_drop_rest:
  assumes "cq_ok q" "0 < cq_size q"
  shows "cq_rest (cq_drop_front q) = cq_rest q @ [hd (cq_list q)]"
    "cq_rest (cq_drop_back q) = last (cq_list q) # cq_rest q"
proof -
  from assms obtain n where n: "cq_size q = Suc n" by (cases "cq_size q") auto
  have le: "cq_head q + Suc n \<le> cq_head q + cq_capacity q" using assms(1) n by (simp add: cq_ok_def)
  have "[cq_head q + Suc n ..< Suc (cq_head q + cq_capacity q)] = [cq_head q + Suc n ..< cq_head q + cq_capacity q] @ [cq_head q + cq_capacity q]"
    by (rule upt_Suc_append [OF le])
  moreover have "hd (cq_list q) = cq_data q ! (cq_head q mod cq_capacity q)"
    using n by (simp add: cq_list_def upt_conv_Cons del: upt_Suc)
  ultimately show "cq_rest (cq_drop_front q) = cq_rest q @ [hd (cq_list q)]"
    using n by (simp add: cq_rest_def cq_drop_front_def del: upt_Suc)
  show "cq_rest (cq_drop_back q) = last (cq_list q) # cq_rest q"
    using n le by (simp add: cq_rest_def cq_list_def cq_drop_back_def upt_conv_Cons)
qed

lemma cq_advance_room:
  assumes "cq_ok q" "cq_size q < cq_capacity q"
  shows "cq_head (cq_advance_tail q) = cq_head q" "cq_size (cq_advance_tail q) = Suc (cq_size q)"
    "cq_capacity (cq_advance_tail q) = cq_capacity q" "cq_ok (cq_advance_tail q)"
    "cq_list (cq_advance_tail q) = cq_list q @ [hd (cq_rest q)]" "cq_rest (cq_advance_tail q) = tl (cq_rest q)"
  using assms by (auto simp: cq_advance_tail_def cq_full_def cq_ok_def cq_list_def cq_rest_def upt_conv_Cons)

text \<open>Moving the tail without writing: the elements that become valid are what the buffer holds, and the
  positions past the capacity are those of the oldest elements.\<close>

lemma cq_ring_length: "cq_ok q \<Longrightarrow> length (cq_list q @ cq_rest q) = cq_capacity q"
  by (simp add: cq_list_def cq_rest_def cq_ok_def)

lemma cq_ring_upt:
  assumes "cq_ok q"
  shows "cq_list q @ cq_rest q = map (\<lambda>i. cq_data q ! (i mod cq_capacity q)) [cq_head q ..< cq_head q + cq_capacity q]"
proof -
  have "cq_head q + cq_capacity q = cq_head q + cq_size q + (cq_capacity q - cq_size q)" using assms by (simp add: cq_ok_def)
  then have "[cq_head q ..< cq_head q + cq_capacity q] =
      [cq_head q ..< cq_head q + cq_size q] @ [cq_head q + cq_size q ..< cq_head q + cq_capacity q]"
    using upt_add_eq_append [of "cq_head q" "cq_head q + cq_size q" "cq_capacity q - cq_size q"] by simp
  then show ?thesis by (simp add: cq_list_def cq_rest_def)
qed

lemma cq_advance_tail_n_valid:
  assumes "cq_ok q"
  shows "cq_list (cq_advance_tail_n q n) = (if cq_capacity q - cq_size q < n
    then rotate (n - (cq_capacity q - cq_size q)) (cq_list q @ cq_rest q) else cq_list q @ take n (cq_rest q))"
proof (cases "cq_capacity q - cq_size q < n")
  case True
  let ?k = "n - (cq_capacity q - cq_size q)" and ?c = "cq_capacity q"
  let ?q = "q\<lparr>cq_head := cq_head q + ?k, cq_size := ?c\<rparr>"
  have "cq_size q + (n - ?k) = ?c" using True assms by (simp add: cq_ok_def)
  then have q: "cq_advance_tail_n q n = ?q" using True by (simp add: cq_advance_tail_n_def Let_def)
  have "cq_list ?q = rotate ?k (cq_list q @ cq_rest q)"
  proof (rule nth_equalityI)
    show "length (cq_list ?q) = length (rotate ?k (cq_list q @ cq_rest q))" using cq_ring_length [OF assms] by simp
  next
    fix i assume "i < length (cq_list ?q)"
    then have i: "i < ?c" by simp
    then have "rotate ?k (cq_list q @ cq_rest q) ! i = (cq_list q @ cq_rest q) ! ((?k + i) mod ?c)"
      using cq_ring_length [OF assms] nth_rotate [of i "cq_list q @ cq_rest q" ?k] by (simp only:)
    also have "\<dots> = cq_data q ! ((cq_head q + (?k + i) mod ?c) mod ?c)"
      using i unfolding cq_ring_upt [OF assms] by simp
    finally show "cq_list ?q ! i = rotate ?k (cq_list q @ cq_rest q) ! i"
      using i by (simp add: cq_list_def mod_add_right_eq add.assoc)
  qed
  then show ?thesis using True q by simp
next
  case False
  then have le: "cq_head q + cq_size q + n \<le> cq_head q + cq_capacity q" using assms by (auto simp: cq_ok_def)
  have "[cq_head q ..< cq_head q + (cq_size q + n)] =
      [cq_head q ..< cq_head q + cq_size q] @ take n [cq_head q + cq_size q ..< cq_head q + cq_capacity q]"
    using upt_add_eq_append [of "cq_head q" "cq_head q + cq_size q" n] take_upt [OF le] by (simp add: add.assoc)
  then show ?thesis using False by (simp add: cq_advance_tail_n_def Let_def cq_list_def cq_rest_def take_map)
qed

lemma cq_advance_tail_one: "cq_ok q \<Longrightarrow> cq_advance_tail q = cq_advance_tail_n q 1"
  by (auto simp: cq_advance_tail_def cq_advance_tail_n_def cq_full_def cq_ok_def Let_def)

lemma cq_advance_tail_valid:
  assumes "cq_ok q"
  shows "cq_list (cq_advance_tail q) = (if length (cq_list q) = cq_capacity q then rotate1 (cq_list q)
    else cq_list q @ [hd (cq_rest q)])"
proof -
  have "cq_rest q = [] \<longleftrightarrow> cq_size q = cq_capacity q" using assms by (auto simp: cq_rest_def cq_ok_def)
  then show ?thesis
    using cq_advance_tail_n_valid [OF assms, of 1] assms
    by (cases "cq_rest q") (auto simp: cq_advance_tail_one cq_ok_def)
qed

lemma cq_ends_list:
  assumes "cq_ok q" "cq_list q \<noteq> []"
  shows "cq_front q = Inr (hd (cq_list q))" "cq_back q = Inr (last (cq_list q))"
proof -
  have s: "0 < cq_size q" using assms(2) by (simp flip: cq_list_length)
  then show "cq_front q = Inr (hd (cq_list q))"
    using cq_get_nth [OF assms(1), of 0] assms(2) by (simp add: cq_front_def hd_conv_nth)
  from s show "cq_back q = Inr (last (cq_list q))"
    using cq_get_nth [OF assms(1), of "cq_size q - 1"] assms(2) by (simp add: cq_back_def cq_tail_def last_conv_nth)
qed

lemma cq_flush_list: "cq_ok q \<Longrightarrow> cq_ok (cq_flush q) \<and> cq_list (cq_flush q) = []"
  by (simp add: cq_ok_def cq_flush_def cq_list_def)

section \<open>The interface of a bounded queue that forgets its oldest elements\<close>

locale bounded_queue =
  fixes push :: "'q \<Rightarrow> 'a \<Rightarrow> 'q res" and cap :: "'q \<Rightarrow> nat" and lst :: "'q \<Rightarrow> 'a list" and ok :: "'q \<Rightarrow> bool"
  assumes push_ok: "ok q \<Longrightarrow> \<exists>q'. push q v = Inr q' \<and> ok q' \<and> cap q' = cap q \<and>
      lst q' = (if length (lst q) = cap q then tl (lst q) else lst q) @ [v]"
    and cap_pos: "ok q \<Longrightarrow> 0 < cap q"
    and lst_cap: "ok q \<Longrightarrow> length (lst q) \<le> cap q"
begin

text \<open>After any run of pushes the queue holds the most recent elements, up to the capacity.\<close>

lemma pushes_keep_latest:
  assumes "ok q"
  shows "\<exists>q'. rfold (\<lambda>v q. push q v) vs q = Inr q' \<and> ok q' \<and> cap q' = cap q \<and>
    lst q' = drop (length (lst q) + length vs - cap q) (lst q @ vs)"
  using assms
proof (induction vs arbitrary: q)
  case Nil
  then show ?case using lst_cap [of q] by simp
next
  case (Cons v vs)
  from push_ok [OF Cons.prems, of v] obtain q1 where
    q1: "push q v = Inr q1" "ok q1" "cap q1 = cap q"
      "lst q1 = (if length (lst q) = cap q then tl (lst q) else lst q) @ [v]" by blast
  from Cons.IH [OF q1(2)] obtain q2 where
    q2: "rfold (\<lambda>v q. push q v) vs q1 = Inr q2" "ok q2" "cap q2 = cap q1"
      "lst q2 = drop (length (lst q1) + length vs - cap q1) (lst q1 @ vs)" by blast
  have "lst q2 = drop (length (lst q) + length (v # vs) - cap q) (lst q @ v # vs)"
  proof (cases "length (lst q) = cap q")
    case True
    then have "lst q \<noteq> []" using cap_pos [OF Cons.prems] by auto
    then obtain a as where as: "lst q = a # as" by (cases "lst q") auto
    with True q1(3,4) q2(4) show ?thesis by (cases "cap q") auto
  next
    case False
    then show ?thesis using q1(3,4) q2(4) by simp
  qed
  with q1 q2 show ?case by simp
qed

end

interpretation cq: bounded_queue cq_push_back cq_capacity cq_list cq_ok
proof unfold_locales
  fix q :: "'a circ_queue" and v
  assume ok: "cq_ok q"
  show "\<exists>q'. cq_push_back q v = Inr q' \<and> cq_ok q' \<and> cq_capacity q' = cq_capacity q \<and>
      cq_list q' = (if length (cq_list q) = cq_capacity q then tl (cq_list q) else cq_list q) @ [v]"
    by (rule cq_push_back_list [OF ok])
  show "0 < cq_capacity q" "length (cq_list q) \<le> cq_capacity q"
    using ok by (simp_all add: cq_ok_def)
qed

section \<open>Properties\<close>

text \<open>C32. On a well-formed queue the operations of the circular queue act on the list of its valid
  elements as list operations: an indexed read of a valid index is the element at that distance from the
  head, an indexed write replaces that element only, \<^verbatim>\<open>front\<close> and \<^verbatim>\<open>back\<close> of a queue that is not empty are the first
  and the last element, \<^verbatim>\<open>pop_front(n)\<close> drops \<open>n\<close> elements and asserts when there are fewer,
  \<^verbatim>\<open>pop_back\<close> drops the last one and asserts when there is none, \<^verbatim>\<open>push_back\<close>
  appends, dropping the oldest element exactly when the queue is full, \<^verbatim>\<open>flush\<close> leaves the empty list, and moving
  the tail, by one or by \<open>m\<close>, makes the next slots of the buffer valid with what they hold, which past
  the capacity are the oldest elements again. Each of them leaves a well-formed queue. The iterators are not part of it.\<close>

theorem circular_queue_refines_list:
  assumes "cq_ok q"
  shows "(cq_isValidIdx q i \<longrightarrow> cq_get q i = Inr (cq_list q ! (i - cq_head q)) \<and>
        (\<exists>q'. cq_put q i v = Inr q' \<and> cq_ok q' \<and> cq_list q' = (cq_list q)[i - cq_head q := v])) \<and>
    (if n \<le> length (cq_list q)
     then \<exists>q'. cq_pop_front q n = Inr q' \<and> cq_ok q' \<and> cq_list q' = drop n (cq_list q)
     else cq_pop_front q n = Inl Assertion) \<and>
    (if cq_list q = [] then cq_pop_back q = Inl Assertion
     else cq_front q = Inr (hd (cq_list q)) \<and> cq_back q = Inr (last (cq_list q)) \<and>
       (\<exists>q'. cq_pop_back q = Inr q' \<and> cq_ok q' \<and> cq_list q' = butlast (cq_list q))) \<and>
    (\<exists>q'. cq_push_back q v = Inr q' \<and> cq_ok q' \<and>
       cq_list q' = (if length (cq_list q) = cq_capacity q then tl (cq_list q) else cq_list q) @ [v]) \<and>
    cq_ok (cq_flush q) \<and> cq_list (cq_flush q) = [] \<and>
    cq_ok (cq_advance_tail q) \<and> cq_list (cq_advance_tail q) =
      (if length (cq_list q) = cq_capacity q then rotate1 (cq_list q) else cq_list q @ [hd (cq_rest q)]) \<and>
    cq_ok (cq_advance_tail_n q m) \<and> cq_list (cq_advance_tail_n q m) =
      (let room = cq_capacity q - length (cq_list q) in
       if room < m then rotate (m - room) (cq_list q @ cq_rest q) else cq_list q @ take m (cq_rest q))"
proof (intro conjI impI)
  show "(if n \<le> length (cq_list q)
          then \<exists>q'. cq_pop_front q n = Inr q' \<and> cq_ok q' \<and> cq_list q' = drop n (cq_list q)
          else cq_pop_front q n = Inl Assertion)"
    using cq_pop_front_list [OF assms, of n] by (simp add: cq_pop_front_def)
  show "(if cq_list q = [] then cq_pop_back q = Inl Assertion
          else cq_front q = Inr (hd (cq_list q)) \<and> cq_back q = Inr (last (cq_list q)) \<and>
            (\<exists>q'. cq_pop_back q = Inr q' \<and> cq_ok q' \<and> cq_list q' = butlast (cq_list q)))"
    using cq_pop_back_list [OF assms] cq_ends_list [OF assms]
    by (simp add: cq_pop_back_def cq_empty_def flip: cq_list_length)
  show "\<exists>q'. cq_push_back q v = Inr q' \<and> cq_ok q' \<and>
          cq_list q' = (if length (cq_list q) = cq_capacity q then tl (cq_list q) else cq_list q) @ [v]"
    using cq_push_back_list [OF assms, of v] by blast
  show "cq_list (cq_advance_tail_n q m) = (let room = cq_capacity q - length (cq_list q) in
       if room < m then rotate (m - room) (cq_list q @ cq_rest q) else cq_list q @ take m (cq_rest q))"
    using cq_advance_tail_n_valid [OF assms, of m] by (simp add: Let_def)
qed (use cq_flush_list [OF assms] cq_advance_tail_list [OF assms] cq_advance_tail_valid [OF assms]
      cq_advance_tail_n_list [OF assms, of m] in \<open>simp_all add: cq_get_list [OF assms] cq_put_list [OF assms]\<close>)

theorem circular_queue_refines_list_witness:
  "cq_get \<lparr>cq_data = [10, 11, 12::nat], cq_capacity = 3, cq_size = 2, cq_head = 5\<rparr> 6 = Inr 10 \<and>
   cq_list (cq_advance_tail_n \<lparr>cq_data = [10, 11, 12::nat], cq_capacity = 3, cq_size = 2, cq_head = 5\<rparr> 2) = [10, 11, 12]"
  using circular_queue_refines_list
    [of "\<lparr>cq_data = [10, 11, 12::nat], cq_capacity = 3, cq_size = 2, cq_head = 5\<rparr>" 6 _ _ 2]
  by (simp add: cq_ok_def cq_isValidIdx_def cq_list_def cq_rest_def upt_conv_Cons)

text \<open>A queue filled by any number of \<^verbatim>\<open>push_back\<close> calls never fails and holds the most recent
  values, as many as its capacity allows, in the order they were pushed.\<close>

theorem circular_queue_keeps_latest:
  assumes "0 < sz"
  shows "\<exists>q. rfold (\<lambda>v q. cq_push_back q v) vs (cq_new sz dflt) = Inr q \<and> cq_ok q \<and>
    cq_list q = drop (length vs - sz) vs"
  using cq.pushes_keep_latest [of "cq_new sz dflt" vs] cq_new_ok [OF assms, of dflt]
  by (simp add: cq_new_def) blast

theorem circular_queue_keeps_latest_witness:
  "\<exists>q. rfold (\<lambda>v q. cq_push_back q v) [1, 2, 3, 4, 5::nat] (cq_new 3 0) = Inr q \<and> cq_ok q \<and>
    cq_list q = [3, 4, 5]"
  using circular_queue_keeps_latest [of 3 "[1, 2, 3, 4, 5::nat]" 0]
  by (simp del: rfold.simps)

end
