(* ===== verification/Event_Queue.thy ===== *)
theory Event_Queue
  imports Gem5_Prelude "HOL-Library.Product_Lexorder"
begin

text \<open>
  The event queue of \<^verbatim>\<open>sim/eventq.hh\<close> and \<^verbatim>\<open>sim/eventq.cc\<close>: a linked list of bins ordered by
  time and priority (\<^verbatim>\<open>nextBin\<close>), each bin a stack of the events with equal time and priority
  (\<^verbatim>\<open>nextInBin\<close>). Events live in a store that pointers index, so that the model performs
  the pointer updates of the source. A walk along a chain of pointers does not change the store; it
  visits at most one event per store cell or runs forever, which is what its fuel expresses.
  The scheduling interface, the service loop and the consistency check of the source are modelled.
  The behaviour of an event (\<^verbatim>\<open>Event::process\<close>, virtual) is a parameter: a sequence of calls of the
  scheduling interface. Mutexes and tracing are left out.
\<close>

section \<open>Flags\<close>

definition flags_isSet :: "'a::len word \<Rightarrow> 'a word \<Rightarrow> bool" where
  "flags_isSet f m \<longleftrightarrow> f AND m \<noteq> 0"

definition flags_noneSet :: "'a::len word \<Rightarrow> 'a word \<Rightarrow> bool" where
  "flags_noneSet f m \<longleftrightarrow> f AND m = 0"

definition flags_set :: "'a::len word \<Rightarrow> 'a word \<Rightarrow> 'a word" where
  "flags_set f m = f OR m"

definition flags_clear :: "'a::len word \<Rightarrow> 'a word \<Rightarrow> 'a word" where
  "flags_clear f m = f AND NOT m"

abbreviation Squashed :: u16 where "Squashed \<equiv> 0x0001"
abbreviation Scheduled :: u16 where "Scheduled \<equiv> 0x0002"
abbreviation Managed :: u16 where "Managed \<equiv> 0x0004"
abbreviation IsExitEvent :: u16 where "IsExitEvent \<equiv> 0x0010"
abbreviation IsMainQueue :: u16 where "IsMainQueue \<equiv> 0x0020"
abbreviation PublicWrite :: u16 where "PublicWrite \<equiv> 0x001d"
abbreviation Initialized :: u16 where "Initialized \<equiv> 0x7a40"
abbreviation InitMask :: u16 where "InitMask \<equiv> 0xffc0"

section \<open>Events and the store\<close>

type_synonym ptr = "nat option"

text \<open>The priority is an \<^verbatim>\<open>int8_t\<close> that is only compared; here it is any integer.\<close>

record event =
  nextBin :: ptr
  nextInBin :: ptr
  ev_when :: tick
  ev_priority :: int
  ev_flags :: u16
  ev_queue :: ptr

type_synonym ev_store = "event option list"

definition mk_event :: "int \<Rightarrow> u16 \<Rightarrow> event res" where
  "mk_event p f = rbind (check (flags_noneSet f (NOT PublicWrite)) Assertion) (\<lambda>_.
     Inr \<lparr>nextBin = None, nextInBin = None, ev_when = 0, ev_priority = p,
          ev_flags = Initialized OR f, ev_queue = None\<rparr>)"

definition ev_initialized :: "event \<Rightarrow> bool" where
  "ev_initialized e \<longleftrightarrow> ev_flags e AND InitMask = Initialized"

definition ev_scheduled :: "event \<Rightarrow> bool" where
  "ev_scheduled e \<longleftrightarrow> flags_isSet (ev_flags e) Scheduled"

definition ev_squashed :: "event \<Rightarrow> bool" where
  "ev_squashed e \<longleftrightarrow> flags_isSet (ev_flags e) Squashed"

definition ev_isExitEvent :: "event \<Rightarrow> bool" where
  "ev_isExitEvent e \<longleftrightarrow> flags_isSet (ev_flags e) IsExitEvent"

definition ev_isManaged :: "event \<Rightarrow> bool" where
  "ev_isManaged e \<longleftrightarrow> flags_isSet (ev_flags e) Managed"

definition ev_squash :: "event \<Rightarrow> event" where
  "ev_squash e = e\<lparr>ev_flags := flags_set (ev_flags e) Squashed\<rparr>"

definition ev_setWhen :: "tick \<Rightarrow> nat \<Rightarrow> event \<Rightarrow> event" where
  "ev_setWhen when q e = e\<lparr>ev_when := when, ev_queue := Some q\<rparr>"

definition ev_less :: "event \<Rightarrow> event \<Rightarrow> bool" where
  "ev_less l r \<longleftrightarrow> ev_when l < ev_when r \<or> ev_when l = ev_when r \<and> ev_priority l < ev_priority r"

definition ev_le :: "event \<Rightarrow> event \<Rightarrow> bool" where
  "ev_le l r \<longleftrightarrow> ev_when l < ev_when r \<or> ev_when l = ev_when r \<and> ev_priority l \<le> ev_priority r"

definition ev_eq :: "event \<Rightarrow> event \<Rightarrow> bool" where
  "ev_eq l r \<longleftrightarrow> ev_when l = ev_when r \<and> ev_priority l = ev_priority r"

definition ev_ne :: "event \<Rightarrow> event \<Rightarrow> bool" where
  "ev_ne l r \<longleftrightarrow> ev_when l \<noteq> ev_when r \<or> ev_priority l \<noteq> ev_priority r"

text \<open>Reading and writing through a pointer; a null or dangling pointer is an error.\<close>

definition ev_look :: "ev_store \<Rightarrow> nat \<Rightarrow> event option" where
  "ev_look h i = (if i < length h then h ! i else None)"

definition ev_get :: "ev_store \<Rightarrow> ptr \<Rightarrow> event res" where
  "ev_get h p = (case p of None \<Rightarrow> Inl NullDeref
     | Some i \<Rightarrow> (case ev_look h i of None \<Rightarrow> Inl NullDeref | Some e \<Rightarrow> Inr e))"

definition ev_mod :: "ev_store \<Rightarrow> nat \<Rightarrow> (event \<Rightarrow> event) \<Rightarrow> ev_store res" where
  "ev_mod h i f = rbind (ev_get h (Some i)) (\<lambda>e. Inr (h[i := Some (f e)]))"

section \<open>Insertion and removal\<close>

definition insertBefore :: "ev_store \<Rightarrow> nat \<Rightarrow> ptr \<Rightarrow> (ev_store \<times> ptr) res" where
  "insertBefore h event cp =
     rbind (ev_get h (Some event)) (\<lambda>e.
     rbind (case cp of None \<Rightarrow> Inr True | Some _ \<Rightarrow> rbind (ev_get h cp) (\<lambda>c. Inr (ev_less e c)))
     (\<lambda>before.
       if before
       then rbind (ev_mod h event (\<lambda>e. e\<lparr>nextBin := cp, nextInBin := None\<rparr>))
              (\<lambda>h. Inr (h, Some event))
       else rbind (ev_get h cp) (\<lambda>c.
            rbind (ev_mod h event (\<lambda>e. e\<lparr>nextBin := nextBin c, nextInBin := cp\<rparr>))
              (\<lambda>h. Inr (h, Some event)))))"

text \<open>\<^verbatim>\<open>while (curr && *curr < *event) { prev = curr; curr = curr->nextBin; }\<close>\<close>

fun bin_walk :: "nat \<Rightarrow> ev_store \<Rightarrow> event \<Rightarrow> nat \<Rightarrow> ptr \<Rightarrow> (nat \<times> ptr) res" where
  "bin_walk _ h e prev None = Inr (prev, None)"
| "bin_walk 0 h e prev (Some c) = Inl Diverges"
| "bin_walk (Suc n) h e prev (Some c) =
     rbind (ev_get h (Some c)) (\<lambda>ce.
       if ev_less ce e then bin_walk n h e c (nextBin ce) else Inr (prev, Some c))"

definition insert_behind :: "ev_store \<Rightarrow> nat \<Rightarrow> nat \<Rightarrow> ptr \<Rightarrow> ev_store res" where
  "insert_behind h event prev0 cp0 =
     rbind (ev_get h (Some event)) (\<lambda>e.
     rbind (bin_walk (length h) h e prev0 cp0) (\<lambda>(prev, cp).
     rbind (insertBefore h event cp) (\<lambda>(h, p).
       ev_mod h prev (\<lambda>pe. pe\<lparr>nextBin := p\<rparr>))))"

definition eq_insert_at :: "ev_store \<Rightarrow> ptr \<Rightarrow> nat \<Rightarrow> (ev_store \<times> ptr) res" where
  "eq_insert_at h head event =
     (case head of None \<Rightarrow> insertBefore h event None
      | Some hp \<Rightarrow>
         rbind (ev_get h (Some event)) (\<lambda>e.
         rbind (ev_get h (Some hp)) (\<lambda>he.
           if ev_le e he then insertBefore h event head
           else rbind (insert_behind h event hp (nextBin he)) (\<lambda>h. Inr (h, head)))))"

text \<open>The loop of \<^verbatim>\<open>removeItem\<close> stops at \<open>event\<close> and panics at the end of the bin.\<close>

fun item_walk :: "nat \<Rightarrow> ev_store \<Rightarrow> nat \<Rightarrow> nat \<Rightarrow> ptr \<Rightarrow> (nat \<times> nat) res" where
  "item_walk _ h event cp None = Inl Panic"
| "item_walk 0 h event cp (Some n) = (if event = n then Inr (cp, n) else Inl Diverges)"
| "item_walk (Suc k) h event cp (Some n) =
     (if event = n then Inr (cp, n)
      else rbind (ev_get h (Some n)) (\<lambda>ne. item_walk k h event n (nextInBin ne)))"

definition removeItem :: "ev_store \<Rightarrow> nat \<Rightarrow> nat \<Rightarrow> (ev_store \<times> ptr) res" where
  "removeItem h event tp =
     rbind (ev_get h (Some tp)) (\<lambda>t.
       if event = tp
       then (case nextInBin t of
               None \<Rightarrow> Inr (h, nextBin t)
             | Some nx \<Rightarrow> rbind (ev_mod h nx (\<lambda>ne. ne\<lparr>nextBin := nextBin t\<rparr>)) (\<lambda>h. Inr (h, Some nx)))
       else rbind (item_walk (length h) h event tp (nextInBin t)) (\<lambda>(cp, nx).
            rbind (ev_get h (Some nx)) (\<lambda>ne.
            rbind (ev_mod h cp (\<lambda>ce. ce\<lparr>nextInBin := nextInBin ne\<rparr>)) (\<lambda>h. Inr (h, Some tp)))))"

definition remove_behind :: "ev_store \<Rightarrow> nat \<Rightarrow> nat \<Rightarrow> ptr \<Rightarrow> ev_store res" where
  "remove_behind h event prev0 cp0 =
     rbind (ev_get h (Some event)) (\<lambda>e.
     rbind (bin_walk (length h) h e prev0 cp0) (\<lambda>(prev, cp).
       case cp of None \<Rightarrow> Inl Panic
       | Some c \<Rightarrow> rbind (ev_get h (Some c)) (\<lambda>ce.
           if ev_ne ce e then Inl Panic
           else rbind (removeItem h event c) (\<lambda>(h, p).
                ev_mod h prev (\<lambda>pe. pe\<lparr>nextBin := p\<rparr>)))))"

definition eq_remove_at :: "nat \<Rightarrow> ev_store \<Rightarrow> ptr \<Rightarrow> nat \<Rightarrow> (ev_store \<times> ptr) res" where
  "eq_remove_at self h head event =
     (case head of None \<Rightarrow> Inl Panic
      | Some hp \<Rightarrow>
         rbind (ev_get h (Some event)) (\<lambda>e.
         rbind (check (ev_queue e = Some self) Assertion) (\<lambda>_.
         rbind (ev_get h (Some hp)) (\<lambda>he.
           if ev_eq he e then removeItem h event hp
           else rbind (remove_behind h event hp (nextBin he)) (\<lambda>h. Inr (h, head))))))"

section \<open>The queue\<close>

record evq =
  eq_self :: nat
  eq_store :: ev_store
  eq_head :: ptr
  eq_curTick :: tick
  eq_async :: "nat list"

definition eq_new :: "nat \<Rightarrow> ev_store \<Rightarrow> evq" where
  "eq_new self h = \<lparr>eq_self = self, eq_store = h, eq_head = None, eq_curTick = 0, eq_async = []\<rparr>"

definition eq_insert :: "nat \<Rightarrow> evq \<Rightarrow> evq res" where
  "eq_insert event s = rbind (eq_insert_at (eq_store s) (eq_head s) event) (\<lambda>(h, p).
     Inr (s\<lparr>eq_store := h, eq_head := p\<rparr>))"

definition eq_remove :: "nat \<Rightarrow> evq \<Rightarrow> evq res" where
  "eq_remove event s = rbind (eq_remove_at (eq_self s) (eq_store s) (eq_head s) event) (\<lambda>(h, p).
     Inr (s\<lparr>eq_store := h, eq_head := p\<rparr>))"

definition eq_modify :: "nat \<Rightarrow> (event \<Rightarrow> event) \<Rightarrow> evq \<Rightarrow> evq res" where
  "eq_modify event f s = rbind (ev_mod (eq_store s) event f) (\<lambda>h. Inr (s\<lparr>eq_store := h\<rparr>))"

abbreviation eq_event :: "nat \<Rightarrow> evq \<Rightarrow> event res" where
  "eq_event event s \<equiv> ev_get (eq_store s) (Some event)"

text \<open>\<^verbatim>\<open>acquire\<close> does nothing in the base class; \<^verbatim>\<open>release\<close> deletes a managed event that is not scheduled.\<close>

definition ev_release :: "nat \<Rightarrow> evq \<Rightarrow> evq res" where
  "ev_release event s = rbind (eq_event event s) (\<lambda>e.
     Inr (if ev_isManaged e \<and> \<not> ev_scheduled e
          then s\<lparr>eq_store := (eq_store s)[event := None]\<rparr> else s))"

definition eq_asyncInsert :: "nat \<Rightarrow> evq \<Rightarrow> evq" where
  "eq_asyncInsert event s = s\<lparr>eq_async := eq_async s @ [event]\<rparr>"

text \<open>
  \<open>par\<close> is \<^verbatim>\<open>inParallelMode\<close> and \<open>cur\<close> the queue of the calling thread, \<^verbatim>\<open>curEventQueue()\<close>.
\<close>

definition eq_schedule :: "bool \<Rightarrow> nat \<Rightarrow> nat \<Rightarrow> tick \<Rightarrow> bool \<Rightarrow> evq \<Rightarrow> evq res" where
  "eq_schedule par cur event when global s =
     rbind (check (eq_curTick s \<le> when) Assertion) (\<lambda>_.
     rbind (eq_event event s) (\<lambda>e.
     rbind (check (\<not> ev_scheduled e) Assertion) (\<lambda>_.
     rbind (check (ev_initialized e) Assertion) (\<lambda>_.
     rbind (eq_modify event (ev_setWhen when (eq_self s)) s) (\<lambda>s.
     rbind (if par \<and> (eq_self s \<noteq> cur \<or> global) then Inr (eq_asyncInsert event s)
            else eq_insert event s) (\<lambda>s.
     eq_modify event (\<lambda>e. e\<lparr>ev_flags := flags_set (ev_flags e) Scheduled\<rparr>) s))))))"

definition eq_deschedule :: "bool \<Rightarrow> nat \<Rightarrow> nat \<Rightarrow> evq \<Rightarrow> evq res" where
  "eq_deschedule par cur event s =
     rbind (eq_event event s) (\<lambda>e.
     rbind (check (ev_scheduled e) Assertion) (\<lambda>_.
     rbind (check (ev_initialized e) Assertion) (\<lambda>_.
     rbind (check (\<not> par \<or> eq_self s = cur) Assertion) (\<lambda>_.
     rbind (eq_remove event s) (\<lambda>s.
     rbind (eq_modify event (\<lambda>e. e\<lparr>ev_flags := flags_clear (flags_clear (ev_flags e) Squashed) Scheduled\<rparr>) s)
     (ev_release event))))))"

definition eq_reschedule :: "bool \<Rightarrow> nat \<Rightarrow> nat \<Rightarrow> tick \<Rightarrow> bool \<Rightarrow> evq \<Rightarrow> evq res" where
  "eq_reschedule par cur event when always s =
     rbind (check (eq_curTick s \<le> when) Assertion) (\<lambda>_.
     rbind (eq_event event s) (\<lambda>e.
     rbind (check (always \<or> ev_scheduled e) Assertion) (\<lambda>_.
     rbind (check (ev_initialized e) Assertion) (\<lambda>_.
     rbind (check (\<not> par \<or> eq_self s = cur) Assertion) (\<lambda>_.
     rbind (if ev_scheduled e then eq_remove event s else Inr s) (\<lambda>s.
     rbind (eq_modify event (ev_setWhen when (eq_self s)) s) (\<lambda>s.
     rbind (eq_insert event s) (\<lambda>s.
     eq_modify event (\<lambda>e. e\<lparr>ev_flags := flags_set (flags_clear (ev_flags e) Squashed) Scheduled\<rparr>) s))))))))"

definition eq_nextTick :: "evq \<Rightarrow> tick res" where
  "eq_nextTick s = rbind (ev_get (eq_store s) (eq_head s)) (\<lambda>e. Inr (ev_when e))"

definition eq_replaceHead :: "ptr \<Rightarrow> evq \<Rightarrow> ptr \<times> evq" where
  "eq_replaceHead p s = (eq_head s, s\<lparr>eq_head := p\<rparr>)"

definition eq_checkpointReschedule :: "nat \<Rightarrow> evq \<Rightarrow> evq res" where
  "eq_checkpointReschedule event s = rbind (eq_event event s) (\<lambda>e.
     if ev_scheduled e then eq_insert event s else Inr s)"

fun eq_drain :: "nat list \<Rightarrow> evq \<Rightarrow> evq res" where
  "eq_drain [] s = Inr s"
| "eq_drain (event # rest) s = rbind (eq_insert event s) (\<lambda>s. eq_drain rest (s\<lparr>eq_async := rest\<rparr>))"

definition eq_handleAsyncInsertions :: "nat \<Rightarrow> evq \<Rightarrow> evq res" where
  "eq_handleAsyncInsertions cur s = rbind (check (eq_self s = cur) Assertion) (\<lambda>_. eq_drain (eq_async s) s)"

text \<open>
  What an event may do when it is processed: calls of the interface on the running queue.
\<close>

datatype request = Schedule nat tick | Deschedule nat | Reschedule nat tick bool | Squash nat

fun perform :: "bool \<Rightarrow> request \<Rightarrow> evq \<Rightarrow> evq res" where
  "perform par (Schedule event when) s = eq_schedule par (eq_self s) event when False s"
| "perform par (Deschedule event) s = eq_deschedule par (eq_self s) event s"
| "perform par (Reschedule event when always) s = eq_reschedule par (eq_self s) event when always s"
| "perform par (Squash event) s = eq_modify event ev_squash s"

text \<open>
  \<^verbatim>\<open>serviceOne\<close> unlinks the head event and then runs it, unless it is squashed; it returns
  the event if that is an exit event.
\<close>

definition eq_unlinkHead :: "evq \<Rightarrow> (nat \<times> evq) res" where
  "eq_unlinkHead s =
     rbind (ev_get (eq_store s) (eq_head s)) (\<lambda>he.
     let event = the (eq_head s); nxt = nextInBin he in
     rbind (eq_modify event (\<lambda>e. e\<lparr>ev_flags := flags_clear (ev_flags e) Scheduled\<rparr>) s) (\<lambda>s.
       case nxt of
         Some nx \<Rightarrow> rbind (eq_modify nx (\<lambda>ne. ne\<lparr>nextBin := nextBin he\<rparr>) s) (\<lambda>s. Inr (event, s\<lparr>eq_head := nxt\<rparr>))
       | None \<Rightarrow> Inr (event, s\<lparr>eq_head := nextBin he\<rparr>)))"

definition eq_runEvent ::
  "bool \<Rightarrow> (nat \<Rightarrow> evq \<Rightarrow> request list) \<Rightarrow> nat \<Rightarrow> evq \<Rightarrow> (ptr \<times> evq) res" where
  "eq_runEvent par process event s =
     rbind (eq_event event s) (\<lambda>e.
     if \<not> ev_squashed e
     then let s = s\<lparr>eq_curTick := ev_when e\<rparr> in
          rbind (rfold (perform par) (process event s) s) (\<lambda>s.
          rbind (eq_event event s) (\<lambda>e.
          if ev_isExitEvent e
          then rbind (check (\<not> ev_isManaged e \<or> \<not> flags_isSet (ev_flags e) IsMainQueue) Assertion)
                 (\<lambda>_. Inr (Some event, s))
          else rbind (ev_release event s) (\<lambda>s. Inr (None, s))))
     else rbind (eq_modify event (\<lambda>e. e\<lparr>ev_flags := flags_clear (ev_flags e) Squashed\<rparr>) s) (\<lambda>s.
          rbind (ev_release event s) (\<lambda>s. Inr (None, s))))"

definition eq_serviceOne ::
  "bool \<Rightarrow> (nat \<Rightarrow> evq \<Rightarrow> request list) \<Rightarrow> evq \<Rightarrow> (ptr \<times> evq) res" where
  "eq_serviceOne par process s = rbind (eq_unlinkHead s) (\<lambda>(event, s). eq_runEvent par process event s)"

fun eq_serviceLoop ::
  "nat \<Rightarrow> bool \<Rightarrow> (nat \<Rightarrow> evq \<Rightarrow> request list) \<Rightarrow> tick \<Rightarrow> evq \<Rightarrow> evq res" where
  "eq_serviceLoop 0 par process when s = (if eq_head s = None then Inr s else Inl Diverges)"
| "eq_serviceLoop (Suc n) par process when s =
     (if eq_head s = None then Inr s
      else rbind (eq_nextTick s) (\<lambda>t.
        if when < t then Inr s
        else rbind (eq_serviceOne par process s) (\<lambda>(_, s). eq_serviceLoop n par process when s)))"

definition eq_serviceEvents ::
  "nat \<Rightarrow> bool \<Rightarrow> (nat \<Rightarrow> evq \<Rightarrow> request list) \<Rightarrow> tick \<Rightarrow> evq \<Rightarrow> evq res" where
  "eq_serviceEvents n par process when s =
     rbind (eq_serviceLoop n par process when s) (\<lambda>s. Inr (s\<lparr>eq_curTick := when\<rparr>))"

text \<open>
  The two nested loops of \<^verbatim>\<open>debugVerify\<close>; \<open>seen\<close> is the map of visited nodes. The inner loop
  returns \<open>None\<close> for \<^verbatim>\<open>return false\<close>.
\<close>

type_synonym verify_state = "tick \<times> int \<times> nat set"

fun verify_bin :: "nat \<Rightarrow> ev_store \<Rightarrow> ptr \<Rightarrow> verify_state \<Rightarrow> verify_state option res" where
  "verify_bin _ h None st = Inr (Some st)"
| "verify_bin 0 h (Some n) st = Inl Diverges"
| "verify_bin (Suc k) h (Some n) (time, priority, seen) =
     rbind (ev_get h (Some n)) (\<lambda>e.
       if ev_when e < time then Inr None
       else if ev_when e = time \<and> ev_priority e < priority then Inr None
       else if n \<in> seen then Inr None
       else verify_bin k h (nextInBin e) (ev_when e, ev_priority e, insert n seen))"

fun verify_bins :: "nat \<Rightarrow> ev_store \<Rightarrow> ptr \<Rightarrow> verify_state \<Rightarrow> bool res" where
  "verify_bins _ h None st = Inr True"
| "verify_bins 0 h (Some b) st = Inl Diverges"
| "verify_bins (Suc k) h (Some b) st =
     rbind (verify_bin (length h + 1) h (Some b) st) (\<lambda>r. case r of None \<Rightarrow> Inr False
       | Some st' \<Rightarrow> rbind (ev_get h (Some b)) (\<lambda>be. verify_bins k h (nextBin be) st'))"

definition eq_debugVerify :: "evq \<Rightarrow> bool res" where
  "eq_debugVerify s = verify_bins (length (eq_store s) + 1) (eq_store s) (eq_head s) (0, 0, {})"

section \<open>Chains of pointers\<close>

named_theorems evq_defs \<open>reading and writing the store\<close>

lemma ev_look_update [simp]:
  "ev_look (h[i := v]) j = (if i = j \<and> i < length h then v else ev_look h j)"
  by (simp add: ev_look_def)

lemma ev_look_length: "ev_look h i = Some e \<Longrightarrow> i < length h"
  by (auto simp: ev_look_def split: if_splits)

lemma ev_get_look [simp]: "ev_get h (Some i) = (case ev_look h i of None \<Rightarrow> Inl NullDeref | Some e \<Rightarrow> Inr e)"
  by (simp add: ev_get_def)

lemma ev_mod_look [simp]: "ev_look h i = Some e \<Longrightarrow> ev_mod h i f = Inr (h[i := Some (f e)])"
  by (simp add: ev_mod_def)

fun in_seg :: "ev_store \<Rightarrow> ptr \<Rightarrow> nat list \<Rightarrow> ptr \<Rightarrow> bool" where
  "in_seg h p [] q \<longleftrightarrow> p = q"
| "in_seg h p (x # xs) q \<longleftrightarrow> p = Some x \<and> (\<exists>e. ev_look h x = Some e \<and> in_seg h (nextInBin e) xs q)"

fun bin_seg :: "ev_store \<Rightarrow> ptr \<Rightarrow> nat list list \<Rightarrow> ptr \<Rightarrow> bool" where
  "bin_seg h p [] q \<longleftrightarrow> p = q"
| "bin_seg h p (b # bs) q \<longleftrightarrow> b \<noteq> [] \<and> in_seg h p b None \<and>
     (\<exists>e. ev_look h (hd b) = Some e \<and> bin_seg h (nextBin e) bs q)"

lemma in_seg_append: "in_seg h p (xs @ ys) q \<longleftrightarrow> (\<exists>r. in_seg h p xs r \<and> in_seg h r ys q)"
  by (induction xs arbitrary: p) auto

lemma bin_seg_append: "bin_seg h p (xs @ ys) q \<longleftrightarrow> (\<exists>r. bin_seg h p xs r \<and> bin_seg h r ys q)"
  by (induction xs arbitrary: p) auto

lemma in_seg_look: "in_seg h p xs q \<Longrightarrow> x \<in> set xs \<Longrightarrow> \<exists>e. ev_look h x = Some e"
  by (induction xs arbitrary: p) auto

lemma bin_seg_look: "bin_seg h p bs q \<Longrightarrow> x \<in> set (concat bs) \<Longrightarrow> \<exists>e. ev_look h x = Some e"
  by (induction bs arbitrary: p) (auto dest: in_seg_look)

lemma bin_seg_head: "bin_seg h p (b # bs) q \<Longrightarrow> p = Some (hd b)"
  by (cases b) auto

lemma in_seg_cong:
  assumes "\<And>x. x \<in> set xs \<Longrightarrow> map_option nextInBin (ev_look h' x) = map_option nextInBin (ev_look h x)"
  shows "in_seg h' p xs q \<longleftrightarrow> in_seg h p xs q"
  using assms
proof (induction xs arbitrary: p)
  case (Cons x xs)
  have "map_option nextInBin (ev_look h' x) = map_option nextInBin (ev_look h x)" using Cons.prems by simp
  moreover have "in_seg h' r xs q \<longleftrightarrow> in_seg h r xs q" for r using Cons by simp
  ultimately show ?case by (cases "ev_look h x"; cases "ev_look h' x") auto
qed simp

lemma bin_seg_cong:
  assumes "\<And>x. x \<in> set (concat bs) \<Longrightarrow> map_option nextInBin (ev_look h' x) = map_option nextInBin (ev_look h x)"
    and "\<And>b. b \<in> set bs \<Longrightarrow> b \<noteq> [] \<Longrightarrow> map_option nextBin (ev_look h' (hd b)) = map_option nextBin (ev_look h (hd b))"
  shows "bin_seg h' p bs q \<longleftrightarrow> bin_seg h p bs q"
  using assms
proof (induction bs arbitrary: p)
  case (Cons b bs)
  have 1: "in_seg h' p b None \<longleftrightarrow> in_seg h p b None" by (rule in_seg_cong) (use Cons.prems(1) in auto)
  have 2: "bin_seg h' r bs q \<longleftrightarrow> bin_seg h r bs q" for r using Cons by simp
  show ?case
  proof (cases "b = []")
    case False
    then have "map_option nextBin (ev_look h' (hd b)) = map_option nextBin (ev_look h (hd b))"
      using Cons.prems(2) by simp
    then show ?thesis using 1 2 by (cases "ev_look h (hd b)"; cases "ev_look h' (hd b)") auto
  qed simp
qed simp

lemma bin_seg_frame:
  assumes "\<And>y. y \<notin> S \<Longrightarrow> ev_look h' y = ev_look h y" "S \<inter> set (concat bs) = {}"
  shows "bin_seg h' p bs q \<longleftrightarrow> bin_seg h p bs q"
proof (rule bin_seg_cong)
  fix b assume b: "b \<in> set bs" "b \<noteq> []"
  then have "hd b \<in> set (concat bs)" using hd_in_set [of b] unfolding set_concat by blast
  then show "map_option nextBin (ev_look h' (hd b)) = map_option nextBin (ev_look h (hd b))"
    using assms by (metis disjoint_iff)
qed (use assms in \<open>metis disjoint_iff\<close>)

lemma in_seg_upd_other: "x \<notin> set xs \<Longrightarrow> in_seg (h[x := v]) p xs q \<longleftrightarrow> in_seg h p xs q"
  by (rule in_seg_cong) auto

lemma bin_seg_upd_other: "x \<notin> set (concat bs) \<Longrightarrow> bin_seg (h[x := v]) p bs q \<longleftrightarrow> bin_seg h p bs q"
  by (rule bin_seg_cong) (auto dest: hd_in_set)

text \<open>Redirecting the last pointer of a segment.\<close>

lemma in_seg_relink:
  assumes "in_seg h p (xs @ [x]) q" "x \<notin> set xs" "ev_look h x = Some e"
  shows "in_seg (h[x := Some (e\<lparr>nextInBin := r\<rparr>)]) p (xs @ [x]) r"
  using assms ev_look_length [OF assms(3)]
  by (auto simp: in_seg_append in_seg_upd_other)

lemma bin_seg_relink:
  assumes "bin_seg h p (bs @ [b]) q" "hd b \<notin> set (concat bs)" "ev_look h (hd b) = Some e"
  shows "bin_seg (h[hd b := Some (e\<lparr>nextBin := r\<rparr>)]) p (bs @ [b]) r"
proof -
  have "in_seg (h[hd b := Some (e\<lparr>nextBin := r\<rparr>)]) p' b None \<longleftrightarrow> in_seg h p' b None" for p'
    by (rule in_seg_cong) (use assms(3) in auto)
  then show ?thesis
    using assms ev_look_length [OF assms(3)] by (auto simp: bin_seg_append bin_seg_upd_other)
qed

section \<open>Keys\<close>

definition ev_key :: "event \<Rightarrow> tick \<times> int" where
  "ev_key e = (ev_when e, ev_priority e)"

definition key_at :: "ev_store \<Rightarrow> nat \<Rightarrow> tick \<times> int" where
  "key_at h x = (case ev_look h x of None \<Rightarrow> (0, 0) | Some e \<Rightarrow> ev_key e)"

lemma key_at_look: "ev_look h x = Some e \<Longrightarrow> key_at h x = ev_key e"
  by (simp add: key_at_def)

lemma ev_less_key [simp]: "ev_less l r \<longleftrightarrow> ev_key l < ev_key r"
  by (auto simp: ev_less_def ev_key_def)

lemma ev_le_key [simp]: "ev_le l r \<longleftrightarrow> ev_key l \<le> ev_key r"
  by (auto simp: ev_le_def ev_key_def)

lemma ev_eq_key [simp]: "ev_eq l r \<longleftrightarrow> ev_key l = ev_key r"
  by (auto simp: ev_eq_def ev_key_def)

lemma ev_ne_key [simp]: "ev_ne l r \<longleftrightarrow> ev_key l \<noteq> ev_key r"
  by (auto simp: ev_ne_def ev_key_def)

text \<open>Everything of an event but its two links.\<close>

definition ev_data :: "event \<Rightarrow> event" where
  "ev_data e = e\<lparr>nextBin := None, nextInBin := None\<rparr>"

definition same_data :: "ev_store \<Rightarrow> ev_store \<Rightarrow> bool" where
  "same_data h h' \<longleftrightarrow> length h' = length h \<and> (\<forall>x. map_option ev_data (ev_look h' x) = map_option ev_data (ev_look h x))"

lemma ev_data_fields:
  assumes "ev_data e = ev_data e'"
  shows "ev_when e = ev_when e'" "ev_priority e = ev_priority e'" "ev_flags e = ev_flags e'" "ev_queue e = ev_queue e'"
  using assms by (cases e; cases e'; simp add: ev_data_def)+

lemma same_data_refl [simp]: "same_data h h"
  by (simp add: same_data_def)

lemma same_data_trans: "same_data h h' \<Longrightarrow> same_data h' h'' \<Longrightarrow> same_data h h''"
  by (simp add: same_data_def)

lemma same_data_upd: "ev_look h x = Some e \<Longrightarrow> ev_data e' = ev_data e \<Longrightarrow> same_data h (h[x := Some e'])"
  by (auto simp: same_data_def)

lemma ev_data_links [simp]: "ev_data (e\<lparr>nextBin := p\<rparr>) = ev_data e" "ev_data (e\<lparr>nextInBin := q\<rparr>) = ev_data e"
  by (simp_all add: ev_data_def)

lemma ev_key_links [simp]: "ev_key (e\<lparr>nextBin := p\<rparr>) = ev_key e" "ev_key (e\<lparr>nextInBin := q\<rparr>) = ev_key e"
  by (simp_all add: ev_key_def)

lemma same_data_look:
  assumes "same_data h h'"
  shows "(case ev_look h' x of None \<Rightarrow> ev_look h x = None
    | Some e' \<Rightarrow> \<exists>e. ev_look h x = Some e \<and> ev_data e' = ev_data e)"
  using assms by (cases "ev_look h x"; cases "ev_look h' x") (auto simp: same_data_def dest: spec [of _ x])

lemma same_data_key: "same_data h h' \<Longrightarrow> key_at h' x = key_at h x"
  using same_data_look [of h h' x] by (auto simp: key_at_def ev_key_def dest: ev_data_fields split: option.splits)

section \<open>Bins: the abstract operations and their refinement\<close>

fun ins_bins :: "(nat \<Rightarrow> 'k::linorder) \<Rightarrow> nat \<Rightarrow> nat list list \<Rightarrow> nat list list" where
  "ins_bins K x [] = [[x]]"
| "ins_bins K x (b # bs) =
     (if K x < K (hd b) then [x] # b # bs
      else if K x = K (hd b) then (x # b) # bs
      else b # ins_bins K x bs)"

fun del_bins :: "nat \<Rightarrow> nat list list \<Rightarrow> nat list list" where
  "del_bins x [] = []"
| "del_bins x (b # bs) =
     (if x \<in> set b then (if remove1 x b = [] then bs else remove1 x b # bs) else b # del_bins x bs)"

definition bin_uniform :: "(nat \<Rightarrow> 'k) \<Rightarrow> nat list \<Rightarrow> bool" where
  "bin_uniform K b \<longleftrightarrow> (\<forall>x\<in>set b. K x = K (hd b))"

definition bins_sorted :: "(nat \<Rightarrow> 'k::linorder) \<Rightarrow> nat list list \<Rightarrow> bool" where
  "bins_sorted K bins \<longleftrightarrow> [] \<notin> set bins \<and> distinct (concat bins) \<and>
     (\<forall>b\<in>set bins. bin_uniform K b) \<and> sorted_wrt (<) (map (K \<circ> hd) bins)"

lemma bins_sorted_Cons:
  "bins_sorted K (b # bs) \<longleftrightarrow> b \<noteq> [] \<and> distinct b \<and> set b \<inter> set (concat bs) = {} \<and>
     bin_uniform K b \<and> (\<forall>c\<in>set bs. K (hd b) < K (hd c)) \<and> bins_sorted K bs"
  by (auto simp: bins_sorted_def)

lemma bin_uniformD: "bin_uniform K b \<Longrightarrow> x \<in> set b \<Longrightarrow> K x = K (hd b)"
  by (simp add: bin_uniform_def)

lemma bin_uniform_single [simp]: "bin_uniform K [x]"
  by (simp add: bin_uniform_def)

lemma bin_uniform_push: "bin_uniform K b \<Longrightarrow> K x = K (hd b) \<Longrightarrow> bin_uniform K (x # b)"
  by (simp add: bin_uniform_def)

lemma bin_uniform_subset:
  assumes "bin_uniform K b" "set c \<subseteq> set b"
  shows "bin_uniform K c"
proof (cases "c = []")
  case False
  then have "hd c \<in> set b" using assms(2) hd_in_set by blast
  then show ?thesis using assms by (auto simp: bin_uniform_def)
qed (simp add: bin_uniform_def)

lemma bins_sorted_Nil [simp]: "bins_sorted K []"
  by (simp add: bins_sorted_def)

lemma ins_bins_set: "set (concat (ins_bins K x bins)) = insert x (set (concat bins))"
  by (induction bins) auto

lemma ins_bins_hd: "c \<in> set (ins_bins K x bins) \<Longrightarrow> K (hd c) = K x \<or> c \<in> set bins"
  by (induction bins) (auto split: if_splits)

lemma ins_bins_sorted:
  "bins_sorted K bins \<Longrightarrow> x \<notin> set (concat bins) \<Longrightarrow> bins_sorted K (ins_bins K x bins)"
proof (induction bins)
  case Nil
  then show ?case by (simp add: bins_sorted_Cons)
next
  case (Cons b bs)
  from Cons.prems have p: "b \<noteq> []" "distinct b" "set b \<inter> set (concat bs) = {}" "bin_uniform K b"
      "\<forall>c\<in>set bs. K (hd b) < K (hd c)" "bins_sorted K bs" "x \<notin> set b" "x \<notin> set (concat bs)"
    by (auto simp: bins_sorted_Cons)
  have IH: "bins_sorted K (ins_bins K x bs)" using Cons.IH p(6,8) .
  show ?case
  proof (cases "K x \<le> K (hd b)")
    case True
    then consider "K x < K (hd b)" | "K x = K (hd b)" by fastforce
    then show ?thesis
    proof cases
      case 1
      then have "\<forall>c\<in>set bs. K x < K (hd c)" using p(5) by (meson order.strict_trans)
      then show ?thesis using p 1 by (simp add: bins_sorted_Cons)
    next
      case 2
      then show ?thesis using p bin_uniform_push [OF p(4) 2] by (simp add: bins_sorted_Cons)
    qed
  next
    case False
    then have "\<forall>c\<in>set (ins_bins K x bs). K (hd b) < K (hd c)"
      using p(5) ins_bins_hd [of _ K x bs] by fastforce
    moreover have "set b \<inter> set (concat (ins_bins K x bs)) = {}"
      using p(3,7) unfolding ins_bins_set by blast
    moreover have "ins_bins K x (b # bs) = b # ins_bins K x bs" using False by auto
    ultimately show ?thesis using p(1,2,4) IH by (simp add: bins_sorted_Cons)
  qed
qed

lemma del_bins_concat:
  "distinct (concat bins) \<Longrightarrow> concat (del_bins x bins) = remove1 x (concat bins)"
  by (induction bins) (auto simp: remove1_append remove1_idem)

lemma del_bins_split:
  assumes "bins_sorted K bins" "x \<in> set (concat bins)"
  shows "\<exists>pre b post. bins = pre @ b # post \<and> x \<in> set b \<and> K x = K (hd b) \<and>
    (\<forall>c\<in>set pre. K (hd c) < K x) \<and>
    del_bins x bins = pre @ (if remove1 x b = [] then [] else [remove1 x b]) @ post"
  using assms
proof (induction bins)
  case (Cons b bs)
  show ?case
  proof (cases "x \<in> set b")
    case True
    then have "K x = K (hd b)" using Cons.prems(1) by (auto simp: bins_sorted_Cons intro: bin_uniformD)
    then show ?thesis using True
      by (intro exI [of _ "[]"] exI [of _ b] exI [of _ bs]) simp
  next
    case False
    then have "\<exists>pre c post. bs = pre @ c # post \<and> x \<in> set c \<and> K x = K (hd c) \<and>
        (\<forall>c\<in>set pre. K (hd c) < K x) \<and>
        del_bins x bs = pre @ (if remove1 x c = [] then [] else [remove1 x c]) @ post"
      using Cons by (simp add: bins_sorted_Cons)
    then obtain pre c post where c: "bs = pre @ c # post" "x \<in> set c" "K x = K (hd c)"
        "\<forall>c\<in>set pre. K (hd c) < K x"
        "del_bins x bs = pre @ (if remove1 x c = [] then [] else [remove1 x c]) @ post" by blast
    moreover have "K (hd b) < K x" using Cons.prems(1) c(1,3) by (simp add: bins_sorted_Cons)
    ultimately show ?thesis using False
      by (intro exI [of _ "b # pre"] exI [of _ c] exI [of _ post]) simp
  qed
qed simp

lemma hd_remove1: "x \<in> set b \<Longrightarrow> remove1 x b \<noteq> [] \<Longrightarrow> hd (remove1 x b) \<in> set b"
  by (meson hd_in_set notin_set_remove1)

lemma del_bins_subset: "set (concat (del_bins x bins)) \<subseteq> set (concat bins)"
  by (induction bins) (auto dest: notin_set_remove1)

lemma del_bins_hd:
  "bins_sorted K bins \<Longrightarrow> c \<in> set (del_bins x bins) \<Longrightarrow> \<exists>d\<in>set bins. K (hd c) = K (hd d)"
proof (induction bins)
  case (Cons b bs)
  show ?case
  proof (cases "x \<in> set b \<and> c = remove1 x b \<and> c \<noteq> []")
    case True
    then have "K (hd c) = K (hd b)"
      using Cons.prems(1) hd_remove1 [of x b] by (auto simp: bins_sorted_Cons intro: bin_uniformD)
    then show ?thesis by auto
  next
    case False
    then show ?thesis using Cons by (auto simp: bins_sorted_Cons split: if_splits)
  qed
qed simp

lemma del_bins_sorted: "bins_sorted K bins \<Longrightarrow> bins_sorted K (del_bins x bins)"
proof (induction bins)
  case (Cons b bs)
  then have p: "b \<noteq> []" "distinct b" "set b \<inter> set (concat bs) = {}" "bin_uniform K b"
      "\<forall>c\<in>set bs. K (hd b) < K (hd c)" "bins_sorted K bs" "bins_sorted K (del_bins x bs)"
    by (auto simp: bins_sorted_Cons)
  show ?case
  proof (cases "x \<in> set b")
    case True
    have sub: "set (remove1 x b) \<subseteq> set b" by (rule set_remove1_subset)
    show ?thesis
    proof (cases "remove1 x b = []")
      case False
      then have "K (hd (remove1 x b)) = K (hd b)" using hd_remove1 [OF True] bin_uniformD [OF p(4)] by blast
      moreover have "set (remove1 x b) \<inter> set (concat bs) = {}" using sub p(3) by blast
      ultimately show ?thesis using True False p bin_uniform_subset [OF p(4) sub] by (simp add: bins_sorted_Cons)
    qed (use True p in simp)
  next
    case False
    have "set b \<inter> set (concat (del_bins x bs)) = {}" using p(3) del_bins_subset [of x bs] by blast
    moreover have "\<forall>c\<in>set (del_bins x bs). K (hd b) < K (hd c)"
      using p(5) del_bins_hd [OF p(6), of _ x] by fastforce
    ultimately show ?thesis using False p by (simp add: bins_sorted_Cons)
  qed
qed simp

text \<open>The service order: a new event goes in front of every event that is not strictly before it.\<close>

lemma ins_bins_concat:
  assumes "bins_sorted K bins"
  shows "concat (ins_bins K x bins) =
    takeWhile (\<lambda>y. K y < K x) (concat bins) @ x # dropWhile (\<lambda>y. K y < K x) (concat bins)"
  using assms
proof (induction bins)
  case (Cons b bs)
  then have p: "b \<noteq> []" "bin_uniform K b" and IH: "concat (ins_bins K x bs) =
      takeWhile (\<lambda>y. K y < K x) (concat bs) @ x # dropWhile (\<lambda>y. K y < K x) (concat bs)"
    by (auto simp: bins_sorted_Cons)
  show ?case
  proof (cases "K x \<le> K (hd b)")
    case True
    obtain y ys where b: "b = y # ys" using p(1) by (cases b) auto
    then show ?thesis using True by auto
  next
    case False
    then have "\<forall>y\<in>set b. K y < K x" using bin_uniformD [OF p(2)] by fastforce
    moreover have "ins_bins K x (b # bs) = b # ins_bins K x bs" using False by auto
    ultimately show ?thesis using IH by simp
  qed
qed simp

definition bins_ok :: "ev_store \<Rightarrow> ptr \<Rightarrow> nat list list \<Rightarrow> bool" where
  "bins_ok h p bins \<longleftrightarrow> bin_seg h p bins None \<and> bins_sorted (key_at h) bins"

lemma bins_sorted_key_cong:
  assumes "\<And>x. K' x = K x"
  shows "bins_sorted K' bins = bins_sorted K bins"
proof -
  have "K' = K" using assms by (rule ext)
  then show ?thesis by simp
qed

lemma bins_sorted_append:
  "bins_sorted K (as @ bs) \<longleftrightarrow> bins_sorted K as \<and> bins_sorted K bs \<and>
     set (concat as) \<inter> set (concat bs) = {} \<and> (\<forall>a\<in>set as. \<forall>b\<in>set bs. K (hd a) < K (hd b))"
  by (induction as) (auto simp: bins_sorted_Cons)

lemma takeWhile_split:
  "\<forall>x\<in>set pre. P x \<Longrightarrow> post \<noteq> [] \<longrightarrow> \<not> P (hd post) \<Longrightarrow> takeWhile P (pre @ post) = pre"
  by (induction pre) (cases post, auto)

lemma split_unique:
  assumes "pre @ post = pre' @ post'" "\<forall>x\<in>set pre. P x" "post \<noteq> [] \<longrightarrow> \<not> P (hd post)"
    "\<forall>x\<in>set pre'. P x" "post' \<noteq> [] \<longrightarrow> \<not> P (hd post')"
  shows "pre = pre' \<and> post = post'"
  using takeWhile_split [OF assms(2,3)] takeWhile_split [OF assms(4,5)] assms(1) by simp

lemma bin_walk_split:
  assumes "bin_seg h p bs None" "length bs \<le> n"
  shows "\<exists>pre post q. bs = pre @ post \<and> bin_walk n h e prev p = Inr (last (prev # map hd pre), q) \<and>
    bin_seg h p pre q \<and> bin_seg h q post None \<and> (\<forall>b\<in>set pre. key_at h (hd b) < ev_key e) \<and>
    (post \<noteq> [] \<longrightarrow> ev_key e \<le> key_at h (hd (hd post)))"
  using assms
proof (induction bs arbitrary: p n prev)
  case Nil
  then show ?case by (intro exI [of _ "[]"]) simp
next
  case (Cons b bs)
  then obtain m where m: "n = Suc m" "length bs \<le> m" by (cases n) auto
  from Cons.prems obtain be where be: "p = Some (hd b)" "ev_look h (hd b) = Some be"
      "bin_seg h (nextBin be) bs None" "b \<noteq> []" using bin_seg_head [of h p b bs] by auto
  show ?case
  proof (cases "ev_key be < ev_key e")
    case True
    from Cons.IH [OF be(3) m(2), of "hd b"] obtain pre post q where
      ih: "bs = pre @ post" "bin_walk m h e (hd b) (nextBin be) = Inr (last (hd b # map hd pre), q)"
        "bin_seg h (nextBin be) pre q" "bin_seg h q post None" "\<forall>b\<in>set pre. key_at h (hd b) < ev_key e"
        "post \<noteq> [] \<longrightarrow> ev_key e \<le> key_at h (hd (hd post))" by blast
    show ?thesis
      by (rule exI [of _ "b # pre"], rule exI [of _ post], rule exI [of _ q])
        (use ih True be m Cons.prems(1) in \<open>simp add: key_at_look\<close>)
  next
    case False
    show ?thesis
      by (rule exI [of _ "[]"], rule exI [of _ "b # bs"], rule exI [of _ p])
        (use False be m Cons.prems(1) in \<open>simp add: key_at_look\<close>)
  qed
qed

lemma bins_length:
  assumes "bin_seg h p bs q" "distinct (concat bs)"
  shows "length bs \<le> length h"
proof -
  have "[] \<notin> set bs" using assms(1) by (induction bs arbitrary: p) auto
  then have "length bs \<le> length (concat bs)"
    by (induction bs) (auto simp: Suc_le_eq intro: order.strict_trans1)
  also have "\<dots> = card (set (concat bs))" using distinct_card [OF assms(2)] by simp
  also have "\<dots> \<le> card {..<length h}"
  proof (rule card_mono)
    show "set (concat bs) \<subseteq> {..<length h}"
      using bin_seg_look [OF assms(1)] ev_look_length by (meson lessThan_iff subsetI)
  qed simp
  finally show ?thesis by simp
qed

text \<open>Inserting in front of the first bin whose key is not smaller.\<close>

lemma insertBefore_bins:
  assumes "bin_seg h p bs None" "ev_look h x = Some e" "x \<notin> set (concat bs)"
    "bs \<noteq> [] \<longrightarrow> ev_key e \<le> key_at h (hd (hd bs))"
  shows "\<exists>e'. insertBefore h x p = Inr (h[x := Some e'], Some x) \<and> ev_data e' = ev_data e \<and>
    bin_seg (h[x := Some e']) (Some x) (ins_bins (key_at h) x bs) None"
proof (cases bs)
  case Nil
  then show ?thesis
    using assms ev_look_length [OF assms(2)]
    by (intro exI [of _ "e\<lparr>nextBin := None, nextInBin := None\<rparr>"]) (simp add: insertBefore_def)
next
  case (Cons b bs')
  with assms(1) obtain be where be: "p = Some (hd b)" "ev_look h (hd b) = Some be" "b \<noteq> []"
      "in_seg h p b None" "bin_seg h (nextBin be) bs' None" using bin_seg_head [of h p b bs'] by auto
  have nx: "x \<notin> set b" "x \<notin> set (concat bs')" "hd b \<noteq> x" using assms(3) Cons be(3) hd_in_set [of b] by auto
  note kx = key_at_look [OF assms(2)] key_at_look [OF be(2)] ev_look_length [OF assms(2)]
  show ?thesis
  proof (cases "ev_key e < ev_key be")
    case True
    let ?e = "e\<lparr>nextBin := p, nextInBin := None\<rparr>"
    have "bin_seg (h[x := Some ?e]) (Some x) ([x] # bs) None"
      using bin_seg_upd_other [OF assms(3), of h "Some ?e" p None] assms(1) kx(3) by (simp only: bin_seg.simps) simp
    then show ?thesis using True Cons kx be(1,2) assms(2)
      by (intro exI [of _ ?e]) (simp add: insertBefore_def)
  next
    case False
    let ?e = "e\<lparr>nextBin := nextBin be, nextInBin := p\<rparr>"
    have "ev_key e = ev_key be" using False assms(4) Cons kx(2) by simp
    moreover have "bin_seg (h[x := Some ?e]) (Some x) ((x # b) # bs') None"
      using be(4,5) nx kx(3) by (simp add: in_seg_upd_other bin_seg_upd_other)
    ultimately show ?thesis using False Cons kx be(1,2) assms(2)
      by (intro exI [of _ ?e]) (simp add: insertBefore_def)
  qed
qed

lemma ins_bins_append:
  "\<forall>b\<in>set pre. K (hd b) < K x \<Longrightarrow> ins_bins K x (pre @ post) = pre @ ins_bins K x post"
  by (induction pre) auto

text \<open>Linking a changed tail behind an unchanged, non-empty front.\<close>

lemma bin_seg_link:
  assumes "bin_seg h p (as @ [c]) q" "ev_look h (hd c) = Some ce" "hd c \<notin> set (concat as)"
    "bin_seg h r post None" "hd c \<notin> set (concat post)"
  shows "bin_seg (h[hd c := Some (ce\<lparr>nextBin := r\<rparr>)]) p ((as @ [c]) @ post) None"
  using bin_seg_relink [OF assms(1,3,2), of r] assms(4)
  unfolding bin_seg_append [of _ p "as @ [c]"] by (auto simp: bin_seg_upd_other [OF assms(5)])

lemma last_map_hd: "last (hd b # map hd pre) = hd (last (b # pre))"
  by (induction pre rule: rev_induct) auto

lemma bins_sorted_keys: "same_data h h' \<Longrightarrow> bins_sorted (key_at h') bins = bins_sorted (key_at h) bins"
  by (rule bins_sorted_key_cong) (rule same_data_key)

lemma insert_behind_ok:
  assumes "bins_ok h p (b # bs)" "ev_look h x = Some e" "x \<notin> set (concat (b # bs))"
    "key_at h (hd b) < ev_key e" "ev_look h (hd b) = Some he"
  shows "\<exists>h'. insert_behind h x (hd b) (nextBin he) = Inr h' \<and> same_data h h' \<and>
    bin_seg h' p (ins_bins (key_at h) x (b # bs)) None"
proof -
  let ?K = "key_at h"
  have seg: "bin_seg h p (b # bs) None" and srt: "bins_sorted ?K (b # bs)"
    using assms(1) by (simp_all add: bins_ok_def)
  have tl: "bin_seg h (nextBin he) bs None" and ib: "in_seg h p b None" "b \<noteq> []"
    using seg assms(5) by auto
  have "length bs \<le> length h" using bins_length [OF tl] srt by (simp add: bins_sorted_def)
  from bin_walk_split [OF tl this, of e "hd b"] obtain pre post q where
    w: "bs = pre @ post" "bin_walk (length h) h e (hd b) (nextBin he) = Inr (hd (last (b # pre)), q)"
      "bin_seg h (nextBin he) pre q" "bin_seg h q post None" "\<forall>b\<in>set pre. ?K (hd b) < ev_key e"
      "post \<noteq> [] \<longrightarrow> ev_key e \<le> ?K (hd (hd post))"
    unfolding last_map_hd by blast
  obtain as c where c: "b # pre = as @ [c]" by (metis list.distinct(1) rev_exhaust)
  from insertBefore_bins [OF w(4) assms(2) _ w(6)] obtain e' where
    e': "insertBefore h x q = Inr (h[x := Some e'], Some x)" "ev_data e' = ev_data e"
      "bin_seg (h[x := Some e']) (Some x) (ins_bins ?K x post) None" using assms(3) w(1) by auto
  have kx: "?K x = ev_key e" using assms(2) by (rule key_at_look)
  have seg1: "bin_seg h p (as @ [c]) q" unfolding c [symmetric] using w(3) assms(5) ib by simp
  have xc: "x \<notin> set (concat (as @ [c]))" using assms(3) w(1) unfolding c [symmetric] by simp
  have cc: "c \<noteq> []" using srt w(1) c by (metis append_Cons append_assoc bins_sorted_Cons bins_sorted_append)
  then have hc: "hd c \<in> set (concat (as @ [c]))" by simp
  with xc have "hd c \<noteq> x" by metis
  with bin_seg_look [OF seg1 hc] obtain ce where ce: "ev_look h (hd c) = Some ce" "hd c \<noteq> x" by blast
  have srt': "bins_sorted ?K (as @ [c] @ post)" using srt w(1) c by (metis append_Cons append_assoc)
  have "set (concat as) \<inter> set c = {}" "set c \<inter> set (concat post) = {}"
    using srt' unfolding bins_sorted_append by auto
  then have dc: "hd c \<notin> set (concat as)" "hd c \<notin> set (concat post)" using hd_in_set [OF cc] by blast+
  let ?h1 = "h[x := Some e']"
  let ?h2 = "?h1[hd c := Some (ce\<lparr>nextBin := Some x\<rparr>)]"
  have dn: "hd c \<notin> set (concat (ins_bins ?K x post))" using dc(2) ce(2) unfolding ins_bins_set by simp
  have "bin_seg ?h2 p ((as @ [c]) @ ins_bins ?K x post) None"
    using seg1 xc ce dc(1) e'(3) dn
    by (intro bin_seg_link [where q = q]) (simp_all add: bin_seg_upd_other del: bin_seg.simps)
  moreover have "ins_bins ?K x (b # bs) = (as @ [c]) @ ins_bins ?K x post"
  proof -
    have "\<forall>d\<in>set (b # pre). ?K (hd d) < ?K x" using w(5) assms(4) kx by simp
    from ins_bins_append [OF this, of post] show ?thesis unfolding c w(1) by (simp flip: append_Cons c)
  qed
  moreover have "insert_behind h x (hd b) (nextBin he) = Inr ?h2"
    using assms(2) w(2) e'(1) ce c by (simp add: insert_behind_def)
  moreover have "same_data h ?h1" by (rule same_data_upd [OF assms(2) e'(2)])
  moreover have "same_data ?h1 ?h2" by (rule same_data_upd) (use ce in auto)
  ultimately show ?thesis using same_data_trans by metis
qed

lemma eq_insert_at_ok:
  assumes "bins_ok h p bins" "ev_look h x = Some e" "x \<notin> set (concat bins)"
  shows "\<exists>h' p'. eq_insert_at h p x = Inr (h', p') \<and> same_data h h' \<and>
    bins_ok h' p' (ins_bins (key_at h) x bins)"
proof -
  have seg: "bin_seg h p bins None" and srt: "bins_sorted (key_at h) bins" using assms(1) by (simp_all add: bins_ok_def)
  note srt' = ins_bins_sorted [OF srt assms(3)]
  have front: ?thesis if ne: "bins \<noteq> [] \<longrightarrow> ev_key e \<le> key_at h (hd (hd bins))"
    and ins: "eq_insert_at h p x = insertBefore h x p"
  proof -
    from insertBefore_bins [OF seg assms(2,3) ne] obtain e' where
      e': "insertBefore h x p = Inr (h[x := Some e'], Some x)" "ev_data e' = ev_data e"
        "bin_seg (h[x := Some e']) (Some x) (ins_bins (key_at h) x bins) None" by blast
    note sd = same_data_upd [OF assms(2) e'(2)]
    show ?thesis using e' ins sd srt' bins_sorted_keys [OF sd] by (auto simp: bins_ok_def)
  qed
  show ?thesis
  proof (cases bins)
    case Nil
    then show ?thesis using seg by (intro front) (simp_all add: eq_insert_at_def)
  next
    case (Cons b bs)
    then obtain he where he: "p = Some (hd b)" "ev_look h (hd b) = Some he"
      using seg bin_seg_head [of h p b bs] by auto
    show ?thesis
    proof (cases "ev_key e \<le> ev_key he")
      case True
      then show ?thesis using he Cons assms(2) by (intro front) (simp_all add: eq_insert_at_def key_at_look)
    next
      case False
      then have "key_at h (hd b) < ev_key e" by (simp add: key_at_look [OF he(2)])
      from insert_behind_ok [OF _ assms(2) _ this he(2), of p bs] assms(1,3) Cons obtain h' where
        "insert_behind h x (hd b) (nextBin he) = Inr h'" "same_data h h'"
        "bin_seg h' p (ins_bins (key_at h) x bins) None" by auto
      then show ?thesis using he assms(2) False srt' by (auto simp: eq_insert_at_def bins_ok_def bins_sorted_keys)
    qed
  qed
qed

text \<open>Removal inside a bin.\<close>

lemma item_walk_split:
  assumes "in_seg h p (us @ x # vs) q" "x \<notin> set us" "length us \<le> n"
  shows "item_walk n h x y p = Inr (last (y # us), x)"
  using assms
proof (induction us arbitrary: p y n)
  case Nil
  then show ?case by (cases n) auto
next
  case (Cons u us)
  then obtain m where m: "n = Suc m" "length us \<le> m" by (cases n) auto
  from Cons.prems(1) obtain ue where ue: "p = Some u" "ev_look h u = Some ue"
    "in_seg h (nextInBin ue) (us @ x # vs) q" by auto
  from Cons.IH [OF ue(3) _ m(2), of u] Cons.prems(2) ue m show ?case by simp
qed

lemma in_seg_length:
  assumes "in_seg h p xs q" "distinct xs"
  shows "length xs \<le> length h"
proof -
  have "length xs = card (set xs)" using distinct_card [OF assms(2)] by simp
  also have "\<dots> \<le> card {..<length h}"
  proof (rule card_mono)
    show "set xs \<subseteq> {..<length h}" using in_seg_look [OF assms(1)] ev_look_length by (meson lessThan_iff subsetI)
  qed simp
  finally show ?thesis by simp
qed

definition as_bins :: "nat list \<Rightarrow> nat list list" where
  "as_bins b = (if b = [] then [] else [b])"

lemma removeItem_top:
  assumes "in_seg h (Some (hd b)) b None" "distinct b" "b \<noteq> []" "ev_look h (hd b) = Some be"
  shows "\<exists>h' p'. removeItem h (hd b) (hd b) = Inr (h', p') \<and> same_data h h' \<and>
    bin_seg h' p' (as_bins (tl b)) (nextBin be) \<and> (\<forall>y. y \<notin> set b \<longrightarrow> ev_look h' y = ev_look h y)"
proof (cases "tl b")
  case Nil
  then have "nextInBin be = None" using assms by (cases b) auto
  then show ?thesis using assms(4) Nil by (auto simp: removeItem_def as_bins_def)
next
  case (Cons y ys)
  with assms(1,3,4) have seg: "in_seg h (nextInBin be) (y # ys) None" and b: "b = hd b # y # ys"
    by (cases b; auto)+
  then obtain ye where ye: "nextInBin be = Some y" "ev_look h y = Some ye" "in_seg h (nextInBin ye) ys None" by auto
  let ?h = "h[y := Some (ye\<lparr>nextBin := nextBin be\<rparr>)]"
  have "y \<notin> set ys" using assms(2) by (subst (asm) b) simp
  then have "bin_seg ?h (Some y) [y # ys] (nextBin be)"
    using ye ev_look_length [OF ye(2)] by (simp add: in_seg_upd_other)
  moreover have "same_data h ?h" by (rule same_data_upd [OF ye(2)]) simp
  moreover have "removeItem h (hd b) (hd b) = Inr (?h, Some y)"
    using assms(4) ye by (simp add: removeItem_def)
  moreover have "y \<in> set b" by (subst b) simp
  ultimately show ?thesis using Cons by (auto simp: as_bins_def)
qed

lemma removeItem_below:
  assumes "in_seg h (Some (hd b)) b None" "distinct b" "x \<in> set b" "x \<noteq> hd b" "ev_look h (hd b) = Some be"
  shows "\<exists>h'. removeItem h x (hd b) = Inr (h', Some (hd b)) \<and> same_data h h' \<and>
    bin_seg h' (Some (hd b)) [remove1 x b] (nextBin be) \<and> (\<forall>y. y \<notin> set b \<longrightarrow> ev_look h' y = ev_look h y)"
proof -
  from assms(3) obtain us vs where uv: "b = us @ x # vs" "x \<notin> set us" by (meson split_list_first)
  with assms(4) obtain t us' where us: "us = t # us'" by (cases us) auto
  then have t: "hd b = t" and r: "remove1 x b = us @ vs" using uv by (auto simp: remove1_append)
  obtain ws c where c: "us = ws @ [c]" by (metis us list.distinct(1) rev_exhaust)
  have "in_seg h (Some t) (us @ x # vs) None" using assms(1) t uv(1) by simp
  then obtain q where q: "in_seg h (Some t) us q" "in_seg h q (x # vs) None" unfolding in_seg_append by blast
  then obtain xe where xe: "ev_look h x = Some xe" "in_seg h (nextInBin xe) vs None" by auto
  obtain ce where ce: "ev_look h c = Some ce" using in_seg_look [OF q(1), of c] c by auto
  let ?h = "h[c := Some (ce\<lparr>nextInBin := nextInBin xe\<rparr>)]"
  have d: "c \<notin> set ws" "c \<notin> set vs" "c \<noteq> x" "c \<in> set b" using assms(2) uv(1) c by auto
  have xu: "x \<notin> set us'" using uv(2) us by simp
  have "in_seg h (nextInBin be) (us' @ x # vs) None"
    using assms(1,5) uv(1) us t by simp
  moreover have "length us' \<le> length h" using in_seg_length [OF assms(1,2)] uv(1) us by simp
  moreover have "last (t # us') = c" using c us by (metis last_snoc)
  ultimately have "item_walk (length h) h x t (nextInBin be) = Inr (c, x)"
    using xu item_walk_split [of h "nextInBin be" us' x vs None "length h" t] by metis
  then have "removeItem h x (hd b) = Inr (?h, Some (hd b))"
    using assms(4,5) t xe(1) ce us c by (simp add: removeItem_def)
  moreover have "in_seg ?h (Some t) (us @ vs) None"
    using in_seg_relink [OF _ d(1) ce, of "Some t" q "nextInBin xe"] q(1) c xe(2)
    unfolding in_seg_append by (auto simp: in_seg_append in_seg_upd_other [OF d(2)])
  then have "bin_seg ?h (Some (hd b)) [remove1 x b] (nextBin be)"
    using t r us assms(5) ce ev_look_length [OF ce] by auto
  moreover have "same_data h ?h" by (rule same_data_upd [OF ce]) simp
  ultimately show ?thesis using d(4) by (intro exI [of _ ?h]) auto
qed

lemma removeItem_bin:
  assumes "in_seg h (Some (hd b)) b None" "distinct b" "x \<in> set b" "ev_look h (hd b) = Some be"
  shows "\<exists>h' p'. removeItem h x (hd b) = Inr (h', p') \<and> same_data h h' \<and>
    bin_seg h' p' (as_bins (remove1 x b)) (nextBin be) \<and> (\<forall>y. y \<notin> set b \<longrightarrow> ev_look h' y = ev_look h y)"
proof (cases "x = hd b")
  case True
  then have "remove1 x b = tl b" using assms(3) by (cases b) auto
  moreover have "b \<noteq> []" using assms(3) by auto
  ultimately show ?thesis using removeItem_top [OF assms(1,2) _ assms(4)] True by simp
next
  case False
  have "remove1 x b \<noteq> []" using False assms(3) by (cases b) auto
  then show ?thesis using removeItem_below [OF assms(1-3) False assms(4)] by (auto simp: as_bins_def)
qed

lemma remove_behind_ok:
  assumes "bins_ok h p (b # bs)" "ev_look h x = Some e" "x \<in> set (concat bs)" "ev_look h (hd b) = Some he"
  shows "\<exists>h'. remove_behind h x (hd b) (nextBin he) = Inr h' \<and> same_data h h' \<and>
    bin_seg h' p (del_bins x (b # bs)) None"
proof -
  let ?K = "key_at h"
  have seg: "bin_seg h p (b # bs) None" and srt: "bins_sorted ?K (b # bs)"
    using assms(1) by (simp_all add: bins_ok_def)
  have tl: "bin_seg h (nextBin he) bs None" and ib: "in_seg h p b None" "b \<noteq> []" using seg assms(4) by auto
  have sb: "bins_sorted ?K bs" "x \<notin> set b" "set b \<inter> set (concat bs) = {}"
    using srt assms(3) unfolding bins_sorted_Cons by blast+
  obtain pre d post where d: "bs = pre @ d # post" "x \<in> set d" "?K x = ?K (hd d)"
      "\<forall>c\<in>set pre. ?K (hd c) < ?K x" "del_bins x bs = pre @ as_bins (remove1 x d) @ post"
    using del_bins_split [OF sb(1) assms(3)] by (auto simp: as_bins_def)
  have kx: "?K x = ev_key e" using assms(2) by (rule key_at_look)
  have "length bs \<le> length h" using bins_length [OF tl] sb(1) by (simp add: bins_sorted_def)
  from bin_walk_split [OF tl this, of e "hd b"] obtain pre' post' q where
    w: "bs = pre' @ post'" "bin_walk (length h) h e (hd b) (nextBin he) = Inr (hd (last (b # pre')), q)"
      "bin_seg h (nextBin he) pre' q" "bin_seg h q post' None" "\<forall>b\<in>set pre'. ?K (hd b) < ev_key e"
      "post' \<noteq> [] \<longrightarrow> ev_key e \<le> ?K (hd (hd post'))"
    unfolding last_map_hd by blast
  have "pre' = pre \<and> post' = d # post"
    by (rule split_unique [of _ _ _ _ "\<lambda>b. ?K (hd b) < ev_key e"]) (use w(1,5,6) d(1,3,4) kx in auto)
  then have pp: "pre' = pre" "post' = d # post" by simp_all
  from w(4) pp(2) obtain de where de: "q = Some (hd d)" "ev_look h (hd d) = Some de" "in_seg h (Some (hd d)) d None"
    "bin_seg h (nextBin de) post None" using bin_seg_head [of h q d post] by auto
  have dd: "distinct d" "set d \<inter> set (concat (b # pre)) = {}" "set d \<inter> set (concat post) = {}"
    using srt d(1) unfolding bins_sorted_def by auto
  from removeItem_bin [OF de(3) dd(1) d(2) de(2)] obtain h1 r where
    h1: "removeItem h x (hd d) = Inr (h1, r)" "same_data h h1" "bin_seg h1 r (as_bins (remove1 x d)) (nextBin de)"
      "\<And>y. y \<notin> set d \<Longrightarrow> ev_look h1 y = ev_look h y" by blast
  obtain as c where c: "b # pre = as @ [c]" by (metis list.distinct(1) rev_exhaust)
  have srt': "bins_sorted ?K (as @ [c] @ d # post)" using srt d(1) c by (metis append_Cons append_assoc)
  then have "c \<noteq> []" unfolding bins_sorted_append bins_sorted_Cons by auto
  then have cc: "c \<noteq> []" "hd c \<in> set c" by simp_all
  have "set (concat as) \<inter> set c = {}" "set c \<inter> set (concat post) = {}" "set c \<inter> set d = {}"
    using srt' unfolding bins_sorted_append by auto
  then have dc: "hd c \<notin> set (concat as)" "hd c \<notin> set (concat post)" "hd c \<notin> set d" using cc(2) by blast+
  have "bin_seg h p (as @ [c]) q" unfolding c [symmetric] using w(3) pp(1) assms(4) ib by simp
  moreover have "bin_seg h1 p (as @ [c]) q = bin_seg h p (as @ [c]) q"
    by (rule bin_seg_frame [OF h1(4) dd(2) [unfolded c]])
  ultimately have seg1: "bin_seg h1 p (as @ [c]) q" by simp
  then obtain ce where ce: "ev_look h1 (hd c) = Some ce" using bin_seg_look [OF seg1, of "hd c"] cc by auto
  have "bin_seg h1 (nextBin de) post None = bin_seg h (nextBin de) post None"
    by (rule bin_seg_frame [OF h1(4) dd(3)])
  then have tail: "bin_seg h1 r (as_bins (remove1 x d) @ post) None" using h1(3) de(4) by (auto simp: bin_seg_append)
  have nt: "hd c \<notin> set (concat (as_bins (remove1 x d) @ post))"
    using dc(2,3) by (auto simp: as_bins_def dest: notin_set_remove1)
  let ?h2 = "h1[hd c := Some (ce\<lparr>nextBin := r\<rparr>)]"
  have "bin_seg ?h2 p ((as @ [c]) @ as_bins (remove1 x d) @ post) None"
    by (rule bin_seg_link [OF seg1 ce dc(1) tail nt])
  moreover have "del_bins x (b # bs) = (as @ [c]) @ as_bins (remove1 x d) @ post"
  proof -
    have "del_bins x (b # bs) = b # del_bins x bs" using sb(2) by simp
    then show ?thesis unfolding d(5) c [symmetric] by simp
  qed
  moreover have "remove_behind h x (hd b) (nextBin he) = Inr ?h2"
    using assms(2) w(2) pp de(1,2) d(3) kx key_at_look [OF de(2)] h1(1) ce c by (simp add: remove_behind_def)
  moreover have "same_data h ?h2" by (rule same_data_trans [OF h1(2)]) (rule same_data_upd [OF ce], simp)
  ultimately show ?thesis by (intro exI [of _ ?h2]) simp
qed

lemma eq_remove_at_ok:
  assumes "bins_ok h p bins" "ev_look h x = Some e" "x \<in> set (concat bins)" "ev_queue e = Some self"
  shows "\<exists>h' p'. eq_remove_at self h p x = Inr (h', p') \<and> same_data h h' \<and> bins_ok h' p' (del_bins x bins)"
proof -
  have seg: "bin_seg h p bins None" and srt: "bins_sorted (key_at h) bins" using assms(1) by (simp_all add: bins_ok_def)
  note srt' = del_bins_sorted [OF srt, of x]
  obtain b bs where b: "bins = b # bs" using assms(3) by (cases bins) auto
  then obtain he where he: "p = Some (hd b)" "ev_look h (hd b) = Some he" "in_seg h p b None" "bin_seg h (nextBin he) bs None"
    using seg bin_seg_head [of h p b bs] by auto
  have kb: "key_at h y = ev_key he" if "y \<in> set b" for y
  proof -
    have "bin_uniform (key_at h) b" using srt b by (simp add: bins_sorted_Cons)
    from bin_uniformD [OF this that] show ?thesis using key_at_look [OF he(2)] by simp
  qed
  have kx: "key_at h x = ev_key e" using assms(2) by (rule key_at_look)
  show ?thesis
  proof (cases "x \<in> set b")
    case True
    have d: "distinct b" "set b \<inter> set (concat bs) = {}" using srt b by (auto simp: bins_sorted_Cons)
    from removeItem_bin [OF _ d(1) True he(2)] he(1,3) obtain h' p' where
      h': "removeItem h x (hd b) = Inr (h', p')" "same_data h h'" "bin_seg h' p' (as_bins (remove1 x b)) (nextBin he)"
        "\<And>y. y \<notin> set b \<Longrightarrow> ev_look h' y = ev_look h y" by auto
    have "bin_seg h' (nextBin he) bs None = bin_seg h (nextBin he) bs None"
      by (rule bin_seg_frame [OF h'(4) d(2)])
    then have "bin_seg h' p' (del_bins x bins) None" using h'(3) he(4) b True by (auto simp: as_bins_def split: if_splits)
    then show ?thesis using h'(1,2) he assms(2,4) kb [OF True] kx srt' bins_sorted_keys [OF h'(2)]
      by (simp add: eq_remove_at_def bins_ok_def)
  next
    case False
    then have xb: "x \<in> set (concat bs)" using assms(3) b by simp
    then obtain c where "c \<in> set bs" "x \<in> set c" by auto
    then have "key_at h x = key_at h (hd c)" "key_at h (hd b) < key_at h (hd c)"
      using srt b bin_uniformD [of "key_at h" c x] by (auto simp: bins_sorted_def)
    then have ne: "ev_key he \<noteq> ev_key e" using kx key_at_look [OF he(2)] by simp
    from remove_behind_ok [OF _ assms(2) xb he(2)] assms(1) b obtain h' where
      h': "remove_behind h x (hd b) (nextBin he) = Inr h'" "same_data h h'" "bin_seg h' p (del_bins x bins) None" by auto
    then show ?thesis using he assms(2,4) ne srt' bins_sorted_keys [OF h'(2)]
      by (simp add: eq_remove_at_def bins_ok_def)
  qed
qed

end
