(* ===== verification/Event_Service.thy ===== *)
theory Event_Service
  imports Event_Queue
begin

text \<open>
  The invariant of the event queue and what its interface does to the order in which the pending
  events will be served: scheduling, removal, the service loop of \<^verbatim>\<open>sim/eventq.cc\<close> and
  \<^verbatim>\<open>sim/eventq.hh\<close>, the asynchronous insertions of other threads and the consistency check.
\<close>

section \<open>Flags of an event\<close>

lemma flags_isSet_bits:
  "flags_isSet f (1 :: u16) \<longleftrightarrow> bit f 0" "flags_isSet f (2 :: u16) \<longleftrightarrow> bit f 1"
  "flags_isSet f (4 :: u16) \<longleftrightarrow> bit f 2"
  using bit_iff_and_push_bit_not_eq_0 [of f 0] bit_iff_and_push_bit_not_eq_0 [of f 1]
    bit_iff_and_push_bit_not_eq_0 [of f 2]
  by (simp_all add: flags_isSet_def)

named_theorems flag_simps \<open>reading a flag after setting or clearing one\<close>

lemma scheduled_flags [flag_simps]:
  "flags_isSet (flags_set f Scheduled) (2 :: u16)" "\<not> flags_isSet (flags_clear f Scheduled) (2 :: u16)"
  "flags_isSet (flags_clear f Squashed) (2 :: u16) \<longleftrightarrow> flags_isSet f 2"
  "flags_isSet (flags_set f Squashed) (2 :: u16) \<longleftrightarrow> flags_isSet f 2"
  unfolding flags_isSet_bits flags_set_def flags_clear_def
  by (simp_all only: bit_or_iff bit_and_iff) simp_all

lemma init_flags [flag_simps]:
  "flags_set f Scheduled AND InitMask = f AND InitMask" "flags_clear f Scheduled AND InitMask = f AND InitMask"
  "flags_set f Squashed AND InitMask = f AND InitMask" "flags_clear f Squashed AND InitMask = f AND InitMask"
  unfolding flags_set_def flags_clear_def bit.conj_disj_distrib2 and.assoc by simp_all

section \<open>Updating one event\<close>

definition pend :: "ev_store \<Rightarrow> nat \<Rightarrow> nat \<Rightarrow> bool" where
  "pend h q x = (case ev_look h x of None \<Rightarrow> False | Some e \<Rightarrow> ev_scheduled e \<and> ev_queue e = Some q)"

definition inited :: "ev_store \<Rightarrow> bool" where
  "inited h \<longleftrightarrow> (\<forall>x e. ev_look h x = Some e \<longrightarrow> ev_initialized e)"

lemma pend_update [simp]:
  "pend (h[x := v]) q y = (if x = y \<and> x < length h
     then (case v of None \<Rightarrow> False | Some e \<Rightarrow> ev_scheduled e \<and> ev_queue e = Some q) else pend h q y)"
  by (simp add: pend_def)

lemma key_at_update [simp]:
  "key_at (h[x := v]) y = (if x = y \<and> x < length h
     then (case v of None \<Rightarrow> (0, 0) | Some e \<Rightarrow> ev_key e) else key_at h y)"
  by (simp add: key_at_def)

lemma inited_update: "inited h \<Longrightarrow> ev_initialized e \<Longrightarrow> inited (h[x := Some e])"
  by (auto simp: inited_def)

lemma inited_delete: "inited h \<Longrightarrow> inited (h[x := None])"
  by (auto simp: inited_def)

lemma initedD: "inited h \<Longrightarrow> ev_look h x = Some e \<Longrightarrow> ev_initialized e"
  by (auto simp: inited_def)

lemma same_data_pend: "same_data h h' \<Longrightarrow> pend h' q x = pend h q x"
  using same_data_look [of h h' x]
  by (auto simp: pend_def ev_scheduled_def dest: ev_data_fields split: option.splits)

lemma same_data_inited: "same_data h h' \<Longrightarrow> inited h \<Longrightarrow> inited h'"
  unfolding inited_def
proof (intro allI impI)
  fix x e assume a: "same_data h h'" "\<forall>x e. ev_look h x = Some e \<longrightarrow> ev_initialized e" "ev_look h' x = Some e"
  from same_data_look [OF a(1), of x] a(3) obtain e0 where e0: "ev_look h x = Some e0" "ev_data e = ev_data e0" by auto
  then show "ev_initialized e" using a(2) ev_data_fields(3) [OF e0(2)] by (auto simp: ev_initialized_def)
qed

lemma same_data_event:
  assumes "same_data h h'" "ev_look h x = Some e"
  obtains e' where "ev_look h' x = Some e'" "ev_when e' = ev_when e" "ev_priority e' = ev_priority e"
    "ev_flags e' = ev_flags e" "ev_queue e' = ev_queue e"
  using same_data_look [OF assms(1), of x] assms(2) by (auto dest: ev_data_fields split: option.splits)

lemma bins_sorted_cong:
  assumes "\<And>x. x \<in> set (concat bins) \<Longrightarrow> K' x = K x"
  shows "bins_sorted K' bins = bins_sorted K bins"
  using assms
proof (induction bins)
  case (Cons b bs)
  then have IH: "bins_sorted K' bs = bins_sorted K bs" by simp
  have k: "K' (hd c) = K (hd c)" if "c \<in> set (b # bs)" "c \<noteq> []" for c
    using Cons.prems [of "hd c"] that hd_in_set [of c] unfolding set_concat by blast
  show ?case
  proof (cases "b \<noteq> [] \<and> [] \<notin> set bs")
    case True
    moreover have "bin_uniform K' b = bin_uniform K b"
      using Cons.prems True k [of b] by (auto simp: bin_uniform_def)
    moreover have "(\<forall>c\<in>set bs. K' (hd b) < K' (hd c)) = (\<forall>c\<in>set bs. K (hd b) < K (hd c))"
      using True k by (metis list.set_intros)
    ultimately show ?thesis using IH by (simp add: bins_sorted_Cons)
  next
    case False
    then show ?thesis by (auto simp: bins_sorted_def)
  qed
qed simp

lemma bins_ok_upd_other: "bins_ok h p bins \<Longrightarrow> x \<notin> set (concat bins) \<Longrightarrow> bins_ok (h[x := v]) p bins"
  unfolding bins_ok_def
  using bins_sorted_cong [of bins "key_at (h[x := v])" "key_at h"] bin_seg_upd_other [of x bins]
  by (metis key_at_update)

lemma bins_ok_upd_same:
  assumes "bins_ok h p bins" "ev_look h x = Some e" "nextBin e' = nextBin e" "nextInBin e' = nextInBin e"
    "ev_key e' = ev_key e"
  shows "bins_ok (h[x := Some e']) p bins"
proof -
  have "bin_seg (h[x := Some e']) p bins None = bin_seg h p bins None"
    by (rule bin_seg_cong) (use assms in auto)
  moreover have "bins_sorted (key_at (h[x := Some e'])) bins = bins_sorted (key_at h) bins"
    by (rule bins_sorted_cong) (use assms key_at_look [OF assms(2)] in auto)
  ultimately show ?thesis using assms(1) by (simp add: bins_ok_def)
qed

section \<open>The invariant\<close>

text \<open>
  The pending events are exactly those in the bins and those that another thread has handed over;
  none of the former lies in the past.
\<close>

definition eq_rep :: "evq \<Rightarrow> nat list list \<Rightarrow> bool" where
  "eq_rep s bins \<longleftrightarrow> bins_ok (eq_store s) (eq_head s) bins \<and> inited (eq_store s) \<and>
     (\<forall>x. pend (eq_store s) (eq_self s) x \<longleftrightarrow> x \<in> set (concat bins) \<or> x \<in> set (eq_async s)) \<and>
     distinct (eq_async s) \<and> set (eq_async s) \<inter> set (concat bins) = {} \<and>
     (\<forall>x\<in>set (concat bins). eq_curTick s \<le> fst (key_at (eq_store s) x))"

text \<open>The order in which the pending events will be served.\<close>

definition eq_order :: "evq \<Rightarrow> nat list \<Rightarrow> bool" where
  "eq_order s xs \<longleftrightarrow> (\<exists>bins. eq_rep s bins \<and> xs = concat bins)"

definition put_order :: "(nat \<Rightarrow> 'k::linorder) \<Rightarrow> nat \<Rightarrow> nat list \<Rightarrow> nat list" where
  "put_order K x xs = takeWhile (\<lambda>y. K y < K x) xs @ x # dropWhile (\<lambda>y. K y < K x) xs"

abbreviation eq_key :: "evq \<Rightarrow> nat \<Rightarrow> tick \<times> int" where
  "eq_key s \<equiv> key_at (eq_store s)"

lemma put_order_cong: "(\<And>y. y \<in> set xs \<Longrightarrow> K' y = K y) \<Longrightarrow> K' x = K x \<Longrightarrow> put_order K' x xs = put_order K x xs"
  unfolding put_order_def by (simp cong: takeWhile_cong dropWhile_cong)

lemma put_order_set [simp]: "set (put_order K x xs) = insert x (set xs)"
  unfolding put_order_def by (metis Un_insert_right list.simps(15) set_append takeWhile_dropWhile_id)

lemma bins_order_sorted: "bins_sorted K bins \<Longrightarrow> sorted (map K (concat bins))"
proof (induction bins)
  case (Cons b bs)
  then have p: "bin_uniform K b" "\<forall>c\<in>set bs. K (hd b) < K (hd c)" "sorted (map K (concat bs))" "\<forall>c\<in>set bs. bin_uniform K c"
    unfolding bins_sorted_Cons by (simp_all add: bins_sorted_def)
  have "map K b = map (\<lambda>_. K (hd b)) b" using bin_uniformD [OF p(1)] by (intro map_cong) simp_all
  also have "sorted \<dots>" by (simp add: map_replicate_const)
  finally have "sorted (map K b)" .
  moreover have "K x \<le> K y" if "x \<in> set b" "y \<in> set (concat bs)" for x y
  proof -
    from that(2) obtain c where c: "c \<in> set bs" "y \<in> set c" by auto
    then show ?thesis using bin_uniformD [OF p(1) that(1)] bin_uniformD [of K c y] p(2,4) by (metis order_less_imp_le)
  qed
  ultimately show ?case using p(3) by (auto simp: sorted_append)
qed simp

section \<open>The scheduling interface\<close>

text \<open>The invariant up to one event that is in none of the chains, and the steps between the two.\<close>

definition eq_without :: "nat \<Rightarrow> evq \<Rightarrow> nat list list \<Rightarrow> bool" where
  "eq_without x s bins \<longleftrightarrow> bins_ok (eq_store s) (eq_head s) bins \<and> inited (eq_store s) \<and>
     x \<notin> set (concat bins) \<and> x \<notin> set (eq_async s) \<and>
     (\<forall>y. y \<noteq> x \<longrightarrow> pend (eq_store s) (eq_self s) y = (y \<in> set (concat bins) \<or> y \<in> set (eq_async s))) \<and>
     distinct (eq_async s) \<and> set (eq_async s) \<inter> set (concat bins) = {} \<and>
     (\<forall>y\<in>set (concat bins). eq_curTick s \<le> fst (eq_key s y))"

lemma eq_rep_without: "eq_rep s bins \<Longrightarrow> \<not> pend (eq_store s) (eq_self s) x \<Longrightarrow> eq_without x s bins"
  by (simp add: eq_rep_def eq_without_def)

lemma eq_without_rep:
  assumes "eq_without x s bins" "\<not> pend (eq_store s) (eq_self s) x"
  shows "eq_rep s bins"
proof -
  have "pend (eq_store s) (eq_self s) y = (y \<in> set (concat bins) \<or> y \<in> set (eq_async s))" for y
    using assms by (cases "y = x") (simp_all add: eq_without_def)
  then show ?thesis using assms(1) by (simp add: eq_rep_def eq_without_def)
qed

lemma eq_without_update:
  assumes "eq_without x s bins" "ev_initialized e"
  shows "eq_without x (s\<lparr>eq_store := (eq_store s)[x := Some e]\<rparr>) bins"
proof -
  have "eq_curTick s \<le> fst (key_at ((eq_store s)[x := Some e]) y)" if "y \<in> set (concat bins)" for y
    using assms(1) that by (auto simp: eq_without_def)
  then show ?thesis using assms inited_update [of "eq_store s" e x] bins_ok_upd_other [of "eq_store s" "eq_head s" bins x]
    by (simp add: eq_without_def)
qed

lemma eq_without_delete:
  assumes "eq_without x s bins"
  shows "eq_without x (s\<lparr>eq_store := (eq_store s)[x := None]\<rparr>) bins"
proof -
  have "eq_curTick s \<le> fst (key_at ((eq_store s)[x := None]) y)" if "y \<in> set (concat bins)" for y
    using assms that by (auto simp: eq_without_def)
  then show ?thesis using assms inited_delete [of "eq_store s" x] bins_ok_upd_other [of "eq_store s" "eq_head s" bins x]
    by (simp add: eq_without_def)
qed

lemma eq_modify_look:
  "ev_look (eq_store s) x = Some e \<Longrightarrow> eq_modify x f s = Inr (s\<lparr>eq_store := (eq_store s)[x := Some (f e)]\<rparr>)"
  by (simp add: eq_modify_def)

lemma set_del_bins: "distinct (concat bins) \<Longrightarrow> set (concat (del_bins x bins)) = set (concat bins) - {x}"
  by (simp only: del_bins_concat set_remove1_eq)

lemma eq_remove_rep:
  assumes "eq_rep s bins" "x \<in> set (concat bins)"
  shows "\<exists>h' p'. eq_remove x s = Inr (s\<lparr>eq_store := h', eq_head := p'\<rparr>) \<and> same_data (eq_store s) h' \<and>
    eq_without x (s\<lparr>eq_store := h', eq_head := p'\<rparr>) (del_bins x bins)"
proof -
  from assms have "pend (eq_store s) (eq_self s) x" by (simp add: eq_rep_def)
  then obtain e where e: "ev_look (eq_store s) x = Some e" "ev_queue e = Some (eq_self s)"
    by (auto simp: pend_def split: option.splits)
  have ok: "bins_ok (eq_store s) (eq_head s) bins" using assms(1) by (simp add: eq_rep_def)
  from eq_remove_at_ok [OF ok e(1) assms(2) e(2)] obtain h' p' where
    h': "eq_remove_at (eq_self s) (eq_store s) (eq_head s) x = Inr (h', p')" "same_data (eq_store s) h'"
      "bins_ok h' p' (del_bins x bins)" by blast
  have "distinct (concat bins)" using ok by (simp add: bins_ok_def bins_sorted_def)
  note sdb = set_del_bins [OF this, of x]
  have "eq_without x (s\<lparr>eq_store := h', eq_head := p'\<rparr>) (del_bins x bins)"
    using assms h'(3) same_data_inited [OF h'(2)] same_data_pend [OF h'(2)] same_data_key [OF h'(2)]
    unfolding eq_without_def eq_rep_def sdb by auto
  then show ?thesis using h' by (auto simp: eq_remove_def)
qed

text \<open>Insertion followed by setting the flags completes the invariant again.\<close>

lemma eq_insert_mark:
  assumes "eq_without x s bins" "ev_look (eq_store s) x = Some e" "ev_queue e = Some (eq_self s)"
    "eq_curTick s \<le> ev_when e" "\<And>fl. flags_isSet (f fl) Scheduled" "\<And>fl. f fl AND InitMask = fl AND InitMask"
  shows "\<exists>s'. rbind (eq_insert x s) (eq_modify x (\<lambda>e. e\<lparr>ev_flags := f (ev_flags e)\<rparr>)) = Inr s' \<and>
    eq_rep s' (ins_bins (eq_key s) x bins) \<and> eq_key s' = eq_key s \<and> eq_curTick s' = eq_curTick s \<and>
    eq_self s' = eq_self s \<and> eq_async s' = eq_async s \<and> length (eq_store s') = length (eq_store s) \<and>
    (\<forall>y. y \<noteq> x \<longrightarrow> map_option ev_data (ev_look (eq_store s') y) = map_option ev_data (ev_look (eq_store s) y))"
proof -
  have ok: "bins_ok (eq_store s) (eq_head s) bins" and x: "x \<notin> set (concat bins)"
    using assms(1) by (simp_all add: eq_without_def)
  from eq_insert_at_ok [OF ok assms(2) x] obtain h p where
    h: "eq_insert_at (eq_store s) (eq_head s) x = Inr (h, p)" "same_data (eq_store s) h"
      "bins_ok h p (ins_bins (eq_key s) x bins)" by blast
  from same_data_event [OF h(2) assms(2)] obtain e1 where e1: "ev_look h x = Some e1" "ev_when e1 = ev_when e"
    "ev_priority e1 = ev_priority e" "ev_flags e1 = ev_flags e" "ev_queue e1 = ev_queue e" by metis
  let ?e = "e1\<lparr>ev_flags := f (ev_flags e1)\<rparr>"
  let ?h = "h[x := Some ?e]"
  let ?s = "s\<lparr>eq_store := ?h, eq_head := p\<rparr>"
  note len = ev_look_length [OF e1(1)]
  have key: "key_at ?h = eq_key s"
    using e1 same_data_key [OF h(2)] key_at_look [OF assms(2)] by (intro ext) (auto simp: ev_key_def)
  have "inited (eq_store s)" using assms(1) by (simp add: eq_without_def)
  then have "inited h" by (rule same_data_inited [OF h(2)])
  then have ini: "inited ?h"
    using initedD [OF _ e1(1)] assms(6) [of "ev_flags e1"] by (intro inited_update) (simp_all add: ev_initialized_def)
  have pend: "pend ?h (eq_self s) y = (y \<in> set (concat (ins_bins (eq_key s) x bins)) \<or> y \<in> set (eq_async s))" for y
    using assms(1,3) assms(5) [of "ev_flags e1"] same_data_pend [OF h(2)] len e1(5)
    unfolding ins_bins_set by (simp add: eq_without_def ev_scheduled_def)
  have "eq_curTick s \<le> fst (eq_key s y)" if "y \<in> set (concat (ins_bins (eq_key s) x bins))" for y
    using that assms(1,4) key_at_look [OF assms(2)] unfolding ins_bins_set eq_without_def by (auto simp: ev_key_def)
  then have "eq_rep ?s (ins_bins (eq_key s) x bins)"
    using bins_ok_upd_same [OF h(3) e1(1), of ?e] ini pend assms(1) unfolding eq_rep_def key
    by (simp add: ev_key_def eq_without_def key ins_bins_set [unfolded set_concat])
  moreover have "rbind (eq_insert x s) (eq_modify x (\<lambda>e. e\<lparr>ev_flags := f (ev_flags e)\<rparr>)) = Inr ?s"
    using h(1) e1(1) by (simp add: eq_insert_def eq_modify_look)
  ultimately show ?thesis using key h(2) by (intro exI [of _ ?s]) (simp add: same_data_def)
qed

lemma schedule_rep:
  assumes "eq_rep s bins" "ev_look (eq_store s) x = Some e" "\<not> ev_scheduled e" "eq_curTick s \<le> t"
    "\<not> (par \<and> (eq_self s \<noteq> cur \<or> global))"
  shows "\<exists>s'. eq_schedule par cur x t global s = Inr s' \<and> eq_key s' = (eq_key s)(x := (t, ev_priority e)) \<and>
    eq_rep s' (ins_bins (eq_key s') x bins) \<and> eq_curTick s' = eq_curTick s \<and>
    eq_self s' = eq_self s \<and> eq_async s' = eq_async s \<and> length (eq_store s') = length (eq_store s) \<and>
    (\<forall>y. y \<noteq> x \<longrightarrow> map_option ev_data (ev_look (eq_store s') y) = map_option ev_data (ev_look (eq_store s) y))"
proof -
  let ?e = "ev_setWhen t (eq_self s) e"
  let ?s = "s\<lparr>eq_store := (eq_store s)[x := Some ?e]\<rparr>"
  have ini: "ev_initialized e" using assms(1,2) initedD by (auto simp: eq_rep_def)
  have np: "\<not> pend (eq_store s) (eq_self s) x" using assms(2,3) by (simp add: pend_def)
  have "eq_without x ?s bins"
    by (rule eq_without_update [OF eq_rep_without [OF assms(1) np]]) (use ini in \<open>simp add: ev_setWhen_def ev_initialized_def\<close>)
  moreover have len: "x < length (eq_store s)" by (rule ev_look_length [OF assms(2)])
  ultimately have "\<exists>s'. rbind (eq_insert x ?s) (eq_modify x (\<lambda>e. e\<lparr>ev_flags := flags_set (ev_flags e) Scheduled\<rparr>)) = Inr s' \<and>
    eq_rep s' (ins_bins (eq_key ?s) x bins) \<and> eq_key s' = eq_key ?s \<and> eq_curTick s' = eq_curTick ?s \<and>
    eq_self s' = eq_self ?s \<and> eq_async s' = eq_async ?s \<and> length (eq_store s') = length (eq_store ?s) \<and>
    (\<forall>y. y \<noteq> x \<longrightarrow> map_option ev_data (ev_look (eq_store s') y) = map_option ev_data (ev_look (eq_store ?s) y))"
    using assms(4) by (intro eq_insert_mark [where e = ?e]) (simp_all add: flag_simps ev_setWhen_def)
  moreover have "eq_key ?s = (eq_key s)(x := (t, ev_priority e))"
    using len by (intro ext) (simp add: ev_key_def ev_setWhen_def)
  moreover have "eq_schedule par cur x t global s =
      rbind (eq_insert x ?s) (eq_modify x (\<lambda>e. e\<lparr>ev_flags := flags_set (ev_flags e) Scheduled\<rparr>))"
    using assms(2-5) ini by (auto simp: eq_schedule_def eq_modify_look)
  ultimately show ?thesis by auto
qed

lemma deschedule_rep:
  assumes "eq_rep s bins" "x \<in> set (concat bins)" "par \<longrightarrow> eq_self s = cur"
  shows "\<exists>s'. eq_deschedule par cur x s = Inr s' \<and> eq_rep s' (del_bins x bins) \<and>
    (\<forall>y. y \<noteq> x \<longrightarrow> eq_key s' y = eq_key s y) \<and> eq_curTick s' = eq_curTick s \<and> eq_self s' = eq_self s \<and>
    eq_async s' = eq_async s \<and> length (eq_store s') = length (eq_store s)"
proof -
  from assms(1,2) have "pend (eq_store s) (eq_self s) x" by (simp add: eq_rep_def)
  then obtain e where e: "ev_look (eq_store s) x = Some e" "ev_scheduled e" "ev_queue e = Some (eq_self s)"
    by (auto simp: pend_def split: option.splits)
  have ini: "ev_initialized e" using assms(1) e(1) initedD by (auto simp: eq_rep_def)
  from eq_remove_rep [OF assms(1,2)] obtain h p where
    h: "eq_remove x s = Inr (s\<lparr>eq_store := h, eq_head := p\<rparr>)" "same_data (eq_store s) h"
      "eq_without x (s\<lparr>eq_store := h, eq_head := p\<rparr>) (del_bins x bins)" by blast
  let ?s = "s\<lparr>eq_store := h, eq_head := p\<rparr>"
  from same_data_event [OF h(2) e(1)] obtain e1 where e1: "ev_look h x = Some e1" "ev_flags e1 = ev_flags e" by metis
  let ?e = "e1\<lparr>ev_flags := flags_clear (flags_clear (ev_flags e1) Squashed) Scheduled\<rparr>"
  let ?s1 = "?s\<lparr>eq_store := h[x := Some ?e]\<rparr>"
  have ns: "\<not> ev_scheduled ?e" by (simp add: ev_scheduled_def flag_simps)
  have w: "eq_without x ?s1 (del_bins x bins)"
    using eq_without_update [OF h(3), of ?e] ini e1(2) by (simp add: ev_initialized_def flag_simps)
  then have r: "eq_rep ?s1 (del_bins x bins)"
    by (rule eq_without_rep) (use ns ev_look_length [OF e1(1)] in simp)
  have r2: "eq_rep (?s1\<lparr>eq_store := (eq_store ?s1)[x := None]\<rparr>) (del_bins x bins)"
    by (rule eq_without_rep [OF eq_without_delete [OF w]]) (use ev_look_length [OF e1(1)] in simp)
  have eq: "eq_deschedule par cur x s = ev_release x ?s1"
    using e ini assms(3) h(1) e1(1) by (simp add: eq_deschedule_def eq_modify_look)
  have rel: "ev_release x ?s1 = Inr (if ev_isManaged ?e then ?s1\<lparr>eq_store := (eq_store ?s1)[x := None]\<rparr> else ?s1)"
    using ns ev_look_length [OF e1(1)] by (simp add: ev_release_def)
  show ?thesis
  proof (cases "ev_isManaged ?e")
    case True
    then show ?thesis using r2 eq rel same_data_key [OF h(2)] h(2)
      by (intro exI [of _ "?s1\<lparr>eq_store := (eq_store ?s1)[x := None]\<rparr>"]) (simp add: same_data_def)
  next
    case False
    then show ?thesis using r eq rel same_data_key [OF h(2)] h(2)
      by (intro exI [of _ ?s1]) (simp add: same_data_def)
  qed
qed

lemma reschedule_rep:
  assumes "eq_rep s bins" "ev_look (eq_store s) x = Some e" "eq_curTick s \<le> t" "par \<longrightarrow> eq_self s = cur"
    "if ev_scheduled e then x \<in> set (concat bins) else always"
  shows "\<exists>s'. eq_reschedule par cur x t always s = Inr s' \<and> eq_key s' = (eq_key s)(x := (t, ev_priority e)) \<and>
    eq_rep s' (ins_bins (eq_key s') x (del_bins x bins)) \<and> eq_curTick s' = eq_curTick s \<and>
    eq_self s' = eq_self s \<and> eq_async s' = eq_async s \<and> length (eq_store s') = length (eq_store s)"
proof -
  let ?mark = "eq_modify x (\<lambda>e. e\<lparr>ev_flags := flags_set (flags_clear (ev_flags e) Squashed) Scheduled\<rparr>)"
  have ini: "ev_initialized e" using assms(1,2) initedD by (auto simp: eq_rep_def)
  have dist: "distinct (concat bins)" using assms(1) by (simp add: eq_rep_def bins_ok_def bins_sorted_def)
  have "\<exists>h p. (if ev_scheduled e then eq_remove x s else Inr s) = Inr (s\<lparr>eq_store := h, eq_head := p\<rparr>) \<and>
    same_data (eq_store s) h \<and> eq_without x (s\<lparr>eq_store := h, eq_head := p\<rparr>) (del_bins x bins)"
  proof (cases "ev_scheduled e")
    case True
    then show ?thesis using eq_remove_rep [OF assms(1)] assms(5) by simp
  next
    case False
    then have np: "\<not> pend (eq_store s) (eq_self s) x" using assms(2) by (simp add: pend_def)
    then have nx: "x \<notin> set (concat bins)" using assms(1) by (simp add: eq_rep_def)
    then have "del_bins x bins = bins" by (induction bins) auto
    then show ?thesis using False eq_rep_without [OF assms(1) np]
      by (intro exI [of _ "eq_store s"] exI [of _ "eq_head s"]) simp
  qed
  then obtain h p where h: "(if ev_scheduled e then eq_remove x s else Inr s) = Inr (s\<lparr>eq_store := h, eq_head := p\<rparr>)"
    "same_data (eq_store s) h" "eq_without x (s\<lparr>eq_store := h, eq_head := p\<rparr>) (del_bins x bins)" by blast
  from same_data_event [OF h(2) assms(2)] obtain e1 where
    e1: "ev_look h x = Some e1" "ev_flags e1 = ev_flags e" "ev_priority e1 = ev_priority e" by metis
  let ?e = "ev_setWhen t (eq_self s) e1"
  let ?s = "s\<lparr>eq_head := p, eq_store := h[x := Some ?e]\<rparr>"
  note len = ev_look_length [OF e1(1)]
  have "eq_without x ?s (del_bins x bins)"
    using eq_without_update [OF h(3), of ?e] ini e1(2) by (simp add: ev_setWhen_def ev_initialized_def)
  then have "\<exists>s'. rbind (eq_insert x ?s) ?mark = Inr s' \<and>
    eq_rep s' (ins_bins (eq_key ?s) x (del_bins x bins)) \<and> eq_key s' = eq_key ?s \<and> eq_curTick s' = eq_curTick ?s \<and>
    eq_self s' = eq_self ?s \<and> eq_async s' = eq_async ?s \<and> length (eq_store s') = length (eq_store ?s) \<and>
    (\<forall>y. y \<noteq> x \<longrightarrow> map_option ev_data (ev_look (eq_store s') y) = map_option ev_data (ev_look (eq_store ?s) y))"
    using assms(3) len by (intro eq_insert_mark [where e = ?e]) (simp_all add: flag_simps ev_setWhen_def)
  moreover have "eq_key ?s = (eq_key s)(x := (t, ev_priority e))"
    using len e1(3) same_data_key [OF h(2)] by (intro ext) (simp add: ev_key_def ev_setWhen_def)
  moreover have "eq_reschedule par cur x t always s = rbind (eq_insert x ?s) ?mark"
    using assms(2-5) ini h(1) e1(1) by (auto simp: eq_reschedule_def eq_modify_look split: if_splits)
  ultimately show ?thesis using h(2) by (auto simp: same_data_def)
qed

text \<open>Removing an event that is in no bin panics.\<close>

lemma item_walk_missing:
  "in_seg h p xs None \<Longrightarrow> x \<notin> set xs \<Longrightarrow> length xs \<le> n \<Longrightarrow> item_walk n h x y p = Inl Panic"
proof (induction xs arbitrary: p y n)
  case (Cons z zs)
  then obtain m where m: "n = Suc m" "length zs \<le> m" by (cases n) auto
  from Cons.prems(1) obtain ze where "p = Some z" "ev_look h z = Some ze" "in_seg h (nextInBin ze) zs None" by auto
  then show ?case using Cons.IH [of "nextInBin ze" m z] Cons.prems(2) m by simp
qed simp

lemma removeItem_missing:
  assumes "in_seg h (Some (hd b)) b None" "distinct b" "x \<notin> set b" "b \<noteq> []"
  shows "removeItem h x (hd b) = Inl Panic"
proof -
  from assms(1,4) obtain be where be: "ev_look h (hd b) = Some be" "in_seg h (nextInBin be) (tl b) None"
    by (cases b) auto
  have ne: "x \<noteq> hd b" "x \<notin> set (tl b)" using assms(3,4) by (cases b; auto)+
  have "length (tl b) \<le> length h" using in_seg_length [OF assms(1,2)] by simp
  from item_walk_missing [OF be(2) ne(2) this, of "hd b"] show ?thesis using be(1) ne(1) by (simp add: removeItem_def)
qed

lemma eq_remove_at_missing:
  assumes "bins_ok h p bins" "ev_look h x = Some e" "x \<notin> set (concat bins)" "ev_queue e = Some self"
  shows "eq_remove_at self h p x = Inl Panic"
proof (cases bins)
  case Nil
  then show ?thesis using assms(1) by (simp add: bins_ok_def eq_remove_at_def)
next
  case (Cons b bs)
  have seg: "bin_seg h p (b # bs) None" and srt: "bins_sorted (key_at h) (b # bs)"
    using assms(1) Cons by (simp_all add: bins_ok_def)
  then obtain be where be: "p = Some (hd b)" "ev_look h (hd b) = Some be" "in_seg h p b None" "b \<noteq> []"
      "bin_seg h (nextBin be) bs None" using bin_seg_head [of h p b bs] by auto
  have panic: "removeItem h x (hd c) = Inl Panic" if "c \<in> set (b # bs)" "in_seg h (Some (hd c)) c None" for c
    using that srt assms(3) Cons by (intro removeItem_missing) (auto simp: bins_sorted_def dest: distinct_concat_iff [THEN iffD1])
  show ?thesis
  proof (cases "ev_key be = ev_key e")
    case True
    then show ?thesis using panic [of b] be assms(2,4) by (simp add: eq_remove_at_def)
  next
    case False
    have "length bs \<le> length h" using bins_length [OF be(5)] srt by (simp add: bins_sorted_def)
    from bin_walk_split [OF be(5) this, of e "hd b"] obtain pre post q where
      w: "bs = pre @ post" "bin_walk (length h) h e (hd b) (nextBin be) = Inr (last (hd b # map hd pre), q)"
        "bin_seg h q post None" by blast
    have "remove_behind h x (hd b) (nextBin be) = Inl Panic"
    proof (cases post)
      case Nil
      then show ?thesis using w assms(2) by (simp add: remove_behind_def)
    next
      case (Cons c cs)
      then obtain ce where ce: "q = Some (hd c)" "ev_look h (hd c) = Some ce" "in_seg h q c None"
        using w(3) bin_seg_head [of h q c cs] by auto
      then show ?thesis using w(1,2) assms(2) panic [of c] Cons by (simp add: remove_behind_def)
    qed
    then show ?thesis using False be assms(2,4) by (simp add: eq_remove_at_def)
  qed
qed

section \<open>Requests\<close>

text \<open>When a request succeeds, and what it does to the order.\<close>

fun admissible :: "evq \<Rightarrow> request \<Rightarrow> bool" where
  "admissible s (Schedule x t) =
     (case ev_look (eq_store s) x of None \<Rightarrow> False | Some e \<Rightarrow> \<not> ev_scheduled e \<and> eq_curTick s \<le> t)"
| "admissible s (Deschedule x) = (pend (eq_store s) (eq_self s) x \<and> x \<notin> set (eq_async s))"
| "admissible s (Reschedule x t always) =
     (case ev_look (eq_store s) x of None \<Rightarrow> False
      | Some e \<Rightarrow> eq_curTick s \<le> t \<and>
          (if ev_scheduled e then ev_queue e = Some (eq_self s) \<and> x \<notin> set (eq_async s) else always))"
| "admissible s (Squash x) = (ev_look (eq_store s) x \<noteq> None)"

fun order_after :: "evq \<Rightarrow> request \<Rightarrow> nat list \<Rightarrow> nat list" where
  "order_after s (Schedule x t) xs = put_order ((eq_key s)(x := (t, snd (eq_key s x)))) x xs"
| "order_after s (Deschedule x) xs = remove1 x xs"
| "order_after s (Reschedule x t always) xs = put_order ((eq_key s)(x := (t, snd (eq_key s x)))) x (remove1 x xs)"
| "order_after s (Squash x) xs = xs"

lemma eq_rep_sorted: "eq_rep s bins \<Longrightarrow> bins_sorted (eq_key s) bins"
  by (simp add: eq_rep_def bins_ok_def)

lemma eq_remove_fails:
  assumes "eq_rep s bins" "ev_look (eq_store s) x = Some e" "ev_queue e = Some (eq_self s) \<longrightarrow> x \<notin> set (concat bins)"
  shows "\<exists>err. eq_remove x s = Inl err"
proof (cases "ev_queue e = Some (eq_self s)")
  case True
  then have "eq_remove_at (eq_self s) (eq_store s) (eq_head s) x = Inl Panic"
    using assms by (intro eq_remove_at_missing [of _ _ bins]) (simp_all add: eq_rep_def)
  then show ?thesis by (simp add: eq_remove_def)
next
  case False
  then show ?thesis using assms(2) by (cases "eq_head s") (simp_all add: eq_remove_def eq_remove_at_def)
qed

lemma squash_rep:
  assumes "eq_rep s bins" "ev_look (eq_store s) x = Some e"
  shows "eq_rep (s\<lparr>eq_store := (eq_store s)[x := Some (ev_squash e)]\<rparr>) bins"
proof -
  have "bins_ok ((eq_store s)[x := Some (ev_squash e)]) (eq_head s) bins"
    by (rule bins_ok_upd_same [OF _ assms(2)]) (use assms(1) in \<open>simp_all add: eq_rep_def ev_squash_def ev_key_def\<close>)
  moreover have "inited ((eq_store s)[x := Some (ev_squash e)])"
    using assms initedD [of "eq_store s" x e] by (intro inited_update) (simp_all add: eq_rep_def ev_initialized_def ev_squash_def flag_simps)
  moreover have "pend ((eq_store s)[x := Some (ev_squash e)]) q y = pend (eq_store s) q y" for q y
    using assms(2) by (auto simp: pend_def ev_squash_def ev_scheduled_def flag_simps)
  moreover have "key_at ((eq_store s)[x := Some (ev_squash e)]) y = eq_key s y" for y
    using key_at_look [OF assms(2)] by (auto simp: ev_squash_def ev_key_def)
  ultimately show ?thesis using assms(1) by (simp add: eq_rep_def)
qed

definition performs :: "bool \<Rightarrow> request \<Rightarrow> evq \<Rightarrow> nat list list \<Rightarrow> bool" where
  "performs par r s bins = (if admissible s r
    then \<exists>s' bins'. perform par r s = Inr s' \<and> eq_rep s' bins' \<and> concat bins' = order_after s r (concat bins) \<and>
      eq_curTick s' = eq_curTick s \<and> eq_self s' = eq_self s \<and> eq_async s' = eq_async s \<and>
      length (eq_store s') = length (eq_store s)
    else \<exists>err. perform par r s = Inl err)"

lemma eq_rep_pend:
  "eq_rep s bins \<Longrightarrow> pend (eq_store s) (eq_self s) x = (x \<in> set (concat bins) \<or> x \<in> set (eq_async s))"
  by (simp add: eq_rep_def)

lemma eq_rep_disjoint: "eq_rep s bins \<Longrightarrow> x \<in> set (eq_async s) \<Longrightarrow> x \<notin> set (concat bins)"
  unfolding eq_rep_def by blast

lemma eq_rep_distinct: "eq_rep s bins \<Longrightarrow> distinct (concat bins)"
  by (simp add: eq_rep_def bins_ok_def bins_sorted_def)

lemma ins_bins_order:
  assumes "eq_key s' = (eq_key s)(x := (t, ev_priority e))" "ev_look (eq_store s) x = Some e"
    "bins_sorted (eq_key s) bs" "x \<notin> set (concat bs)"
  shows "concat (ins_bins (eq_key s') x bs) = put_order ((eq_key s)(x := (t, snd (eq_key s x)))) x (concat bs)"
proof -
  have "eq_key s' y = eq_key s y" if "y \<in> set (concat bs)" for y
    using assms(1,4) that by (metis fun_upd_other)
  then have "bins_sorted (eq_key s') bs" using bins_sorted_cong [of bs "eq_key s'" "eq_key s"] assms(3) by blast
  then show ?thesis
    using ins_bins_concat [of "eq_key s'" bs x] assms(1) key_at_look [OF assms(2)] by (simp add: put_order_def ev_key_def)
qed

lemma perform_schedule:
  assumes "eq_rep s bins"
  shows "performs par (Schedule x t) s bins"
proof (cases "admissible s (Schedule x t)")
  case True
  then obtain e where e: "ev_look (eq_store s) x = Some e" "\<not> ev_scheduled e" "eq_curTick s \<le> t"
    by (auto split: option.splits)
  have "x \<notin> set (concat bins)" using eq_rep_pend [OF assms, of x] e by (simp add: pend_def)
  with schedule_rep [OF assms e, of par "eq_self s" False] ins_bins_order [OF _ e(1) eq_rep_sorted [OF assms]]
  show ?thesis using True by (fastforce simp: performs_def)
next
  case False
  then show ?thesis by (auto simp: performs_def eq_schedule_def check_def split: option.splits)
qed

lemma perform_deschedule:
  assumes "eq_rep s bins"
  shows "performs par (Deschedule x) s bins"
proof (cases "admissible s (Deschedule x)")
  case True
  then have "x \<in> set (concat bins)" using assms by (auto simp: eq_rep_def)
  from deschedule_rep [OF assms this, of par "eq_self s"] del_bins_concat [OF eq_rep_distinct [OF assms], of x]
  show ?thesis using True by (fastforce simp: performs_def)
next
  case False
  have "\<exists>err. eq_deschedule par (eq_self s) x s = Inl err"
  proof (cases "ev_look (eq_store s) x")
    case (Some e)
    then have "\<exists>err. eq_remove x s = Inl err" if "ev_scheduled e"
      using False that eq_rep_pend [OF assms, of x] eq_rep_disjoint [OF assms, of x] Some
      by (intro eq_remove_fails [OF assms Some] impI) (simp add: pend_def, blast?)
    then show ?thesis using Some by (auto simp: eq_deschedule_def check_def)
  qed (simp add: eq_deschedule_def)
  then show ?thesis using False by (auto simp: performs_def)
qed

lemma perform_reschedule:
  assumes "eq_rep s bins"
  shows "performs par (Reschedule x t always) s bins"
proof (cases "admissible s (Reschedule x t always)")
  case True
  note dist = eq_rep_distinct [OF assms]
  from True obtain e where e: "ev_look (eq_store s) x = Some e" "eq_curTick s \<le> t"
    "if ev_scheduled e then ev_queue e = Some (eq_self s) \<and> x \<notin> set (eq_async s) else always"
    by (auto split: option.splits)
  have "if ev_scheduled e then x \<in> set (concat bins) else always"
    using eq_rep_pend [OF assms, of x] e by (auto simp: pend_def)
  moreover have "x \<notin> set (concat (del_bins x bins))" using set_del_bins [OF dist] by blast
  ultimately show ?thesis
    using reschedule_rep [OF assms e(1,2), of par "eq_self s" always] True
      ins_bins_order [OF _ e(1) del_bins_sorted [OF eq_rep_sorted [OF assms], of x]] del_bins_concat [OF dist, of x]
    by (fastforce simp: performs_def)
next
  case False
  have "\<exists>err. eq_reschedule par (eq_self s) x t always s = Inl err"
  proof (cases "ev_look (eq_store s) x")
    case (Some e)
    then have "\<exists>err. eq_remove x s = Inl err" if "ev_scheduled e" "eq_curTick s \<le> t"
      using False that eq_rep_pend [OF assms, of x] eq_rep_disjoint [OF assms, of x] Some
      by (intro eq_remove_fails [OF assms Some] impI) (simp add: pend_def, blast?)
    then show ?thesis using Some False by (auto simp: eq_reschedule_def check_def)
  qed (auto simp: eq_reschedule_def check_def)
  then show ?thesis using False by (auto simp: performs_def)
qed

lemma perform_rep:
  assumes "eq_rep s bins"
  shows "performs par r s bins"
proof (cases r)
  case (Squash x)
  then show ?thesis
    using squash_rep [OF assms, of x]
    by (cases "ev_look (eq_store s) x") (auto simp: performs_def eq_modify_def ev_mod_def)
qed (simp_all add: perform_schedule perform_deschedule perform_reschedule assms)

lemma perform_inv:
  assumes "\<exists>bins. eq_rep s bins" "perform par r s = Inr s'"
  shows "(\<exists>bins. eq_rep s' bins) \<and> eq_curTick s' = eq_curTick s \<and> eq_self s' = eq_self s \<and>
    eq_async s' = eq_async s \<and> length (eq_store s') = length (eq_store s)"
proof -
  from assms(1) obtain bins where "eq_rep s bins" by blast
  from perform_rep [OF this, of par r] show ?thesis using assms(2) by (auto simp: performs_def split: if_splits)
qed

section \<open>Service\<close>

lemma requests_inv:
  assumes "rfold (perform par) rs s = Inr s'" "\<exists>bins. eq_rep s bins"
  shows "(\<exists>bins. eq_rep s' bins) \<and> eq_curTick s' = eq_curTick s \<and> eq_self s' = eq_self s \<and>
    eq_async s' = eq_async s \<and> length (eq_store s') = length (eq_store s)"
  using assms
proof (induction rs arbitrary: s)
  case (Cons r rs)
  then obtain s1 where s1: "perform par r s = Inr s1" "rfold (perform par) rs s1 = Inr s'" by (auto simp: rbind_eq_Inr)
  from perform_inv [OF Cons.prems(2) s1(1)] Cons.IH [OF s1(2)] show ?case by simp
qed simp

lemma release_inv:
  assumes "\<exists>bins. eq_rep s bins" "ev_release x s = Inr s'"
  shows "(\<exists>bins. eq_rep s' bins) \<and> eq_curTick s' = eq_curTick s \<and> eq_self s' = eq_self s \<and> eq_async s' = eq_async s"
proof -
  from assms(1) obtain bins where r: "eq_rep s bins" by blast
  from assms(2) obtain e where e: "ev_look (eq_store s) x = Some e"
    by (auto simp: ev_release_def split: option.splits)
  have "eq_rep (s\<lparr>eq_store := (eq_store s)[x := None]\<rparr>) bins" if "\<not> ev_scheduled e"
  proof (rule eq_without_rep [of x])
    have "\<not> pend (eq_store s) (eq_self s) x" using e that by (simp add: pend_def)
    then show "eq_without x (s\<lparr>eq_store := (eq_store s)[x := None]\<rparr>) bins"
      by (intro eq_without_delete eq_rep_without [OF r])
    show "\<not> pend (eq_store (s\<lparr>eq_store := (eq_store s)[x := None]\<rparr>)) (eq_self (s\<lparr>eq_store := (eq_store s)[x := None]\<rparr>)) x"
      using ev_look_length [OF e] by simp
  qed
  then show ?thesis using assms(2) e r by (auto simp: ev_release_def split: if_splits)
qed

lemma order_head:
  assumes "eq_rep s bins" "concat bins = x # xs"
  shows "\<exists>ys bs e. bins = (x # ys) # bs \<and> eq_head s = Some x \<and> ev_look (eq_store s) x = Some e \<and>
    ev_scheduled e \<and> ev_queue e = Some (eq_self s)"
proof -
  from assms have ok: "bin_seg (eq_store s) (eq_head s) bins None" "[] \<notin> set bins"
    by (simp_all add: eq_rep_def bins_ok_def bins_sorted_def)
  then obtain ys bs where b: "bins = (x # ys) # bs" using assms(2)
    by (metis append_Cons append_is_Nil_conv concat.simps hd_append2 list.collapse list.sel(1) list.set_intros(1) neq_Nil_conv)
  then have "pend (eq_store s) (eq_self s) x" using eq_rep_pend [OF assms(1), of x] by simp
  then show ?thesis using b ok(1) by (auto simp: pend_def split: option.splits)
qed

lemma unlinkHead_rep:
  assumes "eq_rep s bins" "concat bins = x # xs" "ev_look (eq_store s) x = Some e"
  shows "\<exists>h p bins'. eq_unlinkHead s = Inr (x, s\<lparr>eq_store := h, eq_head := p\<rparr>) \<and>
    eq_rep (s\<lparr>eq_store := h, eq_head := p\<rparr>) bins' \<and> concat bins' = xs \<and>
    same_data ((eq_store s)[x := Some (e\<lparr>ev_flags := flags_clear (ev_flags e) Scheduled\<rparr>)]) h"
proof -
  let ?e = "e\<lparr>ev_flags := flags_clear (ev_flags e) Scheduled\<rparr>"
  let ?h = "(eq_store s)[x := Some ?e]"
  from order_head [OF assms(1,2)] assms(3) have hd: "eq_head s = Some x" "ev_queue e = Some (eq_self s)" by auto
  note len = ev_look_length [OF assms(3)]
  have look: "ev_look ?h x = Some ?e" using len by simp
  have ok: "bins_ok ?h (eq_head s) bins"
    by (rule bins_ok_upd_same [OF _ assms(3)]) (use assms(1) in \<open>simp_all add: eq_rep_def ev_key_def\<close>)
  from eq_remove_at_ok [OF ok look, of "eq_self s"] assms(2) hd(2) obtain h p where
    h: "eq_remove_at (eq_self s) ?h (eq_head s) x = Inr (h, p)" "same_data ?h h" "bins_ok h p (del_bins x bins)" by auto
  have "removeItem ?h x x = Inr (h, p)" using h(1) hd look by (simp add: eq_remove_at_def)
  then have code: "eq_unlinkHead s = Inr (x, s\<lparr>eq_store := h, eq_head := p\<rparr>)"
    using assms(3) hd(1) len
    by (auto simp: eq_unlinkHead_def eq_modify_def removeItem_def Let_def rbind_eq_Inr split: option.splits)
  note dist = eq_rep_distinct [OF assms(1)]
  have con: "concat (del_bins x bins) = xs" using del_bins_concat [OF dist, of x] assms(2) by simp
  have ini: "inited h" using same_data_inited [OF h(2)] inited_update [of "eq_store s" ?e x] assms(1,3)
    by (auto simp: eq_rep_def ev_initialized_def flag_simps dest: initedD)
  have pend: "pend h q y = (y \<noteq> x \<and> pend (eq_store s) q y)" for q y
    using same_data_pend [OF h(2), of q y] len by (auto simp: ev_scheduled_def flag_simps)
  have key: "key_at h y = eq_key s y" for y
    using same_data_key [OF h(2), of y] key_at_look [OF assms(3)] by (auto simp: ev_key_def split: if_splits)
  have "eq_rep (s\<lparr>eq_store := h, eq_head := p\<rparr>) (del_bins x bins)"
    using assms(1,2) dist h(3) ini unfolding eq_rep_def by (auto simp: pend key con [unfolded set_concat] simp flip: set_concat) 
  then show ?thesis using code con h(2) by blast
qed

lemma eq_rep_curTick:
  assumes "eq_rep s bins" "\<forall>y\<in>set (concat bins). t \<le> fst (eq_key s y)"
  shows "eq_rep (s\<lparr>eq_curTick := t\<rparr>) bins"
  using assms by (simp add: eq_rep_def)

lemma order_key_le:
  assumes "eq_rep s bins" "concat bins = x # xs" "y \<in> set xs"
  shows "fst (eq_key s x) \<le> fst (eq_key s y)"
proof -
  have "sorted (map (eq_key s) (x # xs))" using bins_order_sorted [OF eq_rep_sorted [OF assms(1)]] assms(2) by simp
  then have "eq_key s x \<le> eq_key s y" using assms(3) by simp
  then show ?thesis by (auto simp: less_eq_prod_def)
qed

lemma runEvent_inv:
  assumes "eq_rep s bins" "eq_runEvent par process x s = Inr (r, s')" "ev_look (eq_store s) x = Some e"
    "\<not> ev_scheduled e" "\<forall>y\<in>set (concat bins). ev_when e \<le> fst (eq_key s y)"
  shows "(\<exists>bins. eq_rep s' bins) \<and> eq_curTick s' = (if ev_squashed e then eq_curTick s else ev_when e)"
proof (cases "ev_squashed e")
  case True
  let ?e = "e\<lparr>ev_flags := flags_clear (ev_flags e) Squashed\<rparr>"
  let ?s = "s\<lparr>eq_store := (eq_store s)[x := Some ?e]\<rparr>"
  have np: "\<not> pend (eq_store s) (eq_self s) x" using assms(3,4) by (simp add: pend_def)
  have "eq_without x ?s bins"
    using assms(1,3) by (intro eq_without_update [OF eq_rep_without [OF assms(1) np]])
      (auto simp: eq_rep_def ev_initialized_def flag_simps dest: initedD)
  then have "eq_rep ?s bins"
    by (rule eq_without_rep) (use assms(4) np in \<open>simp add: ev_scheduled_def flag_simps\<close>)
  moreover from assms(2,3) True have "ev_release x ?s = Inr s'"
    by (auto simp: eq_runEvent_def eq_modify_look rbind_eq_Inr)
  ultimately show ?thesis using release_inv [of ?s x s'] True by auto
next
  case False
  let ?s = "s\<lparr>eq_curTick := ev_when e\<rparr>"
  from assms(2,3) False obtain s1 e1 where
    s1: "rfold (perform par) (process x ?s) ?s = Inr s1" "ev_look (eq_store s1) x = Some e1"
      "ev_isExitEvent e1 \<and> s' = s1 \<or> ev_release x s1 = Inr s'"
    by (auto simp: eq_runEvent_def Let_def rbind_eq_Inr split: option.splits if_splits)
  from requests_inv [OF s1(1)] eq_rep_curTick [OF assms(1,5)]
  have "(\<exists>bins. eq_rep s1 bins) \<and> eq_curTick s1 = ev_when e" by auto
  then show ?thesis using s1(3) release_inv [of s1 x s'] False by auto
qed

lemma serviceOne_inv:
  assumes "eq_rep s bins" "concat bins = x # xs" "eq_serviceOne par process s = Inr (r, s')"
  shows "(\<exists>bins. eq_rep s' bins) \<and> eq_curTick s \<le> eq_curTick s' \<and>
    (eq_curTick s' = eq_curTick s \<or> eq_curTick s' = fst (eq_key s x))"
proof -
  from order_head [OF assms(1,2)] obtain e where e: "ev_look (eq_store s) x = Some e" by blast
  from unlinkHead_rep [OF assms(1,2) e] obtain h p bins' where
    u: "eq_unlinkHead s = Inr (x, s\<lparr>eq_store := h, eq_head := p\<rparr>)" "eq_rep (s\<lparr>eq_store := h, eq_head := p\<rparr>) bins'"
      "concat bins' = xs" "same_data ((eq_store s)[x := Some (e\<lparr>ev_flags := flags_clear (ev_flags e) Scheduled\<rparr>)]) h" by blast
  have look: "ev_look ((eq_store s)[x := Some (e\<lparr>ev_flags := flags_clear (ev_flags e) Scheduled\<rparr>)]) x =
      Some (e\<lparr>ev_flags := flags_clear (ev_flags e) Scheduled\<rparr>)" using ev_look_length [OF e] by simp
  from same_data_event [OF u(4) look] obtain e1 where e1: "ev_look h x = Some e1" "ev_when e1 = ev_when e"
    "ev_flags e1 = flags_clear (ev_flags e) Scheduled" by auto
  have key: "key_at h y = eq_key s y" for y
    using same_data_key [OF u(4), of y] key_at_look [OF e] by (auto simp: ev_key_def split: if_splits)
  have w: "fst (eq_key s x) = ev_when e" using key_at_look [OF e] by (simp add: ev_key_def)
  have later: "\<forall>y\<in>set (concat bins'). ev_when e1 \<le> fst (eq_key (s\<lparr>eq_store := h, eq_head := p\<rparr>) y)"
    using order_key_le [OF assms(1,2)] u(3) w e1(2) by (simp add: key del: set_concat)
  have cur: "eq_curTick s \<le> ev_when e" using assms(1,2) w by (auto simp: eq_rep_def)
  have "eq_runEvent par process x (s\<lparr>eq_store := h, eq_head := p\<rparr>) = Inr (r, s')"
    using assms(3) u(1) by (simp add: eq_serviceOne_def)
  from runEvent_inv [OF u(2) this _ _ later] e1 show ?thesis
    using cur w by (auto simp: ev_scheduled_def flag_simps split: if_splits)
qed

lemma order_unique_head: "eq_rep s bins \<Longrightarrow> eq_head s = None \<longleftrightarrow> concat bins = []"
  by (cases bins) (auto simp: eq_rep_def bins_ok_def bins_sorted_def neq_Nil_conv)

lemma nextTick_rep:
  assumes "eq_rep s bins" "concat bins = x # xs"
  shows "eq_nextTick s = Inr (fst (eq_key s x))"
proof -
  from order_head [OF assms] obtain e where "eq_head s = Some x" "ev_look (eq_store s) x = Some e" by blast
  then show ?thesis by (simp add: eq_nextTick_def key_at_look ev_key_def)
qed

lemma serviceLoop_inv:
  assumes "eq_rep s bins" "eq_serviceLoop n par process t s = Inr s'"
  shows "\<exists>bins'. eq_rep s' bins' \<and> eq_curTick s \<le> eq_curTick s' \<and> eq_curTick s' \<le> max (eq_curTick s) t \<and>
    (\<forall>y\<in>set (concat bins'). t < fst (eq_key s' y))"
  using assms
proof (induction n arbitrary: s bins)
  case 0
  then show ?case using order_unique_head [OF 0(1)] by (intro exI [of _ bins]) (auto split: if_splits)
next
  case (Suc n)
  show ?case
  proof (cases "concat bins")
    case Nil
    then show ?thesis using Suc.prems order_unique_head [OF Suc.prems(1)] by (intro exI [of _ bins]) auto
  next
    case (Cons x xs)
    then have head: "eq_head s \<noteq> None" using order_unique_head [OF Suc.prems(1)] by simp
    note nt = nextTick_rep [OF Suc.prems(1) Cons]
    show ?thesis
    proof (cases "t < fst (eq_key s x)")
      case True
      then have "\<forall>y\<in>set (concat bins). t < fst (eq_key s y)"
        using order_key_le [OF Suc.prems(1) Cons] unfolding Cons by (auto intro: order.strict_trans2)
      then show ?thesis using Suc.prems head nt True by auto
    next
      case False
      then obtain r s1 where s1: "eq_serviceOne par process s = Inr (r, s1)" "eq_serviceLoop n par process t s1 = Inr s'"
        using Suc.prems(2) head nt by (auto simp: rbind_eq_Inr)
      from serviceOne_inv [OF Suc.prems(1) Cons s1(1)] obtain bins1 where
        r1: "eq_rep s1 bins1" "eq_curTick s \<le> eq_curTick s1"
          "eq_curTick s1 = eq_curTick s \<or> eq_curTick s1 = fst (eq_key s x)" by blast
      from Suc.IH [OF r1(1) s1(2)] r1(2,3) False show ?thesis by (auto simp: max_def not_less split: if_splits)
    qed
  qed
qed

text \<open>Progress: with events that request nothing, the loop ends after one step per pending event.\<close>

definition quiet :: "evq \<Rightarrow> bool" where
  "quiet s \<longleftrightarrow> (\<forall>x e. ev_look (eq_store s) x = Some e \<longrightarrow>
     \<not> (flags_isSet (ev_flags e) Managed \<and> flags_isSet (ev_flags e) IsMainQueue))"

lemma flags_clear_isSet: "flags_isSet (flags_clear f m) k \<Longrightarrow> flags_isSet f k"
proof -
  have "(f AND NOT m) AND k = (f AND k) AND NOT m" by (simp only: and.assoc and.commute [of "NOT m" k])
  then show "flags_isSet (flags_clear f m) k \<Longrightarrow> flags_isSet f k" by (auto simp: flags_isSet_def flags_clear_def)
qed

lemma quiet_update:
  assumes "quiet s" "ev_look (eq_store s) x = Some e" "ev_flags e' = flags_clear (ev_flags e) m"
  shows "quiet (s\<lparr>eq_store := (eq_store s)[x := Some e']\<rparr>)"
  using assms flags_clear_isSet [of "ev_flags e" m] by (auto simp: quiet_def)

lemma quiet_same_data:
  assumes "quiet s" "same_data (eq_store s) h"
  shows "quiet (s\<lparr>eq_store := h, eq_head := p\<rparr>)"
  unfolding quiet_def
proof (intro allI impI)
  fix x e assume e: "ev_look (eq_store (s\<lparr>eq_store := h, eq_head := p\<rparr>)) x = Some e"
  then obtain e0 where "ev_look (eq_store s) x = Some e0" "ev_data e = ev_data e0"
    using same_data_look [OF assms(2), of x] by auto
  then show "\<not> (flags_isSet (ev_flags e) Managed \<and> flags_isSet (ev_flags e) IsMainQueue)"
    using assms(1) ev_data_fields(3) [of e e0] by (auto simp: quiet_def)
qed

lemma release_rep:
  assumes "eq_rep s bins" "ev_look (eq_store s) x = Some e" "quiet s"
  shows "\<exists>s'. ev_release x s = Inr s' \<and> eq_rep s' bins \<and> quiet s'"
proof -
  have "eq_rep (s\<lparr>eq_store := (eq_store s)[x := None]\<rparr>) bins" if "\<not> ev_scheduled e"
  proof (rule eq_without_rep [of x])
    have "\<not> pend (eq_store s) (eq_self s) x" using assms(2) that by (simp add: pend_def)
    then show "eq_without x (s\<lparr>eq_store := (eq_store s)[x := None]\<rparr>) bins"
      by (intro eq_without_delete eq_rep_without [OF assms(1)])
  qed (use ev_look_length [OF assms(2)] in simp)
  moreover have "quiet (s\<lparr>eq_store := (eq_store s)[x := None]\<rparr>)" using assms(3) by (auto simp: quiet_def)
  ultimately show ?thesis using assms by (auto simp: ev_release_def)
qed

lemma runEvent_inert:
  assumes "eq_rep s bins" "ev_look (eq_store s) x = Some e" "\<not> ev_scheduled e" "quiet s"
    "\<forall>y\<in>set (concat bins). ev_when e \<le> fst (eq_key s y)"
  shows "\<exists>r s'. eq_runEvent par (\<lambda>_ _. []) x s = Inr (r, s') \<and> eq_rep s' bins \<and> quiet s'"
proof (cases "ev_squashed e")
  case True
  let ?e = "e\<lparr>ev_flags := flags_clear (ev_flags e) Squashed\<rparr>"
  let ?s = "s\<lparr>eq_store := (eq_store s)[x := Some ?e]\<rparr>"
  have np: "\<not> pend (eq_store s) (eq_self s) x" using assms(2,3) by (simp add: pend_def)
  have "eq_without x ?s bins"
    using assms(1,2) by (intro eq_without_update [OF eq_rep_without [OF assms(1) np]])
      (auto simp: eq_rep_def ev_initialized_def flag_simps dest: initedD)
  then have "eq_rep ?s bins" by (rule eq_without_rep) (use assms(3) np in \<open>simp add: ev_scheduled_def flag_simps\<close>)
  from release_rep [OF this, of x ?e] quiet_update [OF assms(4,2), of ?e Squashed] show ?thesis
    using True assms(2) ev_look_length [OF assms(2)] by (auto simp: eq_runEvent_def eq_modify_look)
next
  case False
  let ?s = "s\<lparr>eq_curTick := ev_when e\<rparr>"
  have "eq_rep ?s bins" by (rule eq_rep_curTick [OF assms(1,5)])
  moreover have "quiet ?s" using assms(4) by (simp add: quiet_def)
  ultimately show ?thesis using release_rep [of ?s bins x e] False assms(2,4)
    by (auto simp: eq_runEvent_def Let_def quiet_def ev_isManaged_def)
qed

lemma serviceOne_inert:
  assumes "eq_rep s bins" "concat bins = x # xs" "quiet s"
  shows "\<exists>r s' bins'. eq_serviceOne par (\<lambda>_ _. []) s = Inr (r, s') \<and> eq_rep s' bins' \<and> concat bins' = xs \<and> quiet s'"
proof -
  from order_head [OF assms(1,2)] obtain e where e: "ev_look (eq_store s) x = Some e" by blast
  let ?e = "e\<lparr>ev_flags := flags_clear (ev_flags e) Scheduled\<rparr>"
  let ?h = "(eq_store s)[x := Some ?e]"
  from unlinkHead_rep [OF assms(1,2) e] obtain h p bins' where
    u: "eq_unlinkHead s = Inr (x, s\<lparr>eq_store := h, eq_head := p\<rparr>)" "eq_rep (s\<lparr>eq_store := h, eq_head := p\<rparr>) bins'"
      "concat bins' = xs" "same_data ?h h" by blast
  have look: "ev_look ?h x = Some ?e" using ev_look_length [OF e] by simp
  from same_data_event [OF u(4) look] obtain e1 where e1: "ev_look h x = Some e1" "ev_when e1 = ev_when e"
    "ev_flags e1 = flags_clear (ev_flags e) Scheduled" by auto
  have q: "quiet (s\<lparr>eq_store := h, eq_head := p\<rparr>)"
    using quiet_same_data [of "s\<lparr>eq_store := ?h\<rparr>" h p] quiet_update [OF assms(3) e, of ?e Scheduled] u(4) by simp
  have key: "key_at h y = eq_key s y" for y
    using same_data_key [OF u(4), of y] key_at_look [OF e] by (auto simp: ev_key_def split: if_splits)
  have "\<forall>y\<in>set (concat bins'). ev_when e1 \<le> fst (eq_key (s\<lparr>eq_store := h, eq_head := p\<rparr>) y)"
    using order_key_le [OF assms(1,2)] u(3) e1(2) key_at_look [OF e] by (simp add: key ev_key_def del: set_concat)
  from runEvent_inert [OF u(2) _ _ q this, where par = par] e1 u(1,3) show ?thesis
    by (fastforce simp: eq_serviceOne_def ev_scheduled_def flag_simps)
qed

lemma serviceLoop_inert:
  assumes "eq_rep s bins" "length (concat bins) \<le> n" "quiet s"
  shows "\<exists>s'. eq_serviceLoop n par (\<lambda>_ _. []) t s = Inr s'"
  using assms
proof (induction n arbitrary: s bins)
  case 0
  then show ?case using order_unique_head [OF 0(1)] by simp
next
  case (Suc n)
  show ?case
  proof (cases "concat bins")
    case Nil
    then show ?thesis using order_unique_head [OF Suc.prems(1)] by simp
  next
    case (Cons x xs)
    from serviceOne_inert [OF Suc.prems(1) Cons Suc.prems(3), of par] obtain r s' bins' where
      "eq_serviceOne par (\<lambda>_ _. []) s = Inr (r, s')" "eq_rep s' bins'" "concat bins' = xs" "quiet s'" by blast
    then show ?thesis using Suc.IH [of s' bins'] Suc.prems(2) Cons nextTick_rep [OF Suc.prems(1) Cons]
      order_unique_head [OF Suc.prems(1)] by simp
  qed
qed

section \<open>Hand-over from other threads\<close>

lemma drain_rep:
  assumes "eq_rep s bins" "\<forall>x\<in>set (eq_async s). eq_curTick s \<le> fst (eq_key s x)"
  shows "\<exists>s' bins'. eq_drain (eq_async s) s = Inr s' \<and> eq_rep s' bins' \<and> eq_async s' = [] \<and>
    concat bins' = fold (put_order (eq_key s)) (eq_async s) (concat bins)"
  using assms
proof (induction "eq_async s" arbitrary: s bins)
  case Nil
  have "eq_rep s bins \<and> eq_async s = []" using Nil by simp
  then show ?case by auto
next
  case (Cons x xs)
  note a = Cons.hyps(2) [symmetric]
  have pend: "pend (eq_store s) (eq_self s) x" and nx: "x \<notin> set (concat bins)" and d: "x \<notin> set xs" "distinct xs"
    using eq_rep_pend [OF Cons.prems(1), of x] eq_rep_disjoint [OF Cons.prems(1), of x] Cons.prems(1) a
    by (auto simp: eq_rep_def)
  then obtain e where e: "ev_look (eq_store s) x = Some e" by (auto simp: pend_def split: option.splits)
  have ok: "bins_ok (eq_store s) (eq_head s) bins" using Cons.prems(1) by (simp add: eq_rep_def)
  from eq_insert_at_ok [OF ok e nx] obtain h p where
    h: "eq_insert_at (eq_store s) (eq_head s) x = Inr (h, p)" "same_data (eq_store s) h"
      "bins_ok h p (ins_bins (eq_key s) x bins)" by blast
  let ?s = "s\<lparr>eq_store := h, eq_head := p, eq_async := xs\<rparr>"
  have key: "eq_key ?s = eq_key s" using same_data_key [OF h(2)] by auto
  have rep: "eq_rep ?s (ins_bins (eq_key s) x bins)"
    using Cons.prems a d h(3) same_data_inited [OF h(2)] same_data_pend [OF h(2)] same_data_key [OF h(2)]
    unfolding eq_rep_def ins_bins_set by auto
  have "concat (ins_bins (eq_key s) x bins) = put_order (eq_key s) x (concat bins)"
    using ins_bins_concat [OF eq_rep_sorted [OF Cons.prems(1)], of x] by (simp add: put_order_def)
  moreover have "eq_drain (eq_async s) s = eq_drain xs ?s" using a h(1) by (simp add: eq_insert_def)
  ultimately show ?case
    using Cons.hyps(1) [of ?s, OF _ rep] Cons.prems(2) a unfolding key by auto
qed

section \<open>The consistency check\<close>

lemma verify_bin_ok:
  assumes "in_seg h p xs None" "distinct xs" "set xs \<inter> seen = {}" "sorted (map (key_at h) xs)"
    "\<forall>x\<in>set xs. (time, pri) \<le> key_at h x" "length xs \<le> k"
  shows "\<exists>st. verify_bin k h p (time, pri, seen) = Inr (Some st) \<and>
    st = (if xs = [] then (time, pri, seen) else (fst (key_at h (last xs)), snd (key_at h (last xs)), seen \<union> set xs))"
  using assms
proof (induction xs arbitrary: p time pri seen k)
  case (Cons x xs)
  then obtain m where m: "k = Suc m" "length xs \<le> m" by (cases k) auto
  from Cons.prems(1) obtain e where e: "p = Some x" "ev_look h x = Some e" "in_seg h (nextInBin e) xs None" by auto
  have kx: "key_at h x = (ev_when e, ev_priority e)" using key_at_look [OF e(2)] by (simp add: ev_key_def)
  have "(time, pri) \<le> (ev_when e, ev_priority e)" using Cons.prems(5) kx by simp
  then have "\<not> ev_when e < time" "\<not> (ev_when e = time \<and> ev_priority e < pri)" by (auto simp: less_eq_prod_def)
  moreover have "x \<notin> seen" using Cons.prems(3) by simp
  ultimately have "verify_bin k h p (time, pri, seen) =
      verify_bin m h (nextInBin e) (ev_when e, ev_priority e, insert x seen)"
    using e m by auto
  moreover have "\<forall>y\<in>set xs. (ev_when e, ev_priority e) \<le> key_at h y" using Cons.prems(4) kx by simp
  ultimately show ?case
    using Cons.IH [OF e(3), of "insert x seen" "ev_when e" "ev_priority e" m] Cons.prems m kx by auto
qed simp

lemma verify_bins_ok:
  assumes "bin_seg h p bins None" "distinct (concat bins)" "set (concat bins) \<inter> seen = {}"
    "sorted (map (key_at h) (concat bins))" "\<forall>x\<in>set (concat bins). (time, pri) \<le> key_at h x" "length bins \<le> k"
  shows "verify_bins k h p (time, pri, seen) = Inr True"
  using assms
proof (induction bins arbitrary: p time pri seen k)
  case (Cons b bs)
  then obtain m where m: "k = Suc m" "length bs \<le> m" by (cases k) auto
  from Cons.prems(1) obtain be where be: "p = Some (hd b)" "ev_look h (hd b) = Some be" "in_seg h p b None" "b \<noteq> []"
    "bin_seg h (nextBin be) bs None" using bin_seg_head [of h p b bs] by auto
  have "length b \<le> length h + 1" using in_seg_length [OF be(3)] Cons.prems(2) by simp
  with verify_bin_ok [OF be(3), of seen time pri "length h + 1"] Cons.prems(2-5) be(4)
  have "verify_bin (length h + 1) h p (time, pri, seen) =
      Inr (Some (fst (key_at h (last b)), snd (key_at h (last b)), seen \<union> set b))"
    by (auto simp: sorted_append)
  moreover have "verify_bins m h (nextBin be) (fst (key_at h (last b)), snd (key_at h (last b)), seen \<union> set b) = Inr True"
    by (rule Cons.IH [OF be(5)]) (use Cons.prems m be(4) in \<open>auto simp: sorted_append\<close>)
  ultimately show ?case using be(1,2) m by simp
qed simp

lemma verify_bins_early:
  assumes "p = Some x" "ev_look h x = Some e" "ev_when e = time" "ev_priority e < pri"
  shows "verify_bins (Suc k) h p (time, pri, seen) = Inr False"
  using assms by simp

section \<open>The interface of an agenda\<close>

text \<open>
  What the rest of the simulator relies on when it schedules events: an unscheduled event goes in
  front of all events that are not strictly before it.
\<close>

locale agenda =
  fixes put :: "nat \<Rightarrow> 't \<Rightarrow> 's \<Rightarrow> 's res" and ord :: "'s \<Rightarrow> nat list \<Rightarrow> bool" and key :: "'s \<Rightarrow> nat \<Rightarrow> 'k::linorder"
    and key_of :: "'s \<Rightarrow> nat \<Rightarrow> 't \<Rightarrow> 'k" and fresh :: "'s \<Rightarrow> nat \<Rightarrow> bool" and due :: "'s \<Rightarrow> 't \<Rightarrow> bool"
  assumes put_ok: "ord s xs \<Longrightarrow> fresh s x \<Longrightarrow> due s t \<Longrightarrow> \<exists>s'. put x t s = Inr s' \<and>
      ord s' (put_order (key s') x xs) \<and> key s' = (key s)(x := key_of s x t) \<and>
      (\<forall>y. y \<noteq> x \<longrightarrow> fresh s' y = fresh s y) \<and> due s' = due s \<and> key_of s' = key_of s"
    and ord_fresh: "ord s xs \<Longrightarrow> fresh s x \<Longrightarrow> x \<notin> set xs"
begin

lemma batch_lifo:
  assumes "ord s xs" "distinct ys" "\<forall>y\<in>set ys. fresh s y \<and> key_of s y t = k" "due s t"
  shows "\<exists>s'. rfold (\<lambda>y s. put y t s) ys s = Inr s' \<and>
    ord s' (takeWhile (\<lambda>x. key s x < k) xs @ rev ys @ dropWhile (\<lambda>x. key s x < k) xs)"
  using assms
proof (induction ys arbitrary: s xs)
  case (Cons y ys)
  from Cons.prems obtain s1 where s1: "put y t s = Inr s1" "ord s1 (put_order (key s1) y xs)"
      "key s1 = (key s)(y := k)" "\<forall>z. z \<noteq> y \<longrightarrow> fresh s1 z = fresh s z" "due s1 = due s" "key_of s1 = key_of s"
    using put_ok [of s xs y t] by auto
  have ny: "y \<notin> set xs" using ord_fresh Cons.prems(1,3) by simp
  let ?P = "\<lambda>x. key s1 x < k"
  have cong: "takeWhile (\<lambda>x. key s x < k) xs = takeWhile ?P xs" "dropWhile (\<lambda>x. key s x < k) xs = dropWhile ?P xs"
    using ny s1(3) by (auto intro!: takeWhile_cong dropWhile_cong)
  have put: "put_order (key s1) y xs = takeWhile ?P xs @ y # dropWhile ?P xs" using s1(3) by (simp add: put_order_def)
  have tw: "\<forall>x\<in>set (takeWhile ?P xs). ?P x" "\<not> ?P y" using s1(3) by (auto dest: set_takeWhileD)
  have "takeWhile ?P (put_order (key s1) y xs) = takeWhile ?P xs"
      "dropWhile ?P (put_order (key s1) y xs) = y # dropWhile ?P xs"
    unfolding put using takeWhile_split [OF tw(1), of "y # dropWhile ?P xs"] tw dropWhile_append2 [of "takeWhile ?P xs" ?P]
    by auto
  moreover have "\<forall>z\<in>set ys. fresh s1 z \<and> key_of s1 z t = k" using Cons.prems(2,3) s1(4,6) by auto
  ultimately show ?case using Cons.IH [OF s1(2)] Cons.prems(2,4) s1(1,5) cong by simp
qed simp

end

definition ev_fresh :: "evq \<Rightarrow> nat \<Rightarrow> bool" where
  "ev_fresh s x = (case ev_look (eq_store s) x of None \<Rightarrow> False | Some e \<Rightarrow> \<not> ev_scheduled e)"

lemma ev_fresh_same_data:
  assumes "map_option ev_data (ev_look (eq_store s') y) = map_option ev_data (ev_look (eq_store s) y)"
  shows "ev_fresh s' y = ev_fresh s y"
proof (cases "ev_look (eq_store s) y")
  case (Some e)
  with assms obtain e' where "ev_look (eq_store s') y = Some e'" "ev_data e' = ev_data e" by auto
  then show ?thesis using Some ev_data_fields(3) [of e' e] by (simp add: ev_fresh_def ev_scheduled_def)
qed (use assms in \<open>simp add: ev_fresh_def\<close>)

interpretation sched: agenda "\<lambda>x t. eq_schedule False q x t False" eq_order eq_key
  "\<lambda>s x t. (t, snd (eq_key s x))" ev_fresh "\<lambda>s t. eq_curTick s \<le> t"
proof unfold_locales
  fix s xs x and t :: tick
  assume a: "eq_order s xs" "ev_fresh s x" "eq_curTick s \<le> t"
  from a(1) obtain bins where bins: "eq_rep s bins" "xs = concat bins" by (auto simp: eq_order_def)
  from a(2) obtain e where e: "ev_look (eq_store s) x = Some e" "\<not> ev_scheduled e"
    by (auto simp: ev_fresh_def split: option.splits)
  have nx: "x \<notin> set (concat bins)" using eq_rep_pend [OF bins(1), of x] e by (simp add: pend_def)
  have pr: "snd (eq_key s x) = ev_priority e" using key_at_look [OF e(1)] by (simp add: ev_key_def)
  from schedule_rep [OF bins(1) e a(3), of False q False] obtain s' where
    s': "eq_schedule False q x t False s = Inr s'" "eq_key s' = (eq_key s)(x := (t, ev_priority e))"
      "eq_rep s' (ins_bins (eq_key s') x bins)" "eq_curTick s' = eq_curTick s"
      "\<forall>y. y \<noteq> x \<longrightarrow> map_option ev_data (ev_look (eq_store s') y) = map_option ev_data (ev_look (eq_store s) y)" by auto
  have "concat (ins_bins (eq_key s') x bins) = put_order (eq_key s') x xs"
    using ins_bins_order [OF s'(2) e(1) eq_rep_sorted [OF bins(1)] nx] pr s'(2) bins(2) by simp
  then have "eq_order s' (put_order (eq_key s') x xs)" using s'(3) unfolding eq_order_def by metis
  moreover have "(\<lambda>y u. (u, snd (eq_key s' y))) = (\<lambda>y u. (u, snd (eq_key s y)))"
    using s'(2) pr by (intro ext) auto
  moreover have fr: "\<forall>y. y \<noteq> x \<longrightarrow> ev_fresh s' y = ev_fresh s y" using s'(5) ev_fresh_same_data by blast
  ultimately show "\<exists>s'. eq_schedule False q x t False s = Inr s' \<and>
      eq_order s' (put_order (eq_key s') x xs) \<and> eq_key s' = (eq_key s)(x := (t, snd (eq_key s x))) \<and>
      (\<forall>y. y \<noteq> x \<longrightarrow> ev_fresh s' y = ev_fresh s y) \<and>
      (\<lambda>t. eq_curTick s' \<le> t) = (\<lambda>t. eq_curTick s \<le> t) \<and>
      (\<lambda>x t. (t, snd (eq_key s' x))) = (\<lambda>x t. (t, snd (eq_key s x)))"
    using s'(1,2,4) pr fr by (intro exI [of _ s'] conjI) simp_all
next
  fix s xs x assume "eq_order s xs" "ev_fresh s x"
  then obtain bins e where b: "eq_rep s bins" "xs = concat bins" "ev_look (eq_store s) x = Some e" "\<not> ev_scheduled e"
    by (auto simp: eq_order_def ev_fresh_def split: option.splits)
  then show "x \<notin> set xs" using eq_rep_pend [OF b(1), of x] by (simp add: pend_def)
qed

section \<open>Properties\<close>

text \<open>C29. From any well-formed queue, each call of the scheduling interface either fails with a check of
  the source, exactly when its conditions do not hold (a live event in the right state, a time that is not
  in the past), or leaves a well-formed queue in which the event was put in front of all events
  that are not strictly before it in time and priority, taken out, or moved; the pending events are
  then in order of time and priority. In particular the pointer updates never follow a null or
  dangling pointer and every walk along the chains ends.\<close>

theorem scheduling_refines_order:
  assumes "eq_order s xs"
  shows "if admissible s r
    then \<exists>s'. perform par r s = Inr s' \<and> eq_order s' (order_after s r xs) \<and>
      sorted (map (eq_key s') (order_after s r xs)) \<and> eq_curTick s' = eq_curTick s
    else \<exists>err. perform par r s = Inl err"
proof -
  from assms obtain bins where bins: "eq_rep s bins" "xs = concat bins" by (auto simp: eq_order_def)
  show ?thesis
  proof (cases "admissible s r")
    case True
    with perform_rep [OF bins(1), of par r] obtain s' bins' where
      s': "perform par r s = Inr s'" "eq_rep s' bins'" "concat bins' = order_after s r xs" "eq_curTick s' = eq_curTick s"
      using bins(2) by (auto simp: performs_def)
    then show ?thesis using True bins_order_sorted [OF eq_rep_sorted [OF s'(2)]] by (auto simp: eq_order_def)
  qed (use perform_rep [OF bins(1), of par r] in \<open>simp add: performs_def\<close>)
qed

lemma eq_new_order:
  assumes "inited h" "\<And>x. \<not> pend h q x"
  shows "eq_order (eq_new q h) []"
  unfolding eq_order_def
  by (rule exI [of _ "[]"]) (use assms in \<open>simp add: eq_rep_def eq_new_def bins_ok_def\<close>)

text \<open>A queue with three events that are not scheduled yet, as used by the concrete instances below.\<close>

definition ev_idle :: event where
  "ev_idle = \<lparr>nextBin = None, nextInBin = None, ev_when = 0, ev_priority = 0, ev_flags = Initialized, ev_queue = None\<rparr>"

definition idle_queue :: evq where
  "idle_queue = eq_new 0 [Some ev_idle, Some ev_idle, Some ev_idle]"

lemma idle_look: "ev_look (eq_store idle_queue) x = (if x < 3 then Some ev_idle else None)"
  by (auto simp: ev_look_def idle_queue_def eq_new_def less_Suc_eq numeral_3_eq_3)

lemma idle_flags: "ev_initialized ev_idle" "\<not> ev_scheduled ev_idle" "\<not> ev_isManaged ev_idle"
  by (simp_all add: ev_initialized_def ev_scheduled_def ev_isManaged_def flags_isSet_def ev_idle_def)

lemma idle_order: "eq_order idle_queue []"
proof -
  have "inited [Some ev_idle, Some ev_idle, Some ev_idle]" "\<not> pend [Some ev_idle, Some ev_idle, Some ev_idle] 0 x" for x
    using idle_look idle_flags by (auto simp: inited_def pend_def idle_queue_def eq_new_def split: if_splits)
  then show ?thesis unfolding idle_queue_def by (rule eq_new_order)
qed

lemma idle_fresh: "x < 3 \<Longrightarrow> ev_fresh idle_queue x" "eq_curTick idle_queue = 0" "x < 3 \<Longrightarrow> eq_key idle_queue x = (0, 0)"
  by (simp_all add: ev_fresh_def idle_look idle_flags key_at_def, simp_all add: idle_queue_def eq_new_def ev_idle_def ev_key_def)

theorem scheduling_refines_order_witness:
  "\<exists>s'. perform False (Schedule 1 5) idle_queue = Inr s' \<and> eq_order s' [1]"
proof -
  have "admissible idle_queue (Schedule 1 5)"
    using idle_fresh(2) by (simp add: idle_look idle_flags)
  with scheduling_refines_order [OF idle_order, of "Schedule 1 5" False] show ?thesis by (auto simp: put_order_def)
qed

text \<open>Events scheduled one after the other for the same time and with the same priority are served in the
  opposite order, after all events that are strictly before them and before all others.\<close>

theorem same_tick_lifo:
  assumes "eq_order s xs" "distinct ys" "\<forall>y\<in>set ys. ev_fresh s y \<and> snd (eq_key s y) = pri" "eq_curTick s \<le> t"
  shows "\<exists>s'. rfold (\<lambda>y s. eq_schedule False q y t False s) ys s = Inr s' \<and>
    eq_order s' (takeWhile (\<lambda>x. eq_key s x < (t, pri)) xs @ rev ys @ dropWhile (\<lambda>x. eq_key s x < (t, pri)) xs)"
  by (rule sched.batch_lifo) (use assms in auto)

theorem same_tick_lifo_witness:
  "\<exists>s'. rfold (\<lambda>y s. eq_schedule False 0 y 7 False s) [0, 2, 1] idle_queue = Inr s' \<and> eq_order s' [1, 2, 0]"
  using same_tick_lifo [OF idle_order, of "[0, 2, 1]" 0 7 0] idle_fresh by (simp del: rfold.simps)

text \<open>A queue with one event pending at time 5.\<close>

definition busy_queue :: evq where
  "busy_queue = idle_queue\<lparr>eq_head := Some 1, eq_store := (eq_store idle_queue)
     [1 := Some (ev_idle\<lparr>ev_when := 5, ev_flags := flags_set Initialized Scheduled, ev_queue := Some 0\<rparr>)]\<rparr>"

lemma busy_look: "ev_look (eq_store busy_queue) x =
  (if x = 1 then Some (ev_idle\<lparr>ev_when := 5, ev_flags := flags_set Initialized Scheduled, ev_queue := Some 0\<rparr>)
   else if x < 3 then Some ev_idle else None)"
  using idle_look by (simp add: busy_queue_def) (simp add: idle_queue_def eq_new_def)

lemma busy_rep: "eq_rep busy_queue [[1]]"
proof -
  have sel: "eq_head busy_queue = Some 1" "eq_async busy_queue = []" "eq_curTick busy_queue = 0" "eq_self busy_queue = 0"
    by (simp_all add: busy_queue_def idle_queue_def eq_new_def)
  have "inited (eq_store busy_queue)"
    using idle_flags(1) by (auto simp: inited_def busy_look ev_initialized_def ev_idle_def flag_simps)
  moreover have "pend (eq_store busy_queue) 0 x \<longleftrightarrow> x = 1" for x
    using idle_flags(2) by (simp add: pend_def busy_look ev_scheduled_def flag_simps)
  ultimately show ?thesis by (simp add: eq_rep_def sel bins_ok_def busy_look ev_idle_def bins_sorted_Cons)
qed

lemma busy_order: "eq_order busy_queue [1]"
  using busy_rep by (force simp: eq_order_def)

lemma busy_quiet: "quiet busy_queue"
  by (auto simp: quiet_def busy_look ev_idle_def flags_isSet_def flags_set_def split: if_splits)

text \<open>C31. When the events request nothing further, \<^verbatim>\<open>serviceEvents\<close> returns: one iteration per pending event
  is enough, whatever flags the events have, as long as no managed event is marked as an exit event of the
  main queue.\<close>

theorem serviceEvents_terminates:
  assumes "eq_order s xs" "length xs \<le> n" "quiet s"
  shows "\<exists>s'. eq_serviceEvents n par (\<lambda>_ _. []) t s = Inr s'"
proof -
  from assms(1) obtain bins where "eq_rep s bins" "xs = concat bins" by (auto simp: eq_order_def)
  from serviceLoop_inert [OF this(1), of n par t] this(2) assms(2,3) show ?thesis
    by (auto simp: eq_serviceEvents_def)
qed

theorem serviceEvents_terminates_witness: "\<exists>s'. eq_serviceEvents 1 True (\<lambda>_ _. []) 9 busy_queue = Inr s'"
  by (rule serviceEvents_terminates [OF busy_order _ busy_quiet]) simp

text \<open>Draining the events that other threads have handed over inserts each of them, first come first, and
  leaves no event waiting, provided none of them is already in the past.\<close>

theorem async_insertions_drained:
  assumes "eq_order s xs" "\<forall>x\<in>set (eq_async s). eq_curTick s \<le> fst (eq_key s x)"
  shows "\<exists>s'. eq_handleAsyncInsertions (eq_self s) s = Inr s' \<and> eq_async s' = [] \<and>
    eq_order s' (fold (put_order (eq_key s)) (eq_async s) xs)"
proof -
  from assms(1) obtain bins where bins: "eq_rep s bins" "xs = concat bins" by (auto simp: eq_order_def)
  from drain_rep [OF bins(1) assms(2)] obtain s' bins' where
    "eq_drain (eq_async s) s = Inr s'" "eq_rep s' bins'" "eq_async s' = []"
    "concat bins' = fold (put_order (eq_key s)) (eq_async s) xs" unfolding bins(2) by blast
  moreover from this have "eq_order s' (fold (put_order (eq_key s)) (eq_async s) xs)"
    unfolding eq_order_def by (metis (no_types))
  ultimately show ?thesis by (simp add: eq_handleAsyncInsertions_def)
qed

theorem async_insertions_drained_witness:
  "\<exists>s'. eq_handleAsyncInsertions 0 (busy_queue\<lparr>eq_head := None, eq_async := [1]\<rparr>) = Inr s' \<and> eq_order s' [1]"
proof -
  let ?s = "busy_queue\<lparr>eq_head := None, eq_async := [1]\<rparr>"
  have "eq_async busy_queue = []" by (simp add: busy_queue_def idle_queue_def eq_new_def)
  then have "eq_rep ?s []" using busy_rep by (auto simp: eq_rep_def bins_ok_def)
  then have "eq_order ?s []" by (force simp: eq_order_def)
  moreover have "eq_self ?s = 0" "eq_curTick ?s = 0" by (simp_all add: busy_queue_def idle_queue_def eq_new_def)
  ultimately show ?thesis using async_insertions_drained [of ?s "[]"] by (auto simp: put_order_def)
qed

text \<open>On a well-formed queue the consistency check \<^verbatim>\<open>debugVerify\<close> returns true, except when the first
  pending event has a negative priority at time 0: the check starts from time 0 and priority 0 and
  reports that event as inverted.\<close>

theorem debugVerify_result:
  assumes "eq_order s xs"
  shows "eq_debugVerify s = Inr (\<not> (xs \<noteq> [] \<and> fst (eq_key s (hd xs)) = 0 \<and> snd (eq_key s (hd xs)) < 0))"
proof -
  from assms obtain bins where bins: "eq_rep s bins" "xs = concat bins" by (auto simp: eq_order_def)
  let ?h = "eq_store s"
  have seg: "bin_seg ?h (eq_head s) bins None" and dist: "distinct (concat bins)"
    using bins(1) by (simp_all add: eq_rep_def bins_ok_def bins_sorted_def)
  have srt: "sorted (map (eq_key s) (concat bins))" by (rule bins_order_sorted [OF eq_rep_sorted [OF bins(1)]])
  have len: "length bins \<le> length ?h + 1" using bins_length [OF seg dist] by simp
  show ?thesis
  proof (cases "xs \<noteq> [] \<and> fst (eq_key s (hd xs)) = 0 \<and> snd (eq_key s (hd xs)) < 0")
    case True
    then obtain x ys where xs: "concat bins = x # ys" unfolding bins(2) by (metis list.exhaust)
    from order_head [OF bins(1) xs] obtain e where e: "eq_head s = Some x" "ev_look ?h x = Some e" by blast
    then have "ev_when e = 0" "ev_priority e < 0" using True xs bins(2) key_at_look [OF e(2)] by (simp_all add: ev_key_def)
    then show ?thesis using True verify_bins_early [OF e] by (simp add: eq_debugVerify_def)
  next
    case False
    have "(0, 0) \<le> eq_key s y" if y: "y \<in> set (concat bins)" for y
    proof -
      from y obtain x ys where xs: "concat bins = x # ys" by (metis list.exhaust list.set(1) empty_iff)
      then have "(0, 0) \<le> eq_key s x" using False bins(2) by (cases "eq_key s x") (auto simp: less_eq_prod_def word_gt_0)
      also have "eq_key s x \<le> eq_key s y" using srt y unfolding xs by auto
      finally show ?thesis .
    qed
    then show ?thesis using False verify_bins_ok [OF seg dist _ srt _ len, of "{}" 0 0] by (simp add: eq_debugVerify_def)
  qed
qed

theorem debugVerify_result_witness: "eq_debugVerify busy_queue = Inr True"
  using debugVerify_result [OF busy_order] by (simp add: key_at_def busy_look ev_key_def)

end
