(* ===== verification/Event_Progress.thy ===== *)
theory Event_Progress
  imports Event_Service
begin

text \<open>
  Progress of the service loop of \<^verbatim>\<open>sim/eventq.hh\<close> when the events do something: as long as the events that
  run ask only for later ticks, the loop works off the current tick and then moves on, so that
  \<^verbatim>\<open>serviceEvents\<close> returns. The measure counts the events of the current tick and, for each tick that is left,
  all events.
\<close>

section \<open>Managed exit events\<close>

text \<open>Requests do not change the marks of the events that the assertion in \<^verbatim>\<open>serviceOne\<close> looks at.\<close>

lemma flags_keep_marks [flag_simps]:
  "flags_isSet (flags_set f Scheduled) Managed = flags_isSet f Managed"
  "flags_isSet (flags_set f Scheduled) IsMainQueue = flags_isSet f IsMainQueue"
  "flags_isSet (flags_set f Squashed) Managed = flags_isSet f Managed"
  "flags_isSet (flags_set f Squashed) IsMainQueue = flags_isSet f IsMainQueue"
  unfolding flags_isSet_def flags_set_def bit.conj_disj_distrib2 by simp_all

lemma quiet_modify:
  assumes "eq_modify x f s = Inr s'" "quiet s"
    "\<And>e. flags_isSet (ev_flags (f e)) Managed \<Longrightarrow> flags_isSet (ev_flags (f e)) IsMainQueue \<Longrightarrow>
       flags_isSet (ev_flags e) Managed \<and> flags_isSet (ev_flags e) IsMainQueue"
  shows "quiet s'"
  using assms by (fastforce simp: quiet_def eq_modify_def ev_mod_def rbind_eq_Inr split: option.splits if_splits)

lemma ev_mod_same_data:
  "ev_mod h x f = Inr h' \<Longrightarrow> (\<And>e. ev_data (f e) = ev_data e) \<Longrightarrow> same_data h h'"
  by (auto simp: ev_mod_def rbind_eq_Inr same_data_def split: option.splits)

lemma insertBefore_same_data: "insertBefore h x cp = Inr (h', p) \<Longrightarrow> same_data h h'"
  by (auto simp: insertBefore_def rbind_eq_Inr ev_data_def elim!: ev_mod_same_data split: if_splits)

lemma removeItem_same_data: "removeItem h x tp = Inr (h', p) \<Longrightarrow> same_data h h'"
  by (auto simp: removeItem_def rbind_eq_Inr elim!: ev_mod_same_data split: if_splits option.splits)

lemma same_data_link: "same_data h h1 \<Longrightarrow> ev_mod h1 x (nextBin_update (\<lambda>_. p)) = Inr h' \<Longrightarrow> same_data h h'"
  using ev_mod_same_data [of h1 x "nextBin_update (\<lambda>_. p)" h'] same_data_trans [of h h1 h'] by simp

lemma eq_insert_at_same_data: "eq_insert_at h hp x = Inr (h', p) \<Longrightarrow> same_data h h'"
  by (auto simp: eq_insert_at_def insert_behind_def rbind_eq_Inr split: if_splits option.splits
      dest!: insertBefore_same_data elim!: same_data_link)

lemma eq_remove_at_same_data: "eq_remove_at q h hp x = Inr (h', p) \<Longrightarrow> same_data h h'"
  by (auto simp: eq_remove_at_def remove_behind_def rbind_eq_Inr split: if_splits option.splits
      dest!: removeItem_same_data elim!: same_data_link)

lemma quiet_insert: "eq_insert x s = Inr s' \<Longrightarrow> quiet s \<Longrightarrow> quiet s'"
  by (auto simp: eq_insert_def rbind_eq_Inr intro: quiet_same_data eq_insert_at_same_data)

lemma quiet_remove: "eq_remove x s = Inr s' \<Longrightarrow> quiet s \<Longrightarrow> quiet s'"
  by (auto simp: eq_remove_def rbind_eq_Inr intro: quiet_same_data eq_remove_at_same_data)

lemma quiet_async [simp]: "quiet (s\<lparr>eq_async := a\<rparr>) = quiet s" "quiet (s\<lparr>eq_curTick := c\<rparr>) = quiet s"
  by (simp_all add: quiet_def)

lemma quiet_release: "ev_release x s = Inr s' \<Longrightarrow> quiet s \<Longrightarrow> quiet s'"
  by (auto simp: ev_release_def quiet_def rbind_eq_Inr split: option.splits if_splits)

lemma quiet_schedule: 
  assumes "eq_schedule par cur x t g s = Inr s'" "quiet s" shows "quiet s'"
  using assms
  by (auto simp: eq_schedule_def rbind_eq_Inr eq_asyncInsert_def flag_simps ev_setWhen_def split: if_splits
      elim!: quiet_modify intro: quiet_insert)

lemma quiet_deschedule: 
  assumes "eq_deschedule par cur x s = Inr s'" "quiet s" shows "quiet s'"
  using assms
  by (auto simp: eq_deschedule_def rbind_eq_Inr split: if_splits
      elim!: quiet_modify quiet_release intro: quiet_remove dest!: flags_clear_isSet)

lemma quiet_reschedule: 
  assumes "eq_reschedule par cur x t a s = Inr s'" "quiet s" shows "quiet s'"
  using assms
  by (auto simp: eq_reschedule_def rbind_eq_Inr flag_simps ev_setWhen_def split: if_splits
      elim!: quiet_modify intro: quiet_insert quiet_remove dest!: flags_clear_isSet)

lemma perform_quiet: "perform par r s = Inr s' \<Longrightarrow> quiet s \<Longrightarrow> quiet s'"
  by (cases r) (auto simp: ev_squash_def flag_simps elim!: quiet_modify
     intro: quiet_schedule quiet_deschedule quiet_reschedule)


section \<open>Orderly requests\<close>

text \<open>Requests for later ticks only, each of which succeeds; the event itself is still there afterwards.\<close>

fun later :: "evq \<Rightarrow> request \<Rightarrow> bool" where
  "later s (Schedule x t) = (eq_curTick s < t)"
| "later s (Reschedule x t always) = (eq_curTick s < t)"
| "later s (Deschedule x) = True"
| "later s (Squash x) = True"

fun orderly :: "bool \<Rightarrow> nat \<Rightarrow> request list \<Rightarrow> evq \<Rightarrow> bool" where
  "orderly par x [] s = (ev_look (eq_store s) x \<noteq> None)"
| "orderly par x (r # rs) s = (admissible s r \<and> later s r \<and>
     (case perform par r s of Inl _ \<Rightarrow> False | Inr s' \<Rightarrow> orderly par x rs s'))"

definition later_events :: "tick \<Rightarrow> nat list list \<Rightarrow> evq \<Rightarrow> nat list list \<Rightarrow> evq \<Rightarrow> bool" where
  "later_events c bins s bins' s' \<longleftrightarrow> (\<forall>y\<in>set (concat bins').
     c < fst (eq_key s' y) \<or> y \<in> set (concat bins) \<and> eq_key s' y = eq_key s y)"

lemma later_events_trans:
  "later_events c b1 s1 b2 s2 \<Longrightarrow> later_events c b2 s2 b3 s3 \<Longrightarrow> later_events c b1 s1 b3 s3"
  unfolding later_events_def by (metis (no_types))

lemma later_events_insert:
  assumes "eq_key s' = (eq_key s)(x := (t, pri))" "c < t" "set (concat bs) \<subseteq> set (concat bins)"
  shows "later_events c bins s (ins_bins K x bs) s'"
  using assms(2,3) unfolding later_events_def ins_bins_set assms(1) by (auto simp del: set_concat)

lemma perform_later:
  assumes "eq_rep s bins" "admissible s r" "later s r"
  shows "\<exists>s' bins'. perform par r s = Inr s' \<and> eq_rep s' bins' \<and> eq_curTick s' = eq_curTick s \<and>
    length (eq_store s') = length (eq_store s) \<and> later_events (eq_curTick s) bins s bins' s'"
proof (cases r)
  case (Schedule x t)
  with assms obtain e where e: "ev_look (eq_store s) x = Some e" "\<not> ev_scheduled e" "eq_curTick s < t"
    by (auto split: option.splits)
  with schedule_rep [OF assms(1) e(1,2) order_less_imp_le [OF e(3)], of par "eq_self s" False] obtain s' where
    "eq_schedule par (eq_self s) x t False s = Inr s'" "eq_key s' = (eq_key s)(x := (t, ev_priority e))"
    "eq_rep s' (ins_bins (eq_key s') x bins)" "eq_curTick s' = eq_curTick s" "length (eq_store s') = length (eq_store s)"
    by auto
  then show ?thesis using later_events_insert [of s' s x t _ _ bins bins] e(3) unfolding Schedule by auto
next
  case (Deschedule x)
  with assms have x: "x \<in> set (concat bins)" by (auto simp: eq_rep_def)
  from deschedule_rep [OF assms(1) this, of par "eq_self s"] obtain s' where
    s': "eq_deschedule par (eq_self s) x s = Inr s'" "eq_rep s' (del_bins x bins)" "\<forall>y. y \<noteq> x \<longrightarrow> eq_key s' y = eq_key s y"
      "eq_curTick s' = eq_curTick s" "length (eq_store s') = length (eq_store s)" by auto
  have "later_events (eq_curTick s) bins s (del_bins x bins) s'"
    unfolding later_events_def set_del_bins [OF eq_rep_distinct [OF assms(1)]] using s'(3) by blast
  then show ?thesis using s' unfolding Deschedule by auto
next
  case (Reschedule x t always)
  with assms obtain e where e: "ev_look (eq_store s) x = Some e" "eq_curTick s < t"
    "if ev_scheduled e then ev_queue e = Some (eq_self s) \<and> x \<notin> set (eq_async s) else always"
    by (auto split: option.splits)
  have "if ev_scheduled e then x \<in> set (concat bins) else always"
    using eq_rep_pend [OF assms(1), of x] e by (auto simp: pend_def)
  from reschedule_rep [OF assms(1) e(1) order_less_imp_le [OF e(2)] _ this, of par "eq_self s"] obtain s' where
    "eq_reschedule par (eq_self s) x t always s = Inr s'" "eq_key s' = (eq_key s)(x := (t, ev_priority e))"
    "eq_rep s' (ins_bins (eq_key s') x (del_bins x bins))" "eq_curTick s' = eq_curTick s"
    "length (eq_store s') = length (eq_store s)" by auto
  then show ?thesis using later_events_insert [of s' s x t _ _ "del_bins x bins" bins] e(2) del_bins_subset
    unfolding Reschedule by auto
next
  case (Squash x)
  with assms obtain e where e: "ev_look (eq_store s) x = Some e" by auto
  from squash_rep [OF assms(1) e] have "eq_rep (s\<lparr>eq_store := (eq_store s)[x := Some (ev_squash e)]\<rparr>) bins" .
  moreover have "key_at ((eq_store s)[x := Some (ev_squash e)]) y = eq_key s y" for y
    using key_at_look [OF e] by (auto simp: ev_squash_def ev_key_def)
  ultimately show ?thesis using e unfolding Squash later_events_def
    by (intro exI [of _ "s\<lparr>eq_store := (eq_store s)[x := Some (ev_squash e)]\<rparr>"] exI [of _ bins]) (simp add: eq_modify_look)
qed

lemma requests_orderly:
  assumes "orderly par x rs s" "eq_rep s bins" "quiet s"
  shows "\<exists>s' bins' e. rfold (perform par) rs s = Inr s' \<and> eq_rep s' bins' \<and> quiet s' \<and> eq_curTick s' = eq_curTick s \<and>
    length (eq_store s') = length (eq_store s) \<and> ev_look (eq_store s') x = Some e \<and>
    later_events (eq_curTick s) bins s bins' s'"
  using assms
proof (induction rs arbitrary: s bins)
  case Nil
  then show ?case by (auto simp: later_events_def)
next
  case (Cons r rs)
  from perform_later [OF Cons.prems(2), of r par] Cons.prems(1) obtain s1 bins1 where
    s1: "perform par r s = Inr s1" "eq_rep s1 bins1" "eq_curTick s1 = eq_curTick s"
      "length (eq_store s1) = length (eq_store s)" "later_events (eq_curTick s) bins s bins1 s1" by auto
  from Cons.IH [OF _ s1(2) perform_quiet [OF s1(1) Cons.prems(3)]] Cons.prems(1) s1 show ?case
    by (fastforce intro: later_events_trans)
qed


section \<open>Running one event\<close>

text \<open>What an event does when it is run by the queue at a time up to \<open>t\<close>.\<close>

definition well_behaved :: "bool \<Rightarrow> (nat \<Rightarrow> evq \<Rightarrow> request list) \<Rightarrow> tick \<Rightarrow> bool" where
  "well_behaved par process t \<longleftrightarrow> (\<forall>s xs x. eq_order s xs \<longrightarrow> quiet s \<longrightarrow> eq_curTick s \<le> t \<longrightarrow> ev_fresh s x \<longrightarrow>
     orderly par x (process x s) s)"

lemma well_behavedD:
  "well_behaved par process t \<Longrightarrow> eq_order s xs \<Longrightarrow> quiet s \<Longrightarrow> eq_curTick s \<le> t \<Longrightarrow> ev_fresh s x \<Longrightarrow>
   orderly par x (process x s) s"
  unfolding well_behaved_def by blast

lemma release_total:
  assumes "eq_rep s bins" "ev_look (eq_store s) x = Some e" "quiet s"
  shows "\<exists>s'. ev_release x s = Inr s' \<and> eq_rep s' bins \<and> quiet s' \<and> length (eq_store s') = length (eq_store s) \<and>
    (\<forall>y\<in>set (concat bins). eq_key s' y = eq_key s y)"
proof -
  from release_rep [OF assms] obtain s' where s': "ev_release x s = Inr s'" "eq_rep s' bins" "quiet s'" by blast
  have "x \<notin> set (concat bins)" if "\<not> ev_scheduled e"
    using eq_rep_pend [OF assms(1), of x] assms(2) that by (simp add: pend_def)
  then have "length (eq_store s') = length (eq_store s) \<and> (\<forall>y\<in>set (concat bins). eq_key s' y = eq_key s y)"
    using s'(1) assms(2) by (auto simp: ev_release_def simp del: set_concat split: if_splits)
  then show ?thesis using s' by blast
qed

lemma runEvent_orderly:
  assumes "eq_rep s bins" "ev_look (eq_store s) x = Some e" "\<not> ev_scheduled e" "quiet s"
    "\<forall>y\<in>set (concat bins). ev_when e \<le> fst (eq_key s y)" "well_behaved par process t" "ev_when e \<le> t"
  shows "\<exists>r s' bins'. eq_runEvent par process x s = Inr (r, s') \<and> eq_rep s' bins' \<and> quiet s' \<and>
    length (eq_store s') = length (eq_store s) \<and> later_events (ev_when e) bins s bins' s'"
proof (cases "ev_squashed e")
  case True
  let ?e = "e\<lparr>ev_flags := flags_clear (ev_flags e) Squashed\<rparr>"
  let ?s = "s\<lparr>eq_store := (eq_store s)[x := Some ?e]\<rparr>"
  have np: "\<not> pend (eq_store s) (eq_self s) x" using assms(2,3) by (simp add: pend_def)
  have "eq_without x ?s bins"
    using assms(1,2) by (intro eq_without_update [OF eq_rep_without [OF assms(1) np]])
      (auto simp: eq_rep_def ev_initialized_def flag_simps dest: initedD)
  then have r: "eq_rep ?s bins" by (rule eq_without_rep) (use assms(3) np in \<open>simp add: ev_scheduled_def flag_simps\<close>)
  have k: "eq_key ?s y = eq_key s y" for y using key_at_look [OF assms(2)] by (auto simp: ev_key_def)
  from release_total [OF r, of x ?e] quiet_update [OF assms(4,2), of ?e Squashed] ev_look_length [OF assms(2)] obtain s' where
    "ev_release x ?s = Inr s'" "eq_rep s' bins" "quiet s'" "length (eq_store s') = length (eq_store s)"
    "\<forall>y\<in>set (concat bins). eq_key s' y = eq_key s y" unfolding k by auto
  then show ?thesis using True assms(2) by (fastforce simp: eq_runEvent_def eq_modify_look later_events_def simp del: set_concat)
next
  case False
  let ?s = "s\<lparr>eq_curTick := ev_when e\<rparr>"
  have r: "eq_rep ?s bins" by (rule eq_rep_curTick [OF assms(1,5)])
  then have "eq_order ?s (concat bins)" by (auto simp: eq_order_def)
  then have "orderly par x (process x ?s) ?s"
    by (rule well_behavedD [OF assms(6)]) (use assms(2-4,7) in \<open>simp_all add: ev_fresh_def\<close>)
  from requests_orderly [OF this r] assms(4) obtain s1 bins1 e1 where
    s1: "rfold (perform par) (process x ?s) ?s = Inr s1" "eq_rep s1 bins1" "quiet s1"
      "length (eq_store s1) = length (eq_store s)" "ev_look (eq_store s1) x = Some e1" "later_events (ev_when e) bins s bins1 s1"
    by (auto simp: later_events_def)
  show ?thesis
  proof (cases "ev_isExitEvent e1")
    case True
    have "\<not> ev_isManaged e1 \<or> \<not> flags_isSet (ev_flags e1) IsMainQueue"
      using s1(3,5) by (auto simp: quiet_def ev_isManaged_def)
    then show ?thesis using True False assms(2) s1 by (auto simp: eq_runEvent_def Let_def)
  next
    case nx: False
    from release_total [OF s1(2,5,3)] obtain s' where
      "ev_release x s1 = Inr s'" "eq_rep s' bins1" "quiet s'" "length (eq_store s') = length (eq_store s1)"
      "later_events (ev_when e) bins1 s1 bins1 s'" by (auto simp: later_events_def simp del: set_concat)
    then show ?thesis using nx False assms(2) s1 by (fastforce simp: eq_runEvent_def Let_def intro: later_events_trans)
  qed
qed

lemma serviceOne_orderly:
  assumes "eq_rep s bins" "concat bins = x # xs" "quiet s" "well_behaved par process t" "fst (eq_key s x) \<le> t"
  shows "\<exists>r s' bins'. eq_serviceOne par process s = Inr (r, s') \<and> eq_rep s' bins' \<and> quiet s' \<and>
    length (eq_store s') = length (eq_store s) \<and> later_events (fst (eq_key s x)) [xs] s bins' s'"
proof -
  from order_head [OF assms(1,2)] obtain e where e: "ev_look (eq_store s) x = Some e" by blast
  let ?e = "e\<lparr>ev_flags := flags_clear (ev_flags e) Scheduled\<rparr>"
  let ?h = "(eq_store s)[x := Some ?e]"
  from unlinkHead_rep [OF assms(1,2) e] obtain h p bins' where
    u: "eq_unlinkHead s = Inr (x, s\<lparr>eq_store := h, eq_head := p\<rparr>)" "eq_rep (s\<lparr>eq_store := h, eq_head := p\<rparr>) bins'"
      "concat bins' = xs" "same_data ?h h" by blast
  have look: "ev_look ?h x = Some ?e" using ev_look_length [OF e] by simp
  from same_data_event [OF u(4) look] obtain e1 where e1: "ev_look h x = Some e1" "ev_when e1 = ev_when e"
    "ev_flags e1 = flags_clear (ev_flags e) Scheduled" by auto
  have q: "quiet (s\<lparr>eq_store := h, eq_head := p\<rparr>)"
    using quiet_same_data [of "s\<lparr>eq_store := ?h\<rparr>" h p] quiet_update [OF assms(3) e, of ?e Scheduled] u(4) by simp
  have key: "key_at h y = eq_key s y" for y
    using same_data_key [OF u(4), of y] key_at_look [OF e] by (auto simp: ev_key_def split: if_splits)
  have w: "fst (eq_key s x) = ev_when e1" using key_at_look [OF e] e1(2) by (simp add: ev_key_def)
  have ns: "\<not> ev_scheduled e1" using e1(3) by (simp add: ev_scheduled_def flag_simps)
  have later: "\<forall>y\<in>set (concat bins'). ev_when e1 \<le> fst (eq_key (s\<lparr>eq_store := h, eq_head := p\<rparr>) y)"
    using order_key_le [OF assms(1,2)] u(3) w by (simp add: key del: set_concat)
  have len: "length h = length (eq_store s)" using u(4) by (simp add: same_data_def)
  have "ev_look (eq_store (s\<lparr>eq_store := h, eq_head := p\<rparr>)) x = Some e1" "ev_when e1 \<le> t" using e1(1) assms(5) w by simp_all
  from runEvent_orderly [OF u(2) this(1) ns q later assms(4) this(2)] obtain r s' bins1 where
    "eq_runEvent par process x (s\<lparr>eq_store := h, eq_head := p\<rparr>) = Inr (r, s')" "eq_rep s' bins1" "quiet s'"
    "length (eq_store s') = length h" "later_events (ev_when e1) bins' (s\<lparr>eq_store := h, eq_head := p\<rparr>) bins1 s'" by auto
  moreover from this(5) have "later_events (fst (eq_key s x)) [xs] s bins1 s'"
    unfolding later_events_def w by (simp add: key u(3) del: set_concat)
  ultimately show ?thesis using u(1) len by (auto simp: eq_serviceOne_def)
qed


section \<open>Progress of the loop\<close>

text \<open>The number of iterations that are left at most: one for each event of the head's tick and one for
  each event and tick after it.\<close>

definition work :: "tick \<Rightarrow> evq \<Rightarrow> nat list \<Rightarrow> nat" where
  "work t s xs = (case xs of [] \<Rightarrow> 0 | x # _ \<Rightarrow>
     let h = fst (eq_key s x) in
     if t < h then 0
     else (unat t - unat h) * length (eq_store s) + length (filter (\<lambda>y. fst (eq_key s y) = h) xs))"

lemma pending_length:
  assumes "eq_rep s bins"
  shows "length (concat bins) \<le> length (eq_store s)"
proof -
  have "set (concat bins) \<subseteq> {..< length (eq_store s)}"
  proof
    fix x assume "x \<in> set (concat bins)"
    then have "pend (eq_store s) (eq_self s) x" using eq_rep_pend [OF assms] by blast
    then show "x \<in> {..< length (eq_store s)}" by (auto simp: pend_def dest: ev_look_length split: option.splits)
  qed
  from card_mono [OF _ this] show ?thesis using distinct_card [OF eq_rep_distinct [OF assms]] by simp
qed

lemma later_tick_le:
  assumes "h < h'" "h' \<le> (t :: tick)" "k \<le> L"
  shows "(unat t - unat h') * L + k \<le> (unat t - unat h) * L"
proof -
  have "unat h < unat h'" "unat h' \<le> unat t" using assms(1,2) by (simp_all add: word_less_nat_alt word_le_nat_alt)
  then have "Suc (unat t - unat h') \<le> unat t - unat h" by simp
  from mult_le_mono1 [OF this, of L] show ?thesis using assms(3) by simp
qed

lemma work_bound:
  assumes "eq_rep s bins"
  shows "work t s (concat bins) \<le> (unat t - unat (eq_curTick s) + 1) * length (eq_store s)"
proof (cases "concat bins")
  case (Cons x xs)
  let ?h = "fst (eq_key s x)"
  have "eq_curTick s \<le> ?h" using assms Cons by (auto simp: eq_rep_def)
  then have "(unat t - unat ?h) * length (eq_store s) \<le> (unat t - unat (eq_curTick s)) * length (eq_store s)"
    by (intro mult_le_mono1 diff_le_mono2) (simp add: word_le_nat_alt)
  moreover have "length (filter (\<lambda>y. fst (eq_key s y) = ?h) (concat bins)) \<le> length (eq_store s)"
    using pending_length [OF assms] length_filter_le [of _ "concat bins"] by (meson le_trans)
  ultimately have "(unat t - unat ?h) * length (eq_store s) + length (filter (\<lambda>y. fst (eq_key s y) = ?h) (concat bins))
      \<le> (unat t - unat (eq_curTick s) + 1) * length (eq_store s)" unfolding add_mult_distrib by linarith
  then show ?thesis unfolding Cons work_def Let_def list.case by simp
next
  case Nil
  then show ?thesis unfolding Nil work_def by simp
qed

lemma work_step:
  assumes "eq_rep s bins" "concat bins = x # xs" "fst (eq_key s x) \<le> t" "eq_rep s' bins'"
    "later_events (fst (eq_key s x)) [xs] s bins' s'" "length (eq_store s') = length (eq_store s)"
  shows "work t s' (concat bins') < work t s (concat bins)"
proof -
  let ?h = "fst (eq_key s x)" and ?L = "length (eq_store s)"
  let ?now = "filter (\<lambda>y. fst (eq_key s y) = ?h) xs"
  have w: "work t s (concat bins) = (unat t - unat ?h) * ?L + Suc (length ?now)"
    using assms(2,3) by (simp add: work_def Let_def)
  show ?thesis
  proof (cases "concat bins'")
    case Nil
    show ?thesis unfolding w Nil by (simp add: work_def)
  next
    case (Cons y ys)
    let ?h' = "fst (eq_key s' y)" and ?now' = "filter (\<lambda>z. fst (eq_key s' z) = ?h) (y # ys)"
    have le: "?h \<le> ?h'"
      using assms(5) order_key_le [OF assms(1,2), of y] unfolding later_events_def Cons by auto
    have sub: "set ?now' \<subseteq> set ?now" using assms(5) unfolding later_events_def Cons by auto
    have "distinct ?now'" using eq_rep_distinct [OF assms(4)] unfolding Cons by (rule distinct_filter)
    then have "length ?now' = card (set ?now')" by (rule distinct_card [symmetric])
    also have "\<dots> \<le> card (set ?now)" by (rule card_mono [OF finite_set sub])
    also have "\<dots> \<le> length ?now" by (rule card_length)
    finally have cnt: "length ?now' \<le> length ?now" .
    have L: "length (filter P (y # ys)) \<le> ?L" for P
      using pending_length [OF assms(4)] Cons assms(6) length_filter_le [of P "y # ys"] by simp
    consider "t < ?h'" | "?h' = ?h" | "?h < ?h'" "?h' \<le> t" 
      using le by (cases "t < ?h'"; cases "?h' = ?h") (auto simp: not_less order.strict_iff_order)
    then show ?thesis
    proof cases
      case 2
      then show ?thesis using cnt w Cons assms(6) by (simp add: work_def Let_def)
    next
      case 3
      from later_tick_le [OF this L, of "\<lambda>z. fst (eq_key s' z) = ?h'"] show ?thesis
        using w 3(2) Cons assms(6) by (simp add: work_def Let_def)
    qed (use w Cons in \<open>simp add: work_def\<close>)
  qed
qed

lemma serviceLoop_total:
  assumes "eq_rep s bins" "quiet s" "well_behaved par process t" "work t s (concat bins) < n"
  shows "\<exists>s'. eq_serviceLoop n par process t s = Inr s'"
  using assms(1,2,4)
proof (induction n arbitrary: s bins)
  case (Suc n)
  show ?case
  proof (cases "concat bins")
    case Nil
    then show ?thesis using order_unique_head [OF Suc.prems(1)] by simp
  next
    case (Cons x xs)
    have nt: "eq_head s \<noteq> None" "eq_nextTick s = Inr (fst (eq_key s x))"
      using nextTick_rep [OF Suc.prems(1) Cons] order_unique_head [OF Suc.prems(1)] Cons by simp_all
    show ?thesis
    proof (cases "t < fst (eq_key s x)")
      case False
      then have le: "fst (eq_key s x) \<le> t" by simp
      from serviceOne_orderly [OF Suc.prems(1) Cons Suc.prems(2) assms(3) le] obtain r s' bins' where
        s': "eq_serviceOne par process s = Inr (r, s')" "eq_rep s' bins'" "quiet s'"
          "length (eq_store s') = length (eq_store s)" "later_events (fst (eq_key s x)) [xs] s bins' s'" by blast
      from work_step [OF Suc.prems(1) Cons le s'(2,5,4)] Suc.prems(3) have "work t s' (concat bins') < n" by simp
      from Suc.IH [OF s'(2,3) this] show ?thesis using s'(1) nt le by (simp add: leD)
    qed (use nt in simp)
  qed
qed simp

section \<open>Properties\<close>

text \<open>C30. \<^verbatim>\<open>serviceEvents(when)\<close> returns and reaches its time, on any well-formed queue and whatever the
  events do through the scheduling interface while they run, provided that each of their requests succeeds and
  asks for a tick after the current one, that an event does not delete itself, and that no managed
  event is marked as an exit event of the main queue: one iteration for each event and each tick up to
  \<open>when\<close> is enough. Then the queue is well-formed, the time is \<open>when\<close> (not the time of the head entry, as the comment
  on the method says) and no pending event is at or before it; the loop itself never moves the time back nor past
  \<open>when\<close>.\<close>

theorem serviceEvents_reaches_time:
  assumes "eq_order s xs" "quiet s" "well_behaved par process t"
    "(unat t - unat (eq_curTick s) + 1) * length (eq_store s) < n"
  shows "\<exists>s' xs'. eq_serviceEvents n par process t s = Inr s' \<and> eq_order s' xs' \<and> eq_curTick s' = t \<and>
    (\<forall>y\<in>set xs'. t < fst (eq_key s' y)) \<and>
    (\<exists>s1. eq_serviceLoop n par process t s = Inr s1 \<and> eq_curTick s \<le> eq_curTick s1 \<and> eq_curTick s1 \<le> max (eq_curTick s) t)"
proof -
  from assms(1) obtain bins where bins: "eq_rep s bins" by (auto simp: eq_order_def)
  have "work t s (concat bins) < n" using work_bound [OF bins, of t] assms(4) by simp
  from serviceLoop_total [OF bins assms(2,3) this] obtain s1 where s1: "eq_serviceLoop n par process t s = Inr s1" by blast
  let ?s = "s1\<lparr>eq_curTick := t\<rparr>"
  from serviceLoop_inv [OF bins s1] obtain bins' where
    r: "eq_rep s1 bins'" "eq_curTick s \<le> eq_curTick s1" "eq_curTick s1 \<le> max (eq_curTick s) t"
      "\<forall>y\<in>set (concat bins'). t < fst (eq_key s1 y)" by blast
  then have "eq_rep ?s bins'" by (intro eq_rep_curTick) (auto intro: order_less_imp_le)
  then show ?thesis using r s1
    by (intro exI [of _ ?s] exI [of _ "concat bins'"]) (auto simp: eq_order_def eq_serviceEvents_def)
qed

text \<open>An event that schedules itself again four ticks later each time it runs.\<close>

definition ticking :: "nat \<Rightarrow> evq \<Rightarrow> request list" where
  "ticking x s = [Schedule x (eq_curTick s + 4)]"

lemma tick_later: "c \<le> 9 \<Longrightarrow> c < c + (4 :: tick)"
  by (simp add: word_less_nat_alt word_le_nat_alt unat_word_ariths)

lemma schedule_keeps_event: "eq_schedule par cur x t g s = Inr s' \<Longrightarrow> ev_look (eq_store s') x \<noteq> None"
  by (auto simp: eq_schedule_def rbind_eq_Inr eq_modify_def ev_mod_def dest: ev_look_length split: option.splits)

lemma ticking_well_behaved: "well_behaved False ticking 9"
  unfolding well_behaved_def
proof (intro allI impI)
  fix s xs x assume a: "eq_order s xs" "eq_curTick s \<le> 9" "ev_fresh s x"
  note lt = tick_later [OF a(2)]
  then have adm: "admissible s (Schedule x (eq_curTick s + 4))"
    using a(3) by (auto simp: ev_fresh_def split: option.splits)
  from a(1) obtain bins where "eq_rep s bins" by (auto simp: eq_order_def)
  from perform_later [OF this adm, of False] lt obtain s' where
    "eq_schedule False (eq_self s) x (eq_curTick s + 4) False s = Inr s'" by auto
  then show "orderly False x (ticking x s) s" using adm lt schedule_keeps_event by (simp add: ticking_def)
qed

theorem serviceEvents_reaches_time_witness:
  "\<exists>s' xs'. eq_serviceEvents 31 False ticking 9 busy_queue = Inr s' \<and> eq_order s' xs' \<and> eq_curTick s' = 9"
proof -
  have "(unat (9 :: tick) - unat (eq_curTick busy_queue) + 1) * length (eq_store busy_queue) < 31"
    by (simp add: busy_queue_def idle_queue_def eq_new_def)
  from serviceEvents_reaches_time [OF busy_order busy_quiet ticking_well_behaved this] show ?thesis by blast
qed

end
