(* ===== verification/Dep_Predictor.thy ===== *)
theory Dep_Predictor
  imports Int_Math
begin

text \<open>
  The interface between the memory-dependence unit and its predictor (\<^verbatim>\<open>cpu/o3/mem_dep_unit.hh\<close>,
  \<^verbatim>\<open>cpu/o3/dyn_inst_ptr.hh\<close>): the branch history, the answer of a predictor, the operations every
  predictor offers, and the contract under which any sequence of calls succeeds.
\<close>

record branchInfo =
  bi_indirect :: bool
  bi_taken :: bool
  bi_target :: u64
  bi_seqNum :: seqnum
  bi_pc :: u64

type_synonym branch_history = "branchInfo list"

record prediction_result =
  pr_seqNum :: seqnum
  pr_storeQueueDistance :: int
  pr_predBranchHistLength :: nat
  pr_predictorHash :: u64

definition no_prediction :: prediction_result where
  "no_prediction = \<lparr>pr_seqNum = 0, pr_storeQueueDistance = 0, pr_predBranchHistLength = 0, pr_predictorHash = 0\<rparr>"

text \<open>The operations, as the unit calls them.\<close>

record 'p dp_ops =
  dp_checkInst :: "u64 \<Rightarrow> seqnum \<Rightarrow> branch_history \<Rightarrow> bool \<Rightarrow> 'p \<Rightarrow> (prediction_result \<times> 'p) res"
  dp_insertStore :: "u64 \<Rightarrow> seqnum \<Rightarrow> 'p \<Rightarrow> 'p res"
  dp_issued :: "u64 \<Rightarrow> seqnum \<Rightarrow> bool \<Rightarrow> 'p \<Rightarrow> 'p res"
  dp_squash :: "seqnum \<Rightarrow> 'p \<Rightarrow> 'p res"
  dp_violation :: "u64 \<Rightarrow> seqnum \<Rightarrow> seqnum \<Rightarrow> u64 \<Rightarrow> int \<Rightarrow> bool \<Rightarrow> nat \<Rightarrow> u64 \<Rightarrow> branch_history \<Rightarrow> 'p \<Rightarrow> 'p res"
  dp_commit :: "u64 \<Rightarrow> u64 \<Rightarrow> u32 \<Rightarrow> u64 \<Rightarrow> u32 \<Rightarrow> nat \<Rightarrow> u64 \<Rightarrow> 'p \<Rightarrow> 'p res"
  dp_clear :: "'p \<Rightarrow> 'p res"

datatype dp_call =
    CheckInst u64 seqnum branch_history bool
  | InsertStore u64 seqnum
  | Issued u64 seqnum bool
  | Squash_to seqnum
  | Violation u64 seqnum seqnum u64 int bool nat u64 branch_history
  | Commit u64 u64 u32 u64 u32 nat u64
  | Clear

fun dp_step :: "'p dp_ops \<Rightarrow> dp_call \<Rightarrow> 'p \<Rightarrow> 'p res" where
  "dp_step ops (CheckInst pc sn bh ld) p = rbind (dp_checkInst ops pc sn bh ld p) (\<lambda>(_, p). Inr p)"
| "dp_step ops (InsertStore pc sn) p = dp_insertStore ops pc sn p"
| "dp_step ops (Issued pc sn st) p = dp_issued ops pc sn st p"
| "dp_step ops (Squash_to sn) p = dp_squash ops sn p"
| "dp_step ops (Violation lpc lsn ssn spc d pr i h bh) p = dp_violation ops lpc lsn ssn spc d pr i h bh p"
| "dp_step ops (Commit pc la ls sa ss i h) p = dp_commit ops pc la ls sa ss i h p"
| "dp_step ops Clear p = dp_clear ops p"

text \<open>Stores are inserted in the order of their sequence numbers; a path index that comes back to the
  predictor is one that it gave out.\<close>

fun in_order :: "(nat \<Rightarrow> bool) \<Rightarrow> seqnum \<Rightarrow> dp_call list \<Rightarrow> bool" where
  "in_order path_ok b [] = True"
| "in_order path_ok b (InsertStore pc sn # cs) = (b \<le> sn \<and> in_order path_ok sn cs)"
| "in_order path_ok b (Violation lpc lsn ssn spc d pr i h bh # cs) = (path_ok i \<and> in_order path_ok b cs)"
| "in_order path_ok b (Commit pc la ls sa ss i h # cs) = (path_ok i \<and> in_order path_ok b cs)"
| "in_order path_ok b (c # cs) = in_order path_ok b cs"

text \<open>\<open>young p b\<close>: the predictor has recorded no store younger than \<open>b\<close>.\<close>

locale dep_predictor =
  fixes ops :: "'p dp_ops" and ok :: "'p \<Rightarrow> bool" and young :: "'p \<Rightarrow> seqnum \<Rightarrow> bool" and path_ok :: "nat \<Rightarrow> bool"
  assumes check_ok: "ok p \<Longrightarrow> young p b \<Longrightarrow> \<exists>r p'. dp_checkInst ops pc sn bh ld p = Inr (r, p') \<and> ok p' \<and> young p' b \<and>
      path_ok (pr_predBranchHistLength r)"
    and insert_ok: "ok p \<Longrightarrow> young p b \<Longrightarrow> b \<le> sn \<Longrightarrow> \<exists>p'. dp_insertStore ops pc sn p = Inr p' \<and> ok p' \<and> young p' sn"
    and issued_ok: "ok p \<Longrightarrow> young p b \<Longrightarrow> \<exists>p'. dp_issued ops pc sn st p = Inr p' \<and> ok p' \<and> young p' b"
    and squash_ok: "ok p \<Longrightarrow> young p b \<Longrightarrow> \<exists>p'. dp_squash ops sn p = Inr p' \<and> ok p' \<and> young p' b"
    and violation_ok: "ok p \<Longrightarrow> young p b \<Longrightarrow> path_ok i \<Longrightarrow>
      \<exists>p'. dp_violation ops lpc lsn ssn spc d pr i h bh p = Inr p' \<and> ok p' \<and> young p' b"
    and commit_ok: "ok p \<Longrightarrow> young p b \<Longrightarrow> path_ok i \<Longrightarrow>
      \<exists>p'. dp_commit ops pc la ls sa ss i h p = Inr p' \<and> ok p' \<and> young p' b"
    and young_mono: "young p b \<Longrightarrow> b \<le> b' \<Longrightarrow> young p b'"
    and clear_ok: "ok p \<Longrightarrow> young p b \<Longrightarrow> \<exists>p'. dp_clear ops p = Inr p' \<and> ok p' \<and> young p' b"
begin

lemma calls_succeed:
  assumes "ok p" "young p b" "in_order path_ok b cs"
  shows "\<exists>p'. rfold (dp_step ops) cs p = Inr p' \<and> ok p'"
  using assms
proof (induction cs arbitrary: p b)
  case (Cons c cs)
  have "\<exists>p' b'. dp_step ops c p = Inr p' \<and> ok p' \<and> young p' b' \<and> in_order path_ok b' cs"
  proof (cases c)
    case (CheckInst pc sn bh ld)
    then show ?thesis using Cons.prems check_ok [of p b pc sn bh ld] by auto
  next
    case (InsertStore pc sn)
    then show ?thesis using Cons.prems insert_ok [of p b sn pc] by auto
  next
    case (Issued pc sn st)
    then show ?thesis using Cons.prems issued_ok [of p b pc sn st] by auto
  next
    case (Squash_to sn)
    then show ?thesis using Cons.prems squash_ok [of p b sn] by auto
  next
    case (Violation lpc lsn ssn spc d pr i h bh)
    then show ?thesis using Cons.prems violation_ok [of p b i lpc lsn ssn spc d pr h bh] by auto
  next
    case (Commit pc la ls sa ss i h)
    then show ?thesis using Cons.prems commit_ok [of p b i pc la ls sa ss h] by auto
  next
    case Clear
    then show ?thesis using Cons.prems clear_ok [of p b] by auto
  qed
  then show ?case using Cons.IH by fastforce
qed simp

end

end
