(* ===== verification/Phast.thy ===== *)
theory Phast
  imports Dep_Predictor
begin

text \<open>
  The PHAST memory-dependence predictor of \<^verbatim>\<open>cpu/o3/phast.hh\<close> and \<^verbatim>\<open>cpu/o3/phast.cc\<close>: one
  set-associative table per branch-history length (\<^verbatim>\<open>SimplBlockCache\<close>), indexed and tagged by the
  load's address folded with a hash of the branch history. A pointer to an entry is the pair of its
  set and its way. The statistics that the predictor bumps in the memory-dependence unit are part
  of its state here.
\<close>

section \<open>The tables\<close>

record phast_entry =
  pe_tag :: u64
  pe_distance :: int
  pe_lru :: u32
  pe_counter :: u32

definition zero_entry :: phast_entry where
  "zero_entry = \<lparr>pe_tag = 0, pe_distance = 0, pe_lru = 0, pe_counter = 0\<rparr>"

record blk_cache =
  bc_setBits :: nat
  bc_tagBits :: nat
  bc_associativity :: nat
  bc_lruCounter :: u64
  bc_maxCounterValue :: u32
  bc_cache :: "phast_entry list list"

definition bc_init :: "nat \<Rightarrow> nat \<Rightarrow> nat \<Rightarrow> u32 \<Rightarrow> blk_cache" where
  "bc_init set_bits assoc tag_bits max_counter_value =
     \<lparr>bc_setBits = set_bits, bc_tagBits = tag_bits, bc_associativity = assoc, bc_lruCounter = 0,
      bc_maxCounterValue = max_counter_value,
      bc_cache = replicate (2 ^ set_bits) (replicate assoc zero_entry)\<rparr>"

text \<open>\<^verbatim>\<open>(1 << size) - 1\<close> is computed as an \<^verbatim>\<open>int\<close> and then widened; \<open>while (history)\<close> does not end if
  \<open>size\<close> is zero.\<close>

definition fold_mask :: "nat \<Rightarrow> u64" where
  "fold_mask sz = scast ((push_bit sz 1 :: u32) - 1)"

function xorFold_loop :: "nat \<Rightarrow> u64 \<Rightarrow> u64 \<Rightarrow> u64 \<Rightarrow> u64 res" where
  "xorFold_loop sz m history fd =
     (if history = 0 then Inr fd
      else if sz = 0 then Inl Diverges
      else xorFold_loop sz m (drop_bit sz history) (fd XOR (history AND m)))"
  by auto

definition getIndex_mix :: "u64 \<Rightarrow> u64" where
  "getIndex_mix pc = pc XOR drop_bit 2 pc XOR drop_bit 5 pc"

definition getTag_mix :: "u64 \<Rightarrow> u64" where
  "getTag_mix pc = pc XOR drop_bit 3 pc XOR drop_bit 7 pc"

lemma unat_drop_bit_less:
  assumes "(w :: u64) \<noteq> 0" "0 < n"
  shows "unat (drop_bit n w) < unat w"
proof -
  have "0 < unat w" using assms(1) by (simp add: unat_gt_0)
  then have "unat w div 2 ^ n < unat w" using one_less_power [of "2 :: nat" n] assms(2)
    by (intro div_less_dividend) simp_all
  then show ?thesis by (simp add: unat_drop_bit)
qed

termination xorFold_loop
  by (relation "measure (\<lambda>(_, _, h, _). unat h)") (auto intro: unat_drop_bit_less)

declare xorFold_loop.simps [simp del]

definition xorFold :: "u64 \<Rightarrow> u64 \<Rightarrow> nat \<Rightarrow> u64 res" where
  "xorFold pc history sz =
     (let m = fold_mask sz; fd = (history AND m) XOR (pc AND m)
      in xorFold_loop sz m (drop_bit sz history) fd)"

definition getIndex :: "blk_cache \<Rightarrow> u64 \<Rightarrow> u64 \<Rightarrow> u64 res" where
  "getIndex c pc history = xorFold 0 (getIndex_mix pc XOR history) (bc_setBits c)"

definition getTag :: "blk_cache \<Rightarrow> u64 \<Rightarrow> u64 \<Rightarrow> u64 res" where
  "getTag c pc history = xorFold 0 (getTag_mix pc XOR history) (bc_tagBits c)"

definition bc_read :: "blk_cache \<Rightarrow> nat \<Rightarrow> nat \<Rightarrow> phast_entry res" where
  "bc_read c st way = rbind (vget (bc_cache c) st) (\<lambda>row. vget row way)"

definition bc_write :: "blk_cache \<Rightarrow> nat \<Rightarrow> nat \<Rightarrow> (phast_entry \<Rightarrow> phast_entry) \<Rightarrow> blk_cache res" where
  "bc_write c st way f = rbind (vget (bc_cache c) st) (\<lambda>row. rbind (vget row way) (\<lambda>e.
     Inr (c\<lparr>bc_cache := (bc_cache c)[st := row[way := f e]]\<rparr>)))"

fun find_way :: "blk_cache \<Rightarrow> nat \<Rightarrow> u64 \<Rightarrow> nat \<Rightarrow> nat \<Rightarrow> nat option res" where
  "find_way c st tag i 0 = Inr None"
| "find_way c st tag i (Suc n) = rbind (bc_read c st i) (\<lambda>e.
     if pe_tag e = tag then Inr (Some i) else find_way c st tag (i + 1) n)"

definition findEntry :: "blk_cache \<Rightarrow> u64 \<Rightarrow> u64 \<Rightarrow> (nat \<times> nat) option res" where
  "findEntry c pc history =
     rbind (getIndex c pc history) (\<lambda>st. rbind (getTag c pc history) (\<lambda>tag.
     rbind (find_way c (unat st) tag 0 (bc_associativity c)) (\<lambda>w.
       Inr (case w of None \<Rightarrow> None | Some i \<Rightarrow> Some (unat st, i)))))"

fun lru_way :: "blk_cache \<Rightarrow> nat \<Rightarrow> nat \<Rightarrow> u64 \<Rightarrow> nat \<Rightarrow> nat \<Rightarrow> nat res" where
  "lru_way c st best best_value i 0 = Inr best"
| "lru_way c st best best_value i (Suc n) = rbind (bc_read c st i) (\<lambda>e.
     if ucast (pe_lru e) < best_value then lru_way c st i (ucast (pe_lru e)) (i + 1) n
     else lru_way c st best best_value (i + 1) n)"

definition getLRUEntry :: "blk_cache \<Rightarrow> nat \<Rightarrow> (nat \<times> nat) res" where
  "getLRUEntry c st = rbind (bc_read c st 0) (\<lambda>e.
     rbind (lru_way c st 0 (ucast (pe_lru e)) 0 (bc_associativity c)) (\<lambda>w. Inr (st, w)))"

definition updateLRU :: "blk_cache \<Rightarrow> nat \<times> nat \<Rightarrow> blk_cache res" where
  "updateLRU c p = rbind (bc_write c (fst p) (snd p) (\<lambda>e. e\<lparr>pe_lru := ucast (bc_lruCounter c)\<rparr>)) (\<lambda>c.
     Inr (c\<lparr>bc_lruCounter := bc_lruCounter c + 1\<rparr>))"

definition bc_predict :: "blk_cache \<Rightarrow> u64 \<Rightarrow> u64 \<Rightarrow> (int \<times> blk_cache) res" where
  "bc_predict c pc history = rbind (findEntry c pc history) (\<lambda>r. case r of None \<Rightarrow> Inr (0, c)
     | Some p \<Rightarrow> rbind (bc_read c (fst p) (snd p)) (\<lambda>e.
         if pe_counter e = 0 \<or> pe_distance e = 0 then Inr (0, c)
         else rbind (updateLRU c p) (\<lambda>c. Inr (pe_distance e, c))))"

definition bc_update :: "blk_cache \<Rightarrow> u64 \<Rightarrow> u64 \<Rightarrow> int \<Rightarrow> blk_cache res" where
  "bc_update c pc history distance = rbind (findEntry c pc history) (\<lambda>r. case r of
       None \<Rightarrow>
         rbind (getIndex c pc history) (\<lambda>st.
         rbind (getLRUEntry c (unat st)) (\<lambda>p.
         rbind (getTag c pc history) (\<lambda>tag.
         rbind (bc_write c (fst p) (snd p)
           (\<lambda>e. e\<lparr>pe_tag := tag, pe_distance := distance, pe_counter := bc_maxCounterValue c\<rparr>)) (\<lambda>c.
         updateLRU c p))))
     | Some p \<Rightarrow>
         rbind (bc_write c (fst p) (snd p)
           (\<lambda>e. e\<lparr>pe_distance := distance, pe_counter := bc_maxCounterValue c\<rparr>)) (\<lambda>c. updateLRU c p))"

definition bc_updateCommit :: "blk_cache \<Rightarrow> u64 \<Rightarrow> u64 \<Rightarrow> bool \<Rightarrow> blk_cache res" where
  "bc_updateCommit c pc history predictionWrong =
     rbind (findEntry c pc history) (\<lambda>r. case r of None \<Rightarrow> Inr c
     | Some p \<Rightarrow> rbind (bc_read c (fst p) (snd p)) (\<lambda>e.
         if pe_counter e = 0 then Inr c
         else rbind (bc_write c (fst p) (snd p)
                (\<lambda>e. if predictionWrong
                     then (if pe_counter e > 0 then e\<lparr>pe_counter := pe_counter e - 1\<rparr> else e)
                     else e\<lparr>pe_counter := bc_maxCounterValue c\<rparr>)) (\<lambda>c. updateLRU c p)))"

definition bc_clear :: "blk_cache \<Rightarrow> blk_cache res" where
  "bc_clear c = rfold (\<lambda>i. rfold (\<lambda>j c. bc_write c i j (\<lambda>_. zero_entry)) [0 ..< bc_associativity c])
     [0 ..< 2 ^ bc_setBits c] c"

section \<open>The predictor\<close>

record phast =
  ph_selectedTargetBits :: nat
  ph_selectedTargetMask :: u64
  ph_depCheckShift :: nat
  ph_maxBranches :: nat
  ph_historySizes :: "nat list"
  ph_paths :: "blk_cache list"
  ph_falseDependencies :: nat
  ph_correctPredictions :: nat
  ph_pathReads :: "nat list"
  ph_pathWrites :: "nat list"

text \<open>\<^verbatim>\<open>(unsigned)log2((double)n)\<close>\<close>

fun log2_floor :: "nat \<Rightarrow> nat" where
  "log2_floor n = (if n \<le> 1 then 0 else Suc (log2_floor (n div 2)))"

declare log2_floor.simps [simp del]

definition ph_init :: "u64 \<Rightarrow> nat \<Rightarrow> nat \<Rightarrow> u32 \<Rightarrow> nat \<Rightarrow> phast res" where
  "ph_init num_rows assoc tag_bits max_counter depCheckShift =
     rbind (check (isPowerOf2 num_rows) Assertion) (\<lambda>_.
     let historySizes = [0, 2, 4, 6, 8, 12, 16, 32]; set_bits = log2_floor (unat num_rows) in
     Inr \<lparr>ph_selectedTargetBits = 5, ph_selectedTargetMask = push_bit 5 1 - 1, ph_depCheckShift = depCheckShift,
       ph_maxBranches = 0, ph_historySizes = historySizes,
       ph_paths = map (\<lambda>_. bc_init set_bits assoc tag_bits max_counter) historySizes,
       ph_falseDependencies = 0, ph_correctPredictions = 0,
       ph_pathReads = replicate 8 0, ph_pathWrites = replicate 8 0\<rparr>)"

text \<open>\<^verbatim>\<open>foldHistory\<close>: the bit set has 500 bits (\<^verbatim>\<open>BITSETSIZE\<close>).\<close>

type_synonym bitset500 = "500 word"

definition ull_mask :: "nat \<Rightarrow> bitset500" where
  "ull_mask width = ucast (push_bit width (1 :: u64) - 1)"

function foldHistory_loop :: "nat \<Rightarrow> bitset500 \<Rightarrow> nat \<Rightarrow> u64 \<Rightarrow> u64 res" where
  "foldHistory_loop width h nbits hash =
     (if width \<le> nbits
      then if width = 0 then Inl Diverges
           else foldHistory_loop width (drop_bit width h) (nbits - width) (hash XOR ucast (h AND ull_mask width))
      else Inr (hash XOR ucast (h AND ull_mask nbits)))"
  by auto

termination foldHistory_loop
  by (relation "measure (\<lambda>(_, _, n, _). n)") auto

declare foldHistory_loop.simps [simp del]

definition foldHistory :: "bitset500 \<Rightarrow> nat \<Rightarrow> nat \<Rightarrow> nat \<Rightarrow> u64 res" where
  "foldHistory h nbits setBits tagBits = foldHistory_loop (setBits + tagBits) h nbits 0"

text \<open>
  The loop of \<^verbatim>\<open>generateBranchHash\<close> counts an unsigned index down. Its first argument is the
  index plus one, so that zero stands for the wrapped index \<^verbatim>\<open>UINT_MAX\<close>, which is beyond the history.
\<close>

fun hash_loop :: "phast \<Rightarrow> branch_history \<Rightarrow> nat \<Rightarrow> nat \<Rightarrow> nat \<Rightarrow> nat \<Rightarrow> bitset500 \<Rightarrow> nat \<Rightarrow> (bitset500 \<times> nat) res" where
  "hash_loop p bh start num_branches 0 hist_items h nbits =
     (if hist_items < num_branches then Inl OutOfRange else Inr (h, nbits))"
| "hash_loop p bh start num_branches (Suc indx) hist_items h nbits =
     (if start \<le> indx \<and> hist_items < num_branches
      then rbind (vget bh indx) (\<lambda>b.
        if \<not> bi_indirect b
        then hash_loop p bh start num_branches indx (hist_items + 1)
               (push_bit 1 h OR (if bi_taken b then 1 else 0)) (nbits + 1)
        else if ph_selectedTargetMask p \<noteq> 0
        then hash_loop p bh start num_branches indx (hist_items + 1)
               (push_bit (ph_selectedTargetBits p) h XOR ucast (bi_target b AND ph_selectedTargetMask p))
               (nbits + ph_selectedTargetBits p)
        else hash_loop p bh start num_branches indx hist_items h nbits)
      else Inr (h, nbits))"

definition generateBranchHash :: "phast \<Rightarrow> nat \<Rightarrow> nat \<Rightarrow> branch_history \<Rightarrow> nat \<Rightarrow> u64 res" where
  "generateBranchHash p path_index num_branches bh start_indx =
     (let end_indx = start_indx + num_branches in
      if length bh \<le> end_indx then Inr 0
      else rbind (vget bh end_indx) (\<lambda>b.
           rbind (hash_loop p bh start_indx num_branches end_indx 0
             (ucast (bi_target b AND ph_selectedTargetMask p)) 60) (\<lambda>(h, nbits).
           rbind (vget (ph_paths p) path_index) (\<lambda>c.
             foldHistory h nbits (bc_setBits c) (bc_tagBits c)))))"

fun begin_index :: "branch_history \<Rightarrow> seqnum \<Rightarrow> nat" where
  "begin_index [] load_seq_num = 0"
| "begin_index (b # bh) load_seq_num = (if bi_seqNum b > load_seq_num then Suc (begin_index bh load_seq_num) else 0)"

text \<open>\<^verbatim>\<open>for (i = 0; historySizes[i] <= branchHistory.size(); i++);\<close>\<close>

fun first_larger :: "nat list \<Rightarrow> nat \<Rightarrow> nat res" where
  "first_larger [] n = Inl OutOfRange"
| "first_larger (s # ss) n = (if s \<le> n then rbind (first_larger ss n) (\<lambda>i. Inr (Suc i)) else Inr 0)"

definition vbump :: "nat list \<Rightarrow> nat \<Rightarrow> nat list res" where
  "vbump xs i = rbind (vget xs i) (\<lambda>n. vset xs i (n + 1))"

definition ph_set_path :: "phast \<Rightarrow> nat \<Rightarrow> blk_cache \<Rightarrow> phast res" where
  "ph_set_path p i c = rbind (vset (ph_paths p) i c) (\<lambda>cs. Inr (p\<lparr>ph_paths := cs\<rparr>))"

definition ph_count_read :: "phast \<Rightarrow> nat \<Rightarrow> phast res" where
  "ph_count_read p i = rbind (vbump (ph_pathReads p) i) (\<lambda>v. Inr (p\<lparr>ph_pathReads := v\<rparr>))"

definition ph_count_write :: "phast \<Rightarrow> nat \<Rightarrow> phast res" where
  "ph_count_write p i = rbind (vbump (ph_pathWrites p) i) (\<lambda>v. Inr (p\<lparr>ph_pathWrites := v\<rparr>))"

text \<open>The loop over the paths in \<^verbatim>\<open>checkInst\<close>, from path \<open>i\<close> on with \<open>n\<close> paths left.\<close>

fun check_paths :: "nat \<Rightarrow> nat \<Rightarrow> u64 \<Rightarrow> branch_history \<Rightarrow> nat \<Rightarrow> phast \<Rightarrow> (prediction_result \<times> phast) res" where
  "check_paths 0 i load_pc bh begin_ix p = Inr (no_prediction, p)"
| "check_paths (Suc n) i load_pc bh begin_ix p =
     (if i \<le> ph_maxBranches p
      then rbind (vget (ph_historySizes p) i) (\<lambda>hs.
           rbind (generateBranchHash p i hs bh begin_ix) (\<lambda>hash.
           rbind (vget (ph_paths p) i) (\<lambda>c.
           rbind (bc_predict c load_pc hash) (\<lambda>(distance, c).
           rbind (ph_set_path p i c) (\<lambda>p.
             if distance \<noteq> 0
             then rbind (ph_count_write p i) (\<lambda>p.
                  Inr (no_prediction\<lparr>pr_storeQueueDistance := distance, pr_predBranchHistLength := i,
                       pr_predictorHash := hash\<rparr>, p))
             else check_paths n (i + 1) load_pc bh begin_ix p)))))
      else Inr (no_prediction, p))"

definition ph_checkInst :: "u64 \<Rightarrow> seqnum \<Rightarrow> branch_history \<Rightarrow> bool \<Rightarrow> phast \<Rightarrow> (prediction_result \<times> phast) res" where
  "ph_checkInst load_pc load_seq_num bh isLoad p =
     (if \<not> isLoad then Inr (no_prediction, p)
      else if length bh = 0 then Inr (no_prediction, p)
      else let begin_ix = begin_index bh load_seq_num in
        if length bh < begin_ix then Inr (no_prediction, p)
        else rbind (vget (ph_historySizes p) (ph_maxBranches p)) (\<lambda>hs.
             rbind (if length bh < hs
                    then rbind (first_larger (ph_historySizes p) (length bh)) (\<lambda>i.
                         Inr (p\<lparr>ph_maxBranches := (if i = 0 then 2 ^ 32 - 1 else i - 1)\<rparr>))
                    else Inr p) (\<lambda>p.
             check_paths (length (ph_historySizes p)) 0 load_pc bh begin_ix p)))"

text \<open>The \<^verbatim>\<open>do\<close> loop of \<^verbatim>\<open>violation\<close>: the number of branches it steps over.\<close>

fun branches_to_store :: "branch_history \<Rightarrow> seqnum \<Rightarrow> nat" where
  "branches_to_store [] store_seq_num = 0"
| "branches_to_store (b # bh) store_seq_num =
     Suc (if bh \<noteq> [] \<and> bi_seqNum b > store_seq_num then branches_to_store bh store_seq_num else 0)"

text \<open>The first index from \<open>i\<close> on whose size exceeds \<open>n\<close>, stepped back by one; the loop
  leaves \<open>i\<close> at the end and \<open>n\<close> unchanged when there is none.\<close>

fun quantise :: "nat list \<Rightarrow> nat \<Rightarrow> nat \<Rightarrow> nat \<Rightarrow> nat \<times> nat" where
  "quantise ss i n 0 = (i, n)"
| "quantise ss i n (Suc k) =
     (if i < length ss then if n < ss ! i then (i - 1, ss ! (i - 1)) else quantise ss (i + 1) n k else (i, n))"

definition quantise_branches :: "nat list \<Rightarrow> nat \<Rightarrow> (nat \<times> nat) res" where
  "quantise_branches ss n = (if ss = [] then Inl OutOfRange
     else Inr (if last ss \<le> n then (length ss - 1, last ss) else quantise ss 1 n (length ss)))"

definition ph_updateCommit_path :: "u64 \<Rightarrow> nat \<Rightarrow> u64 \<Rightarrow> bool \<Rightarrow> phast \<Rightarrow> phast res" where
  "ph_updateCommit_path load_pc i hash wrong p =
     rbind (vget (ph_paths p) i) (\<lambda>c. rbind (bc_updateCommit c load_pc hash wrong) (ph_set_path p i))"

text \<open>A load that was given a prediction but violated anyway loses confidence in it.\<close>

definition ph_demote :: "u64 \<Rightarrow> bool \<Rightarrow> nat \<Rightarrow> u64 \<Rightarrow> phast \<Rightarrow> phast res" where
  "ph_demote load_pc predicted predictedPathIndex predictedHash p =
     (if predicted
      then rbind (ph_updateCommit_path load_pc predictedPathIndex predictedHash True p) (\<lambda>p.
           let p = p\<lparr>ph_falseDependencies := ph_falseDependencies p + 1\<rparr> in
           rbind (ph_count_read p predictedPathIndex) (\<lambda>p. ph_count_write p predictedPathIndex))
      else Inr p)"

definition ph_violation ::
  "u64 \<Rightarrow> seqnum \<Rightarrow> int \<Rightarrow> bool \<Rightarrow> nat \<Rightarrow> u64 \<Rightarrow> branch_history \<Rightarrow> phast \<Rightarrow> phast res" where
  "ph_violation load_pc store_seq_num storeQueueDistance predicted predictedPathIndex predictedHash bh p =
     (if bh = [] \<or> bi_seqNum (last bh) > store_seq_num then Inr p
      else let num_branches = branches_to_store bh store_seq_num in
        rbind (quantise_branches (ph_historySizes p) num_branches) (\<lambda>(i, num_branches).
        rbind (ph_demote load_pc predicted predictedPathIndex predictedHash p) (\<lambda>p.
        rbind (generateBranchHash p i num_branches bh 0) (\<lambda>path_hash.
        rbind (vget (ph_paths p) i) (\<lambda>c.
        rbind (bc_update c load_pc path_hash storeQueueDistance) (\<lambda>c.
        rbind (ph_set_path p i c) (\<lambda>p.
        let p = p\<lparr>ph_maxBranches := max (ph_maxBranches p) i\<rparr> in
        rbind (ph_count_read p i) (\<lambda>p. ph_count_write p i))))))))"

definition ph_commit :: "u64 \<Rightarrow> u64 \<Rightarrow> u32 \<Rightarrow> u64 \<Rightarrow> u32 \<Rightarrow> nat \<Rightarrow> u64 \<Rightarrow> phast \<Rightarrow> phast res" where
  "ph_commit load_pc load_addr load_size store_addr store_size path_index predictor_hash p =
     (let sh = ph_depCheckShift p;
          load_eff_addr1 = drop_bit sh load_addr;
          load_eff_addr2 = drop_bit sh (load_addr + ucast load_size - 1);
          store_eff_addr1 = drop_bit sh store_addr;
          store_eff_addr2 = drop_bit sh (store_addr + ucast store_size - 1);
          misprediction = (\<not> (load_eff_addr1 \<le> store_eff_addr2 \<and> store_eff_addr1 \<le> load_eff_addr2));
          p = (if misprediction then p\<lparr>ph_falseDependencies := ph_falseDependencies p + 1\<rparr>
               else p\<lparr>ph_correctPredictions := ph_correctPredictions p + 1\<rparr>)
      in rbind (ph_updateCommit_path load_pc path_index predictor_hash misprediction p) (\<lambda>p.
         rbind (ph_count_read p path_index) (\<lambda>p. ph_count_write p path_index)))"

definition ph_clear :: "phast \<Rightarrow> phast res" where
  "ph_clear p = rfold (\<lambda>i p. rbind (vget (ph_paths p) i) (\<lambda>c. rbind (bc_clear c) (ph_set_path p i)))
     [0 ..< length (ph_paths p)] (p\<lparr>ph_maxBranches := 0\<rparr>)"

section \<open>Folding\<close>

lemma fold_mask_eq: "sz \<le> 31 \<Longrightarrow> fold_mask sz = mask sz"
proof (rule bit_word_eqI)
  fix n assume a: "sz \<le> 31" "n < LENGTH(64)"
  have "(push_bit sz 1 :: u32) - 1 = mask sz" by (simp add: mask_eq_decr_exp push_bit_eq_mult)
  then show "bit (fold_mask sz) n = bit (mask sz :: u64) n"
    using a by (auto simp: fold_mask_def bit_signed_iff bit_mask_iff min_def)
qed

lemma take_bit_xor_mask: "take_bit sz (fd :: u64) = fd \<Longrightarrow> take_bit sz (fd XOR (h AND mask sz)) = fd XOR (h AND mask sz)"
  by (simp flip: take_bit_eq_mask)

lemma xorFold_loop_total:
  assumes "0 < sz" "take_bit sz fd = fd"
  shows "\<exists>r. xorFold_loop sz (mask sz) h fd = Inr r \<and> take_bit sz r = r"
  using assms
proof (induction sz "mask sz :: u64" h fd rule: xorFold_loop.induct)
  case (1 sz h fd)
  show ?case
  proof (cases "h = 0")
    case True
    then show ?thesis using 1 by (subst xorFold_loop.simps) simp
  next
    case False
    then show ?thesis using 1 take_bit_xor_mask [OF 1(3)] by (subst xorFold_loop.simps) simp
  qed
qed

lemma unat_take_bit_less: "take_bit n (w :: u64) = w \<Longrightarrow> unat w < 2 ^ n"
proof -
  assume a: "take_bit n w = w"
  have "unat (take_bit n w) = take_bit n (unat w)" by (simp add: unsigned_take_bit_eq)
  then show ?thesis using take_bit_nat_less_exp [of n "unat w"] a by simp
qed

lemma xorFold_total:
  assumes "0 < sz" "sz \<le> 31"
  shows "\<exists>r. xorFold pc h sz = Inr r \<and> unat r < 2 ^ sz"
proof -
  have "take_bit sz ((h AND mask sz) XOR (pc AND mask sz)) = (h AND mask sz) XOR (pc AND mask sz)"
    by (simp flip: take_bit_eq_mask)
  from xorFold_loop_total [OF assms(1) this, of "drop_bit sz h"] show ?thesis
    using unat_take_bit_less by (auto simp: xorFold_def Let_def fold_mask_eq [OF assms(2)])
qed

lemma xorFold_zero_diverges: "h \<noteq> 0 \<Longrightarrow> xorFold pc h 0 = Inl Diverges"
  by (simp add: xorFold_def Let_def) (subst xorFold_loop.simps, simp)

section \<open>Entries of a table\<close>

definition bc_wf :: "blk_cache \<Rightarrow> bool" where
  "bc_wf c \<longleftrightarrow> 0 < bc_setBits c \<and> bc_setBits c \<le> 31 \<and> 0 < bc_tagBits c \<and> bc_tagBits c \<le> 31 \<and>
     0 < bc_associativity c \<and> length (bc_cache c) = 2 ^ bc_setBits c \<and>
     (\<forall>row\<in>set (bc_cache c). length row = bc_associativity c)"

definition ent :: "blk_cache \<Rightarrow> nat \<Rightarrow> nat \<Rightarrow> phast_entry" where
  "ent c st w = bc_cache c ! st ! w"

definition bc_put :: "blk_cache \<Rightarrow> nat \<Rightarrow> nat \<Rightarrow> phast_entry \<Rightarrow> blk_cache" where
  "bc_put c st w e = c\<lparr>bc_cache := (bc_cache c)[st := (bc_cache c ! st)[w := e]]\<rparr>"

lemma bc_wf_row: "bc_wf c \<Longrightarrow> st < 2 ^ bc_setBits c \<Longrightarrow> length (bc_cache c ! st) = bc_associativity c"
  by (simp add: bc_wf_def)

lemma bc_put_dims [simp]:
  "bc_setBits (bc_put c st w e) = bc_setBits c" "bc_tagBits (bc_put c st w e) = bc_tagBits c"
  "bc_associativity (bc_put c st w e) = bc_associativity c" "bc_lruCounter (bc_put c st w e) = bc_lruCounter c"
  "bc_maxCounterValue (bc_put c st w e) = bc_maxCounterValue c"
  by (simp_all add: bc_put_def)

lemma bc_put_wf: "bc_wf c \<Longrightarrow> st < 2 ^ bc_setBits c \<Longrightarrow> bc_wf (bc_put c st w e)"
  by (auto simp: bc_wf_def bc_put_def dest!: set_update_subset_insert [THEN subsetD])

lemma bc_wf_lru [simp]: "bc_wf (c\<lparr>bc_lruCounter := n\<rparr>) = bc_wf c"
  by (simp add: bc_wf_def)

lemma ent_lru [simp]: "ent (c\<lparr>bc_lruCounter := n\<rparr>) st w = ent c st w"
  by (simp add: ent_def)

lemma ent_put:
  "bc_wf c \<Longrightarrow> st < 2 ^ bc_setBits c \<Longrightarrow> w < bc_associativity c \<Longrightarrow>
   ent (bc_put c st w e) st' w' = (if st = st' \<and> w = w' then e else ent c st' w')"
  by (auto simp: ent_def bc_put_def bc_wf_def nth_list_update)

lemma bc_read_ok: "bc_wf c \<Longrightarrow> st < 2 ^ bc_setBits c \<Longrightarrow> w < bc_associativity c \<Longrightarrow> bc_read c st w = Inr (ent c st w)"
  by (simp add: bc_read_def ent_def bc_wf_row) (simp add: bc_wf_def)

lemma bc_write_ok:
  "bc_wf c \<Longrightarrow> st < 2 ^ bc_setBits c \<Longrightarrow> w < bc_associativity c \<Longrightarrow>
   bc_write c st w f = Inr (bc_put c st w (f (ent c st w)))"
  by (simp add: bc_write_def ent_def bc_wf_row bc_put_def) (simp add: bc_wf_def)

lemma updateLRU_ok:
  assumes "bc_wf c" "st < 2 ^ bc_setBits c" "w < bc_associativity c"
  shows "updateLRU c (st, w) =
    Inr ((bc_put c st w ((ent c st w)\<lparr>pe_lru := ucast (bc_lruCounter c)\<rparr>))\<lparr>bc_lruCounter := bc_lruCounter c + 1\<rparr>)"
  using assms by (simp add: updateLRU_def bc_write_ok)

lemma bc_put_put: "bc_wf c \<Longrightarrow> st < 2 ^ bc_setBits c \<Longrightarrow> bc_put (bc_put c st w e) st w e' = bc_put c st w e'"
  by (simp add: bc_put_def bc_wf_def)

lemma find_way_find:
  assumes "bc_wf c" "st < 2 ^ bc_setBits c" "i + n \<le> bc_associativity c"
  shows "find_way c st tag i n = Inr (List.find (\<lambda>j. pe_tag (ent c st j) = tag) [i ..< i + n])"
  using assms(3)
proof (induction n arbitrary: i)
  case (Suc n)
  have "[i ..< i + Suc n] = i # [i + 1 ..< i + 1 + n]" by (simp add: upt_conv_Cons del: upt_Suc)
  then show ?case using Suc.IH [of "i + 1"] Suc.prems assms by (simp add: bc_read_ok del: upt_Suc)
qed simp

lemma find_unique: "w \<in> set xs \<Longrightarrow> (\<And>j. j \<in> set xs \<Longrightarrow> P j \<longleftrightarrow> j = w) \<Longrightarrow> List.find P xs = Some w"
  by (induction xs) auto

lemma find_range: "List.find P [0 ..< n] = Some w \<Longrightarrow> w < n \<and> P w"
  by (auto simp: find_Some_iff)

text \<open>Where a lookup lands: the set and the tag are functions of the address, the history and the widths.\<close>

definition slot_of :: "blk_cache \<Rightarrow> u64 \<Rightarrow> u64 \<Rightarrow> nat" where
  "slot_of c pc h = (case getIndex c pc h of Inr st \<Rightarrow> unat st | Inl _ \<Rightarrow> 0)"

definition tag_of :: "blk_cache \<Rightarrow> u64 \<Rightarrow> u64 \<Rightarrow> u64" where
  "tag_of c pc h = (case getTag c pc h of Inr t \<Rightarrow> t | Inl _ \<Rightarrow> 0)"

definition way_of :: "blk_cache \<Rightarrow> u64 \<Rightarrow> u64 \<Rightarrow> nat option" where
  "way_of c pc h = List.find (\<lambda>j. pe_tag (ent c (slot_of c pc h) j) = tag_of c pc h) [0 ..< bc_associativity c]"

lemma getIndex_ok: "bc_wf c \<Longrightarrow> \<exists>st. getIndex c pc h = Inr st \<and> unat st = slot_of c pc h \<and> slot_of c pc h < 2 ^ bc_setBits c"
  using xorFold_total [of "bc_setBits c" 0 "getIndex_mix pc XOR h"]
  by (auto simp: getIndex_def slot_of_def bc_wf_def)

lemma getTag_ok: "bc_wf c \<Longrightarrow> getTag c pc h = Inr (tag_of c pc h)"
  using xorFold_total [of "bc_tagBits c" 0 "getTag_mix pc XOR h"]
  by (auto simp: getTag_def tag_of_def bc_wf_def)

lemma slot_bound: "bc_wf c \<Longrightarrow> slot_of c pc h < 2 ^ bc_setBits c"
  using getIndex_ok by blast

lemma findEntry_ok:
  assumes "bc_wf c"
  shows "findEntry c pc h = Inr (map_option (Pair (slot_of c pc h)) (way_of c pc h))"
proof -
  from getIndex_ok [OF assms, of pc h] obtain st where
    st: "getIndex c pc h = Inr st" "unat st = slot_of c pc h" "slot_of c pc h < 2 ^ bc_setBits c" by blast
  show ?thesis
    using st getTag_ok [OF assms, of pc h] find_way_find [OF assms st(3), of 0 "bc_associativity c" "tag_of c pc h"]
    by (auto simp: findEntry_def way_of_def split: option.splits)
qed

lemma way_bound: "way_of c pc h = Some w \<Longrightarrow> w < bc_associativity c \<and> pe_tag (ent c (slot_of c pc h) w) = tag_of c pc h"
  unfolding way_of_def by (rule find_range)

lemma slot_tag_cong:
  "bc_setBits c' = bc_setBits c \<Longrightarrow> slot_of c' pc h = slot_of c pc h"
  "bc_tagBits c' = bc_tagBits c \<Longrightarrow> tag_of c' pc h = tag_of c pc h"
  by (simp_all add: slot_of_def tag_of_def getIndex_def getTag_def)

lemma lru_way_spec:
  assumes "bc_wf c" "st < 2 ^ bc_setBits c" "i + n \<le> bc_associativity c" "best < bc_associativity c"
  shows "\<exists>w. lru_way c st best (ucast (pe_lru (ent c st best))) i n = Inr w \<and> w < bc_associativity c \<and>
    pe_lru (ent c st w) \<le> pe_lru (ent c st best) \<and> (\<forall>j. i \<le> j \<and> j < i + n \<longrightarrow> pe_lru (ent c st w) \<le> pe_lru (ent c st j))"
  using assms(3,4)
proof (induction n arbitrary: i best)
  case (Suc n)
  have r: "bc_read c st i = Inr (ent c st i)" using assms Suc.prems by (intro bc_read_ok) auto
  have uc: "ucast (pe_lru (ent c st i)) < (ucast (pe_lru (ent c st best)) :: u64) \<longleftrightarrow> pe_lru (ent c st i) < pe_lru (ent c st best)"
    using u32_unat_lt [of "pe_lru (ent c st i)"] u32_unat_lt [of "pe_lru (ent c st best)"]
    by (simp add: word_less_nat_alt unat_ucast)
  define b where "b = (if pe_lru (ent c st i) < pe_lru (ent c st best) then i else best)"
  have eq: "lru_way c st best (ucast (pe_lru (ent c st best))) i (Suc n) =
      lru_way c st b (ucast (pe_lru (ent c st b))) (i + 1) n"
    using r uc by (simp add: b_def)
  have bb: "i + 1 + n \<le> bc_associativity c" "b < bc_associativity c" using Suc.prems by (auto simp: b_def)
  from Suc.IH [OF bb] obtain w where
    w: "lru_way c st b (ucast (pe_lru (ent c st b))) (i + 1) n = Inr w" "w < bc_associativity c"
      "pe_lru (ent c st w) \<le> pe_lru (ent c st b)"
      "\<And>j. i + 1 \<le> j \<Longrightarrow> j < i + 1 + n \<Longrightarrow> pe_lru (ent c st w) \<le> pe_lru (ent c st j)" by blast
  have b: "pe_lru (ent c st b) \<le> pe_lru (ent c st best)" "pe_lru (ent c st b) \<le> pe_lru (ent c st i)" by (auto simp: b_def)
  have "pe_lru (ent c st w) \<le> pe_lru (ent c st j)" if "i \<le> j" "j < i + Suc n" for j
  proof (cases "j = i")
    case False
    then show ?thesis using that w(4) [of j] by simp
  qed (use w(3) b(2) in auto)
  then show ?case unfolding eq using w(1-3) b(1) by fastforce
qed auto

lemma getLRUEntry_ok:
  assumes "bc_wf c" "st < 2 ^ bc_setBits c"
  shows "\<exists>w. getLRUEntry c st = Inr (st, w) \<and> w < bc_associativity c \<and>
    (\<forall>j < bc_associativity c. pe_lru (ent c st w) \<le> pe_lru (ent c st j))"
proof -
  have a: "0 < bc_associativity c" using assms(1) by (simp add: bc_wf_def)
  from lru_way_spec [OF assms, of 0 "bc_associativity c" 0] a bc_read_ok [OF assms a] show ?thesis
    by (auto simp: getLRUEntry_def)
qed

section \<open>What the table operations do to the entry of a lookup\<close>

lemma way_of_put:
  assumes "bc_wf c" "way_of c pc h = Some w" "pe_tag e = pe_tag (ent c (slot_of c pc h) w)"
  shows "way_of ((bc_put c (slot_of c pc h) w e)\<lparr>bc_lruCounter := n\<rparr>) pc h = Some w"
proof -
  let ?s = "slot_of c pc h"
  let ?c = "(bc_put c ?s w e)\<lparr>bc_lruCounter := n\<rparr>"
  have eq: "slot_of ?c pc h = ?s" "tag_of ?c pc h = tag_of c pc h" by (rule slot_tag_cong, simp)+
  have "pe_tag (ent ?c ?s j) = pe_tag (ent c ?s j)" for j
    using assms way_bound [OF assms(2)] by (auto simp: ent_put slot_bound)
  then show ?thesis using assms(2) by (simp add: way_of_def eq)
qed

lemma bc_update_ok:
  assumes "bc_wf c"
  shows "\<exists>c' w. bc_update c pc h d = Inr c' \<and> bc_wf c' \<and> way_of c' pc h = Some w \<and>
    (case way_of c pc h of Some w' \<Rightarrow> w = w'
     | None \<Rightarrow> \<forall>j < bc_associativity c. pe_lru (ent c (slot_of c pc h) w) \<le> pe_lru (ent c (slot_of c pc h) j)) \<and>
    ent c' (slot_of c pc h) w =
      \<lparr>pe_tag = tag_of c pc h, pe_distance = d, pe_lru = ucast (bc_lruCounter c), pe_counter = bc_maxCounterValue c\<rparr> \<and>
    (\<forall>st j. (st, j) \<noteq> (slot_of c pc h, w) \<longrightarrow> ent c' st j = ent c st j) \<and>
    bc_setBits c' = bc_setBits c \<and> bc_tagBits c' = bc_tagBits c \<and> bc_maxCounterValue c' = bc_maxCounterValue c"
proof -
  let ?s = "slot_of c pc h"
  let ?e = "\<lparr>pe_tag = tag_of c pc h, pe_distance = d, pe_lru = ucast (bc_lruCounter c), pe_counter = bc_maxCounterValue c\<rparr>"
  note sb = slot_bound [OF assms, of pc h]
  show ?thesis
  proof (cases "way_of c pc h")
    case (Some w)
    let ?c = "(bc_put c ?s w ?e)\<lparr>bc_lruCounter := bc_lruCounter c + 1\<rparr>"
    note wb = way_bound [OF Some]
    have e: "?e = (ent c ?s w)\<lparr>pe_distance := d, pe_counter := bc_maxCounterValue c, pe_lru := ucast (bc_lruCounter c)\<rparr>"
      using wb by (cases "ent c ?s w") simp
    have "bc_update c pc h d = Inr ?c"
      unfolding e using wb Some assms sb bc_put_wf [OF assms sb]
      by (simp add: bc_update_def findEntry_ok bc_write_ok updateLRU_ok ent_put bc_put_put)
    moreover have "way_of ?c pc h = Some w" by (rule way_of_put [OF assms Some]) (use wb in simp)
    ultimately show ?thesis using assms sb wb Some bc_put_wf [OF assms sb, of w ?e]
      by (intro exI [of _ ?c] exI [of _ w]) (auto simp: ent_put)
  next
    case None
    from getLRUEntry_ok [OF assms sb] obtain w where
      w: "getLRUEntry c ?s = Inr (?s, w)" "w < bc_associativity c"
        "\<forall>j < bc_associativity c. pe_lru (ent c ?s w) \<le> pe_lru (ent c ?s j)" by blast
    from getIndex_ok [OF assms, of pc h] obtain st where st: "getIndex c pc h = Inr st" "unat st = ?s" by blast
    let ?c = "(bc_put c ?s w ?e)\<lparr>bc_lruCounter := bc_lruCounter c + 1\<rparr>"
    have e: "?e = (ent c ?s w)\<lparr>pe_tag := tag_of c pc h, pe_distance := d, pe_counter := bc_maxCounterValue c,
        pe_lru := ucast (bc_lruCounter c)\<rparr>"
      by (cases "ent c ?s w") simp
    have "bc_update c pc h d = Inr ?c"
      unfolding e using w None assms sb st getTag_ok [OF assms, of pc h] bc_put_wf [OF assms sb]
      by (simp add: bc_update_def findEntry_ok bc_write_ok updateLRU_ok ent_put bc_put_put)
    moreover have "way_of ?c pc h = Some w"
    proof -
      have eq: "slot_of ?c pc h = ?s" "tag_of ?c pc h = tag_of c pc h" by (rule slot_tag_cong, simp)+
      have "pe_tag (ent c ?s j) \<noteq> tag_of c pc h" if "j < bc_associativity c" for j
        using None that by (auto simp: way_of_def find_None_iff)
      then show ?thesis using w(2) assms sb unfolding way_of_def eq by (intro find_unique) (auto simp: ent_put)
    qed
    ultimately show ?thesis using assms sb w None bc_put_wf [OF assms sb, of w ?e]
      by (intro exI [of _ ?c] exI [of _ w]) (auto simp: ent_put)
  qed
qed

lemma bc_predict_ok:
  assumes "bc_wf c"
  shows "\<exists>c'. bc_predict c pc h = Inr
      ((case way_of c pc h of None \<Rightarrow> 0
        | Some w \<Rightarrow> let e = ent c (slot_of c pc h) w in if pe_counter e = 0 then 0 else pe_distance e), c') \<and>
    bc_wf c' \<and> bc_setBits c' = bc_setBits c \<and> bc_tagBits c' = bc_tagBits c \<and>
    bc_maxCounterValue c' = bc_maxCounterValue c \<and> bc_associativity c' = bc_associativity c \<and>
    (\<forall>st j. pe_tag (ent c' st j) = pe_tag (ent c st j) \<and> pe_distance (ent c' st j) = pe_distance (ent c st j) \<and>
       pe_counter (ent c' st j) = pe_counter (ent c st j))"
proof -
  let ?s = "slot_of c pc h"
  note sb = slot_bound [OF assms, of pc h]
  show ?thesis
  proof (cases "way_of c pc h")
    case None
    then show ?thesis using assms by (simp add: bc_predict_def findEntry_ok)
  next
    case (Some w)
    note wb = way_bound [OF Some]
    let ?c = "(bc_put c ?s w ((ent c ?s w)\<lparr>pe_lru := ucast (bc_lruCounter c)\<rparr>))\<lparr>bc_lruCounter := bc_lruCounter c + 1\<rparr>"
    show ?thesis
    proof (cases "pe_counter (ent c ?s w) = 0 \<or> pe_distance (ent c ?s w) = 0")
      case True
      then show ?thesis using assms wb Some sb by (intro exI [of _ c]) (auto simp: bc_predict_def findEntry_ok bc_read_ok Let_def)
    next
      case False
      then show ?thesis using assms wb Some sb bc_put_wf [OF assms sb, of w]
        by (intro exI [of _ ?c]) (simp add: bc_predict_def findEntry_ok bc_read_ok updateLRU_ok ent_put Let_def)
    qed
  qed
qed

lemma bc_updateCommit_ok:
  assumes "bc_wf c" "way_of c pc h = Some w" "pe_counter (ent c (slot_of c pc h) w) \<noteq> 0"
  shows "\<exists>c'. bc_updateCommit c pc h wrong = Inr c' \<and> bc_wf c' \<and> way_of c' pc h = Some w \<and>
    slot_of c' pc h = slot_of c pc h \<and> bc_maxCounterValue c' = bc_maxCounterValue c \<and>
    pe_distance (ent c' (slot_of c pc h) w) = pe_distance (ent c (slot_of c pc h) w) \<and>
    pe_counter (ent c' (slot_of c pc h) w) =
      (if wrong then pe_counter (ent c (slot_of c pc h) w) - 1 else bc_maxCounterValue c)"
proof -
  let ?s = "slot_of c pc h"
  note sb = slot_bound [OF assms(1), of pc h] and wb = way_bound [OF assms(2)]
  let ?e = "(ent c ?s w)\<lparr>pe_counter := if wrong then pe_counter (ent c ?s w) - 1 else bc_maxCounterValue c,
    pe_lru := ucast (bc_lruCounter c)\<rparr>"
  let ?c = "(bc_put c ?s w ?e)\<lparr>bc_lruCounter := bc_lruCounter c + 1\<rparr>"
  have "bc_updateCommit c pc h wrong = Inr ?c"
    using assms sb wb bc_put_wf [OF assms(1) sb]
    by (cases wrong) (simp_all add: bc_updateCommit_def findEntry_ok bc_read_ok bc_write_ok updateLRU_ok ent_put
      bc_put_put word_gt_0)
  moreover have "way_of ?c pc h = Some w" by (rule way_of_put [OF assms(1,2)]) simp
  moreover have "slot_of ?c pc h = ?s" by (rule slot_tag_cong) simp
  ultimately show ?thesis using assms(1) sb wb bc_put_wf [OF assms(1) sb, of w ?e]
    by (intro exI [of _ ?c]) (simp add: ent_put)
qed

section \<open>The predictor as a whole\<close>

definition ph_wf :: "phast \<Rightarrow> bool" where
  "ph_wf p \<longleftrightarrow> ph_historySizes p = [0, 2, 4, 6, 8, 12, 16, 32] \<and> length (ph_paths p) = 8 \<and>
     (\<forall>c\<in>set (ph_paths p). bc_wf c) \<and> length (ph_pathReads p) = 8 \<and> length (ph_pathWrites p) = 8 \<and>
     ph_maxBranches p < 8 \<and> ph_selectedTargetMask p \<noteq> 0"

lemma ph_wf_path: "ph_wf p \<Longrightarrow> i < 8 \<Longrightarrow> bc_wf (ph_paths p ! i)"
  by (simp add: ph_wf_def)

lemma foldHistory_loop_total: "0 < width \<Longrightarrow> \<exists>r. foldHistory_loop width h nbits hash = Inr r"
proof (induction width h nbits hash rule: foldHistory_loop.induct)
  case (1 width h nbits hash)
  show ?case
  proof (cases "width \<le> nbits")
    case True
    then show ?thesis using 1 by (subst foldHistory_loop.simps) simp
  next
    case False
    then show ?thesis by (subst foldHistory_loop.simps) simp
  qed
qed

lemma foldHistory_total: "0 < sb + tb \<Longrightarrow> \<exists>r. foldHistory h nbits sb tb = Inr r"
  unfolding foldHistory_def by (rule foldHistory_loop_total)

text \<open>The countdown of \<^verbatim>\<open>generateBranchHash\<close> takes every branch between \<open>start\<close> and the end once and stops before
  its unsigned index is used after it has wrapped.\<close>

lemma hash_loop_total:
  assumes "ph_selectedTargetMask p \<noteq> 0" "k \<le> length bh" "start \<le> k" "k + items = start + num"
  shows "\<exists>r. hash_loop p bh start num k items h nbits = Inr r"
  using assms(2-4)
proof (induction k arbitrary: items h nbits)
  case (Suc k)
  then show ?case using assms(1) by (cases "start \<le> k") auto
qed simp

lemma generateBranchHash_total:
  assumes "ph_wf p" "i < 8"
  shows "\<exists>r. generateBranchHash p i n bh start = Inr r"
proof (cases "length bh \<le> start + n")
  case False
  have m: "ph_selectedTargetMask p \<noteq> 0" using assms(1) by (simp add: ph_wf_def)
  from hash_loop_total [OF m, of "start + n" bh start 0 n "ucast (bi_target (bh ! (start + n)) AND ph_selectedTargetMask p)" 60] False
  obtain h nb where l: "hash_loop p bh start n (start + n) 0 (ucast (bi_target (bh ! (start + n)) AND ph_selectedTargetMask p)) 60 = Inr (h, nb)"
    by auto
  have "0 < bc_setBits (ph_paths p ! i) + bc_tagBits (ph_paths p ! i)"
    using ph_wf_path [OF assms] by (simp add: bc_wf_def)
  from foldHistory_total [OF this, of h nb] show ?thesis
    using False l assms by (auto simp: generateBranchHash_def Let_def ph_wf_def)
qed (simp add: generateBranchHash_def Let_def)

lemma hash_loop_cong:
  assumes "ph_selectedTargetMask p' = ph_selectedTargetMask p" "ph_selectedTargetBits p' = ph_selectedTargetBits p"
  shows "hash_loop p' bh start num k items h nbits = hash_loop p bh start num k items h nbits"
proof (induction k arbitrary: items h nbits)
  case (Suc k)
  then show ?case using assms by (cases "vget bh k") simp_all
qed simp

lemma generateBranchHash_cong:
  assumes "ph_selectedTargetMask p' = ph_selectedTargetMask p" "ph_selectedTargetBits p' = ph_selectedTargetBits p"
    "i < length (ph_paths p)" "i < length (ph_paths p')"
    "bc_setBits (ph_paths p' ! i) = bc_setBits (ph_paths p ! i)" "bc_tagBits (ph_paths p' ! i) = bc_tagBits (ph_paths p ! i)"
  shows "generateBranchHash p' i n bh start = generateBranchHash p i n bh start"
  using assms by (simp add: generateBranchHash_def Let_def hash_loop_cong [OF assms(1,2)])

lemma quantise_sizes:
  "\<exists>i < 8. quantise_branches [0, 2, 4, 6, 8, 12, 16, 32] n = Inr (i, [0, 2, 4, 6, 8, 12, 16, 32] ! i) \<and>
     [0, 2, 4, 6, 8, 12, 16, 32] ! i \<le> n"
proof -
  consider "32 \<le> n" | "n < 2" | "2 \<le> n" "n < 4" | "4 \<le> n" "n < 6" | "6 \<le> n" "n < 8" | "8 \<le> n" "n < 12"
    | "12 \<le> n" "n < 16" | "16 \<le> n" "n < 32" by linarith
  then show ?thesis
  proof cases
    case 1 then show ?thesis by (intro exI [of _ 7]) (simp add: quantise_branches_def)
  next
    case 2 then show ?thesis by (intro exI [of _ 0]) (simp add: quantise_branches_def eval_nat_numeral)
  next
    case 3 then show ?thesis by (intro exI [of _ 1]) (simp add: quantise_branches_def eval_nat_numeral)
  next
    case 4 then show ?thesis by (intro exI [of _ 2]) (simp add: quantise_branches_def eval_nat_numeral)
  next
    case 5 then show ?thesis by (intro exI [of _ 3]) (simp add: quantise_branches_def eval_nat_numeral)
  next
    case 6 then show ?thesis by (intro exI [of _ 4]) (simp add: quantise_branches_def eval_nat_numeral)
  next
    case 7 then show ?thesis by (intro exI [of _ 5]) (simp add: quantise_branches_def eval_nat_numeral)
  next
    case 8 then show ?thesis by (intro exI [of _ 6]) (simp add: quantise_branches_def eval_nat_numeral)
  qed
qed

lemma branches_to_store_le: "branches_to_store bh sn \<le> length bh"
  by (induction bh) auto

lemma ph_set_path_ok: "ph_wf p \<Longrightarrow> i < 8 \<Longrightarrow> bc_wf c \<Longrightarrow>
  ph_set_path p i c = Inr (p\<lparr>ph_paths := (ph_paths p)[i := c]\<rparr>) \<and> ph_wf (p\<lparr>ph_paths := (ph_paths p)[i := c]\<rparr>)"
  by (auto simp: ph_set_path_def ph_wf_def vset_def dest!: set_update_subset_insert [THEN subsetD])

lemma ph_count_ok:
  assumes "ph_wf p" "i < 8"
  shows "\<exists>v. ph_count_read p i = Inr (p\<lparr>ph_pathReads := v\<rparr>) \<and> ph_wf (p\<lparr>ph_pathReads := v\<rparr>)"
    "\<exists>v. ph_count_write p i = Inr (p\<lparr>ph_pathWrites := v\<rparr>) \<and> ph_wf (p\<lparr>ph_pathWrites := v\<rparr>)"
  using assms by (auto simp: ph_count_read_def ph_count_write_def vbump_def ph_wf_def vset_def)

lemma bc_updateCommit_total:
  assumes "bc_wf c"
  shows "\<exists>c'. bc_updateCommit c pc h wrong = Inr c' \<and> bc_wf c'"
proof (cases "way_of c pc h")
  case None
  then show ?thesis using assms by (simp add: bc_updateCommit_def findEntry_ok)
next
  case (Some w)
  show ?thesis
  proof (cases "pe_counter (ent c (slot_of c pc h) w) = 0")
    case True
    then show ?thesis using assms Some way_bound [OF Some] slot_bound [OF assms]
      by (simp add: bc_updateCommit_def findEntry_ok bc_read_ok)
  next
    case False
    from bc_updateCommit_ok [OF assms Some False, of wrong] show ?thesis by blast
  qed
qed

lemma check_paths_total:
  assumes "ph_wf p" "i + n = 8"
  shows "\<exists>r p'. check_paths n i pc bh b p = Inr (r, p') \<and> ph_wf p' \<and> pr_predBranchHistLength r < 8"
  using assms
proof (induction n arbitrary: i p)
  case (Suc n)
  then have i: "i < 8" "i + 1 + n = 8" by simp_all
  from generateBranchHash_total [OF Suc.prems(1) i(1)] obtain hash where
    hash: "generateBranchHash p i (ph_historySizes p ! i) bh b = Inr hash" by blast
  from bc_predict_ok [OF ph_wf_path [OF Suc.prems(1) i(1)], of pc hash] obtain d c where
    c: "bc_predict (ph_paths p ! i) pc hash = Inr (d, c)" "bc_wf c" by blast
  note sp = ph_set_path_ok [OF Suc.prems(1) i(1) c(2)]
  from ph_count_ok(2) [OF conjunct2 [OF sp] i(1)] Suc.IH [OF conjunct2 [OF sp] i(2)] sp hash c(1) Suc.prems(1) i(1)
  show ?case by (auto simp: ph_wf_def no_prediction_def)
qed (simp add: no_prediction_def)

lemma first_larger_sizes:
  "1 \<le> n \<Longrightarrow> n < 32 \<Longrightarrow> \<exists>i. first_larger [0, 2, 4, 6, 8, 12, 16, 32] n = Inr i \<and> 0 < i \<and> i < 8"
  by auto

lemma sizes_le: "i < 8 \<Longrightarrow> [0, 2, 4, 6, 8, 12, 16, 32 :: nat] ! i \<le> 32"
  by (auto simp: less_Suc_eq numeral_eq_Suc)

text \<open>Every operation of the predictor succeeds on a well-formed predictor and leaves one.\<close>

lemma ph_checkInst_total:
  assumes "ph_wf p"
  shows "\<exists>r p'. ph_checkInst pc sn bh ld p = Inr (r, p') \<and> ph_wf p' \<and> pr_predBranchHistLength r < 8"
proof (cases "\<not> ld \<or> bh = [] \<or> length bh < begin_index bh sn")
  case True
  then show ?thesis using assms by (auto simp: ph_checkInst_def Let_def no_prediction_def)
next
  case False
  have hs: "ph_historySizes p = [0, 2, 4, 6, 8, 12, 16, 32]" "ph_maxBranches p < 8" using assms by (simp_all add: ph_wf_def)
  then have len: "length (ph_historySizes p) = 8" by simp
  define size_ok where "size_ok = (ph_historySizes p ! ph_maxBranches p \<le> length bh)"
  show ?thesis
  proof (cases size_ok)
    case True
    then show ?thesis using False hs(2) len check_paths_total [OF assms, of 0 8 pc bh "begin_index bh sn"]
      by (auto simp: ph_checkInst_def Let_def size_ok_def simp del: check_paths.simps)
  next
    case nok: False
    have "length bh < 32" using nok sizes_le [OF hs(2)] hs(1) by (simp add: size_ok_def)
    moreover have "1 \<le> length bh" using False by (cases bh) auto
    ultimately obtain i where i: "first_larger [0, 2, 4, 6, 8, 12, 16, 32] (length bh) = Inr i" "0 < i" "i < 8"
      using first_larger_sizes by blast
    have "ph_wf (p\<lparr>ph_maxBranches := i - 1\<rparr>)" using assms i(2,3) by (simp add: ph_wf_def)
    from check_paths_total [OF this, of 0 8 pc bh "begin_index bh sn"] show ?thesis
      using False hs(2) len nok i unfolding hs(1) [symmetric]
      by (auto simp: ph_checkInst_def Let_def size_ok_def simp del: first_larger.simps check_paths.simps)
  qed
qed

lemma ph_updateCommit_path_total:
  assumes "ph_wf p" "i < 8"
  shows "\<exists>p'. ph_updateCommit_path pc i hash wrong p = Inr p' \<and> ph_wf p'"
proof -
  from bc_updateCommit_total [OF ph_wf_path [OF assms], of pc hash wrong] obtain c where
    "bc_updateCommit (ph_paths p ! i) pc hash wrong = Inr c" "bc_wf c" by blast
  then show ?thesis using ph_set_path_ok [OF assms] assms by (auto simp: ph_updateCommit_path_def ph_wf_def)
qed

lemma ph_counts_total:
  assumes "ph_wf q" "i < 8"
  shows "\<exists>q'. rbind (ph_count_read q i) (\<lambda>p. ph_count_write p i) = Inr q' \<and> ph_wf q'"
proof -
  from ph_count_ok(1) [OF assms] obtain v where
    v: "ph_count_read q i = Inr (q\<lparr>ph_pathReads := v\<rparr>)" "ph_wf (q\<lparr>ph_pathReads := v\<rparr>)" by blast
  from ph_count_ok(2) [OF v(2) assms(2)] v(1) show ?thesis by auto
qed

lemma ph_commit_total:
  assumes "ph_wf p" "i < 8"
  shows "\<exists>p'. ph_commit pc la ls sa ss i hash p = Inr p' \<and> ph_wf p'"
proof -
  have wf: "ph_wf (p\<lparr>ph_falseDependencies := n\<rparr>)" "ph_wf (p\<lparr>ph_correctPredictions := n\<rparr>)" for n
    using assms(1) by (simp_all add: ph_wf_def)
  let ?sh = "drop_bit (ph_depCheckShift p)"
  let ?m = "\<not> (?sh la \<le> ?sh (sa + ucast ss - 1) \<and> ?sh sa \<le> ?sh (la + ucast ls - 1))"
  let ?q = "if ?m then p\<lparr>ph_falseDependencies := ph_falseDependencies p + 1\<rparr>
    else p\<lparr>ph_correctPredictions := ph_correctPredictions p + 1\<rparr>"
  have "ph_wf ?q" using wf by simp
  from ph_updateCommit_path_total [OF this assms(2), of pc hash ?m] obtain q1 where
    q1: "ph_updateCommit_path pc i hash ?m ?q = Inr q1" "ph_wf q1" by blast
  have "ph_commit pc la ls sa ss i hash p =
      rbind (ph_updateCommit_path pc i hash ?m ?q) (\<lambda>p. rbind (ph_count_read p i) (\<lambda>p. ph_count_write p i))"
    by (simp only: ph_commit_def Let_def)
  with ph_counts_total [OF q1(2) assms(2)] show ?thesis unfolding q1(1) rbind_Inr by simp
qed

lemma wf_len: "ph_wf p \<Longrightarrow> length (ph_paths p) = 8"
  by (simp add: ph_wf_def)

lemma ph_demote_total:
  assumes "ph_wf p" "pr \<longrightarrow> pi < 8"
  shows "\<exists>p'. ph_demote pc pr pi phash p = Inr p' \<and> ph_wf p'"
proof (cases pr)
  case True
  then have pi: "pi < 8" using assms(2) by simp
  from ph_updateCommit_path_total [OF assms(1) pi] obtain q where
    q: "ph_updateCommit_path pc pi phash True p = Inr q" "ph_wf q" by blast
  then have "ph_wf (q\<lparr>ph_falseDependencies := ph_falseDependencies q + 1\<rparr>)" by (simp add: ph_wf_def)
  from ph_counts_total [OF this pi] q(1) True show ?thesis by (simp add: ph_demote_def Let_def)
qed (use assms in \<open>simp add: ph_demote_def\<close>)

lemma ph_violation_total:
  assumes "ph_wf p" "pr \<longrightarrow> pi < 8"
  shows "\<exists>p'. ph_violation pc sn d pr pi phash bh p = Inr p' \<and> ph_wf p'"
proof (cases "bh = [] \<or> bi_seqNum (last bh) > sn")
  case True
  then show ?thesis using assms by (simp add: ph_violation_def)
next
  case False
  from quantise_sizes [of "branches_to_store bh sn"] obtain i where
    i: "i < 8" "quantise_branches (ph_historySizes p) (branches_to_store bh sn) = Inr (i, ph_historySizes p ! i)"
    using assms(1) by (auto simp: ph_wf_def)
  from ph_demote_total [OF assms] obtain p1 where p1: "ph_demote pc pr pi phash p = Inr p1" "ph_wf p1" by blast
  from generateBranchHash_total [OF p1(2) i(1)] obtain hash where
    hash: "generateBranchHash p1 i (ph_historySizes p ! i) bh 0 = Inr hash" by blast
  from bc_update_ok [OF ph_wf_path [OF p1(2) i(1)], of pc hash d] obtain c where
    c: "bc_update (ph_paths p1 ! i) pc hash d = Inr c" "bc_wf c" by blast
  let ?p2 = "p1\<lparr>ph_paths := (ph_paths p1)[i := c]\<rparr>"
  have sp: "ph_set_path p1 i c = Inr ?p2" "ph_wf ?p2" using ph_set_path_ok [OF p1(2) i(1) c(2)] by simp_all
  then have "ph_wf (?p2\<lparr>ph_maxBranches := max (ph_maxBranches ?p2) i\<rparr>)" using i(1) by (simp add: ph_wf_def)
  from ph_counts_total [OF this i(1)] show ?thesis
    using False i p1 hash c(1) sp(1) wf_len [OF p1(2)] by (simp add: ph_violation_def Let_def)
qed

text \<open>Training a predictor without entries and looking the same load up again.\<close>

definition ph_blank :: "phast \<Rightarrow> bool" where
  "ph_blank p \<longleftrightarrow> ph_maxBranches p = 0 \<and>
     (\<forall>c\<in>set (ph_paths p). bc_maxCounterValue c \<noteq> 0 \<and>
        (\<forall>st < 2 ^ bc_setBits c. \<forall>w < bc_associativity c. pe_counter (ent c st w) = 0))"

lemma blank_predict:
  assumes "bc_wf c" "\<forall>st < 2 ^ bc_setBits c. \<forall>w < bc_associativity c. pe_counter (ent c st w) = 0"
  shows "bc_predict c pc h = Inr (0, c)"
proof (cases "way_of c pc h")
  case (Some w)
  then show ?thesis using assms way_bound [OF Some] slot_bound [OF assms(1)]
    by (simp add: bc_predict_def findEntry_ok bc_read_ok)
qed (use assms in \<open>simp add: bc_predict_def findEntry_ok\<close>)

lemma check_paths_skip:
  assumes "ph_wf p" "j + n = 8" "j \<le> i" "i \<le> ph_maxBranches p"
    "\<forall>k < i. \<forall>h. bc_predict (ph_paths p ! k) pc h = Inr (0, ph_paths p ! k)"
  shows "check_paths n j pc bh b p = check_paths (8 - i) i pc bh b p"
  using assms(2,3)
proof (induction n arbitrary: j)
  case (Suc n)
  show ?case
  proof (cases "j = i")
    case True
    then show ?thesis using Suc.prems by (metis diff_add_inverse)
  next
    case False
    then have j: "j < i" "j < 8" "j + 1 + n = 8" "j + 1 \<le> i" using Suc.prems by simp_all
    from generateBranchHash_total [OF assms(1) j(2)] obtain hash where
      hash: "generateBranchHash p j (ph_historySizes p ! j) bh b = Inr hash" by blast
    have "ph_set_path p j (ph_paths p ! j) = Inr p"
      using ph_set_path_ok [OF assms(1) j(2) ph_wf_path [OF assms(1) j(2)]] by simp
    then have "check_paths (Suc n) j pc bh b p = check_paths n (j + 1) pc bh b p"
      using hash assms(1,4,5) j by (simp add: ph_wf_def)
    also have "\<dots> = check_paths (8 - i) i pc bh b p" by (rule Suc.IH [OF j(3,4)])
    finally show ?thesis .
  qed
qed simp

lemma train_path:
  assumes "bc_wf c" "bc_update c pc h d = Inr c'" "d \<noteq> 0" "bc_maxCounterValue c \<noteq> 0"
  shows "bc_wf c' \<and> bc_setBits c' = bc_setBits c \<and> bc_tagBits c' = bc_tagBits c \<and>
    (\<exists>c''. bc_predict c' pc h = Inr (d, c'') \<and> bc_wf c'')"
proof -
  from bc_update_ok [OF assms(1), of pc h d] assms(2) obtain w where
    u: "bc_wf c'" "way_of c' pc h = Some w" "ent c' (slot_of c pc h) w =
      \<lparr>pe_tag = tag_of c pc h, pe_distance = d, pe_lru = ucast (bc_lruCounter c), pe_counter = bc_maxCounterValue c\<rparr>"
      "bc_setBits c' = bc_setBits c" "bc_tagBits c' = bc_tagBits c" by auto
  have "slot_of c' pc h = slot_of c pc h" by (rule slot_tag_cong) (rule u(4))
  with bc_predict_ok [OF u(1), of pc h] u assms(4) show ?thesis by (auto simp: Let_def)
qed

lemma ph_violation_trains:
  assumes "ph_wf p" "bh \<noteq> []" "bi_seqNum (last bh) \<le> sn"
  shows "\<exists>p' i c hash. ph_violation pc sn d False pi phash bh p = Inr p' \<and> i < 8 \<and>
    ph_historySizes p ! i \<le> branches_to_store bh sn \<and>
    generateBranchHash p i (ph_historySizes p ! i) bh 0 = Inr hash \<and> bc_update (ph_paths p ! i) pc hash d = Inr c \<and>
    ph_wf p' \<and> ph_paths p' = (ph_paths p)[i := c] \<and> ph_maxBranches p' = max (ph_maxBranches p) i \<and>
    ph_selectedTargetMask p' = ph_selectedTargetMask p \<and> ph_selectedTargetBits p' = ph_selectedTargetBits p"
proof -
  from quantise_sizes [of "branches_to_store bh sn"] obtain i where
    i: "i < 8" "quantise_branches (ph_historySizes p) (branches_to_store bh sn) = Inr (i, ph_historySizes p ! i)"
      "ph_historySizes p ! i \<le> branches_to_store bh sn" using assms(1) by (auto simp: ph_wf_def)
  from generateBranchHash_total [OF assms(1) i(1)] obtain hash where
    hash: "generateBranchHash p i (ph_historySizes p ! i) bh 0 = Inr hash" by blast
  from bc_update_ok [OF ph_wf_path [OF assms(1) i(1)], of pc hash d] obtain c where
    c: "bc_update (ph_paths p ! i) pc hash d = Inr c" "bc_wf c" by blast
  let ?p1 = "p\<lparr>ph_paths := (ph_paths p)[i := c]\<rparr>"
  have sp: "ph_set_path p i c = Inr ?p1" "ph_wf ?p1" using ph_set_path_ok [OF assms(1) i(1) c(2)] by simp_all
  let ?p2 = "?p1\<lparr>ph_maxBranches := max (ph_maxBranches p) i\<rparr>"
  have "ph_wf ?p2" using sp(2) i(1) by (simp add: ph_wf_def)
  from ph_count_ok(1) [OF this i(1)] obtain v where
    v: "ph_count_read ?p2 i = Inr (?p2\<lparr>ph_pathReads := v\<rparr>)" "ph_wf (?p2\<lparr>ph_pathReads := v\<rparr>)" by blast
  from ph_count_ok(2) [OF v(2) i(1)] obtain u where
    u: "ph_count_write (?p2\<lparr>ph_pathReads := v\<rparr>) i = Inr (?p2\<lparr>ph_pathReads := v, ph_pathWrites := u\<rparr>)"
      "ph_wf (?p2\<lparr>ph_pathReads := v, ph_pathWrites := u\<rparr>)" by blast
  have "ph_violation pc sn d False pi phash bh p = Inr (?p2\<lparr>ph_pathReads := v, ph_pathWrites := u\<rparr>)"
    using assms i hash c(1) sp(1) v(1) u(1) wf_len [OF assms(1)]
    by (simp add: ph_violation_def ph_demote_def Let_def not_less)
  then show ?thesis using i hash c(1) u(2)
    by (intro exI [of _ "?p2\<lparr>ph_pathReads := v, ph_pathWrites := u\<rparr>"] exI [of _ i] exI [of _ c] exI [of _ hash]) simp
qed

lemma check_path_hit:
  assumes "ph_wf p" "i < 8" "i \<le> ph_maxBranches p" "generateBranchHash p i (ph_historySizes p ! i) bh b = Inr hash"
    "bc_predict (ph_paths p ! i) pc hash = Inr (d, c)" "bc_wf c" "d \<noteq> 0"
  shows "\<exists>p'. check_paths (8 - i) i pc bh b p =
    Inr (no_prediction\<lparr>pr_storeQueueDistance := d, pr_predBranchHistLength := i, pr_predictorHash := hash\<rparr>, p')"
proof -
  obtain n where n: "8 - i = Suc n" using assms(2) by (cases "8 - i") auto
  note sp = ph_set_path_ok [OF assms(1,2,6)]
  from ph_count_ok(2) [OF conjunct2 [OF sp] assms(2)] sp assms n show ?thesis by (auto simp: ph_wf_def)
qed

lemma log2_floor_power: "log2_floor (2 ^ k) = k"
proof (induction k)
  case 0
  then show ?case by (subst log2_floor.simps) simp
next
  case (Suc k)
  have "\<not> (2 :: nat) ^ Suc k \<le> 1" using one_less_power [of "2 :: nat" "Suc k"] by simp
  then show ?case using Suc by (subst log2_floor.simps) simp
qed

lemma ent_init: "st < 2 ^ sb \<Longrightarrow> w < assoc \<Longrightarrow> ent (bc_init sb assoc tb mx) st w = zero_entry"
  by (simp add: ent_def bc_init_def)

lemma bc_init_wf: "0 < sb \<Longrightarrow> sb \<le> 31 \<Longrightarrow> 0 < tb \<Longrightarrow> tb \<le> 31 \<Longrightarrow> 0 < assoc \<Longrightarrow> bc_wf (bc_init sb assoc tb mx)"
  by (auto simp: bc_wf_def bc_init_def)

lemma ph_init_wf:
  assumes "ph_init rows assoc tb mx sh = Inr p" "1 < unat rows" "unat rows \<le> 2 ^ 31" "0 < assoc" "0 < tb" "tb \<le> 31" "mx \<noteq> 0"
  shows "ph_wf p \<and> ph_blank p"
proof -
  from assms(1) have "isPowerOf2 rows" by (auto simp: ph_init_def rbind_eq_Inr)
  then obtain k where k: "unat rows = 2 ^ k" using isPowerOf2E by metis
  have "log2_floor (unat rows) = k" unfolding k by (rule log2_floor_power)
  moreover have "0 < k" using assms(2) k by (cases k) auto
  moreover have "(2 :: nat) ^ k \<le> 2 ^ 31" using assms(3) k by simp
  then have "k \<le> 31" by (rule power_le_imp_le_exp [rotated]) simp
  ultimately have c: "bc_wf (bc_init (log2_floor (unat rows)) assoc tb mx)" using assms(4-6) by (simp add: bc_init_wf)
  have p: "ph_historySizes p = [0, 2, 4, 6, 8, 12, 16, 32]" "ph_maxBranches p = 0" "ph_selectedTargetMask p = 31"
      "ph_paths p = replicate 8 (bc_init (log2_floor (unat rows)) assoc tb mx)"
      "ph_pathReads p = replicate 8 0" "ph_pathWrites p = replicate 8 0"
    using assms(1) by (auto simp: ph_init_def Let_def rbind_eq_Inr numeral_eq_Suc)
  have "bc_setBits (bc_init sb assoc tb mx) = sb" "bc_associativity (bc_init sb assoc tb mx) = assoc"
      "bc_maxCounterValue (bc_init sb assoc tb mx) = mx" for sb by (simp_all add: bc_init_def)
  then show ?thesis using c assms(7) by (simp add: ph_wf_def ph_blank_def p ent_init) (simp add: zero_entry_def)
qed

text \<open>Clearing empties every entry and keeps the shape of the tables.\<close>

lemma clear_row:
  assumes "bc_wf c" "i < 2 ^ bc_setBits c" "n \<le> bc_associativity c"
  shows "\<exists>c'. rfold (\<lambda>j c. bc_write c i j (\<lambda>_. zero_entry)) [0 ..< n] c = Inr c' \<and> bc_wf c' \<and>
    bc_setBits c' = bc_setBits c \<and> bc_associativity c' = bc_associativity c \<and> bc_maxCounterValue c' = bc_maxCounterValue c \<and>
    (\<forall>st w. ent c' st w = (if st = i \<and> w < n then zero_entry else ent c st w))"
  using assms(3)
proof (induction n)
  case (Suc n)
  then obtain c' where c': "rfold (\<lambda>j c. bc_write c i j (\<lambda>_. zero_entry)) [0 ..< n] c = Inr c'" "bc_wf c'"
      "bc_setBits c' = bc_setBits c" "bc_associativity c' = bc_associativity c" "bc_maxCounterValue c' = bc_maxCounterValue c"
      "\<forall>st w. ent c' st w = (if st = i \<and> w < n then zero_entry else ent c st w)" by auto
  let ?c = "bc_put c' i n zero_entry"
  have r: "i < 2 ^ bc_setBits c'" "n < bc_associativity c'" using assms(2) Suc.prems c'(3,4) by simp_all
  have "rfold (\<lambda>j c. bc_write c i j (\<lambda>_. zero_entry)) [0 ..< Suc n] c = Inr ?c"
    using c'(1) bc_write_ok [OF c'(2) r] by (simp add: rfold_append)
  moreover have "ent ?c st w = (if st = i \<and> w < Suc n then zero_entry else ent c st w)" for st w
    using c'(6) ent_put [OF c'(2) r] by auto
  ultimately show ?case using bc_put_wf [OF c'(2) r(1)] c'(3-5) by (intro exI [of _ ?c]) simp
qed (use assms(1) in simp)

lemma clear_rows:
  assumes "bc_wf c" "n \<le> 2 ^ bc_setBits c"
  shows "\<exists>c'. rfold (\<lambda>i. rfold (\<lambda>j c. bc_write c i j (\<lambda>_. zero_entry)) [0 ..< bc_associativity c]) [0 ..< n] c = Inr c' \<and>
    bc_wf c' \<and> bc_setBits c' = bc_setBits c \<and> bc_associativity c' = bc_associativity c \<and>
    bc_maxCounterValue c' = bc_maxCounterValue c \<and>
    (\<forall>st w. ent c' st w = (if st < n \<and> w < bc_associativity c then zero_entry else ent c st w))"
  using assms(2)
proof (induction n)
  case (Suc n)
  then obtain c' where c': "rfold (\<lambda>i. rfold (\<lambda>j c. bc_write c i j (\<lambda>_. zero_entry)) [0 ..< bc_associativity c]) [0 ..< n] c = Inr c'"
      "bc_wf c'" "bc_setBits c' = bc_setBits c" "bc_associativity c' = bc_associativity c" "bc_maxCounterValue c' = bc_maxCounterValue c"
      "\<forall>st w. ent c' st w = (if st < n \<and> w < bc_associativity c then zero_entry else ent c st w)" by auto
  from clear_row [OF c'(2), of n "bc_associativity c"] c'(3,4) Suc.prems obtain c2 where
    c2: "rfold (\<lambda>j c. bc_write c n j (\<lambda>_. zero_entry)) [0 ..< bc_associativity c] c' = Inr c2" "bc_wf c2"
      "bc_setBits c2 = bc_setBits c'" "bc_associativity c2 = bc_associativity c'" "bc_maxCounterValue c2 = bc_maxCounterValue c'"
      "\<forall>st w. ent c2 st w = (if st = n \<and> w < bc_associativity c then zero_entry else ent c' st w)" by auto
  then show ?case using c' by (intro exI [of _ c2]) (auto simp: rfold_append)
qed (use assms(1) in simp)

lemma bc_clear_ok:
  assumes "bc_wf c"
  shows "\<exists>c'. bc_clear c = Inr c' \<and> bc_wf c' \<and> bc_maxCounterValue c' = bc_maxCounterValue c \<and>
    (\<forall>st < 2 ^ bc_setBits c'. \<forall>w < bc_associativity c'. ent c' st w = zero_entry)"
  using clear_rows [OF assms, of "2 ^ bc_setBits c"] by (auto simp: bc_clear_def)

text \<open>Wrong commits count the confidence of an entry down.\<close>

lemma wrong_commits:
  assumes "bc_wf c" "way_of c pc h = Some w" "pe_distance (ent c (slot_of c pc h) w) = d"
  shows "\<exists>c'. rfold (\<lambda>_ c. bc_updateCommit c pc h True) (replicate n x) c = Inr c' \<and> bc_wf c' \<and>
    way_of c' pc h = Some w \<and> pe_distance (ent c' (slot_of c' pc h) w) = d \<and>
    unat (pe_counter (ent c' (slot_of c' pc h) w)) = unat (pe_counter (ent c (slot_of c pc h) w)) - n"
  using assms
proof (induction n arbitrary: c)
  case (Suc n)
  show ?case
  proof (cases "pe_counter (ent c (slot_of c pc h) w) = 0")
    case True
    then have "bc_updateCommit c pc h True = Inr c"
      using Suc.prems way_bound [OF Suc.prems(2)] slot_bound [OF Suc.prems(1)]
      by (simp add: bc_updateCommit_def findEntry_ok bc_read_ok)
    then show ?thesis using Suc.IH [OF Suc.prems] True by simp
  next
    case False
    from bc_updateCommit_ok [OF Suc.prems(1,2) False, of True] obtain c1 where
      c1: "bc_updateCommit c pc h True = Inr c1" "bc_wf c1" "way_of c1 pc h = Some w" "slot_of c1 pc h = slot_of c pc h"
        "pe_distance (ent c1 (slot_of c pc h) w) = pe_distance (ent c (slot_of c pc h) w)"
        "pe_counter (ent c1 (slot_of c pc h) w) = pe_counter (ent c (slot_of c pc h) w) - 1" by auto
    have "unat (pe_counter (ent c1 (slot_of c pc h) w)) = unat (pe_counter (ent c (slot_of c pc h) w)) - 1"
      using c1(6) False by (simp add: unat_minus_one)
    then show ?thesis using Suc.IH [OF c1(2,3)] c1 Suc.prems(3) by auto
  qed
qed simp

lemma ph_clear_ok:
  assumes "ph_wf p"
  shows "\<exists>p'. ph_clear p = Inr p' \<and> ph_wf p'"
proof -
  let ?f = "\<lambda>i p. rbind (vget (ph_paths p) i) (\<lambda>c. rbind (bc_clear c) (ph_set_path p i))"
  have step: "\<exists>q'. ?f i q = Inr q' \<and> ph_wf q'" if "ph_wf q" "i \<in> set [0 ..< 8]" for q i
  proof -
    from that have i: "i < 8" by simp
    from bc_clear_ok [OF ph_wf_path [OF that(1) i]] obtain c where "bc_clear (ph_paths q ! i) = Inr c" "bc_wf c" by blast
    with ph_set_path_ok [OF that(1) i] show ?thesis using i wf_len [OF that(1)] by auto
  qed
  have "ph_wf (p\<lparr>ph_maxBranches := 0\<rparr>)" using assms by (simp add: ph_wf_def)
  from rfold_total [of ph_wf "p\<lparr>ph_maxBranches := 0\<rparr>" "[0 ..< 8]" ?f] this step show ?thesis
    unfolding ph_clear_def wf_len [OF assms] by blast
qed

text \<open>The operations that PHAST does not use do nothing.\<close>

definition phast_ops :: "phast dp_ops" where
  "phast_ops = \<lparr>dp_checkInst = ph_checkInst, dp_insertStore = (\<lambda>_ _ p. Inr p), dp_issued = (\<lambda>_ _ _ p. Inr p),
     dp_squash = (\<lambda>_ p. Inr p),
     dp_violation = (\<lambda>lpc _ ssn _ d pr i h bh. ph_violation lpc ssn d pr i h bh),
     dp_commit = ph_commit, dp_clear = ph_clear\<rparr>"

interpretation ph: dep_predictor phast_ops ph_wf "\<lambda>_ _. True" "\<lambda>i. i < 8"
  by unfold_locales
    (auto simp: phast_ops_def ph_checkInst_total ph_violation_total ph_commit_total ph_clear_ok)

section \<open>Properties\<close>

text \<open>From a well-formed predictor (tables with two to \<open>2 ^ 31\<close> sets, tags of one to thirty-one bits and
  at least one way) no sequence of calls fails or runs forever: no table, history or statistics
  access is out of range, in particular the unsigned countdown over the branch history never uses
  its wrapped index; and the predictor stays well-formed.\<close>

theorem phast_calls_succeed:
  assumes "ph_wf p" "in_order (\<lambda>i. i < 8) b cs"
  shows "\<exists>p'. rfold (dp_step phast_ops) cs p = Inr p' \<and> ph_wf p'"
  by (rule ph.calls_succeed [OF assms(1) TrueI assms(2)])

text \<open>The default configuration, as a concrete instance.\<close>

lemma default_phast: "\<exists>p. ph_init 128 4 16 4 0 = Inr p \<and> ph_wf p \<and> ph_blank p"
proof -
  have "isPowerOf2 128" by (simp add: isPowerOf2_def)
  then obtain p where p: "ph_init 128 4 16 4 0 = Inr p" by (simp add: ph_init_def Let_def)
  from ph_init_wf [OF p] p show ?thesis by simp
qed

theorem phast_calls_succeed_witness:
  "\<exists>p p'. ph_init 128 4 16 4 0 = Inr p \<and>
    rfold (dp_step phast_ops) [CheckInst 0x400 9 [] True, Violation 0x400 9 5 0x300 2 False 0 0
      [\<lparr>bi_indirect = True, bi_taken = True, bi_target = 0x500, bi_seqNum = 3, bi_pc = 0x4f0\<rparr>],
      Commit 0x400 0x1000 4 0x1000 4 7 0, Clear] p = Inr p'"
proof -
  obtain p where p: "ph_init 128 4 16 4 0 = Inr p" "ph_wf p" using default_phast by blast
  let ?cs = "[CheckInst 0x400 9 [] True, Violation 0x400 9 5 0x300 2 False 0 0
      [\<lparr>bi_indirect = True, bi_taken = True, bi_target = 0x500, bi_seqNum = 3, bi_pc = 0x4f0\<rparr>],
      Commit 0x400 0x1000 4 0x1000 4 7 0, Clear]"
  have "in_order (\<lambda>i. i < 8) 0 ?cs" by simp
  from phast_calls_succeed [OF p(2) this] p(1) show ?thesis by blast
qed

lemma ph_learns:
  assumes "ph_wf p" "ph_blank p" "bh \<noteq> []" "bi_seqNum (last bh) \<le> store_sn" "bi_seqNum (hd bh) \<le> load_sn" "d \<noteq> 0"
  shows "\<exists>p' i r p''. ph_violation pc store_sn d False pi phash bh p = Inr p' \<and> ph_wf p' \<and>
    ph_historySizes p ! i \<le> branches_to_store bh store_sn \<and>
    ph_checkInst pc load_sn bh True p' = Inr (r, p'') \<and> pr_storeQueueDistance r = d \<and> pr_predBranchHistLength r = i"
proof -
  from ph_violation_trains [OF assms(1,3,4), of pc d pi phash] obtain p' i c hash where
    v: "ph_violation pc store_sn d False pi phash bh p = Inr p'" "i < 8"
      "ph_historySizes p ! i \<le> branches_to_store bh store_sn"
      "generateBranchHash p i (ph_historySizes p ! i) bh 0 = Inr hash" "bc_update (ph_paths p ! i) pc hash d = Inr c"
      "ph_wf p'" "ph_paths p' = (ph_paths p)[i := c]" "ph_maxBranches p' = max (ph_maxBranches p) i"
      "ph_selectedTargetMask p' = ph_selectedTargetMask p" "ph_selectedTargetBits p' = ph_selectedTargetBits p" by blast
  have mb: "ph_maxBranches p' = i" using v(8) assms(2) by (simp add: ph_blank_def)
  have len: "length (ph_paths p) = 8" "length (ph_historySizes p') = 8" and hs: "ph_historySizes p' = ph_historySizes p"
    using assms(1) v(6) by (simp_all add: ph_wf_def)
  have "ph_paths p ! i \<in> set (ph_paths p)" using v(2) len by simp
  then have "bc_maxCounterValue (ph_paths p ! i) \<noteq> 0" using assms(2) by (simp add: ph_blank_def)
  from train_path [OF ph_wf_path [OF assms(1) v(2)] v(5) assms(6) this] obtain c'' where
    t: "bc_setBits c = bc_setBits (ph_paths p ! i)" "bc_tagBits c = bc_tagBits (ph_paths p ! i)"
      "bc_predict c pc hash = Inr (d, c'')" "bc_wf c''" by blast
  have "generateBranchHash p' i (ph_historySizes p' ! i) bh 0 = Inr hash"
    unfolding hs v(4) [symmetric] by (rule generateBranchHash_cong) (use v(2,7,9,10) t len in simp_all)
  from check_path_hit [OF v(6,2) _ this, of pc d c''] t(3,4) assms(6) mb v(2,7) len obtain p'' where
    hit: "check_paths (8 - i) i pc bh 0 p' =
      Inr (no_prediction\<lparr>pr_storeQueueDistance := d, pr_predBranchHistLength := i, pr_predictorHash := hash\<rparr>, p'')" by auto
  have "bc_predict (ph_paths p' ! k) pc h = Inr (0, ph_paths p' ! k)" if "k < i" for k h
    using that v(2,7) len assms(2) ph_wf_path [OF assms(1), of k] by (simp add: ph_blank_def blank_predict)
  then have "check_paths 8 0 pc bh 0 p' = check_paths (8 - i) i pc bh 0 p'"
    using mb v(6) by (intro check_paths_skip) auto
  moreover have "begin_index bh load_sn = 0" using assms(3,5) by (cases bh) auto
  moreover have "ph_historySizes p' ! i \<le> length bh" using v(3) branches_to_store_le [of bh store_sn] hs by simp
  ultimately have "ph_checkInst pc load_sn bh True p' = Inr
      (no_prediction\<lparr>pr_storeQueueDistance := d, pr_predBranchHistLength := i, pr_predictorHash := hash\<rparr>, p'')"
    using hit assms(3) mb v(2) len by (simp add: ph_checkInst_def Let_def not_less del: check_paths.simps)
  then show ?thesis using v(1,3,6) by auto
qed

text \<open>C33. What a violation teaches an empty predictor is what it answers next time: the same load, seen
  with the same branch history, is predicted to depend on the store at the recorded store-queue
  distance, and the path it reports is the one whose length does not exceed the number of branches between the
  store and the load.\<close>

theorem phast_learns_violation:
  assumes "ph_wf p" "ph_blank p" "bh \<noteq> []" "bi_seqNum (last bh) \<le> store_sn" "bi_seqNum (hd bh) \<le> load_sn" "d \<noteq> 0"
  shows "\<exists>p' i r p''. ph_violation pc store_sn d False pi phash bh p = Inr p' \<and>
    ph_historySizes p ! i \<le> branches_to_store bh store_sn \<and>
    ph_checkInst pc load_sn bh True p' = Inr (r, p'') \<and> pr_storeQueueDistance r = d \<and> pr_predBranchHistLength r = i"
  using ph_learns [OF assms] by blast

theorem phast_learns_violation_witness:
  "\<exists>p p' r p''. ph_init 128 4 16 4 0 = Inr p \<and>
    ph_violation 0x400 5 2 False 0 0 [\<lparr>bi_indirect = False, bi_taken = True, bi_target = 0x500, bi_seqNum = 3, bi_pc = 0x4f0\<rparr>] p = Inr p' \<and>
    ph_checkInst 0x400 9 [\<lparr>bi_indirect = False, bi_taken = True, bi_target = 0x500, bi_seqNum = 3, bi_pc = 0x4f0\<rparr>] True p' = Inr (r, p'') \<and>
    pr_storeQueueDistance r = 2"
proof -
  let ?bh = "[\<lparr>bi_indirect = False, bi_taken = True, bi_target = 0x500, bi_seqNum = 3, bi_pc = 0x4f0\<rparr>]"
  obtain p where p: "ph_init 128 4 16 4 0 = Inr p" "ph_wf p" "ph_blank p" using default_phast by blast
  have "\<exists>p' i r p''. ph_violation 0x400 5 2 False 0 0 ?bh p = Inr p' \<and>
    ph_historySizes p ! i \<le> branches_to_store ?bh 5 \<and>
    ph_checkInst 0x400 9 ?bh True p' = Inr (r, p'') \<and> pr_storeQueueDistance r = 2 \<and> pr_predBranchHistLength r = i"
    by (rule phast_learns_violation [OF p(2,3)]) simp_all
  with p(1) show ?thesis by blast
qed

text \<open>A trained entry answers until it has been wrong as many times in a row as the maximum counter
  value, and not after that.\<close>

theorem phast_confidence:
  assumes "bc_wf c" "bc_update c pc h d = Inr c0" "d \<noteq> 0"
  shows "\<exists>c1 c2. rfold (\<lambda>_ c. bc_updateCommit c pc h True) (replicate n ()) c0 = Inr c1 \<and>
    bc_predict c1 pc h = Inr (if n < unat (bc_maxCounterValue c) then d else 0, c2)"
proof -
  from bc_update_ok [OF assms(1), of pc h d] assms(2) obtain w where
    u: "bc_wf c0" "way_of c0 pc h = Some w" "ent c0 (slot_of c pc h) w =
      \<lparr>pe_tag = tag_of c pc h, pe_distance = d, pe_lru = ucast (bc_lruCounter c), pe_counter = bc_maxCounterValue c\<rparr>"
      "bc_setBits c0 = bc_setBits c" by auto
  have sl: "slot_of c0 pc h = slot_of c pc h" by (rule slot_tag_cong) (rule u(4))
  from wrong_commits [OF u(1,2), of d n "()"] u(3) sl obtain c1 where
    c1: "rfold (\<lambda>_ c. bc_updateCommit c pc h True) (replicate n ()) c0 = Inr c1" "bc_wf c1" "way_of c1 pc h = Some w"
      "pe_distance (ent c1 (slot_of c1 pc h) w) = d"
      "unat (pe_counter (ent c1 (slot_of c1 pc h) w)) = unat (bc_maxCounterValue c) - n" by auto
  have "pe_counter (ent c1 (slot_of c1 pc h) w) = 0 \<longleftrightarrow> \<not> n < unat (bc_maxCounterValue c)"
    using c1(5) by (auto simp: unat_eq_zero)
  with bc_predict_ok [OF c1(2), of pc h] c1 show ?thesis by (auto simp: Let_def)
qed

theorem phast_confidence_witness:
  "\<exists>c0 c1 c2. bc_update (bc_init 7 4 16 4) 0x400 0 3 = Inr c0 \<and>
    rfold (\<lambda>_ c. bc_updateCommit c 0x400 0 True) (replicate 3 ()) c0 = Inr c1 \<and> bc_predict c1 0x400 0 = Inr (3, c2)"
proof -
  have wf: "bc_wf (bc_init 7 4 16 4)" by (rule bc_init_wf) simp_all
  then obtain c0 where c0: "bc_update (bc_init 7 4 16 4) 0x400 0 3 = Inr c0" using bc_update_ok by blast
  have mx: "bc_maxCounterValue (bc_init 7 4 16 4) = 4" by (simp add: bc_init_def)
  from phast_confidence [OF wf c0, of 3] c0 show ?thesis by (auto simp: mx simp del: replicate.simps rfold.simps)
qed

lemma word_xor_zero: "a XOR b = (0 :: u64) \<Longrightarrow> a = b"
  by (metis xor.assoc xor.right_neutral xor_self_eq)

lemma shortest_path_hash:
  assumes "0 < bc_setBits (ph_paths p ! i) + bc_tagBits (ph_paths p ! i)" "i < length (ph_paths p)"
  shows "\<exists>h. generateBranchHash p i 0 bh start = Inr h"
proof -
  have "\<exists>r. foldHistory h nbits (bc_setBits (ph_paths p ! i)) (bc_tagBits (ph_paths p ! i)) = Inr r" for h nbits
    by (rule foldHistory_total [OF assms(1)])
  then show ?thesis using assms(2) by (cases start) (auto simp: generateBranchHash_def not_le)
qed

text \<open>C34. A configuration with a single row per table passes the assertion of the constructor, but its set
  index has no bits: the first lookup of a load, with any history that is not empty, computes the hash of the
  shortest path, and if the mixed address of the load differs from this hash (which is zero when all
  branches of the history are younger than the load), the folding loop never ends. The tag must have at least one bit,
  else the hash itself need not come to an end.\<close>

theorem single_row_lookup_diverges:
  assumes "bh \<noteq> []" "0 < tb"
  shows "\<exists>p h. ph_init 1 assoc tb mx sh = Inr p \<and> generateBranchHash p 0 0 bh (begin_index bh sn) = Inr h \<and>
    (length bh \<le> begin_index bh sn \<longrightarrow> h = 0) \<and>
    (getIndex_mix pc \<noteq> h \<longrightarrow> ph_checkInst pc sn bh True p = Inl Diverges)"
proof -
  have "isPowerOf2 1" by (simp add: isPowerOf2_def)
  then obtain p where i: "ph_init 1 assoc tb mx sh = Inr p" by (simp add: ph_init_def Let_def)
  then have p: "ph_historySizes p = [0, 2, 4, 6, 8, 12, 16, 32]" "ph_maxBranches p = 0"
      "ph_paths p = replicate 8 (bc_init 0 assoc tb mx)"
    by (auto simp: ph_init_def Let_def rbind_eq_Inr numeral_eq_Suc log2_floor.simps)
  obtain h where h: "generateBranchHash p 0 0 bh (begin_index bh sn) = Inr h"
    using shortest_path_hash [of p 0 bh "begin_index bh sn"] p(3) assms(2) by (auto simp: bc_init_def)
  have "getIndex (bc_init 0 assoc tb mx) pc h = Inl Diverges" if "getIndex_mix pc \<noteq> h"
    using that word_xor_zero by (auto simp: getIndex_def bc_init_def intro!: xorFold_zero_diverges)
  moreover have "\<not> length bh < begin_index bh sn" by (induction bh) auto
  ultimately have "getIndex_mix pc \<noteq> h \<longrightarrow> ph_checkInst pc sn bh True p = Inl Diverges"
    using assms(1) p h by (simp add: ph_checkInst_def bc_predict_def findEntry_def numeral_eq_Suc)
  moreover have "length bh \<le> begin_index bh sn \<longrightarrow> h = 0" using h by (auto simp: generateBranchHash_def)
  ultimately show ?thesis using i h by blast
qed

theorem single_row_lookup_diverges_witness:
  "\<exists>p. ph_init 1 4 16 4 0 = Inr p \<and> ph_checkInst 0x400 2
    [\<lparr>bi_indirect = False, bi_taken = True, bi_target = 0x500, bi_seqNum = 3, bi_pc = 0x4f0\<rparr>,
     \<lparr>bi_indirect = False, bi_taken = True, bi_target = 0x407, bi_seqNum = 1, bi_pc = 0x3f0\<rparr>] True p = Inl Diverges"
  (is "\<exists>p. _ \<and> ph_checkInst _ _ ?bh _ _ = _")
proof -
  from single_row_lookup_diverges [of ?bh 16 4 4 0 2 "0x400"] obtain p h where
    p: "ph_init 1 4 16 4 0 = Inr p" "generateBranchHash p 0 0 ?bh (begin_index ?bh 2) = Inr h"
      "getIndex_mix 0x400 \<noteq> h \<longrightarrow> ph_checkInst 0x400 2 ?bh True p = Inl Diverges" by auto
  have "rbind (ph_init 1 4 16 4 0) (\<lambda>p. generateBranchHash p 0 0 ?bh (begin_index ?bh 2)) = Inr 7" by code_simp
  then have "h = 7" using p(1,2) by simp
  moreover have "getIndex_mix 0x400 \<noteq> 7" by (simp add: getIndex_mix_def)
  ultimately show ?thesis using p(1,3) by blast
qed

end
