(* ===== verification/Store_Set.thy ===== *)
theory Store_Set
  imports Dep_Predictor "HOL-Library.AList"
begin

text \<open>
  The store-set predictor of \<^verbatim>\<open>cpu/o3/store_set.hh\<close> and \<^verbatim>\<open>cpu/o3/store_set.cc\<close>: a table from
  instruction addresses to store sets (SSIT) and a table from store sets to the last fetched store (LFST),
  with the list of outstanding stores, youngest first. The statistics counters of LFST accesses
  are part of the state.
\<close>

section \<open>State and operations\<close>

record store_set =
  ss_SSIT :: "nat list"
  ss_validSSIT :: "bool list"
  ss_LFST :: "seqnum list"
  ss_validLFST :: "bool list"
  ss_intended_index :: "(nat \<times> u64) list"
  ss_storeList :: "(seqnum \<times> nat) list"
  ss_clearPeriod :: nat
  ss_SSITSize :: nat
  ss_LFSTSize :: nat
  ss_offsetBits :: nat
  ss_memOpsPred :: nat
  ss_LFSTReads :: nat
  ss_LFSTWrites :: nat

definition ss_new :: "nat \<Rightarrow> nat \<Rightarrow> nat \<Rightarrow> store_set res" where
  "ss_new clear_period ssit_size lfst_size =
     rbind (check (isPowerOf2 (of_nat ssit_size)) Fatal) (\<lambda>_.
     rbind (check (isPowerOf2 (of_nat lfst_size)) Fatal) (\<lambda>_.
     Inr \<lparr>ss_SSIT = replicate ssit_size 0, ss_validSSIT = replicate ssit_size False,
          ss_LFST = replicate lfst_size 0, ss_validLFST = replicate lfst_size False,
          ss_intended_index = [], ss_storeList = [], ss_clearPeriod = clear_period,
          ss_SSITSize = ssit_size, ss_LFSTSize = lfst_size, ss_offsetBits = 2, ss_memOpsPred = 0,
          ss_LFSTReads = 0, ss_LFSTWrites = 0\<rparr>))"

text \<open>The mask \<^verbatim>\<open>SSITSize - 1\<close> is an \<^verbatim>\<open>int\<close>, sign-extended when it meets the address.\<close>

definition calcIndex :: "store_set \<Rightarrow> u64 \<Rightarrow> nat" where
  "calcIndex s PC = unat (drop_bit (ss_offsetBits s) PC AND word_of_int (int (ss_SSITSize s) - 1))"

definition calcSSID :: "store_set \<Rightarrow> u64 \<Rightarrow> nat res" where
  "calcSSID s PC = (if ss_LFSTSize s = 0 then Inl DivByZero
     else Inr (unat (PC XOR drop_bit 10 PC) mod ss_LFSTSize s))"

definition ss_mark :: "nat \<Rightarrow> nat \<Rightarrow> store_set \<Rightarrow> store_set res" where
  "ss_mark index ssid s =
     rbind (vset (ss_validSSIT s) index True) (\<lambda>v.
     rbind (vset (ss_SSIT s) index ssid) (\<lambda>t. Inr (s\<lparr>ss_validSSIT := v, ss_SSIT := t\<rparr>)))"

definition ss_intend :: "nat \<Rightarrow> u64 \<Rightarrow> store_set \<Rightarrow> store_set" where
  "ss_intend index PC s = s\<lparr>ss_intended_index := AList.update index PC (ss_intended_index s)\<rparr>"

definition ss_violation :: "u64 \<Rightarrow> u64 \<Rightarrow> store_set \<Rightarrow> store_set res" where
  "ss_violation load_PC store_PC s =
     (let load_index = calcIndex s load_PC; store_index = calcIndex s store_PC in
      rbind (check (load_index < ss_SSITSize s \<and> store_index < ss_SSITSize s) Assertion) (\<lambda>_.
      rbind (vget (ss_validSSIT s) load_index) (\<lambda>valid_load.
      rbind (vget (ss_validSSIT s) store_index) (\<lambda>valid_store.
      if \<not> valid_load \<and> \<not> valid_store
      then rbind (calcSSID s load_PC) (\<lambda>new_set.
           rbind (ss_mark load_index new_set s) (\<lambda>s.
           rbind (ss_mark store_index new_set s) (\<lambda>s.
           rbind (check (new_set < ss_LFSTSize s) Assertion) (\<lambda>_.
           Inr (ss_intend store_index store_PC (ss_intend load_index load_PC s))))))
      else if valid_load \<and> \<not> valid_store
      then rbind (vget (ss_SSIT s) load_index) (\<lambda>load_SSID.
           rbind (ss_mark store_index load_SSID s) (\<lambda>s.
           rbind (check (load_SSID < ss_LFSTSize s) Assertion) (\<lambda>_.
           Inr (ss_intend store_index store_PC s))))
      else if \<not> valid_load \<and> valid_store
      then rbind (vget (ss_SSIT s) store_index) (\<lambda>store_SSID.
           rbind (ss_mark load_index store_SSID s) (\<lambda>s.
           Inr (ss_intend load_index load_PC s)))
      else rbind (vget (ss_SSIT s) load_index) (\<lambda>load_SSID.
           rbind (vget (ss_SSIT s) store_index) (\<lambda>store_SSID.
           rbind (check (load_SSID < ss_LFSTSize s \<and> store_SSID < ss_LFSTSize s) Assertion) (\<lambda>_.
           if load_SSID < store_SSID
           then rbind (vset (ss_SSIT s) store_index load_SSID) (\<lambda>t.
                Inr (ss_intend store_index store_PC (s\<lparr>ss_SSIT := t\<rparr>)))
           else rbind (vset (ss_SSIT s) load_index store_SSID) (\<lambda>t.
                Inr (ss_intend load_index load_PC (s\<lparr>ss_SSIT := t\<rparr>))))))))))"

definition ss_clear :: "store_set \<Rightarrow> store_set res" where
  "ss_clear s =
     rbind (rfold (\<lambda>i v. vset v i False) [0 ..< ss_SSITSize s] (ss_validSSIT s)) (\<lambda>vs.
     rbind (rfold (\<lambda>i v. vset v i False) [0 ..< ss_LFSTSize s] (ss_validLFST s)) (\<lambda>vl.
     Inr (s\<lparr>ss_validSSIT := vs, ss_validLFST := vl, ss_storeList := [], ss_intended_index := []\<rparr>)))"

text \<open>\<^verbatim>\<open>memOpsPred\<close> is an \<^verbatim>\<open>int\<close>; it never exceeds the clear period by more than one, so as a natural number it
  is exact for clear periods below \<open>2 ^ 31 - 1\<close>.\<close>

definition checkClear :: "store_set \<Rightarrow> store_set res" where
  "checkClear s = (let s = s\<lparr>ss_memOpsPred := ss_memOpsPred s + 1\<rparr> in
     if ss_clearPeriod s < ss_memOpsPred s then ss_clear (s\<lparr>ss_memOpsPred := 0\<rparr>) else Inr s)"

definition ss_insertLoad :: "u64 \<Rightarrow> seqnum \<Rightarrow> store_set \<Rightarrow> store_set res" where
  "ss_insertLoad load_PC load_seq_num s = checkClear s"

text \<open>\<^verbatim>\<open>storeList\<close> is a map ordered by decreasing sequence number.\<close>

fun sl_put :: "seqnum \<Rightarrow> nat \<Rightarrow> (seqnum \<times> nat) list \<Rightarrow> (seqnum \<times> nat) list" where
  "sl_put k v [] = [(k, v)]"
| "sl_put k v ((k', v') # xs) =
     (if k > k' then (k, v) # (k', v') # xs else if k = k' then (k, v) # xs else (k', v') # sl_put k v xs)"

definition ss_insertStore :: "u64 \<Rightarrow> seqnum \<Rightarrow> store_set \<Rightarrow> store_set res" where
  "ss_insertStore store_PC store_seq_num s =
     (let index = calcIndex s store_PC in
      rbind (checkClear s) (\<lambda>s.
      rbind (check (index < ss_SSITSize s) Assertion) (\<lambda>_.
      rbind (vget (ss_validSSIT s) index) (\<lambda>v.
      if \<not> v then Inr s
      else rbind (vget (ss_SSIT s) index) (\<lambda>store_SSID.
           rbind (check (store_SSID < ss_LFSTSize s) Assertion) (\<lambda>_.
           rbind (vset (ss_LFST s) store_SSID store_seq_num) (\<lambda>lfst.
           rbind (vset (ss_validLFST s) store_SSID True) (\<lambda>vl.
           Inr (s\<lparr>ss_LFST := lfst, ss_validLFST := vl, ss_LFSTWrites := ss_LFSTWrites s + 1,
                  ss_storeList := sl_put store_seq_num store_SSID (ss_storeList s)\<rparr>)))))))))"

definition ss_checkInst :: "u64 \<Rightarrow> store_set \<Rightarrow> (prediction_result \<times> store_set) res" where
  "ss_checkInst PC s =
     (let index = calcIndex s PC in
      rbind (check (index < ss_SSITSize s) Assertion) (\<lambda>_.
      rbind (vget (ss_validSSIT s) index) (\<lambda>v.
      if \<not> v then Inr (no_prediction, s)
      else rbind (vget (ss_SSIT s) index) (\<lambda>inst_SSID.
           rbind (check (inst_SSID < ss_LFSTSize s) Assertion) (\<lambda>_.
           let s = s\<lparr>ss_LFSTReads := ss_LFSTReads s + 1\<rparr> in
           rbind (vget (ss_validLFST s) inst_SSID) (\<lambda>vl.
           if \<not> vl then Inr (no_prediction, s)
           else rbind (vget (ss_LFST s) inst_SSID) (\<lambda>sn.
                Inr (no_prediction\<lparr>pr_seqNum := sn\<rparr>, s))))))))"

definition ss_issued :: "u64 \<Rightarrow> seqnum \<Rightarrow> bool \<Rightarrow> store_set \<Rightarrow> store_set res" where
  "ss_issued issued_PC issued_seq_num is_store s =
     (if \<not> is_store then Inr s
      else let index = calcIndex s issued_PC in
      rbind (check (index < ss_SSITSize s) Assertion) (\<lambda>_.
      let s = s\<lparr>ss_storeList := filter (\<lambda>e. fst e \<noteq> issued_seq_num) (ss_storeList s)\<rparr> in
      rbind (vget (ss_validSSIT s) index) (\<lambda>v.
      if \<not> v then Inr s
      else rbind (vget (ss_SSIT s) index) (\<lambda>store_SSID.
           rbind (check (store_SSID < ss_LFSTSize s) Assertion) (\<lambda>_.
           rbind (vget (ss_validLFST s) store_SSID) (\<lambda>vl.
           rbind (vget (ss_LFST s) store_SSID) (\<lambda>sn.
           if vl \<and> sn = issued_seq_num
           then rbind (vset (ss_validLFST s) store_SSID False) (\<lambda>v.
                Inr (s\<lparr>ss_validLFST := v, ss_LFSTReads := ss_LFSTReads s + 1, ss_LFSTWrites := ss_LFSTWrites s + 1\<rparr>))
           else Inr s)))))))"

text \<open>
  The loop of \<^verbatim>\<open>squash\<close> looks at the youngest outstanding store each time. When that store is to be
  squashed but the LFST entry of its set is not younger than the squash point, nothing changes
  and the loop never ends.
\<close>

fun squash_loop :: "seqnum \<Rightarrow> seqnum list \<Rightarrow> (seqnum \<times> nat) list \<Rightarrow> bool list \<Rightarrow> ((seqnum \<times> nat) list \<times> bool list) res" where
  "squash_loop sq lfst [] vl = Inr ([], vl)"
| "squash_loop sq lfst ((sn, idx) # rest) vl =
     (if sn \<le> sq then Inr ((sn, idx) # rest, vl)
      else rbind (vget lfst idx) (\<lambda>l. rbind (vget vl idx) (\<lambda>v.
        if sq < l then squash_loop sq lfst rest (if v then vl[idx := False] else vl)
        else Inl Diverges)))"

definition ss_squash :: "seqnum \<Rightarrow> store_set \<Rightarrow> store_set res" where
  "ss_squash squashed_num s = rbind (squash_loop squashed_num (ss_LFST s) (ss_storeList s) (ss_validLFST s))
     (\<lambda>(sl, vl). Inr (s\<lparr>ss_storeList := sl, ss_validLFST := vl\<rparr>))"

section \<open>Well-formedness\<close>

definition ss_wf :: "store_set \<Rightarrow> bool" where
  "ss_wf s \<longleftrightarrow> 0 < ss_SSITSize s \<and> ss_SSITSize s \<le> 2 ^ 31 \<and> 0 < ss_LFSTSize s \<and>
     length (ss_SSIT s) = ss_SSITSize s \<and> length (ss_validSSIT s) = ss_SSITSize s \<and>
     length (ss_LFST s) = ss_LFSTSize s \<and> length (ss_validLFST s) = ss_LFSTSize s \<and>
     (\<forall>i < ss_SSITSize s. ss_SSIT s ! i < ss_LFSTSize s) \<and>
     (\<forall>e\<in>set (ss_storeList s). snd e < ss_LFSTSize s \<and> fst e \<le> ss_LFST s ! snd e) \<and>
     sorted_wrt (\<lambda>a b. fst a > fst b) (ss_storeList s)"

definition ss_young :: "store_set \<Rightarrow> seqnum \<Rightarrow> bool" where
  "ss_young s b \<longleftrightarrow> (\<forall>e\<in>set (ss_storeList s). fst e \<le> b)"

lemma ss_lengths:
  assumes "ss_wf s"
  shows "length (ss_SSIT s) = ss_SSITSize s" "length (ss_validSSIT s) = ss_SSITSize s"
    "length (ss_LFST s) = ss_LFSTSize s" "length (ss_validLFST s) = ss_LFSTSize s"
  using assms by (simp_all add: ss_wf_def)

lemma ss_ssid_bound: "ss_wf s \<Longrightarrow> i < ss_SSITSize s \<Longrightarrow> ss_SSIT s ! i < ss_LFSTSize s"
  by (simp add: ss_wf_def)

lemma ss_wf_stats [simp]:
  "ss_wf (s\<lparr>ss_LFSTReads := n\<rparr>) = ss_wf s" "ss_wf (s\<lparr>ss_LFSTWrites := n\<rparr>) = ss_wf s"
  "ss_wf (s\<lparr>ss_memOpsPred := n\<rparr>) = ss_wf s" "ss_wf (s\<lparr>ss_intended_index := ii\<rparr>) = ss_wf s"
  by (simp_all add: ss_wf_def)

lemma ss_wf_intend [simp]: "ss_wf (ss_intend i PC s) = ss_wf s"
  by (simp add: ss_intend_def)

lemma calcIndex_bound:
  assumes "ss_wf s"
  shows "calcIndex s PC < ss_SSITSize s"
proof -
  let ?m = "word_of_int (int (ss_SSITSize s) - 1) :: u64"
  have sz: "0 < ss_SSITSize s" "ss_SSITSize s \<le> 2 ^ 31" using assms by (simp_all add: ss_wf_def)
  have n: "int (ss_SSITSize s) - 1 = int (ss_SSITSize s - 1)" using sz(1) by (simp only: of_nat_diff Suc_le_eq One_nat_def)
  have m: "?m = of_nat (ss_SSITSize s - 1)" unfolding n by (rule of_int_of_nat_eq)
  have "ss_SSITSize s - 1 < 2 ^ LENGTH(64)" using sz(2) by simp
  then have "unat ?m = ss_SSITSize s - 1" unfolding m by (rule unat_of_nat_small)
  moreover have "calcIndex s PC \<le> unat ?m"
    unfolding calcIndex_def by (simp only: word_and_le1 flip: word_le_nat_alt)
  ultimately show ?thesis using sz(1) by simp
qed

lemma vset_clear:
  "k \<le> length v \<Longrightarrow> rfold (\<lambda>i v. vset v i False) [0 ..< k] v = Inr (replicate k False @ drop k v)"
proof (induction k)
  case (Suc k)
  have "(replicate k False @ drop k v)[k := False] = replicate (Suc k) False @ drop (Suc k) v"
  proof -
    have "drop k v = v ! k # drop (Suc k) v" using Suc.prems by (simp add: Cons_nth_drop_Suc)
    then show ?thesis by (simp add: list_update_append replicate_app_Cons_same)
  qed
  then show ?case using Suc by (simp add: rfold_append vset_def)
qed simp

lemma ss_clear_ok:
  assumes "ss_wf s"
  shows "ss_clear s = Inr (s\<lparr>ss_validSSIT := replicate (ss_SSITSize s) False,
    ss_validLFST := replicate (ss_LFSTSize s) False, ss_storeList := [], ss_intended_index := []\<rparr>)"
  using assms vset_clear [of "ss_SSITSize s" "ss_validSSIT s"] vset_clear [of "ss_LFSTSize s" "ss_validLFST s"]
  by (simp add: ss_clear_def ss_wf_def)

lemma checkClear_ok:
  assumes "ss_wf s"
  shows "\<exists>s'. checkClear s = Inr s' \<and> ss_wf s' \<and> ss_SSITSize s' = ss_SSITSize s \<and> ss_offsetBits s' = ss_offsetBits s \<and>
    set (ss_storeList s') \<subseteq> set (ss_storeList s)"
proof (cases "ss_clearPeriod s < ss_memOpsPred s + 1")
  case True
  have "ss_wf (s\<lparr>ss_memOpsPred := 0\<rparr>)" using assms by (simp add: ss_wf_def)
  from ss_clear_ok [OF this] assms True show ?thesis by (simp add: checkClear_def Let_def ss_wf_def)
next
  case False
  then show ?thesis using assms by (simp add: checkClear_def Let_def ss_wf_def)
qed

lemma sl_put_set: "set (sl_put k v xs) \<subseteq> insert (k, v) (set xs)"
  by (induction xs) (auto split: if_splits)

lemma sl_put_sorted: "sorted_wrt (\<lambda>a b. fst a > fst b) xs \<Longrightarrow> sorted_wrt (\<lambda>a b. fst a > fst b) (sl_put k v xs)"
proof (induction xs)
  case (Cons x xs)
  obtain k' v' where x: "x = (k', v')" by fastforce
  from Cons have IH: "sorted_wrt (\<lambda>a b. fst a > fst b) (sl_put k v xs)" and tl: "\<forall>y\<in>set xs. k' > fst y"
    by (auto simp: x)
  show ?case
  proof (cases "k < k'")
    case True
    then have "\<forall>y\<in>set (sl_put k v xs). k' > fst y" using tl sl_put_set [of k v xs] by fastforce
    moreover have "sl_put k v (x # xs) = x # sl_put k v xs" using True x by auto
    ultimately show ?thesis using IH x by simp
  next
    case False
    then show ?thesis using Cons.prems tl x by (auto intro: order.strict_trans)
  qed
qed simp

lemma ss_insertStore_ok:
  assumes "ss_wf s" "ss_young s b" "b \<le> sn"
  shows "\<exists>s'. ss_insertStore pc sn s = Inr s' \<and> ss_wf s' \<and> ss_young s' sn"
proof -
  from checkClear_ok [OF assms(1)] obtain s1 where
    s1: "checkClear s = Inr s1" "ss_wf s1" "ss_SSITSize s1 = ss_SSITSize s" "set (ss_storeList s1) \<subseteq> set (ss_storeList s)" by blast
  let ?i = "calcIndex s pc"
  have i: "?i < ss_SSITSize s1" using calcIndex_bound [OF assms(1)] s1(3) by simp
  have y: "\<forall>e\<in>set (ss_storeList s1). fst e \<le> sn" using assms(2,3) s1(4)
    unfolding ss_young_def by (meson order_trans subsetD)
  show ?thesis
  proof (cases "ss_validSSIT s1 ! ?i")
    case False
    then show ?thesis using s1 i y by (simp add: ss_insertStore_def Let_def ss_wf_def ss_young_def)
  next
    case True
    let ?d = "ss_SSIT s1 ! ?i"
    let ?s = "s1\<lparr>ss_LFST := (ss_LFST s1)[?d := sn], ss_validLFST := (ss_validLFST s1)[?d := True],
      ss_LFSTWrites := ss_LFSTWrites s1 + 1, ss_storeList := sl_put sn ?d (ss_storeList s1)\<rparr>"
    have d: "?d < ss_LFSTSize s1" and len: "length (ss_LFST s1) = ss_LFSTSize s1" using s1(2) i by (simp_all add: ss_wf_def)
    have e: "fst e \<le> sn \<and> snd e < ss_LFSTSize s1 \<and> fst e \<le> (ss_LFST s1)[?d := sn] ! snd e"
      if "e \<in> set (sl_put sn ?d (ss_storeList s1))" for e
    proof -
      from that sl_put_set [of sn ?d "ss_storeList s1"] consider "e = (sn, ?d)" | "e \<in> set (ss_storeList s1)" by blast
      then show ?thesis
      proof cases
        case 1
        then show ?thesis using d s1(2) by (simp add: ss_wf_def)
      next
        case 2
        then have "fst e \<le> sn" "snd e < ss_LFSTSize s1" "fst e \<le> ss_LFST s1 ! snd e"
          using y s1(2) by (simp_all add: ss_wf_def)
        then show ?thesis by (cases "snd e = ?d") (simp_all add: nth_list_update d len)
      qed
    qed
    have "sorted_wrt (\<lambda>a b. fst a > fst b) (sl_put sn ?d (ss_storeList s1))"
      by (rule sl_put_sorted) (use s1(2) in \<open>simp add: ss_wf_def\<close>)
    then have "ss_wf ?s" using s1(2) e unfolding ss_wf_def by simp
    moreover have "ss_young ?s sn" using e by (simp add: ss_young_def)
    moreover have "ss_insertStore pc sn s = Inr ?s"
      using s1 i True d by (simp add: ss_insertStore_def Let_def ss_wf_def vset_def)
    ultimately show ?thesis by blast
  qed
qed

lemma ss_checkInst_value:
  fixes pc :: u64 and s :: store_set
  assumes "ss_wf s"
  defines "d \<equiv> ss_SSIT s ! calcIndex s pc"
  shows "ss_checkInst pc s =
    (if \<not> ss_validSSIT s ! calcIndex s pc then Inr (no_prediction, s)
     else Inr (if ss_validLFST s ! d then no_prediction\<lparr>pr_seqNum := ss_LFST s ! d\<rparr> else no_prediction,
               s\<lparr>ss_LFSTReads := ss_LFSTReads s + 1\<rparr>))"
  using calcIndex_bound [OF assms(1)] ss_lengths [OF assms(1)] ss_ssid_bound [OF assms(1) calcIndex_bound [OF assms(1)]]
  by (simp add: ss_checkInst_def Let_def d_def)

lemma ss_checkInst_ok:
  assumes "ss_wf s"
  shows "\<exists>r s'. ss_checkInst pc s = Inr (r, s') \<and> ss_wf s' \<and> ss_storeList s' = ss_storeList s"
  using ss_checkInst_value [OF assms, of pc] assms by (simp split: if_splits)

lemma ss_wf_filter: "ss_wf s \<Longrightarrow> ss_wf (s\<lparr>ss_storeList := filter P (ss_storeList s)\<rparr>)"
  by (simp add: ss_wf_def sorted_wrt_filter)

lemma ss_issued_ok:
  assumes "ss_wf s"
  shows "\<exists>s'. ss_issued pc sn st s = Inr s' \<and> ss_wf s' \<and> set (ss_storeList s') \<subseteq> set (ss_storeList s)"
proof (cases st)
  case True
  let ?s = "s\<lparr>ss_storeList := filter (\<lambda>e. fst e \<noteq> sn) (ss_storeList s)\<rparr>"
  have i: "calcIndex s pc < ss_SSITSize s" by (rule calcIndex_bound [OF assms])
  then have d: "ss_SSIT s ! calcIndex s pc < ss_LFSTSize s" using assms by (simp add: ss_wf_def)
  have w: "ss_wf ?s" by (rule ss_wf_filter [OF assms])
  have sub: "set (ss_storeList ?s) \<subseteq> set (ss_storeList s)" by simp
  have len: "length (ss_validSSIT s) = ss_SSITSize s" "length (ss_SSIT s) = ss_SSITSize s"
    "length (ss_validLFST s) = ss_LFSTSize s" "length (ss_LFST s) = ss_LFSTSize s" using assms by (simp_all add: ss_wf_def)
  show ?thesis
  proof (cases "ss_validSSIT s ! calcIndex s pc")
    case False
    then have "ss_issued pc sn st s = Inr ?s" using i True len by (simp add: ss_issued_def Let_def)
    with w sub show ?thesis by blast
  next
    case v: True
    let ?d = "ss_SSIT s ! calcIndex s pc"
    let ?t = "?s\<lparr>ss_validLFST := (ss_validLFST s)[?d := False], ss_LFSTReads := ss_LFSTReads s + 1, ss_LFSTWrites := ss_LFSTWrites s + 1\<rparr>"
    have "ss_issued pc sn st s = (if ss_validLFST s ! ?d \<and> ss_LFST s ! ?d = sn then Inr ?t else Inr ?s)"
      using i d v True len by (simp add: ss_issued_def Let_def)
    moreover have "ss_wf ?t" using w by (simp add: ss_wf_def)
    moreover have "set (ss_storeList ?t) \<subseteq> set (ss_storeList s)" by simp
    ultimately show ?thesis using w sub by metis
  qed
qed (use assms in \<open>simp add: ss_issued_def\<close>)

lemma ss_mark_ok:
  assumes "ss_wf s" "i < ss_SSITSize s" "d < ss_LFSTSize s"
  shows "ss_mark i d s = Inr (s\<lparr>ss_validSSIT := (ss_validSSIT s)[i := True], ss_SSIT := (ss_SSIT s)[i := d]\<rparr>)"
    "ss_wf (s\<lparr>ss_validSSIT := (ss_validSSIT s)[i := True], ss_SSIT := (ss_SSIT s)[i := d]\<rparr>)"
  using assms by (simp_all add: ss_mark_def ss_wf_def nth_list_update)

lemma ss_assign_ok:
  assumes "ss_wf s" "i < ss_SSITSize s" "d < ss_LFSTSize s"
  shows "ss_wf (s\<lparr>ss_SSIT := (ss_SSIT s)[i := d]\<rparr>)"
  using assms by (simp add: ss_wf_def nth_list_update)

lemma calcSSID_ok: "ss_wf s \<Longrightarrow> \<exists>d. calcSSID s pc = Inr d \<and> d < ss_LFSTSize s"
  by (simp add: calcSSID_def ss_wf_def)

definition ss_kept :: "store_set \<Rightarrow> store_set \<Rightarrow> bool" where
  "ss_kept s s' \<longleftrightarrow> ss_LFST s' = ss_LFST s \<and> ss_validLFST s' = ss_validLFST s \<and> ss_storeList s' = ss_storeList s \<and>
     ss_clearPeriod s' = ss_clearPeriod s \<and> ss_SSITSize s' = ss_SSITSize s \<and> ss_LFSTSize s' = ss_LFSTSize s \<and>
     ss_offsetBits s' = ss_offsetBits s \<and> ss_memOpsPred s' = ss_memOpsPred s"

definition ss_joined :: "nat \<Rightarrow> nat \<Rightarrow> store_set \<Rightarrow> bool" where
  "ss_joined i j s \<longleftrightarrow> ss_validSSIT s ! i \<and> ss_validSSIT s ! j \<and> ss_SSIT s ! i = ss_SSIT s ! j"

lemma ss_violation_ok:
  assumes w: "ss_wf s"
  shows "\<exists>s'. ss_violation lpc spc s = Inr s' \<and> ss_wf s' \<and> ss_kept s s' \<and> ss_joined (calcIndex s lpc) (calcIndex s spc) s'"
proof -
  let ?l = "calcIndex s lpc" and ?t = "calcIndex s spc"
  have l: "?l < ss_SSITSize s" and t: "?t < ss_SSITSize s" by (rule calcIndex_bound [OF w])+
  have dl: "ss_SSIT s ! ?l < ss_LFSTSize s" and dt: "ss_SSIT s ! ?t < ss_LFSTSize s"
    by (rule ss_ssid_bound [OF w l], rule ss_ssid_bound [OF w t])
  obtain n where n: "calcSSID s lpc = Inr n" "n < ss_LFSTSize s" using calcSSID_ok [OF w] by blast
  note len = ss_lengths [OF w] and defs = ss_violation_def ss_intend_def Let_def ss_kept_def ss_joined_def nth_list_update
  consider (none) "\<not> ss_validSSIT s ! ?l" "\<not> ss_validSSIT s ! ?t" | (load) "ss_validSSIT s ! ?l" "\<not> ss_validSSIT s ! ?t"
    | (store) "\<not> ss_validSSIT s ! ?l" "ss_validSSIT s ! ?t" | (both) "ss_validSSIT s ! ?l" "ss_validSSIT s ! ?t" by blast
  then show ?thesis
  proof cases
    case none
    let ?s1 = "s\<lparr>ss_validSSIT := (ss_validSSIT s)[?l := True], ss_SSIT := (ss_SSIT s)[?l := n]\<rparr>"
    have t1: "?t < ss_SSITSize ?s1" "n < ss_LFSTSize ?s1" using t n by simp_all
    show ?thesis using none l t len n ss_mark_ok [OF w l n(2)] ss_mark_ok [OF ss_mark_ok(2) [OF w l n(2)] t1]
      by (simp add: defs)
  next
    case load
    then show ?thesis using l t len dl ss_mark_ok [OF w t dl] by (simp add: defs)
  next
    case store
    then show ?thesis using l t len dt ss_mark_ok [OF w l dt] by (simp add: defs)
  next
    case both
    then show ?thesis using l t len dl dt ss_assign_ok [OF w t dl] ss_assign_ok [OF w l dt]
      by (cases "ss_SSIT s ! ?l < ss_SSIT s ! ?t") (simp_all add: defs)
  qed
qed

lemma squash_loop_value:
  assumes "\<forall>e\<in>set xs. snd e < length lfst \<and> snd e < length vl \<and> fst e \<le> lfst ! snd e"
  shows "squash_loop sq lfst xs vl =
    Inr (dropWhile (\<lambda>e. sq < fst e) xs, fold (\<lambda>e v. v[snd e := False]) (takeWhile (\<lambda>e. sq < fst e) xs) vl)"
  using assms
proof (induction xs arbitrary: vl)
  case (Cons x xs)
  obtain sn idx where x: "x = (sn, idx)" by fastforce
  show ?case
  proof (cases "sq < sn")
    case True
    have "(if vl ! idx then vl[idx := False] else vl) = vl[idx := False]"
      using list_update_id [of vl idx] by (cases "vl ! idx") simp_all
    moreover have "sq < lfst ! idx" using True Cons.prems x by (simp add: order.strict_trans2)
    ultimately show ?thesis using True Cons x by simp
  next
    case False
    then have "sn \<le> sq" by simp
    then show ?thesis using False x by simp
  qed
qed simp

lemma fold_clear_nth:
  "fold (\<lambda>e v. v[snd e := False]) xs vl ! k = (vl ! k \<and> k \<notin> snd ` set xs)" if "k < length vl" for vl :: "bool list"
  using that
proof (induction xs arbitrary: vl)
  case (Cons x xs)
  then show ?case by (cases "snd x = k") auto
qed simp

lemma fold_clear_length: "length (fold (\<lambda>e v. v[snd e := False]) xs vl) = length vl"
  by (induction xs arbitrary: vl) simp_all

lemma sorted_drop_filter:
  "sorted_wrt (\<lambda>a b. fst a > fst b) (xs :: (seqnum \<times> nat) list) \<Longrightarrow>
   dropWhile (\<lambda>e. sq < fst e) xs = filter (\<lambda>e. fst e \<le> sq) xs \<and>
   takeWhile (\<lambda>e. sq < fst e) xs = filter (\<lambda>e. sq < fst e) xs"
proof (induction xs)
  case (Cons x xs)
  show ?case
  proof (cases "sq < fst x")
    case False
    have le: "\<forall>y\<in>set xs. fst y \<le> sq" using Cons.prems False by (fastforce simp: not_less)
    then have "filter (\<lambda>e. fst e \<le> sq) xs = xs" "filter (\<lambda>e. sq < fst e) xs = []"
      by (simp_all add: filter_empty_conv not_less)
    then show ?thesis using False by (simp add: not_less)
  qed (use Cons in \<open>simp add: not_le\<close>)
qed simp

lemma ss_squash_value:
  assumes "ss_wf s"
  shows "ss_squash sq s = Inr (s\<lparr>ss_storeList := filter (\<lambda>e. fst e \<le> sq) (ss_storeList s),
    ss_validLFST := fold (\<lambda>e v. v[snd e := False]) (filter (\<lambda>e. sq < fst e) (ss_storeList s)) (ss_validLFST s)\<rparr>)"
proof -
  have "squash_loop sq (ss_LFST s) (ss_storeList s) (ss_validLFST s) =
      Inr (dropWhile (\<lambda>e. sq < fst e) (ss_storeList s),
        fold (\<lambda>e v. v[snd e := False]) (takeWhile (\<lambda>e. sq < fst e) (ss_storeList s)) (ss_validLFST s))"
    by (rule squash_loop_value) (use assms in \<open>simp add: ss_wf_def\<close>)
  moreover have "sorted_wrt (\<lambda>a b. fst a > fst b) (ss_storeList s)" using assms by (simp add: ss_wf_def)
  ultimately show ?thesis using sorted_drop_filter [of "ss_storeList s" sq] by (simp add: ss_squash_def)
qed

lemma ss_squash_ok:
  assumes "ss_wf s"
  shows "\<exists>s'. ss_squash sq s = Inr s' \<and> ss_wf s' \<and> set (ss_storeList s') \<subseteq> set (ss_storeList s)"
  using ss_squash_value [OF assms, of sq] ss_wf_filter [OF assms, of "\<lambda>e. fst e \<le> sq"]
  by (simp add: ss_wf_def fold_clear_length)

lemma ss_young_mono: "ss_young s b \<Longrightarrow> set (ss_storeList s') \<subseteq> set (ss_storeList s) \<Longrightarrow> ss_young s' b"
  by (auto simp: ss_young_def)

lemma ss_clear_keeps:
  assumes "ss_wf s"
  shows "\<exists>s'. ss_clear s = Inr s' \<and> ss_wf s' \<and> set (ss_storeList s') \<subseteq> set (ss_storeList s)"
  using ss_clear_ok [OF assms] assms by (simp add: ss_wf_def)

text \<open>The store-set predictor behind the common interface; it has nothing to do at commit.\<close>

definition store_set_ops :: "store_set dp_ops" where
  "store_set_ops = \<lparr>dp_checkInst = (\<lambda>pc _ _ _. ss_checkInst pc), dp_insertStore = ss_insertStore, dp_issued = ss_issued,
     dp_squash = ss_squash, dp_violation = (\<lambda>lpc _ _ spc _ _ _ _ _. ss_violation lpc spc),
     dp_commit = (\<lambda>_ _ _ _ _ _ _ s. Inr s), dp_clear = ss_clear\<rparr>"

interpretation sset: dep_predictor store_set_ops ss_wf ss_young "\<lambda>_. True"
proof unfold_locales
  fix p b pc sn and bh :: branch_history and ld st :: bool and h spc lpc :: u64 and lsn ssn :: seqnum and d :: int and pr i
    and la sa :: u64 and ls ss :: u32
  assume p: "ss_wf p" "ss_young p b"
  show "\<exists>r p'. dp_checkInst store_set_ops pc sn bh ld p = Inr (r, p') \<and> ss_wf p' \<and> ss_young p' b \<and> True"
    using ss_checkInst_ok [OF p(1), of pc] p(2) by (auto simp: store_set_ops_def ss_young_def)
  show "\<exists>p'. dp_insertStore store_set_ops pc sn p = Inr p' \<and> ss_wf p' \<and> ss_young p' sn" if "b \<le> sn"
    using ss_insertStore_ok [OF p that] by (simp add: store_set_ops_def)
  show "\<exists>p'. dp_issued store_set_ops pc sn st p = Inr p' \<and> ss_wf p' \<and> ss_young p' b"
    using ss_issued_ok [OF p(1), of pc sn st] ss_young_mono [OF p(2)] by (fastforce simp: store_set_ops_def)
  show "\<exists>p'. dp_squash store_set_ops sn p = Inr p' \<and> ss_wf p' \<and> ss_young p' b"
    using ss_squash_ok [OF p(1), of sn] ss_young_mono [OF p(2)] by (fastforce simp: store_set_ops_def)
  show "\<exists>p'. dp_violation store_set_ops lpc lsn ssn spc d pr i h bh p = Inr p' \<and> ss_wf p' \<and> ss_young p' b"
    using ss_violation_ok [OF p(1), of lpc spc] p(2) by (auto simp: store_set_ops_def ss_kept_def ss_young_def)
  show "\<exists>p'. dp_commit store_set_ops pc la ls sa ss i h p = Inr p' \<and> ss_wf p' \<and> ss_young p' b"
    using p by (simp add: store_set_ops_def)
  show "\<exists>p'. dp_clear store_set_ops p = Inr p' \<and> ss_wf p' \<and> ss_young p' b"
    using ss_clear_keeps [OF p(1)] ss_young_mono [OF p(2)] by (fastforce simp: store_set_ops_def)
next
  fix p b b'
  assume "ss_young p b" "b \<le> b'"
  then show "ss_young p b'" by (auto simp: ss_young_def intro: order.trans)
qed

section \<open>Properties\<close>

text \<open>C35. From a well-formed predictor, no sequence of calls that inserts stores in program order fails: no
  assertion on a table index fails, no table access is out of range and the squash loop always ends.\<close>

theorem store_set_calls_succeed:
  assumes "ss_wf s" "ss_young s b" "in_order (\<lambda>_. True) b cs"
  shows "\<exists>s'. rfold (dp_step store_set_ops) cs s = Inr s' \<and> ss_wf s'"
  by (rule sset.calls_succeed [OF assms])

lemma ss_new_ok:
  assumes "ss_new cp n m = Inr s" "n \<le> 2 ^ 31" "m \<le> 2 ^ 31"
  shows "ss_wf s \<and> ss_young s 0 \<and> ss_clearPeriod s = cp \<and> ss_memOpsPred s = 0"
proof -
  have "isPowerOf2 (of_nat n)" "isPowerOf2 (of_nat m)" using assms(1) by (simp_all add: ss_new_def rbind_eq_Inr)
  then have "0 < n" "0 < m" by (auto simp: isPowerOf2_def intro: Nat.gr0I)
  then show ?thesis using assms by (auto simp: ss_new_def rbind_eq_Inr ss_wf_def ss_young_def)
qed

lemma default_store_set: "\<exists>s. ss_new 250000 1024 1024 = Inr s \<and> ss_wf s \<and> ss_young s 0 \<and> ss_clearPeriod s = 250000 \<and> ss_memOpsPred s = 0"
proof -
  have "isPowerOf2 1024" by (simp add: isPowerOf2_def)
  then obtain s where s: "ss_new 250000 1024 1024 = Inr s" by (simp add: ss_new_def)
  from ss_new_ok [OF s] s show ?thesis by simp
qed

theorem store_set_calls_succeed_witness:
  "\<exists>s s'. ss_new 250000 1024 1024 = Inr s \<and>
    rfold (dp_step store_set_ops) [Violation 0x400 9 5 0x300 2 False 0 0 [], InsertStore 0x300 20, InsertStore 0x300 25,
      CheckInst 0x400 27 [] True, Squash_to 22, Issued 0x300 20 True] s = Inr s'"
proof -
  obtain s where s: "ss_new 250000 1024 1024 = Inr s" "ss_wf s" "ss_young s 0" using default_store_set by blast
  let ?cs = "[Violation 0x400 9 5 0x300 2 False 0 0 [], InsertStore 0x300 20, InsertStore 0x300 25,
      CheckInst 0x400 27 [] True, Squash_to 22, Issued 0x300 20 True]"
  have "in_order (\<lambda>_. True) 0 ?cs" by simp
  from store_set_calls_succeed [OF s(2,3) this] s(1) show ?thesis by blast
qed

lemma checkClear_idle:
  "ss_memOpsPred s < ss_clearPeriod s \<Longrightarrow> checkClear s = Inr (s\<lparr>ss_memOpsPred := ss_memOpsPred s + 1\<rparr>)"
  by (simp add: checkClear_def)

lemma calcIndex_kept: "ss_kept s s' \<Longrightarrow> calcIndex s' pc = calcIndex s pc"
  by (simp add: ss_kept_def calcIndex_def)

lemma ss_insertStore_value:
  assumes "ss_wf s" "ss_validSSIT s ! calcIndex s pc" "ss_memOpsPred s < ss_clearPeriod s"
  defines "d \<equiv> ss_SSIT s ! calcIndex s pc"
  shows "ss_insertStore pc sn s = Inr (s\<lparr>ss_memOpsPred := ss_memOpsPred s + 1, ss_LFST := (ss_LFST s)[d := sn],
    ss_validLFST := (ss_validLFST s)[d := True], ss_LFSTWrites := ss_LFSTWrites s + 1,
    ss_storeList := sl_put sn d (ss_storeList s)\<rparr>)"
  using calcIndex_bound [OF assms(1)] ss_lengths [OF assms(1)] ss_ssid_bound [OF assms(1) calcIndex_bound [OF assms(1)]]
    assms(2) checkClear_idle [OF assms(3)]
  by (simp add: ss_insertStore_def Let_def d_def)

text \<open>C36. A violation makes the predictor hold back the load: after a violation between a load and a store, and before the
  periodic wipe, the next instance of the store is what the next instance of the load is told to wait for.\<close>

theorem store_set_learns_violation:
  assumes "ss_wf s" "ss_young s b" "b \<le> sn" "ss_memOpsPred s < ss_clearPeriod s"
  shows "\<exists>s1 s2 s3 r. ss_violation lpc spc s = Inr s1 \<and> ss_insertStore spc sn s1 = Inr s2 \<and>
    ss_checkInst lpc s2 = Inr (r, s3) \<and> pr_seqNum r = sn"
proof -
  let ?l = "calcIndex s lpc" and ?t = "calcIndex s spc"
  obtain s1 where s1: "ss_violation lpc spc s = Inr s1" "ss_wf s1" "ss_kept s s1" "ss_joined ?l ?t s1"
    using ss_violation_ok [OF assms(1)] by blast
  have i1: "calcIndex s1 lpc = ?l" "calcIndex s1 spc = ?t" using calcIndex_kept [OF s1(3)] by simp_all
  have idle: "ss_memOpsPred s1 < ss_clearPeriod s1" and y1: "ss_young s1 b"
    using s1(3) assms(2,4) by (simp_all add: ss_kept_def ss_young_def)
  have v: "ss_validSSIT s1 ! calcIndex s1 spc" "ss_validSSIT s1 ! ?l" "ss_SSIT s1 ! ?l = ss_SSIT s1 ! ?t"
    using s1(4) i1 by (simp_all add: ss_joined_def)
  note ins = ss_insertStore_value [OF s1(2) v(1) idle, of sn]
  obtain s2 where s2: "ss_insertStore spc sn s1 = Inr s2" "ss_wf s2" using ss_insertStore_ok [OF s1(2) y1 assms(3)] by blast
  have c2: "calcIndex s2 lpc = ?l" using ins s2(1) i1 by (auto simp: calcIndex_def)
  have d: "ss_SSIT s1 ! ?t < length (ss_LFST s1)" "ss_SSIT s1 ! ?t < length (ss_validLFST s1)"
    using ss_ssid_bound [OF s1(2) calcIndex_bound [OF s1(2)], of spc] ss_lengths [OF s1(2)] i1 by simp_all
  have "ss_validSSIT s2 ! ?l \<and> ss_validLFST s2 ! (ss_SSIT s2 ! ?l) \<and> ss_LFST s2 ! (ss_SSIT s2 ! ?l) = sn"
    using ins s2(1) v i1 d by auto
  then show ?thesis using s1(1) s2(1) ss_checkInst_value [OF s2(2), of lpc] c2 by simp
qed

theorem store_set_learns_violation_witness:
  "\<exists>s s1 s2 s3 r. ss_new 250000 1024 1024 = Inr s \<and> ss_violation 0x400 0x300 s = Inr s1 \<and> ss_insertStore 0x300 20 s1 = Inr s2 \<and>
    ss_checkInst 0x400 s2 = Inr (r, s3) \<and> pr_seqNum r = 20"
proof -
  obtain s where s: "ss_new 250000 1024 1024 = Inr s" "ss_wf s" "ss_young s 0" "ss_memOpsPred s < ss_clearPeriod s"
    using default_store_set by force
  have "(0 :: seqnum) \<le> 20" by simp
  from store_set_learns_violation [OF s(2,3) this s(4)] s(1) show ?thesis by blast
qed

text \<open>A squash forgets exactly the outstanding stores younger than the squash point: they leave the list, the
  last-fetched-store entries of their sets are no longer valid, and every other entry and every older store is untouched.\<close>

theorem store_set_squash_exact:
  assumes "ss_wf s"
  shows "\<exists>s'. ss_squash sq s = Inr s' \<and> ss_storeList s' = filter (\<lambda>e. fst e \<le> sq) (ss_storeList s) \<and> ss_LFST s' = ss_LFST s \<and>
    (\<forall>k < ss_LFSTSize s. ss_validLFST s' ! k = (ss_validLFST s ! k \<and> (\<forall>e\<in>set (ss_storeList s). snd e = k \<longrightarrow> fst e \<le> sq)))"
proof -
  let ?v = "fold (\<lambda>e v. v[snd e := False]) (filter (\<lambda>e. sq < fst e) (ss_storeList s)) (ss_validLFST s)"
  have "?v ! k = (ss_validLFST s ! k \<and> (\<forall>e\<in>set (ss_storeList s). snd e = k \<longrightarrow> fst e \<le> sq))" if "k < ss_LFSTSize s" for k
    unfolding fold_clear_nth [OF that [folded ss_lengths(4) [OF assms]]] by (auto simp: image_iff not_less)
  then show ?thesis using ss_squash_value [OF assms, of sq] by simp
qed

theorem store_set_squash_exact_witness:
  "\<exists>s s'. ss_wf s \<and> ss_storeList s = [(30, 1), (20, 0)] \<and> ss_squash 25 s = Inr s' \<and> ss_storeList s' = [(20, 0)] \<and>
    ss_validLFST s' = [True, False]"
proof -
  let ?s = "\<lparr>ss_SSIT = [0, 1], ss_validSSIT = [True, True], ss_LFST = [20, 30], ss_validLFST = [True, True],
    ss_intended_index = [], ss_storeList = [(30, 1), (20, 0)], ss_clearPeriod = 9, ss_SSITSize = 2, ss_LFSTSize = 2,
    ss_offsetBits = 2, ss_memOpsPred = 0, ss_LFSTReads = 0, ss_LFSTWrites = 2\<rparr>"
  have w: "ss_wf ?s" by (simp add: ss_wf_def less_2_cases_iff)
  obtain s' where s': "ss_squash 25 ?s = Inr s'" "ss_storeList s' = [(20, 0)]"
    using store_set_squash_exact [OF w, of 25] by auto
  moreover have "ss_validLFST s' = [True, False]" using s'(1) by (simp add: ss_squash_def) auto
  ultimately show ?thesis using w by force
qed

text \<open>C37. Outside that order the squash loop can spin: it runs forever exactly when some store younger than the squash point
  belongs to a set whose last fetched store is not, which is what inserting two stores of one set in the
  wrong order leads to.\<close>

theorem squash_diverges_iff:
  assumes "sorted_wrt (\<lambda>a b. fst a > fst b) (ss_storeList s)"
    "\<forall>e\<in>set (ss_storeList s). snd e < length (ss_LFST s) \<and> snd e < length (ss_validLFST s)"
  shows "ss_squash sq s = Inl Diverges \<longleftrightarrow> (\<exists>e\<in>set (ss_storeList s). sq < fst e \<and> ss_LFST s ! snd e \<le> sq)"
proof -
  have "squash_loop sq lfst xs vl = Inl Diverges \<longleftrightarrow> (\<exists>e\<in>set xs. sq < fst e \<and> lfst ! snd e \<le> sq)"
    if "sorted_wrt (\<lambda>a b. fst a > fst b) xs" "\<forall>e\<in>set xs. snd e < length lfst \<and> snd e < length vl" for lfst xs vl
    using that
  proof (induction xs arbitrary: vl)
    case (Cons x xs)
    obtain sn idx where x: "x = (sn, idx)" by fastforce
    show ?case
    proof (cases "sq < sn")
      case False
      then have "sn \<le> sq" by simp
      then have "\<forall>e\<in>set (x # xs). fst e \<le> sq" using Cons.prems(1) x by (auto intro: order.trans less_imp_le)
      then show ?thesis using x \<open>sn \<le> sq\<close> by (auto simp: not_less)
    qed (use Cons x in \<open>auto simp: not_less\<close>)
  qed simp
  from this [OF assms] show ?thesis by (auto simp: ss_squash_def rbind_def split: sum.splits)
qed

theorem squash_diverges_iff_witness:
  "\<exists>s s1 s2 s3. ss_new 250000 2 2 = Inr s \<and> ss_violation 4 0 s = Inr s1 \<and> ss_insertStore 0 20 s1 = Inr s2 \<and>
    ss_insertStore 0 10 s2 = Inr s3 \<and> ss_squash 15 s3 = Inl Diverges"
proof -
  let ?s = "\<lparr>ss_SSIT = [0, 0], ss_validSSIT = [True, True], ss_LFST = [10, 0], ss_validLFST = [True, False],
    ss_intended_index = [(1, 4), (0, 0)], ss_storeList = [(20, 0), (10, 0)], ss_clearPeriod = 250000, ss_SSITSize = 2,
    ss_LFSTSize = 2, ss_offsetBits = 2, ss_memOpsPred = 2, ss_LFSTReads = 0, ss_LFSTWrites = 2\<rparr>"
  have "ss_squash 15 ?s = Inl Diverges" using squash_diverges_iff [of ?s 15] by simp
  moreover have "\<exists>s s1 s2. ss_new 250000 2 2 = Inr s \<and> ss_violation 4 0 s = Inr s1 \<and> ss_insertStore 0 20 s1 = Inr s2 \<and>
    ss_insertStore 0 10 s2 = Inr ?s"
    by (simp add: ss_new_def isPowerOf2_def ss_violation_def calcIndex_def calcSSID_def ss_mark_def ss_intend_def Let_def
        ss_insertStore_def checkClear_def numeral_2_eq_2 [THEN arg_cong, of "\<lambda>n. replicate n _"])
  ultimately show ?thesis by blast
qed

end
