(* ===== verification/Mem_Dep_Unit.thy ===== *)
theory Mem_Dep_Unit
  imports Phast "HOL-Library.AList"
begin

text \<open>
  The memory-dependence unit of \<^verbatim>\<open>cpu/o3/mem_dep_unit.hh\<close> and \<^verbatim>\<open>cpu/o3/mem_dep_unit.cc\<close>, a client of the
  dependence predictor. Its entries are shared objects that outlive their place in the hash table, so they
  live in a store and point at each other by index. The fields of an instruction that never change are
  a record of their own; the fields that the pipeline changes are kept per sequence number. The calls of
  \<^verbatim>\<open>InstructionQueue::addReadyMemInst\<close> are collected in the order in which they are made.
\<close>

section \<open>State\<close>

record dyn_inst =
  di_seqNum :: seqnum
  di_threadNumber :: nat
  di_pc :: u64
  di_isLoad :: bool
  di_isStore :: bool
  di_isAtomic :: bool
  di_isReadBarrier :: bool
  di_isWriteBarrier :: bool
  di_isHtmCmd :: bool
  di_sqIdx :: u64

record mem_dep_info =
  mi_storeQueueDistance :: int
  mi_predStoreAddr :: addr
  mi_predStoreSize :: u32
  mi_predBranchHistLength :: nat
  mi_predictorHash :: u64
  mi_predicted :: bool

record inst_state =
  is_canIssue :: bool
  is_effAddr :: addr
  is_effSize :: u32
  is_memDepInfo :: mem_dep_info

record mem_dep_entry =
  me_inst :: dyn_inst
  me_dependInsts :: "nat list"
  me_regsReady :: bool
  me_memDeps :: int
  me_squashed :: bool

record 'p mem_dep_unit =
  mu_id :: nat
  mu_entries :: "mem_dep_entry list"
  mu_memDepHash :: "(seqnum \<times> nat) list"
  mu_instList :: "dyn_inst list list"
  mu_instsToReplay :: "dyn_inst list"
  mu_loadBarrierSNs :: "seqnum list"
  mu_storeBarrierSNs :: "seqnum list"
  mu_depPred :: 'p
  mu_state :: "seqnum \<Rightarrow> inst_state"
  mu_ready :: "dyn_inst list"
  mu_insertedLoads :: nat
  mu_insertedStores :: nat
  mu_conflictingLoads :: nat
  mu_conflictingStores :: nat

text \<open>What the unit asks the load/store queue: the head of the store queue, and the instruction in a slot.\<close>

record lsq_view =
  lv_storeHead :: int
  lv_instruction :: "u64 \<Rightarrow> seqnum option"

section \<open>Operations\<close>

definition mu_new :: "nat \<Rightarrow> 'p \<Rightarrow> (seqnum \<Rightarrow> inst_state) \<Rightarrow> 'p mem_dep_unit" where
  "mu_new tid pred st = \<lparr>mu_id = tid, mu_entries = [], mu_memDepHash = [], mu_instList = replicate MaxThreads [],
     mu_instsToReplay = [], mu_loadBarrierSNs = [], mu_storeBarrierSNs = [], mu_depPred = pred, mu_state = st, mu_ready = [],
     mu_insertedLoads = 0, mu_insertedStores = 0, mu_conflictingLoads = 0, mu_conflictingStores = 0\<rparr>"

definition mu_isDrained :: "'p mem_dep_unit \<Rightarrow> bool" where
  "mu_isDrained s \<longleftrightarrow> mu_instsToReplay s = [] \<and> mu_memDepHash s = [] \<and> mu_instsToReplay s = [] \<and> list_all (\<lambda>l. l = []) (mu_instList s)"

definition mu_drainSanityCheck :: "'p mem_dep_unit \<Rightarrow> unit res" where
  "mu_drainSanityCheck s =
     rbind (check (mu_instsToReplay s = []) Assertion) (\<lambda>_.
     rbind (check (mu_memDepHash s = []) Assertion) (\<lambda>_.
     rbind (check (list_all (\<lambda>l. l = []) (mu_instList s)) Assertion) (\<lambda>_.
     rbind (check (mu_instsToReplay s = []) Assertion) (\<lambda>_.
     check (mu_memDepHash s = []) Assertion))))"

definition mu_clear_dep_pred :: "'p dp_ops \<Rightarrow> 'p mem_dep_unit \<Rightarrow> 'p mem_dep_unit res" where
  "mu_clear_dep_pred ops s = rbind (dp_clear ops (mu_depPred s)) (\<lambda>p. Inr (s\<lparr>mu_depPred := p\<rparr>))"

definition mu_takeOverFrom :: "'p dp_ops \<Rightarrow> 'p mem_dep_unit \<Rightarrow> 'p mem_dep_unit res" where
  "mu_takeOverFrom ops s = mu_clear_dep_pred ops (s\<lparr>mu_loadBarrierSNs := [], mu_storeBarrierSNs := []\<rparr>)"

definition load_barrier :: "dyn_inst \<Rightarrow> bool" where
  "load_barrier i \<longleftrightarrow> di_isReadBarrier i \<or> di_isHtmCmd i"

definition store_barrier :: "dyn_inst \<Rightarrow> bool" where
  "store_barrier i \<longleftrightarrow> di_isWriteBarrier i \<or> di_isHtmCmd i"

definition insertBarrierSN :: "dyn_inst \<Rightarrow> 'p mem_dep_unit \<Rightarrow> 'p mem_dep_unit" where
  "insertBarrierSN i s =
     (let s = (if load_barrier i then s\<lparr>mu_loadBarrierSNs := List.insert (di_seqNum i) (mu_loadBarrierSNs s)\<rparr> else s) in
      if store_barrier i then s\<lparr>mu_storeBarrierSNs := List.insert (di_seqNum i) (mu_storeBarrierSNs s)\<rparr> else s)"

text \<open>A new entry is inserted into the hash table unless the number is taken, and its instruction is put at the end of its thread's list.\<close>

definition new_entry :: "dyn_inst \<Rightarrow> mem_dep_entry" where
  "new_entry i = \<lparr>me_inst = i, me_dependInsts = [], me_regsReady = False, me_memDeps = 0, me_squashed = False\<rparr>"

definition mu_place :: "dyn_inst \<Rightarrow> 'p mem_dep_unit \<Rightarrow> 'p mem_dep_unit res" where
  "mu_place i s =
     rbind (vget (mu_instList s) (di_threadNumber i)) (\<lambda>l.
     Inr (s\<lparr>mu_entries := mu_entries s @ [new_entry i],
            mu_memDepHash := (if map_of (mu_memDepHash s) (di_seqNum i) = None
                              then (di_seqNum i, length (mu_entries s)) # mu_memDepHash s else mu_memDepHash s),
            mu_instList := (mu_instList s)[di_threadNumber i := l @ [i]]\<rparr>))"

definition findInHash :: "dyn_inst \<Rightarrow> 'p mem_dep_unit \<Rightarrow> nat res" where
  "findInHash i s = (case map_of (mu_memDepHash s) (di_seqNum i) of None \<Rightarrow> Inl Assertion | Some e \<Rightarrow> Inr e)"

definition moveToReady :: "nat \<Rightarrow> 'p mem_dep_unit \<Rightarrow> 'p mem_dep_unit res" where
  "moveToReady e s =
     rbind (vget (mu_entries s) e) (\<lambda>en.
     rbind (check (\<not> me_squashed en) Assertion) (\<lambda>_. Inr (s\<lparr>mu_ready := mu_ready s @ [me_inst en]\<rparr>)))"

definition mu_update_entry :: "nat \<Rightarrow> (mem_dep_entry \<Rightarrow> mem_dep_entry) \<Rightarrow> 'p mem_dep_unit \<Rightarrow> 'p mem_dep_unit res" where
  "mu_update_entry e f s = rbind (vget (mu_entries s) e) (\<lambda>en. Inr (s\<lparr>mu_entries := (mu_entries s)[e := f en]\<rparr>))"

definition mu_set_info :: "seqnum \<Rightarrow> (mem_dep_info \<Rightarrow> mem_dep_info) \<Rightarrow> 'p mem_dep_unit \<Rightarrow> 'p mem_dep_unit" where
  "mu_set_info sn f s = s\<lparr>mu_state := (mu_state s)(sn := (mu_state s sn)\<lparr>is_memDepInfo := f (is_memDepInfo (mu_state s sn))\<rparr>)\<rparr>"

text \<open>The dependence that the predictor proposes: the store at the predicted distance in front of the
  instruction if the store queue reaches that far, else the store the predictor names.\<close>

definition predicted_dependency ::
  "lsq_view \<Rightarrow> dyn_inst \<Rightarrow> prediction_result \<Rightarrow> 'p mem_dep_unit \<Rightarrow> (nat list \<times> 'p mem_dep_unit) res" where
  "predicted_dependency lsq i r s =
     (let d = pr_storeQueueDistance r in
      if d \<noteq> 0 \<and> word_of_int (lv_storeHead lsq + d) \<le> di_sqIdx i
      then (case lv_instruction lsq (di_sqIdx i - word_of_int d) of
              None \<Rightarrow> Inl NullDeref
            | Some sn \<Rightarrow> (case map_of (mu_memDepHash s) sn of
                None \<Rightarrow> Inr ([], s)
              | Some e \<Rightarrow> Inr ([e], mu_set_info (di_seqNum i) (\<lambda>m. m\<lparr>mi_predBranchHistLength := pr_predBranchHistLength r,
                  mi_predictorHash := pr_predictorHash r, mi_predicted := True\<rparr>) s)))
      else if pr_seqNum r \<noteq> 0
      then (case map_of (mu_memDepHash s) (pr_seqNum r) of
              None \<Rightarrow> Inr ([], s)
            | Some e \<Rightarrow> Inr ([e], mu_set_info (di_seqNum i) (\<lambda>m. m\<lparr>mi_predicted := True\<rparr>) s))
      else Inr ([], s))"

definition in_flight :: "seqnum list \<Rightarrow> 'p mem_dep_unit \<Rightarrow> nat list" where
  "in_flight sns s = concat (map (\<lambda>sn. case map_of (mu_memDepHash s) sn of None \<Rightarrow> [] | Some e \<Rightarrow> [e]) sns)"

definition barrier_dependencies :: "dyn_inst \<Rightarrow> 'p mem_dep_unit \<Rightarrow> nat list" where
  "barrier_dependencies i s =
     (if (di_isLoad i \<or> di_isAtomic i) \<and> mu_loadBarrierSNs s \<noteq> [] then in_flight (mu_loadBarrierSNs s) s else []) @
     (if (di_isStore i \<or> di_isAtomic i) \<and> mu_storeBarrierSNs s \<noteq> [] then in_flight (mu_storeBarrierSNs s) s else [])"

definition mu_add_dependent :: "nat \<Rightarrow> nat \<Rightarrow> 'p mem_dep_unit \<Rightarrow> 'p mem_dep_unit res" where
  "mu_add_dependent e d = mu_update_entry d (\<lambda>en. en\<lparr>me_dependInsts := me_dependInsts en @ [e]\<rparr>)"

definition mu_regs_if_ready :: "dyn_inst \<Rightarrow> nat \<Rightarrow> 'p mem_dep_unit \<Rightarrow> 'p mem_dep_unit res" where
  "mu_regs_if_ready i e s =
     (if is_canIssue (mu_state s (di_seqNum i)) then mu_update_entry e (\<lambda>en. en\<lparr>me_regsReady := True\<rparr>) s else Inr s)"

definition mu_depend :: "dyn_inst \<Rightarrow> nat \<Rightarrow> nat list \<Rightarrow> 'p mem_dep_unit \<Rightarrow> 'p mem_dep_unit res" where
  "mu_depend i e dependencies s =
     (if dependencies = []
      then if is_canIssue (mu_state s (di_seqNum i))
           then rbind (mu_update_entry e (\<lambda>en. en\<lparr>me_regsReady := True\<rparr>) s) (moveToReady e) else Inr s
      else rbind (mu_update_entry e (\<lambda>en. en\<lparr>me_memDeps := int (length dependencies)\<rparr>) s) (\<lambda>s.
           rbind (rfold (mu_add_dependent e) dependencies s) (\<lambda>s.
           rbind (mu_regs_if_ready i e s) (\<lambda>s.
           let s = s\<lparr>mu_state := (mu_state s)(di_seqNum i := (mu_state s (di_seqNum i))\<lparr>is_canIssue := False\<rparr>)\<rparr> in
           Inr (if di_isLoad i then s\<lparr>mu_conflictingLoads := mu_conflictingLoads s + 1\<rparr>
                else s\<lparr>mu_conflictingStores := mu_conflictingStores s + 1\<rparr>)))))"

text \<open>The end of \<^verbatim>\<open>insert\<close> and of \<^verbatim>\<open>insertNonSpec\<close>.\<close>

definition mu_count_inst :: "'p dp_ops \<Rightarrow> dyn_inst \<Rightarrow> 'p mem_dep_unit \<Rightarrow> 'p mem_dep_unit res" where
  "mu_count_inst ops i s =
     (if di_isStore i \<or> di_isAtomic i
      then rbind (dp_insertStore ops (di_pc i) (di_seqNum i) (mu_depPred s)) (\<lambda>p.
           Inr (s\<lparr>mu_depPred := p, mu_insertedStores := mu_insertedStores s + 1\<rparr>))
      else if di_isLoad i then Inr (s\<lparr>mu_insertedLoads := mu_insertedLoads s + 1\<rparr>)
      else Inl Panic)"

definition mu_insert :: "'p dp_ops \<Rightarrow> lsq_view \<Rightarrow> dyn_inst \<Rightarrow> branch_history \<Rightarrow> 'p mem_dep_unit \<Rightarrow> 'p mem_dep_unit res" where
  "mu_insert ops lsq i branchHistory s =
     (let e = length (mu_entries s) in
      rbind (mu_place i s) (\<lambda>s.
      rbind (dp_checkInst ops (di_pc i) (di_seqNum i) branchHistory (di_isLoad i) (mu_depPred s)) (\<lambda>(prediction, p).
      rbind (predicted_dependency lsq i prediction (s\<lparr>mu_depPred := p\<rparr>)) (\<lambda>(deps, s).
      rbind (mu_depend i e (deps @ barrier_dependencies i s) s) (\<lambda>s.
      mu_count_inst ops i (insertBarrierSN i s))))))"

definition mu_insertBarrier :: "dyn_inst \<Rightarrow> 'p mem_dep_unit \<Rightarrow> 'p mem_dep_unit res" where
  "mu_insertBarrier i s = rbind (mu_place i s) (\<lambda>s. Inr (insertBarrierSN i s))"

definition mu_insertNonSpec :: "'p dp_ops \<Rightarrow> dyn_inst \<Rightarrow> 'p mem_dep_unit \<Rightarrow> 'p mem_dep_unit res" where
  "mu_insertNonSpec ops i s = rbind (mu_insertBarrier i s) (mu_count_inst ops i)"

definition mu_regsReady :: "dyn_inst \<Rightarrow> 'p mem_dep_unit \<Rightarrow> 'p mem_dep_unit res" where
  "mu_regsReady i s =
     rbind (findInHash i s) (\<lambda>e.
     rbind (mu_update_entry e (\<lambda>en. en\<lparr>me_regsReady := True\<rparr>) s) (\<lambda>s.
     rbind (vget (mu_entries s) e) (\<lambda>en. if me_memDeps en = 0 then moveToReady e s else Inr s)))"

definition mu_nonSpecInstReady :: "dyn_inst \<Rightarrow> 'p mem_dep_unit \<Rightarrow> 'p mem_dep_unit res" where
  "mu_nonSpecInstReady i s = rbind (findInHash i s) (\<lambda>e. moveToReady e s)"

definition mu_reschedule :: "dyn_inst \<Rightarrow> 'p mem_dep_unit \<Rightarrow> 'p mem_dep_unit" where
  "mu_reschedule i s = s\<lparr>mu_instsToReplay := mu_instsToReplay s @ [i]\<rparr>"

definition mu_replay :: "'p mem_dep_unit \<Rightarrow> 'p mem_dep_unit res" where
  "mu_replay s = rfold (\<lambda>i s. rbind (findInHash i s) (\<lambda>e. rbind (moveToReady e s) (\<lambda>s.
     Inr (s\<lparr>mu_instsToReplay := tl (mu_instsToReplay s)\<rparr>)))) (mu_instsToReplay s) s"

definition mu_completed :: "dyn_inst \<Rightarrow> 'p mem_dep_unit \<Rightarrow> 'p mem_dep_unit res" where
  "mu_completed i s =
     rbind (findInHash i s) (\<lambda>e.
     rbind (vget (mu_entries s) e) (\<lambda>en.
     rbind (vget (mu_instList s) (di_threadNumber i)) (\<lambda>l.
     Inr (s\<lparr>mu_instList := (mu_instList s)[di_threadNumber i := remove1 (me_inst en) l],
            mu_memDepHash := AList.delete (di_seqNum i) (mu_memDepHash s)\<rparr>))))"

text \<open>Release one dependence of entry \<open>d\<close>; the instruction of an entry is set for good when the entry is made.\<close>

definition mu_release :: "dyn_inst \<Rightarrow> nat \<Rightarrow> 'p mem_dep_unit \<Rightarrow> 'p mem_dep_unit res" where
  "mu_release i d s =
     rbind (mu_update_entry d (\<lambda>en. en\<lparr>me_memDeps := me_memDeps en - 1\<rparr>) s) (\<lambda>s.
     rbind (vget (mu_entries s) d) (\<lambda>en.
     if me_memDeps en = 0
     then let dn = di_seqNum (me_inst en);
              s = (if mi_predicted (is_memDepInfo (mu_state s dn)) \<and> di_isStore i
                   then mu_set_info dn (\<lambda>m. m\<lparr>mi_predStoreAddr := is_effAddr (mu_state s (di_seqNum i)),
                          mi_predStoreSize := is_effSize (mu_state s (di_seqNum i))\<rparr>) s
                   else s) in
          if me_regsReady en \<and> \<not> me_squashed en then moveToReady d s else Inr s
     else Inr s))"

definition wakes :: "dyn_inst \<Rightarrow> bool" where
  "wakes i \<longleftrightarrow> di_isStore i \<or> di_isAtomic i \<or> di_isReadBarrier i \<or> di_isWriteBarrier i \<or> di_isHtmCmd i"

definition mu_wakeDependents :: "dyn_inst \<Rightarrow> 'p mem_dep_unit \<Rightarrow> 'p mem_dep_unit res" where
  "mu_wakeDependents i s =
     (if \<not> wakes i then Inr s
      else rbind (findInHash i s) (\<lambda>e.
           rbind (vget (mu_entries s) e) (\<lambda>en.
           rbind (rfold (mu_release i) (me_dependInsts en) s) (\<lambda>s.
           mu_update_entry e (\<lambda>en. en\<lparr>me_dependInsts := []\<rparr>) s))))"

definition mu_completeInst :: "dyn_inst \<Rightarrow> 'p mem_dep_unit \<Rightarrow> 'p mem_dep_unit res" where
  "mu_completeInst i s =
     rbind (mu_wakeDependents i s) (\<lambda>s.
     rbind (mu_completed i s) (\<lambda>s.
     rbind (if store_barrier i
            then rbind (check (mu_storeBarrierSNs s \<noteq> []) Assertion) (\<lambda>_.
                 Inr (s\<lparr>mu_storeBarrierSNs := removeAll (di_seqNum i) (mu_storeBarrierSNs s)\<rparr>))
            else Inr s) (\<lambda>s.
     if load_barrier i
     then rbind (check (mu_loadBarrierSNs s \<noteq> []) Assertion) (\<lambda>_.
          Inr (s\<lparr>mu_loadBarrierSNs := removeAll (di_seqNum i) (mu_loadBarrierSNs s)\<rparr>))
     else Inr s)))"

definition mu_squash_one :: "dyn_inst \<Rightarrow> 'p mem_dep_unit \<Rightarrow> 'p mem_dep_unit res" where
  "mu_squash_one i s =
     (let s = s\<lparr>mu_loadBarrierSNs := removeAll (di_seqNum i) (mu_loadBarrierSNs s),
                mu_storeBarrierSNs := removeAll (di_seqNum i) (mu_storeBarrierSNs s)\<rparr> in
      rbind (findInHash i s) (\<lambda>e.
      rbind (mu_update_entry e (\<lambda>en. en\<lparr>me_squashed := True\<rparr>) s) (\<lambda>s.
      Inr (s\<lparr>mu_memDepHash := AList.delete (di_seqNum i) (mu_memDepHash s)\<rparr>))))"

text \<open>The loop from the back of the thread's list; the list is given back to front.\<close>

fun mu_squash_loop :: "seqnum \<Rightarrow> dyn_inst list \<Rightarrow> 'p mem_dep_unit \<Rightarrow> (dyn_inst list \<times> 'p mem_dep_unit) res" where
  "mu_squash_loop sq [] s = Inr ([], s)"
| "mu_squash_loop sq (i # is) s =
     (if sq < di_seqNum i then rbind (mu_squash_one i s) (mu_squash_loop sq is) else Inr (i # is, s))"

definition mu_squash :: "'p dp_ops \<Rightarrow> seqnum \<Rightarrow> nat \<Rightarrow> 'p mem_dep_unit \<Rightarrow> 'p mem_dep_unit res" where
  "mu_squash ops squashed_num tid s =
     (let s = s\<lparr>mu_instsToReplay := filter (\<lambda>i. \<not> (di_threadNumber i = tid \<and> squashed_num < di_seqNum i)) (mu_instsToReplay s)\<rparr> in
      rbind (vget (mu_instList s) tid) (\<lambda>l.
      rbind (mu_squash_loop squashed_num (rev l) s) (\<lambda>(kept, s).
      rbind (dp_squash ops squashed_num (mu_depPred s)) (\<lambda>p.
      Inr (s\<lparr>mu_instList := (mu_instList s)[tid := rev kept], mu_depPred := p\<rparr>)))))"

definition mu_violation :: "'p dp_ops \<Rightarrow> seqnum \<Rightarrow> u64 \<Rightarrow> dyn_inst \<Rightarrow> branch_history \<Rightarrow> 'p mem_dep_unit \<Rightarrow> 'p mem_dep_unit res" where
  "mu_violation ops store_seq_num store_pc violating_load branchHistory s =
     (let m = is_memDepInfo (mu_state s (di_seqNum violating_load)) in
      rbind (dp_violation ops (di_pc violating_load) (di_seqNum violating_load) store_seq_num store_pc (mi_storeQueueDistance m)
        (mi_predicted m) (mi_predBranchHistLength m) (mi_predictorHash m) branchHistory (mu_depPred s)) (\<lambda>p.
      Inr (s\<lparr>mu_depPred := p\<rparr>)))"

definition mu_issue :: "'p dp_ops \<Rightarrow> dyn_inst \<Rightarrow> 'p mem_dep_unit \<Rightarrow> 'p mem_dep_unit res" where
  "mu_issue ops i s = rbind (dp_issued ops (di_pc i) (di_seqNum i) (di_isStore i) (mu_depPred s)) (\<lambda>p. Inr (s\<lparr>mu_depPred := p\<rparr>))"

definition mu_commit :: "'p dp_ops \<Rightarrow> dyn_inst \<Rightarrow> 'p mem_dep_unit \<Rightarrow> 'p mem_dep_unit res" where
  "mu_commit ops i s =
     (if di_isStore i then Inr s
      else let st = mu_state s (di_seqNum i); m = is_memDepInfo st in
           rbind (dp_commit ops (di_pc i) (is_effAddr st) (is_effSize st) (mi_predStoreAddr m) (mi_predStoreSize m)
             (mi_predBranchHistLength m) (mi_predictorHash m) (mu_depPred s)) (\<lambda>p. Inr (s\<lparr>mu_depPred := p\<rparr>)))"

section \<open>The invariant\<close>

text \<open>
  \<open>H\<close> is the hash table as a map and \<open>E\<close> the store of entries. An instruction in the unit has as many
  unresolved dependences as there are places in the dependents lists of the entries in the table where it occurs;
  its dependents are younger and are either in the table themselves or squashed; the barriers on record
  are those in the table, up to the exempted numbers \<open>X\<close>; the list \<open>l\<close> holds the instructions of the table
  in program order; and no number exceeds \<open>b\<close>.
\<close>

type_synonym dep_hash = "seqnum \<Rightarrow> nat option"

definition waits :: "mem_dep_entry list \<Rightarrow> dep_hash \<Rightarrow> nat \<Rightarrow> nat" where
  "waits E H q = (\<Sum>e\<in>ran H. count_list (me_dependInsts (E ! e)) q)"

definition entry_ok :: "nat \<Rightarrow> mem_dep_entry list \<Rightarrow> dep_hash \<Rightarrow> seqnum \<Rightarrow> nat \<Rightarrow> bool" where
  "entry_ok tid E H sn e \<longleftrightarrow> e < length E \<and> di_seqNum (me_inst (E ! e)) = sn \<and> di_threadNumber (me_inst (E ! e)) = tid \<and>
     \<not> me_squashed (E ! e) \<and> (me_dependInsts (E ! e) \<noteq> [] \<longrightarrow> wakes (me_inst (E ! e))) \<and>
     (\<forall>q\<in>set (me_dependInsts (E ! e)). q < length E \<and> sn < di_seqNum (me_inst (E ! q)) \<and> (q \<in> ran H \<or> me_squashed (E ! q)))"

definition barriers_ok :: "mem_dep_entry list \<Rightarrow> dep_hash \<Rightarrow> seqnum list \<Rightarrow> seqnum list \<Rightarrow> seqnum set \<Rightarrow> bool" where
  "barriers_ok E H LB SB X \<longleftrightarrow> (\<forall>sn. sn \<notin> X \<longrightarrow>
     (sn \<in> set LB \<longleftrightarrow> (\<exists>e. H sn = Some e \<and> load_barrier (me_inst (E ! e)))) \<and>
     (sn \<in> set SB \<longleftrightarrow> (\<exists>e. H sn = Some e \<and> store_barrier (me_inst (E ! e)))))"

definition deps_ok :: "nat \<Rightarrow> mem_dep_entry list \<Rightarrow> dep_hash \<Rightarrow> seqnum \<Rightarrow> bool" where
  "deps_ok tid E H b \<longleftrightarrow> finite (dom H) \<and> (\<forall>sn e. H sn = Some e \<longrightarrow> entry_ok tid E H sn e \<and> sn \<le> b) \<and>
     (\<forall>e\<in>ran H. me_memDeps (E ! e) = int (waits E H e))"

definition insts_ok :: "mem_dep_entry list \<Rightarrow> dep_hash \<Rightarrow> dyn_inst list \<Rightarrow> bool" where
  "insts_ok E H l \<longleftrightarrow> sorted_wrt (\<lambda>i j. di_seqNum i < di_seqNum j) l \<and> set l = (\<lambda>e. me_inst (E ! e)) ` ran H"

definition replay_ok :: "mem_dep_entry list \<Rightarrow> dep_hash \<Rightarrow> dyn_inst list \<Rightarrow> bool" where
  "replay_ok E H R \<longleftrightarrow> (\<forall>i\<in>set R. \<exists>e. H (di_seqNum i) = Some e \<and> me_inst (E ! e) = i)"

definition mu_core :: "seqnum set \<Rightarrow> dyn_inst list \<Rightarrow> 'p mem_dep_unit \<Rightarrow> seqnum \<Rightarrow> bool" where
  "mu_core X l s b \<longleftrightarrow> deps_ok (mu_id s) (mu_entries s) (map_of (mu_memDepHash s)) b \<and>
     insts_ok (mu_entries s) (map_of (mu_memDepHash s)) l \<and>
     barriers_ok (mu_entries s) (map_of (mu_memDepHash s)) (mu_loadBarrierSNs s) (mu_storeBarrierSNs s) X \<and>
     replay_ok (mu_entries s) (map_of (mu_memDepHash s)) (mu_instsToReplay s)"

definition lists_ok :: "'p mem_dep_unit \<Rightarrow> bool" where
  "lists_ok s \<longleftrightarrow> mu_id s < length (mu_instList s) \<and> (\<forall>t < length (mu_instList s). t \<noteq> mu_id s \<longrightarrow> mu_instList s ! t = [])"

definition mu_inv :: "'p mem_dep_unit \<Rightarrow> seqnum \<Rightarrow> bool" where
  "mu_inv s b \<longleftrightarrow> lists_ok s \<and> mu_core {} (mu_instList s ! mu_id s) s b"

text \<open>Changing other parts of an entry than those the invariant reads.\<close>

lemma entry_ok_inj: "entry_ok tid E H sn e \<Longrightarrow> entry_ok tid E H sn' e \<Longrightarrow> sn = sn'"
  by (simp add: entry_ok_def)

lemma deps_ok_inj: "deps_ok tid E H b \<Longrightarrow> H sn = Some e \<Longrightarrow> H sn' = Some e \<Longrightarrow> sn = sn'"
  by (meson deps_ok_def entry_ok_inj)

lemma deps_ok_ran: "deps_ok tid E H b \<Longrightarrow> e \<in> ran H \<Longrightarrow> H (di_seqNum (me_inst (E ! e))) = Some e"
  by (auto simp: deps_ok_def entry_ok_def ran_def)

lemma deps_ok_entry: "deps_ok tid E H b \<Longrightarrow> H sn = Some e \<Longrightarrow> entry_ok tid E H sn e \<and> sn \<le> b"
  by (simp add: deps_ok_def)

lemma finite_live: "deps_ok tid E H b \<Longrightarrow> finite (ran H)"
  by (simp add: deps_ok_def finite_ran)

lemma ran_remove:
  assumes "deps_ok tid E H b" "H sn = Some e"
  shows "ran (H(sn := None)) = ran H - {e}"
proof (rule set_eqI)
  fix x
  have "x \<in> ran (H(sn := None)) \<longleftrightarrow> (\<exists>k. k \<noteq> sn \<and> H k = Some x)" by (auto simp: ran_def)
  also have "\<dots> \<longleftrightarrow> (\<exists>k. H k = Some x \<and> x \<noteq> e)" using deps_ok_inj [OF assms(1)] assms(2) by (metis option.inject)
  finally show "x \<in> ran (H(sn := None)) \<longleftrightarrow> x \<in> ran H - {e}" by (auto simp: ran_def)
qed

text \<open>Two stores that agree on what the invariant reads of an entry.\<close>

definition same_deps :: "mem_dep_entry list \<Rightarrow> mem_dep_entry list \<Rightarrow> bool" where
  "same_deps E E' \<longleftrightarrow> length E' = length E \<and> (\<forall>q < length E. me_inst (E' ! q) = me_inst (E ! q) \<and>
     me_dependInsts (E' ! q) = me_dependInsts (E ! q) \<and> me_memDeps (E' ! q) = me_memDeps (E ! q) \<and> me_squashed (E' ! q) = me_squashed (E ! q))"

lemma same_deps_update:
  "e < length E \<Longrightarrow> me_inst v = me_inst (E ! e) \<Longrightarrow> me_dependInsts v = me_dependInsts (E ! e) \<Longrightarrow>
   me_memDeps v = me_memDeps (E ! e) \<Longrightarrow> me_squashed v = me_squashed (E ! e) \<Longrightarrow> same_deps E (E[e := v])"
  by (simp add: same_deps_def nth_list_update)

lemma core_same_deps:
  assumes "mu_core X l s b" "same_deps (mu_entries s) E'"
  shows "mu_core X l (s\<lparr>mu_entries := E'\<rparr>) b"
proof -
  let ?E = "mu_entries s" and ?H = "map_of (mu_memDepHash s)"
  have d: "deps_ok (mu_id s) ?E ?H b" using assms(1) by (simp add: mu_core_def)
  have lt: "e < length ?E" if "?H sn = Some e" for sn e using d that by (auto simp: deps_ok_def entry_ok_def)
  have ltr: "e < length ?E" if "e \<in> ran ?H" for e using lt that by (auto simp: ran_def)
  have same: "me_inst (E' ! e) = me_inst (?E ! e)" "me_dependInsts (E' ! e) = me_dependInsts (?E ! e)"
    "me_memDeps (E' ! e) = me_memDeps (?E ! e)" "me_squashed (E' ! e) = me_squashed (?E ! e)" if "e < length ?E" for e
    using assms(2) that by (simp_all add: same_deps_def)
  have len: "length E' = length ?E" using assms(2) by (simp add: same_deps_def)
  have w: "waits E' ?H q = waits ?E ?H q" for q unfolding waits_def by (rule sum.cong) (simp_all add: same(2) ltr)
  have e: "entry_ok (mu_id s) E' ?H sn e = entry_ok (mu_id s) ?E ?H sn e" if "?H sn = Some e" for sn e
    using same [OF lt [OF that]] same len by (auto simp: entry_ok_def)
  have "deps_ok (mu_id s) E' ?H b" using d unfolding deps_ok_def by (simp add: e w same(3) ltr)
  moreover have "insts_ok E' ?H l" using assms(1) unfolding mu_core_def insts_ok_def by (auto simp: same(1) ltr)
  moreover have "barriers_ok E' ?H (mu_loadBarrierSNs s) (mu_storeBarrierSNs s) X"
    using assms(1) unfolding mu_core_def barriers_ok_def by (auto simp: same(1) lt)
  moreover have "replay_ok E' ?H (mu_instsToReplay s)"
    using assms(1) unfolding mu_core_def replay_ok_def by (metis same(1) lt)
  ultimately show ?thesis by (simp add: mu_core_def)
qed

text \<open>Placing a new youngest instruction.\<close>

lemma deps_ok_lt: "deps_ok tid E H b \<Longrightarrow> H sn = Some e \<Longrightarrow> e < length E"
  by (auto simp: deps_ok_def entry_ok_def)

lemma deps_ok_lt_ran: "deps_ok tid E H b \<Longrightarrow> e \<in> ran H \<Longrightarrow> e < length E"
  using deps_ok_ran [of tid E H b e] deps_ok_lt [of tid E H b] by blast

lemma deps_ok_fresh: "deps_ok tid E H b \<Longrightarrow> b < sn \<Longrightarrow> H sn = None"
  using deps_ok_entry [of tid E H b sn] by (cases "H sn") (auto simp: leD)

lemma waits_fresh:
  assumes "deps_ok tid E H b"
  shows "waits E H (length E) = 0"
proof -
  have "length E \<notin> set (me_dependInsts (E ! e))" if "e \<in> ran H" for e
    using deps_ok_entry [OF assms deps_ok_ran [OF assms that]] by (auto simp: entry_ok_def)
  then show ?thesis unfolding waits_def by (intro sum.neutral) (simp add: count_list_0_iff)
qed

lemma place_ran: "deps_ok tid E H b \<Longrightarrow> b < di_seqNum i \<Longrightarrow> ran (H(di_seqNum i \<mapsto> length E)) = insert (length E) (ran H)"
  using deps_ok_fresh [of tid E H b] by (simp add: ran_map_upd)

lemma place_nth: "e < length E \<Longrightarrow> (E @ [new_entry i]) ! e = E ! e"
  by (simp add: nth_append)

lemma place_waits:
  assumes d: "deps_ok tid E H b" and younger: "b < di_seqNum i"
  shows "waits (E @ [new_entry i]) (H(di_seqNum i \<mapsto> length E)) q = waits E H q"
proof -
  have "length E \<notin> ran H" using deps_ok_lt_ran [OF d] by blast
  moreover have "(\<Sum>e\<in>ran H. count_list (me_dependInsts ((E @ [new_entry i]) ! e)) q) = waits E H q"
    unfolding waits_def by (rule sum.cong) (simp_all add: place_nth deps_ok_lt_ran [OF d])
  ultimately show ?thesis unfolding place_ran [OF d younger] waits_def [of "E @ [new_entry i]"] by (simp add: finite_live [OF d] new_entry_def)
qed

lemma place_deps:
  assumes d: "deps_ok tid E H b" and younger: "b < di_seqNum i" and a: "di_threadNumber i = tid"
  shows "deps_ok tid (E @ [new_entry i]) (H(di_seqNum i \<mapsto> length E)) (di_seqNum i)"
proof -
  let ?E = "E @ [new_entry i]" and ?H = "H(di_seqNum i \<mapsto> length E)"
  have old: "entry_ok tid ?E ?H sn e \<and> sn \<le> di_seqNum i" if "H sn = Some e" for sn e
    using deps_ok_entry [OF d that] younger place_nth place_ran [OF d younger] by (auto simp: entry_ok_def)
  have new: "entry_ok tid ?E ?H (di_seqNum i) (length E)" using a by (simp add: entry_ok_def new_entry_def)
  have cnt: "me_memDeps (?E ! e) = int (waits E H e)" if "e \<in> ran H" for e
    using d that place_nth [of e] deps_ok_lt_ran [OF d that] by (simp add: deps_ok_def)
  have cntn: "me_memDeps (?E ! length E) = int (waits E H (length E))" using waits_fresh [OF d] by (simp add: new_entry_def)
  show ?thesis unfolding deps_ok_def place_waits [OF d younger] place_ran [OF d younger]
    using d old new cnt cntn by (auto simp: deps_ok_def)
qed

lemma place_insts:
  assumes d: "deps_ok tid E H b" and younger: "b < di_seqNum i" and a: "insts_ok E H l"
  shows "insts_ok (E @ [new_entry i]) (H(di_seqNum i \<mapsto> length E)) (l @ [i])"
proof -
  have "di_seqNum j < di_seqNum i" if j: "j \<in> set l" for j
  proof -
    obtain e where "e \<in> ran H" "j = me_inst (E ! e)" using a j by (auto simp: insts_ok_def)
    then have "di_seqNum j \<le> b" using deps_ok_ran [OF d] deps_ok_entry [OF d] by blast
    with younger show ?thesis by simp
  qed
  moreover have "(\<lambda>e. me_inst ((E @ [new_entry i]) ! e)) ` ran H = (\<lambda>e. me_inst (E ! e)) ` ran H"
    by (rule image_cong) (simp_all add: place_nth deps_ok_lt_ran [OF d])
  ultimately show ?thesis using a unfolding insts_ok_def place_ran [OF d younger] by (simp add: sorted_wrt_append new_entry_def)
qed

lemma place_barriers:
  assumes d: "deps_ok tid E H b" and younger: "b < di_seqNum i" and a: "barriers_ok E H LB SB {}"
  shows "barriers_ok (E @ [new_entry i]) (H(di_seqNum i \<mapsto> length E)) LB SB {di_seqNum i}"
    "di_seqNum i \<notin> set LB" "di_seqNum i \<notin> set SB"
  using a deps_ok_fresh [OF d younger] deps_ok_lt [OF d] by (auto simp: barriers_ok_def place_nth)

lemma place_replay:
  assumes d: "deps_ok tid E H b" and younger: "b < di_seqNum i"
  shows "replay_ok E H R \<Longrightarrow> replay_ok (E @ [new_entry i]) (H(di_seqNum i \<mapsto> length E)) R"
  using deps_ok_fresh [OF d younger] deps_ok_lt [OF d] unfolding replay_ok_def by (fastforce simp: place_nth)

definition placed :: "dyn_inst \<Rightarrow> 'p mem_dep_unit \<Rightarrow> 'p mem_dep_unit" where
  "placed i s = s\<lparr>mu_entries := mu_entries s @ [new_entry i],
     mu_memDepHash := (di_seqNum i, length (mu_entries s)) # mu_memDepHash s,
     mu_instList := (mu_instList s)[mu_id s := mu_instList s ! mu_id s @ [i]]\<rparr>"

lemma placed_fields [simp]:
  "mu_id (placed i s) = mu_id s" "mu_entries (placed i s) = mu_entries s @ [new_entry i]"
  "mu_memDepHash (placed i s) = (di_seqNum i, length (mu_entries s)) # mu_memDepHash s"
  "mu_instList (placed i s) = (mu_instList s)[mu_id s := mu_instList s ! mu_id s @ [i]]"
  "mu_instsToReplay (placed i s) = mu_instsToReplay s" "mu_loadBarrierSNs (placed i s) = mu_loadBarrierSNs s"
  "mu_storeBarrierSNs (placed i s) = mu_storeBarrierSNs s" "mu_depPred (placed i s) = mu_depPred s"
  "mu_state (placed i s) = mu_state s" "mu_ready (placed i s) = mu_ready s"
  by (simp_all add: placed_def)

lemma mu_place_core:
  assumes "mu_inv s b" "b < di_seqNum i" "di_threadNumber i = mu_id s"
  shows "mu_place i s = Inr (placed i s)" "lists_ok (placed i s)"
    "mu_core {di_seqNum i} (mu_instList s ! mu_id s @ [i]) (placed i s) (di_seqNum i)"
    "mu_instList (placed i s) ! mu_id s = mu_instList s ! mu_id s @ [i]"
    "di_seqNum i \<notin> set (mu_loadBarrierSNs s)" "di_seqNum i \<notin> set (mu_storeBarrierSNs s)"
proof -
  have core: "mu_core {} (mu_instList s ! mu_id s) s b" and li: "lists_ok s" using assms(1) by (simp_all add: mu_inv_def)
  have d: "deps_ok (mu_id s) (mu_entries s) (map_of (mu_memDepHash s)) b" using core by (simp add: mu_core_def)
  show "mu_place i s = Inr (placed i s)"
    using li deps_ok_fresh [OF d assms(2)] assms(3) by (simp add: mu_place_def lists_ok_def placed_def)
  show "lists_ok (placed i s)" using li by (simp add: lists_ok_def nth_list_update)
  have bar: "barriers_ok (mu_entries s) (map_of (mu_memDepHash s)) (mu_loadBarrierSNs s) (mu_storeBarrierSNs s) {}"
    using core by (simp add: mu_core_def)
  from place_barriers(2,3) [OF d assms(2) bar]
  show "di_seqNum i \<notin> set (mu_loadBarrierSNs s)" "di_seqNum i \<notin> set (mu_storeBarrierSNs s)" .
  show "mu_instList (placed i s) ! mu_id s = mu_instList s ! mu_id s @ [i]" using li by (simp add: lists_ok_def)
  show "mu_core {di_seqNum i} (mu_instList s ! mu_id s @ [i]) (placed i s) (di_seqNum i)"
    using core place_deps [OF d assms(2,3)] place_insts [OF d assms(2)] place_barriers(1) [OF d assms(2) bar] place_replay [OF d assms(2)]
    by (simp add: mu_core_def)
qed

lemma barriers_insert:
  assumes "barriers_ok E H LB SB {k}" "H k = Some e" "k \<notin> set LB" "k \<notin> set SB"
  shows "barriers_ok E H (if load_barrier (me_inst (E ! e)) then List.insert k LB else LB)
    (if store_barrier (me_inst (E ! e)) then List.insert k SB else SB) {}"
proof -
  have "(sn \<in> set (if load_barrier (me_inst (E ! e)) then List.insert k LB else LB) \<longleftrightarrow>
      (\<exists>e. H sn = Some e \<and> load_barrier (me_inst (E ! e)))) \<and>
    (sn \<in> set (if store_barrier (me_inst (E ! e)) then List.insert k SB else SB) \<longleftrightarrow>
      (\<exists>e. H sn = Some e \<and> store_barrier (me_inst (E ! e))))" for sn
    using assms by (cases "sn = k") (simp_all add: barriers_ok_def)
  then show ?thesis by (simp add: barriers_ok_def)
qed

lemma insertBarrierSN_core:
  assumes "mu_core {di_seqNum i} l s b" "map_of (mu_memDepHash s) (di_seqNum i) = Some e" "me_inst (mu_entries s ! e) = i"
    "di_seqNum i \<notin> set (mu_loadBarrierSNs s)" "di_seqNum i \<notin> set (mu_storeBarrierSNs s)"
  shows "mu_core {} l (insertBarrierSN i s) b"
proof -
  have "barriers_ok (mu_entries s) (map_of (mu_memDepHash s)) (mu_loadBarrierSNs s) (mu_storeBarrierSNs s) {di_seqNum i}"
    using assms(1) by (simp add: mu_core_def)
  from barriers_insert [OF this assms(2,4,5)] show ?thesis
    using assms(1,3) by (simp add: mu_core_def insertBarrierSN_def Let_def split: if_splits)
qed

lemma insertBarrierSN_fields [simp]:
  "mu_id (insertBarrierSN i s) = mu_id s" "mu_entries (insertBarrierSN i s) = mu_entries s"
  "mu_memDepHash (insertBarrierSN i s) = mu_memDepHash s" "mu_instList (insertBarrierSN i s) = mu_instList s"
  "mu_instsToReplay (insertBarrierSN i s) = mu_instsToReplay s" "mu_depPred (insertBarrierSN i s) = mu_depPred s"
  "mu_state (insertBarrierSN i s) = mu_state s" "mu_ready (insertBarrierSN i s) = mu_ready s"
  by (simp_all add: insertBarrierSN_def Let_def)

section \<open>Adding dependences\<close>

definition linked :: "nat \<Rightarrow> nat list \<Rightarrow> mem_dep_entry list \<Rightarrow> mem_dep_entry list" where
  "linked e ds E = fold (\<lambda>d E. E[d := (E ! d)\<lparr>me_dependInsts := me_dependInsts (E ! d) @ [e]\<rparr>]) ds E"

lemma length_linked [simp]: "length (linked e ds E) = length E"
  unfolding linked_def by (induction ds arbitrary: E) simp_all

lemma linked_nth:
  assumes "q < length E"
  shows "linked e ds E ! q = (E ! q)\<lparr>me_dependInsts := me_dependInsts (E ! q) @ replicate (count_list ds q) e\<rparr>"
  using assms unfolding linked_def
proof (induction ds arbitrary: E)
  case (Cons d ds)
  then show ?case by (cases "d = q") (simp_all add: replicate_app_Cons_same)
qed simp

lemma add_dependents:
  assumes "set ds \<subseteq> {..< length (mu_entries s)}"
  shows "rfold (mu_add_dependent e) ds s = Inr (s\<lparr>mu_entries := linked e ds (mu_entries s)\<rparr>)"
  using assms
proof (induction ds arbitrary: s)
  case Nil
  then show ?case by (simp add: linked_def)
next
  case (Cons d ds)
  let ?s = "s\<lparr>mu_entries := (mu_entries s)[d := (mu_entries s ! d)\<lparr>me_dependInsts := me_dependInsts (mu_entries s ! d) @ [e]\<rparr>]\<rparr>"
  have "mu_add_dependent e d s = Inr ?s" using Cons.prems by (simp add: mu_add_dependent_def mu_update_entry_def)
  then show ?case using Cons.IH [of ?s] Cons.prems by (simp add: linked_def)
qed

lemma count_list_replicate: "count_list (replicate n x) y = (if x = y then n else 0)"
  by (induction n) auto

lemma waits_linked:
  assumes "deps_ok tid E H b" "set ds \<subseteq> ran H"
  shows "waits (linked e ds E) H q = waits E H q + (if e = q then length ds else 0)"
proof -
  have "waits (linked e ds E) H q = (\<Sum>x\<in>ran H. count_list (me_dependInsts (E ! x)) q + (if e = q then count_list ds x else 0))"
    unfolding waits_def by (rule sum.cong) (simp_all add: linked_nth deps_ok_lt_ran [OF assms(1)] count_list_replicate)
  also have "\<dots> = waits E H q + (if e = q then (\<Sum>x\<in>ran H. count_list ds x) else 0)" by (simp add: sum.distrib waits_def)
  finally show ?thesis by (simp add: sum_count_set [OF assms(2) finite_live [OF assms(1)]])
qed

lemma deps_ok_linked:
  assumes d: "deps_ok tid E H b" and e: "H sn = Some e" "me_memDeps (E ! e) = 0" and ds: "set ds \<subseteq> ran H"
    and older: "\<forall>x\<in>set ds. di_seqNum (me_inst (E ! x)) < sn \<and> wakes (me_inst (E ! x))"
  shows "deps_ok tid (linked e ds (E[e := (E ! e)\<lparr>me_memDeps := int (length ds)\<rparr>])) H b"
proof -
  let ?E1 = "E[e := (E ! e)\<lparr>me_memDeps := int (length ds)\<rparr>]"
  let ?E = "linked e ds ?E1"
  have le: "e < length E" and se: "di_seqNum (me_inst (E ! e)) = sn" and er: "e \<in> ran H"
    using deps_ok_entry [OF d e(1)] e(1) by (auto simp: entry_ok_def ran_def)
  have f: "me_inst (?E ! x) = me_inst (E ! x)" "me_squashed (?E ! x) = me_squashed (E ! x)"
    "me_dependInsts (?E ! x) = me_dependInsts (E ! x) @ replicate (count_list ds x) e"
    "me_memDeps (?E ! x) = (if x = e then int (length ds) else me_memDeps (E ! x))" if "x < length E" for x
    using that le by (auto simp: linked_nth nth_list_update)
  have w: "waits ?E H q = waits E H q + (if e = q then length ds else 0)" for q
  proof -
    have "waits ?E H q = waits (linked e ds E) H q" unfolding waits_def
      by (rule sum.cong) (simp_all add: linked_nth nth_list_update le deps_ok_lt_ran [OF d])
    then show ?thesis using waits_linked [OF d ds] by simp
  qed
  have we: "waits E H e = 0" using d er e(2) by (auto simp: deps_ok_def)
  have "entry_ok tid ?E H k x \<and> k \<le> b" if k: "H k = Some x" for k x
  proof -
    have o: "entry_ok tid E H k x" "k \<le> b" "x < length E" using deps_ok_entry [OF d k] by (auto simp: entry_ok_def)
    have "x \<in> set ds \<Longrightarrow> k < sn \<and> wakes (me_inst (E ! x))" using older o(1) by (auto simp: entry_ok_def)
    moreover have "set (me_dependInsts (?E ! x)) \<subseteq> set (me_dependInsts (E ! x)) \<union> (if x \<in> set ds then {e} else {})"
      using f(3) [OF o(3)] by (auto simp: count_list_0_iff)
    moreover have "me_dependInsts (?E ! x) = [] \<longleftrightarrow> me_dependInsts (E ! x) = [] \<and> x \<notin> set ds"
      using f(3) [OF o(3)] by (simp add: count_list_0_iff)
    ultimately show ?thesis using o f le se er unfolding entry_ok_def by (auto split: if_splits)
  qed
  then show ?thesis using d f(4) deps_ok_lt_ran [OF d] we unfolding deps_ok_def w by auto
qed

lemma core_entries:
  assumes "mu_core X l s b" "deps_ok (mu_id s) E' (map_of (mu_memDepHash s)) b"
    "\<And>x. x \<in> ran (map_of (mu_memDepHash s)) \<Longrightarrow> me_inst (E' ! x) = me_inst (mu_entries s ! x)"
  shows "mu_core X l (s\<lparr>mu_entries := E'\<rparr>) b"
proof -
  let ?H = "map_of (mu_memDepHash s)"
  have same: "me_inst (E' ! x) = me_inst (mu_entries s ! x)" if "?H sn = Some x" for sn x
    using assms(3) that by (blast intro: ranI)
  have "insts_ok E' ?H l" using assms(1,3) by (simp add: mu_core_def insts_ok_def)
  moreover have "barriers_ok E' ?H (mu_loadBarrierSNs s) (mu_storeBarrierSNs s) X"
    using assms(1) unfolding mu_core_def barriers_ok_def by (simp add: same cong: conj_cong)
  moreover have "replay_ok E' ?H (mu_instsToReplay s)"
    using assms(1) unfolding mu_core_def replay_ok_def by (simp add: same cong: conj_cong)
  ultimately show ?thesis using assms(2) by (simp add: mu_core_def)
qed

lemma mu_core_other [simp]:
  "mu_core X l (s\<lparr>mu_state := st\<rparr>) b = mu_core X l s b" "mu_core X l (s\<lparr>mu_ready := r\<rparr>) b = mu_core X l s b"
  "mu_core X l (s\<lparr>mu_depPred := p\<rparr>) b = mu_core X l s b" "mu_core X l (s\<lparr>mu_instList := il\<rparr>) b = mu_core X l s b"
  "mu_core X l (s\<lparr>mu_insertedLoads := n\<rparr>) b = mu_core X l s b" "mu_core X l (s\<lparr>mu_insertedStores := n\<rparr>) b = mu_core X l s b"
  "mu_core X l (s\<lparr>mu_conflictingLoads := n\<rparr>) b = mu_core X l s b" "mu_core X l (s\<lparr>mu_conflictingStores := n\<rparr>) b = mu_core X l s b"
  by (simp_all add: mu_core_def)

text \<open>What an operation that works on the dependences leaves alone.\<close>

definition mu_frame :: "'p mem_dep_unit \<Rightarrow> 'p mem_dep_unit \<Rightarrow> bool" where
  "mu_frame s s' \<longleftrightarrow> mu_id s' = mu_id s \<and> mu_memDepHash s' = mu_memDepHash s \<and> mu_instList s' = mu_instList s \<and>
     mu_instsToReplay s' = mu_instsToReplay s \<and> mu_loadBarrierSNs s' = mu_loadBarrierSNs s \<and>
     mu_storeBarrierSNs s' = mu_storeBarrierSNs s \<and> mu_depPred s' = mu_depPred s \<and>
     (\<forall>sn. mi_predBranchHistLength (is_memDepInfo (mu_state s' sn)) = mi_predBranchHistLength (is_memDepInfo (mu_state s sn))) \<and>
     length (mu_entries s') = length (mu_entries s) \<and>
     (\<forall>x < length (mu_entries s). me_inst (mu_entries s' ! x) = me_inst (mu_entries s ! x))"

lemma mu_depend_core:
  assumes core: "mu_core X l s b" and e: "map_of (mu_memDepHash s) (di_seqNum i) = Some e" "me_inst (mu_entries s ! e) = i"
    and md: "me_memDeps (mu_entries s ! e) = 0" and ds: "set ds \<subseteq> ran (map_of (mu_memDepHash s))"
    and older: "\<forall>x\<in>set ds. di_seqNum (me_inst (mu_entries s ! x)) < di_seqNum i \<and> wakes (me_inst (mu_entries s ! x))"
  shows "\<exists>s'. mu_depend i e ds s = Inr s' \<and> mu_core X l s' b \<and> mu_frame s s' \<and>
    mu_ready s' = mu_ready s @ (if ds = [] \<and> is_canIssue (mu_state s (di_seqNum i)) then [i] else []) \<and>
    (\<forall>x < length (mu_entries s). me_dependInsts (mu_entries s' ! x) = me_dependInsts (mu_entries s ! x) @ replicate (count_list ds x) e)"
proof -
  let ?E = "mu_entries s" and ?H = "map_of (mu_memDepHash s)"
  have d: "deps_ok (mu_id s) ?E ?H b" using core by (simp add: mu_core_def)
  have le: "e < length ?E" and sq: "\<not> me_squashed (?E ! e)" using deps_ok_entry [OF d e(1)] by (auto simp: entry_ok_def)
  show ?thesis
  proof (cases "ds = []")
    case True
    have "mu_core X l (s\<lparr>mu_entries := ?E[e := (?E ! e)\<lparr>me_regsReady := True\<rparr>]\<rparr>) b"
      by (rule core_same_deps [OF core]) (rule same_deps_update [OF le]; simp)
    then show ?thesis using True core le sq e(2)
      by (cases "is_canIssue (mu_state s (di_seqNum i))")
        (simp_all add: mu_depend_def mu_update_entry_def moveToReady_def mu_frame_def nth_list_update)
  next
    case False
    let ?E1 = "?E[e := (?E ! e)\<lparr>me_memDeps := int (length ds)\<rparr>]"
    let ?E2 = "linked e ds ?E1"
    let ?E3 = "if is_canIssue (mu_state s (di_seqNum i)) then ?E2[e := (?E2 ! e)\<lparr>me_regsReady := True\<rparr>] else ?E2"
    let ?st = "(mu_state s)(di_seqNum i := (mu_state s (di_seqNum i))\<lparr>is_canIssue := False\<rparr>)"
    have dl: "set ds \<subseteq> {..< length ?E1}" using ds deps_ok_lt_ran [OF d] by auto
    have "rfold (mu_add_dependent e) ds (s\<lparr>mu_entries := ?E1\<rparr>) = Inr (s\<lparr>mu_entries := ?E2\<rparr>)"
      using add_dependents [of ds "s\<lparr>mu_entries := ?E1\<rparr>" e] dl by simp
    then have run: "mu_depend i e ds s = Inr (let t = s\<lparr>mu_entries := ?E3, mu_state := ?st\<rparr> in
        if di_isLoad i then t\<lparr>mu_conflictingLoads := mu_conflictingLoads t + 1\<rparr> else t\<lparr>mu_conflictingStores := mu_conflictingStores t + 1\<rparr>)"
      using False le by (simp add: mu_depend_def mu_update_entry_def mu_regs_if_ready_def Let_def)
    have same: "me_inst (?E2 ! x) = me_inst (?E ! x) \<and> me_dependInsts (?E2 ! x) = me_dependInsts (?E ! x) @ replicate (count_list ds x) e"
      if "x < length ?E" for x using that le by (auto simp: linked_nth nth_list_update)
    have same3: "me_inst (?E3 ! x) = me_inst (?E2 ! x) \<and> me_dependInsts (?E3 ! x) = me_dependInsts (?E2 ! x)"
      if "x < length ?E" for x using that le by (auto simp: nth_list_update)
    have c2: "mu_core X l (s\<lparr>mu_entries := ?E2\<rparr>) b"
      by (rule core_entries [OF core deps_ok_linked [OF d e(1) md ds older]]) (use same deps_ok_lt_ran [OF d] in blast)
    have "same_deps ?E2 (?E2[e := (?E2 ! e)\<lparr>me_regsReady := True\<rparr>])" by (rule same_deps_update) (use le in simp_all)
    then have "mu_core X l (s\<lparr>mu_entries := ?E3\<rparr>) b" using c2 core_same_deps [OF c2] by simp
    then show ?thesis unfolding run using same same3 False by (simp add: Let_def mu_frame_def)
  qed
qed

section \<open>Inserting an instruction\<close>

text \<open>The instructions in the unit, and those among them that one of them waits for.\<close>

definition at_entry :: "'p mem_dep_unit \<Rightarrow> dyn_inst \<Rightarrow> nat \<Rightarrow> bool" where
  "at_entry s i e \<longleftrightarrow> map_of (mu_memDepHash s) (di_seqNum i) = Some e \<and> me_inst (mu_entries s ! e) = i"

definition in_unit :: "'p mem_dep_unit \<Rightarrow> dyn_inst set" where
  "in_unit s = {i. \<exists>e. at_entry s i e}"

definition producers :: "'p mem_dep_unit \<Rightarrow> dyn_inst \<Rightarrow> dyn_inst set" where
  "producers s i = {j. \<exists>e x. at_entry s i e \<and> at_entry s j x \<and> e \<in> set (me_dependInsts (mu_entries s ! x))}"

text \<open>The store a prediction points at, and what the load/store queue promises about it.\<close>

definition predicted_store :: "lsq_view \<Rightarrow> dyn_inst \<Rightarrow> prediction_result \<Rightarrow> seqnum option" where
  "predicted_store lsq i r =
     (if pr_storeQueueDistance r \<noteq> 0 \<and> word_of_int (lv_storeHead lsq + pr_storeQueueDistance r) \<le> di_sqIdx i
      then lv_instruction lsq (di_sqIdx i - word_of_int (pr_storeQueueDistance r))
      else if pr_seqNum r \<noteq> 0 then Some (pr_seqNum r) else None)"

definition prediction_sound :: "lsq_view \<Rightarrow> dyn_inst \<Rightarrow> prediction_result \<Rightarrow> 'p mem_dep_unit \<Rightarrow> bool" where
  "prediction_sound lsq i r s \<longleftrightarrow>
     (pr_storeQueueDistance r \<noteq> 0 \<and> word_of_int (lv_storeHead lsq + pr_storeQueueDistance r) \<le> di_sqIdx i \<longrightarrow>
        lv_instruction lsq (di_sqIdx i - word_of_int (pr_storeQueueDistance r)) \<noteq> None) \<and>
     predicted_store lsq i r \<noteq> Some (di_seqNum i) \<and>
     (\<forall>j\<in>in_unit s. predicted_store lsq i r = Some (di_seqNum j) \<longrightarrow> di_isStore j \<or> di_isAtomic j)"

lemma mu_set_info_fields [simp]:
  "mu_id (mu_set_info sn f s) = mu_id s" "mu_entries (mu_set_info sn f s) = mu_entries s"
  "mu_memDepHash (mu_set_info sn f s) = mu_memDepHash s" "mu_instList (mu_set_info sn f s) = mu_instList s"
  "mu_instsToReplay (mu_set_info sn f s) = mu_instsToReplay s" "mu_loadBarrierSNs (mu_set_info sn f s) = mu_loadBarrierSNs s"
  "mu_storeBarrierSNs (mu_set_info sn f s) = mu_storeBarrierSNs s" "mu_depPred (mu_set_info sn f s) = mu_depPred s"
  "mu_ready (mu_set_info sn f s) = mu_ready s" "is_canIssue (mu_state (mu_set_info sn f s) k) = is_canIssue (mu_state s k)"
  by (simp_all add: mu_set_info_def)

lemma mu_core_set_info [simp]: "mu_core X l (mu_set_info sn f s) b = mu_core X l s b"
  by (simp add: mu_set_info_def)

definition pred_deps :: "lsq_view \<Rightarrow> dyn_inst \<Rightarrow> prediction_result \<Rightarrow> 'p mem_dep_unit \<Rightarrow> nat list" where
  "pred_deps lsq i r s = (case predicted_store lsq i r of None \<Rightarrow> [] | Some sn \<Rightarrow> (case map_of (mu_memDepHash s) sn of None \<Rightarrow> [] | Some e \<Rightarrow> [e]))"

lemma predicted_dependency_value:
  assumes "prediction_sound lsq i r t"
  shows "\<exists>f. predicted_dependency lsq i r s =
    Inr (pred_deps lsq i r s,
      mu_set_info (di_seqNum i) f s) \<and>
    (\<forall>m. mi_predBranchHistLength (f m) \<in> {mi_predBranchHistLength m, pr_predBranchHistLength r})"
proof -
  let ?d = "pr_storeQueueDistance r"
  have id: "mu_set_info (di_seqNum i) (\<lambda>m. m) s = s" by (simp add: mu_set_info_def)
  consider (dist) sn where "?d \<noteq> 0 \<and> word_of_int (lv_storeHead lsq + ?d) \<le> di_sqIdx i"
      "lv_instruction lsq (di_sqIdx i - word_of_int ?d) = Some sn"
    | (no) "\<not> (?d \<noteq> 0 \<and> word_of_int (lv_storeHead lsq + ?d) \<le> di_sqIdx i)"
    using assms unfolding prediction_sound_def by blast
  then show ?thesis
  proof cases
    case dist
    show ?thesis
    proof (cases "map_of (mu_memDepHash s) sn")
      case None
      then show ?thesis using dist id by (intro exI [of _ "\<lambda>m. m"]) (simp add: predicted_dependency_def predicted_store_def pred_deps_def)
    next
      case (Some e)
      then show ?thesis using dist
        by (intro exI [of _ "\<lambda>m. m\<lparr>mi_predBranchHistLength := pr_predBranchHistLength r, mi_predictorHash := pr_predictorHash r,
            mi_predicted := True\<rparr>"]) (simp add: predicted_dependency_def predicted_store_def pred_deps_def)
    qed
  next
    case no
    then have ps: "predicted_store lsq i r = (if pr_seqNum r \<noteq> 0 then Some (pr_seqNum r) else None)" by (auto simp: predicted_store_def)
    show ?thesis
    proof (cases "pr_seqNum r \<noteq> 0 \<and> map_of (mu_memDepHash s) (pr_seqNum r) \<noteq> None")
      case True
      then show ?thesis using no ps
        by (intro exI [of _ "\<lambda>m. m\<lparr>mi_predicted := True\<rparr>"]) (auto simp: predicted_dependency_def pred_deps_def)
    next
      case False
      then show ?thesis using no ps id by (intro exI [of _ "\<lambda>m. m"]) (auto simp: predicted_dependency_def pred_deps_def)
    qed
  qed
qed

lemma in_flight_set:
  "set (in_flight sns s) = {e. \<exists>sn\<in>set sns. map_of (mu_memDepHash s) sn = Some e}"
  by (auto simp: in_flight_def split: option.splits)

definition must_wait :: "lsq_view \<Rightarrow> dyn_inst \<Rightarrow> prediction_result \<Rightarrow> dyn_inst \<Rightarrow> bool" where
  "must_wait lsq i r j \<longleftrightarrow> predicted_store lsq i r = Some (di_seqNum j) \<or> (di_isLoad i \<or> di_isAtomic i) \<and> load_barrier j \<or>
     (di_isStore i \<or> di_isAtomic i) \<and> store_barrier j"

lemma insert_deps:
  assumes inv: "mu_inv s b" and younger: "b < di_seqNum i" and snd: "prediction_sound lsq i r s"
    and hash: "mu_memDepHash t = (di_seqNum i, e) # mu_memDepHash s" and bars: "mu_loadBarrierSNs t = mu_loadBarrierSNs s" "mu_storeBarrierSNs t = mu_storeBarrierSNs s"
  shows "set (pred_deps lsq i r t @
    barrier_dependencies i t) = {x. \<exists>j. at_entry s j x \<and> must_wait lsq i r j}"
proof -
  let ?E = "mu_entries s" and ?H = "map_of (mu_memDepHash s)"
  have d: "deps_ok (mu_id s) ?E ?H b" and bar: "barriers_ok ?E ?H (mu_loadBarrierSNs s) (mu_storeBarrierSNs s) {}"
    using inv by (simp_all add: mu_inv_def mu_core_def)
  note nb = place_barriers(2,3) [OF d younger bar]
  have at: "at_entry s j x \<longleftrightarrow> ?H (di_seqNum j) = Some x \<and> me_inst (?E ! x) = j" for j x by (simp add: at_entry_def)
  have atE: "at_entry s (me_inst (?E ! x)) x \<and> di_seqNum (me_inst (?E ! x)) = sn" if "?H sn = Some x" for sn x
    using deps_ok_entry [OF d that] that by (auto simp: at entry_ok_def)
  have p: "set (pred_deps lsq i r t) = {x. \<exists>j. at_entry s j x \<and> predicted_store lsq i r = Some (di_seqNum j)}"
  proof (cases "predicted_store lsq i r")
    case (Some sn)
    then have ne: "sn \<noteq> di_seqNum i" using snd by (auto simp: prediction_sound_def)
    then have "set (pred_deps lsq i r t) = {x. ?H sn = Some x}" using Some hash by (auto simp: pred_deps_def split: option.splits)
    also have "\<dots> = {x. \<exists>j. at_entry s j x \<and> sn = di_seqNum j}" using atE at by blast
    finally show ?thesis using Some by simp
  qed (simp add: pred_deps_def)
  have fl: "set (in_flight sns t) = {x. \<exists>j. at_entry s j x \<and> B j}"
    if "di_seqNum i \<notin> set sns" "\<And>sn. sn \<in> set sns \<longleftrightarrow> (\<exists>e. ?H sn = Some e \<and> B (me_inst (?E ! e)))" for sns B
  proof -
    have "map_of (mu_memDepHash t) sn = ?H sn" if "sn \<in> set sns" for sn using that \<open>di_seqNum i \<notin> set sns\<close> hash by auto
    then have "set (in_flight sns t) = {x. \<exists>sn\<in>set sns. ?H sn = Some x}" by (auto simp: in_flight_set)
    also have "\<dots> = {x. \<exists>sn. ?H sn = Some x \<and> B (me_inst (?E ! x))}" by (auto simp: that(2))
    also have "\<dots> = {x. \<exists>j. at_entry s j x \<and> B j}"
    proof (intro Collect_cong iffI)
      fix x assume "\<exists>sn. ?H sn = Some x \<and> B (me_inst (?E ! x))"
      then show "\<exists>j. at_entry s j x \<and> B j" by (blast dest: atE)
    qed (auto simp: at)
    finally show ?thesis .
  qed
  have L: "set (in_flight (mu_loadBarrierSNs t) t) = {x. \<exists>j. at_entry s j x \<and> load_barrier j}"
    unfolding bars by (rule fl [OF nb(1)]) (use bar in \<open>simp add: barriers_ok_def\<close>)
  have S: "set (in_flight (mu_storeBarrierSNs t) t) = {x. \<exists>j. at_entry s j x \<and> store_barrier j}"
    unfolding bars by (rule fl [OF nb(2)]) (use bar in \<open>simp add: barriers_ok_def\<close>)
  have nil: "in_flight [] t = []" by (simp add: in_flight_def)
  have "set (barrier_dependencies i t) = {x. \<exists>j. at_entry s j x \<and> ((di_isLoad i \<or> di_isAtomic i) \<and> load_barrier j \<or>
      (di_isStore i \<or> di_isAtomic i) \<and> store_barrier j)}"
    unfolding barrier_dependencies_def using L S nil by auto
  with p show ?thesis unfolding set_append must_wait_def by blast
qed

definition paths_ok :: "(nat \<Rightarrow> bool) \<Rightarrow> 'p mem_dep_unit \<Rightarrow> bool" where
  "paths_ok P s \<longleftrightarrow> (\<forall>sn. P (mi_predBranchHistLength (is_memDepInfo (mu_state s sn))))"

lemma paths_ok_other [simp]:
  "paths_ok P (s\<lparr>mu_depPred := p\<rparr>) = paths_ok P s" "paths_ok P (s\<lparr>mu_insertedLoads := n\<rparr>) = paths_ok P s"
  "paths_ok P (s\<lparr>mu_insertedStores := n\<rparr>) = paths_ok P s" "paths_ok P (insertBarrierSN i s) = paths_ok P s"
  by (simp_all add: paths_ok_def)

lemma insert_producers:
  assumes d: "deps_ok (mu_id s) (mu_entries s) (map_of (mu_memDepHash s)) b" and younger: "b < di_seqNum i"
    and hash: "mu_memDepHash t = (di_seqNum i, length (mu_entries s)) # mu_memDepHash s"
    and inst: "\<And>x. x < Suc (length (mu_entries s)) \<Longrightarrow> me_inst (mu_entries t ! x) = me_inst ((mu_entries s @ [new_entry i]) ! x)"
    and deps: "\<And>x. x < Suc (length (mu_entries s)) \<Longrightarrow> me_dependInsts (mu_entries t ! x) =
      me_dependInsts ((mu_entries s @ [new_entry i]) ! x) @ replicate (count_list ds x) (length (mu_entries s))"
    and ds: "set ds = {x. \<exists>j. at_entry s j x \<and> W j}"
  shows "producers t i = {j \<in> in_unit s. W j}"
proof -
  let ?e = "length (mu_entries s)"
  have old: "x < ?e \<and> ?e \<notin> set (me_dependInsts (mu_entries s ! x)) \<and> di_seqNum j \<noteq> di_seqNum i" if "at_entry s j x" for j x
    using that deps_ok_entry [OF d, of "di_seqNum j" x] younger by (auto simp: at_entry_def entry_ok_def)
  have at: "at_entry t j x \<longleftrightarrow> j = i \<and> x = ?e \<or> at_entry s j x" for j x
  proof (cases "di_seqNum j = di_seqNum i")
    case True
    then have "\<not> at_entry s j x" using old by blast
    then show ?thesis using True hash inst [of ?e] by (auto simp: at_entry_def new_entry_def)
  next
    case False
    then have "at_entry t j x \<longleftrightarrow> map_of (mu_memDepHash s) (di_seqNum j) = Some x \<and> me_inst (mu_entries t ! x) = j"
      using hash by (simp add: at_entry_def)
    also have "\<dots> \<longleftrightarrow> at_entry s j x"
      using inst [of x] deps_ok_lt [OF d, of "di_seqNum j" x] by (auto simp: at_entry_def nth_append)
    finally show ?thesis using False by auto
  qed
  have e: "at_entry t i x \<longleftrightarrow> x = ?e" for x using at old by blast
  have dep: "?e \<in> set (me_dependInsts (mu_entries t ! x)) \<longleftrightarrow> x \<in> set ds" if "at_entry s j x" for j x
    using old [OF that] deps [of x] by (auto simp: nth_append count_list_0_iff)
  have "?e \<notin> set ds" using ds old by blast
  then have self: "?e \<notin> set (me_dependInsts (mu_entries t ! ?e))" using deps [of ?e] by (simp add: new_entry_def count_list_0_iff)
  have "producers t i = {j. \<exists>x. at_entry t j x \<and> ?e \<in> set (me_dependInsts (mu_entries t ! x))}" by (auto simp: producers_def e)
  also have "\<dots> = {j. \<exists>x. at_entry s j x \<and> x \<in> set ds}" unfolding at using self dep by blast
  also have "\<dots> = {j \<in> in_unit s. W j}" unfolding ds in_unit_def by (auto simp: at_entry_def)
  finally show ?thesis .
qed

lemma mu_insert_core:
  assumes inv: "mu_inv s b" and younger: "b < di_seqNum i" and tid: "di_threadNumber i = mu_id s"
    and chk: "dp_checkInst ops (di_pc i) (di_seqNum i) bh (di_isLoad i) (mu_depPred s) = Inr (r, p)"
    and snd: "prediction_sound lsq i r s" and P: "paths_ok P s" "P (pr_predBranchHistLength r)"
  shows "\<exists>s'. mu_insert ops lsq i bh s = mu_count_inst ops i s' \<and> mu_inv s' (di_seqNum i) \<and> paths_ok P s' \<and> mu_depPred s' = p \<and>
    mu_id s' = mu_id s \<and> at_entry s' i (length (mu_entries s)) \<and> producers s' i = {j \<in> in_unit s. must_wait lsq i r j} \<and>
    mu_ready s' = mu_ready s @ (if producers s' i = {} \<and> is_canIssue (mu_state s (di_seqNum i)) then [i] else [])"
proof -
  let ?e = "length (mu_entries s)" and ?sn = "di_seqNum i" and ?l = "mu_instList s ! mu_id s @ [i]"
  note pl = mu_place_core [OF inv younger tid]
  define s1 where "s1 = (placed i s)\<lparr>mu_depPred := p\<rparr>"
  obtain f where f: "predicted_dependency lsq i r s1 = Inr (pred_deps lsq i r s1, mu_set_info ?sn f s1)"
    "\<And>m. mi_predBranchHistLength (f m) \<in> {mi_predBranchHistLength m, pr_predBranchHistLength r}"
    using predicted_dependency_value [OF snd, of s1] by blast
  define s2 where "s2 = mu_set_info ?sn f s1"
  define ds where "ds = pred_deps lsq i r s1 @ barrier_dependencies i s2"
  have s2 [simp]: "mu_entries s2 = mu_entries s @ [new_entry i]" "mu_memDepHash s2 = (?sn, ?e) # mu_memDepHash s" "mu_id s2 = mu_id s"
      "mu_loadBarrierSNs s2 = mu_loadBarrierSNs s" "mu_storeBarrierSNs s2 = mu_storeBarrierSNs s" "mu_ready s2 = mu_ready s"
      "mu_depPred s2 = p" "mu_instList s2 = mu_instList (placed i s)" "is_canIssue (mu_state s2 ?sn) = is_canIssue (mu_state s ?sn)"
    by (simp_all add: s2_def s1_def)
  have "mu_memDepHash s1 = mu_memDepHash s2" by (simp add: s1_def)
  then have "pred_deps lsq i r s1 = pred_deps lsq i r s2" by (simp only: pred_deps_def)
  then have ds: "set ds = {x. \<exists>j. at_entry s j x \<and> must_wait lsq i r j}"
    using insert_deps [OF inv younger snd, of s2 ?e] by (simp add: ds_def)
  have core2: "mu_core {?sn} ?l s2 ?sn" using pl(3) by (simp add: s2_def s1_def)
  have d: "deps_ok (mu_id s) (mu_entries s) (map_of (mu_memDepHash s)) b" using inv by (simp add: mu_inv_def mu_core_def)
  have w: "wakes j" if "at_entry s j x" "must_wait lsq i r j" for j x
    using that snd by (auto simp: must_wait_def prediction_sound_def in_unit_def wakes_def load_barrier_def store_barrier_def)
  have old: "x < ?e \<and> di_seqNum j < ?sn \<and> map_of (mu_memDepHash s2) (di_seqNum j) = Some x \<and> me_inst (mu_entries s2 ! x) = j"
    if at: "at_entry s j x" for j x
  proof -
    have "x < ?e" "di_seqNum j \<le> b" using deps_ok_entry [OF d] deps_ok_lt [OF d] at by (auto simp: at_entry_def)
    then show ?thesis using at younger by (auto simp: at_entry_def nth_append)
  qed
  have "set ds \<subseteq> ran (map_of (mu_memDepHash s2))" unfolding ds using old by (blast intro: ranI)
  moreover have "\<forall>x\<in>set ds. di_seqNum (me_inst (mu_entries s2 ! x)) < ?sn \<and> wakes (me_inst (mu_entries s2 ! x))"
    unfolding ds using old w by blast
  ultimately obtain s3 where s3: "mu_depend i ?e ds s2 = Inr s3" "mu_core {?sn} ?l s3 ?sn" "mu_frame s2 s3"
      "mu_ready s3 = mu_ready s @ (if ds = [] \<and> is_canIssue (mu_state s ?sn) then [i] else [])"
      "\<And>x. x < Suc ?e \<Longrightarrow> me_dependInsts (mu_entries s3 ! x) = me_dependInsts (mu_entries s2 ! x) @ replicate (count_list ds x) ?e"
    using mu_depend_core [OF core2, of i ?e ds] by (auto simp: new_entry_def)
  have fr: "mu_id s3 = mu_id s" "mu_memDepHash s3 = (?sn, ?e) # mu_memDepHash s" "mu_instList s3 = mu_instList (placed i s)" "mu_depPred s3 = p"
      "mu_loadBarrierSNs s3 = mu_loadBarrierSNs s" "mu_storeBarrierSNs s3 = mu_storeBarrierSNs s"
      "\<And>x. x < Suc ?e \<Longrightarrow> me_inst (mu_entries s3 ! x) = me_inst (mu_entries s2 ! x)"
    using s3(3) by (simp_all add: mu_frame_def)
  let ?s' = "insertBarrierSN i s3"
  have run: "mu_insert ops lsq i bh s = mu_count_inst ops i ?s'"
    using pl(1) chk f(1) s3(1) by (simp add: mu_insert_def s1_def s2_def ds_def)
  have at: "at_entry ?s' i ?e" using fr by (simp add: at_entry_def new_entry_def)
  have "mu_core {} (mu_instList ?s' ! mu_id ?s') ?s' ?sn"
    using insertBarrierSN_core [OF s3(2), of ?e] fr pl(4-6) by (simp add: new_entry_def)
  moreover have "lists_ok ?s'" using pl(2) fr by (simp add: lists_ok_def)
  moreover have "paths_ok P ?s'"
  proof -
    have "P (mi_predBranchHistLength (f m))" if "P (mi_predBranchHistLength m)" for m using f(2) [of m] P(2) that by auto
    then have "paths_ok P s2" using P(1) by (simp add: paths_ok_def s2_def s1_def mu_set_info_def)
    then show ?thesis using s3(3) by (simp add: paths_ok_def mu_frame_def)
  qed
  moreover have prod: "producers ?s' i = {j \<in> in_unit s. must_wait lsq i r j}"
    by (rule insert_producers [OF d younger _ _ _ ds]) (use fr s3(5) in simp_all)
  moreover have "ds = [] \<longleftrightarrow> producers ?s' i = {}"
    unfolding set_empty [symmetric, of ds] ds prod in_unit_def by blast
  then have "mu_ready ?s' = mu_ready s @ (if producers ?s' i = {} \<and> is_canIssue (mu_state s ?sn) then [i] else [])"
    using s3(4) by simp
  moreover have "mu_depPred ?s' = p" "mu_id ?s' = mu_id s" using fr by simp_all
  ultimately show ?thesis using run at unfolding mu_inv_def by blast
qed

section \<open>Waking dependents\<close>

definition path_of :: "inst_state \<Rightarrow> nat" where
  "path_of st = mi_predBranchHistLength (is_memDepInfo st)"

definition release_one :: "nat \<Rightarrow> mem_dep_entry list \<Rightarrow> mem_dep_entry list" where
  "release_one d E = E[d := (E ! d)\<lparr>me_memDeps := me_memDeps (E ! d) - 1\<rparr>]"

lemma length_release_one [simp]: "length (release_one d E) = length E"
  by (simp add: release_one_def)

lemma release_one_nth:
  "d < length E \<Longrightarrow> release_one d E ! q = (if q = d then (E ! q)\<lparr>me_memDeps := me_memDeps (E ! q) - 1\<rparr> else E ! q)"
  by (simp add: release_one_def nth_list_update)

lemma mu_release_value:
  assumes "d < length (mu_entries s)"
  shows "\<exists>st. mu_release i d s = Inr (s\<lparr>mu_entries := release_one d (mu_entries s), mu_state := st,
      mu_ready := mu_ready s @ (if me_memDeps (mu_entries s ! d) = 1 \<and> me_regsReady (mu_entries s ! d) \<and> \<not> me_squashed (mu_entries s ! d)
        then [me_inst (mu_entries s ! d)] else [])\<rparr>) \<and>
    (\<forall>sn. path_of (st sn) = path_of (mu_state s sn))"
proof -
  let ?en = "(mu_entries s ! d)\<lparr>me_memDeps := me_memDeps (mu_entries s ! d) - 1\<rparr>"
  let ?s1 = "s\<lparr>mu_entries := release_one d (mu_entries s)\<rparr>" and ?dn = "di_seqNum (me_inst (mu_entries s ! d))"
  have r: "mu_release i d s = (if me_memDeps (mu_entries s ! d) = 1
      then let s2 = (if mi_predicted (is_memDepInfo (mu_state s ?dn)) \<and> di_isStore i
                   then mu_set_info ?dn (\<lambda>m. m\<lparr>mi_predStoreAddr := is_effAddr (mu_state s (di_seqNum i)),
                          mi_predStoreSize := is_effSize (mu_state s (di_seqNum i))\<rparr>) ?s1
                   else ?s1) in
          if me_regsReady (mu_entries s ! d) \<and> \<not> me_squashed (mu_entries s ! d) then moveToReady d s2 else Inr s2
      else Inr ?s1)"
    using assms by (simp add: mu_release_def mu_update_entry_def release_one_def Let_def)
  have id: "s1 = s1\<lparr>mu_state := mu_state s1, mu_ready := mu_ready s1\<rparr>" for s1 :: "'a mem_dep_unit" by simp
  show ?thesis
  proof (cases "me_memDeps (mu_entries s ! d) = 1")
    case False
    then show ?thesis using r id by (intro exI [of _ "mu_state s"]) simp
  next
    case True
    define st where "st = (if mi_predicted (is_memDepInfo (mu_state s ?dn)) \<and> di_isStore i
      then mu_state (mu_set_info ?dn (\<lambda>m. m\<lparr>mi_predStoreAddr := is_effAddr (mu_state s (di_seqNum i)),
        mi_predStoreSize := is_effSize (mu_state s (di_seqNum i))\<rparr>) s) else mu_state s)"
    have "mu_release i d s = Inr (s\<lparr>mu_entries := release_one d (mu_entries s), mu_state := st,
        mu_ready := mu_ready s @ (if me_regsReady (mu_entries s ! d) \<and> \<not> me_squashed (mu_entries s ! d)
          then [me_inst (mu_entries s ! d)] else [])\<rparr>)"
      using True assms r by (simp add: st_def mu_set_info_def moveToReady_def release_one_nth Let_def)
    moreover have "path_of (st sn) = path_of (mu_state s sn)" for sn by (simp add: st_def path_of_def mu_set_info_def)
    ultimately show ?thesis using True by auto
  qed
qed

definition woken :: "nat list \<Rightarrow> mem_dep_entry list \<Rightarrow> nat set" where
  "woken L E = {q \<in> set L. me_regsReady (E ! q) \<and> \<not> me_squashed (E ! q) \<and> 1 \<le> me_memDeps (E ! q) \<and> me_memDeps (E ! q) \<le> int (count_list L q)}"

lemma woken_Cons:
  assumes "d < length E"
  shows "woken (d # L) E = (if me_memDeps (E ! d) = 1 \<and> me_regsReady (E ! d) \<and> \<not> me_squashed (E ! d) then {d} else {}) \<union> woken L (release_one d E)"
    "me_memDeps (E ! d) = 1 \<Longrightarrow> d \<notin> woken L (release_one d E)"
proof -
  have "q \<in> woken (d # L) E \<longleftrightarrow> q \<in> (if me_memDeps (E ! d) = 1 \<and> me_regsReady (E ! d) \<and> \<not> me_squashed (E ! d) then {d} else {}) \<union> woken L (release_one d E)" for q
  proof (cases "q = d")
    case True
    have "1 \<le> count_list L d \<longleftrightarrow> d \<in> set L" by (metis count_list_0_iff not_one_le_zero le_simps(3) One_nat_def neq0_conv Suc_le_eq)
    then show ?thesis using True assms by (auto simp: woken_def release_one_nth)
  qed (use assms in \<open>auto simp: woken_def release_one_nth\<close>)
  then show "woken (d # L) E = (if me_memDeps (E ! d) = 1 \<and> me_regsReady (E ! d) \<and> \<not> me_squashed (E ! d) then {d} else {}) \<union> woken L (release_one d E)"
    by blast
  show "me_memDeps (E ! d) = 1 \<Longrightarrow> d \<notin> woken L (release_one d E)" using assms by (simp add: woken_def release_one_nth)
qed

lemma woken_inst: "d < length E \<Longrightarrow> me_inst (release_one d E ! q) = me_inst (E ! q)"
  by (simp add: release_one_nth)

lemma mu_release_all:
  assumes "set L \<subseteq> {..< length (mu_entries s)}"
  shows "\<exists>st qs. rfold (mu_release i) L s = Inr (s\<lparr>mu_entries := fold release_one L (mu_entries s), mu_state := st,
      mu_ready := mu_ready s @ map (\<lambda>q. me_inst (mu_entries s ! q)) qs\<rparr>) \<and>
    (\<forall>sn. path_of (st sn) = path_of (mu_state s sn)) \<and> distinct qs \<and> set qs = woken L (mu_entries s)"
  using assms
proof (induction L arbitrary: s)
  case Nil
  have "s = s\<lparr>mu_entries := mu_entries s, mu_state := mu_state s, mu_ready := mu_ready s @ []\<rparr>" by simp
  then show ?case by (intro exI [of _ "mu_state s"] exI [of _ "[]"]) (simp add: woken_def)
next
  case (Cons d L)
  let ?w = "me_memDeps (mu_entries s ! d) = 1 \<and> me_regsReady (mu_entries s ! d) \<and> \<not> me_squashed (mu_entries s ! d)"
  have d: "d < length (mu_entries s)" using Cons.prems by simp
  from mu_release_value [OF d, of i] obtain st1 where
    r1: "mu_release i d s = Inr (s\<lparr>mu_entries := release_one d (mu_entries s), mu_state := st1,
      mu_ready := mu_ready s @ (if ?w then [me_inst (mu_entries s ! d)] else [])\<rparr>)"
      "\<And>sn. path_of (st1 sn) = path_of (mu_state s sn)" by blast
  from Cons.IH [of "s\<lparr>mu_entries := release_one d (mu_entries s), mu_state := st1,
      mu_ready := mu_ready s @ (if ?w then [me_inst (mu_entries s ! d)] else [])\<rparr>"] Cons.prems obtain st qs where
    r2: "rfold (mu_release i) L (s\<lparr>mu_entries := release_one d (mu_entries s), mu_state := st1,
        mu_ready := mu_ready s @ (if ?w then [me_inst (mu_entries s ! d)] else [])\<rparr>) =
      Inr (s\<lparr>mu_entries := fold release_one L (release_one d (mu_entries s)), mu_state := st,
        mu_ready := (mu_ready s @ (if ?w then [me_inst (mu_entries s ! d)] else [])) @ map (\<lambda>q. me_inst (mu_entries s ! q)) qs\<rparr>)"
      "\<And>sn. path_of (st sn) = path_of (st1 sn)" "distinct qs" "set qs = woken L (release_one d (mu_entries s))"
    by (auto simp: woken_inst [OF d])
  define qs' where "qs' = (if ?w then [d] else []) @ qs"
  have "rfold (mu_release i) (d # L) s = Inr (s\<lparr>mu_entries := fold release_one (d # L) (mu_entries s), mu_state := st,
      mu_ready := mu_ready s @ map (\<lambda>q. me_inst (mu_entries s ! q)) qs'\<rparr>)"
    using r1(1) r2(1) by (simp add: qs'_def)
  moreover have "distinct qs'" using r2(3,4) woken_Cons(2) [OF d] by (auto simp: qs'_def)
  moreover have "set qs' = woken (d # L) (mu_entries s)" using r2(4) woken_Cons(1) [OF d, of L] by (auto simp: qs'_def)
  ultimately show ?case using r1(2) r2(2) by metis
qed

lemma length_release_all [simp]: "length (fold release_one L E) = length E"
  by (induction L arbitrary: E) simp_all

lemma release_all_nth:
  assumes "set L \<subseteq> {..< length E}"
  shows "fold release_one L E ! q = (E ! q)\<lparr>me_memDeps := me_memDeps (E ! q) - int (count_list L q)\<rparr>"
  using assms by (induction L arbitrary: E) (simp_all add: release_one_nth)

lemma deps_ok_release:
  assumes d: "deps_ok tid E H b" and e: "H sn = Some e"
  defines "L \<equiv> me_dependInsts (E ! e)"
  defines "E1 \<equiv> fold release_one L E"
  defines "E2 \<equiv> E1[e := (E1 ! e)\<lparr>me_dependInsts := []\<rparr>]"
  shows "deps_ok tid E2 H b" "me_memDeps (E2 ! e) = me_memDeps (E ! e)" "length E2 = length E"
    "\<And>x. me_inst (E2 ! x) = me_inst (E ! x)" "me_dependInsts (E2 ! e) = []"
    "\<And>x. x \<noteq> e \<Longrightarrow> me_dependInsts (E2 ! x) = me_dependInsts (E ! x)"
    "\<And>x. me_squashed (E2 ! x) = me_squashed (E ! x)"
proof -
  have eo: "entry_ok tid E H sn e" using deps_ok_entry [OF d e] by simp
  have L: "set L \<subseteq> {..< length E}" and le: "e < length E" using eo by (auto simp: entry_ok_def L_def)
  have "e \<notin> set L" using eo by (auto simp: entry_ok_def L_def)
  then have c0: "count_list L e = 0" by simp
  have f: "me_inst (E2 ! x) = me_inst (E ! x)" "me_squashed (E2 ! x) = me_squashed (E ! x)"
    "me_dependInsts (E2 ! x) = (if x = e then [] else me_dependInsts (E ! x))"
    "me_memDeps (E2 ! x) = me_memDeps (E ! x) - int (count_list L x)" for x
    using le by (auto simp: E2_def E1_def release_all_nth [OF L] nth_list_update)
  show "length E2 = length E" by (simp add: E2_def E1_def)
  show "me_memDeps (E2 ! e) = me_memDeps (E ! e)" "me_dependInsts (E2 ! e) = []"
    "\<And>x. me_inst (E2 ! x) = me_inst (E ! x)" "\<And>x. x \<noteq> e \<Longrightarrow> me_dependInsts (E2 ! x) = me_dependInsts (E ! x)"
    "\<And>x. me_squashed (E2 ! x) = me_squashed (E ! x)" using f c0 by simp_all
  have w: "waits E H q = count_list L q + waits E2 H q" for q
  proof -
    have er: "e \<in> ran H" using e by (rule ranI)
    have "waits E2 H q = (\<Sum>x\<in>ran H - {e}. count_list (me_dependInsts (E ! x)) q)"
      unfolding waits_def sum.remove [OF finite_live [OF d] er] by (simp add: f(3))
    then show ?thesis unfolding waits_def [of E] sum.remove [OF finite_live [OF d] er] by (simp add: L_def)
  qed
  have "entry_ok tid E2 H k x" if "H k = Some x" for k x
    using deps_ok_entry [OF d that] f \<open>length E2 = length E\<close> by (auto simp: entry_ok_def split: if_splits)
  moreover have "me_memDeps (E2 ! x) = int (waits E2 H x)" if "x \<in> ran H" for x
    using d that w [of x] f(4) [of x] by (simp add: deps_ok_def)
  ultimately show "deps_ok tid E2 H b" using d by (simp add: deps_ok_def)
qed

lemma count_le_waits:
  assumes "deps_ok tid E H b" "e \<in> ran H"
  shows "count_list (me_dependInsts (E ! e)) q \<le> waits E H q"
  unfolding waits_def by (rule member_le_sum [OF assms(2)]) (simp_all add: finite_live [OF assms(1)])

lemma woken_live:
  assumes d: "deps_ok tid E H b" and e: "H sn = Some e"
  shows "woken (me_dependInsts (E ! e)) E = {q \<in> ran H. q \<in> set (me_dependInsts (E ! e)) \<and> me_regsReady (E ! q) \<and>
    me_memDeps (E ! q) = int (count_list (me_dependInsts (E ! e)) q)}"
proof -
  let ?L = "me_dependInsts (E ! e)"
  have "1 \<le> me_memDeps (E ! q) \<and> me_memDeps (E ! q) \<le> int (count_list ?L q) \<longleftrightarrow> me_memDeps (E ! q) = int (count_list ?L q)"
    if "q \<in> ran H" "q \<in> set ?L" for q
  proof -
    have "me_memDeps (E ! q) = int (waits E H q)" using d that(1) by (simp add: deps_ok_def)
    moreover have "count_list ?L q \<le> waits E H q" using e by (intro count_le_waits [OF d]) (rule ranI)
    moreover have "0 < count_list ?L q" using that(2) by (metis count_list_0_iff gr0I)
    ultimately show ?thesis by linarith
  qed
  moreover have "\<not> me_squashed (E ! q)" if "q \<in> ran H" for q
    using deps_ok_entry [OF d deps_ok_ran [OF d that]] by (simp add: entry_ok_def)
  moreover have "q \<in> ran H \<or> me_squashed (E ! q)" if "q \<in> set ?L" for q
    using deps_ok_entry [OF d e] that by (simp add: entry_ok_def)
  ultimately show ?thesis unfolding woken_def by blast
qed

lemma mu_wake_core:
  assumes core: "mu_core X l s b" and e: "at_entry s i e"
  shows "\<exists>s' qs. mu_wakeDependents i s = Inr s' \<and> mu_core X l s' b \<and> mu_frame s s' \<and> me_dependInsts (mu_entries s' ! e) = [] \<and>
    me_memDeps (mu_entries s' ! e) = me_memDeps (mu_entries s ! e) \<and>
    (\<forall>x. x \<noteq> e \<longrightarrow> me_dependInsts (mu_entries s' ! x) = me_dependInsts (mu_entries s ! x)) \<and>
    mu_ready s' = mu_ready s @ map (\<lambda>q. me_inst (mu_entries s ! q)) qs \<and> distinct qs \<and>
    set qs = {q \<in> ran (map_of (mu_memDepHash s)). q \<in> set (me_dependInsts (mu_entries s ! e)) \<and> me_regsReady (mu_entries s ! q) \<and>
      me_memDeps (mu_entries s ! q) = int (count_list (me_dependInsts (mu_entries s ! e)) q)}"
proof -
  let ?E = "mu_entries s" and ?H = "map_of (mu_memDepHash s)"
  let ?L = "me_dependInsts (?E ! e)"
  have d: "deps_ok (mu_id s) ?E ?H b" using core by (simp add: mu_core_def)
  have h: "?H (di_seqNum i) = Some e" "me_inst (?E ! e) = i" using e by (simp_all add: at_entry_def)
  have eo: "e < length ?E" "set ?L \<subseteq> {..< length ?E}" "?L \<noteq> [] \<longrightarrow> wakes i"
    using deps_ok_entry [OF d h(1)] h(2) by (auto simp: entry_ok_def)
  show ?thesis
  proof (cases "wakes i")
    case False
    then have "?L = []" using eo(3) by blast
    then show ?thesis using False core by (intro exI [of _ s] exI [of _ "[]"]) (simp add: mu_wakeDependents_def mu_frame_def)
  next
    case True
    let ?E1 = "fold release_one ?L ?E"
    let ?E2 = "?E1[e := (?E1 ! e)\<lparr>me_dependInsts := []\<rparr>]"
    note rel = deps_ok_release [OF d h(1)]
    from mu_release_all [OF eo(2), of i] obtain st qs where
      r: "rfold (mu_release i) ?L s = Inr (s\<lparr>mu_entries := ?E1, mu_state := st, mu_ready := mu_ready s @ map (\<lambda>q. me_inst (?E ! q)) qs\<rparr>)"
        "\<And>sn. path_of (st sn) = path_of (mu_state s sn)" "distinct qs" "set qs = woken ?L ?E" by blast
    let ?s' = "s\<lparr>mu_entries := ?E2, mu_state := st, mu_ready := mu_ready s @ map (\<lambda>q. me_inst (?E ! q)) qs\<rparr>"
    have "mu_wakeDependents i s = Inr ?s'"
      using True h eo(1) r(1) by (simp add: mu_wakeDependents_def findInHash_def mu_update_entry_def)
    moreover have "mu_core X l ?s' b" using core_entries [OF core rel(1)] rel(4) by simp
    moreover have "mu_frame s ?s'" using rel(3,4) r(2) by (simp add: mu_frame_def path_of_def)
    ultimately show ?thesis using rel(2,5,6) r(3,4) woken_live [OF d h(1)] by (intro exI [of _ ?s'] exI [of _ qs]) simp
  qed
qed

section \<open>Completing and squashing\<close>

lemma delete_map: "map_of (AList.delete k xs) = (map_of xs)(k := None)"
  by (rule ext) (simp add: delete_conv')

lemma program_order_distinct: "sorted_wrt (\<lambda>i j. di_seqNum i < di_seqNum j) l \<Longrightarrow> distinct l"
  by (induction l) auto

lemma program_order_remove1:
  "sorted_wrt (\<lambda>i j. di_seqNum i < di_seqNum j) l \<Longrightarrow> sorted_wrt (\<lambda>i j. di_seqNum i < di_seqNum j) (remove1 x l)"
  by (induction l) (auto dest: in_set_remove1 [THEN iffD1, rotated] notin_set_remove1 intro: set_remove1_subset [THEN subsetD])

text \<open>Taking an entry out of the table: nothing in the table may depend on it, and what it depended on or what
  depends on it must be accounted for.\<close>

lemma deps_ok_remove:
  assumes d: "deps_ok tid E H b" and e: "H sn = Some e"
    and out: "\<And>q. q \<in> ran H \<Longrightarrow> q \<notin> set (me_dependInsts (E ! e))"
    and into: "\<And>x. x \<in> ran H \<Longrightarrow> e \<in> set (me_dependInsts (E ! x)) \<Longrightarrow> me_squashed (E' ! e)"
    and same: "length E' = length E" "\<And>x. me_inst (E' ! x) = me_inst (E ! x)" "\<And>x. me_dependInsts (E' ! x) = me_dependInsts (E ! x)"
      "\<And>x. me_memDeps (E' ! x) = me_memDeps (E ! x)" "\<And>x. x \<noteq> e \<Longrightarrow> me_squashed (E' ! x) = me_squashed (E ! x)"
  shows "deps_ok tid E' (H(sn := None)) b"
proof -
  have er: "e \<in> ran H" using e by (rule ranI)
  have ran: "ran (H(sn := None)) = ran H - {e}" by (rule ran_remove [OF d e])
  have w: "waits E' (H(sn := None)) q = waits E H q" if "q \<in> ran H" for q
    unfolding waits_def ran sum.remove [OF finite_live [OF d] er] using out [OF that] by (simp add: same(3))
  have "entry_ok tid E' (H(sn := None)) k x" if k: "(H(sn := None)) k = Some x" for k x
  proof -
    have k': "H k = Some x" "k \<noteq> sn" using k by (auto split: if_splits)
    then have xr: "x \<in> ran H" "x \<noteq> e" using deps_ok_inj [OF d e] by (auto intro: ranI)
    have "q \<in> ran (H(sn := None)) \<or> me_squashed (E' ! q)" if "q \<in> set (me_dependInsts (E ! x))" for q
      using deps_ok_entry [OF d k'(1)] that ran into [OF xr(1)] same(5) by (cases "q = e") (auto simp: entry_ok_def)
    then show ?thesis using deps_ok_entry [OF d k'(1)] same xr by (simp add: entry_ok_def)
  qed
  moreover have "me_memDeps (E' ! x) = int (waits E' (H(sn := None)) x)" if "x \<in> ran H - {e}" for x
    using d that w same(4) by (simp add: deps_ok_def)
  ultimately show ?thesis using d unfolding deps_ok_def ran by auto
qed

lemma mu_core_remove:
  assumes core: "mu_core X l s b" and e: "at_entry s i e"
    and out: "\<And>q. q \<in> ran (map_of (mu_memDepHash s)) \<Longrightarrow> q \<notin> set (me_dependInsts (mu_entries s ! e))"
    and into: "\<And>x. x \<in> ran (map_of (mu_memDepHash s)) \<Longrightarrow> e \<in> set (me_dependInsts (mu_entries s ! x)) \<Longrightarrow> me_squashed (E' ! e)"
    and same: "length E' = length (mu_entries s)" "\<And>x. me_inst (E' ! x) = me_inst (mu_entries s ! x)"
      "\<And>x. me_dependInsts (E' ! x) = me_dependInsts (mu_entries s ! x)" "\<And>x. me_memDeps (E' ! x) = me_memDeps (mu_entries s ! x)"
      "\<And>x. x \<noteq> e \<Longrightarrow> me_squashed (E' ! x) = me_squashed (mu_entries s ! x)"
    and rep: "i \<notin> set (mu_instsToReplay s)"
    and bars: "set LB - {di_seqNum i} = set (mu_loadBarrierSNs s) - {di_seqNum i}"
      "set SB - {di_seqNum i} = set (mu_storeBarrierSNs s) - {di_seqNum i}"
  shows "mu_core (insert (di_seqNum i) X) (remove1 i l)
    (s\<lparr>mu_entries := E', mu_memDepHash := AList.delete (di_seqNum i) (mu_memDepHash s), mu_loadBarrierSNs := LB, mu_storeBarrierSNs := SB\<rparr>) b"
proof -
  let ?E = "mu_entries s" and ?H = "map_of (mu_memDepHash s)" and ?sn = "di_seqNum i"
  have d: "deps_ok (mu_id s) ?E ?H b" using core by (simp add: mu_core_def)
  have h: "?H ?sn = Some e" "me_inst (?E ! e) = i" using e by (simp_all add: at_entry_def)
  have ran: "ran (?H(?sn := None)) = ran ?H - {e}" by (rule ran_remove [OF d h(1)])
  have "deps_ok (mu_id s) E' (?H(?sn := None)) b" by (rule deps_ok_remove [OF d h(1)]) (use out into same in simp_all)
  moreover have "insts_ok E' (?H(?sn := None)) (remove1 i l)"
  proof -
    have l: "sorted_wrt (\<lambda>i j. di_seqNum i < di_seqNum j) l" "set l = (\<lambda>e. me_inst (?E ! e)) ` ran ?H"
      using core by (simp_all add: mu_core_def insts_ok_def)
    have "distinct l" using l(1) by (rule program_order_distinct)
    moreover have "(\<lambda>e. me_inst (?E ! e)) ` (ran ?H - {e}) = (\<lambda>e. me_inst (?E ! e)) ` ran ?H - {i}"
      using h deps_ok_ran [OF d] by (auto simp: image_iff) (metis option.inject)
    moreover have "sorted_wrt (\<lambda>i j. di_seqNum i < di_seqNum j) (remove1 i l)" using l(1) by (rule program_order_remove1)
    ultimately show ?thesis using l(2) unfolding insts_ok_def ran same(2) by simp
  qed
  moreover have "barriers_ok E' (?H(?sn := None)) LB SB (insert ?sn X)"
  proof -
    have "sn \<in> set LB \<longleftrightarrow> sn \<in> set (mu_loadBarrierSNs s)" "sn \<in> set SB \<longleftrightarrow> sn \<in> set (mu_storeBarrierSNs s)" if "sn \<noteq> ?sn" for sn
      using bars that by blast+
    then show ?thesis using core unfolding mu_core_def barriers_ok_def same(2) by simp
  qed
  moreover have "replay_ok E' (?H(?sn := None)) (mu_instsToReplay s)"
    using core rep h unfolding mu_core_def replay_ok_def same(2) by (metis fun_upd_apply option.inject)
  ultimately show ?thesis by (simp add: mu_core_def delete_map)
qed

lemma mu_core_close:
  assumes "mu_core {sn} l s b" "map_of (mu_memDepHash s) sn = None" "sn \<notin> set (mu_loadBarrierSNs s)" "sn \<notin> set (mu_storeBarrierSNs s)"
  shows "mu_core {} l s b"
proof -
  have "barriers_ok E H LB SB {}" if "barriers_ok E H LB SB {sn}" "H sn = None" "sn \<notin> set LB" "sn \<notin> set SB" for E H LB SB
    unfolding barriers_ok_def
  proof (intro allI impI)
    fix k
    show "(k \<in> set LB \<longleftrightarrow> (\<exists>e. H k = Some e \<and> load_barrier (me_inst (E ! e)))) \<and>
        (k \<in> set SB \<longleftrightarrow> (\<exists>e. H k = Some e \<and> store_barrier (me_inst (E ! e))))"
      using that by (cases "k = sn") (simp_all add: barriers_ok_def)
  qed
  then show ?thesis using assms unfolding mu_core_def by blast
qed

lemma at_entry_live: "at_entry s i e \<Longrightarrow> e \<in> ran (map_of (mu_memDepHash s))"
  unfolding at_entry_def by (blast intro: ranI)

lemma at_entry_of:
  "deps_ok (mu_id s) (mu_entries s) (map_of (mu_memDepHash s)) b \<Longrightarrow> x \<in> ran (map_of (mu_memDepHash s)) \<Longrightarrow>
   at_entry s (me_inst (mu_entries s ! x)) x"
  by (simp add: at_entry_def deps_ok_ran)

lemma waits_0_iff:
  "deps_ok tid E H b \<Longrightarrow> waits E H q = 0 \<longleftrightarrow> (\<forall>x\<in>ran H. q \<notin> set (me_dependInsts (E ! x)))"
  by (simp add: waits_def finite_live count_list_0_iff)

lemma producers_of:
  assumes "deps_ok (mu_id s) (mu_entries s) (map_of (mu_memDepHash s)) b" "at_entry s i e"
  shows "producers s i = (\<lambda>x. me_inst (mu_entries s ! x)) ` {x \<in> ran (map_of (mu_memDepHash s)). e \<in> set (me_dependInsts (mu_entries s ! x))}"
proof -
  have "at_entry s i e' \<longleftrightarrow> e' = e" for e' using assms(2) by (auto simp: at_entry_def)
  then have "producers s i = {j. \<exists>x. at_entry s j x \<and> e \<in> set (me_dependInsts (mu_entries s ! x))}" by (simp add: producers_def)
  also have "\<dots> = (\<lambda>x. me_inst (mu_entries s ! x)) ` {x \<in> ran (map_of (mu_memDepHash s)). e \<in> set (me_dependInsts (mu_entries s ! x))}"
    using at_entry_of [OF assms(1)] at_entry_live [of s] by (auto simp: at_entry_def)
  finally show ?thesis .
qed

lemma no_producers:
  assumes "deps_ok (mu_id s) (mu_entries s) (map_of (mu_memDepHash s)) b" "at_entry s i e"
  shows "me_memDeps (mu_entries s ! e) = 0 \<longleftrightarrow> producers s i = {}"
proof -
  have "me_memDeps (mu_entries s ! e) = int (waits (mu_entries s) (map_of (mu_memDepHash s)) e)"
    using assms(1) at_entry_live [OF assms(2)] by (simp add: deps_ok_def)
  then show ?thesis unfolding producers_of [OF assms] using waits_0_iff [OF assms(1)] by auto
qed

lemma sole_producer:
  assumes d: "deps_ok (mu_id s) (mu_entries s) (map_of (mu_memDepHash s)) b" and i: "at_entry s i e" and j: "at_entry s j q"
  shows "q \<in> set (me_dependInsts (mu_entries s ! e)) \<and> me_memDeps (mu_entries s ! q) = int (count_list (me_dependInsts (mu_entries s ! e)) q)
    \<longleftrightarrow> producers s j = {i}"
proof -
  let ?E = "mu_entries s" and ?H = "map_of (mu_memDepHash s)"
  let ?P = "{x \<in> ran ?H. q \<in> set (me_dependInsts (?E ! x))}"
  have er: "e \<in> ran ?H" by (rule at_entry_live [OF i])
  define R where "R = (\<Sum>x\<in>ran ?H - {e}. count_list (me_dependInsts (?E ! x)) q)"
  have "me_memDeps (?E ! q) = int (waits ?E ?H q)" using d at_entry_live [OF j] by (simp add: deps_ok_def)
  moreover have "waits ?E ?H q = count_list (me_dependInsts (?E ! e)) q + R"
    unfolding waits_def R_def by (rule sum.remove [OF finite_live [OF d] er])
  ultimately have "me_memDeps (?E ! q) = int (count_list (me_dependInsts (?E ! e)) q) \<longleftrightarrow> R = 0" by simp
  also have "R = 0 \<longleftrightarrow> ?P \<subseteq> {e}" unfolding R_def using finite_live [OF d] by (auto simp: count_list_0_iff)
  finally have "q \<in> set (me_dependInsts (?E ! e)) \<and> me_memDeps (?E ! q) = int (count_list (me_dependInsts (?E ! e)) q) \<longleftrightarrow> ?P = {e}"
    using er by blast
  moreover have "(\<lambda>x. me_inst (?E ! x)) ` ?P = {i} \<longleftrightarrow> ?P = {e}"
  proof
    assume img: "(\<lambda>x. me_inst (?E ! x)) ` ?P = {i}"
    have "x = e" if "x \<in> ?P" for x
    proof -
      have "me_inst (?E ! x) = i" using img that by blast
      then show ?thesis using at_entry_of [OF d, of x] that i by (simp add: at_entry_def)
    qed
    then show "?P = {e}" using img by blast
  qed (use i in \<open>auto simp: at_entry_def\<close>)
  ultimately show ?thesis unfolding producers_of [OF d j] by blast
qed

end
