(* ===== verification/Mem_Dep_Safety.thy ===== *)
theory Mem_Dep_Safety
  imports Mem_Dep_Unit
begin

text \<open>
  The memory-dependence unit as a whole: completing and squashing keep its invariant, the calls that the
  instruction queue makes are the steps of a transition system, and in every reachable state an instruction is
  handed to the instruction queue exactly when nothing in the unit holds it back.
\<close>

definition regs_ready :: "'p mem_dep_unit \<Rightarrow> dyn_inst \<Rightarrow> bool" where
  "regs_ready s i \<longleftrightarrow> (\<exists>e. at_entry s i e \<and> me_regsReady (mu_entries s ! e))"

lemma mu_inv_deps: "mu_inv s b \<Longrightarrow> deps_ok (mu_id s) (mu_entries s) (map_of (mu_memDepHash s)) b"
  by (simp add: mu_inv_def mu_core_def)

lemma at_entry_facts:
  assumes "mu_inv s b" "at_entry s i e"
  shows "e < length (mu_entries s)" "di_threadNumber i = mu_id s" "\<not> me_squashed (mu_entries s ! e)" "di_seqNum i \<le> b"
    "map_of (mu_memDepHash s) (di_seqNum i) = Some e" "me_inst (mu_entries s ! e) = i"
  using deps_ok_entry [OF mu_inv_deps [OF assms(1)], of "di_seqNum i" e] assms(2) by (auto simp: at_entry_def entry_ok_def)

lemma in_unit_list:
  assumes "mu_inv s b"
  shows "in_unit s = set (mu_instList s ! mu_id s)"
proof -
  have "set (mu_instList s ! mu_id s) = (\<lambda>e. me_inst (mu_entries s ! e)) ` ran (map_of (mu_memDepHash s))"
    using assms by (simp add: mu_inv_def mu_core_def insts_ok_def)
  then show ?thesis using at_entry_of [OF mu_inv_deps [OF assms]] at_entry_live [of s]
    by (force simp: in_unit_def at_entry_def)
qed

text \<open>The instructions that completing \<open>i\<close> hands to the instruction queue.\<close>

lemma woken_insts:
  assumes inv: "mu_inv s b" and i: "at_entry s i e"
  shows "(\<lambda>q. me_inst (mu_entries s ! q)) ` {q \<in> ran (map_of (mu_memDepHash s)). q \<in> set (me_dependInsts (mu_entries s ! e)) \<and>
      me_regsReady (mu_entries s ! q) \<and> me_memDeps (mu_entries s ! q) = int (count_list (me_dependInsts (mu_entries s ! e)) q)} =
    {j \<in> in_unit s. regs_ready s j \<and> producers s j = {i}}" (is "?f ` ?Q = _")
proof -
  note d = mu_inv_deps [OF inv]
  have "?f ` ?Q = {j. \<exists>q. at_entry s j q \<and> q \<in> ?Q}"
    using at_entry_of [OF d] by (auto simp: at_entry_def)
  also have "\<dots> = {j. \<exists>q. at_entry s j q \<and> me_regsReady (mu_entries s ! q) \<and> producers s j = {i}}"
    using sole_producer [OF d i] at_entry_live [of s] by blast
  also have "\<dots> = {j \<in> in_unit s. regs_ready s j \<and> producers s j = {i}}"
    by (auto simp: in_unit_def regs_ready_def)
  finally show ?thesis .
qed

lemma mu_complete_core:
  assumes inv: "mu_inv s b" and e: "at_entry s i e" and free: "producers s i = {}" and rep: "i \<notin> set (mu_instsToReplay s)"
  shows "\<exists>s' new. mu_completeInst i s = Inr s' \<and> mu_inv s' b \<and> mu_depPred s' = mu_depPred s \<and> mu_id s' = mu_id s \<and>
    (\<forall>sn. path_of (mu_state s' sn) = path_of (mu_state s sn)) \<and> mu_instList s' ! mu_id s' = remove1 i (mu_instList s ! mu_id s) \<and>
    mu_ready s' = mu_ready s @ new \<and> distinct new \<and> set new = {j \<in> in_unit s. regs_ready s j \<and> producers s j = {i}}"
proof -
  note d = mu_inv_deps [OF inv] and af = at_entry_facts [OF inv e]
  let ?l = "mu_instList s ! mu_id s" and ?sn = "di_seqNum i" and ?H = "map_of (mu_memDepHash s)"
  have core: "mu_core {} ?l s b" and li: "lists_ok s" using inv by (simp_all add: mu_inv_def)
  obtain s1 qs where w: "mu_wakeDependents i s = Inr s1" "mu_core {} ?l s1 b" "mu_frame s s1"
      "me_dependInsts (mu_entries s1 ! e) = []" "me_memDeps (mu_entries s1 ! e) = me_memDeps (mu_entries s ! e)"
      "mu_ready s1 = mu_ready s @ map (\<lambda>q. me_inst (mu_entries s ! q)) qs" "distinct qs"
      "set qs = {q \<in> ran ?H. q \<in> set (me_dependInsts (mu_entries s ! e)) \<and> me_regsReady (mu_entries s ! q) \<and>
        me_memDeps (mu_entries s ! q) = int (count_list (me_dependInsts (mu_entries s ! e)) q)}"
    using mu_wake_core [OF core e] by blast
  have fr: "mu_id s1 = mu_id s" "mu_memDepHash s1 = mu_memDepHash s" "mu_instList s1 = mu_instList s" "mu_instsToReplay s1 = mu_instsToReplay s"
      "mu_loadBarrierSNs s1 = mu_loadBarrierSNs s" "mu_storeBarrierSNs s1 = mu_storeBarrierSNs s" "mu_depPred s1 = mu_depPred s"
      "\<And>x. x < length (mu_entries s) \<Longrightarrow> me_inst (mu_entries s1 ! x) = me_inst (mu_entries s ! x)" "length (mu_entries s1) = length (mu_entries s)"
    using w(3) by (simp_all add: mu_frame_def)
  have e1: "at_entry s1 i e" using af fr by (simp add: at_entry_def)
  have "me_memDeps (mu_entries s1 ! e) = 0" using no_producers [OF d e] free w(5) by simp
  then have free1: "\<forall>x\<in>ran ?H. e \<notin> set (me_dependInsts (mu_entries s1 ! x))"
    using w(2) e1 fr waits_0_iff [of "mu_id s" "mu_entries s1" ?H b] at_entry_live [OF e1] by (auto simp: mu_core_def deps_ok_def)
  let ?LB = "if load_barrier i then removeAll ?sn (mu_loadBarrierSNs s) else mu_loadBarrierSNs s"
  let ?SB = "if store_barrier i then removeAll ?sn (mu_storeBarrierSNs s) else mu_storeBarrierSNs s"
  let ?s2 = "s1\<lparr>mu_memDepHash := AList.delete ?sn (mu_memDepHash s1), mu_instList := (mu_instList s)[mu_id s := remove1 i ?l],
    mu_loadBarrierSNs := ?LB, mu_storeBarrierSNs := ?SB\<rparr>"
  have bar: "?sn \<in> set (mu_loadBarrierSNs s) \<longleftrightarrow> load_barrier i" "?sn \<in> set (mu_storeBarrierSNs s) \<longleftrightarrow> store_barrier i"
    using core af(5,6) by (auto simp: mu_core_def barriers_ok_def)
  have comp: "mu_completed i s1 = Inr (s1\<lparr>mu_instList := (mu_instList s)[mu_id s := remove1 i ?l], mu_memDepHash := AList.delete ?sn (mu_memDepHash s)\<rparr>)"
    using af li fr by (simp add: mu_completed_def findInHash_def lists_ok_def)
  have "load_barrier i \<Longrightarrow> mu_loadBarrierSNs s \<noteq> []" "store_barrier i \<Longrightarrow> mu_storeBarrierSNs s \<noteq> []" using bar by auto
  then have run: "mu_completeInst i s = Inr ?s2"
    using w(1) comp fr by (cases "load_barrier i"; cases "store_barrier i") (simp_all add: mu_completeInst_def)
  have "mu_core {?sn} (remove1 i ?l) (s1\<lparr>mu_entries := mu_entries s1, mu_memDepHash := AList.delete ?sn (mu_memDepHash s1),
      mu_loadBarrierSNs := ?LB, mu_storeBarrierSNs := ?SB\<rparr>) b"
    by (rule mu_core_remove [OF w(2) e1]) (use w(4) free1 fr rep in auto)
  then have "mu_core {} (remove1 i ?l) ?s2 b"
    using bar fr by (intro mu_core_close [of ?sn]) (auto simp: mu_core_def delete_map)
  moreover have l2: "mu_instList ?s2 ! mu_id ?s2 = remove1 i ?l" using li fr by (simp add: lists_ok_def)
  moreover have "lists_ok ?s2" using li fr by (simp add: lists_ok_def nth_list_update)
  ultimately have "mu_inv ?s2 b" by (simp add: mu_inv_def)
  moreover have "distinct (map (\<lambda>q. me_inst (mu_entries s ! q)) qs)"
  proof -
    have "inj_on (\<lambda>q. me_inst (mu_entries s ! q)) (ran ?H)" using deps_ok_ran [OF d] by (metis (no_types, lifting) inj_onI option.inject)
    then show ?thesis using w(7,8) by (auto simp: distinct_map intro: inj_on_subset)
  qed
  moreover have "set (map (\<lambda>q. me_inst (mu_entries s ! q)) qs) = {j \<in> in_unit s. regs_ready s j \<and> producers s j = {i}}"
    unfolding set_map w(8) by (rule woken_insts [OF inv e])
  ultimately show ?thesis using run w(3,6) l2 fr unfolding mu_frame_def path_of_def by (intro exI [of _ ?s2]) auto
qed

lemma mu_squash_one_core:
  assumes core: "mu_core {} (l @ [i]) s b" and rep: "\<forall>j\<in>set (mu_instsToReplay s). di_seqNum j < di_seqNum i"
  shows "\<exists>E LB SB. mu_squash_one i s = Inr (s\<lparr>mu_entries := E, mu_memDepHash := AList.delete (di_seqNum i) (mu_memDepHash s),
      mu_loadBarrierSNs := LB, mu_storeBarrierSNs := SB\<rparr>) \<and>
    mu_core {} l (s\<lparr>mu_entries := E, mu_memDepHash := AList.delete (di_seqNum i) (mu_memDepHash s),
      mu_loadBarrierSNs := LB, mu_storeBarrierSNs := SB\<rparr>) b \<and>
    (\<forall>x. me_inst (E ! x) = me_inst (mu_entries s ! x) \<and> me_dependInsts (E ! x) = me_dependInsts (mu_entries s ! x))"
proof -
  let ?E = "mu_entries s" and ?H = "map_of (mu_memDepHash s)" and ?sn = "di_seqNum i"
  have d: "deps_ok (mu_id s) ?E ?H b" using core by (simp add: mu_core_def)
  have l: "sorted_wrt (\<lambda>i j. di_seqNum i < di_seqNum j) (l @ [i])" "set (l @ [i]) = (\<lambda>e. me_inst (?E ! e)) ` ran ?H"
    using core by (simp_all add: mu_core_def insts_ok_def)
  then have "i \<in> (\<lambda>e. me_inst (?E ! e)) ` ran ?H" by (metis in_set_conv_decomp)
  then obtain e where e: "at_entry s i e" using at_entry_of [OF d] by blast
  then have h: "?H ?sn = Some e" "me_inst (?E ! e) = i" by (simp_all add: at_entry_def)
  have le: "e < length ?E" by (rule deps_ok_lt [OF d h(1)])
  have young: "di_seqNum (me_inst (?E ! x)) \<le> ?sn" if "x \<in> ran ?H" for x
  proof -
    have "me_inst (?E ! x) \<in> set (l @ [i])" using l(2) that by blast
    then show ?thesis using l(1) by (auto simp: sorted_wrt_append less_imp_le)
  qed
  let ?E' = "?E[e := (?E ! e)\<lparr>me_squashed := True\<rparr>]"
  let ?LB = "removeAll ?sn (mu_loadBarrierSNs s)" and ?SB = "removeAll ?sn (mu_storeBarrierSNs s)"
  let ?s' = "s\<lparr>mu_entries := ?E', mu_memDepHash := AList.delete ?sn (mu_memDepHash s), mu_loadBarrierSNs := ?LB, mu_storeBarrierSNs := ?SB\<rparr>"
  have same: "me_inst (?E' ! x) = me_inst (?E ! x)" "me_dependInsts (?E' ! x) = me_dependInsts (?E ! x)"
    "me_memDeps (?E' ! x) = me_memDeps (?E ! x)" "x \<noteq> e \<Longrightarrow> me_squashed (?E' ! x) = me_squashed (?E ! x)" for x
    using le by (simp_all add: nth_list_update)
  have "mu_core {?sn} (remove1 i (l @ [i])) ?s' b"
  proof (rule mu_core_remove [OF core e])
    fix q assume q: "q \<in> ran ?H"
    then show "q \<notin> set (me_dependInsts (?E ! e))"
      using deps_ok_entry [OF d h(1)] young [OF q] by (auto simp: entry_ok_def)
    show "me_squashed (?E' ! e)" using le by simp
  qed (use same rep in auto)
  moreover have "remove1 i (l @ [i]) = l" using program_order_distinct [OF l(1)] by (simp add: remove1_append)
  ultimately have "mu_core {} l ?s' b" by (intro mu_core_close [of ?sn]) (auto simp: delete_map)
  moreover have "mu_squash_one i s = Inr ?s'"
    using h le by (simp add: mu_squash_one_def findInHash_def mu_update_entry_def Let_def)
  ultimately show ?thesis using same by blast
qed

lemma mu_squash_loop_core:
  assumes "mu_core {} (rev is) s b" "\<forall>j\<in>set (mu_instsToReplay s). di_seqNum j \<le> sq"
  shows "\<exists>E H LB SB. mu_squash_loop sq is s = Inr (dropWhile (\<lambda>i. sq < di_seqNum i) is,
      s\<lparr>mu_entries := E, mu_memDepHash := H, mu_loadBarrierSNs := LB, mu_storeBarrierSNs := SB\<rparr>) \<and>
    mu_core {} (rev (dropWhile (\<lambda>i. sq < di_seqNum i) is))
      (s\<lparr>mu_entries := E, mu_memDepHash := H, mu_loadBarrierSNs := LB, mu_storeBarrierSNs := SB\<rparr>) b \<and>
    (\<forall>x. me_inst (E ! x) = me_inst (mu_entries s ! x) \<and> me_dependInsts (E ! x) = me_dependInsts (mu_entries s ! x)) \<and>
    (\<forall>k. map_of H k = map_of (mu_memDepHash s) k \<or> map_of H k = None)"
  using assms
proof (induction "is" arbitrary: s)
  case Nil
  from Nil show ?case
    by (intro exI [of _ "mu_entries s"] exI [of _ "mu_memDepHash s"]
      exI [of _ "mu_loadBarrierSNs s"] exI [of _ "mu_storeBarrierSNs s"]) simp
next
  case (Cons i "is")
  show ?case
  proof (cases "sq < di_seqNum i")
    case False
    with Cons.prems(1) show ?thesis
      by (intro exI [of _ "mu_entries s"] exI [of _ "mu_memDepHash s"]
        exI [of _ "mu_loadBarrierSNs s"] exI [of _ "mu_storeBarrierSNs s"]) simp
  next
    case True
    have c: "mu_core {} (rev is @ [i]) s b" using Cons.prems(1) by simp
    have "\<forall>j\<in>set (mu_instsToReplay s). di_seqNum j < di_seqNum i" using Cons.prems(2) True by (auto intro: order.strict_trans1)
    from mu_squash_one_core [OF c this] obtain E1 LB1 SB1 where
      one: "mu_squash_one i s = Inr (s\<lparr>mu_entries := E1, mu_memDepHash := AList.delete (di_seqNum i) (mu_memDepHash s),
          mu_loadBarrierSNs := LB1, mu_storeBarrierSNs := SB1\<rparr>)"
        "mu_core {} (rev is) (s\<lparr>mu_entries := E1, mu_memDepHash := AList.delete (di_seqNum i) (mu_memDepHash s),
          mu_loadBarrierSNs := LB1, mu_storeBarrierSNs := SB1\<rparr>) b"
        "\<And>x. me_inst (E1 ! x) = me_inst (mu_entries s ! x) \<and> me_dependInsts (E1 ! x) = me_dependInsts (mu_entries s ! x)" by blast
    from Cons.IH [OF one(2)] Cons.prems(2) obtain E H LB SB where
      rest: "mu_squash_loop sq is (s\<lparr>mu_entries := E1, mu_memDepHash := AList.delete (di_seqNum i) (mu_memDepHash s),
          mu_loadBarrierSNs := LB1, mu_storeBarrierSNs := SB1\<rparr>) = Inr (dropWhile (\<lambda>i. sq < di_seqNum i) is,
          s\<lparr>mu_entries := E, mu_memDepHash := H, mu_loadBarrierSNs := LB, mu_storeBarrierSNs := SB\<rparr>)"
        "mu_core {} (rev (dropWhile (\<lambda>i. sq < di_seqNum i) is))
          (s\<lparr>mu_entries := E, mu_memDepHash := H, mu_loadBarrierSNs := LB, mu_storeBarrierSNs := SB\<rparr>) b"
        "\<And>x. me_inst (E ! x) = me_inst (E1 ! x) \<and> me_dependInsts (E ! x) = me_dependInsts (E1 ! x)"
        "\<And>k. map_of H k = map_of (AList.delete (di_seqNum i) (mu_memDepHash s)) k \<or> map_of H k = None" by auto
    have "\<forall>k. map_of H k = map_of (mu_memDepHash s) k \<or> map_of H k = None"
      using rest(4) unfolding delete_map by (metis fun_upd_apply)
    moreover have "mu_squash_loop sq (i # is) s = Inr (dropWhile (\<lambda>i. sq < di_seqNum i) (i # is),
          s\<lparr>mu_entries := E, mu_memDepHash := H, mu_loadBarrierSNs := LB, mu_storeBarrierSNs := SB\<rparr>)"
      using True one(1) rest(1) by simp
    ultimately show ?thesis using True one(3) rest(2,3) by (intro exI [of _ E] exI [of _ H] exI [of _ LB] exI [of _ SB]) simp
  qed
qed

lemma program_order_dropWhile:
  "sorted_wrt (\<lambda>i j. di_seqNum i < di_seqNum j) l \<Longrightarrow>
   rev (dropWhile (\<lambda>i. sq < di_seqNum i) (rev l)) = filter (\<lambda>i. di_seqNum i \<le> sq) l"
proof (induction l rule: rev_induct)
  case (snoc i l)
  show ?case
  proof (cases "sq < di_seqNum i")
    case False
    then have "\<forall>j\<in>set (l @ [i]). di_seqNum j \<le> sq" using snoc.prems by (auto simp: sorted_wrt_append not_less intro: order.trans less_imp_le)
    then have "filter (\<lambda>i. di_seqNum i \<le> sq) (l @ [i]) = l @ [i]" by (simp add: filter_id_conv)
    then show ?thesis using False by simp
  qed (use snoc in \<open>simp add: sorted_wrt_append not_le\<close>)
qed simp

lemma mu_squash_core:
  assumes inv: "mu_inv s b" and pred: "dp_squash ops sq (mu_depPred s) = Inr p"
  shows "\<exists>s'. mu_squash ops sq (mu_id s) s = Inr s' \<and> mu_inv s' b \<and> mu_depPred s' = p \<and> mu_id s' = mu_id s \<and> mu_state s' = mu_state s \<and>
    mu_ready s' = mu_ready s \<and> mu_instList s' ! mu_id s' = filter (\<lambda>i. di_seqNum i \<le> sq) (mu_instList s ! mu_id s) \<and>
    mu_instsToReplay s' = filter (\<lambda>i. di_seqNum i \<le> sq) (mu_instsToReplay s) \<and>
    (\<forall>x. me_inst (mu_entries s' ! x) = me_inst (mu_entries s ! x) \<and> me_dependInsts (mu_entries s' ! x) = me_dependInsts (mu_entries s ! x)) \<and>
    (\<forall>k. map_of (mu_memDepHash s') k = map_of (mu_memDepHash s) k \<or> map_of (mu_memDepHash s') k = None)"
proof -
  let ?l = "mu_instList s ! mu_id s"
  let ?R = "filter (\<lambda>i. \<not> (di_threadNumber i = mu_id s \<and> sq < di_seqNum i)) (mu_instsToReplay s)"
  have core: "mu_core {} ?l s b" and li: "lists_ok s" using inv by (simp_all add: mu_inv_def)
  have rep: "at_entry s j (the (map_of (mu_memDepHash s) (di_seqNum j)))" if "j \<in> set (mu_instsToReplay s)" for j
    using core that by (auto simp: mu_core_def replay_ok_def at_entry_def)
  have R: "?R = filter (\<lambda>i. di_seqNum i \<le> sq) (mu_instsToReplay s)"
    using at_entry_facts(2) [OF inv rep] by (intro filter_cong) (auto simp: not_less)
  have so: "sorted_wrt (\<lambda>i j. di_seqNum i < di_seqNum j) ?l" using core by (simp add: mu_core_def insts_ok_def)
  have "mu_core {} (rev (rev ?l)) (s\<lparr>mu_instsToReplay := ?R\<rparr>) b"
    using core unfolding R by (auto simp: mu_core_def replay_ok_def)
  from mu_squash_loop_core [OF this, of sq] obtain E H LB SB where
    loop: "mu_squash_loop sq (rev ?l) (s\<lparr>mu_instsToReplay := ?R\<rparr>) = Inr (dropWhile (\<lambda>i. sq < di_seqNum i) (rev ?l),
        s\<lparr>mu_instsToReplay := ?R, mu_entries := E, mu_memDepHash := H, mu_loadBarrierSNs := LB, mu_storeBarrierSNs := SB\<rparr>)"
      "mu_core {} (rev (dropWhile (\<lambda>i. sq < di_seqNum i) (rev ?l)))
        (s\<lparr>mu_instsToReplay := ?R, mu_entries := E, mu_memDepHash := H, mu_loadBarrierSNs := LB, mu_storeBarrierSNs := SB\<rparr>) b"
      "\<And>x. me_inst (E ! x) = me_inst (mu_entries s ! x) \<and> me_dependInsts (E ! x) = me_dependInsts (mu_entries s ! x)"
      "\<And>k. map_of H k = map_of (mu_memDepHash s) k \<or> map_of H k = None"
    unfolding R by auto
  let ?k = "filter (\<lambda>i. di_seqNum i \<le> sq) ?l"
  let ?s' = "s\<lparr>mu_instsToReplay := ?R, mu_entries := E, mu_memDepHash := H, mu_loadBarrierSNs := LB, mu_storeBarrierSNs := SB,
    mu_instList := (mu_instList s)[mu_id s := ?k], mu_depPred := p\<rparr>"
  have "mu_squash ops sq (mu_id s) s = Inr ?s'"
    using li loop(1) pred program_order_dropWhile [OF so, of sq] by (simp add: mu_squash_def lists_ok_def)
  moreover have "mu_inv ?s' b"
    using li loop(2) program_order_dropWhile [OF so, of sq] by (simp add: mu_inv_def lists_ok_def nth_list_update mu_core_def)
  moreover have "mu_instList ?s' ! mu_id ?s' = ?k" using li by (simp add: lists_ok_def)
  ultimately show ?thesis using loop(3,4) R by (intro exI [of _ ?s']) simp
qed

section \<open>The unit as a transition system\<close>

text \<open>The calls of the instruction queue, and what the rest of the pipeline does to an instruction between them.\<close>

datatype mu_call =
    InsertMem lsq_view dyn_inst branch_history
  | InsertNonSpec dyn_inst
  | InsertBarrier dyn_inst
  | RegsReady dyn_inst
  | NonSpecInstReady dyn_inst
  | Reschedule dyn_inst
  | Replay
  | CompleteInst dyn_inst
  | SquashAfter seqnum
  | MemViolation seqnum u64 dyn_inst branch_history
  | IssueInst dyn_inst
  | CommitInst dyn_inst
  | Pipeline seqnum bool addr u32 int

definition pipeline_step :: "seqnum \<Rightarrow> bool \<Rightarrow> addr \<Rightarrow> u32 \<Rightarrow> int \<Rightarrow> 'p mem_dep_unit \<Rightarrow> 'p mem_dep_unit" where
  "pipeline_step sn can a sz d s = s\<lparr>mu_state := (mu_state s)(sn := (mu_state s sn)\<lparr>is_canIssue := can, is_effAddr := a, is_effSize := sz,
     is_memDepInfo := (is_memDepInfo (mu_state s sn))\<lparr>mi_storeQueueDistance := d\<rparr>\<rparr>)\<rparr>"

fun mu_step :: "'p dp_ops \<Rightarrow> mu_call \<Rightarrow> 'p mem_dep_unit \<Rightarrow> 'p mem_dep_unit res" where
  "mu_step ops (InsertMem lsq i bh) s = mu_insert ops lsq i bh s"
| "mu_step ops (InsertNonSpec i) s = mu_insertNonSpec ops i s"
| "mu_step ops (InsertBarrier i) s = mu_insertBarrier i s"
| "mu_step ops (RegsReady i) s = mu_regsReady i s"
| "mu_step ops (NonSpecInstReady i) s = mu_nonSpecInstReady i s"
| "mu_step ops (Reschedule i) s = Inr (mu_reschedule i s)"
| "mu_step ops Replay s = mu_replay s"
| "mu_step ops (CompleteInst i) s = mu_completeInst i s"
| "mu_step ops (SquashAfter sq) s = mu_squash ops sq (mu_id s) s"
| "mu_step ops (MemViolation ssn spc i bh) s = mu_violation ops ssn spc i bh s"
| "mu_step ops (IssueInst i) s = mu_issue ops i s"
| "mu_step ops (CommitInst i) s = mu_commit ops i s"
| "mu_step ops (Pipeline sn can a sz d) s = Inr (pipeline_step sn can a sz d s)"

text \<open>Instructions enter in program order, and only memory instructions are inserted as such; the instructions the
  other calls name are in the unit; an instruction completes after those it waits for and when it is not to
  be replayed; and the load/store queue knows the store at a predicted distance.\<close>

fun allowed :: "'p dp_ops \<Rightarrow> mu_call \<Rightarrow> 'p mem_dep_unit \<Rightarrow> seqnum \<Rightarrow> bool" where
  "allowed ops (InsertMem lsq i bh) s b \<longleftrightarrow> b < di_seqNum i \<and> di_threadNumber i = mu_id s \<and> (di_isLoad i \<or> di_isStore i \<or> di_isAtomic i) \<and>
     (case dp_checkInst ops (di_pc i) (di_seqNum i) bh (di_isLoad i) (mu_depPred s) of Inl _ \<Rightarrow> True | Inr (r, _) \<Rightarrow> prediction_sound lsq i r s)"
| "allowed ops (InsertNonSpec i) s b \<longleftrightarrow> b < di_seqNum i \<and> di_threadNumber i = mu_id s \<and> (di_isLoad i \<or> di_isStore i \<or> di_isAtomic i)"
| "allowed ops (InsertBarrier i) s b \<longleftrightarrow> b < di_seqNum i \<and> di_threadNumber i = mu_id s"
| "allowed ops (RegsReady i) s b \<longleftrightarrow> i \<in> in_unit s"
| "allowed ops (NonSpecInstReady i) s b \<longleftrightarrow> i \<in> in_unit s"
| "allowed ops (Reschedule i) s b \<longleftrightarrow> i \<in> in_unit s"
| "allowed ops (CompleteInst i) s b \<longleftrightarrow> i \<in> in_unit s \<and> producers s i = {} \<and> i \<notin> set (mu_instsToReplay s)"
| "allowed ops _ s b \<longleftrightarrow> True"

fun bound_after :: "mu_call \<Rightarrow> seqnum \<Rightarrow> seqnum" where
  "bound_after (InsertMem lsq i bh) b = di_seqNum i"
| "bound_after (InsertNonSpec i) b = di_seqNum i"
| "bound_after (InsertBarrier i) b = di_seqNum i"
| "bound_after _ b = b"

inductive mu_reach :: "'p dp_ops \<Rightarrow> 'p mem_dep_unit \<Rightarrow> 'p mem_dep_unit \<Rightarrow> seqnum \<Rightarrow> bool" for ops s0 where
  start: "mu_reach ops s0 s0 0"
| step: "mu_reach ops s0 s b \<Longrightarrow> allowed ops c s b \<Longrightarrow> mu_step ops c s = Inr s' \<Longrightarrow> mu_reach ops s0 s' (bound_after c b)"

lemma mu_inv_other [simp]:
  "mu_inv (s\<lparr>mu_state := st\<rparr>) b = mu_inv s b" "mu_inv (s\<lparr>mu_ready := r\<rparr>) b = mu_inv s b" "mu_inv (s\<lparr>mu_depPred := p\<rparr>) b = mu_inv s b"
  "mu_inv (s\<lparr>mu_insertedLoads := n\<rparr>) b = mu_inv s b" "mu_inv (s\<lparr>mu_insertedStores := n\<rparr>) b = mu_inv s b"
  by (simp_all add: mu_inv_def lists_ok_def)

lemma moveToReady_value:
  assumes "mu_inv s b" "at_entry s i e"
  shows "moveToReady e s = Inr (s\<lparr>mu_ready := mu_ready s @ [i]\<rparr>)"
  using at_entry_facts [OF assms] by (simp add: moveToReady_def)

lemma findInHash_value: "at_entry s i e \<Longrightarrow> findInHash i s = Inr e"
  by (simp add: findInHash_def at_entry_def)

lemma mu_regsReady_core:
  assumes inv: "mu_inv s b" and e: "at_entry s i e"
  shows "\<exists>s'. mu_regsReady i s = Inr s' \<and> mu_inv s' b \<and> mu_depPred s' = mu_depPred s \<and> mu_id s' = mu_id s \<and> mu_state s' = mu_state s \<and>
    mu_ready s' = mu_ready s @ (if producers s i = {} then [i] else [])"
proof -
  let ?E = "mu_entries s"
  note af = at_entry_facts [OF inv e]
  let ?s1 = "s\<lparr>mu_entries := ?E[e := (?E ! e)\<lparr>me_regsReady := True\<rparr>]\<rparr>"
  have core: "mu_core {} (mu_instList s ! mu_id s) s b" using inv by (simp add: mu_inv_def)
  have "same_deps ?E (?E[e := (?E ! e)\<lparr>me_regsReady := True\<rparr>])" by (rule same_deps_update [OF af(1)]) simp_all
  from core_same_deps [OF core this] have inv1: "mu_inv ?s1 b" using inv by (simp add: mu_inv_def lists_ok_def)
  have e1: "at_entry ?s1 i e" using af by (simp add: at_entry_def)
  have "mu_regsReady i s = (if producers s i = {} then Inr (?s1\<lparr>mu_ready := mu_ready s @ [i]\<rparr>) else Inr ?s1)"
    using af findInHash_value [OF e] no_producers [OF mu_inv_deps [OF inv] e] moveToReady_value [OF inv1 e1]
    by (simp add: mu_regsReady_def mu_update_entry_def)
  then show ?thesis using inv1 by simp
qed

lemma mu_replay_core:
  assumes inv: "mu_inv s b"
  shows "mu_replay s = Inr (s\<lparr>mu_instsToReplay := [], mu_ready := mu_ready s @ mu_instsToReplay s\<rparr>)"
proof -
  let ?f = "\<lambda>i s. rbind (findInHash i s) (\<lambda>e. rbind (moveToReady e s) (\<lambda>s. Inr (s\<lparr>mu_instsToReplay := tl (mu_instsToReplay s)\<rparr>)))"
  have "rfold ?f R s = Inr (s\<lparr>mu_instsToReplay := [], mu_ready := mu_ready s @ R\<rparr>)" if "mu_inv s b" "mu_instsToReplay s = R" for R s
    using that
  proof (induction R arbitrary: s)
    case Nil
    have "s = s\<lparr>mu_instsToReplay := mu_instsToReplay s, mu_ready := mu_ready s @ []\<rparr>" by simp
    then show ?case using Nil by simp
  next
    case (Cons i R)
    obtain e where e: "at_entry s i e" using Cons.prems by (auto simp: mu_inv_def mu_core_def replay_ok_def at_entry_def)
    let ?s1 = "s\<lparr>mu_instsToReplay := R, mu_ready := mu_ready s @ [i]\<rparr>"
    have "mu_inv ?s1 b" using Cons.prems by (simp add: mu_inv_def lists_ok_def mu_core_def replay_ok_def)
    moreover have "?f i s = Inr ?s1" using findInHash_value [OF e] moveToReady_value [OF Cons.prems(1) e] Cons.prems(2) by simp
    ultimately show ?case using Cons.IH [of ?s1] by simp
  qed
  from this [OF inv refl] show ?thesis by (simp add: mu_replay_def)
qed

lemma mu_inv_replay: "mu_inv s b \<Longrightarrow> set R \<subseteq> in_unit s \<Longrightarrow> mu_inv (s\<lparr>mu_instsToReplay := R\<rparr>) b"
  by (auto simp: mu_inv_def lists_ok_def mu_core_def replay_ok_def in_unit_def at_entry_def)

lemma mu_insertBarrier_core:
  assumes "mu_inv s b" "b < di_seqNum i" "di_threadNumber i = mu_id s"
  shows "mu_insertBarrier i s = Inr (insertBarrierSN i (placed i s))" "mu_inv (insertBarrierSN i (placed i s)) (di_seqNum i)"
proof -
  note pl = mu_place_core [OF assms]
  show "mu_insertBarrier i s = Inr (insertBarrierSN i (placed i s))" using pl(1) by (simp add: mu_insertBarrier_def)
  have "mu_core {} (mu_instList s ! mu_id s @ [i]) (insertBarrierSN i (placed i s)) (di_seqNum i)"
    by (rule insertBarrierSN_core [OF pl(3), of "length (mu_entries s)"]) (use pl(5,6) in \<open>simp_all add: new_entry_def\<close>)
  then show "mu_inv (insertBarrierSN i (placed i s)) (di_seqNum i)" using pl(2,4) by (simp add: mu_inv_def lists_ok_def)
qed

text \<open>The unit with a predictor that keeps its contract.\<close>

definition mu_ok :: "('p \<Rightarrow> bool) \<Rightarrow> ('p \<Rightarrow> seqnum \<Rightarrow> bool) \<Rightarrow> (nat \<Rightarrow> bool) \<Rightarrow> 'p mem_dep_unit \<Rightarrow> seqnum \<Rightarrow> bool" where
  "mu_ok ok young P s b \<longleftrightarrow> mu_inv s b \<and> ok (mu_depPred s) \<and> young (mu_depPred s) b \<and> paths_ok P s"

context dep_predictor
begin

lemma mu_count_ok:
  assumes "mu_inv s (di_seqNum i)" "ok (mu_depPred s)" "young (mu_depPred s) b" "b \<le> di_seqNum i" "paths_ok path_ok s"
    "di_isLoad i \<or> di_isStore i \<or> di_isAtomic i"
  shows "\<exists>s' p n m. mu_count_inst ops i s = Inr s' \<and> mu_ok ok young path_ok s' (di_seqNum i) \<and>
    s' = s\<lparr>mu_depPred := p, mu_insertedLoads := n, mu_insertedStores := m\<rparr>"
proof (cases "di_isStore i \<or> di_isAtomic i")
  case True
  obtain p where p: "dp_insertStore ops (di_pc i) (di_seqNum i) (mu_depPred s) = Inr p" "ok p" "young p (di_seqNum i)"
    using insert_ok [OF assms(2-4)] by blast
  let ?s' = "s\<lparr>mu_depPred := p, mu_insertedLoads := mu_insertedLoads s, mu_insertedStores := mu_insertedStores s + 1\<rparr>"
  have "mu_count_inst ops i s = Inr ?s'" using True p(1) by (simp add: mu_count_inst_def)
  moreover have "mu_ok ok young path_ok ?s' (di_seqNum i)" using assms(1,5) p(2,3) by (simp add: mu_ok_def)
  ultimately show ?thesis by blast
next
  case False
  let ?s' = "s\<lparr>mu_depPred := mu_depPred s, mu_insertedLoads := mu_insertedLoads s + 1, mu_insertedStores := mu_insertedStores s\<rparr>"
  have "mu_count_inst ops i s = Inr ?s'" using assms(6) False by (simp add: mu_count_inst_def)
  moreover have "mu_ok ok young path_ok ?s' (di_seqNum i)" using assms(1,2,5) young_mono [OF assms(3,4)] by (simp add: mu_ok_def)
  ultimately show ?thesis by blast
qed

lemma mu_insert_ok:
  assumes ok: "mu_ok ok young path_ok s b" and al: "allowed ops (InsertMem lsq i bh) s b"
  shows "\<exists>s' r p. mu_insert ops lsq i bh s = Inr s' \<and> mu_ok ok young path_ok s' (di_seqNum i) \<and>
    dp_checkInst ops (di_pc i) (di_seqNum i) bh (di_isLoad i) (mu_depPred s) = Inr (r, p) \<and>
    producers s' i = {j \<in> in_unit s. must_wait lsq i r j} \<and> i \<in> in_unit s' \<and>
    mu_ready s' = mu_ready s @ (if producers s' i = {} \<and> is_canIssue (mu_state s (di_seqNum i)) then [i] else [])"
proof -
  have inv: "mu_inv s b" "ok (mu_depPred s)" "young (mu_depPred s) b" "paths_ok path_ok s" using ok by (simp_all add: mu_ok_def)
  have al': "b < di_seqNum i" "di_threadNumber i = mu_id s" "di_isLoad i \<or> di_isStore i \<or> di_isAtomic i" using al by simp_all
  obtain r p where r: "dp_checkInst ops (di_pc i) (di_seqNum i) bh (di_isLoad i) (mu_depPred s) = Inr (r, p)" "ok p" "young p b"
      "path_ok (pr_predBranchHistLength r)" using check_ok [OF inv(2,3)] by blast
  have snd: "prediction_sound lsq i r s" using al r(1) by simp
  obtain s1 where s1: "mu_insert ops lsq i bh s = mu_count_inst ops i s1" "mu_inv s1 (di_seqNum i)" "paths_ok path_ok s1" "mu_depPred s1 = p"
      "at_entry s1 i (length (mu_entries s))" "producers s1 i = {j \<in> in_unit s. must_wait lsq i r j}"
      "mu_ready s1 = mu_ready s @ (if producers s1 i = {} \<and> is_canIssue (mu_state s (di_seqNum i)) then [i] else [])"
    using mu_insert_core [OF inv(1) al'(1,2) r(1) snd inv(4) r(4)] by blast
  obtain s' p' n m where s': "mu_count_inst ops i s1 = Inr s'" "mu_ok ok young path_ok s' (di_seqNum i)"
      "s' = s1\<lparr>mu_depPred := p', mu_insertedLoads := n, mu_insertedStores := m\<rparr>"
    using mu_count_ok [of s1 i b] s1 r(2,3) al' by (auto simp: less_imp_le)
  have "producers s' i = producers s1 i" "at_entry s' i (length (mu_entries s))" "mu_ready s' = mu_ready s1"
    using s1(5) by (simp_all add: s'(3) producers_def at_entry_def)
  then show ?thesis using s1(1,6,7) s'(1,2) r(1) unfolding in_unit_def by auto
qed

lemma mu_complete_ok:
  assumes ok: "mu_ok ok young path_ok s b" and al: "allowed ops (CompleteInst i) s b"
  shows "\<exists>s' new. mu_completeInst i s = Inr s' \<and> mu_ok ok young path_ok s' b \<and> in_unit s' = in_unit s - {i} \<and>
    mu_ready s' = mu_ready s @ new \<and> distinct new \<and> set new = {j \<in> in_unit s. regs_ready s j \<and> producers s j = {i}}"
proof -
  have inv: "mu_inv s b" using ok by (simp add: mu_ok_def)
  obtain e where e: "at_entry s i e" using al by (auto simp: in_unit_def)
  obtain s' new where s': "mu_completeInst i s = Inr s'" "mu_inv s' b" "mu_depPred s' = mu_depPred s"
      "\<And>sn. path_of (mu_state s' sn) = path_of (mu_state s sn)" "mu_instList s' ! mu_id s' = remove1 i (mu_instList s ! mu_id s)"
      "mu_ready s' = mu_ready s @ new" "distinct new" "set new = {j \<in> in_unit s. regs_ready s j \<and> producers s j = {i}}"
    using mu_complete_core [OF inv e] al by auto
  have "mu_ok ok young path_ok s' b" using ok s'(2-4) by (simp add: mu_ok_def paths_ok_def path_of_def)
  moreover have "distinct (mu_instList s ! mu_id s)"
    using inv by (auto simp: mu_inv_def mu_core_def insts_ok_def intro: program_order_distinct)
  ultimately show ?thesis using s' in_unit_list [OF inv] in_unit_list [OF s'(2)] by auto
qed

lemma mu_squash_ok:
  assumes ok: "mu_ok ok young path_ok s b"
  shows "\<exists>s'. mu_squash ops sq (mu_id s) s = Inr s' \<and> mu_ok ok young path_ok s' b \<and>
    in_unit s' = {i \<in> in_unit s. di_seqNum i \<le> sq} \<and> mu_ready s' = mu_ready s \<and> (\<forall>i\<in>in_unit s'. producers s' i = producers s i) \<and>
    set (mu_instsToReplay s') = {i \<in> set (mu_instsToReplay s). di_seqNum i \<le> sq}"
proof -
  have inv: "mu_inv s b" "ok (mu_depPred s)" "young (mu_depPred s) b" using ok by (simp_all add: mu_ok_def)
  obtain p where p: "dp_squash ops sq (mu_depPred s) = Inr p" "ok p" "young p b" using squash_ok [OF inv(2,3)] by blast
  obtain s' where s': "mu_squash ops sq (mu_id s) s = Inr s'" "mu_inv s' b" "mu_depPred s' = p" "mu_state s' = mu_state s"
      "mu_ready s' = mu_ready s" "mu_instList s' ! mu_id s' = filter (\<lambda>i. di_seqNum i \<le> sq) (mu_instList s ! mu_id s)"
      "mu_instsToReplay s' = filter (\<lambda>i. di_seqNum i \<le> sq) (mu_instsToReplay s)"
      "\<And>x. me_inst (mu_entries s' ! x) = me_inst (mu_entries s ! x)" "\<And>x. me_dependInsts (mu_entries s' ! x) = me_dependInsts (mu_entries s ! x)"
      "\<And>k. map_of (mu_memDepHash s') k = map_of (mu_memDepHash s) k \<or> map_of (mu_memDepHash s') k = None"
    using mu_squash_core [OF inv(1) p(1)] by blast
  have unit: "in_unit s' = {i \<in> in_unit s. di_seqNum i \<le> sq}" using in_unit_list [OF inv(1)] in_unit_list [OF s'(2)] s'(6) by auto
  have at1: "at_entry s i e" if "at_entry s' i e" for i e
    using that s'(8) s'(10) [of "di_seqNum i"] by (auto simp: at_entry_def)
  have at2: "at_entry s' i e" if i: "at_entry s i e" and "di_seqNum i \<le> sq" for i e
  proof -
    have "i \<in> in_unit s'" using that unit by (auto simp: in_unit_def)
    then obtain e' where e': "at_entry s' i e'" by (auto simp: in_unit_def)
    then show ?thesis using at1 [OF e'] i by (simp add: at_entry_def)
  qed
  have "producers s' i = producers s i" if i: "i \<in> in_unit s'" for i
  proof -
    have sq: "di_seqNum i \<le> sq" using i unit by simp
    have older: "di_seqNum j \<le> sq" if j: "at_entry s i e" "at_entry s j x" "e \<in> set (me_dependInsts (mu_entries s ! x))" for e j x
    proof -
      have "di_seqNum j < di_seqNum i"
        using j deps_ok_entry [OF mu_inv_deps [OF inv(1)], of "di_seqNum j" x] by (auto simp: at_entry_def entry_ok_def)
      with sq show ?thesis by (rule less_imp_le [OF order.strict_trans2, rotated])
    qed
    show ?thesis unfolding producers_def s'(9)
    proof (intro Collect_cong iffI; elim exE conjE)
      fix j e x assume "at_entry s' i e" "at_entry s' j x" "e \<in> set (me_dependInsts (mu_entries s ! x))"
      then show "\<exists>e x. at_entry s i e \<and> at_entry s j x \<and> e \<in> set (me_dependInsts (mu_entries s ! x))" using at1 by blast
    next
      fix j e x assume j: "at_entry s i e" "at_entry s j x" "e \<in> set (me_dependInsts (mu_entries s ! x))"
      then show "\<exists>e x. at_entry s' i e \<and> at_entry s' j x \<and> e \<in> set (me_dependInsts (mu_entries s ! x))"
        using at2 [OF j(1) sq] at2 [OF j(2) older [OF j]] by blast
    qed
  qed
  moreover have "mu_ok ok young path_ok s' b" using ok s'(2-4) p(2,3) by (simp add: mu_ok_def paths_ok_def)
  ultimately show ?thesis using s'(1,5,7) unit by auto
qed

lemma mu_step_ok:
  assumes ok: "mu_ok ok young path_ok s b" and al: "allowed ops c s b"
  shows "\<exists>s'. mu_step ops c s = Inr s' \<and> mu_ok ok young path_ok s' (bound_after c b)"
proof -
  have inv: "mu_inv s b" "ok (mu_depPred s)" "young (mu_depPred s) b" "paths_ok path_ok s" using ok by (simp_all add: mu_ok_def)
  have path: "path_ok (mi_predBranchHistLength (is_memDepInfo (mu_state s sn)))" for sn using inv(4) by (simp add: paths_ok_def)
  have new_pred: "mu_ok ok young path_ok (s\<lparr>mu_depPred := p\<rparr>) b" if "ok p" "young p b" for p using inv(1,4) that by (simp add: mu_ok_def)
  show ?thesis
  proof (cases c)
    case (InsertMem lsq i bh)
    then show ?thesis using mu_insert_ok [OF ok, of lsq i bh] al by auto
  next
    case (InsertNonSpec i)
    then have al': "b < di_seqNum i" "di_threadNumber i = mu_id s" "di_isLoad i \<or> di_isStore i \<or> di_isAtomic i" using al by simp_all
    note ib = mu_insertBarrier_core [OF inv(1) al'(1,2)]
    have "paths_ok path_ok (insertBarrierSN i (placed i s))" using inv(4) by (simp add: paths_ok_def)
    then show ?thesis using mu_count_ok [OF ib(2) _ _ less_imp_le [OF al'(1)] _ al'(3)] inv(2,3) ib(1) InsertNonSpec
      by (auto simp: mu_insertNonSpec_def)
  next
    case (InsertBarrier i)
    then have al': "b < di_seqNum i" "di_threadNumber i = mu_id s" using al by simp_all
    have "paths_ok path_ok (insertBarrierSN i (placed i s))" using inv(4) by (simp add: paths_ok_def)
    then show ?thesis using mu_insertBarrier_core [OF inv(1) al'] inv(2) young_mono [OF inv(3) less_imp_le [OF al'(1)]] InsertBarrier
      by (simp add: mu_ok_def)
  next
    case (RegsReady i)
    then obtain e where "at_entry s i e" using al by (auto simp: in_unit_def)
    from mu_regsReady_core [OF inv(1) this] inv show ?thesis using RegsReady by (auto simp: mu_ok_def paths_ok_def)
  next
    case (NonSpecInstReady i)
    then obtain e where "at_entry s i e" using al by (auto simp: in_unit_def)
    with inv show ?thesis using NonSpecInstReady
      by (simp add: mu_nonSpecInstReady_def findInHash_value moveToReady_value mu_ok_def paths_ok_def)
  next
    case (Reschedule i)
    have "set (mu_instsToReplay s) \<subseteq> in_unit s"
      using inv(1) by (auto simp: mu_inv_def mu_core_def replay_ok_def in_unit_def at_entry_def)
    then have "mu_inv (mu_reschedule i s) b" using mu_inv_replay [OF inv(1)] al Reschedule by (simp add: mu_reschedule_def)
    then show ?thesis using inv Reschedule by (simp add: mu_ok_def paths_ok_def mu_reschedule_def)
  next
    case Replay
    have "mu_inv (s\<lparr>mu_instsToReplay := [], mu_ready := mu_ready s @ mu_instsToReplay s\<rparr>) b" using mu_inv_replay [OF inv(1), of "[]"] by simp
    then show ?thesis using mu_replay_core [OF inv(1)] inv Replay by (simp add: mu_ok_def paths_ok_def)
  next
    case (CompleteInst i)
    then show ?thesis using mu_complete_ok [OF ok, of i] al by auto
  next
    case (SquashAfter sq)
    then show ?thesis using mu_squash_ok [OF ok, of sq] by auto
  next
    case (MemViolation ssn spc i bh)
    let ?m = "is_memDepInfo (mu_state s (di_seqNum i))"
    obtain p where "dp_violation ops (di_pc i) (di_seqNum i) ssn spc (mi_storeQueueDistance ?m) (mi_predicted ?m)
        (mi_predBranchHistLength ?m) (mi_predictorHash ?m) bh (mu_depPred s) = Inr p" "ok p" "young p b"
      using violation_ok [OF inv(2,3) path] by blast
    then show ?thesis using MemViolation new_pred by (simp add: mu_violation_def Let_def)
  next
    case (IssueInst i)
    obtain p where "dp_issued ops (di_pc i) (di_seqNum i) (di_isStore i) (mu_depPred s) = Inr p" "ok p" "young p b"
      using issued_ok [OF inv(2,3)] by blast
    then show ?thesis using IssueInst new_pred by (simp add: mu_issue_def)
  next
    case (CommitInst i)
    let ?st = "mu_state s (di_seqNum i)"
    let ?m = "is_memDepInfo ?st"
    obtain p where "dp_commit ops (di_pc i) (is_effAddr ?st) (is_effSize ?st) (mi_predStoreAddr ?m) (mi_predStoreSize ?m)
        (mi_predBranchHistLength ?m) (mi_predictorHash ?m) (mu_depPred s) = Inr p" "ok p" "young p b"
      using commit_ok [OF inv(2,3) path] by blast
    then show ?thesis using CommitInst new_pred ok by (simp add: mu_commit_def Let_def)
  next
    case (Pipeline sn can a sz d)
    then show ?thesis using inv by (simp add: mu_ok_def paths_ok_def pipeline_step_def)
  qed
qed

lemma mu_reach_ok:
  assumes "mu_reach ops s0 s b" "mu_ok ok young path_ok s0 0"
  shows "mu_ok ok young path_ok s b"
  using assms(1)
proof (induction rule: mu_reach.induct)
  case (step s b c s')
  then show ?case using mu_step_ok [of s b c] by auto
qed (rule assms(2))

end

section \<open>Properties\<close>

lemma mu_new_inv: "tid < MaxThreads \<Longrightarrow> mu_inv (mu_new tid p st) 0"
  by (simp add: mu_inv_def lists_ok_def mu_core_def mu_new_def deps_ok_def insts_ok_def barriers_ok_def replay_ok_def)

lemma phast_reach_ok:
  assumes "ph_wf p" "tid < MaxThreads" "\<forall>sn. path_of (st sn) < 8" "mu_reach phast_ops (mu_new tid p st) s b"
  shows "mu_ok ph_wf (\<lambda>_ _. True) (\<lambda>i. i < 8) s b"
proof (rule ph.mu_reach_ok [OF assms(4)])
  show "mu_ok ph_wf (\<lambda>_ _. True) (\<lambda>i. i < 8) (mu_new tid p st) 0"
    using mu_new_inv [OF assms(2)] assms(1,3) by (simp add: mu_ok_def paths_ok_def path_of_def mu_new_def)
qed

text \<open>A unit with a read barrier and a load behind it whose registers are ready.\<close>

definition ex_barrier :: dyn_inst where
  "ex_barrier = \<lparr>di_seqNum = 1, di_threadNumber = 0, di_pc = 0x10, di_isLoad = False, di_isStore = False, di_isAtomic = False,
     di_isReadBarrier = True, di_isWriteBarrier = False, di_isHtmCmd = False, di_sqIdx = 0\<rparr>"

definition ex_load :: dyn_inst where
  "ex_load = \<lparr>di_seqNum = 2, di_threadNumber = 0, di_pc = 0x14, di_isLoad = True, di_isStore = False, di_isAtomic = False,
     di_isReadBarrier = False, di_isWriteBarrier = False, di_isHtmCmd = False, di_sqIdx = 0\<rparr>"

definition ex_lsq :: lsq_view where
  "ex_lsq = \<lparr>lv_storeHead = 0, lv_instruction = (\<lambda>_. None)\<rparr>"

definition ex_state :: "seqnum \<Rightarrow> inst_state" where
  "ex_state sn = \<lparr>is_canIssue = False, is_effAddr = 0, is_effSize = 4, is_memDepInfo = \<lparr>mi_storeQueueDistance = 0, mi_predStoreAddr = 0,
     mi_predStoreSize = 0, mi_predBranchHistLength = 0, mi_predictorHash = 0, mi_predicted = False\<rparr>\<rparr>"

lemmas ex_defs = ex_barrier_def ex_load_def ex_lsq_def ex_state_def

lemma ex_insert:
  "\<exists>s1 s2. mu_step phast_ops (InsertBarrier ex_barrier) (mu_new 0 p ex_state) = Inr s1 \<and>
     allowed phast_ops (InsertMem ex_lsq ex_load []) s1 1 \<and> mu_step phast_ops (InsertMem ex_lsq ex_load []) s1 = Inr s2 \<and>
     mu_ready s2 = [] \<and> mu_memDepHash s2 = [(2, 1), (1, 0)] \<and> mu_depPred s2 = p \<and> mu_id s2 = 0 \<and> mu_instsToReplay s2 = [] \<and>
     mu_entries s2 = [(new_entry ex_barrier)\<lparr>me_dependInsts := [1]\<rparr>, (new_entry ex_load)\<lparr>me_memDeps := 1\<rparr>]"
  by (simp add: mu_new_def MaxThreads_def mu_insertBarrier_def mu_place_def insertBarrierSN_def load_barrier_def store_barrier_def
      mu_insert_def phast_ops_def ph_checkInst_def predicted_dependency_def no_prediction_def barrier_dependencies_def in_flight_def
      mu_depend_def mu_update_entry_def mu_add_dependent_def mu_regs_if_ready_def mu_count_inst_def prediction_sound_def predicted_store_def
      new_entry_def Let_def ex_defs numeral_eq_Suc)

lemma ex_reach:
  "\<exists>s. mu_reach phast_ops (mu_new 0 p ex_state) s 2 \<and> ex_barrier \<in> in_unit s \<and> in_unit s = {ex_barrier, ex_load} \<and> mu_instsToReplay s = [] \<and>
     producers s ex_barrier = {} \<and> producers s ex_load = {ex_barrier} \<and> regs_ready s ex_load \<and> mu_ready s = [] \<and> mu_depPred s = p \<and> mu_id s = 0"
proof -
  obtain s1 s2 where s: "mu_step phast_ops (InsertBarrier ex_barrier) (mu_new 0 p ex_state) = Inr s1"
      "allowed phast_ops (InsertMem ex_lsq ex_load []) s1 1" "mu_step phast_ops (InsertMem ex_lsq ex_load []) s1 = Inr s2"
      "mu_ready s2 = []" "mu_memDepHash s2 = [(2, 1), (1, 0)]" "mu_depPred s2 = p" "mu_id s2 = 0" "mu_instsToReplay s2 = []"
      "mu_entries s2 = [(new_entry ex_barrier)\<lparr>me_dependInsts := [1]\<rparr>, (new_entry ex_load)\<lparr>me_memDeps := 1\<rparr>]"
    using ex_insert [of p] by blast
  have "allowed phast_ops (InsertBarrier ex_barrier) (mu_new 0 p ex_state) 0" by (simp add: ex_barrier_def mu_new_def)
  from mu_reach.step [OF mu_reach.start this s(1)] have "mu_reach phast_ops (mu_new 0 p ex_state) s1 1" by (simp add: ex_barrier_def)
  from mu_reach.step [OF this s(2,3)] have r2: "mu_reach phast_ops (mu_new 0 p ex_state) s2 2" by (simp add: ex_load_def)
  define s3 where "s3 = s2\<lparr>mu_entries := [(new_entry ex_barrier)\<lparr>me_dependInsts := [1]\<rparr>,
    (new_entry ex_load)\<lparr>me_memDeps := 1, me_regsReady := True\<rparr>]\<rparr>"
  have "mu_step phast_ops (RegsReady ex_load) s2 = Inr s3"
    using s by (simp add: mu_regsReady_def findInHash_def mu_update_entry_def ex_load_def s3_def)
  moreover have "allowed phast_ops (RegsReady ex_load) s2 2"
    using s by (auto simp: in_unit_def at_entry_def ex_load_def new_entry_def)
  ultimately have r3: "mu_reach phast_ops (mu_new 0 p ex_state) s3 2" using mu_reach.step [OF r2] by fastforce
  have at: "at_entry s3 i e \<longleftrightarrow> i = ex_barrier \<and> e = 0 \<or> i = ex_load \<and> e = 1" for i e
    using s(5) by (auto simp: at_entry_def new_entry_def ex_barrier_def ex_load_def s3_def split: if_splits)
  have ne: "ex_barrier \<noteq> ex_load" by (simp add: ex_barrier_def ex_load_def)
  have D: "me_dependInsts (mu_entries s3 ! 0) = [1]" "me_dependInsts (mu_entries s3 ! 1) = []" "me_regsReady (mu_entries s3 ! 1)"
    by (simp_all add: s3_def new_entry_def)
  have "in_unit s3 = {ex_barrier, ex_load}" unfolding in_unit_def at by auto
  moreover have "0 \<notin> set (me_dependInsts (mu_entries s3 ! x))" if "x = 0 \<or> x = 1" for x using that D by auto
  then have "producers s3 ex_barrier = {}" unfolding producers_def at using ne by blast
  moreover have "producers s3 ex_load = {ex_barrier}" using D ne ne [symmetric] by (auto simp: producers_def at)
  moreover have "regs_ready s3 ex_load" using D by (auto simp: regs_ready_def at)
  ultimately show ?thesis using r3 s(4,6,7,8) by (intro exI [of _ s3]) (simp add: s3_def)
qed

text \<open>C3. The memory-dependence unit with the PHAST predictor never fails: in every state that the calls of the pipeline can
  lead to, every further call succeeds. No entry is missing from the hash table, no squashed instruction is handed to the
  instruction queue, no barrier count is wrong and the predictor is never used out of range. The tables of the predictor have at
  least two sets each and tags of 1 to 31 bits.\<close>

theorem mem_dep_unit_safe:
  assumes "ph_wf p" "tid < MaxThreads" "\<forall>sn. path_of (st sn) < 8" "mu_reach phast_ops (mu_new tid p st) s b" "allowed phast_ops c s b"
  shows "\<exists>s'. mu_step phast_ops c s = Inr s'"
  using ph.mu_step_ok [OF phast_reach_ok [OF assms(1-4)] assms(5)] by blast

theorem mem_dep_unit_safe_witness:
  "\<exists>p s s'. ph_init 128 4 16 4 0 = Inr p \<and> mu_reach phast_ops (mu_new 0 p ex_state) s 2 \<and> mu_step phast_ops (SquashAfter 1) s = Inr s'"
proof -
  obtain p where p: "ph_init 128 4 16 4 0 = Inr p" "ph_wf p" using default_phast by blast
  obtain s where s: "mu_reach phast_ops (mu_new 0 p ex_state) s 2" using ex_reach by blast
  have "0 < MaxThreads" "\<forall>sn. path_of (ex_state sn) < 8" by (simp_all add: MaxThreads_def ex_state_def path_of_def)
  from mem_dep_unit_safe [OF p(2) this s, of "SquashAfter 1"] p(1) s show ?thesis by auto
qed

text \<open>C8. Instructions wait for exactly the right ones: a new memory instruction waits for the store its prediction points at, if
  that store is still in the unit, for the outstanding load barriers if it reads memory and for the outstanding store barriers if it writes
  memory, and for nothing else; it is handed to the instruction queue at once exactly when it waits for nothing and
  its registers are ready.\<close>

theorem insert_waits_exactly:
  assumes "ph_wf p" "tid < MaxThreads" "\<forall>sn. path_of (st sn) < 8" "mu_reach phast_ops (mu_new tid p st) s b"
    "allowed phast_ops (InsertMem lsq i bh) s b"
  shows "\<exists>s' r q. mu_insert phast_ops lsq i bh s = Inr s' \<and> ph_checkInst (di_pc i) (di_seqNum i) bh (di_isLoad i) (mu_depPred s) = Inr (r, q) \<and>
    producers s' i = {j \<in> in_unit s. predicted_store lsq i r = Some (di_seqNum j) \<or> (di_isLoad i \<or> di_isAtomic i) \<and> load_barrier j \<or>
      (di_isStore i \<or> di_isAtomic i) \<and> store_barrier j} \<and>
    mu_ready s' = mu_ready s @ (if producers s' i = {} \<and> is_canIssue (mu_state s (di_seqNum i)) then [i] else [])"
proof -
  have chk: "dp_checkInst phast_ops = ph_checkInst" by (simp add: phast_ops_def)
  show ?thesis using ph.mu_insert_ok [OF phast_reach_ok [OF assms(1-4)] assms(5)] unfolding must_wait_def chk by blast
qed

theorem insert_waits_exactly_witness:
  "\<exists>p s s' r q. ph_init 128 4 16 4 0 = Inr p \<and> mu_insert phast_ops ex_lsq (ex_load\<lparr>di_seqNum := 3\<rparr>) [] s = Inr s' \<and>
    ph_checkInst 0x14 3 [] True p = Inr (r, q) \<and> producers s' (ex_load\<lparr>di_seqNum := 3\<rparr>) = {ex_barrier}"
proof -
  obtain p where p: "ph_init 128 4 16 4 0 = Inr p" "ph_wf p" using default_phast by blast
  obtain s where s: "mu_reach phast_ops (mu_new 0 p ex_state) s 2" "in_unit s = {ex_barrier, ex_load}" "mu_depPred s = p" "mu_id s = 0"
    using ex_reach by blast
  let ?i = "ex_load\<lparr>di_seqNum := 3\<rparr>"
  have m: "0 < MaxThreads" "\<forall>sn. path_of (ex_state sn) < 8" by (simp_all add: MaxThreads_def ex_state_def path_of_def)
  have c: "ph_checkInst pc sn [] ld p = Inr (no_prediction, p)" for pc sn ld by (simp add: ph_checkInst_def)
  have "allowed phast_ops (InsertMem ex_lsq ?i []) s 2"
    using s(2-4) c by (auto simp: ex_load_def phast_ops_def prediction_sound_def predicted_store_def no_prediction_def)
  from insert_waits_exactly [OF p(2) m s(1) this] obtain s' r q where r: "mu_insert phast_ops ex_lsq ?i [] s = Inr s'"
      "ph_checkInst 0x14 3 [] True p = Inr (r, q)"
      "producers s' ?i = {j \<in> in_unit s. predicted_store ex_lsq ?i r = Some (di_seqNum j) \<or> load_barrier j}"
    using s(3) by (auto simp: ex_load_def)
  have "predicted_store ex_lsq ?i r = None" using r(2) c by (auto simp: predicted_store_def no_prediction_def)
  moreover have "load_barrier ex_barrier" "\<not> load_barrier ex_load" by (simp_all add: load_barrier_def ex_barrier_def ex_load_def)
  ultimately have "producers s' ?i = {ex_barrier}" unfolding r(3) s(2) by auto
  with p(1) r(1,2) show ?thesis by blast
qed

text \<open>C5. Nothing is woken early and no wakeup is lost. When the registers of an instruction become ready, it is handed to the
  instruction queue exactly if it waits for nothing. When an instruction completes, the ones handed over are
  exactly those with ready registers that waited for it alone, each of them once.\<close>

theorem wakeup_exact:
  assumes "ph_wf p" "tid < MaxThreads" "\<forall>sn. path_of (st sn) < 8" "mu_reach phast_ops (mu_new tid p st) s b"
  shows "(\<forall>i\<in>in_unit s. \<exists>s'. mu_regsReady i s = Inr s' \<and> mu_ready s' = mu_ready s @ (if producers s i = {} then [i] else [])) \<and>
    (\<forall>i. allowed phast_ops (CompleteInst i) s b \<longrightarrow> (\<exists>s' new. mu_completeInst i s = Inr s' \<and> in_unit s' = in_unit s - {i} \<and>
      mu_ready s' = mu_ready s @ new \<and> distinct new \<and> set new = {j \<in> in_unit s. regs_ready s j \<and> producers s j = {i}}))"
proof -
  note ok = phast_reach_ok [OF assms]
  then have inv: "mu_inv s b" by (simp add: mu_ok_def)
  show ?thesis
  proof (intro conjI ballI allI impI)
    fix i assume "i \<in> in_unit s"
    then obtain e where "at_entry s i e" by (auto simp: in_unit_def)
    from mu_regsReady_core [OF inv this]
    show "\<exists>s'. mu_regsReady i s = Inr s' \<and> mu_ready s' = mu_ready s @ (if producers s i = {} then [i] else [])" by blast
  next
    fix i assume "allowed phast_ops (CompleteInst i) s b"
    from ph.mu_complete_ok [OF ok this] show "\<exists>s' new. mu_completeInst i s = Inr s' \<and> in_unit s' = in_unit s - {i} \<and>
      mu_ready s' = mu_ready s @ new \<and> distinct new \<and> set new = {j \<in> in_unit s. regs_ready s j \<and> producers s j = {i}}" by blast
  qed
qed

lemma distinct_singleton: "distinct xs \<Longrightarrow> set xs = {a} \<Longrightarrow> xs = [a]"
proof (cases xs)
  case (Cons x ys)
  moreover assume "distinct xs" "set xs = {a}"
  ultimately show ?thesis by (cases ys) auto
qed simp

theorem wakeup_exact_witness:
  "\<exists>p s s1 s2. ph_init 128 4 16 4 0 = Inr p \<and> mu_reach phast_ops (mu_new 0 p ex_state) s 2 \<and> mu_ready s = [] \<and>
    mu_regsReady ex_load s = Inr s1 \<and> mu_ready s1 = [] \<and> mu_completeInst ex_barrier s = Inr s2 \<and> mu_ready s2 = [ex_load]"
proof -
  obtain p where p: "ph_init 128 4 16 4 0 = Inr p" "ph_wf p" using default_phast by blast
  obtain s where s: "mu_reach phast_ops (mu_new 0 p ex_state) s 2" "in_unit s = {ex_barrier, ex_load}" "mu_instsToReplay s = []"
      "producers s ex_barrier = {}" "producers s ex_load = {ex_barrier}" "regs_ready s ex_load" "mu_ready s = []"
    using ex_reach by blast
  have m: "0 < MaxThreads" "\<forall>sn. path_of (ex_state sn) < 8" by (simp_all add: MaxThreads_def ex_state_def path_of_def)
  note w = wakeup_exact [OF p(2) m s(1)]
  obtain s1 where s1: "mu_regsReady ex_load s = Inr s1" "mu_ready s1 = []"
    using bspec [OF conjunct1 [OF w], of ex_load] s(2,5,7) by auto
  have "allowed phast_ops (CompleteInst ex_barrier) s 2" using s(2-4) by simp
  then obtain s2 new where s2: "mu_completeInst ex_barrier s = Inr s2" "mu_ready s2 = new" "distinct new"
      "set new = {j \<in> in_unit s. regs_ready s j \<and> producers s j = {ex_barrier}}"
    using conjunct2 [OF w] s(7) by auto
  have "set new = {ex_load}" unfolding s2(4) s(2) using s(4-6) by auto
  then have "new = [ex_load]" by (rule distinct_singleton [OF s2(3)])
  with p(1) s(1,7) s1 s2(1,2) show ?thesis by blast
qed

text \<open>C10. A squash removes exactly the younger instructions, from the unit and from the replay list; the ones that stay wait
  for the same instructions as before and nothing is handed over.\<close>

theorem squash_removes_younger:
  assumes "ph_wf p" "tid < MaxThreads" "\<forall>sn. path_of (st sn) < 8" "mu_reach phast_ops (mu_new tid p st) s b"
  shows "\<exists>s'. mu_squash phast_ops sq (mu_id s) s = Inr s' \<and> in_unit s' = {i \<in> in_unit s. di_seqNum i \<le> sq} \<and> mu_ready s' = mu_ready s \<and>
    (\<forall>i\<in>in_unit s'. producers s' i = producers s i) \<and> set (mu_instsToReplay s') = {i \<in> set (mu_instsToReplay s). di_seqNum i \<le> sq}"
  using ph.mu_squash_ok [OF phast_reach_ok [OF assms]] by blast

theorem squash_removes_younger_witness:
  "\<exists>p s s'. ph_init 128 4 16 4 0 = Inr p \<and> mu_reach phast_ops (mu_new 0 p ex_state) s 2 \<and> mu_squash phast_ops 1 0 s = Inr s' \<and>
    in_unit s = {ex_barrier, ex_load} \<and> in_unit s' = {ex_barrier}"
proof -
  obtain p where p: "ph_init 128 4 16 4 0 = Inr p" "ph_wf p" using default_phast by blast
  obtain s where s: "mu_reach phast_ops (mu_new 0 p ex_state) s 2" "in_unit s = {ex_barrier, ex_load}" "mu_id s = 0" using ex_reach by blast
  have m: "0 < MaxThreads" "\<forall>sn. path_of (ex_state sn) < 8" by (simp_all add: MaxThreads_def ex_state_def path_of_def)
  obtain s' where s': "mu_squash phast_ops 1 0 s = Inr s'" "in_unit s' = {i \<in> in_unit s. di_seqNum i \<le> 1}"
    using squash_removes_younger [OF p(2) m s(1), of 1] s(3) by auto
  have "di_seqNum ex_barrier \<le> 1" "\<not> di_seqNum ex_load \<le> 1" by (simp_all add: ex_barrier_def ex_load_def not_le)
  then have "in_unit s' = {ex_barrier}" using s'(2) s(2) by auto
  with p(1) s(1,2) s'(1) show ?thesis by blast
qed

text \<open>C13. The unit reports that it is drained exactly when no instruction is in it, the sanity check then passes, and no barrier
  is left on record.\<close>

theorem drained_exactly_when_empty:
  assumes "ph_wf p" "tid < MaxThreads" "\<forall>sn. path_of (st sn) < 8" "mu_reach phast_ops (mu_new tid p st) s b"
  shows "(mu_isDrained s \<longleftrightarrow> in_unit s = {}) \<and> (mu_drainSanityCheck s = Inr () \<longleftrightarrow> mu_isDrained s) \<and>
    (in_unit s = {} \<longrightarrow> mu_loadBarrierSNs s = [] \<and> mu_storeBarrierSNs s = [])"
proof -
  have inv: "mu_inv s b" using phast_reach_ok [OF assms] by (simp add: mu_ok_def)
  then have core: "mu_core {} (mu_instList s ! mu_id s) s b" and li: "lists_ok s" by (simp_all add: mu_inv_def)
  have hash: "mu_memDepHash s = [] \<longleftrightarrow> in_unit s = {}"
  proof
    assume "in_unit s = {}"
    then have "ran (map_of (mu_memDepHash s)) = {}" using at_entry_of [OF mu_inv_deps [OF inv]] by (auto simp: in_unit_def)
    then have "map_of (mu_memDepHash s) = Map.empty" by (intro ext, metis empty_iff not_None_eq ranI)
    then show "mu_memDepHash s = []" by simp
  qed (simp add: in_unit_def at_entry_def)
  have rep: "in_unit s = {} \<Longrightarrow> mu_instsToReplay s = []"
    using core by (auto simp: mu_core_def replay_ok_def in_unit_def at_entry_def) (metis list.set_intros(1) neq_Nil_conv)
  have lists: "list_all (\<lambda>l. l = []) (mu_instList s) \<longleftrightarrow> in_unit s = {}"
    using li in_unit_list [OF inv] by (auto simp: lists_ok_def list_all_length)
  have "in_unit s = {} \<Longrightarrow> mu_loadBarrierSNs s = [] \<and> mu_storeBarrierSNs s = []"
    using core hash by (simp add: mu_core_def barriers_ok_def) (metis list.set_intros(1) neq_Nil_conv)
  then show ?thesis using hash rep lists
    by (auto simp: mu_isDrained_def mu_drainSanityCheck_def rbind_eq_Inr)
qed

theorem drained_exactly_when_empty_witness:
  "\<exists>p s. ph_init 128 4 16 4 0 = Inr p \<and> mu_reach phast_ops (mu_new 0 p ex_state) s 2 \<and> \<not> mu_isDrained s"
proof -
  obtain p where p: "ph_init 128 4 16 4 0 = Inr p" "ph_wf p" using default_phast by blast
  obtain s where s: "mu_reach phast_ops (mu_new 0 p ex_state) s 2" "in_unit s = {ex_barrier, ex_load}" using ex_reach by blast
  have "0 < MaxThreads" "\<forall>sn. path_of (ex_state sn) < 8" by (simp_all add: MaxThreads_def ex_state_def path_of_def)
  from drained_exactly_when_empty [OF p(2) this s(1)] s p(1) show ?thesis by blast
qed

end
