(* ===== verification/Lsq_Unit.thy ===== *)
theory Lsq_Unit
  imports Circular_Queue
begin

text \<open>
  The load/store queue of one hardware thread (\<^verbatim>\<open>LSQUnit\<close> of \<^verbatim>\<open>cpu/o3/lsq_unit.hh\<close> and
  \<^verbatim>\<open>cpu/o3/lsq_unit.cc\<close>) on the circular queues of \<^verbatim>\<open>Circular_Queue.thy\<close>.  Iterators are the indices they wrap.  An
  instruction is in one of the two queues, so its record is kept in the entry that points to it; \<open>memDepViolator\<close> is the
  sequence number of the load it points to.  The calls to the execute stage and the completion of stores are recorded in
  \<open>lu_calls\<close>.  What the instruction's own execution does to its entry (\<^verbatim>\<open>initiateAcc\<close>) and the answers of the cache port
  and of the architecture are arguments.  Transaction identifiers, the checker and the wake-up of the core are left out.
\<close>

unbundle bit_operations_syntax

section \<open>Data\<close>

datatype fault = NoFault | ReExec | M5PanicFault | OtherFault

record lsq_inst =
  li_seqNum :: seqnum
  li_pc :: u64
  li_isLoad :: bool
  li_isStore :: bool
  li_isAtomic :: bool
  li_isStoreConditional :: bool
  li_isDataPrefetch :: bool
  li_isInstPrefetch :: bool
  li_isHtmStart :: bool
  li_isHtmStop :: bool
  li_inLSQ :: bool
  li_isSquashed :: bool
  li_isIssued :: bool
  li_isExecuted :: bool
  li_isAtCommit :: bool
  li_predicate :: bool
  li_memAccPredicate :: bool
  li_hasRequest :: bool
  li_translationDelayed :: bool
  li_translationCompleted :: bool
  li_requestPartialFault :: bool
  li_requestComplete :: bool
  li_requestSplit :: bool
  li_memReqLLSC :: bool
  li_strictlyOrdered :: bool
  li_effAddrValid :: bool
  li_effAddr :: u64
  li_effSize :: u32
  li_memData :: bool
  li_possibleLoadViolation :: bool
  li_hitExternalSnoop :: bool
  li_fault :: fault
  li_lqIdx :: nat
  li_sqIdx :: nat
  li_lqIt :: nat
  li_sqIt :: nat
  li_forwardedFrom :: seqnum
  li_violatingStoreSeqNum :: seqnum
  li_violatingStorePC :: u64
  li_storeQueueDistance :: int

record lsq_request =
  rq_vaddr :: u64
  rq_size :: u32
  rq_isLLSC :: bool
  rq_isRelease :: bool
  rq_isMasked :: bool
  rq_isStrictlyOrdered :: bool
  rq_isLocalAccess :: bool
  rq_isAtomic :: bool
  rq_blockZero :: bool
  rq_isCacheMaintenance :: bool
  rq_isHTMCmd :: bool
  rq_isSplit :: bool
  rq_paddrs :: "u64 option list"
  rq_stateFault :: bool

record lsq_entry =
  le_inst :: "lsq_inst option"
  le_request :: "lsq_request option"
  le_size :: u32
  le_valid :: bool

record sq_entry = lsq_entry +
  se_data :: "u8 list"
  se_canWB :: bool
  se_committed :: bool
  se_completed :: bool
  se_isAllZeros :: bool

datatype lsq_call =
    ReplayMemInst seqnum
  | RescheduleMemInst seqnum
  | BlockMemInst seqnum
  | DeferMemInst seqnum
  | InstToCommit seqnum
  | CompleteAcc seqnum
  | CheckMisprediction seqnum
  | SetCompleted seqnum
  | SetSquashed seqnum
  | UpdateLSQNextCycle
  | InstQueueCommit seqnum
  | WritebackEvent seqnum "u8 list"
  | LocalAccess seqnum
  | SendRead seqnum
  | BuildPackets seqnum "u8 list"
  | PacketSent seqnum
  | FailedConditional seqnum
  | HandleLockedRead seqnum
  | HandleLockedSnoopHit seqnum

record lsq_counters =
  lc_forwLoads :: nat
  lc_squashedLoads :: nat
  lc_ignoredResponses :: nat
  lc_memOrderViolation :: nat
  lc_squashedStores :: nat
  lc_rescheduledLoads :: nat
  lc_blockedByCache :: nat

record lsq_unit =
  lu_storeQueue :: "sq_entry circ_queue"
  lu_loadQueue :: "lsq_entry circ_queue"
  lu_depCheckShift :: nat
  lu_checkLoads :: bool
  lu_storesToWB :: int
  lu_htmStarts :: int
  lu_htmStops :: int
  lu_storeWBIt :: nat
  lu_cacheBlockMask :: u64
  lu_stalled :: bool
  lu_stallingStoreIsn :: seqnum
  lu_stallingLoadIdx :: nat
  lu_isStoreBlocked :: bool
  lu_storeInFlight :: bool
  lu_memDepViolator :: "seqnum option"
  lu_needsTSO :: bool
  lu_stats :: lsq_counters
  lu_calls :: "lsq_call list"

section \<open>Entries\<close>

definition le_clear :: "'z lsq_entry_scheme \<Rightarrow> 'z lsq_entry_scheme" where
  "le_clear e = e\<lparr>le_inst := None, le_request := None, le_valid := False, le_size := 0\<rparr>"

definition se_clear :: "sq_entry \<Rightarrow> sq_entry" where
  "se_clear e = (le_clear e)\<lparr>se_canWB := False, se_completed := False, se_committed := False, se_isAllZeros := False\<rparr>"

definition le_set :: "lsq_inst \<Rightarrow> 'z lsq_entry_scheme \<Rightarrow> 'z lsq_entry_scheme res" where
  "le_set new_inst e =
     rbind (check (\<not> le_valid e) Assertion) (\<lambda>_. Inr (e\<lparr>le_inst := Some new_inst, le_valid := True, le_size := 0\<rparr>))"

definition le_instruction :: "'z lsq_entry_scheme \<Rightarrow> lsq_inst res" where
  "le_instruction e = (case le_inst e of None \<Rightarrow> Inl NullDeref | Some i \<Rightarrow> Inr i)"

definition cq_end :: "'a circ_queue \<Rightarrow> nat" where
  "cq_end q = cq_tail q + 1"

definition cq_modify :: "nat \<Rightarrow> ('a \<Rightarrow> 'a) \<Rightarrow> 'a circ_queue \<Rightarrow> 'a circ_queue res" where
  "cq_modify i f q = rbind (cq_get q i) (\<lambda>e. cq_put q i (f e))"

definition lq_modify :: "nat \<Rightarrow> (lsq_entry \<Rightarrow> lsq_entry) \<Rightarrow> lsq_unit \<Rightarrow> lsq_unit res" where
  "lq_modify i f s = rbind (cq_modify i f (lu_loadQueue s)) (\<lambda>q. Inr (s\<lparr>lu_loadQueue := q\<rparr>))"

definition sq_modify :: "nat \<Rightarrow> (sq_entry \<Rightarrow> sq_entry) \<Rightarrow> lsq_unit \<Rightarrow> lsq_unit res" where
  "sq_modify i f s = rbind (cq_modify i f (lu_storeQueue s)) (\<lambda>q. Inr (s\<lparr>lu_storeQueue := q\<rparr>))"

definition on_inst :: "(lsq_inst \<Rightarrow> lsq_inst) \<Rightarrow> 'z lsq_entry_scheme \<Rightarrow> 'z lsq_entry_scheme" where
  "on_inst f e = e\<lparr>le_inst := map_option f (le_inst e)\<rparr>"

definition lq_inst :: "lsq_unit \<Rightarrow> nat \<Rightarrow> lsq_inst res" where
  "lq_inst s i = rbind (cq_get (lu_loadQueue s) i) le_instruction"

definition sq_inst :: "lsq_unit \<Rightarrow> nat \<Rightarrow> lsq_inst res" where
  "sq_inst s i = rbind (cq_get (lu_storeQueue s) i) le_instruction"

definition lu_call :: "lsq_call \<Rightarrow> lsq_unit \<Rightarrow> lsq_unit" where
  "lu_call c s = s\<lparr>lu_calls := lu_calls s @ [c]\<rparr>"

definition lu_count :: "(lsq_counters \<Rightarrow> lsq_counters) \<Rightarrow> lsq_unit \<Rightarrow> lsq_unit" where
  "lu_count f s = s\<lparr>lu_stats := f (lu_stats s)\<rparr>"

section \<open>Construction and queries\<close>

definition lsq_resetState :: "u64 \<Rightarrow> lsq_unit \<Rightarrow> lsq_unit" where
  "lsq_resetState cacheLineSize s = s\<lparr>lu_storesToWB := 0, lu_htmStarts := 0, lu_htmStops := 0,
     lu_storeWBIt := cq_head (lu_storeQueue s), lu_memDepViolator := None, lu_stalled := False,
     lu_cacheBlockMask := NOT (cacheLineSize - 1)\<rparr>"

definition lsq_new :: "nat \<Rightarrow> nat \<Rightarrow> nat \<Rightarrow> bool \<Rightarrow> bool \<Rightarrow> nat \<Rightarrow> u64 \<Rightarrow> lsq_unit" where
  "lsq_new lqEntries sqEntries depCheckShift checkLoads needsTSO maxDataBytes cacheLineSize =
     lsq_resetState cacheLineSize
       \<lparr>lu_storeQueue = cq_new sqEntries \<lparr>le_inst = None, le_request = None, le_size = 0, le_valid = False,
          se_data = replicate maxDataBytes 0, se_canWB = False, se_committed = False, se_completed = False, se_isAllZeros = False\<rparr>,
        lu_loadQueue = cq_new lqEntries \<lparr>le_inst = None, le_request = None, le_size = 0, le_valid = False\<rparr>,
        lu_depCheckShift = depCheckShift, lu_checkLoads = checkLoads, lu_storesToWB = 0, lu_htmStarts = 0, lu_htmStops = 0,
        lu_storeWBIt = 0, lu_cacheBlockMask = 0, lu_stalled = False, lu_stallingStoreIsn = 0, lu_stallingLoadIdx = 0,
        lu_isStoreBlocked = False, lu_storeInFlight = False, lu_memDepViolator = None, lu_needsTSO = needsTSO,
        lu_stats = \<lparr>lc_forwLoads = 0, lc_squashedLoads = 0, lc_ignoredResponses = 0, lc_memOrderViolation = 0,
          lc_squashedStores = 0, lc_rescheduledLoads = 0, lc_blockedByCache = 0\<rparr>,
        lu_calls = []\<rparr>"

definition lsq_numFreeLoadEntries :: "lsq_unit \<Rightarrow> nat" where
  "lsq_numFreeLoadEntries s = cq_capacity (lu_loadQueue s) - cq_size (lu_loadQueue s)"

definition lsq_numFreeStoreEntries :: "lsq_unit \<Rightarrow> nat" where
  "lsq_numFreeStoreEntries s = cq_capacity (lu_storeQueue s) - cq_size (lu_storeQueue s)"

definition lsq_getMemDepViolator :: "lsq_unit \<Rightarrow> seqnum option \<times> lsq_unit" where
  "lsq_getMemDepViolator s = (lu_memDepViolator s, s\<lparr>lu_memDepViolator := None\<rparr>)"

definition lsq_willWB :: "lsq_unit \<Rightarrow> bool res" where
  "lsq_willWB s =
     (if cq_isValidIdx (lu_storeQueue s) (lu_storeWBIt s) then
        rbind (cq_get (lu_storeQueue s) (lu_storeWBIt s)) (\<lambda>e.
        Inr (le_valid e \<and> se_canWB e \<and> \<not> se_completed e \<and> \<not> lu_isStoreBlocked s))
      else Inr False)"

definition lsq_getLoadHeadSeqNum :: "lsq_unit \<Rightarrow> seqnum res" where
  "lsq_getLoadHeadSeqNum s =
     rbind (cq_front (lu_loadQueue s)) (\<lambda>e.
     if le_valid e then rbind (le_instruction e) (\<lambda>i. Inr (li_seqNum i)) else Inr 0)"

definition lsq_getStoreHeadSeqNum :: "lsq_unit \<Rightarrow> seqnum res" where
  "lsq_getStoreHeadSeqNum s =
     rbind (cq_front (lu_storeQueue s)) (\<lambda>e.
     if le_valid e then rbind (le_instruction e) (\<lambda>i. Inr (li_seqNum i)) else Inr 0)"

section \<open>Insertion\<close>

definition lsq_insertLoad :: "lsq_inst \<Rightarrow> lsq_unit \<Rightarrow> lsq_unit res" where
  "lsq_insertLoad load_inst s =
     rbind (check (\<not> cq_full (lu_loadQueue s)) Assertion) (\<lambda>_.
     rbind (check (cq_size (lu_loadQueue s) < cq_capacity (lu_loadQueue s)) Assertion) (\<lambda>_.
     let lq = cq_advance_tail (lu_loadQueue s);
         load_inst = load_inst\<lparr>li_sqIt := cq_end (lu_storeQueue s), li_lqIdx := cq_tail lq, li_lqIt := cq_tail lq\<rparr> in
     rbind (cq_back lq) (\<lambda>e.
     rbind (check (\<not> le_valid e) Assertion) (\<lambda>_.
     rbind (le_set load_inst e) (\<lambda>e.
     rbind (cq_put lq (cq_tail lq) e) (\<lambda>lq.
     rbind (check (li_lqIdx load_inst > 0) Assertion) (\<lambda>_.
     Inr (s\<lparr>lu_loadQueue := lq,
            lu_htmStarts := lu_htmStarts s + of_bool (li_isHtmStart load_inst),
            lu_htmStops := lu_htmStops s + of_bool (li_isHtmStop load_inst)\<rparr>))))))))"

definition lsq_insertStore :: "lsq_inst \<Rightarrow> lsq_unit \<Rightarrow> lsq_unit res" where
  "lsq_insertStore store_inst s =
     rbind (check (\<not> cq_full (lu_storeQueue s)) Assertion) (\<lambda>_.
     rbind (check (cq_size (lu_storeQueue s) < cq_capacity (lu_storeQueue s)) Assertion) (\<lambda>_.
     let sq = cq_advance_tail (lu_storeQueue s);
         store_inst = store_inst\<lparr>li_sqIdx := cq_tail sq, li_sqIt := cq_tail sq,
                                 li_lqIdx := cq_tail (lu_loadQueue s) + 1, li_lqIt := cq_end (lu_loadQueue s)\<rparr> in
     rbind (check (li_lqIdx store_inst > 0) Assertion) (\<lambda>_.
     rbind (cq_back sq) (\<lambda>e.
     rbind (le_set store_inst e) (\<lambda>e.
     rbind (cq_put sq (cq_tail sq) e) (\<lambda>sq.
     Inr (s\<lparr>lu_storeQueue := sq\<rparr>)))))))"

definition lsq_insert :: "lsq_inst \<Rightarrow> lsq_unit \<Rightarrow> lsq_unit res" where
  "lsq_insert inst s =
     rbind (check (li_isLoad inst \<or> li_isStore inst \<or> li_isAtomic inst) Assertion) (\<lambda>_.
     let inst = inst\<lparr>li_inLSQ := True\<rparr> in
     if li_isLoad inst then lsq_insertLoad inst s else lsq_insertStore inst s)"

section \<open>Order violations\<close>

definition eff_first :: "nat \<Rightarrow> lsq_inst \<Rightarrow> u64" where
  "eff_first shift i = drop_bit shift (li_effAddr i)"

definition eff_last :: "nat \<Rightarrow> lsq_inst \<Rightarrow> u64" where
  "eff_last shift i = drop_bit shift (li_effAddr i + ucast (li_effSize i) - 1)"

definition lsq_record_violation :: "lsq_inst \<Rightarrow> lsq_inst \<Rightarrow> lsq_inst" where
  "lsq_record_violation inst ld =
     ld\<lparr>li_violatingStoreSeqNum := li_seqNum inst, li_violatingStorePC := li_pc inst,
        li_storeQueueDistance := int (li_sqIt ld) - int (li_sqIt inst)\<rparr>"

text \<open>The loop of \<^verbatim>\<open>checkViolations\<close> over the indices from the given iterator to the end of the load queue.\<close>

fun checkViolations_loop :: "lsq_inst \<Rightarrow> nat list \<Rightarrow> lsq_unit \<Rightarrow> (fault \<times> lsq_unit) res" where
  "checkViolations_loop inst [] s = Inr (NoFault, s)"
| "checkViolations_loop inst (it # its) s =
     rbind (lq_inst s it) (\<lambda>ld_inst.
     if \<not> li_effAddrValid ld_inst \<or> li_strictlyOrdered ld_inst then checkViolations_loop inst its s
     else if eff_last (lu_depCheckShift s) inst \<ge> eff_first (lu_depCheckShift s) ld_inst \<and>
             eff_first (lu_depCheckShift s) inst \<le> eff_last (lu_depCheckShift s) ld_inst then
       if li_isLoad inst then
         if li_hitExternalSnoop ld_inst \<and>
            (case lu_memDepViolator s of None \<Rightarrow> True | Some v \<Rightarrow> li_seqNum ld_inst < v) then
           Inr (M5PanicFault, lu_count (\<lambda>c. c\<lparr>lc_memOrderViolation := lc_memOrderViolation c + 1\<rparr>)
                                (s\<lparr>lu_memDepViolator := Some (li_seqNum ld_inst)\<rparr>))
         else
           rbind (lq_modify it (on_inst (\<lambda>i. i\<lparr>li_possibleLoadViolation := True\<rparr>)) s) (checkViolations_loop inst its)
       else if (case lu_memDepViolator s of None \<Rightarrow> False | Some v \<Rightarrow> li_seqNum ld_inst > v) then Inr (NoFault, s)
       else if li_seqNum inst < li_forwardedFrom ld_inst \<or> li_seqNum inst < li_violatingStoreSeqNum ld_inst then
         checkViolations_loop inst its s
       else
         rbind (lq_modify it (on_inst (lsq_record_violation inst)) s) (\<lambda>s.
         Inr (M5PanicFault, lu_count (\<lambda>c. c\<lparr>lc_memOrderViolation := lc_memOrderViolation c + 1\<rparr>)
                              (s\<lparr>lu_memDepViolator := Some (li_seqNum ld_inst)\<rparr>)))
     else checkViolations_loop inst its s)"

definition lsq_checkViolations :: "nat \<Rightarrow> lsq_inst \<Rightarrow> lsq_unit \<Rightarrow> (fault \<times> lsq_unit) res" where
  "lsq_checkViolations loadIt inst s =
     (if loadIt \<le> cq_end (lu_loadQueue s) then checkViolations_loop inst [loadIt ..< cq_end (lu_loadQueue s)] s
      else Inl Diverges)"


section \<open>Reading and writing\<close>

datatype coverage = PartialAddrRangeCoverage | FullAddrRangeCoverage | NoAddrRangeCoverage

definition lsq_coverage :: "lsq_request \<Rightarrow> lsq_inst \<Rightarrow> bool \<Rightarrow> u32 \<Rightarrow> coverage" where
  "lsq_coverage request store_inst store_masked store_size =
     (let req_s = rq_vaddr request; req_e = req_s + ucast (rq_size request);
          st_s = li_effAddr store_inst; st_e = st_s + scast store_size;
          store_has_lower_limit = req_s \<ge> st_s; store_has_upper_limit = req_e \<le> st_e;
          lower_load_has_store_part = req_s < st_e; upper_load_has_store_part = req_e > st_s in
      if \<not> li_isAtomic store_inst \<and> store_has_lower_limit \<and> store_has_upper_limit \<and> \<not> rq_isLLSC request then
        if store_masked then PartialAddrRangeCoverage else FullAddrRangeCoverage
      else if \<not> rq_isLLSC request \<and>
                (store_has_lower_limit \<and> lower_load_has_store_part \<or>
                 store_has_upper_limit \<and> upper_load_has_store_part \<or>
                 lower_load_has_store_part \<and> upper_load_has_store_part) \<or>
              rq_isLLSC request \<and>
                (store_has_lower_limit \<or> upper_load_has_store_part) \<and> (store_has_upper_limit \<or> lower_load_has_store_part) \<or>
              li_isAtomic store_inst \<and>
                (store_has_lower_limit \<or> upper_load_has_store_part) \<and> (store_has_upper_limit \<or> lower_load_has_store_part)
      then PartialAddrRangeCoverage else NoAddrRangeCoverage)"

text \<open>The bytes a forwarding copies: \<^verbatim>\<open>memset\<close> or \<^verbatim>\<open>memcpy\<close> from the offset of the load in the store.\<close>

definition lsq_forward_bytes :: "lsq_request \<Rightarrow> lsq_inst \<Rightarrow> sq_entry \<Rightarrow> u8 list res" where
  "lsq_forward_bytes request store_inst e =
     (if se_isAllZeros e then Inr (replicate (unat (rq_size request)) 0)
      else let shift_amt = sint (ucast (rq_vaddr request - li_effAddr store_inst) :: u32) in
        rbind (check (0 \<le> shift_amt \<and> nat shift_amt + unat (rq_size request) \<le> length (se_data e)) OutOfRange) (\<lambda>_.
        Inr (take (unat (rq_size request)) (drop (nat shift_amt) (se_data e)))))"

definition lsq_forward :: "lsq_request \<Rightarrow> bool \<Rightarrow> nat \<Rightarrow> lsq_inst \<Rightarrow> sq_entry \<Rightarrow> lsq_unit \<Rightarrow> (fault \<times> lsq_unit) res" where
  "lsq_forward request outstanding load_idx store_inst e s =
     rbind (lsq_forward_bytes request store_inst e) (\<lambda>bytes.
     rbind (lq_modify load_idx (on_inst (\<lambda>i. i\<lparr>li_memData := True, li_forwardedFrom := li_seqNum store_inst\<rparr>)) s) (\<lambda>s.
     rbind (check (\<not> rq_isHTMCmd request) Assertion) (\<lambda>_.
     rbind (if outstanding then lq_modify load_idx (\<lambda>l. l\<lparr>le_request := None\<rparr>) s else Inr s) (\<lambda>s.
     rbind (lq_inst s load_idx) (\<lambda>load_inst.
     Inr (NoFault, lu_count (\<lambda>c. c\<lparr>lc_forwLoads := lc_forwLoads c + 1\<rparr>)
            (lu_call (WritebackEvent (li_seqNum load_inst) bytes) s)))))))"

text \<open>A load that cannot proceed is handed back to the scheduler and its request dropped.\<close>

definition lsq_reschedule :: "nat \<Rightarrow> lsq_unit \<Rightarrow> lsq_unit res" where
  "lsq_reschedule load_idx s =
     rbind (lq_inst s load_idx) (\<lambda>load_inst.
     let s = lu_call (RescheduleMemInst (li_seqNum load_inst)) s in
     rbind (lq_modify load_idx (on_inst (\<lambda>i. i\<lparr>li_isIssued := False, li_effAddrValid := False\<rparr>)) s) (\<lambda>s.
     let s = lu_count (\<lambda>c. c\<lparr>lc_rescheduledLoads := lc_rescheduledLoads c + 1\<rparr>) s in
     lq_modify load_idx (\<lambda>l. l\<lparr>le_request := None\<rparr>) s))"

definition lsq_stall :: "nat \<Rightarrow> lsq_inst \<Rightarrow> sq_entry \<Rightarrow> lsq_unit \<Rightarrow> (fault \<times> lsq_unit) res" where
  "lsq_stall load_idx store_inst e s =
     rbind (check (\<not> se_completed e) Panic) (\<lambda>_.
     rbind (lq_inst s load_idx) (\<lambda>load_inst.
     rbind (if \<not> lu_stalled s then Inr True
            else rbind (lq_inst s (lu_stallingLoadIdx s)) (\<lambda>i. Inr (li_seqNum load_inst < li_seqNum i))) (\<lambda>take_over.
     let s = (if take_over then s\<lparr>lu_stalled := True, lu_stallingStoreIsn := li_seqNum store_inst, lu_stallingLoadIdx := load_idx\<rparr>
              else s) in
     rbind (lsq_reschedule load_idx s) (\<lambda>s. Inr (NoFault, s)))))"

definition lsq_access :: "lsq_request \<Rightarrow> bool \<Rightarrow> nat \<Rightarrow> lsq_unit \<Rightarrow> (fault \<times> lsq_unit) res" where
  "lsq_access request sent load_idx s =
     rbind (lq_modify load_idx (on_inst (\<lambda>i. i\<lparr>li_memData := True\<rparr>)) s) (\<lambda>s.
     rbind (lq_inst s load_idx) (\<lambda>load_inst.
     let s = lu_call (SendRead (li_seqNum load_inst)) s in
     Inr (NoFault, if sent then s else lu_call (BlockMemInst (li_seqNum load_inst)) s)))"

text \<open>
  The scan of \<^verbatim>\<open>read\<close> over the indices below the load's store iterator, youngest first; the answers of the memory
  system are whether the request has outstanding packets and whether its packets were accepted.
\<close>

fun lsq_read_scan :: "lsq_request \<Rightarrow> bool \<Rightarrow> bool \<Rightarrow> nat \<Rightarrow> nat list \<Rightarrow> lsq_unit \<Rightarrow> (fault \<times> lsq_unit) res" where
  "lsq_read_scan request outstanding sent load_idx [] s = lsq_access request sent load_idx s"
| "lsq_read_scan request outstanding sent load_idx (it # its) s =
     rbind (lq_inst s load_idx) (\<lambda>load_inst.
     rbind (cq_get (lu_storeQueue s) it) (\<lambda>e.
     rbind (check (le_valid e) Assertion) (\<lambda>_.
     rbind (le_instruction e) (\<lambda>store_inst.
     rbind (check (li_seqNum store_inst < li_seqNum load_inst) Assertion) (\<lambda>_.
     if le_size e \<noteq> 0 \<and> \<not> li_strictlyOrdered store_inst then
       case le_request e of None \<Rightarrow> Inl NullDeref
       | Some store_req \<Rightarrow>
         if rq_isCacheMaintenance store_req then lsq_read_scan request outstanding sent load_idx its s
         else rbind (check (li_effAddrValid store_inst) Assertion) (\<lambda>_.
           case lsq_coverage request store_inst (rq_isMasked store_req) (le_size e) of
             FullAddrRangeCoverage \<Rightarrow> lsq_forward request outstanding load_idx store_inst e s
           | PartialAddrRangeCoverage \<Rightarrow> lsq_stall load_idx store_inst e s
           | NoAddrRangeCoverage \<Rightarrow> lsq_read_scan request outstanding sent load_idx its s)
     else lsq_read_scan request outstanding sent load_idx its s)))))"

definition lsq_read :: "lsq_request \<Rightarrow> bool \<Rightarrow> bool \<Rightarrow> nat \<Rightarrow> lsq_unit \<Rightarrow> (fault \<times> lsq_unit) res" where
  "lsq_read request outstanding sent load_idx s =
     rbind (lq_modify load_idx (\<lambda>l. l\<lparr>le_request := Some request\<rparr>) s) (\<lambda>s.
     rbind (lq_inst s load_idx) (\<lambda>load_inst.
     rbind (check (\<not> li_isExecuted load_inst) Assertion) (\<lambda>_.
     if rq_isStrictlyOrdered request \<and> (load_idx \<noteq> cq_head (lu_loadQueue s) \<or> \<not> li_isAtCommit load_inst) then
       rbind (lsq_reschedule load_idx s) (\<lambda>s. Inr (M5PanicFault, s))
     else
       let s = (if rq_isLLSC request then lu_call (HandleLockedRead (li_seqNum load_inst)) s else s) in
       if rq_isLocalAccess request then
         rbind (check (\<not> li_memData load_inst) Assertion) (\<lambda>_.
         rbind (lq_modify load_idx (on_inst (\<lambda>i. i\<lparr>li_memData := True\<rparr>)) s) (\<lambda>s.
         Inr (NoFault, lu_call (LocalAccess (li_seqNum load_inst)) s)))
       else
         rbind (check (lu_storeWBIt s \<le> li_sqIt load_inst) Assertion) (\<lambda>_.
         lsq_read_scan request outstanding sent load_idx
           (if li_isDataPrefetch load_inst then [] else rev [lu_storeWBIt s ..< li_sqIt load_inst]) s))))"

definition lsq_write :: "lsq_request \<Rightarrow> u8 list \<Rightarrow> nat \<Rightarrow> lsq_unit \<Rightarrow> (fault \<times> lsq_unit) res" where
  "lsq_write request data store_idx s =
     rbind (cq_get (lu_storeQueue s) store_idx) (\<lambda>e.
     rbind (check (le_valid e) Assertion) (\<lambda>_.
     let size = unat (rq_size request);
         store_no_data = rq_blockZero request \<or> rq_isCacheMaintenance request;
         e = e\<lparr>le_request := Some request, le_size := rq_size request, se_isAllZeros := store_no_data\<rparr> in
     rbind (check (size \<le> length (se_data e) \<or> store_no_data) Assertion) (\<lambda>_.
     rbind (if \<not> rq_blockZero request \<and> \<not> rq_isCacheMaintenance request \<and> \<not> rq_isAtomic request then
              rbind (check (size \<le> length data) OutOfRange) (\<lambda>_.
              Inr (e\<lparr>se_data := take size data @ drop size (se_data e)\<rparr>))
            else Inr e) (\<lambda>e.
     rbind (cq_put (lu_storeQueue s) store_idx e) (\<lambda>sq.
     Inr (NoFault, s\<lparr>lu_storeQueue := sq\<rparr>))))))"

section \<open>Execution\<close>

text \<open>
  The part of \<^verbatim>\<open>LSQ::pushRequest\<close> after the translation, for an instruction given by its queue index, preceded by the
  write of the ordering attribute in \<^verbatim>\<open>SingleDataRequest::finish\<close>.
\<close>

definition lsq_pushLoad :: "lsq_request \<Rightarrow> bool \<Rightarrow> bool \<Rightarrow> nat \<Rightarrow> lsq_unit \<Rightarrow> (fault \<times> lsq_unit) res" where
  "lsq_pushLoad request outstanding sent load_idx s =
     rbind (lq_modify load_idx (on_inst (\<lambda>i. i\<lparr>li_hasRequest := True, li_fault := NoFault,
              li_strictlyOrdered := rq_isStrictlyOrdered request, li_memReqLLSC := rq_isLLSC request,
              li_effAddr := rq_vaddr request, li_effSize := rq_size request, li_effAddrValid := True\<rparr>)) s) (\<lambda>s.
     rbind (lsq_read request outstanding sent load_idx s) (\<lambda>(fault, s).
     rbind (if fault \<noteq> NoFault then lq_modify load_idx (on_inst (\<lambda>i. i\<lparr>li_fault := fault\<rparr>)) s else Inr s) (\<lambda>s.
     Inr (fault, s))))"

definition lsq_pushStore :: "lsq_request \<Rightarrow> u8 list \<Rightarrow> nat \<Rightarrow> lsq_unit \<Rightarrow> (fault \<times> lsq_unit) res" where
  "lsq_pushStore request data store_idx s =
     rbind (sq_modify store_idx (on_inst (\<lambda>i. i\<lparr>li_hasRequest := True, li_fault := NoFault,
              li_strictlyOrdered := rq_isStrictlyOrdered request, li_memReqLLSC := rq_isLLSC request,
              li_effAddr := rq_vaddr request, li_effSize := rq_size request, li_effAddrValid := True\<rparr>)) s) (\<lambda>s.
     lsq_write request data store_idx s)"

text \<open>\<^verbatim>\<open>executeLoad\<close> and \<^verbatim>\<open>executeStore\<close>, with the instruction's own \<^verbatim>\<open>initiateAcc\<close> as an argument.\<close>

definition lsq_executeLoad :: "(nat \<Rightarrow> lsq_unit \<Rightarrow> (fault \<times> lsq_unit) res) \<Rightarrow> nat \<Rightarrow> lsq_unit \<Rightarrow> (fault \<times> lsq_unit) res" where
  "lsq_executeLoad initiateAcc idx s =
     rbind (lq_inst s idx) (\<lambda>inst.
     rbind (check (\<not> li_isSquashed inst) Assertion) (\<lambda>_.
     rbind (initiateAcc idx s) (\<lambda>(load_fault, s).
     rbind (lq_inst s idx) (\<lambda>inst.
     if load_fault = NoFault \<and> \<not> li_memAccPredicate inst then
       rbind (check (li_predicate inst) Assertion) (\<lambda>_.
       rbind (lq_modify idx (on_inst (\<lambda>i. i\<lparr>li_isExecuted := True\<rparr>)) s) (\<lambda>s.
       Inr (NoFault, lu_call (InstToCommit (li_seqNum inst)) s)))
     else if li_translationDelayed inst \<and> load_fault = NoFault then Inr (load_fault, s)
     else if load_fault \<noteq> NoFault \<and> li_translationCompleted inst \<and> li_requestPartialFault inst \<and> \<not> li_requestComplete inst then
       rbind (check (li_requestSplit inst) Assertion) (\<lambda>_. Inr (NoFault, s))
     else if load_fault \<noteq> NoFault \<or> \<not> li_predicate inst then
       rbind (if \<not> (li_hasRequest inst \<and> li_strictlyOrdered inst) \<or> li_isAtCommit inst
              then lq_modify idx (on_inst (\<lambda>i. i\<lparr>li_isExecuted := True\<rparr>)) s else Inr s) (\<lambda>s.
       Inr (load_fault, lu_call (InstToCommit (li_seqNum inst)) s))
     else if li_effAddrValid inst \<and> lu_checkLoads s then lsq_checkViolations (li_lqIt inst + 1) inst s
     else Inr (load_fault, s)))))"

definition lsq_executeStore :: "(nat \<Rightarrow> lsq_unit \<Rightarrow> (fault \<times> lsq_unit) res) \<Rightarrow> nat \<Rightarrow> lsq_unit \<Rightarrow> (fault \<times> lsq_unit) res" where
  "lsq_executeStore initiateAcc store_idx s =
     rbind (check (cq_size (lu_storeQueue s) \<noteq> 0) Assertion) (\<lambda>_.
     rbind (sq_inst s store_idx) (\<lambda>store_inst.
     rbind (check (\<not> li_isSquashed store_inst) Assertion) (\<lambda>_.
     let loadIt = li_lqIt store_inst in
     rbind (initiateAcc store_idx s) (\<lambda>(store_fault, s).
     rbind (cq_get (lu_storeQueue s) store_idx) (\<lambda>e.
     rbind (le_instruction e) (\<lambda>store_inst.
     if li_translationDelayed store_inst \<and> store_fault = NoFault then Inr (store_fault, s)
     else if \<not> li_predicate store_inst then Inr (store_fault, s)
     else if le_size e = 0 then
       if li_isAtomic store_inst then
         rbind (if \<not> (li_hasRequest store_inst \<and> li_strictlyOrdered store_inst) \<or> li_isAtCommit store_inst
                then sq_modify store_idx (on_inst (\<lambda>i. i\<lparr>li_isExecuted := True\<rparr>)) s else Inr s) (\<lambda>s.
         Inr (store_fault, lu_call (InstToCommit (li_seqNum store_inst)) s))
       else Inr (store_fault, s)
     else
       rbind (check (store_fault = NoFault) Assertion) (\<lambda>_.
       rbind (if li_isStoreConditional store_inst \<or> li_isAtomic store_inst then
                rbind (sq_modify store_idx (\<lambda>e. e\<lparr>se_canWB := True\<rparr>) s) (\<lambda>s.
                Inr (s\<lparr>lu_storesToWB := lu_storesToWB s + 1\<rparr>))
              else Inr s) (\<lambda>s.
       lsq_checkViolations loadIt store_inst s))))))))"

section \<open>Commit\<close>

definition lsq_commitLoad :: "lsq_unit \<Rightarrow> lsq_unit res" where
  "lsq_commitLoad s =
     (let lq = lu_loadQueue s in
      rbind (cq_front lq) (\<lambda>e.
      rbind (check (le_valid e) Assertion) (\<lambda>_.
      rbind (le_instruction e) (\<lambda>_.
      rbind (cq_modify (cq_head lq) le_clear lq) (\<lambda>lq.
      rbind (cq_pop_front lq 1) (\<lambda>lq.
      Inr (s\<lparr>lu_loadQueue := lq\<rparr>)))))))"

text \<open>The first argument bounds the rounds of a loop that removes one element in each.\<close>

fun lsq_commitLoads_loop :: "nat \<Rightarrow> seqnum \<Rightarrow> lsq_unit \<Rightarrow> lsq_unit res" where
  "lsq_commitLoads_loop n youngest_inst s =
     (if cq_size (lu_loadQueue s) = 0 then Inr s
      else rbind (lq_inst s (cq_head (lu_loadQueue s))) (\<lambda>i.
        if li_seqNum i \<le> youngest_inst then
          (case n of 0 \<Rightarrow> Inl Diverges | Suc n \<Rightarrow> rbind (lsq_commitLoad s) (lsq_commitLoads_loop n youngest_inst))
        else Inr s))"

declare lsq_commitLoads_loop.simps [simp del]

definition lsq_commitLoads :: "seqnum \<Rightarrow> lsq_unit \<Rightarrow> lsq_unit res" where
  "lsq_commitLoads youngest_inst s =
     rbind (if cq_size (lu_loadQueue s) = 0 then Inr ()
            else rbind (cq_front (lu_loadQueue s)) (\<lambda>e. check (le_valid e) Assertion)) (\<lambda>_.
     lsq_commitLoads_loop (cq_size (lu_loadQueue s)) youngest_inst s)"

fun lsq_commitStores_loop :: "seqnum \<Rightarrow> nat list \<Rightarrow> lsq_unit \<Rightarrow> lsq_unit res" where
  "lsq_commitStores_loop youngest_inst [] s = Inr s"
| "lsq_commitStores_loop youngest_inst (x # xs) s =
     rbind (cq_get (lu_storeQueue s) x) (\<lambda>e.
     rbind (check (le_valid e) Assertion) (\<lambda>_.
     if se_canWB e then lsq_commitStores_loop youngest_inst xs s
     else rbind (le_instruction e) (\<lambda>i.
       if li_seqNum i > youngest_inst then Inr s
       else rbind (sq_modify x (\<lambda>e. e\<lparr>se_canWB := True\<rparr>) s) (\<lambda>s.
         lsq_commitStores_loop youngest_inst xs (s\<lparr>lu_storesToWB := lu_storesToWB s + 1\<rparr>)))))"

definition lsq_commitStores :: "seqnum \<Rightarrow> lsq_unit \<Rightarrow> lsq_unit res" where
  "lsq_commitStores youngest_inst s =
     rbind (if cq_size (lu_storeQueue s) = 0 then Inr ()
            else rbind (cq_front (lu_storeQueue s)) (\<lambda>e. check (le_valid e) Assertion)) (\<lambda>_.
     lsq_commitStores_loop youngest_inst [cq_head (lu_storeQueue s) ..< cq_end (lu_storeQueue s)] s)"

section \<open>Squash\<close>

definition lsq_squash_load :: "lsq_unit \<Rightarrow> lsq_unit res" where
  "lsq_squash_load s =
     (let lq = lu_loadQueue s in
      rbind (lq_inst s (cq_tail lq)) (\<lambda>i.
      let s = (if lu_stalled s \<and> cq_tail lq = lu_stallingLoadIdx s
               then s\<lparr>lu_stalled := False, lu_stallingStoreIsn := 0, lu_stallingLoadIdx := 0\<rparr> else s);
          s = (if li_isHtmStart i then s\<lparr>lu_htmStarts := max 0 (lu_htmStarts s - 1)\<rparr> else s);
          s = (if li_isHtmStop i then s\<lparr>lu_htmStops := max 0 (lu_htmStops s - 1)\<rparr> else s);
          s = lu_call (SetSquashed (li_seqNum i)) s in
      rbind (cq_modify (cq_tail lq) le_clear lq) (\<lambda>lq.
      rbind (cq_pop_back lq) (\<lambda>lq.
      Inr (lu_count (\<lambda>c. c\<lparr>lc_squashedLoads := lc_squashedLoads c + 1\<rparr>) (s\<lparr>lu_loadQueue := lq\<rparr>))))))"

fun lsq_squash_loads :: "nat \<Rightarrow> seqnum \<Rightarrow> lsq_unit \<Rightarrow> lsq_unit res" where
  "lsq_squash_loads n squashed_num s =
     (if cq_size (lu_loadQueue s) = 0 then Inr s
      else rbind (lq_inst s (cq_tail (lu_loadQueue s))) (\<lambda>i.
        if li_seqNum i > squashed_num then
          (case n of 0 \<Rightarrow> Inl Diverges | Suc n \<Rightarrow> rbind (lsq_squash_load s) (lsq_squash_loads n squashed_num))
        else Inr s))"

declare lsq_squash_loads.simps [simp del]

definition lsq_squash_store :: "lsq_unit \<Rightarrow> lsq_unit res" where
  "lsq_squash_store s =
     (let sq = lu_storeQueue s in
      rbind (sq_inst s (cq_tail sq)) (\<lambda>i.
      rbind (check (\<not> (lu_stalled s \<and> li_seqNum i = lu_stallingStoreIsn s)) Panic) (\<lambda>_.
      let s = lu_call (SetSquashed (li_seqNum i)) s in
      rbind (cq_modify (cq_tail sq) se_clear sq) (\<lambda>sq.
      rbind (cq_pop_back sq) (\<lambda>sq.
      Inr (lu_count (\<lambda>c. c\<lparr>lc_squashedStores := lc_squashedStores c + 1\<rparr>) (s\<lparr>lu_storeQueue := sq\<rparr>)))))))"

fun lsq_squash_stores :: "nat \<Rightarrow> seqnum \<Rightarrow> lsq_unit \<Rightarrow> lsq_unit res" where
  "lsq_squash_stores n squashed_num s =
     (if cq_size (lu_storeQueue s) = 0 then Inr s
      else rbind (cq_back (lu_storeQueue s)) (\<lambda>e.
        rbind (le_instruction e) (\<lambda>i.
        if li_seqNum i > squashed_num \<and> \<not> se_canWB e then
          (case n of 0 \<Rightarrow> Inl Diverges | Suc n \<Rightarrow> rbind (lsq_squash_store s) (lsq_squash_stores n squashed_num))
        else Inr s)))"

declare lsq_squash_stores.simps [simp del]

definition lsq_squash :: "seqnum \<Rightarrow> lsq_unit \<Rightarrow> lsq_unit res" where
  "lsq_squash squashed_num s =
     rbind (lsq_squash_loads (cq_size (lu_loadQueue s)) squashed_num s) (\<lambda>s.
     let s = (case lu_memDepViolator s of
                Some v \<Rightarrow> if squashed_num < v then s\<lparr>lu_memDepViolator := None\<rparr> else s
              | None \<Rightarrow> s) in
     lsq_squash_stores (cq_size (lu_storeQueue s)) squashed_num s)"

section \<open>Write-back\<close>

definition lsq_unstall :: "seqnum \<Rightarrow> lsq_unit \<Rightarrow> lsq_unit res" where
  "lsq_unstall store_sn s =
     (if lu_stalled s \<and> store_sn = lu_stallingStoreIsn s then
        let s = s\<lparr>lu_stalled := False, lu_stallingStoreIsn := 0\<rparr> in
        rbind (lq_inst s (lu_stallingLoadIdx s)) (\<lambda>i. Inr (lu_call (ReplayMemInst (li_seqNum i)) s))
      else Inr s)"

definition lsq_storePostSend :: "lsq_unit \<Rightarrow> lsq_unit res" where
  "lsq_storePostSend s =
     rbind (sq_inst s (lu_storeWBIt s)) (\<lambda>i.
     rbind (lsq_unstall (li_seqNum i) s) (\<lambda>s.
     let s = (if \<not> li_isStoreConditional i then lu_call (SetCompleted (li_seqNum i)) s else s);
         s = (if lu_needsTSO s then s\<lparr>lu_storeInFlight := True\<rparr> else s) in
     Inr (s\<lparr>lu_storeWBIt := lu_storeWBIt s + 1\<rparr>)))"

text \<open>The \<^verbatim>\<open>do ... while\<close> of \<^verbatim>\<open>completeStore\<close>: one round for each element that leaves the queue.\<close>

fun completeStore_pop :: "nat \<Rightarrow> sq_entry circ_queue \<Rightarrow> sq_entry circ_queue res" where
  "completeStore_pop 0 sq = Inl Diverges"
| "completeStore_pop (Suc n) sq =
     rbind (cq_modify (cq_head sq) se_clear sq) (\<lambda>sq.
     rbind (cq_pop_front sq 1) (\<lambda>sq.
     rbind (cq_front sq) (\<lambda>e.
     if se_completed e \<and> \<not> cq_empty sq then completeStore_pop n sq else Inr sq)))"

definition lsq_completeStore :: "nat \<Rightarrow> lsq_unit \<Rightarrow> lsq_unit res" where
  "lsq_completeStore store_idx s =
     rbind (cq_get (lu_storeQueue s) store_idx) (\<lambda>e.
     rbind (check (le_valid e) Assertion) (\<lambda>_.
     rbind (sq_modify store_idx (\<lambda>e. e\<lparr>se_completed := True\<rparr>) s) (\<lambda>s.
     let s = s\<lparr>lu_storesToWB := lu_storesToWB s - 1\<rparr> in
     rbind (le_instruction e) (\<lambda>store_inst.
     rbind (if store_idx = cq_head (lu_storeQueue s) then
              rbind (completeStore_pop (cq_size (lu_storeQueue s)) (lu_storeQueue s)) (\<lambda>sq.
              Inr (lu_call UpdateLSQNextCycle (s\<lparr>lu_storeQueue := sq\<rparr>)))
            else Inr s) (\<lambda>s.
     rbind (lsq_unstall (li_seqNum store_inst) s) (\<lambda>s.
     let s = lu_call (SetCompleted (li_seqNum store_inst)) s in
     Inr (if lu_needsTSO s then s\<lparr>lu_storeInFlight := False\<rparr> else s)))))))"

text \<open>\<^verbatim>\<open>trySendPacket\<close>: the answers are whether the cache is blocked, whether a port is free and whether it accepts.\<close>

definition lsq_trySendPacket :: "bool \<Rightarrow> bool \<Rightarrow> bool \<Rightarrow> bool \<Rightarrow> lsq_unit \<Rightarrow> bool \<times> lsq_unit" where
  "lsq_trySendPacket isLoad cacheBlocked portAvailable accepted s =
     (let attempted = \<not> cacheBlocked \<and> portAvailable;
          ret = attempted \<and> accepted;
          cache_got_blocked = attempted \<and> \<not> accepted;
          s = (if cache_got_blocked then lu_count (\<lambda>c. c\<lparr>lc_blockedByCache := lc_blockedByCache c + 1\<rparr>) s else s) in
      (ret, if isLoad then s else s\<lparr>lu_isStoreBlocked := \<not> ret\<rparr>))"

text \<open>
  \<^verbatim>\<open>writebackStores\<close>.  Each round that finds a free cache port takes one answer: what \<^verbatim>\<open>trySendPacket\<close> finds when it
  sends the last packet of the request (the cache blocked, a port free, the packet accepted), and whether a conditional
  store still holds its reservation.  No further answer means no free port.
\<close>

record wb_answer =
  wa_cacheBlocked :: bool
  wa_portAvailable :: bool
  wa_accepted :: bool
  wa_reserved :: bool

definition lsq_send_store :: "wb_answer \<Rightarrow> lsq_unit \<Rightarrow> lsq_unit res" where
  "lsq_send_store a s =
     rbind (sq_inst s (lu_storeWBIt s)) (\<lambda>inst.
     case lsq_trySendPacket False (wa_cacheBlocked a) (wa_portAvailable a) (wa_accepted a) s of
       (sent, s) \<Rightarrow> if sent then lsq_storePostSend (lu_call (PacketSent (li_seqNum inst)) s) else Inr s)"

definition lsq_writebackBlockedStore :: "wb_answer \<Rightarrow> lsq_unit \<Rightarrow> lsq_unit res" where
  "lsq_writebackBlockedStore a s = rbind (check (lu_isStoreBlocked s) Assertion) (\<lambda>_. lsq_send_store a s)"

definition lsq_wb_ready :: "lsq_unit \<Rightarrow> bool res" where
  "lsq_wb_ready s =
     (if lu_storesToWB s > 0 \<and> cq_isValidIdx (lu_storeQueue s) (lu_storeWBIt s) then
        rbind (cq_get (lu_storeQueue s) (lu_storeWBIt s)) (\<lambda>e.
        Inr (le_valid e \<and> se_canWB e \<and> (\<not> lu_needsTSO s \<or> \<not> lu_storeInFlight s)))
      else Inr False)"

definition lsq_store_bytes :: "lsq_request \<Rightarrow> sq_entry \<Rightarrow> u8 list res" where
  "lsq_store_bytes request e =
     (if se_isAllZeros e then Inr (replicate (unat (rq_size request)) 0)
      else rbind (check (unat (rq_size request) \<le> length (se_data e)) OutOfRange) (\<lambda>_.
        Inr (take (unat (rq_size request)) (se_data e))))"

text \<open>One round of the loop; the flag tells whether the loop goes on.\<close>

definition lsq_wb_round :: "wb_answer \<Rightarrow> lsq_unit \<Rightarrow> (bool \<times> lsq_unit) res" where
  "lsq_wb_round a s =
     (if lu_isStoreBlocked s then Inr (False, s)
      else rbind (cq_get (lu_storeQueue s) (lu_storeWBIt s)) (\<lambda>e.
      if le_size e = 0 then
        rbind (lsq_completeStore (lu_storeWBIt s) (s\<lparr>lu_storeWBIt := lu_storeWBIt s + 1\<rparr>)) (\<lambda>s. Inr (True, s))
      else rbind (le_instruction e) (\<lambda>inst.
      if li_isDataPrefetch inst then Inr (True, s\<lparr>lu_storeWBIt := lu_storeWBIt s + 1\<rparr>)
      else case le_request e of None \<Rightarrow> Inl Assertion
      | Some request \<Rightarrow>
        rbind (check (\<not> se_committed e) Assertion) (\<lambda>_.
        if (rq_isLLSC request \<or> rq_isRelease request) \<and> lu_storeWBIt s \<noteq> cq_head (lu_storeQueue s) then Inr (False, s)
        else
          rbind (sq_modify (lu_storeWBIt s) (\<lambda>e. e\<lparr>se_committed := True\<rparr>) s) (\<lambda>s.
          rbind (check (\<not> li_memData inst) Assertion) (\<lambda>_.
          rbind (sq_modify (lu_storeWBIt s) (on_inst (\<lambda>i. i\<lparr>li_memData := True\<rparr>)) s) (\<lambda>s.
          rbind (lsq_store_bytes request e) (\<lambda>bytes.
          if li_isStoreConditional inst \<and> \<not> wa_reserved a then
            rbind (lsq_completeStore (lu_storeWBIt s) (lu_call (FailedConditional (li_seqNum inst)) s)) (\<lambda>s.
            Inr (True, if cq_empty (lu_storeQueue s) then s\<lparr>lu_storeWBIt := cq_end (lu_storeQueue s)\<rparr>
                       else s\<lparr>lu_storeWBIt := lu_storeWBIt s + 1\<rparr>))
          else if rq_isLocalAccess request then
            rbind (check (\<not> li_isStoreConditional inst) Assertion) (\<lambda>_.
            rbind (lsq_completeStore (lu_storeWBIt s) (lu_call (LocalAccess (li_seqNum inst)) s)) (\<lambda>s.
            Inr (True, s\<lparr>lu_storeWBIt := lu_storeWBIt s + 1\<rparr>)))
          else
            rbind (lsq_send_store a (lu_call (BuildPackets (li_seqNum inst) bytes) s)) (\<lambda>s. Inr (True, s))))))))))"

fun lsq_wb_loop :: "wb_answer list \<Rightarrow> lsq_unit \<Rightarrow> lsq_unit res" where
  "lsq_wb_loop answers s =
     rbind (lsq_wb_ready s) (\<lambda>ready.
     if \<not> ready then Inr s
     else case answers of [] \<Rightarrow> Inr s
     | a # answers \<Rightarrow> rbind (lsq_wb_round a s) (\<lambda>(go, s). if go then lsq_wb_loop answers s else Inr s))"

declare lsq_wb_loop.simps [simp del]

definition lsq_writebackStores :: "wb_answer \<Rightarrow> wb_answer list \<Rightarrow> lsq_unit \<Rightarrow> lsq_unit res" where
  "lsq_writebackStores blocked_answer answers s =
     rbind (if lu_isStoreBlocked s then lsq_writebackBlockedStore blocked_answer s else Inr s) (\<lambda>s.
     rbind (lsq_wb_loop answers s) (\<lambda>s.
     rbind (check (lu_storesToWB s \<ge> 0) Assertion) (\<lambda>_. Inr s)))"

section \<open>Snoops\<close>

definition lsq_isCacheBlockHit :: "u64 \<Rightarrow> u64 \<Rightarrow> lsq_request \<Rightarrow> bool res" where
  "lsq_isCacheBlockHit blockAddr blockMask request =
     (if rq_isSplit request then
        Inr (\<exists>p \<in> set (rq_paddrs request). case p of None \<Rightarrow> False | Some a \<Rightarrow> a AND blockMask = blockAddr)
      else rbind (vget (rq_paddrs request) 0) (\<lambda>p.
        case p of None \<Rightarrow> Inl Assertion | Some a \<Rightarrow> Inr (a AND blockMask = blockAddr)))"

fun checkSnoop_loop :: "u64 \<Rightarrow> nat list \<Rightarrow> bool \<Rightarrow> lsq_unit \<Rightarrow> lsq_unit res" where
  "checkSnoop_loop invalidate_addr [] force_squash s = Inr s"
| "checkSnoop_loop invalidate_addr (it # its) force_squash s =
     rbind (cq_get (lu_loadQueue s) it) (\<lambda>e.
     rbind (case le_inst e of None \<Rightarrow> Inl Assertion | Some i \<Rightarrow> Inr i) (\<lambda>ld_inst.
     case le_request e of None \<Rightarrow> checkSnoop_loop invalidate_addr its force_squash s
     | Some request \<Rightarrow>
       if \<not> li_effAddrValid ld_inst \<or> li_strictlyOrdered ld_inst then checkSnoop_loop invalidate_addr its force_squash s
       else
         rbind (if force_squash then Inr True else lsq_isCacheBlockHit invalidate_addr (lu_cacheBlockMask s) request) (\<lambda>hit.
         if hit then
           let force_squash = force_squash \<or> lu_needsTSO s in
           if li_possibleLoadViolation ld_inst \<or> force_squash then
             rbind (lq_modify it (\<lambda>e. (on_inst (\<lambda>i. i\<lparr>li_fault := ReExec\<rparr>) e)
                                        \<lparr>le_request := Some (request\<lparr>rq_stateFault := True\<rparr>)\<rparr>) s)
               (checkSnoop_loop invalidate_addr its force_squash)
           else
             let s = (if li_memReqLLSC ld_inst then lu_call (HandleLockedSnoopHit (li_seqNum ld_inst)) s else s) in
             rbind (lq_modify it (on_inst (\<lambda>i. i\<lparr>li_hitExternalSnoop := True\<rparr>)) s)
               (checkSnoop_loop invalidate_addr its force_squash)
         else checkSnoop_loop invalidate_addr its force_squash s)))"

definition lsq_checkSnoop :: "u64 \<Rightarrow> lsq_unit \<Rightarrow> lsq_unit res" where
  "lsq_checkSnoop pkt_addr s =
     (if cq_empty (lu_loadQueue s) then Inr s
      else
        let lq = lu_loadQueue s; invalidate_addr = pkt_addr AND lu_cacheBlockMask s in
        rbind (cq_get lq (cq_head lq)) (\<lambda>e.
        rbind (case le_inst e of None \<Rightarrow> Inl Assertion | Some i \<Rightarrow> Inr i) (\<lambda>ld_inst.
        rbind (case le_request e of None \<Rightarrow> Inr False
               | Some request \<Rightarrow> if li_effAddrValid ld_inst
                   then rbind (lsq_isCacheBlockHit invalidate_addr (lu_cacheBlockMask s) request) (\<lambda>hit. Inr (hit \<and> li_memReqLLSC ld_inst))
                   else Inr False) (\<lambda>locked.
        let s = (if locked then lu_call (HandleLockedSnoopHit (li_seqNum ld_inst)) s else s) in
        checkSnoop_loop invalidate_addr [cq_head lq + 1 ..< cq_end lq] False s))))"

section \<open>Responses and draining\<close>

definition lsq_writeback :: "lsq_inst \<Rightarrow> lsq_unit \<Rightarrow> (lsq_inst \<times> lsq_unit) res" where
  "lsq_writeback inst s =
     (if li_isSquashed inst then
        rbind (check (\<not> li_isStore inst \<or> li_isStoreConditional inst) Assertion) (\<lambda>_.
        Inr (inst, lu_count (\<lambda>c. c\<lparr>lc_ignoredResponses := lc_ignoredResponses c + 1\<rparr>) s))
      else
        rbind (if \<not> li_isExecuted inst then
                 rbind (check (li_fault inst = NoFault \<or> li_fault inst = ReExec \<or> li_requestPartialFault inst) Assertion) (\<lambda>_.
                 Inr (inst\<lparr>li_isExecuted := True\<rparr>, if li_fault inst = NoFault then lu_call (CompleteAcc (li_seqNum inst)) s else s))
               else Inr (inst, s)) (\<lambda>(inst, s).
        Inr (inst, lu_call (CheckMisprediction (li_seqNum inst)) (lu_call (InstToCommit (li_seqNum inst)) s))))"

text \<open>The unit only ever sets \<^verbatim>\<open>retryPkt\<close> to null, so the member and the assertion that it is null are left out.\<close>

definition lsq_drainSanityCheck :: "lsq_unit \<Rightarrow> unit res" where
  "lsq_drainSanityCheck s =
     rbind (rfold (\<lambda>i u. rbind (cq_get (lu_loadQueue s) i) (\<lambda>e. check (\<not> le_valid e) Assertion))
        [0 ..< cq_capacity (lu_loadQueue s)] ()) (\<lambda>_.
     check (lu_storesToWB s = 0) Assertion)"

definition lsq_takeOverFrom :: "u64 \<Rightarrow> lsq_unit \<Rightarrow> lsq_unit" where
  "lsq_takeOverFrom cacheLineSize s = lsq_resetState cacheLineSize s"

end
