(* ===== verification/Lsq_Queue.thy ===== *)
theory Lsq_Queue
  imports Lsq_Unit
begin

text \<open>
  The load/store queue on the lists of its valid entries: what the scans of \<^verbatim>\<open>checkViolations\<close> and \<^verbatim>\<open>read\<close> find, stated
  over program order and byte addresses.
\<close>

section \<open>Entries as lists\<close>

abbreviation lds :: "lsq_unit \<Rightarrow> lsq_entry list" where "lds s \<equiv> cq_list (lu_loadQueue s)"
abbreviation sts :: "lsq_unit \<Rightarrow> sq_entry list" where "sts s \<equiv> cq_list (lu_storeQueue s)"
abbreviation lhd :: "lsq_unit \<Rightarrow> nat" where "lhd s \<equiv> cq_head (lu_loadQueue s)"
abbreviation shd :: "lsq_unit \<Rightarrow> nat" where "shd s \<equiv> cq_head (lu_storeQueue s)"

definition ei :: "'z lsq_entry_scheme \<Rightarrow> lsq_inst" where
  "ei e = the (le_inst e)"

abbreviation sn :: "'z lsq_entry_scheme \<Rightarrow> seqnum" where "sn e \<equiv> li_seqNum (ei e)"

definition load_ok :: "nat \<Rightarrow> lsq_entry \<Rightarrow> bool" where
  "load_ok k e \<longleftrightarrow> le_valid e \<and> le_inst e \<noteq> None \<and> li_lqIt (ei e) = k \<and> li_lqIdx (ei e) = k \<and> \<not> li_isSquashed (ei e)"

definition lq_good :: "nat \<Rightarrow> lsq_entry list \<Rightarrow> bool" where
  "lq_good h ls \<longleftrightarrow> (\<forall>k<length ls. load_ok (h + k) (ls ! k)) \<and> sorted_wrt (<) (map sn ls)"

lemma lq_good_nth: "lq_good h ls \<Longrightarrow> k < length ls \<Longrightarrow> load_ok (h + k) (ls ! k)"
  by (simp add: lq_good_def)

lemma sorted_sn: "sorted_wrt (<) (map sn es) \<Longrightarrow> i < j \<Longrightarrow> j < length es \<Longrightarrow> sn (es ! i) < sn (es ! j)"
  using sorted_wrt_nth_less [of "(<)" "map sn es" i j] by simp

lemma le_instruction_some: "le_inst e \<noteq> None \<Longrightarrow> le_instruction e = Inr (ei e)"
  by (auto simp: le_instruction_def ei_def)

lemma ei_on_inst: "le_inst e \<noteq> None \<Longrightarrow> ei (on_inst f e) = f (ei e)"
  by (auto simp: ei_def on_inst_def)

lemma on_inst_sel [simp]: "le_valid (on_inst f e) = le_valid e" "le_size (on_inst f e) = le_size e"
  "le_request (on_inst f e) = le_request e" "le_inst (on_inst f e) = map_option f (le_inst e)"
  by (simp_all add: on_inst_def)

lemma cq_end_eq: "cq_ok q \<Longrightarrow> cq_end q = cq_head q + cq_size q"
  by (simp add: cq_end_def cq_tail_def cq_ok_def)

lemma cq_modify_eq:
  assumes "cq_ok q" "k < cq_size q"
  shows "cq_modify (cq_head q + k) f q = Inr (cq_upd q (cq_head q + k) (f (cq_list q ! k)))"
  by (simp add: cq_modify_def cq_get_nth assms cq_put_upd)

lemma cq_list_upd_nth:
  assumes "cq_ok q" "k < cq_size q"
  shows "cq_list (cq_upd q (cq_head q + k) v) = (cq_list q)[k := v]"
    "cq_rest (cq_upd q (cq_head q + k) v) = cq_rest q"
  using cq_list_upd [OF assms(1), of "cq_head q + k" v] cq_rest_upd [OF assms(1), of "cq_head q + k" v] assms(2)
  by (simp_all add: cq_isValidIdx_def)

lemma lq_modify_eq:
  assumes "cq_ok (lu_loadQueue s)" "k < length (lds s)"
  shows "lq_modify (lhd s + k) f s = Inr (s\<lparr>lu_loadQueue := cq_upd (lu_loadQueue s) (lhd s + k) (f (lds s ! k))\<rparr>)"
  using assms by (simp add: lq_modify_def cq_modify_eq)

lemma sq_modify_eq:
  assumes "cq_ok (lu_storeQueue s)" "k < length (sts s)"
  shows "sq_modify (shd s + k) f s = Inr (s\<lparr>lu_storeQueue := cq_upd (lu_storeQueue s) (shd s + k) (f (sts s ! k))\<rparr>)"
  using assms by (simp add: sq_modify_def cq_modify_eq)

lemma lq_inst_eq:
  assumes "cq_ok (lu_loadQueue s)" "k < length (lds s)" "le_inst (lds s ! k) \<noteq> None"
  shows "lq_inst s (lhd s + k) = Inr (ei (lds s ! k))"
  using assms by (simp add: lq_inst_def cq_get_nth le_instruction_some)

lemma sq_inst_eq:
  assumes "cq_ok (lu_storeQueue s)" "k < length (sts s)" "le_inst (sts s ! k) \<noteq> None"
  shows "sq_inst s (shd s + k) = Inr (ei (sts s ! k))"
  using assms by (simp add: sq_inst_def cq_get_nth le_instruction_some)

section \<open>What \<^verbatim>\<open>checkViolations\<close> finds\<close>

definition conflicts :: "nat \<Rightarrow> lsq_inst \<Rightarrow> lsq_inst \<Rightarrow> bool" where
  "conflicts shift inst ld \<longleftrightarrow> li_effAddrValid ld \<and> \<not> li_strictlyOrdered ld \<and>
     eff_first shift ld \<le> eff_last shift inst \<and> eff_first shift inst \<le> eff_last shift ld"

text \<open>A load is settled towards a store that is older than the store it forwarded from or is being squashed for.\<close>

definition settled :: "lsq_inst \<Rightarrow> lsq_inst \<Rightarrow> bool" where
  "settled inst ld \<longleftrightarrow> li_seqNum inst < li_forwardedFrom ld \<or> li_seqNum inst < li_violatingStoreSeqNum ld"

definition violates :: "nat \<Rightarrow> lsq_inst \<Rightarrow> lsq_inst \<Rightarrow> bool" where
  "violates shift inst ld \<longleftrightarrow> conflicts shift inst ld \<and> \<not> settled inst ld"

definition lsq_report :: "lsq_inst \<Rightarrow> nat \<Rightarrow> lsq_unit \<Rightarrow> lsq_unit" where
  "lsq_report inst k s =
     lu_count (\<lambda>c. c\<lparr>lc_memOrderViolation := lc_memOrderViolation c + 1\<rparr>)
       (s\<lparr>lu_loadQueue := cq_upd (lu_loadQueue s) (lhd s + k) (on_inst (lsq_record_violation inst) (lds s ! k)),
          lu_memDepViolator := Some (sn (lds s ! k))\<rparr>)"

text \<open>No violator recorded so far is older than the given load.\<close>

definition not_after_violator :: "seqnum option \<Rightarrow> seqnum \<Rightarrow> bool" where
  "not_after_violator v x \<longleftrightarrow> (case v of None \<Rightarrow> True | Some v \<Rightarrow> x \<le> v)"

lemma checkViolations_loop_store:
  assumes "cq_ok (lu_loadQueue s)" "lq_good (lhd s) (lds s)" "\<not> li_isLoad inst" "a \<le> length (lds s)"
  shows "checkViolations_loop inst [lhd s + a ..< lhd s + length (lds s)] s =
    (case find (\<lambda>k. violates (lu_depCheckShift s) inst (ei (lds s ! k))) [a ..< length (lds s)] of
       Some k \<Rightarrow> if not_after_violator (lu_memDepViolator s) (sn (lds s ! k)) then Inr (M5PanicFault, lsq_report inst k s)
                 else Inr (NoFault, s)
     | None \<Rightarrow> Inr (NoFault, s))"
  using assms(4)
proof (induction "length (lds s) - a" arbitrary: a)
  case 0
  then show ?case by simp
next
  case (Suc n)
  then have a: "a < length (lds s)" by simp
  have ok: "load_ok (lhd s + a) (lds s ! a)" by (rule lq_good_nth [OF assms(2) a])
  have IH: "checkViolations_loop inst [lhd s + Suc a ..< lhd s + length (lds s)] s =
    (case find (\<lambda>k. violates (lu_depCheckShift s) inst (ei (lds s ! k))) [Suc a ..< length (lds s)] of
       Some k \<Rightarrow> if not_after_violator (lu_memDepViolator s) (sn (lds s ! k)) then Inr (M5PanicFault, lsq_report inst k s)
                 else Inr (NoFault, s)
     | None \<Rightarrow> Inr (NoFault, s))"
    by (rule Suc.hyps(1)) (use Suc.hyps(2) a in auto)
  have later: "\<not> not_after_violator (lu_memDepViolator s) (sn (lds s ! k))"
    if "lu_memDepViolator s = Some v" "v < sn (lds s ! a)" "find P [Suc a ..< length (lds s)] = Some k" for v P k
  proof -
    from that(3) have "a < k" "k < length (lds s)" by (auto simp: find_Some_iff) 
    with assms(2) have "sn (lds s ! a) < sn (lds s ! k)" by (intro sorted_sn) (simp_all add: lq_good_def)
    with that show ?thesis by (simp add: not_after_violator_def)
  qed
  have "[lhd s + a ..< lhd s + length (lds s)] = (lhd s + a) # [lhd s + Suc a ..< lhd s + length (lds s)]"
    using a by (simp add: upt_conv_Cons)
  moreover have "[a ..< length (lds s)] = a # [Suc a ..< length (lds s)]" using a by (simp add: upt_conv_Cons)
  ultimately show ?case
    using a ok assms(1,3) IH later
    by (auto simp: lq_inst_eq load_ok_def lq_modify_eq violates_def conflicts_def settled_def not_after_violator_def
        lsq_report_def split: option.splits)
qed

section \<open>What \<^verbatim>\<open>read\<close> finds\<close>

text \<open>An access that is not empty, whose size is a positive \<^verbatim>\<open>int\<close>, and that ends below the top of the address space.\<close>

definition fits :: "u64 \<Rightarrow> u32 \<Rightarrow> bool" where
  "fits a n \<longleftrightarrow> 0 < n \<and> unat n < 2 ^ 31 \<and> unat a + unat n < 2 ^ 64"

definition bytes_at :: "u64 \<Rightarrow> u32 \<Rightarrow> nat set" where
  "bytes_at a n = {unat a ..< unat a + unat n}"

text \<open>The store's request with its data, as \<^verbatim>\<open>write\<close> leaves them.\<close>

definition store_written :: "sq_entry \<Rightarrow> bool" where
  "store_written e \<longleftrightarrow> (case le_request e of None \<Rightarrow> False
     | Some r \<Rightarrow> rq_size r = le_size e \<and> rq_vaddr r = li_effAddr (ei e) \<and> li_effSize (ei e) = le_size e \<and>
         li_effAddrValid (ei e) \<and> fits (li_effAddr (ei e)) (le_size e) \<and>
         (se_isAllZeros e \<or> unat (le_size e) \<le> length (se_data e)) \<and>
         (li_isStoreConditional (ei e) \<longrightarrow> \<not> rq_isLocalAccess r))"

definition store_ok :: "nat \<Rightarrow> sq_entry \<Rightarrow> bool" where
  "store_ok k e \<longleftrightarrow> le_valid e \<and> le_inst e \<noteq> None \<and> li_sqIt (ei e) = k \<and> li_sqIdx (ei e) = k \<and>
     \<not> li_isSquashed (ei e) \<and> \<not> li_isLoad (ei e) \<and> (le_size e \<noteq> 0 \<longrightarrow> store_written e)"

text \<open>The stores the scan takes part of: executed, not strictly ordered, not cache maintenance.\<close>

definition participates :: "sq_entry \<Rightarrow> bool" where
  "participates e \<longleftrightarrow> le_size e \<noteq> 0 \<and> \<not> li_strictlyOrdered (ei e) \<and>
     (case le_request e of None \<Rightarrow> False | Some r \<Rightarrow> \<not> rq_isCacheMaintenance r)"

definition overlaps :: "u64 \<Rightarrow> u32 \<Rightarrow> sq_entry \<Rightarrow> bool" where
  "overlaps a n e \<longleftrightarrow> unat a < unat (li_effAddr (ei e)) + unat (le_size e) \<and> unat (li_effAddr (ei e)) < unat a + unat n"

lemma overlaps_bytes: "0 < n \<Longrightarrow> 0 < le_size e \<Longrightarrow>
  overlaps a n e \<longleftrightarrow> bytes_at a n \<inter> bytes_at (li_effAddr (ei e)) (le_size e) \<noteq> {}"
  unfolding overlaps_def bytes_at_def Int_atLeastLessThan atLeastLessThan_empty_iff
  by (auto simp: word_less_nat_alt)

definition suppliers :: "lsq_request \<Rightarrow> sq_entry \<Rightarrow> bool" where
  "suppliers r e \<longleftrightarrow> participates e \<and> overlaps (rq_vaddr r) (rq_size r) e"

definition can_forward :: "lsq_request \<Rightarrow> sq_entry \<Rightarrow> bool" where
  "can_forward r e \<longleftrightarrow> bytes_at (rq_vaddr r) (rq_size r) \<subseteq> bytes_at (li_effAddr (ei e)) (le_size e) \<and>
     \<not> li_isAtomic (ei e) \<and> \<not> rq_isLLSC r \<and> (case le_request e of None \<Rightarrow> False | Some q \<Rightarrow> \<not> rq_isMasked q)"

lemma sint_small:
  assumes "unat (n :: u32) < 2 ^ 31"
  shows "sint n = int (unat n)"
proof -
  have u: "uint n = int (unat n)" by (rule uint_nat)
  have "sint n = signed_take_bit (LENGTH(32) - 1) (int (unat n))" by (subst sint_uint) (simp only: u One_nat_def)
  also have "\<dots> = int (unat n)"
  proof -
    have "signed_take_bit (LENGTH(32) - 1) (int m) = int m" if "m < 2 ^ 31" for m
      by (rule signed_take_bit_int_eq_self) (use that in auto)
    then show ?thesis using assms .
  qed
  finally show ?thesis .
qed

lemma fits_scast:
  assumes "unat (n :: u32) < 2 ^ 31"
  shows "(scast n :: u64) = ucast n"
proof -
  have "(scast n :: u64) = of_int (sint n)" by (rule of_int_sint [symmetric])
  also have "sint n = uint n" by (rule trans [OF sint_small [OF assms] uint_nat [symmetric]])
  also have "of_int (uint n) = (ucast n :: u64)" by (rule of_int_uint)
  finally show ?thesis .
qed

lemma fits_end: "fits a n \<Longrightarrow> unat (a + ucast n) = unat a + unat n"
  by (subst unat_add_lem [THEN iffD1]) (auto simp: fits_def unsigned_ucast_eq unsigned_take_bit_eq take_bit_nat_eq_self)

lemma coverage_exact:
  assumes "fits (rq_vaddr r) (rq_size r)" "fits (li_effAddr (ei e)) (le_size e)" "le_request e = Some q"
  shows "lsq_coverage r (ei e) (rq_isMasked q) (le_size e) =
    (if overlaps (rq_vaddr r) (rq_size r) e then
       if can_forward r e then FullAddrRangeCoverage else PartialAddrRangeCoverage
     else NoAddrRangeCoverage)"
proof -
  have sz: "0 < unat (rq_size r)" "0 < unat (le_size e)" "(scast (le_size e) :: u64) = ucast (le_size e)"
    using assms(1,2) fits_scast [of "le_size e"] by (simp_all add: fits_def word_less_nat_alt)
  have sub: "bytes_at (rq_vaddr r) (rq_size r) \<subseteq> bytes_at (li_effAddr (ei e)) (le_size e) \<longleftrightarrow>
     unat (li_effAddr (ei e)) \<le> unat (rq_vaddr r) \<and> unat (rq_vaddr r) + unat (rq_size r) \<le> unat (li_effAddr (ei e)) + unat (le_size e)"
    using sz(1) by (simp add: bytes_at_def ivl_subset)
  show ?thesis
    unfolding lsq_coverage_def Let_def overlaps_def can_forward_def sub sz(3)
    using sz(1,2) assms(3)
    by (auto simp: word_le_nat_alt word_less_nat_alt fits_end [OF assms(1)] fits_end [OF assms(2)])
qed

lemma read_scan_finds:
  assumes "cq_ok (lu_loadQueue s)" "l < length (lds s)" "le_inst (lds s ! l) \<noteq> None"
    "cq_ok (lu_storeQueue s)" "a \<le> b" "b \<le> length (sts s)" "fits (rq_vaddr r) (rq_size r)"
    and "\<And>k. a \<le> k \<Longrightarrow> k < b \<Longrightarrow> store_ok (shd s + k) (sts s ! k) \<and> sn (sts s ! k) < sn (lds s ! l)"
  shows "lsq_read_scan r out sent (lhd s + l) (rev [shd s + a ..< shd s + b]) s =
    (case find (\<lambda>k. suppliers r (sts s ! k)) (rev [a ..< b]) of
       None \<Rightarrow> lsq_access r sent (lhd s + l) s
     | Some k \<Rightarrow> if can_forward r (sts s ! k) then lsq_forward r out (lhd s + l) (ei (sts s ! k)) (sts s ! k) s
                 else lsq_stall (lhd s + l) (ei (sts s ! k)) (sts s ! k) s)"
  using assms(5,6,8)
proof (induction "b - a" arbitrary: b)
  case 0
  then show ?case by simp
next
  case (Suc n)
  then obtain c where c: "b = Suc c" "a \<le> c" "c < length (sts s)" by (cases b) auto
  let ?e = "sts s ! c"
  have ok: "store_ok (shd s + c) ?e" "sn ?e < sn (lds s ! l)" using Suc.prems(3) [of c] c by auto
  have IH: "lsq_read_scan r out sent (lhd s + l) (rev [shd s + a ..< shd s + c]) s =
    (case find (\<lambda>k. suppliers r (sts s ! k)) (rev [a ..< c]) of
       None \<Rightarrow> lsq_access r sent (lhd s + l) s
     | Some k \<Rightarrow> if can_forward r (sts s ! k) then lsq_forward r out (lhd s + l) (ei (sts s ! k)) (sts s ! k) s
                 else lsq_stall (lhd s + l) (ei (sts s ! k)) (sts s ! k) s)"
    by (rule Suc.hyps(1)) (use Suc.hyps(2) Suc.prems c in auto)
  have lists: "rev [shd s + a ..< shd s + b] = (shd s + c) # rev [shd s + a ..< shd s + c]"
    "rev [a ..< b] = c # rev [a ..< c]" using c by simp_all
  have get: "cq_get (lu_storeQueue s) (shd s + c) = Inr ?e" "lq_inst s (lhd s + l) = Inr (ei (lds s ! l))"
    "le_instruction ?e = Inr (ei ?e)" "le_valid ?e"
    using assms(1-4) c(3) ok(1) by (simp_all add: cq_get_nth lq_inst_eq le_instruction_some store_ok_def)
  show ?case
  proof (cases "le_size ?e \<noteq> 0 \<and> \<not> li_strictlyOrdered (ei ?e)")
    case False
    then have "\<not> suppliers r ?e" by (auto simp: suppliers_def participates_def)
    then show ?thesis using False get ok(2) IH by (simp add: lists if_not_P [OF False])
  next
    case True
    then have "store_written ?e" using ok(1) by (simp add: store_ok_def)
    then obtain q where q: "le_request ?e = Some q" "li_effAddrValid (ei ?e)" "fits (li_effAddr (ei ?e)) (le_size ?e)"
      by (auto simp: store_written_def split: option.splits)
    from True q(1) have sup: "suppliers r ?e \<longleftrightarrow> \<not> rq_isCacheMaintenance q \<and> overlaps (rq_vaddr r) (rq_size r) ?e"
      by (simp add: suppliers_def participates_def)
    show ?thesis
      using True get ok(2) IH q(1,2) coverage_exact [OF assms(7) q(3,1)] by (simp add: lists sup)
  qed
qed

text \<open>The byte a store leaves at an address of its range.\<close>

definition store_byte :: "sq_entry \<Rightarrow> nat \<Rightarrow> u8" where
  "store_byte e a = (if se_isAllZeros e then 0 else se_data e ! (a - unat (li_effAddr (ei e))))"

lemma forward_bytes_exact:
  assumes "fits (rq_vaddr r) (rq_size r)" "store_written e" "can_forward r e"
  shows "lsq_forward_bytes r (ei e) e =
    Inr (map (\<lambda>j. store_byte e (unat (rq_vaddr r) + j)) [0 ..< unat (rq_size r)])"
proof -
  let ?a = "rq_vaddr r" and ?b = "li_effAddr (ei e)"
  have w: "fits ?b (le_size e)" "se_isAllZeros e \<or> unat (le_size e) \<le> length (se_data e)"
    using assms(2) by (auto simp: store_written_def split: option.splits)
  have "0 < unat (rq_size r)" using assms(1) by (simp add: fits_def word_less_nat_alt)
  then have sub: "unat ?b \<le> unat ?a" "unat ?a + unat (rq_size r) \<le> unat ?b + unat (le_size e)"
    using assms(3) by (simp_all add: can_forward_def bytes_at_def ivl_subset)
  have d: "unat (?a - ?b) = unat ?a - unat ?b" using sub(1) by (simp add: unat_sub word_le_nat_alt)
  have lt: "unat ?a - unat ?b < 2 ^ 31" using sub w(1) \<open>0 < unat (rq_size r)\<close> unfolding fits_def by linarith
  have u: "unat (ucast (?a - ?b) :: u32) = unat ?a - unat ?b"
    using lt by (simp add: unsigned_ucast_eq unsigned_take_bit_eq d take_bit_nat_eq_self)
  define D where "D = unat ?a - unat ?b"
  have sh: "sint (ucast (?a - ?b) :: u32) = int D" unfolding D_def
    using u lt sint_small [of "ucast (?a - ?b)"] by simp
  show ?thesis
  proof (cases "se_isAllZeros e")
    case True
    then show ?thesis by (simp add: lsq_forward_bytes_def store_byte_def map_replicate_const)
  next
    case False
    then have "D + unat (rq_size r) \<le> length (se_data e)" using w(2) sub unfolding D_def by linarith
    moreover have "unat ?a + j - unat ?b = D + j" for j using sub(1) by (simp add: D_def)
    ultimately show ?thesis
      using False by (auto simp: lsq_forward_bytes_def Let_def sh store_byte_def intro!: nth_equalityI)
  qed
qed

end
