(* ===== verification/Lsq_Invariant.thy ===== *)
theory Lsq_Invariant
  imports Lsq_Queue
begin

text \<open>
  The well-formedness of the load/store queue: the two queues are in program order, the iterators an instruction took at
  dispatch split the other queue at its own place in program order, the write-back iterator and the counters agree with
  the flags of the entries, and cleared slots are clean.  Every operation keeps it and, from it, none fails.
\<close>

section \<open>The invariant\<close>

definition sq_good :: "nat \<Rightarrow> sq_entry list \<Rightarrow> bool" where
  "sq_good h ss \<longleftrightarrow> (\<forall>k<length ss. store_ok (h + k) (ss ! k)) \<and> sorted_wrt (<) (map sn ss)"

text \<open>The iterators taken at dispatch separate older from younger.\<close>

definition cross_linked :: "nat \<Rightarrow> lsq_entry list \<Rightarrow> nat \<Rightarrow> sq_entry list \<Rightarrow> bool" where
  "cross_linked lh ls sh ss \<longleftrightarrow>
     (\<forall>i<length ls. \<forall>k<length ss.
        (sh + k < li_sqIt (ei (ls ! i)) \<longleftrightarrow> sn (ss ! k) < sn (ls ! i)) \<and>
        (li_lqIt (ei (ss ! k)) \<le> lh + i \<longleftrightarrow> sn (ss ! k) < sn (ls ! i))) \<and>
     (\<forall>i<length ls. li_sqIt (ei (ls ! i)) \<le> sh + length ss) \<and>
     (\<forall>k<length ss. li_lqIt (ei (ss ! k)) \<le> lh + length ls)"

lemma cross_linkedD:
  assumes "cross_linked lh ls sh ss" "i < length ls" "k < length ss"
  shows "sh + k < li_sqIt (ei (ls ! i)) \<longleftrightarrow> sn (ss ! k) < sn (ls ! i)"
    "li_lqIt (ei (ss ! k)) \<le> lh + i \<longleftrightarrow> sn (ss ! k) < sn (ls ! i)"
  using assms unfolding cross_linked_def by blast+

text \<open>The write-back iterator: everything before it has left or is leaving, nothing after it has.\<close>

definition wb_good :: "nat \<Rightarrow> sq_entry list \<Rightarrow> lsq_entry list \<Rightarrow> nat \<Rightarrow> bool \<Rightarrow> bool" where
  "wb_good sh ss ls wb blk \<longleftrightarrow>
     sh \<le> wb \<and> wb \<le> sh + length ss \<and> (\<forall>i<length ls. wb \<le> li_sqIt (ei (ls ! i))) \<and>
     (\<forall>k<length ss. (sh + k < wb \<longrightarrow> se_canWB (ss ! k)) \<and> (se_completed (ss ! k) \<longrightarrow> sh + k < wb) \<and>
        (wb \<le> sh + k \<and> (se_committed (ss ! k) \<or> li_memData (ei (ss ! k))) \<longrightarrow> blk \<and> sh + k = wb)) \<and>
     (blk \<longrightarrow> wb < sh + length ss \<and> se_canWB (ss ! (wb - sh)))"

definition committed_older :: "sq_entry list \<Rightarrow> lsq_entry list \<Rightarrow> bool" where
  "committed_older ss ls \<longleftrightarrow> (\<forall>e \<in> set ss. \<forall>l \<in> set ls. se_canWB e \<longrightarrow> sn e < sn l)"

definition awaiting :: "sq_entry \<Rightarrow> bool" where
  "awaiting e \<longleftrightarrow> se_canWB e \<and> \<not> se_completed e"

definition stall_good :: "nat \<Rightarrow> lsq_entry list \<Rightarrow> bool \<Rightarrow> seqnum \<Rightarrow> nat \<Rightarrow> bool" where
  "stall_good lh ls st isn idx \<longleftrightarrow>
     (st \<longrightarrow> lh \<le> idx \<and> idx < lh + length ls \<and> isn < sn (ls ! (idx - lh)) \<and> \<not> li_isExecuted (ei (ls ! (idx - lh))))"

definition clean_load :: "lsq_entry \<Rightarrow> bool" where
  "clean_load e \<longleftrightarrow> \<not> le_valid e"

definition clean_store :: "sq_entry \<Rightarrow> bool" where
  "clean_store e \<longleftrightarrow> \<not> le_valid e \<and> \<not> se_canWB e \<and> \<not> se_completed e \<and> \<not> se_committed e"

text \<open>Between \<^verbatim>\<open>commitStores\<close> and \<^verbatim>\<open>commitLoads\<close> all but the order of committed stores and loads holds.\<close>

definition lsq_base :: "lsq_unit \<Rightarrow> bool" where
  "lsq_base s \<longleftrightarrow>
     cq_ok (lu_loadQueue s) \<and> cq_ok (lu_storeQueue s) \<and>
     list_all clean_load (cq_rest (lu_loadQueue s)) \<and> list_all clean_store (cq_rest (lu_storeQueue s)) \<and>
     lq_good (lhd s) (lds s) \<and> sq_good (shd s) (sts s) \<and> cross_linked (lhd s) (lds s) (shd s) (sts s) \<and>
     wb_good (shd s) (sts s) (lds s) (lu_storeWBIt s) (lu_isStoreBlocked s) \<and>
     lu_storesToWB s = int (length (filter awaiting (sts s))) \<and>
     stall_good (lhd s) (lds s) (lu_stalled s) (lu_stallingStoreIsn s) (lu_stallingLoadIdx s)"

definition lsq_wf :: "lsq_unit \<Rightarrow> bool" where
  "lsq_wf s \<longleftrightarrow> lsq_base s \<and> committed_older (sts s) (lds s)"

named_theorems wf_parts \<open>the parts of the invariant\<close>

declare lsq_wf_def [wf_parts] lsq_base_def [wf_parts] lq_good_def [wf_parts] sq_good_def [wf_parts] cross_linked_def [wf_parts] wb_good_def [wf_parts]
  committed_older_def [wf_parts] stall_good_def [wf_parts]

lemma base_parts:
  assumes "lsq_base s"
  shows "cq_ok (lu_loadQueue s)" "cq_ok (lu_storeQueue s)" "list_all clean_load (cq_rest (lu_loadQueue s))"
    "list_all clean_store (cq_rest (lu_storeQueue s))" "lq_good (lhd s) (lds s)" "sq_good (shd s) (sts s)"
    "cross_linked (lhd s) (lds s) (shd s) (sts s)" "wb_good (shd s) (sts s) (lds s) (lu_storeWBIt s) (lu_isStoreBlocked s)"
    "lu_storesToWB s = int (length (filter awaiting (sts s)))"
    "stall_good (lhd s) (lds s) (lu_stalled s) (lu_stallingStoreIsn s) (lu_stallingLoadIdx s)"
  using assms by (simp_all add: lsq_base_def)

lemma wf_base: "lsq_wf s \<Longrightarrow> lsq_base s" "lsq_wf s \<Longrightarrow> committed_older (sts s) (lds s)"
  by (simp_all add: lsq_wf_def)

lemmas wf_base_parts = base_parts [OF wf_base(1)]

lemma base_load: "lsq_base s \<Longrightarrow> i < length (lds s) \<Longrightarrow> load_ok (lhd s + i) (lds s ! i)"
  by (simp add: lsq_base_def lq_good_def)

lemma base_store: "lsq_base s \<Longrightarrow> k < length (sts s) \<Longrightarrow> store_ok (shd s + k) (sts s ! k)"
  by (simp add: lsq_base_def sq_good_def)

lemma base_load_inst: "lsq_base s \<Longrightarrow> i < length (lds s) \<Longrightarrow> lq_inst s (lhd s + i) = Inr (ei (lds s ! i))"
  using base_load [of s i] base_parts(1) [of s] by (simp add: lq_inst_eq load_ok_def)

lemma base_store_inst: "lsq_base s \<Longrightarrow> k < length (sts s) \<Longrightarrow> sq_inst s (shd s + k) = Inr (ei (sts s ! k))"
  using base_store [of s k] base_parts(2) [of s] by (simp add: sq_inst_eq store_ok_def)

lemma base_store_get: "lsq_base s \<Longrightarrow> k < length (sts s) \<Longrightarrow> cq_get (lu_storeQueue s) (shd s + k) = Inr (sts s ! k)"
  using base_parts(2) [of s] by (simp add: cq_get_nth)

text \<open>Fields the invariant does not read.\<close>

lemma base_other [simp]:
  "lsq_base (s\<lparr>lu_calls := x1\<rparr>) = lsq_base s" "lsq_base (s\<lparr>lu_stats := x2\<rparr>) = lsq_base s"
  "lsq_base (s\<lparr>lu_memDepViolator := x3\<rparr>) = lsq_base s" "lsq_base (s\<lparr>lu_storeInFlight := x4\<rparr>) = lsq_base s"
  "lsq_base (s\<lparr>lu_htmStarts := x5\<rparr>) = lsq_base s" "lsq_base (s\<lparr>lu_htmStops := x6\<rparr>) = lsq_base s"
  "lsq_base (lu_call c s) = lsq_base s" "lsq_base (lu_count f s) = lsq_base s"
  by (simp_all add: lsq_base_def lu_call_def lu_count_def)

lemma lu_call_fields [simp]: "lu_storeQueue (lu_call c s) = lu_storeQueue s" "lu_loadQueue (lu_call c s) = lu_loadQueue s"
  "lu_storeWBIt (lu_call c s) = lu_storeWBIt s" "lu_isStoreBlocked (lu_call c s) = lu_isStoreBlocked s"
  "lu_storesToWB (lu_call c s) = lu_storesToWB s" "lu_stalled (lu_call c s) = lu_stalled s"
  "lu_stallingStoreIsn (lu_call c s) = lu_stallingStoreIsn s" "lu_stallingLoadIdx (lu_call c s) = lu_stallingLoadIdx s"
  "lu_memDepViolator (lu_call c s) = lu_memDepViolator s" "lu_calls (lu_call c s) = lu_calls s @ [c]"
  "lu_depCheckShift (lu_call c s) = lu_depCheckShift s" "lu_checkLoads (lu_call c s) = lu_checkLoads s"
  "lu_needsTSO (lu_call c s) = lu_needsTSO s"
  by (simp_all add: lu_call_def)

lemma lu_count_fields [simp]: "lu_storeQueue (lu_count f s) = lu_storeQueue s" "lu_loadQueue (lu_count f s) = lu_loadQueue s"
  "lu_storeWBIt (lu_count f s) = lu_storeWBIt s" "lu_isStoreBlocked (lu_count f s) = lu_isStoreBlocked s"
  "lu_storesToWB (lu_count f s) = lu_storesToWB s" "lu_stalled (lu_count f s) = lu_stalled s"
  "lu_stallingStoreIsn (lu_count f s) = lu_stallingStoreIsn s" "lu_stallingLoadIdx (lu_count f s) = lu_stallingLoadIdx s"
  "lu_memDepViolator (lu_count f s) = lu_memDepViolator s" "lu_calls (lu_count f s) = lu_calls s"
  "lu_depCheckShift (lu_count f s) = lu_depCheckShift s" "lu_checkLoads (lu_count f s) = lu_checkLoads s"
  "lu_needsTSO (lu_count f s) = lu_needsTSO s"
  by (simp_all add: lu_count_def)

text \<open>The state of a new unit.\<close>

lemma cq_new_parts: "0 < n \<Longrightarrow> cq_rest (cq_new n x) = replicate n x" "cq_list (cq_new n x) = []" "cq_head (cq_new n x) = 1"
  "0 < n \<Longrightarrow> cq_ok (cq_new n x)"
  by (auto simp: cq_rest_def cq_list_def cq_new_def cq_ok_def intro!: nth_equalityI simp del: upt_Suc)

lemma lsq_new_wf: "0 < lqEntries \<Longrightarrow> 0 < sqEntries \<Longrightarrow> lsq_wf (lsq_new lqEntries sqEntries d c t m cl)"
  by (simp add: lsq_new_def lsq_resetState_def wf_parts cq_new_parts list_all_iff clean_load_def clean_store_def)

section \<open>Changes of one entry\<close>

text \<open>A change of a load that keeps its identity keeps the invariant; so does one of a store that keeps what was written.\<close>

definition same_load :: "lsq_entry \<Rightarrow> lsq_entry \<Rightarrow> bool" where
  "same_load e e' \<longleftrightarrow> le_valid e' = le_valid e \<and> le_inst e' \<noteq> None \<and> sn e' = sn e \<and> li_lqIt (ei e') = li_lqIt (ei e) \<and>
     li_lqIdx (ei e') = li_lqIdx (ei e) \<and> li_sqIt (ei e') = li_sqIt (ei e) \<and> li_isSquashed (ei e') = li_isSquashed (ei e)"

definition same_store :: "sq_entry \<Rightarrow> sq_entry \<Rightarrow> bool" where
  "same_store e e' \<longleftrightarrow> le_valid e' = le_valid e \<and> le_inst e' \<noteq> None \<and> sn e' = sn e \<and> li_lqIt (ei e') = li_lqIt (ei e) \<and>
     li_sqIdx (ei e') = li_sqIdx (ei e) \<and> li_sqIt (ei e') = li_sqIt (ei e) \<and> li_isSquashed (ei e') = li_isSquashed (ei e) \<and>
     li_isLoad (ei e') = li_isLoad (ei e)"

lemma map_sn_update: "i < length es \<Longrightarrow> sn e = sn (es ! i) \<Longrightarrow> map sn (es[i := e]) = map sn es"
  by (simp add: map_update list_update_same_conv)

definition set_load :: "nat \<Rightarrow> lsq_entry \<Rightarrow> lsq_unit \<Rightarrow> lsq_unit" where
  "set_load i e s = s\<lparr>lu_loadQueue := cq_upd (lu_loadQueue s) (lhd s + i) e\<rparr>"

definition set_store :: "nat \<Rightarrow> sq_entry \<Rightarrow> lsq_unit \<Rightarrow> lsq_unit" where
  "set_store k e s = s\<lparr>lu_storeQueue := cq_upd (lu_storeQueue s) (shd s + k) e\<rparr>"

lemma set_load_lists:
  assumes "cq_ok (lu_loadQueue s)" "i < length (lds s)"
  shows "lds (set_load i e s) = (lds s)[i := e]" "lhd (set_load i e s) = lhd s" "sts (set_load i e s) = sts s"
    "shd (set_load i e s) = shd s" "cq_rest (lu_loadQueue (set_load i e s)) = cq_rest (lu_loadQueue s)"
    "cq_ok (lu_loadQueue (set_load i e s))" "lu_storeQueue (set_load i e s) = lu_storeQueue s"
  using assms by (simp_all add: set_load_def cq_list_upd_nth)

lemma set_store_lists:
  assumes "cq_ok (lu_storeQueue s)" "k < length (sts s)"
  shows "sts (set_store k e s) = (sts s)[k := e]" "shd (set_store k e s) = shd s" "lds (set_store k e s) = lds s"
    "lhd (set_store k e s) = lhd s" "cq_rest (lu_storeQueue (set_store k e s)) = cq_rest (lu_storeQueue s)"
    "cq_ok (lu_storeQueue (set_store k e s))" "lu_loadQueue (set_store k e s) = lu_loadQueue s"
  using assms by (simp_all add: set_store_def cq_list_upd_nth)

lemma set_load_fields [simp]: "lu_storeWBIt (set_load i e s) = lu_storeWBIt s" "lu_isStoreBlocked (set_load i e s) = lu_isStoreBlocked s"
  "lu_storesToWB (set_load i e s) = lu_storesToWB s" "lu_stalled (set_load i e s) = lu_stalled s"
  "lu_stallingStoreIsn (set_load i e s) = lu_stallingStoreIsn s" "lu_stallingLoadIdx (set_load i e s) = lu_stallingLoadIdx s"
  "lu_memDepViolator (set_load i e s) = lu_memDepViolator s" "lu_calls (set_load i e s) = lu_calls s"
  "lu_depCheckShift (set_load i e s) = lu_depCheckShift s" "lu_checkLoads (set_load i e s) = lu_checkLoads s"
  "lu_needsTSO (set_load i e s) = lu_needsTSO s" "cq_size (lu_loadQueue (set_load i e s)) = cq_size (lu_loadQueue s)"
  "cq_capacity (lu_loadQueue (set_load i e s)) = cq_capacity (lu_loadQueue s)" "lhd (set_load i e s) = lhd s"
  "lu_storeQueue (set_load i e s) = lu_storeQueue s"
  by (simp_all add: set_load_def)

lemma set_store_fields [simp]: "lu_storeWBIt (set_store i q s) = lu_storeWBIt s" "lu_isStoreBlocked (set_store i q s) = lu_isStoreBlocked s"
  "lu_storesToWB (set_store i q s) = lu_storesToWB s" "lu_stalled (set_store i q s) = lu_stalled s"
  "lu_stallingStoreIsn (set_store i q s) = lu_stallingStoreIsn s" "lu_stallingLoadIdx (set_store i q s) = lu_stallingLoadIdx s"
  "lu_memDepViolator (set_store i q s) = lu_memDepViolator s" "lu_calls (set_store i q s) = lu_calls s"
  "lu_depCheckShift (set_store i q s) = lu_depCheckShift s" "lu_checkLoads (set_store i q s) = lu_checkLoads s"
  "lu_needsTSO (set_store i q s) = lu_needsTSO s" "cq_size (lu_storeQueue (set_store i q s)) = cq_size (lu_storeQueue s)"
  "cq_capacity (lu_storeQueue (set_store i q s)) = cq_capacity (lu_storeQueue s)" "shd (set_store i q s) = shd s"
  "lu_loadQueue (set_store i q s) = lu_loadQueue s"
  by (simp_all add: set_store_def)

lemma lq_modify_set: "cq_ok (lu_loadQueue s) \<Longrightarrow> i < length (lds s) \<Longrightarrow> lq_modify (lhd s + i) f s = Inr (set_load i (f (lds s ! i)) s)"
  by (simp add: lq_modify_eq set_load_def)

lemma sq_modify_set: "cq_ok (lu_storeQueue s) \<Longrightarrow> k < length (sts s) \<Longrightarrow> sq_modify (shd s + k) f s = Inr (set_store k (f (sts s ! k)) s)"
  by (simp add: sq_modify_eq set_store_def)

lemma set_load_base:
  assumes "lsq_base s" "i < length (lds s)" "same_load (lds s ! i) e"
    and "lu_stalled s \<Longrightarrow> lu_stallingLoadIdx s = lhd s + i \<Longrightarrow> \<not> li_isExecuted (ei e)"
  shows "lsq_base (set_load i e s)"
proof -
  note L = set_load_lists [OF base_parts(1) [OF assms(1)] assms(2)]
  have len: "length ((lds s)[i := e]) = length (lds s)" by simp
  have eq: "sn ((lds s)[i := e] ! j) = sn (lds s ! j)" "li_sqIt (ei ((lds s)[i := e] ! j)) = li_sqIt (ei (lds s ! j))" for j
    by (cases "j = i"; use assms(2,3) in \<open>simp add: same_load_def\<close>)+
  have 1: "lq_good (lhd s) ((lds s)[i := e])"
    using base_parts(5) [OF assms(1)] assms(2,3) map_sn_update [of i "lds s" e]
    by (auto simp: lq_good_def nth_list_update same_load_def load_ok_def)
  have 2: "cross_linked (lhd s) ((lds s)[i := e]) (shd s) (sts s)"
    using base_parts(7) [OF assms(1)] unfolding cross_linked_def len eq .
  have 3: "wb_good (shd s) (sts s) ((lds s)[i := e]) (lu_storeWBIt s) (lu_isStoreBlocked s)"
    using base_parts(8) [OF assms(1)] unfolding wb_good_def len eq .
  have ex: "\<not> li_isExecuted (ei ((lds s)[i := e] ! j))"
    if "lu_stalled s" "lu_stallingLoadIdx s = lhd s + j" "\<not> li_isExecuted (ei (lds s ! j))" for j
    using that assms(2,4) by (cases "j = i") auto
  have 4: "stall_good (lhd s) ((lds s)[i := e]) (lu_stalled s) (lu_stallingStoreIsn s) (lu_stallingLoadIdx s)"
    using base_parts(10) [OF assms(1)] ex [of "lu_stallingLoadIdx s - lhd s"] unfolding stall_good_def len eq by simp
  show ?thesis using base_parts [OF assms(1)] 1 2 3 4 by (simp add: lsq_base_def L)
qed

lemma set_load_wf:
  assumes "lsq_wf s" "i < length (lds s)" "same_load (lds s ! i) e"
    and "lu_stalled s \<Longrightarrow> lu_stallingLoadIdx s = lhd s + i \<Longrightarrow> \<not> li_isExecuted (ei e)"
  shows "lsq_wf (set_load i e s)"
proof -
  note L = set_load_lists [OF wf_base_parts(1) [OF assms(1)] assms(2)]
  have eq: "sn ((lds s)[i := e] ! j) = sn (lds s ! j)" for j
    by (cases "j = i"; use assms(2,3) in \<open>simp add: same_load_def\<close>)
  have "committed_older (sts s) ((lds s)[i := e])"
    using wf_base(2) [OF assms(1)] unfolding committed_older_def all_set_conv_all_nth length_list_update eq .
  then show ?thesis using set_load_base [OF wf_base(1) [OF assms(1)] assms(2-4)] by (simp add: lsq_wf_def L)
qed

text \<open>The flags of a store that the write-back reads.\<close>

definition same_flags :: "sq_entry \<Rightarrow> sq_entry \<Rightarrow> bool" where
  "same_flags e e' \<longleftrightarrow> se_canWB e' = se_canWB e \<and> se_completed e' = se_completed e \<and>
     (se_committed e' \<or> li_memData (ei e') \<longrightarrow> se_committed e \<or> li_memData (ei e))"

lemma map_filter_length: "map p xs = map p ys \<Longrightarrow> length (filter p xs) = length (filter p ys)"
proof -
  have "length (filter p zs) = length (filter (\<lambda>b. b) (map p zs))" for zs by (simp add: filter_map comp_def)
  then show "map p xs = map p ys \<Longrightarrow> length (filter p xs) = length (filter p ys)" by (simp only:)
qed

lemma set_store_lists_good:
  assumes "lsq_base s" "k < length (sts s)" "same_store (sts s ! k) e" "le_size e \<noteq> 0 \<longrightarrow> store_written e"
  shows "sq_good (shd s) ((sts s)[k := e])" "cross_linked (lhd s) (lds s) (shd s) ((sts s)[k := e])"
proof -
  have eq: "sn ((sts s)[k := e] ! j) = sn (sts s ! j)" "li_lqIt (ei ((sts s)[k := e] ! j)) = li_lqIt (ei (sts s ! j))" for j
    by (cases "j = k"; use assms(2,3) in \<open>simp add: same_store_def\<close>)+
  show "sq_good (shd s) ((sts s)[k := e])"
    using base_parts(6) [OF assms(1)] assms(2-4) map_sn_update [of k "sts s" e]
    by (auto simp: sq_good_def nth_list_update same_store_def store_ok_def)
  show "cross_linked (lhd s) (lds s) (shd s) ((sts s)[k := e])"
    using base_parts(7) [OF assms(1)] unfolding cross_linked_def length_list_update eq .
qed

lemma set_store_wf:
  assumes "lsq_wf s" "k < length (sts s)" "same_store (sts s ! k) e" "le_size e \<noteq> 0 \<longrightarrow> store_written e"
    "same_flags (sts s ! k) e"
  shows "lsq_wf (set_store k e s)"
proof -
  note B = wf_base(1) [OF assms(1)] and L = set_store_lists [OF wf_base_parts(2) [OF assms(1)] assms(2)]
  have eq: "sn ((sts s)[k := e] ! j) = sn (sts s ! j)" "se_canWB ((sts s)[k := e] ! j) = se_canWB (sts s ! j)"
    "se_completed ((sts s)[k := e] ! j) = se_completed (sts s ! j)" for j
    by (cases "j = k"; use assms(2,3,5) in \<open>simp add: same_store_def same_flags_def\<close>)+
  have cm: "se_committed ((sts s)[k := e] ! j) \<or> li_memData (ei ((sts s)[k := e] ! j)) \<Longrightarrow>
     se_committed (sts s ! j) \<or> li_memData (ei (sts s ! j))" for j
    by (cases "j = k"; use assms(2,5) in \<open>auto simp: same_flags_def\<close>)
  have 1: "wb_good (shd s) ((sts s)[k := e]) (lds s) (lu_storeWBIt s) (lu_isStoreBlocked s)"
    using base_parts(8) [OF B] cm unfolding wb_good_def length_list_update eq by blast
  have "map awaiting ((sts s)[k := e]) = map awaiting (sts s)"
    by (rule nth_equalityI) (simp_all add: awaiting_def eq)
  then have 2: "lu_storesToWB s = int (length (filter awaiting ((sts s)[k := e])))"
    using base_parts(9) [OF B] map_filter_length [of awaiting "(sts s)[k := e]" "sts s"] by simp
  have 3: "committed_older ((sts s)[k := e]) (lds s)"
    using wf_base(2) [OF assms(1)] unfolding committed_older_def all_set_conv_all_nth length_list_update eq .
  show ?thesis
    using base_parts [OF B] set_store_lists_good [OF B assms(2-4)] 1 2 3 by (simp add: lsq_wf_def lsq_base_def L)
qed

end
