(* ===== verification/Lsq_Steps.thy ===== *)
theory Lsq_Steps
  imports Lsq_Invariant
begin

text \<open>
  Every operation of the load/store queue on a well-formed state: the lists it leaves, that it does not fail, and that the
  state is well-formed again.
\<close>

section \<open>Dispatch\<close>

definition newest :: "seqnum \<Rightarrow> lsq_unit \<Rightarrow> bool" where
  "newest x s \<longleftrightarrow> (\<forall>e \<in> set (lds s). sn e < x) \<and> (\<forall>e \<in> set (sts s). sn e < x)"

definition entered_load :: "lsq_inst \<Rightarrow> lsq_unit \<Rightarrow> lsq_entry" where
  "entered_load inst s = (hd (cq_rest (lu_loadQueue s)))
     \<lparr>le_inst := Some (inst\<lparr>li_sqIt := shd s + length (sts s), li_lqIdx := lhd s + length (lds s), li_lqIt := lhd s + length (lds s)\<rparr>),
      le_valid := True, le_size := 0\<rparr>"

definition entered_store :: "lsq_inst \<Rightarrow> lsq_unit \<Rightarrow> sq_entry" where
  "entered_store inst s = (hd (cq_rest (lu_storeQueue s)))
     \<lparr>le_inst := Some (inst\<lparr>li_sqIdx := shd s + length (sts s), li_sqIt := shd s + length (sts s),
                            li_lqIdx := lhd s + length (lds s), li_lqIt := lhd s + length (lds s)\<rparr>),
      le_valid := True, le_size := 0\<rparr>"

lemma cq_append_room:
  assumes "cq_ok q" "cq_size q < cq_capacity q"
  shows "cq_tail (cq_advance_tail q) = cq_head q + cq_size q" "cq_rest q \<noteq> []"
    "cq_back (cq_advance_tail q) = Inr (hd (cq_rest q))"
proof -
  note A = cq_advance_room [OF assms]
  show t: "cq_tail (cq_advance_tail q) = cq_head q + cq_size q" by (simp add: cq_tail_def A(1,2))
  show "cq_rest q \<noteq> []" using assms(2) by (simp add: cq_rest_def)
  show "cq_back (cq_advance_tail q) = Inr (hd (cq_rest q))"
    using cq_get_nth [OF A(4), of "cq_size q"] by (simp add: cq_back_def t A(1,2,5) nth_append)
qed

lemma cq_append:
  assumes "cq_ok q" "cq_size q < cq_capacity q"
  shows "cq_put (cq_advance_tail q) (cq_head q + cq_size q) v = Inr (cq_upd (cq_advance_tail q) (cq_head q + cq_size q) v)"
    "cq_ok (cq_upd (cq_advance_tail q) (cq_head q + cq_size q) v)"
    "cq_list (cq_upd (cq_advance_tail q) (cq_head q + cq_size q) v) = cq_list q @ [v]"
    "cq_rest (cq_upd (cq_advance_tail q) (cq_head q + cq_size q) v) = tl (cq_rest q)"
    "cq_head (cq_upd (cq_advance_tail q) (cq_head q + cq_size q) v) = cq_head q"
proof -
  show "cq_put (cq_advance_tail q) (cq_head q + cq_size q) v = Inr (cq_upd (cq_advance_tail q) (cq_head q + cq_size q) v)"
    by (rule cq_put_upd [OF cq_advance_room(4) [OF assms]])
qed (simp_all add: cq_list_upd_nth [OF cq_advance_room(4) [OF assms], of "cq_size q", unfolded cq_advance_room(1,2) [OF assms]]
  cq_advance_room [OF assms] list_update_append)

lemma insertLoad_lists:
  assumes "lsq_base s" "length (lds s) < cq_capacity (lu_loadQueue s)"
  shows "\<exists>s'. lsq_insertLoad inst s = Inr s' \<and> lds s' = lds s @ [entered_load inst s] \<and> lhd s' = lhd s \<and>
    lu_storeQueue s' = lu_storeQueue s \<and> cq_ok (lu_loadQueue s') \<and> cq_rest (lu_loadQueue s') = tl (cq_rest (lu_loadQueue s)) \<and>
    lu_storeWBIt s' = lu_storeWBIt s \<and> lu_isStoreBlocked s' = lu_isStoreBlocked s \<and> lu_storesToWB s' = lu_storesToWB s \<and>
    lu_stalled s' = lu_stalled s \<and> lu_stallingStoreIsn s' = lu_stallingStoreIsn s \<and> lu_stallingLoadIdx s' = lu_stallingLoadIdx s \<and>
    lu_memDepViolator s' = lu_memDepViolator s \<and> lu_calls s' = lu_calls s \<and> lu_depCheckShift s' = lu_depCheckShift s \<and>
    lu_checkLoads s' = lu_checkLoads s"
proof -
  let ?q = "lu_loadQueue s"
  have q: "cq_ok ?q" "cq_size ?q < cq_capacity ?q" using assms base_parts(1) by auto
  note A = cq_append_room [OF q] cq_append [OF q, of "entered_load inst s"]
  have clean: "\<not> le_valid (hd (cq_rest ?q))"
    using base_parts(3) [OF assms(1)] A(2) by (cases "cq_rest ?q") (auto simp: clean_load_def)
  have pos: "0 < lhd s + length (lds s)" using q(1) by (simp add: cq_ok_def)
  have "le_set (inst\<lparr>li_sqIt := shd s + length (sts s), li_lqIdx := lhd s + length (lds s), li_lqIt := lhd s + length (lds s)\<rparr>)
      (hd (cq_rest ?q)) = Inr (entered_load inst s)"
    using clean by (simp add: le_set_def entered_load_def)
  then show ?thesis
    using q A clean pos cq_end_eq [OF base_parts(2) [OF assms(1)]]
    by (simp add: lsq_insertLoad_def cq_full_def Let_def)
qed

lemma insertStore_lists:
  assumes "lsq_base s" "length (sts s) < cq_capacity (lu_storeQueue s)"
  shows "\<exists>s'. lsq_insertStore inst s = Inr s' \<and> sts s' = sts s @ [entered_store inst s] \<and> shd s' = shd s \<and>
    lu_loadQueue s' = lu_loadQueue s \<and> cq_ok (lu_storeQueue s') \<and> cq_rest (lu_storeQueue s') = tl (cq_rest (lu_storeQueue s)) \<and>
    lu_storeWBIt s' = lu_storeWBIt s \<and> lu_isStoreBlocked s' = lu_isStoreBlocked s \<and> lu_storesToWB s' = lu_storesToWB s \<and>
    lu_stalled s' = lu_stalled s \<and> lu_stallingStoreIsn s' = lu_stallingStoreIsn s \<and> lu_stallingLoadIdx s' = lu_stallingLoadIdx s \<and>
    lu_memDepViolator s' = lu_memDepViolator s \<and> lu_calls s' = lu_calls s \<and> lu_depCheckShift s' = lu_depCheckShift s \<and>
    lu_checkLoads s' = lu_checkLoads s"
proof -
  let ?q = "lu_storeQueue s"
  have q: "cq_ok ?q" "cq_size ?q < cq_capacity ?q" using assms base_parts(2) by auto
  note A = cq_append_room [OF q] cq_append [OF q, of "entered_store inst s"]
  have clean: "\<not> le_valid (hd (cq_rest ?q))"
    using base_parts(4) [OF assms(1)] A(2) by (cases "cq_rest ?q") (auto simp: clean_store_def)
  have tl: "cq_tail (lu_loadQueue s) + 1 = lhd s + length (lds s)" "cq_end (lu_loadQueue s) = lhd s + length (lds s)"
    "0 < lhd s + length (lds s)"
    using base_parts(1) [OF assms(1)] by (simp_all add: cq_tail_def cq_end_def cq_ok_def)
  have "le_set (inst\<lparr>li_sqIdx := shd s + length (sts s), li_sqIt := shd s + length (sts s),
      li_lqIdx := lhd s + length (lds s), li_lqIt := lhd s + length (lds s)\<rparr>) (hd (cq_rest ?q)) = Inr (entered_store inst s)"
    using clean by (simp add: le_set_def entered_store_def)
  then show ?thesis
    using q A clean tl by (simp add: lsq_insertStore_def cq_full_def Let_def)
qed

lemma sorted_snoc: "sorted_wrt (<) (map sn es) \<Longrightarrow> \<forall>e \<in> set es. sn e < sn x \<Longrightarrow> sorted_wrt (<) (map sn (es @ [x]))"
  by (simp add: sorted_wrt_append)

lemma list_all_tl: "list_all P xs \<Longrightarrow> list_all P (tl xs)"
  by (cases xs) auto

lemma insertLoad_wf:
  assumes "lsq_wf s" "length (lds s) < cq_capacity (lu_loadQueue s)" "newest (li_seqNum inst) s" "\<not> li_isSquashed inst"
    "lsq_insertLoad inst s = Inr s'"
  shows "lsq_wf s'"
proof -
  note B = wf_base(1) [OF assms(1)] and P = wf_base_parts [OF assms(1)]
  obtain L: "lds s' = lds s @ [entered_load inst s]" "lhd s' = lhd s" "lu_storeQueue s' = lu_storeQueue s" "cq_ok (lu_loadQueue s')"
      "cq_rest (lu_loadQueue s') = tl (cq_rest (lu_loadQueue s))"
      "lu_storeWBIt s' = lu_storeWBIt s" "lu_isStoreBlocked s' = lu_isStoreBlocked s" "lu_storesToWB s' = lu_storesToWB s"
      "lu_stalled s' = lu_stalled s" "lu_stallingStoreIsn s' = lu_stallingStoreIsn s" "lu_stallingLoadIdx s' = lu_stallingLoadIdx s"
    using insertLoad_lists [OF B assms(2), of inst] assms(5) by auto
  let ?e = "entered_load inst s"
  have e: "sn ?e = li_seqNum inst" "li_sqIt (ei ?e) = shd s + length (sts s)" "load_ok (lhd s + length (lds s)) ?e"
    using assms(4) by (simp_all add: entered_load_def ei_def load_ok_def)
  have 1: "lq_good (lhd s) (lds s @ [?e])"
    using P(5) e assms(3) sorted_snoc [of "lds s" ?e] by (auto simp: lq_good_def nth_append less_Suc_eq newest_def)
  have 2: "cross_linked (lhd s) (lds s @ [?e]) (shd s) (sts s)"
    using P(7) e(1,2) assms(3) by (auto simp: cross_linked_def nth_append less_Suc_eq newest_def)
  have 3: "wb_good (shd s) (sts s) (lds s @ [?e]) (lu_storeWBIt s) (lu_isStoreBlocked s)"
    using P(8) e(2) by (auto simp: wb_good_def nth_append less_Suc_eq)
  have 4: "stall_good (lhd s) (lds s @ [?e]) (lu_stalled s) (lu_stallingStoreIsn s) (lu_stallingLoadIdx s)"
    using P(10) by (auto simp: stall_good_def nth_append)
  have 5: "committed_older (sts s) (lds s @ [?e])"
    using wf_base(2) [OF assms(1)] e(1) assms(3) by (auto simp: committed_older_def newest_def)
  show ?thesis using P 1 2 3 4 5 L by (simp add: lsq_wf_def lsq_base_def list_all_tl)
qed

lemma insertStore_wf:
  assumes "lsq_wf s" "length (sts s) < cq_capacity (lu_storeQueue s)" "newest (li_seqNum inst) s" "\<not> li_isSquashed inst"
    "\<not> li_isLoad inst" "\<not> li_memData inst" "lsq_insertStore inst s = Inr s'"
  shows "lsq_wf s'"
proof -
  note B = wf_base(1) [OF assms(1)] and P = wf_base_parts [OF assms(1)]
  obtain L: "sts s' = sts s @ [entered_store inst s]" "shd s' = shd s" "lu_loadQueue s' = lu_loadQueue s" "cq_ok (lu_storeQueue s')"
      "cq_rest (lu_storeQueue s') = tl (cq_rest (lu_storeQueue s))"
      "lu_storeWBIt s' = lu_storeWBIt s" "lu_isStoreBlocked s' = lu_isStoreBlocked s" "lu_storesToWB s' = lu_storesToWB s"
      "lu_stalled s' = lu_stalled s" "lu_stallingStoreIsn s' = lu_stallingStoreIsn s" "lu_stallingLoadIdx s' = lu_stallingLoadIdx s"
    using insertStore_lists [OF B assms(2), of inst] assms(7) by auto
  let ?e = "entered_store inst s"
  have "cq_rest (lu_storeQueue s) \<noteq> []" using assms(2) by (simp add: cq_rest_def)
  then have clean: "clean_store (hd (cq_rest (lu_storeQueue s)))" using P(4) by (cases "cq_rest (lu_storeQueue s)") auto
  have e: "sn ?e = li_seqNum inst" "li_lqIt (ei ?e) = lhd s + length (lds s)" "store_ok (shd s + length (sts s)) ?e"
    "\<not> se_canWB ?e" "\<not> se_completed ?e" "\<not> se_committed ?e" "\<not> li_memData (ei ?e)"
    using assms(4-6) clean by (simp_all add: entered_store_def ei_def store_ok_def clean_store_def)
  have 1: "sq_good (shd s) (sts s @ [?e])"
    using P(6) e assms(3) sorted_snoc [of "sts s" ?e] by (auto simp: sq_good_def nth_append less_Suc_eq newest_def)
  have "\<not> sn ?e < sn (lds s ! i)" if "i < length (lds s)" for i
  proof -
    have "sn (lds s ! i) < li_seqNum inst" using that assms(3) by (simp add: newest_def)
    then show ?thesis by (simp add: e(1))
  qed
  then have 2: "cross_linked (lhd s) (lds s) (shd s) (sts s @ [?e])"
    using P(7) e(2) by (fastforce simp: cross_linked_def nth_append less_Suc_eq)
  have 3: "wb_good (shd s) (sts s @ [?e]) (lds s) (lu_storeWBIt s) (lu_isStoreBlocked s)"
    using P(8) e(4-7) by (auto simp: wb_good_def nth_append less_Suc_eq)
  have 4: "committed_older (sts s @ [?e]) (lds s)"
    using wf_base(2) [OF assms(1)] e(4) by (auto simp: committed_older_def)
  show ?thesis using P 1 2 3 4 L e(4) by (simp add: lsq_wf_def lsq_base_def list_all_tl awaiting_def)
qed

section \<open>Commit\<close>

definition commit_mark :: "seqnum \<Rightarrow> sq_entry \<Rightarrow> sq_entry" where
  "commit_mark y e = (if sn e \<le> y then e\<lparr>se_canWB := True\<rparr> else e)"

lemma filter_update_count:
  assumes "k < length xs" "\<not> p (xs ! k)" "p x"
  shows "length (filter p (xs[k := x])) = Suc (length (filter p xs))"
proof -
  have "filter p (xs[k := x]) = filter p (take k xs) @ x # filter p (drop (Suc k) xs)"
    using assms(1,3) by (simp add: upd_conv_take_nth_drop)
  moreover have "filter p xs = filter p (take k xs) @ filter p (drop (Suc k) xs)"
    using assms(1,2) by (subst id_take_nth_drop [OF assms(1)]) simp
  ultimately show ?thesis by simp
qed

lemma filter_update_uncount:
  assumes "k < length xs" "p (xs ! k)" "\<not> p x"
  shows "Suc (length (filter p (xs[k := x]))) = length (filter p xs)"
  using filter_update_count [of k "xs[k := x]" p "xs ! k"] assms by simp

lemma entry_flags [simp]: "ei (e\<lparr>se_canWB := x\<rparr>) = ei e" "ei (e\<lparr>se_completed := x\<rparr>) = ei e" "ei (e\<lparr>se_committed := x\<rparr>) = ei e"
  "store_written (e\<lparr>se_canWB := x\<rparr>) = store_written e" "store_written (e\<lparr>se_completed := x\<rparr>) = store_written e"
  "store_written (e\<lparr>se_committed := x\<rparr>) = store_written e"
  by (simp_all add: ei_def store_written_def split: option.splits)

definition set_canWB :: "nat \<Rightarrow> lsq_unit \<Rightarrow> lsq_unit" where
  "set_canWB k s = (set_store k ((sts s ! k)\<lparr>se_canWB := True\<rparr>) s)\<lparr>lu_storesToWB := lu_storesToWB s + 1\<rparr>"

lemma set_canWB_base:
  assumes "lsq_base s" "k < length (sts s)" "\<not> se_canWB (sts s ! k)"
  shows "lsq_base (set_canWB k s)"
proof -
  let ?e = "(sts s ! k)\<lparr>se_canWB := True\<rparr>"
  note P = base_parts [OF assms(1)] and L = set_store_lists [OF base_parts(2) [OF assms(1)] assms(2)]
  have ok: "store_ok (shd s + k) (sts s ! k)" by (rule base_store [OF assms(1,2)])
  have same: "same_store (sts s ! k) ?e" "le_size ?e \<noteq> 0 \<longrightarrow> store_written ?e"
    using ok by (auto simp: same_store_def store_ok_def)
  have eq: "se_completed ((sts s)[k := ?e] ! j) = se_completed (sts s ! j)"
     "se_committed ((sts s)[k := ?e] ! j) = se_committed (sts s ! j)"
     "li_memData (ei ((sts s)[k := ?e] ! j)) = li_memData (ei (sts s ! j))" for j
    using assms(2) by (cases "j = k"; simp)+
  have cw: "se_canWB (sts s ! j) \<Longrightarrow> se_canWB ((sts s)[k := ?e] ! j)" for j
    using assms(2) by (cases "j = k") auto
  have 1: "wb_good (shd s) ((sts s)[k := ?e]) (lds s) (lu_storeWBIt s) (lu_isStoreBlocked s)"
    using P(8) cw unfolding wb_good_def length_list_update eq by blast
  have "\<not> se_completed (sts s ! k)" using P(8) assms(2,3) by (auto simp: wb_good_def)
  then have 2: "lu_storesToWB s + 1 = int (length (filter awaiting ((sts s)[k := ?e])))"
    using P(9) assms(2,3) by (simp add: filter_update_count awaiting_def)
  show ?thesis
    using P set_store_lists_good [OF assms(1,2) same] 1 2 by (simp add: set_canWB_def lsq_base_def L)
qed

text \<open>What an operation on the queues leaves alone; it may add calls.\<close>

definition aux_same :: "lsq_unit \<Rightarrow> lsq_unit \<Rightarrow> bool" where
  "aux_same s s' \<longleftrightarrow> lu_storeWBIt s' = lu_storeWBIt s \<and> lu_isStoreBlocked s' = lu_isStoreBlocked s \<and>
     lu_depCheckShift s' = lu_depCheckShift s \<and> lu_checkLoads s' = lu_checkLoads s \<and> lu_needsTSO s' = lu_needsTSO s \<and>
     set (lu_calls s) \<subseteq> set (lu_calls s')"

lemma aux_same_refl [simp]: "aux_same s s"
  by (simp add: aux_same_def)

lemma aux_same_trans: "aux_same s t \<Longrightarrow> aux_same t u \<Longrightarrow> aux_same s u"
  by (auto simp: aux_same_def)

lemma commit_mark_same: "se_canWB e \<Longrightarrow> commit_mark y e = e"
  by (simp add: commit_mark_def)

lemma commitStores_loop_lists:
  assumes "lsq_base s" "a \<le> length (sts s)"
  shows "\<exists>s'. lsq_commitStores_loop y [shd s + a ..< shd s + length (sts s)] s = Inr s' \<and> lsq_base s' \<and>
    sts s' = take a (sts s) @ map (commit_mark y) (drop a (sts s)) \<and> shd s' = shd s \<and> lu_loadQueue s' = lu_loadQueue s \<and>
    aux_same s s' \<and> lu_memDepViolator s' = lu_memDepViolator s \<and> lu_stalled s' = lu_stalled s \<and>
    lu_stallingLoadIdx s' = lu_stallingLoadIdx s"
  using assms
proof (induction "length (sts s) - a" arbitrary: a s)
  case 0
  then show ?case by simp
next
  case (Suc n)
  let ?e = "sts s ! a"
  from Suc.hyps(2) have a: "a < length (sts s)" by simp
  have cons: "[shd s + a ..< shd s + cq_size (lu_storeQueue s)] = (shd s + a) # [shd s + Suc a ..< shd s + cq_size (lu_storeQueue s)]"
    using a by (simp add: upt_conv_Cons)
  have get: "cq_get (lu_storeQueue s) (shd s + a) = Inr ?e" "le_valid ?e" "le_instruction ?e = Inr (ei ?e)"
    using base_store_get [OF Suc.prems(1) a] base_store [OF Suc.prems(1) a] by (simp_all add: store_ok_def le_instruction_some)
  have split: "drop a (sts s) = ?e # drop (Suc a) (sts s)" "take (Suc a) (sts s) = take a (sts s) @ [?e]"
    using a by (simp_all add: Cons_nth_drop_Suc take_Suc_conv_app_nth)
  consider "se_canWB ?e" | "\<not> se_canWB ?e" "y < sn ?e" | "\<not> se_canWB ?e" "sn ?e \<le> y" by fastforce
  then show ?case
  proof cases
    case 1
    have "n = length (sts s) - Suc a" using Suc.hyps(2) by simp
    from Suc.hyps(1) [OF this Suc.prems(1)] a 1 show ?thesis
      by (simp add: cons get split commit_mark_same)
  next
    case 2
    have "commit_mark y (sts s ! j) = sts s ! j" if "a \<le> j" "j < length (sts s)" for j
    proof -
      have "sn ?e \<le> sn (sts s ! j)"
        using that base_parts(6) [OF Suc.prems(1)] sorted_sn [of "sts s" a j]
        by (cases "a = j") (auto simp: sq_good_def)
      with 2(2) show ?thesis by (simp add: commit_mark_def)
    qed
    then have "map (commit_mark y) (drop a (sts s)) = drop a (sts s)" by (intro nth_equalityI) simp_all
    then show ?thesis using 2 Suc.prems(1) by (simp add: cons get)
  next
    case 3
    let ?t = "set_canWB a s"
    note L = set_store_lists [OF base_parts(2) [OF Suc.prems(1)] a]
    have t: "sts ?t = (sts s)[a := commit_mark y ?e]" "shd ?t = shd s" "lu_loadQueue ?t = lu_loadQueue s" "aux_same s ?t"
      "lu_memDepViolator ?t = lu_memDepViolator s" "lu_stalled ?t = lu_stalled s" "lu_stallingLoadIdx ?t = lu_stallingLoadIdx s"
      using 3(2) by (simp_all add: set_canWB_def L commit_mark_def aux_same_def)
    have "n = length (sts ?t) - Suc a" "Suc a \<le> length (sts ?t)" using Suc.hyps(2) a t(1) by simp_all
    from Suc.hyps(1) [OF this(1) set_canWB_base [OF Suc.prems(1) a 3(1)] this(2)]
    obtain s' where s': "lsq_commitStores_loop y [shd ?t + Suc a ..< shd ?t + length (sts ?t)] ?t = Inr s'" "lsq_base s'"
      "sts s' = take (Suc a) (sts ?t) @ map (commit_mark y) (drop (Suc a) (sts ?t))" "shd s' = shd ?t"
      "lu_loadQueue s' = lu_loadQueue ?t" "aux_same ?t s'" "lu_memDepViolator s' = lu_memDepViolator ?t"
      "lu_stalled s' = lu_stalled ?t" "lu_stallingLoadIdx s' = lu_stallingLoadIdx ?t" by blast
    have "lsq_commitStores_loop y [shd s + a ..< shd s + length (sts s)] s = Inr s'"
      using s'(1) 3 sq_modify_set [OF base_parts(2) [OF Suc.prems(1)] a] t(1,2)
      by (simp add: cons get set_canWB_def not_less)
    moreover have "sts s' = take a (sts s) @ map (commit_mark y) (drop a (sts s))"
      using s'(3) a t(1) by (simp add: split take_Suc_conv_app_nth)
    ultimately show ?thesis
      using s' t aux_same_trans [OF t(4) s'(6)] by simp
  qed
qed

lemma commitStores_lists:
  assumes "lsq_base s"
  shows "\<exists>s'. lsq_commitStores y s = Inr s' \<and> lsq_base s' \<and>
    sts s' = map (commit_mark y) (sts s) \<and> shd s' = shd s \<and> lu_loadQueue s' = lu_loadQueue s \<and>
    aux_same s s' \<and> lu_memDepViolator s' = lu_memDepViolator s \<and> lu_stalled s' = lu_stalled s \<and>
    lu_stallingLoadIdx s' = lu_stallingLoadIdx s"
proof -
  have "cq_size (lu_storeQueue s) = 0 \<or> rbind (cq_front (lu_storeQueue s)) (\<lambda>e. check (le_valid e) Assertion) = Inr ()"
    using base_store_get [OF assms, of 0] base_store [OF assms, of 0]
    by (cases "cq_size (lu_storeQueue s) = 0") (auto simp: cq_front_def store_ok_def)
  then show ?thesis
    using commitStores_loop_lists [OF assms, of 0 y] cq_end_eq [OF base_parts(2) [OF assms]]
    by (auto simp: lsq_commitStores_def)
qed

lemma update_ends: "tl (xs[0 := v]) = tl xs" "xs \<noteq> [] \<Longrightarrow> hd (xs[0 := v]) = v"
  by (cases xs; simp; fail)+

lemma update_last: "butlast (xs[length xs - 1 := v]) = butlast xs" "xs \<noteq> [] \<Longrightarrow> last (xs[length xs - 1 := v]) = v"
  by (simp_all add: butlast_list_update last_list_update)

definition drop_load :: "lsq_unit \<Rightarrow> lsq_unit" where
  "drop_load s = s\<lparr>lu_loadQueue := cq_drop_front (cq_upd (lu_loadQueue s) (lhd s) (le_clear (lds s ! 0)))\<rparr>"

lemma drop_load_lists:
  assumes "cq_ok (lu_loadQueue s)" "lds s \<noteq> []"
  shows "lds (drop_load s) = tl (lds s)" "lhd (drop_load s) = Suc (lhd s)" "cq_ok (lu_loadQueue (drop_load s))"
    "cq_rest (lu_loadQueue (drop_load s)) = cq_rest (lu_loadQueue s) @ [le_clear (lds s ! 0)]"
proof -
  have n: "0 < cq_size (lu_loadQueue s)" using assms(2) by (simp flip: cq_list_length)
  note U = cq_list_upd_nth [OF assms(1) n, of "le_clear (lds s ! 0)", unfolded add_0_right]
  show "lds (drop_load s) = tl (lds s)" "lhd (drop_load s) = Suc (lhd s)" "cq_ok (lu_loadQueue (drop_load s))"
    using n assms(1) by (simp_all add: drop_load_def cq_drop_list U update_ends)
  show "cq_rest (lu_loadQueue (drop_load s)) = cq_rest (lu_loadQueue s) @ [le_clear (lds s ! 0)]"
    using n assms by (simp add: drop_load_def cq_drop_rest U update_ends)
qed

lemma drop_load_fields [simp]: "lu_storeQueue (drop_load s) = lu_storeQueue s" "lu_storeWBIt (drop_load s) = lu_storeWBIt s"
  "lu_isStoreBlocked (drop_load s) = lu_isStoreBlocked s" "lu_storesToWB (drop_load s) = lu_storesToWB s"
  "lu_stalled (drop_load s) = lu_stalled s" "lu_stallingStoreIsn (drop_load s) = lu_stallingStoreIsn s"
  "lu_stallingLoadIdx (drop_load s) = lu_stallingLoadIdx s" "lu_memDepViolator (drop_load s) = lu_memDepViolator s"
  "aux_same s (drop_load s)"
  by (simp_all add: drop_load_def aux_same_def)

lemma commitLoad_eq:
  assumes "lsq_base s" "lds s \<noteq> []"
  shows "lsq_commitLoad s = Inr (drop_load s)"
proof -
  have n: "0 < cq_size (lu_loadQueue s)" using assms(2) by (simp flip: cq_list_length)
  have "load_ok (lhd s) (lds s ! 0)" using base_load [OF assms(1), of 0] n by simp
  then show ?thesis
    using cq_get_nth [OF base_parts(1) [OF assms(1)] n] cq_modify_eq [OF base_parts(1) [OF assms(1)] n]
    by (simp add: lsq_commitLoad_def cq_front_def Let_def load_ok_def le_instruction_some cq_pop_drop n drop_load_def)
qed

lemma drop_load_base:
  assumes "lsq_base s" "lds s \<noteq> []" "\<not> (lu_stalled s \<and> lu_stallingLoadIdx s = lhd s)"
  shows "lsq_base (drop_load s)"
proof -
  note P = base_parts [OF assms(1)] and L = drop_load_lists [OF base_parts(1) [OF assms(1)] assms(2)]
  obtain x xs where xs: "lds s = x # xs" using assms(2) by (cases "lds s") auto
  have 1: "lq_good (Suc (lhd s)) xs"
    using P(5) unfolding lq_good_def xs by (auto dest: spec [where x = "Suc k" for k])
  have 2: "cross_linked (Suc (lhd s)) xs (shd s) (sts s)"
    using P(7) unfolding cross_linked_def xs by (auto dest: spec [where x = "Suc k" for k])
  have 3: "wb_good (shd s) (sts s) xs (lu_storeWBIt s) (lu_isStoreBlocked s)"
    using P(8) unfolding wb_good_def xs by (auto dest: spec [where x = "Suc k" for k])
  have 4: "stall_good (Suc (lhd s)) xs (lu_stalled s) (lu_stallingStoreIsn s) (lu_stallingLoadIdx s)"
    using P(10) assms(3) unfolding stall_good_def xs
    by (auto simp: Suc_diff_le nth_Cons' Suc_le_eq le_neq_implies_less)
  show ?thesis using P 1 2 3 4 L xs by (simp add: lsq_base_def clean_load_def le_clear_def)
qed

lemma commitLoads_loop_lists:
  assumes "lsq_base s" "length (lds s) \<le> n"
    "\<And>i. i < length (lds s) \<Longrightarrow> sn (lds s ! i) \<le> y \<Longrightarrow> li_isExecuted (ei (lds s ! i))"
  shows "\<exists>s'. lsq_commitLoads_loop n y s = Inr s' \<and> lsq_base s' \<and>
    lds s' = dropWhile (\<lambda>e. sn e \<le> y) (lds s) \<and> lhd s' = lhd s + length (takeWhile (\<lambda>e. sn e \<le> y) (lds s)) \<and>
    lu_storeQueue s' = lu_storeQueue s \<and> aux_same s s' \<and> lu_memDepViolator s' = lu_memDepViolator s"
  using assms
proof (induction n arbitrary: s)
  case 0
  then show ?case by (subst lsq_commitLoads_loop.simps) (simp flip: cq_list_length)
next
  case (Suc n)
  show ?case
  proof (cases "lds s = [] \<or> y < sn (lds s ! 0)")
    case True
    have "lds s \<noteq> [] \<Longrightarrow> lq_inst s (lhd s) = Inr (ei (lds s ! 0))"
      using base_load_inst [OF Suc.prems(1), of 0] by (simp flip: cq_list_length)
    with True show ?thesis
      using Suc.prems(1) by (subst lsq_commitLoads_loop.simps) (cases "lds s"; auto simp flip: cq_list_length)
  next
    case False
    then obtain x xs where xs: "lds s = x # xs" "sn x \<le> y" by (cases "lds s") auto
    have inst: "lq_inst s (lhd s) = Inr (ei x)" "cq_size (lu_loadQueue s) \<noteq> 0"
      using base_load_inst [OF Suc.prems(1), of 0] xs(1) by (simp_all flip: cq_list_length)
    have "li_isExecuted (ei x)" using Suc.prems(3) [of 0] xs by simp
    then have ns: "\<not> (lu_stalled s \<and> lu_stallingLoadIdx s = lhd s)"
      using base_parts(10) [OF Suc.prems(1)] xs(1) by (auto simp: stall_good_def)
    let ?t = "drop_load s"
    note L = drop_load_lists [OF base_parts(1) [OF Suc.prems(1)], unfolded xs(1)]
    have t: "lsq_base ?t" "lds ?t = xs" "lhd ?t = Suc (lhd s)" using drop_load_base [OF Suc.prems(1) _ ns] L xs(1) by simp_all
    have "length (lds ?t) \<le> n" using Suc.prems(2) xs(1) unfolding t(2) by simp
    moreover have "li_isExecuted (ei (lds ?t ! i))" if "i < length (lds ?t)" "sn (lds ?t ! i) \<le> y" for i
      using Suc.prems(3) [of "Suc i"] that xs(1) unfolding t(2) by simp
    ultimately obtain s' where s': "lsq_commitLoads_loop n y ?t = Inr s'" "lsq_base s'" "lds s' = dropWhile (\<lambda>e. sn e \<le> y) xs"
      "lhd s' = Suc (lhd s) + length (takeWhile (\<lambda>e. sn e \<le> y) xs)" "lu_storeQueue s' = lu_storeQueue s" "aux_same ?t s'"
      "lu_memDepViolator s' = lu_memDepViolator s"
      using Suc.IH [OF t(1)] t(2,3) by auto
    have "lsq_commitLoads_loop (Suc n) y s = Inr s'"
      by (subst lsq_commitLoads_loop.simps) (use inst xs s'(1) commitLoad_eq [OF Suc.prems(1)] in simp)
    then show ?thesis using s' xs aux_same_trans [OF drop_load_fields(9) s'(6)] by simp
  qed
qed

lemma commitLoads_lists:
  assumes "lsq_base s" "\<And>i. i < length (lds s) \<Longrightarrow> sn (lds s ! i) \<le> y \<Longrightarrow> li_isExecuted (ei (lds s ! i))"
  shows "\<exists>s'. lsq_commitLoads y s = Inr s' \<and> lsq_base s' \<and>
    lds s' = dropWhile (\<lambda>e. sn e \<le> y) (lds s) \<and> lhd s' = lhd s + length (takeWhile (\<lambda>e. sn e \<le> y) (lds s)) \<and>
    lu_storeQueue s' = lu_storeQueue s \<and> aux_same s s' \<and> lu_memDepViolator s' = lu_memDepViolator s"
proof -
  have "cq_size (lu_loadQueue s) = 0 \<or> rbind (cq_front (lu_loadQueue s)) (\<lambda>e. check (le_valid e) Assertion) = Inr ()"
    using cq_get_nth [OF base_parts(1) [OF assms(1)], of 0] base_load [OF assms(1), of 0]
    by (cases "cq_size (lu_loadQueue s) = 0") (auto simp: cq_front_def load_ok_def)
  then have "lsq_commitLoads y s = lsq_commitLoads_loop (cq_size (lu_loadQueue s)) y s" by (auto simp: lsq_commitLoads_def)
  then show ?thesis
    using commitLoads_loop_lists [OF assms(1), of "cq_size (lu_loadQueue s)" y] assms(2) by simp
qed

section \<open>Squash\<close>

lemma clean_clear [simp]: "clean_load (le_clear x)" "clean_store (se_clear e)"
  by (simp_all add: clean_load_def clean_store_def le_clear_def se_clear_def)

definition kept :: "seqnum \<Rightarrow> 'z lsq_entry_scheme list \<Rightarrow> 'z lsq_entry_scheme list" where
  "kept q es = takeWhile (\<lambda>e. sn e \<le> q) es"

lemma kept_snoc: "q < sn x \<Longrightarrow> kept q (es @ [x]) = kept q es"
  by (induction es) (auto simp: kept_def)

lemma kept_all:
  assumes "sorted_wrt (<) (map sn (es @ [x]))" "sn x \<le> q"
  shows "kept q (es @ [x]) = es @ [x]"
  using assms by (auto simp: kept_def takeWhile_eq_all_conv sorted_wrt_append intro: order.trans less_imp_le)

lemma cq_pop_last:
  assumes "cq_ok q" "cq_list q = es @ [x]"
  shows "cq_tail q = cq_head q + length es" "0 < cq_size q" "cq_get q (cq_head q + length es) = Inr x"
    "cq_modify (cq_head q + length es) f q = Inr (cq_upd q (cq_head q + length es) (f x))"
    "cq_pop_back (cq_upd q (cq_head q + length es) v) = Inr (cq_drop_back (cq_upd q (cq_head q + length es) v))"
    "cq_list (cq_drop_back (cq_upd q (cq_head q + length es) v)) = es"
    "cq_rest (cq_drop_back (cq_upd q (cq_head q + length es) v)) = v # cq_rest q"
proof -
  have sz: "cq_size q = Suc (length es)" using arg_cong [OF assms(2), of length] by simp
  then have k: "length es < cq_size q" by simp
  note U = cq_list_upd_nth [OF assms(1) k]
  show "cq_tail q = cq_head q + length es" "0 < cq_size q" by (simp_all add: cq_tail_def sz)
  show "cq_get q (cq_head q + length es) = Inr x" using cq_get_nth [OF assms(1) k] assms(2) by simp
  show "cq_modify (cq_head q + length es) f q = Inr (cq_upd q (cq_head q + length es) (f x))"
    using cq_modify_eq [OF assms(1) k] assms(2) by simp
  show "cq_pop_back (cq_upd q (cq_head q + length es) v) = Inr (cq_drop_back (cq_upd q (cq_head q + length es) v))"
    using sz by (intro cq_pop_drop(2)) simp
  show "cq_list (cq_drop_back (cq_upd q (cq_head q + length es) v)) = es"
    using sz by (simp add: cq_drop_list(2) U(1) assms(2))
  show "cq_rest (cq_drop_back (cq_upd q (cq_head q + length es) v)) = v # cq_rest q"
    using sz assms(1) by (simp add: cq_drop_rest(2) U assms(2))
qed

text \<open>The three fields of a stall; squashing the stalled load resets them.\<close>

abbreviation stall_of :: "lsq_unit \<Rightarrow> bool \<times> seqnum \<times> nat" where
  "stall_of s \<equiv> (lu_stalled s, lu_stallingStoreIsn s, lu_stallingLoadIdx s)"

lemma squash_load_lists:
  assumes "cq_ok (lu_loadQueue s)" "lds s = es @ [x]" "le_inst x \<noteq> None"
  shows "\<exists>s'. lsq_squash_load s = Inr s' \<and> cq_ok (lu_loadQueue s') \<and> lds s' = es \<and> lhd s' = lhd s \<and>
    cq_rest (lu_loadQueue s') = le_clear x # cq_rest (lu_loadQueue s) \<and> lu_storeQueue s' = lu_storeQueue s \<and> aux_same s s' \<and>
    lu_storesToWB s' = lu_storesToWB s \<and> lu_memDepViolator s' = lu_memDepViolator s \<and>
    stall_of s' = (if lu_stalled s \<and> lu_stallingLoadIdx s = lhd s + length es then (False, 0, 0) else stall_of s)"
proof -
  note A = cq_pop_last [OF assms(1,2)]
  have "lq_inst s (lhd s + length es) = Inr (ei x)"
    using A(3) assms(3) by (simp add: lq_inst_def le_instruction_some)
  then show ?thesis
    using assms(1) by (simp add: lsq_squash_load_def Let_def A aux_same_def subset_insertI)
qed

lemma squash_loads_lists:
  assumes "cq_ok (lu_loadQueue s)" "\<forall>e \<in> set (lds s). le_inst e \<noteq> None" "sorted_wrt (<) (map sn (lds s))" "length (lds s) \<le> n"
    "list_all clean_load (cq_rest (lu_loadQueue s))" "lu_stalled s \<longrightarrow> lu_stallingLoadIdx s < lhd s + length (lds s)"
  shows "\<exists>s'. lsq_squash_loads n q s = Inr s' \<and> cq_ok (lu_loadQueue s') \<and> lds s' = kept q (lds s) \<and> lhd s' = lhd s \<and>
    list_all clean_load (cq_rest (lu_loadQueue s')) \<and> lu_storeQueue s' = lu_storeQueue s \<and> aux_same s s' \<and>
    lu_storesToWB s' = lu_storesToWB s \<and> lu_memDepViolator s' = lu_memDepViolator s \<and>
    stall_of s' = (if lu_stalled s \<and> lhd s + length (kept q (lds s)) \<le> lu_stallingLoadIdx s then (False, 0, 0) else stall_of s)"
  using assms
proof (induction n arbitrary: s)
  case 0
  then have "lds s = []" by (simp flip: cq_list_length)
  then show ?case using 0 by (subst lsq_squash_loads.simps) (auto simp: kept_def simp flip: cq_list_length)
next
  case (Suc n)
  show ?case
  proof (cases "lds s" rule: rev_cases)
    case Nil
    then show ?thesis using Suc.prems by (subst lsq_squash_loads.simps) (auto simp: kept_def simp flip: cq_list_length)
  next
    case (snoc es x)
    note A = cq_pop_last [OF Suc.prems(1) snoc]
    have x: "le_inst x \<noteq> None" using Suc.prems(2) snoc by simp
    have inst: "lq_inst s (cq_tail (lu_loadQueue s)) = Inr (ei x)" "cq_size (lu_loadQueue s) \<noteq> 0"
      using A(1-3) x by (simp_all add: lq_inst_def le_instruction_some)
    show ?thesis
    proof (cases "sn x \<le> q")
      case True
      then show ?thesis
        using inst Suc.prems kept_all [of es x q] snoc leD [OF True]
        by (subst lsq_squash_loads.simps) (simp add: linorder_not_le flip: cq_list_length)
    next
      case False
      from squash_load_lists [OF Suc.prems(1) snoc x] obtain t where t: "lsq_squash_load s = Inr t" "cq_ok (lu_loadQueue t)"
        "lds t = es" "lhd t = lhd s" "cq_rest (lu_loadQueue t) = le_clear x # cq_rest (lu_loadQueue s)"
        "lu_storeQueue t = lu_storeQueue s" "aux_same s t" "lu_storesToWB t = lu_storesToWB s"
        "lu_memDepViolator t = lu_memDepViolator s"
        "stall_of t = (if lu_stalled s \<and> lu_stallingLoadIdx s = lhd s + length es then (False, 0, 0) else stall_of s)" by blast
      have "\<forall>e \<in> set (lds t). le_inst e \<noteq> None" "sorted_wrt (<) (map sn (lds t))" "length (lds t) \<le> n"
        "list_all clean_load (cq_rest (lu_loadQueue t))" "lu_stalled t \<longrightarrow> lu_stallingLoadIdx t < lhd t + length (lds t)"
        unfolding t(3,4,5) using Suc.prems(2-6) t(10) snoc
        by (auto simp: sorted_wrt_append split: if_splits simp flip: cq_list_length)
      from Suc.IH [OF t(2) this] obtain s' where s': "lsq_squash_loads n q t = Inr s'" "cq_ok (lu_loadQueue s')"
        "lds s' = kept q es" "lhd s' = lhd s" "list_all clean_load (cq_rest (lu_loadQueue s'))"
        "lu_storeQueue s' = lu_storeQueue s" "aux_same t s'" "lu_storesToWB s' = lu_storesToWB s"
        "lu_memDepViolator s' = lu_memDepViolator s"
        "stall_of s' = (if lu_stalled t \<and> lhd s + length (kept q es) \<le> lu_stallingLoadIdx t then (False, 0, 0) else stall_of t)"
        unfolding t(3,4,6,8,9) by blast
      have "lsq_squash_loads (Suc n) q s = Inr s'"
        using False s'(1) t(1) inst by (subst lsq_squash_loads.simps) (simp add: not_le)
      moreover have "kept q (lds s) = kept q es" using False kept_snoc [of q x es] snoc by (simp add: not_le)
      moreover have "length (kept q es) \<le> length es" by (simp add: kept_def length_takeWhile_le)
      then have "stall_of s' = (if lu_stalled s \<and> lhd s + length (kept q es) \<le> lu_stallingLoadIdx s then (False, 0, 0) else stall_of s)"
        using s'(10) t(10) by (auto split: if_splits)
      ultimately show ?thesis using s'(2-9) aux_same_trans [OF t(7) s'(7)] by simp
    qed
  qed
qed

lemma squash_store_lists:
  assumes "cq_ok (lu_storeQueue s)" "sts s = es @ [x]" "le_inst x \<noteq> None" "\<not> (lu_stalled s \<and> sn x = lu_stallingStoreIsn s)"
  shows "\<exists>s'. lsq_squash_store s = Inr s' \<and> cq_ok (lu_storeQueue s') \<and> sts s' = es \<and> shd s' = shd s \<and>
    cq_rest (lu_storeQueue s') = se_clear x # cq_rest (lu_storeQueue s) \<and> lu_loadQueue s' = lu_loadQueue s \<and> aux_same s s' \<and>
    lu_storesToWB s' = lu_storesToWB s \<and> lu_memDepViolator s' = lu_memDepViolator s \<and> lu_stalled s' = lu_stalled s \<and>
    lu_stallingStoreIsn s' = lu_stallingStoreIsn s \<and> lu_stallingLoadIdx s' = lu_stallingLoadIdx s"
proof -
  note A = cq_pop_last [OF assms(1,2)]
  have "sq_inst s (shd s + length es) = Inr (ei x)"
    using A(3) assms(3) by (simp add: sq_inst_def le_instruction_some)
  then show ?thesis
    using assms(1,4) by (simp add: lsq_squash_store_def Let_def A aux_same_def subset_insertI)
qed

lemma squash_stores_lists:
  assumes "cq_ok (lu_storeQueue s)" "\<forall>e \<in> set (sts s). le_inst e \<noteq> None" "sorted_wrt (<) (map sn (sts s))" "length (sts s) \<le> n"
    "list_all clean_store (cq_rest (lu_storeQueue s))" "lu_stalled s \<longrightarrow> lu_stallingStoreIsn s \<le> q"
    "\<forall>e \<in> set (sts s). se_canWB e \<longrightarrow> sn e \<le> q"
  shows "\<exists>s'. lsq_squash_stores n q s = Inr s' \<and> cq_ok (lu_storeQueue s') \<and> sts s' = kept q (sts s) \<and> shd s' = shd s \<and>
    list_all clean_store (cq_rest (lu_storeQueue s')) \<and> lu_loadQueue s' = lu_loadQueue s \<and> aux_same s s' \<and>
    lu_storesToWB s' = lu_storesToWB s \<and> lu_memDepViolator s' = lu_memDepViolator s \<and> lu_stalled s' = lu_stalled s \<and>
    lu_stallingStoreIsn s' = lu_stallingStoreIsn s \<and> lu_stallingLoadIdx s' = lu_stallingLoadIdx s"
  using assms
proof (induction n arbitrary: s)
  case 0
  then have "sts s = []" by (simp flip: cq_list_length)
  then show ?case using 0 by (subst lsq_squash_stores.simps) (simp add: kept_def flip: cq_list_length)
next
  case (Suc n)
  show ?case
  proof (cases "sts s" rule: rev_cases)
    case Nil
    then show ?thesis using Suc.prems by (subst lsq_squash_stores.simps) (simp add: kept_def flip: cq_list_length)
  next
    case (snoc es x)
    note A = cq_pop_last [OF Suc.prems(1) snoc]
    have x: "le_inst x \<noteq> None" using Suc.prems(2) snoc by simp
    have inst: "cq_back (lu_storeQueue s) = Inr x" "le_instruction x = Inr (ei x)" "cq_size (lu_storeQueue s) \<noteq> 0"
      using A(1-3) x by (simp_all add: cq_back_def le_instruction_some)
    show ?thesis
    proof (cases "sn x \<le> q")
      case True
      then show ?thesis
        using inst Suc.prems kept_all [of es x q] snoc leD [OF True]
        by (subst lsq_squash_stores.simps) (simp flip: cq_list_length)
    next
      case False
      then have canWB: "\<not> se_canWB x" and ns: "\<not> (lu_stalled s \<and> sn x = lu_stallingStoreIsn s)"
        using Suc.prems(6,7) snoc by auto
      from squash_store_lists [OF Suc.prems(1) snoc x ns] obtain t where t: "lsq_squash_store s = Inr t" "cq_ok (lu_storeQueue t)"
        "sts t = es" "shd t = shd s" "cq_rest (lu_storeQueue t) = se_clear x # cq_rest (lu_storeQueue s)"
        "lu_loadQueue t = lu_loadQueue s" "aux_same s t" "lu_storesToWB t = lu_storesToWB s"
        "lu_memDepViolator t = lu_memDepViolator s" "lu_stalled t = lu_stalled s"
        "lu_stallingStoreIsn t = lu_stallingStoreIsn s" "lu_stallingLoadIdx t = lu_stallingLoadIdx s" by blast
      have "\<forall>e \<in> set (sts t). le_inst e \<noteq> None" "sorted_wrt (<) (map sn (sts t))" "length (sts t) \<le> n"
        "list_all clean_store (cq_rest (lu_storeQueue t))" "lu_stalled t \<longrightarrow> lu_stallingStoreIsn t \<le> q"
        "\<forall>e \<in> set (sts t). se_canWB e \<longrightarrow> sn e \<le> q"
        unfolding t(3,4,5,10,11) using Suc.prems(2-7) snoc
        by (auto simp: sorted_wrt_append simp flip: cq_list_length)
      from Suc.IH [OF t(2) this] obtain s' where s': "lsq_squash_stores n q t = Inr s'" "cq_ok (lu_storeQueue s')"
        "sts s' = kept q es" "shd s' = shd s" "list_all clean_store (cq_rest (lu_storeQueue s'))"
        "lu_loadQueue s' = lu_loadQueue s" "aux_same t s'" "lu_storesToWB s' = lu_storesToWB s"
        "lu_memDepViolator s' = lu_memDepViolator s" "lu_stalled s' = lu_stalled s"
        "lu_stallingStoreIsn s' = lu_stallingStoreIsn s" "lu_stallingLoadIdx s' = lu_stallingLoadIdx s"
        unfolding t(3,4,6,8,9,10,11,12) by blast
      have "lsq_squash_stores (Suc n) q s = Inr s'"
        using False canWB s'(1) t(1) inst by (subst lsq_squash_stores.simps) (simp add: not_le)
      moreover have "kept q (sts s) = kept q es" using False kept_snoc [of q x es] snoc by (simp add: not_le)
      ultimately show ?thesis using s' aux_same_trans [OF t(7) s'(7)] by simp
    qed
  qed
qed

lemma kept_take: "kept q es = take (length (kept q es)) es" "length (kept q es) \<le> length es"
  by (simp_all add: kept_def takeWhile_eq_take [symmetric] length_takeWhile_le)

lemma kept_sorted: "sorted_wrt (<) (map sn es) \<Longrightarrow> sorted_wrt (<) (map sn (kept q es))"
  by (subst kept_take(1)) (simp add: sorted_wrt_take flip: take_map)

lemma kept_nth: "i < length (kept q es) \<Longrightarrow> kept q es ! i = es ! i \<and> sn (es ! i) \<le> q"
  unfolding kept_def by (metis nth_mem set_takeWhileD takeWhile_nth)

lemma kept_next: "length (kept q es) < length es \<Longrightarrow> q < sn (es ! length (kept q es))"
  unfolding kept_def using nth_length_takeWhile [of "\<lambda>e. sn e \<le> q" es] by simp

lemma kept_iff:
  assumes "sorted_wrt (<) (map sn es)" "i < length es"
  shows "i < length (kept q es) \<longleftrightarrow> sn (es ! i) \<le> q"
proof
  assume le: "sn (es ! i) \<le> q"
  show "i < length (kept q es)"
  proof (rule ccontr)
    assume "\<not> i < length (kept q es)"
    then have k: "length (kept q es) \<le> i" "length (kept q es) < length es" using assms(2) by simp_all
    have "sn (es ! length (kept q es)) \<le> sn (es ! i)"
      using k sorted_sn [OF assms(1), of "length (kept q es)" i] assms(2) by (cases "length (kept q es) = i") auto
    with kept_next [OF k(2)] le show False by simp
  qed
qed (use kept_nth in blast)

lemma filter_prefix:
  assumes "\<And>i. n \<le> i \<Longrightarrow> i < length xs \<Longrightarrow> \<not> p (xs ! i)"
  shows "filter p (take n xs) = filter p xs"
proof -
  have "filter p (drop n xs) = []" using assms by (auto simp: filter_empty_conv in_set_conv_nth)
  then have "filter p (take n xs @ drop n xs) = filter p (take n xs)" by (simp only: filter_append append_Nil2)
  then show ?thesis by simp
qed

lemma kept_structure:
  assumes "lsq_base s" "\<forall>e \<in> set (sts s). se_canWB e \<longrightarrow> sn e \<le> q"
  shows "lq_good (lhd s) (kept q (lds s))" "sq_good (shd s) (kept q (sts s))"
    "cross_linked (lhd s) (kept q (lds s)) (shd s) (kept q (sts s))"
    "wb_good (shd s) (kept q (sts s)) (kept q (lds s)) (lu_storeWBIt s) (lu_isStoreBlocked s)"
    "length (filter awaiting (kept q (sts s))) = length (filter awaiting (sts s))"
proof -
  note P = base_parts [OF assms(1)]
  let ?n = "length (kept q (lds s))" and ?m = "length (kept q (sts s))"
  have srt: "sorted_wrt (<) (map sn (lds s))" "sorted_wrt (<) (map sn (sts s))"
    using P(5,6) by (simp_all add: lq_good_def sq_good_def)
  have nm: "?n \<le> length (lds s)" "?m \<le> length (sts s)" by (rule kept_take(2))+
  have L: "kept q (lds s) ! i = lds s ! i" "sn (lds s ! i) \<le> q" "i < length (lds s)" if "i < ?n" for i
    using kept_nth [OF that] that nm(1) by auto
  have S: "kept q (sts s) ! i = sts s ! i" "sn (sts s ! i) \<le> q" "i < length (sts s)" if "i < ?m" for i
    using kept_nth [OF that] that nm(2) by auto
  show "lq_good (lhd s) (kept q (lds s))" "sq_good (shd s) (kept q (sts s))"
    using P(5,6) L S by (auto simp: lq_good_def sq_good_def kept_sorted)
  have sq: "li_sqIt (ei (lds s ! i)) \<le> shd s + ?m" if i: "i < ?n" for i
  proof (rule ccontr)
    assume c: "\<not> ?thesis"
    then have m: "?m < length (sts s)" using P(7) L(3) [OF i] nm(2) by (fastforce simp: cross_linked_def)
    then have "sn (sts s ! ?m) < sn (lds s ! i)" using c cross_linkedD(1) [OF P(7) L(3) [OF i] m] by linarith
    then show False using kept_next [OF m] L(2) [OF i] by simp
  qed
  have lq: "li_lqIt (ei (sts s ! k)) \<le> lhd s + ?n" if k: "k < ?m" for k
  proof (rule ccontr)
    assume c: "\<not> ?thesis"
    then have n: "?n < length (lds s)" using P(7) S(3) [OF k] nm(1) by (fastforce simp: cross_linked_def)
    then have "\<not> sn (sts s ! k) < sn (lds s ! ?n)" using c cross_linkedD(2) [OF P(7) n S(3) [OF k]] by simp
    then show False using kept_next [OF n] S(2) [OF k] by simp
  qed
  show "cross_linked (lhd s) (kept q (lds s)) (shd s) (kept q (sts s))"
    using P(7) L S sq lq by (simp add: cross_linked_def)
  have canWB: "k < ?m" if "k < length (sts s)" "se_canWB (sts s ! k)" for k
    using assms(2) that kept_iff [OF srt(2)] by simp
  have wb: "lu_storeWBIt s \<le> shd s + ?m"
  proof (rule ccontr)
    assume c: "\<not> ?thesis"
    then have m: "?m < length (sts s)" using P(8) by (simp add: wb_good_def)
    then have "se_canWB (sts s ! ?m)" using c P(8) by (simp add: wb_good_def)
    with canWB [OF m] show False by simp
  qed
  have blk: "lu_storeWBIt s < shd s + ?m \<and> se_canWB (kept q (sts s) ! (lu_storeWBIt s - shd s))" if "lu_isStoreBlocked s"
  proof -
    from that P(8) have b: "shd s \<le> lu_storeWBIt s" "lu_storeWBIt s - shd s < length (sts s)" "se_canWB (sts s ! (lu_storeWBIt s - shd s))"
      by (auto simp: wb_good_def)
    with canWB [OF b(2,3)] S(1) show ?thesis by auto
  qed
  show "wb_good (shd s) (kept q (sts s)) (kept q (lds s)) (lu_storeWBIt s) (lu_isStoreBlocked s)"
    using P(8) L S wb blk unfolding wb_good_def by simp blast
  show "length (filter awaiting (kept q (sts s))) = length (filter awaiting (sts s))"
    using filter_prefix [of ?m "sts s" awaiting] canWB kept_take(1) [of q "sts s"] by (fastforce simp: awaiting_def)
qed

text \<open>
  A squash never reaches the panic on a stalled store: the load that stalled on it is younger, so it has left before and
  taken the stall with it.
\<close>

lemma squash_lists:
  assumes "lsq_wf s" "\<forall>e \<in> set (sts s). se_canWB e \<longrightarrow> sn e \<le> q"
  shows "\<exists>s'. lsq_squash q s = Inr s' \<and> lsq_wf s' \<and> lds s' = kept q (lds s) \<and> sts s' = kept q (sts s) \<and>
    lhd s' = lhd s \<and> shd s' = shd s \<and> aux_same s s' \<and>
    lu_memDepViolator s' = (case lu_memDepViolator s of None \<Rightarrow> None | Some v \<Rightarrow> if q < v then None else Some v) \<and>
    stall_of s' = (if lu_stalled s \<and> lhd s + length (kept q (lds s)) \<le> lu_stallingLoadIdx s then (False, 0, 0) else stall_of s)"
proof -
  note P = wf_base_parts [OF assms(1)] and K = kept_structure [OF wf_base(1) [OF assms(1)] assms(2)]
  have "\<forall>e \<in> set (lds s). le_inst e \<noteq> None" "sorted_wrt (<) (map sn (lds s))"
    "lu_stalled s \<longrightarrow> lu_stallingLoadIdx s < lhd s + length (lds s)"
    using P(5,10) by (auto simp: lq_good_def load_ok_def stall_good_def all_set_conv_all_nth)
  from squash_loads_lists [OF P(1) this(1,2) order_refl P(3) this(3), of q] obtain t where
    t: "lsq_squash_loads (length (lds s)) q s = Inr t" "cq_ok (lu_loadQueue t)" "lds t = kept q (lds s)" "lhd t = lhd s"
      "list_all clean_load (cq_rest (lu_loadQueue t))" "lu_storeQueue t = lu_storeQueue s" "aux_same s t"
      "lu_storesToWB t = lu_storesToWB s" "lu_memDepViolator t = lu_memDepViolator s"
      "stall_of t = (if lu_stalled s \<and> lhd s + length (kept q (lds s)) \<le> lu_stallingLoadIdx s then (False, 0, 0) else stall_of s)"
    by blast
  define v where "v = (case lu_memDepViolator s of None \<Rightarrow> None | Some v \<Rightarrow> if q < v then None else Some v)"
  define u where "u = t\<lparr>lu_memDepViolator := v\<rparr>"
  have u: "(case lu_memDepViolator t of Some v \<Rightarrow> if q < v then t\<lparr>lu_memDepViolator := None\<rparr> else t | None \<Rightarrow> t) = u"
    using t(9) by (auto simp: u_def v_def split: option.splits)
  have stall: "stall_good (lhd s) (kept q (lds s)) (lu_stalled t) (lu_stallingStoreIsn t) (lu_stallingLoadIdx t)"
    using P(10) t(10) kept_nth [of "lu_stallingLoadIdx s - lhd s" q "lds s"] by (auto simp: stall_good_def split: if_splits)
  have "lu_stalled u \<longrightarrow> lu_stallingStoreIsn u \<le> q"
    using stall kept_nth [of "lu_stallingLoadIdx t - lhd s" q "lds s"] by (auto simp: stall_good_def u_def intro: less_imp_le [OF less_le_trans])
  moreover have "cq_ok (lu_storeQueue u)" "\<forall>e \<in> set (sts u). le_inst e \<noteq> None" "sorted_wrt (<) (map sn (sts u))"
    "length (sts u) \<le> length (sts u)" "list_all clean_store (cq_rest (lu_storeQueue u))" "\<forall>e \<in> set (sts u). se_canWB e \<longrightarrow> sn e \<le> q"
    using P(2,4,6) assms(2) t(6) by (auto simp: u_def sq_good_def store_ok_def all_set_conv_all_nth)
  ultimately obtain s' where s': "lsq_squash_stores (length (sts u)) q u = Inr s'" "cq_ok (lu_storeQueue s')"
      "sts s' = kept q (sts u)" "shd s' = shd u" "list_all clean_store (cq_rest (lu_storeQueue s'))"
      "lu_loadQueue s' = lu_loadQueue u" "aux_same u s'" "lu_storesToWB s' = lu_storesToWB u"
      "lu_memDepViolator s' = lu_memDepViolator u" "lu_stalled s' = lu_stalled u"
      "lu_stallingStoreIsn s' = lu_stallingStoreIsn u" "lu_stallingLoadIdx s' = lu_stallingLoadIdx u"
    using squash_stores_lists [of u "length (sts u)" q] by blast
  have fields: "sts u = sts s" "shd u = shd s" "lu_loadQueue u = lu_loadQueue t" "lu_storesToWB u = lu_storesToWB s"
      "lu_stalled u = lu_stalled t" "lu_stallingStoreIsn u = lu_stallingStoreIsn t" "lu_stallingLoadIdx u = lu_stallingLoadIdx t"
    using t(6,8) by (simp_all add: u_def)
  have aux: "aux_same s s'" using t(7) s'(7) by (auto simp: aux_same_def u_def)
  have "committed_older (kept q (sts s)) (kept q (lds s))"
    using wf_base(2) [OF assms(1)] by (auto simp: committed_older_def kept_def dest!: set_takeWhileD)
  then have "lsq_wf s'"
    using s'(2,3,4,5,6,8,10,11,12) fields t(2-5) K stall P(9) aux by (simp add: lsq_wf_def lsq_base_def aux_same_def)
  moreover have "lsq_squash q s = Inr s'"
    using t(1) s'(1) u by (simp add: lsq_squash_def Let_def)
  moreover have "stall_of s' = stall_of t" using s'(10-12) fields(5-7) by simp
  ultimately show ?thesis using s' fields t(3,4,10) aux by (simp add: u_def v_def)
qed

end
