(* ===== verification/Lsq_Exec.thy ===== *)
theory Lsq_Exec
  imports Lsq_Steps
begin

text \<open>
  Execution of loads and stores on a well-formed load/store queue: what a load finds in the store queue and what an
  executing store reports, with the state each leaves.
\<close>

section \<open>Sequences of changes of one load\<close>

lemma cq_upd_twice: "cq_upd (cq_upd q i a) i b = cq_upd q i b"
  by (simp add: cq_upd_def)

lemma set_load_norm [simp]: "set_load i e (lu_call c s) = lu_call c (set_load i e s)"
  "set_load i e (lu_count f s) = lu_count f (set_load i e s)" "set_load i e (set_load i e' s) = set_load i e s"
  "set_load i e (s\<lparr>lu_stalled := b, lu_stallingStoreIsn := n, lu_stallingLoadIdx := x\<rparr>) =
     (set_load i e s)\<lparr>lu_stalled := b, lu_stallingStoreIsn := n, lu_stallingLoadIdx := x\<rparr>"
  by (simp_all add: set_load_def lu_call_def lu_count_def cq_upd_twice)

lemma set_load_ok [simp]: "cq_ok (lu_loadQueue (set_load i e s)) = cq_ok (lu_loadQueue s)"
  by (simp add: set_load_def)

lemma lq_modify_at: "cq_ok (lu_loadQueue s) \<Longrightarrow> lhd s = h \<Longrightarrow> i < cq_size (lu_loadQueue s) \<Longrightarrow>
    lq_modify (h + i) f s = Inr (set_load i (f (lds s ! i)) s)"
  using lq_modify_set [of s i f] by simp

lemma lq_inst_at: "cq_ok (lu_loadQueue s) \<Longrightarrow> lhd s = h \<Longrightarrow> i < cq_size (lu_loadQueue s) \<Longrightarrow> le_inst (lds s ! i) \<noteq> None \<Longrightarrow>
    lq_inst s (h + i) = Inr (ei (lds s ! i))"
  using lq_inst_eq [of s i] by simp

lemma lds_set_load: "cq_ok (lu_loadQueue s) \<Longrightarrow> i < cq_size (lu_loadQueue s) \<Longrightarrow> lds (set_load i e s) = (lds s)[i := e]"
  using set_load_lists(1) [of s i e] by simp

lemma ei_inst [simp]: "le_inst e \<noteq> None \<Longrightarrow> ei (on_inst f e) = f (ei e)"
  by (rule ei_on_inst)

lemma ei_request [simp]: "ei (e\<lparr>le_request := r\<rparr>) = ei e"
  by (simp add: ei_def)

section \<open>Reads\<close>

definition rescheduled :: "lsq_entry \<Rightarrow> lsq_entry" where
  "rescheduled e = (on_inst (\<lambda>i. i\<lparr>li_isIssued := False, li_effAddrValid := False\<rparr>) e)\<lparr>le_request := None\<rparr>"

definition count_rescheduled :: "lsq_unit \<Rightarrow> lsq_unit" where
  "count_rescheduled = lu_count (\<lambda>c. c\<lparr>lc_rescheduledLoads := lc_rescheduledLoads c + 1\<rparr>)"

lemma reschedule_eq:
  assumes "cq_ok (lu_loadQueue s)" "lhd s = h" "l < cq_size (lu_loadQueue s)" "le_inst (lds s ! l) \<noteq> None"
  shows "lsq_reschedule (h + l) s =
    Inr (count_rescheduled (lu_call (RescheduleMemInst (sn (lds s ! l))) (set_load l (rescheduled (lds s ! l)) s)))"
  using assms by (simp add: lsq_reschedule_def lq_inst_at lq_modify_at lds_set_load rescheduled_def Let_def count_rescheduled_def)

lemma access_eq:
  assumes "cq_ok (lu_loadQueue s)" "lhd s = h" "l < cq_size (lu_loadQueue s)" "le_inst (lds s ! l) \<noteq> None"
  shows "\<exists>s'. lsq_access r sent (h + l) s = Inr (NoFault, s') \<and>
    (s' = lu_call (SendRead (sn (lds s ! l))) (set_load l (on_inst (\<lambda>i. i\<lparr>li_memData := True\<rparr>) (lds s ! l)) s) \<or>
     s' = lu_call (BlockMemInst (sn (lds s ! l))) (lu_call (SendRead (sn (lds s ! l)))
            (set_load l (on_inst (\<lambda>i. i\<lparr>li_memData := True\<rparr>) (lds s ! l)) s)))"
  using assms by (simp add: lsq_access_def lq_inst_at lq_modify_at lds_set_load Let_def)

definition forwarded :: "seqnum \<Rightarrow> bool \<Rightarrow> lsq_entry \<Rightarrow> lsq_entry" where
  "forwarded n out e = (let e' = on_inst (\<lambda>i. i\<lparr>li_memData := True, li_forwardedFrom := n\<rparr>) e in
     if out then e'\<lparr>le_request := None\<rparr> else e')"

lemma forward_eq:
  assumes "cq_ok (lu_loadQueue s)" "lhd s = h" "l < cq_size (lu_loadQueue s)" "le_inst (lds s ! l) \<noteq> None"
    "\<not> rq_isHTMCmd r" "lsq_forward_bytes r i e = Inr bytes"
  shows "lsq_forward r out (h + l) i e s =
    Inr (NoFault, lu_count (\<lambda>c. c\<lparr>lc_forwLoads := lc_forwLoads c + 1\<rparr>)
       (lu_call (WritebackEvent (sn (lds s ! l)) bytes) (set_load l (forwarded (li_seqNum i) out (lds s ! l)) s)))"
  using assms by (simp add: lsq_forward_def lq_inst_at lq_modify_at lds_set_load forwarded_def Let_def)

lemma stall_eq:
  assumes "cq_ok (lu_loadQueue s)" "lhd s = h" "l < cq_size (lu_loadQueue s)" "le_inst (lds s ! l) \<noteq> None" "\<not> se_completed e"
    "lu_stalled s \<Longrightarrow> lq_inst s (lu_stallingLoadIdx s) = Inr x"
  shows "\<exists>b n idx. lsq_stall (h + l) i e s =
      Inr (NoFault, count_rescheduled (lu_call (RescheduleMemInst (sn (lds s ! l)))
        ((set_load l (rescheduled (lds s ! l)) s)\<lparr>lu_stalled := b, lu_stallingStoreIsn := n, lu_stallingLoadIdx := idx\<rparr>))) \<and>
    (b = lu_stalled s \<and> n = lu_stallingStoreIsn s \<and> idx = lu_stallingLoadIdx s \<or> b \<and> n = li_seqNum i \<and> idx = h + l)"
proof -
  define t where "t = (\<lambda>b n idx. s\<lparr>lu_stalled := b, lu_stallingStoreIsn := n, lu_stallingLoadIdx := idx\<rparr>)"
  have s: "s = t (lu_stalled s) (lu_stallingStoreIsn s) (lu_stallingLoadIdx s)" by (simp add: t_def)
  have re: "lsq_reschedule (h + l) (t b n idx) = Inr (count_rescheduled (lu_call (RescheduleMemInst (sn (lds s ! l)))
        ((set_load l (rescheduled (lds s ! l)) s)\<lparr>lu_stalled := b, lu_stallingStoreIsn := n, lu_stallingLoadIdx := idx\<rparr>)))" for b n idx
    using reschedule_eq [of "t b n idx" h l] assms(1-4) by (simp add: t_def)
  obtain go where go: "(if \<not> lu_stalled s then Inr True
            else rbind (lq_inst s (lu_stallingLoadIdx s)) (\<lambda>j. Inr (sn (lds s ! l) < li_seqNum j))) = Inr go"
    using assms(6) by (cases "lu_stalled s") auto
  have "lsq_stall (h + l) i e s =
    rbind (lsq_reschedule (h + l) (if go then t True (li_seqNum i) (h + l) else s)) (\<lambda>s. Inr (NoFault, s))"
    using assms(1-5) go by (simp add: lsq_stall_def lq_inst_at t_def Let_def)
  then show ?thesis
    using re [of True "li_seqNum i" "h + l"] re [of "lu_stalled s" "lu_stallingStoreIsn s" "lu_stallingLoadIdx s", folded s]
    by (cases go) auto
qed

lemma wf_other [simp]: "lsq_wf (lu_call c s) = lsq_wf s" "lsq_wf (lu_count f s) = lsq_wf s" "lsq_wf (count_rescheduled s) = lsq_wf s"
  "lsq_wf (s\<lparr>lu_memDepViolator := v\<rparr>) = lsq_wf s" "lsq_wf (s\<lparr>lu_storeInFlight := b\<rparr>) = lsq_wf s"
  by (simp_all add: lsq_wf_def count_rescheduled_def)

lemma wf_stall:
  assumes "lsq_wf s" "stall_good (lhd s) (lds s) b n idx"
  shows "lsq_wf (s\<lparr>lu_stalled := b, lu_stallingStoreIsn := n, lu_stallingLoadIdx := idx\<rparr>)"
  using assms by (simp add: lsq_wf_def lsq_base_def)

text \<open>The stores a load scans, as positions in the queue.\<close>

definition scanned :: "lsq_unit \<Rightarrow> nat \<Rightarrow> nat list" where
  "scanned s l = [lu_storeWBIt s - shd s ..< li_sqIt (ei (lds s ! l)) - shd s]"

definition supplier :: "lsq_request \<Rightarrow> lsq_unit \<Rightarrow> nat \<Rightarrow> nat option" where
  "supplier r s l = find (\<lambda>k. suppliers r (sts s ! k)) (rev (scanned s l))"

text \<open>The bytes of a load that lies inside a store.\<close>

definition bytes_from :: "lsq_request \<Rightarrow> sq_entry \<Rightarrow> u8 list" where
  "bytes_from r e = map (\<lambda>j. store_byte e (unat (rq_vaddr r) + j)) [0 ..< unat (rq_size r)]"

definition quiet :: "lsq_unit \<Rightarrow> lsq_unit \<Rightarrow> bool" where
  "quiet s s' \<longleftrightarrow> lsq_wf s' \<and> lu_storeQueue s' = lu_storeQueue s \<and> lhd s' = lhd s \<and> aux_same s s' \<and>
     lu_memDepViolator s' = lu_memDepViolator s"

definition read_outcome :: "lsq_request \<Rightarrow> nat \<Rightarrow> lsq_unit \<Rightarrow> fault \<Rightarrow> lsq_unit \<Rightarrow> bool" where
  "read_outcome r l s f s' \<longleftrightarrow>
     (\<exists>e'. lds s' = (lds s)[l := e'] \<and> le_valid e' \<and> le_inst e' \<noteq> None \<and>
       (ei e' = (ei (lds s ! l))\<lparr>li_isIssued := False, li_effAddrValid := False\<rparr> \<or>
        f = NoFault \<and> supplier r s l = None \<and> ei e' = (ei (lds s ! l))\<lparr>li_memData := True\<rparr> \<or>
        f = NoFault \<and> (\<exists>k. supplier r s l = Some k \<and> can_forward r (sts s ! k) \<and>
          ei e' = (ei (lds s ! l))\<lparr>li_memData := True, li_forwardedFrom := sn (sts s ! k)\<rparr> \<and>
          WritebackEvent (sn (lds s ! l)) (bytes_from r (sts s ! k)) \<in> set (lu_calls s'))))"

lemma scanned_mem:
  assumes "lsq_wf s" "l < length (lds s)" "k \<in> set (scanned s l)"
  shows "k < length (sts s)" "sn (sts s ! k) < sn (lds s ! l)" "lu_storeWBIt s \<le> shd s + k" "\<not> se_completed (sts s ! k)"
proof -
  note P = wf_base_parts [OF assms(1)]
  have b: "lu_storeWBIt s - shd s \<le> k" "k < li_sqIt (ei (lds s ! l)) - shd s" using assms(3) by (simp_all add: scanned_def)
  have "li_sqIt (ei (lds s ! l)) \<le> shd s + length (sts s)" using P(7) assms(2) by (simp add: cross_linked_def)
  with b show k: "k < length (sts s)" by simp
  show "sn (sts s ! k) < sn (lds s ! l)" using cross_linkedD(1) [OF P(7) assms(2) k] b(2) by linarith
  show w: "lu_storeWBIt s \<le> shd s + k" using b(1) by simp
  have "se_completed (sts s ! k) \<longrightarrow> shd s + k < lu_storeWBIt s" using P(8) k unfolding wb_good_def by blast
  with w show "\<not> se_completed (sts s ! k)" by simp
qed

lemma supplier_mem: "supplier r s l = Some k \<Longrightarrow> k \<in> set (scanned s l) \<and> suppliers r (sts s ! k)"
  unfolding supplier_def by (metis (no_types, lifting) find_Some_iff nth_mem set_rev)

lemma read_scan_supplier:
  assumes "lsq_wf s" "l < length (lds s)" "fits (rq_vaddr r) (rq_size r)"
  shows "lsq_read_scan r out sent (lhd s + l) (rev [lu_storeWBIt s ..< li_sqIt (ei (lds s ! l))]) s =
    (case supplier r s l of None \<Rightarrow> lsq_access r sent (lhd s + l) s
     | Some k \<Rightarrow> if can_forward r (sts s ! k) then lsq_forward r out (lhd s + l) (ei (sts s ! k)) (sts s ! k) s
                 else lsq_stall (lhd s + l) (ei (sts s ! k)) (sts s ! k) s)"
proof -
  note P = wf_base_parts [OF assms(1)]
  let ?e = "lds s ! l"
  have l: "le_inst ?e \<noteq> None" using base_load [OF wf_base(1) [OF assms(1)] assms(2)] by (simp add: load_ok_def)
  have bnd: "shd s \<le> lu_storeWBIt s" "lu_storeWBIt s \<le> li_sqIt (ei ?e)" "li_sqIt (ei ?e) \<le> shd s + length (sts s)"
    using P(7,8) assms(2) by (simp_all add: cross_linked_def wb_good_def)
  have "lsq_read_scan r out sent (lhd s + l)
      (rev [shd s + (lu_storeWBIt s - shd s) ..< shd s + (li_sqIt (ei ?e) - shd s)]) s =
    (case find (\<lambda>k. suppliers r (sts s ! k)) (rev [lu_storeWBIt s - shd s ..< li_sqIt (ei ?e) - shd s]) of
       None \<Rightarrow> lsq_access r sent (lhd s + l) s
     | Some k \<Rightarrow> if can_forward r (sts s ! k) then lsq_forward r out (lhd s + l) (ei (sts s ! k)) (sts s ! k) s
                 else lsq_stall (lhd s + l) (ei (sts s ! k)) (sts s ! k) s)"
    by (rule read_scan_finds [OF P(1) assms(2) l P(2)])
      (use bnd assms(3) scanned_mem [OF assms(1,2)] base_store [OF wf_base(1) [OF assms(1)]] in \<open>auto simp: scanned_def\<close>)
  then show ?thesis using bnd by (simp add: supplier_def scanned_def)
qed

lemma read_scan_outcome:
  assumes "lsq_wf s" "l < length (lds s)" "\<not> li_isExecuted (ei (lds s ! l))" "fits (rq_vaddr r) (rq_size r)" "\<not> rq_isHTMCmd r"
  shows "\<exists>s'. lsq_read_scan r out sent (lhd s + l) (rev [lu_storeWBIt s ..< li_sqIt (ei (lds s ! l))]) s = Inr (NoFault, s') \<and>
    quiet s s' \<and> read_outcome r l s NoFault s'"
proof -
  note P = wf_base_parts [OF assms(1)]
  let ?e = "lds s ! l"
  have ok: "load_ok (lhd s + l) ?e" by (rule base_load [OF wf_base(1) [OF assms(1)] assms(2)])
  have l: "l < cq_size (lu_loadQueue s)" "le_inst ?e \<noteq> None" "le_valid ?e" using assms(2) ok by (simp_all add: load_ok_def)
  note scan = read_scan_supplier [OF assms(1,2,4), of out sent]
  have wf: "lsq_wf (set_load l e' s)" if "le_valid e'" "le_inst e' \<noteq> None" "sn e' = sn ?e" "li_lqIt (ei e') = li_lqIt (ei ?e)"
      "li_lqIdx (ei e') = li_lqIdx (ei ?e)" "li_sqIt (ei e') = li_sqIt (ei ?e)" "li_isSquashed (ei e') = li_isSquashed (ei ?e)"
      "li_isExecuted (ei e') = li_isExecuted (ei ?e)" for e'
    by (rule set_load_wf [OF assms(1,2)]) (use that l(3) assms(3) in \<open>simp_all add: same_load_def\<close>)
  note A = set_load_lists [OF P(1) assms(2)]
  show ?thesis
  proof (cases "supplier r s l")
    case None
    from access_eq [OF P(1) refl l(1,2), of r sent] obtain s' where s': "lsq_access r sent (lhd s + l) s = Inr (NoFault, s')"
      "s' = lu_call (SendRead (sn ?e)) (set_load l (on_inst (\<lambda>i. i\<lparr>li_memData := True\<rparr>) ?e) s) \<or>
       s' = lu_call (BlockMemInst (sn ?e)) (lu_call (SendRead (sn ?e)) (set_load l (on_inst (\<lambda>i. i\<lparr>li_memData := True\<rparr>) ?e) s))" by blast
    have "lsq_wf (set_load l (on_inst (\<lambda>i. i\<lparr>li_memData := True\<rparr>) ?e) s)" by (rule wf) (use l in simp_all)
    then have "quiet s s'" "lds s' = (lds s)[l := on_inst (\<lambda>i. i\<lparr>li_memData := True\<rparr>) ?e]"
      using s'(2) by (auto simp: quiet_def aux_same_def A)
    moreover from this(2) have "read_outcome r l s NoFault s'"
      unfolding read_outcome_def
      by (intro exI [where x = "on_inst (\<lambda>i. i\<lparr>li_memData := True\<rparr>) ?e"]) (use None l in simp)
    ultimately show ?thesis using scan None s'(1) by simp
  next
    case (Some k)
    note K = supplier_mem [OF Some] and M = scanned_mem [OF assms(1,2) conjunct1 [OF supplier_mem [OF Some]]]
    show ?thesis
    proof (cases "can_forward r (sts s ! k)")
      case True
      have "store_written (sts s ! k)"
        using base_store [OF wf_base(1) [OF assms(1)] M(1)] K by (auto simp: store_ok_def suppliers_def participates_def)
      from forward_eq [OF P(1) refl l(1,2) assms(5) forward_bytes_exact [OF assms(4) this True], of out]
      have f: "lsq_forward r out (lhd s + l) (ei (sts s ! k)) (sts s ! k) s =
        Inr (NoFault, lu_count (\<lambda>c. c\<lparr>lc_forwLoads := lc_forwLoads c + 1\<rparr>)
          (lu_call (WritebackEvent (sn ?e) (bytes_from r (sts s ! k))) (set_load l (forwarded (sn (sts s ! k)) out ?e) s)))"
        by (simp add: bytes_from_def)
      have e': "le_valid (forwarded n out ?e)" "le_inst (forwarded n out ?e) \<noteq> None"
        "ei (forwarded n out ?e) = (ei ?e)\<lparr>li_memData := True, li_forwardedFrom := n\<rparr>" for n
        using l by (simp_all add: forwarded_def Let_def)
      have "lsq_wf (set_load l (forwarded (sn (sts s ! k)) out ?e) s)" by (rule wf) (use e' in simp_all)
      then show ?thesis
        using scan Some True f e' unfolding read_outcome_def
        by (simp add: quiet_def aux_same_def A subset_insertI) (rule exI [where x = "forwarded (sn (sts s ! k)) out ?e"]; simp)
    next
      case False
      let ?r = "set_load l (rescheduled ?e) s"
      have x: "lq_inst s (lu_stallingLoadIdx s) = Inr (ei (lds s ! (lu_stallingLoadIdx s - lhd s)))" if "lu_stalled s"
        using P(10) that base_load_inst [OF wf_base(1) [OF assms(1)], of "lu_stallingLoadIdx s - lhd s"] by (auto simp: stall_good_def)
      from stall_eq [OF P(1) refl l(1,2) M(4) x, of "ei (sts s ! k)"] obtain b n idx where
        st: "lsq_stall (lhd s + l) (ei (sts s ! k)) (sts s ! k) s =
            Inr (NoFault, count_rescheduled (lu_call (RescheduleMemInst (sn ?e))
              (?r\<lparr>lu_stalled := b, lu_stallingStoreIsn := n, lu_stallingLoadIdx := idx\<rparr>)))"
          "b = lu_stalled s \<and> n = lu_stallingStoreIsn s \<and> idx = lu_stallingLoadIdx s \<or> b \<and> n = sn (sts s ! k) \<and> idx = lhd s + l"
        by blast
      have e': "le_valid (rescheduled ?e)" "le_inst (rescheduled ?e) \<noteq> None"
        "ei (rescheduled ?e) = (ei ?e)\<lparr>li_isIssued := False, li_effAddrValid := False\<rparr>"
        using l by (simp_all add: rescheduled_def)
      have w: "lsq_wf ?r" by (rule wf) (use e' in simp_all)
      have "stall_good (lhd ?r) (lds ?r) b n idx"
        using st(2) wf_base_parts(10) [OF w] assms(2,3) e'(3) M(2) by (auto simp: A stall_good_def)
      from wf_stall [OF w this] show ?thesis
        using scan Some False st(1) e' unfolding read_outcome_def
        by (simp add: quiet_def aux_same_def A count_rescheduled_def subset_insertI) (rule exI [where x = "rescheduled ?e"]; simp)
    qed
  qed
qed

lemma quiet_trans: "quiet s t \<Longrightarrow> quiet t u \<Longrightarrow> quiet s u"
  by (auto simp: quiet_def intro: aux_same_trans)

lemma supplier_cong:
  assumes "lu_storeQueue t = lu_storeQueue s" "lu_storeWBIt t = lu_storeWBIt s" "li_sqIt (ei (lds t ! l)) = li_sqIt (ei (lds s ! l))"
  shows "supplier r t l = supplier r s l"
  using assms by (simp add: supplier_def scanned_def)

lemma read_ok:
  assumes "lsq_wf s" "l < length (lds s)" "\<not> li_isExecuted (ei (lds s ! l))" "\<not> li_isDataPrefetch (ei (lds s ! l))"
    "fits (rq_vaddr r) (rq_size r)" "\<not> rq_isHTMCmd r" "\<not> rq_isLocalAccess r"
  shows "\<exists>f s'. lsq_read r out sent (lhd s + l) s = Inr (f, s') \<and> quiet s s' \<and> read_outcome r l s f s' \<and>
    (f \<noteq> NoFault \<longrightarrow> lu_stalled s' = lu_stalled s \<and> lu_stallingLoadIdx s' = lu_stallingLoadIdx s)"
proof -
  let ?e = "lds s ! l" and ?e1 = "(lds s ! l)\<lparr>le_request := Some r\<rparr>"
  let ?s1 = "set_load l ?e1 s"
  let ?s2 = "if rq_isLLSC r then lu_call (HandleLockedRead (sn ?e)) ?s1 else ?s1"
  note P = wf_base_parts [OF assms(1)]
  have ok: "load_ok (lhd s + l) ?e" by (rule base_load [OF wf_base(1) [OF assms(1)] assms(2)])
  have l: "l < cq_size (lu_loadQueue s)" "le_inst ?e \<noteq> None" "le_valid ?e" using assms(2) ok by (simp_all add: load_ok_def)
  note A = set_load_lists [OF P(1) assms(2)]
  have w1: "lsq_wf ?s1" by (rule set_load_wf [OF assms(1,2)]) (use l assms(3) in \<open>simp_all add: same_load_def\<close>)
  have s1: "lds ?s1 ! l = ?e1" "lq_inst ?s1 (lhd s + l) = Inr (ei ?e)"
    using l lq_inst_at [of ?s1 "lhd s" l] P(1) by (simp_all add: A)
  show ?thesis
  proof (cases "rq_isStrictlyOrdered r \<and> (lhd s + l \<noteq> lhd s \<or> \<not> li_isAtCommit (ei ?e))")
    case True
    let ?s' = "count_rescheduled (lu_call (RescheduleMemInst (sn ?e)) (set_load l (rescheduled ?e1) s))"
    have "lsq_reschedule (lhd s + l) ?s1 = Inr ?s'"
      using reschedule_eq [of ?s1 "lhd s" l] l P(1) s1(1) by simp
    then have r: "lsq_read r out sent (lhd s + l) s = Inr (M5PanicFault, ?s')"
      using True l P(1) s1 assms(3) by (simp add: lsq_read_def lq_modify_at) auto
    have e': "le_valid (rescheduled ?e1)" "le_inst (rescheduled ?e1) \<noteq> None"
        "ei (rescheduled ?e1) = (ei ?e)\<lparr>li_isIssued := False, li_effAddrValid := False\<rparr>"
      using l by (simp_all add: rescheduled_def)
    have "lsq_wf (set_load l (rescheduled ?e1) s)"
      by (rule set_load_wf [OF assms(1,2)]) (use e' l assms(3) in \<open>simp_all add: same_load_def\<close>)
    then have "quiet s ?s'" by (simp add: quiet_def aux_same_def A count_rescheduled_def subset_insertI)
    moreover have "read_outcome r l s M5PanicFault ?s'" unfolding read_outcome_def
      by (rule exI [where x = "rescheduled ?e1"]) (use e' in \<open>simp add: A count_rescheduled_def\<close>)
    moreover have "lu_stalled ?s' = lu_stalled s" "lu_stallingLoadIdx ?s' = lu_stallingLoadIdx s" by (simp_all add: count_rescheduled_def)
    ultimately show ?thesis using r by blast
  next
    case False
    have s2: "lsq_wf ?s2" "lds ?s2 = (lds s)[l := ?e1]" "lhd ?s2 = lhd s" "quiet s ?s2" "lu_storeWBIt ?s2 = lu_storeWBIt s"
      "sts ?s2 = sts s" "lu_storeQueue ?s2 = lu_storeQueue s"
      using w1 by (auto simp: A quiet_def aux_same_def)
    have nth: "lds ?s2 ! l = ?e1" using s2(2) l(1) by simp
    have wb: "lu_storeWBIt s \<le> li_sqIt (ei ?e)" using P(8) assms(2) by (simp add: wb_good_def)
    have "l < length (lds ?s2)" "\<not> li_isExecuted (ei (lds ?s2 ! l))" using s2(2) nth assms(2,3) by simp_all
    from read_scan_outcome [OF s2(1) this assms(5,6), of out sent] obtain s' where
      s': "lsq_read_scan r out sent (lhd s + l) (rev [lu_storeWBIt s ..< li_sqIt (ei ?e)]) ?s2 = Inr (NoFault, s')"
        "quiet ?s2 s'" "read_outcome r l ?s2 NoFault s'"
      unfolding s2(3,5) nth ei_request by blast
    have "supplier r ?s2 l = supplier r s l" by (rule supplier_cong [OF s2(7,5)]) (simp add: nth)
    then have "read_outcome r l s NoFault s'"
      using s'(3) unfolding read_outcome_def s2(2,6) by (simp add: l(1))
    moreover have "lsq_read r out sent (lhd s + l) s = Inr (NoFault, s')"
      using False l P(1) s1 assms(3,4,7) s'(1) wb by (simp add: lsq_read_def lq_modify_at Let_def) auto
    ultimately show ?thesis using quiet_trans [OF s2(4) s'(2)] by blast
  qed
qed

section \<open>Loads that check younger loads\<close>

definition load_view :: "lsq_entry \<Rightarrow> (bool \<times> bool) \<times> (seqnum \<times> nat \<times> nat \<times> nat \<times> bool) \<times> (bool \<times> u64 \<times> u32 \<times> bool) \<times> (seqnum \<times> seqnum \<times> bool \<times> bool)" where
  "load_view e = ((le_valid e, le_inst e \<noteq> None),
     (sn e, li_lqIt (ei e), li_lqIdx (ei e), li_sqIt (ei e), li_isSquashed (ei e)),
     (li_effAddrValid (ei e), li_effAddr (ei e), li_effSize (ei e), li_strictlyOrdered (ei e)),
     (li_forwardedFrom (ei e), li_violatingStoreSeqNum (ei e), li_isExecuted (ei e), li_translationDelayed (ei e)))"

text \<open>The recorded violator only moves to an older load.\<close>

definition violator_sunk :: "lsq_unit \<Rightarrow> lsq_unit \<Rightarrow> bool" where
  "violator_sunk s s' \<longleftrightarrow> (case lu_memDepViolator s of None \<Rightarrow> True
     | Some v \<Rightarrow> (case lu_memDepViolator s' of None \<Rightarrow> False | Some v' \<Rightarrow> v' \<le> v))"

text \<open>It only moves to a load from the given position on.\<close>

definition violator_from :: "nat \<Rightarrow> lsq_unit \<Rightarrow> lsq_unit \<Rightarrow> bool" where
  "violator_from a s s' \<longleftrightarrow> lu_memDepViolator s' = lu_memDepViolator s \<or>
     (\<exists>j. a \<le> j \<and> j < length (lds s) \<and> lu_memDepViolator s' = Some (sn (lds s ! j)))"

definition checked :: "nat \<Rightarrow> lsq_unit \<Rightarrow> lsq_unit \<Rightarrow> bool" where
  "checked a s s' \<longleftrightarrow> lsq_wf s' \<and> lu_storeQueue s' = lu_storeQueue s \<and> lhd s' = lhd s \<and> aux_same s s' \<and>
     map load_view (lds s') = map load_view (lds s) \<and> violator_sunk s s' \<and> violator_from a s s'"

lemma violator_sunk_refl [simp]: "violator_sunk s s"
  by (simp add: violator_sunk_def split: option.splits)

lemma violator_sunk_trans: "violator_sunk s t \<Longrightarrow> violator_sunk t u \<Longrightarrow> violator_sunk s u"
  by (auto simp: violator_sunk_def split: option.splits)

lemma map_view_nth: "map f xs = map f ys \<Longrightarrow> j < length ys \<Longrightarrow> j < length xs \<and> f (xs ! j) = f (ys ! j)"
  by (metis length_map nth_map)

lemma load_view_sn: "map load_view xs = map load_view ys \<Longrightarrow> j < length ys \<Longrightarrow> sn (xs ! j) = sn (ys ! j)"
  using map_view_nth [of load_view xs ys j] by (simp add: load_view_def)

lemma violator_from_trans:
  assumes "violator_from a s t" "violator_from b t u" "a \<le> b" "map load_view (lds t) = map load_view (lds s)"
  shows "violator_from a s u"
proof -
  have "length (lds t) = length (lds s)" using map_eq_imp_length_eq [OF assms(4)] .
  then show ?thesis
    using assms(1-3) load_view_sn [OF assms(4)] unfolding violator_from_def by (metis order.trans)
qed

lemma checked_trans: "checked a s t \<Longrightarrow> checked b t u \<Longrightarrow> a \<le> b \<Longrightarrow> checked a s u"
  by (auto simp: checked_def intro: aux_same_trans violator_sunk_trans violator_from_trans)

lemma checked_weaken: "checked b s s' \<Longrightarrow> a \<le> b \<Longrightarrow> checked a s s'"
  unfolding checked_def violator_from_def using order.trans by blast

lemma checkViolations_loop_load:
  assumes "lsq_wf s" "li_isLoad inst" "a \<le> length (lds s)"
  shows "\<exists>f s'. checkViolations_loop inst [lhd s + a ..< lhd s + length (lds s)] s = Inr (f, s') \<and> checked a s s'"
  using assms
proof (induction "length (lds s) - a" arbitrary: a s)
  case 0
  then show ?case by (simp add: checked_def violator_from_def)
next
  case (Suc n)
  note P = wf_base_parts [OF Suc.prems(1)]
  let ?e = "lds s ! a" and ?f = "on_inst (\<lambda>i. i\<lparr>li_possibleLoadViolation := True\<rparr>)"
  have a: "a < length (lds s)" using Suc.hyps(2) by simp
  have ok: "load_ok (lhd s + a) ?e" by (rule base_load [OF wf_base(1) [OF Suc.prems(1)] a])
  then have e: "le_inst ?e \<noteq> None" by (simp add: load_ok_def)
  have cons: "[lhd s + a ..< lhd s + cq_size (lu_loadQueue s)] = (lhd s + a) # [lhd s + Suc a ..< lhd s + cq_size (lu_loadQueue s)]"
    using a by (simp add: upt_conv_Cons)
  have inst: "lq_inst s (lhd s + a) = Inr (ei ?e)" by (rule lq_inst_eq [OF P(1) a e])
  have n: "n = length (lds s) - Suc a" "Suc a \<le> length (lds s)" using Suc.hyps(2) a by simp_all
  have skip: "\<exists>f s'. checkViolations_loop inst [lhd s + Suc a ..< lhd s + cq_size (lu_loadQueue s)] s = Inr (f, s') \<and> checked a s s'"
    using Suc.hyps(1) [OF n(1) Suc.prems(1,2) n(2)] checked_weaken [of "Suc a" s _ a] by fastforce
  let ?t = "set_load a (?f ?e) s"
  note A = set_load_lists [OF P(1) a]
  have "lsq_wf ?t" by (rule set_load_wf [OF Suc.prems(1) a])
      (use e ok P(10) in \<open>auto simp: same_load_def load_ok_def stall_good_def\<close>)
  moreover have "map load_view (lds ?t) = map load_view (lds s)"
    using a e by (simp add: A map_update load_view_def list_update_same_conv)
  ultimately have t: "checked a s ?t" "lsq_wf ?t" by (simp_all add: checked_def violator_from_def aux_same_def violator_sunk_def A split: option.splits)
  have "n = length (lds ?t) - Suc a" "Suc a \<le> length (lds ?t)" using n by (simp_all add: A)
  from Suc.hyps(1) [OF this(1) t(2) Suc.prems(2) this(2)]
  have mark: "\<exists>f s'. checkViolations_loop inst [lhd s + Suc a ..< lhd s + cq_size (lu_loadQueue s)] ?t = Inr (f, s') \<and> checked a s s'"
    using checked_trans [OF t(1), of "Suc a"] by (fastforce simp: A)
  show ?case
    unfolding cq_list_length cons checkViolations_loop.simps inst rbind_Inr lq_modify_set [OF P(1) a]
    using skip mark Suc.prems(1,2) a
    by (auto simp: checked_def violator_sunk_def violator_from_def aux_same_def split: option.splits)
qed

section \<open>Execution of a load\<close>

definition push_inst :: "lsq_request \<Rightarrow> lsq_inst \<Rightarrow> lsq_inst" where
  "push_inst r i = i\<lparr>li_hasRequest := True, li_fault := NoFault, li_strictlyOrdered := rq_isStrictlyOrdered r,
     li_memReqLLSC := rq_isLLSC r, li_effAddr := rq_vaddr r, li_effSize := rq_size r, li_effAddrValid := True\<rparr>"

text \<open>A load that may execute: translated, predicated on, no prefetch; its request is an ordinary memory access.\<close>

definition plain_load :: "lsq_inst \<Rightarrow> bool" where
  "plain_load i \<longleftrightarrow> li_isLoad i \<and> li_memAccPredicate i \<and> li_predicate i \<and> \<not> li_translationDelayed i \<and>
     \<not> li_requestPartialFault i \<and> \<not> li_isExecuted i \<and> \<not> li_isDataPrefetch i"

definition plain_access :: "lsq_request \<Rightarrow> bool" where
  "plain_access r \<longleftrightarrow> fits (rq_vaddr r) (rq_size r) \<and> \<not> rq_isHTMCmd r \<and> \<not> rq_isLocalAccess r"

definition loaded :: "lsq_request \<Rightarrow> nat \<Rightarrow> lsq_unit \<Rightarrow> lsq_unit \<Rightarrow> lsq_inst \<Rightarrow> bool" where
  "loaded r l s s' i \<longleftrightarrow>
     (\<not> li_effAddrValid i \<and> li_forwardedFrom i = li_forwardedFrom (ei (lds s ! l)) \<or>
      li_effAddrValid i \<and> li_effAddr i = rq_vaddr r \<and> li_effSize i = rq_size r \<and>
        li_strictlyOrdered i = rq_isStrictlyOrdered r \<and>
        (supplier r s l = None \<and> li_forwardedFrom i = li_forwardedFrom (ei (lds s ! l)) \<or>
         (\<exists>k. supplier r s l = Some k \<and> can_forward r (sts s ! k) \<and> li_forwardedFrom i = sn (sts s ! k) \<and>
            WritebackEvent (sn (lds s ! l)) (bytes_from r (sts s ! k)) \<in> set (lu_calls s'))))"

definition same_inst :: "lsq_inst \<Rightarrow> lsq_inst \<Rightarrow> bool" where
  "same_inst i i' \<longleftrightarrow> li_seqNum i' = li_seqNum i \<and> li_lqIt i' = li_lqIt i \<and> li_lqIdx i' = li_lqIdx i \<and> li_sqIt i' = li_sqIt i \<and>
     li_isSquashed i' = li_isSquashed i \<and> li_violatingStoreSeqNum i' = li_violatingStoreSeqNum i \<and> li_isLoad i' = li_isLoad i \<and>
     li_predicate i' = li_predicate i \<and> li_memAccPredicate i' = li_memAccPredicate i \<and>
     li_translationDelayed i' = li_translationDelayed i \<and> li_requestPartialFault i' = li_requestPartialFault i"

lemma pushLoad_ok:
  assumes "lsq_wf s" "l < length (lds s)" "plain_load (ei (lds s ! l))" "plain_access r"
  shows "\<exists>f s' e'. lsq_pushLoad r out sent (lhd s + l) s = Inr (f, s') \<and> quiet s s' \<and> lds s' = (lds s)[l := e'] \<and>
    le_valid e' \<and> le_inst e' \<noteq> None \<and> same_inst (ei (lds s ! l)) (ei e') \<and> loaded r l s s' (ei e') \<and> (f \<noteq> NoFault \<longrightarrow> \<not> li_effAddrValid (ei e')) \<and>
    \<not> li_isExecuted (ei e') \<and>
    (f \<noteq> NoFault \<longrightarrow> lu_stalled s' = lu_stalled s \<and> lu_stallingLoadIdx s' = lu_stallingLoadIdx s)"
proof -
  let ?e = "lds s ! l" and ?pe = "on_inst (push_inst r) (lds s ! l)"
  let ?ps = "set_load l ?pe s"
  note P = wf_base_parts [OF assms(1)]
  have ok: "load_ok (lhd s + l) ?e" by (rule base_load [OF wf_base(1) [OF assms(1)] assms(2)])
  have l: "l < cq_size (lu_loadQueue s)" "le_inst ?e \<noteq> None" "le_valid ?e" using assms(2) ok by (simp_all add: load_ok_def)
  have pl: "\<not> li_isExecuted (ei ?e)" "\<not> li_isDataPrefetch (ei ?e)" using assms(3) by (simp_all add: plain_load_def)
  note A = set_load_lists [OF P(1) assms(2)]
  have nth: "lds ?ps ! l = ?pe" "ei ?pe = push_inst r (ei ?e)" using l by (simp_all add: A)
  have w0: "lsq_wf ?ps"
    by (rule set_load_wf [OF assms(1,2)]) (use l pl in \<open>simp_all add: same_load_def push_inst_def\<close>)
  have q0: "quiet s ?ps" using w0 by (simp add: quiet_def aux_same_def)
  have "l < length (lds ?ps)" "\<not> li_isExecuted (ei (lds ?ps ! l))" "\<not> li_isDataPrefetch (ei (lds ?ps ! l))"
    using assms(2) nth pl by (simp_all add: push_inst_def)
  from read_ok [OF w0 this, of r out sent] obtain f s1 where s1: "lsq_read r out sent (lhd s + l) ?ps = Inr (f, s1)"
      "quiet ?ps s1" "read_outcome r l ?ps f s1"
      "f \<noteq> NoFault \<longrightarrow> lu_stalled s1 = lu_stalled s \<and> lu_stallingLoadIdx s1 = lu_stallingLoadIdx s"
    using assms(4) by (auto simp: plain_access_def)
  have sup: "supplier r ?ps l = supplier r s l" by (rule supplier_cong) (simp_all add: nth push_inst_def)
  from s1(3) obtain e1 where e1: "lds s1 = (lds s)[l := e1]" "le_valid e1" "le_inst e1 \<noteq> None"
    and D: "ei e1 = (push_inst r (ei ?e))\<lparr>li_isIssued := False, li_effAddrValid := False\<rparr> \<or>
        f = NoFault \<and> supplier r s l = None \<and> ei e1 = (push_inst r (ei ?e))\<lparr>li_memData := True\<rparr> \<or>
        f = NoFault \<and> (\<exists>k. supplier r s l = Some k \<and> can_forward r (sts s ! k) \<and>
          ei e1 = (push_inst r (ei ?e))\<lparr>li_memData := True, li_forwardedFrom := sn (sts s ! k)\<rparr> \<and>
          WritebackEvent (li_seqNum (push_inst r (ei ?e))) (bytes_from r (sts s ! k)) \<in> set (lu_calls s1))"
    unfolding read_outcome_def nth sup set_load_fields unfolding A list_update_overwrite by blast
  have e2: "same_inst (ei ?e) (ei e1)" "loaded r l s s1 (ei e1)" "f \<noteq> NoFault \<longrightarrow> \<not> li_effAddrValid (ei e1)" "\<not> li_isExecuted (ei e1)"
    using D pl by (auto simp: push_inst_def same_inst_def loaded_def)
  note e1 = e1 e2
  have q1: "quiet s s1" by (rule quiet_trans [OF q0 s1(2)])
  then have w1: "lsq_wf s1" "lhd s1 = lhd s" "l < length (lds s1)" using e1(1) assms(2) by (simp_all add: quiet_def)
  show ?thesis
  proof (cases "f = NoFault")
    case True
    then have "lsq_pushLoad r out sent (lhd s + l) s = Inr (f, s1)"
      using s1(1) lq_modify_set [OF P(1) assms(2)] by (simp add: lsq_pushLoad_def push_inst_def [abs_def])
    then show ?thesis using q1 e1 True by blast
  next
    case False
    let ?fe = "on_inst (\<lambda>i. i\<lparr>li_fault := f\<rparr>) e1"
    let ?fs = "set_load l ?fe s1"
    have m: "lq_modify (lhd s + l) (on_inst (\<lambda>i. i\<lparr>li_fault := f\<rparr>)) s1 = Inr ?fs"
      using lq_modify_set [OF wf_base_parts(1) [OF w1(1)] w1(3)] w1(2) e1(1) l(1) by simp
    then have r: "lsq_pushLoad r out sent (lhd s + l) s = Inr (f, ?fs)"
      using s1(1) False lq_modify_set [OF P(1) assms(2)] by (simp add: lsq_pushLoad_def push_inst_def [abs_def])
    have nth1: "lds s1 ! l = e1" using e1(1) l(1) by simp
    have "lsq_wf ?fs"
      by (rule set_load_wf [OF w1(1,3)]) (use e1 nth1 in \<open>simp_all add: same_load_def\<close>)
    then have q2: "quiet s ?fs"
      using q1 by (simp add: quiet_def aux_same_def)
    have lds2: "lds ?fs = (lds s)[l := ?fe]"
      using set_load_lists(1) [OF wf_base_parts(1) [OF w1(1)] w1(3)] e1(1) by simp
    have "same_inst (ei ?e) (ei ?fe)" "loaded r l s ?fs (ei ?fe)" "\<not> li_effAddrValid (ei ?fe)" "\<not> li_isExecuted (ei ?fe)"
      using e1(3-7) False by (simp_all add: same_inst_def loaded_def)
    then show ?thesis using r q2 lds2 e1(2,3) s1(4) False
      by (intro exI [where x = f] exI [where x = ?fs] exI [where x = ?fe]) simp
  qed
qed

lemma loaded_mono: "loaded r l s t i \<Longrightarrow> aux_same t u \<Longrightarrow> loaded r l s u i"
  by (auto simp: loaded_def aux_same_def)

lemma loaded_executed: "loaded r l s t (i\<lparr>li_isExecuted := b\<rparr>) = loaded r l s t i"
  by (simp add: loaded_def)

lemma checkViolations_load:
  assumes "lsq_wf s" "l < length (lds s)" "li_isLoad inst" "li_lqIt inst = lhd s + l"
  shows "\<exists>f s'. lsq_checkViolations (li_lqIt inst + 1) inst s = Inr (f, s') \<and> checked (Suc l) s s'"
  using checkViolations_loop_load [OF assms(1,3), of "Suc l"] assms(2,4) cq_end_eq [OF wf_base_parts(1) [OF assms(1)]]
  by (simp add: lsq_checkViolations_def)

lemma executeLoad_ok:
  assumes "lsq_wf s" "l < length (lds s)" "plain_load (ei (lds s ! l))" "plain_access r"
    "\<not> (lu_stalled s \<and> lu_stallingLoadIdx s = lhd s + l)"
  shows "\<exists>f s' e'. lsq_executeLoad (lsq_pushLoad r out sent) (lhd s + l) s = Inr (f, s') \<and> lsq_wf s' \<and>
    lu_storeQueue s' = lu_storeQueue s \<and> lhd s' = lhd s \<and> aux_same s s' \<and> violator_sunk s s' \<and> violator_from (Suc l) s s' \<and>
    map load_view (lds s') = map load_view ((lds s)[l := e']) \<and> le_valid e' \<and> le_inst e' \<noteq> None \<and>
    same_inst (ei (lds s ! l)) (ei e') \<and> loaded r l s s' (ei e')"
proof -
  let ?e = "lds s ! l"
  from pushLoad_ok [OF assms(1-4), of out sent] obtain f t e where
    t: "lsq_pushLoad r out sent (lhd s + l) s = Inr (f, t)" "quiet s t" "lds t = (lds s)[l := e]" "le_valid e" "le_inst e \<noteq> None"
      "same_inst (ei ?e) (ei e)" "loaded r l s t (ei e)" "f \<noteq> NoFault \<longrightarrow> \<not> li_effAddrValid (ei e)" "\<not> li_isExecuted (ei e)"
      "f \<noteq> NoFault \<longrightarrow> lu_stalled t = lu_stalled s \<and> lu_stallingLoadIdx t = lu_stallingLoadIdx s" by blast
  have w: "lsq_wf t" "lhd t = lhd s" "l < length (lds t)" "lu_storeQueue t = lu_storeQueue s" "aux_same s t" "violator_sunk s t"
    "lu_memDepViolator t = lu_memDepViolator s"
    using t(2,3) assms(2) by (simp_all add: quiet_def violator_sunk_def split: option.splits)
  have nth: "lds t ! l = e" using t(3) assms(2) by simp
  have ok: "load_ok (lhd s + l) ?e" by (rule base_load [OF wf_base(1) [OF assms(1)] assms(2)])
  have i: "lq_inst s (lhd s + l) = Inr (ei ?e)" "\<not> li_isSquashed (ei ?e)" "lq_inst t (lhd s + l) = Inr (ei e)"
    using base_load_inst [OF wf_base(1) [OF assms(1)] assms(2)] base_load_inst [OF wf_base(1) [OF w(1)] w(3)] ok nth w(2)
    by (simp_all add: load_ok_def)
  have fl: "li_isLoad (ei e)" "li_predicate (ei e)" "li_memAccPredicate (ei e)" "\<not> li_translationDelayed (ei e)"
    "\<not> li_requestPartialFault (ei e)" "li_lqIt (ei e) = lhd t + l"
    using t(6) assms(3) ok w(2) by (simp_all add: same_inst_def plain_load_def load_ok_def)
  consider (faulty) "f \<noteq> NoFault" | (viol) "f = NoFault" "li_effAddrValid (ei e) \<and> lu_checkLoads t"
    | (fine) "f = NoFault" "\<not> (li_effAddrValid (ei e) \<and> lu_checkLoads t)" by blast
  then show ?thesis
  proof cases
    case faulty
    let ?x = "on_inst (\<lambda>i. i\<lparr>li_isExecuted := True\<rparr>) e"
    let ?u = "if \<not> (li_hasRequest (ei e) \<and> li_strictlyOrdered (ei e)) \<or> li_isAtCommit (ei e) then set_load l ?x t else t"
    let ?v = "lu_call (InstToCommit (sn e)) ?u" and ?y = "if \<not> (li_hasRequest (ei e) \<and> li_strictlyOrdered (ei e)) \<or> li_isAtCommit (ei e) then ?x else e"
    have m: "lq_modify (lhd s + l) (on_inst (\<lambda>i. i\<lparr>li_isExecuted := True\<rparr>)) t = Inr (set_load l ?x t)"
      using lq_modify_set [OF wf_base_parts(1) [OF w(1)] w(3)] w(2) nth by simp
    have r: "lsq_executeLoad (lsq_pushLoad r out sent) (lhd s + l) s = Inr (f, ?v)"
      using faulty i fl t(1) m by (simp add: lsq_executeLoad_def)
    have "lsq_wf (set_load l ?x t)"
      by (rule set_load_wf [OF w(1,3)]) (use nth t(4,5,10) faulty assms(5) w(2) in \<open>simp_all add: same_load_def\<close>)
    then have "lsq_wf ?v" using w(1) by simp
    moreover have "lds ?v = (lds s)[l := ?y]" using set_load_lists(1) [OF wf_base_parts(1) [OF w(1)] w(3)] t(3) by simp
    moreover have "aux_same s ?v" "violator_sunk s ?v" "violator_from (Suc l) s ?v"
      using w(5-7) by (auto simp: aux_same_def violator_sunk_def violator_from_def split: option.splits)
    moreover have "loaded r l s ?v (ei ?y)"
    proof -
      have "loaded r l s t (ei ?y)" using t(5,7) by (simp add: loaded_executed)
      then show ?thesis by (rule loaded_mono) (auto simp: aux_same_def)
    qed
    moreover have "same_inst (ei ?e) (ei ?y)" "le_valid ?y" "le_inst ?y \<noteq> None" using t(4-6) by (simp_all add: same_inst_def)
    ultimately show ?thesis using r w(2,4) by (intro exI [where x = f] exI [where x = ?v] exI [where x = ?y]) simp
  next
    case viol
    from checkViolations_load [OF w(1,3) fl(1,6)] obtain g u where u: "lsq_checkViolations (li_lqIt (ei e) + 1) (ei e) t = Inr (g, u)"
      "checked (Suc l) t u" by blast
    have r: "lsq_executeLoad (lsq_pushLoad r out sent) (lhd s + l) s = Inr (g, u)"
      using viol i fl(1-5) t(1) u(1) by (simp add: lsq_executeLoad_def)
    have "aux_same t u" using u(2) by (simp add: checked_def)
    then have "loaded r l s u (ei e)" "aux_same s u" using loaded_mono [OF t(7)] aux_same_trans [OF w(5)] by blast+
    moreover have "violator_from (Suc l) s u" using u(2) w(7) t(3) by (auto simp: checked_def violator_from_def)
    ultimately show ?thesis
      using r u(2) w t(3-6) violator_sunk_trans [OF w(6), of u]
      by (intro exI [where x = g] exI [where x = u] exI [where x = e]) (simp add: checked_def)
  next
    case fine
    have "lsq_executeLoad (lsq_pushLoad r out sent) (lhd s + l) s = Inr (f, t)"
      using fine i fl(1-5) t(1) by (simp add: lsq_executeLoad_def) auto
    moreover have "violator_from (Suc l) s t" using w(7) by (simp add: violator_from_def)
    ultimately show ?thesis using w t(3-7) by (intro exI [where x = f] exI [where x = t] exI [where x = e]) simp
  qed
qed

section \<open>Execution of a store\<close>

definition written :: "lsq_request \<Rightarrow> u8 list \<Rightarrow> sq_entry \<Rightarrow> sq_entry" where
  "written r data e =
     (let e = e\<lparr>le_request := Some r, le_size := rq_size r, se_isAllZeros := rq_blockZero r \<or> rq_isCacheMaintenance r\<rparr> in
      if \<not> rq_blockZero r \<and> \<not> rq_isCacheMaintenance r \<and> \<not> rq_isAtomic r
      then e\<lparr>se_data := take (unat (rq_size r)) data @ drop (unat (rq_size r)) (se_data e)\<rparr> else e)"

text \<open>A store that may execute, with a request that fits its entry and data for it.\<close>

definition plain_store :: "sq_entry \<Rightarrow> bool" where
  "plain_store e \<longleftrightarrow> li_predicate (ei e) \<and> \<not> li_translationDelayed (ei e) \<and> le_size e = 0 \<and> \<not> se_canWB e"

definition plain_write :: "lsq_request \<Rightarrow> u8 list \<Rightarrow> sq_entry \<Rightarrow> bool" where
  "plain_write r data e \<longleftrightarrow> fits (rq_vaddr r) (rq_size r) \<and>
     (rq_blockZero r \<or> rq_isCacheMaintenance r \<or> unat (rq_size r) \<le> length (se_data e)) \<and> unat (rq_size r) \<le> length data \<and>
     (li_isStoreConditional (ei e) \<longrightarrow> \<not> rq_isLocalAccess r)"

lemma written_sel [simp]: "le_request (written r d e) = Some r" "le_size (written r d e) = rq_size r" "le_inst (written r d e) = le_inst e"
  "le_valid (written r d e) = le_valid e" "se_canWB (written r d e) = se_canWB e" "se_completed (written r d e) = se_completed e"
  "se_committed (written r d e) = se_committed e" "ei (written r d e) = ei e"
  by (simp_all add: written_def Let_def ei_def)

lemma on_inst_flags [simp]: "se_canWB (on_inst f e) = se_canWB e" "se_completed (on_inst f e) = se_completed e"
  "se_committed (on_inst f e) = se_committed e" "se_data (on_inst f e) = se_data e" "se_isAllZeros (on_inst f e) = se_isAllZeros e"
  by (simp_all add: on_inst_def)

lemma written_ok:
  assumes "le_inst e \<noteq> None" "plain_write r d e"
  shows "store_written (written r d (on_inst (push_inst r) e))"
proof -
  have "se_isAllZeros (written r d (on_inst (push_inst r) e)) \<or> unat (rq_size r) \<le> length (se_data (written r d (on_inst (push_inst r) e)))"
    using assms(2) by (auto simp: written_def Let_def plain_write_def)
  then show ?thesis using assms by (simp add: store_written_def plain_write_def push_inst_def)
qed

lemma set_store_norm: "set_store k e (set_store k e' s) = set_store k e s"
  by (simp add: set_store_def cq_upd_twice)

lemma pushStore_eq:
  assumes "lsq_wf s" "k < length (sts s)" "plain_write r d (sts s ! k)"
  shows "lsq_pushStore r d (shd s + k) s = Inr (NoFault, set_store k (written r d (on_inst (push_inst r) (sts s ! k))) s)"
proof -
  let ?p = "on_inst (push_inst r) (sts s ! k)"
  let ?t = "set_store k ?p s"
  note P = wf_base_parts [OF assms(1)] and A = set_store_lists [OF wf_base_parts(2) [OF assms(1)] assms(2)]
  have ok: "store_ok (shd s + k) (sts s ! k)" by (rule base_store [OF wf_base(1) [OF assms(1)] assms(2)])
  have get: "cq_get (lu_storeQueue ?t) (shd s + k) = Inr ?p"
    using cq_get_nth [of "lu_storeQueue ?t" k] A(6) assms(2) by (simp add: A)
  have put: "cq_put (lu_storeQueue ?t) (shd s + k) v = Inr (cq_upd (lu_storeQueue ?t) (shd s + k) v)" for v
    by (rule cq_put_upd [OF A(6)])
  have fin: "?t\<lparr>lu_storeQueue := cq_upd (lu_storeQueue ?t) (shd s + k) v\<rparr> = set_store k v s" for v
    by (simp add: set_store_def cq_upd_twice)
  have "lsq_write r d (shd s + k) ?t = Inr (NoFault, set_store k (written r d ?p) s)"
    using get put fin ok assms(3)
    by (auto simp: lsq_write_def plain_write_def store_ok_def written_def Let_def)
  then show ?thesis
    using sq_modify_set [OF P(2) assms(2)] by (simp add: lsq_pushStore_def push_inst_def [abs_def])
qed

lemma report_wf:
  assumes "lsq_wf s" "j < length (lds s)"
  shows "lsq_wf (lsq_report inst j s)" "lds (lsq_report inst j s) = (lds s)[j := on_inst (lsq_record_violation inst) (lds s ! j)]"
    "lhd (lsq_report inst j s) = lhd s" "lu_storeQueue (lsq_report inst j s) = lu_storeQueue s" "aux_same s (lsq_report inst j s)"
    "lu_memDepViolator (lsq_report inst j s) = Some (sn (lds s ! j))"
proof -
  let ?e = "on_inst (lsq_record_violation inst) (lds s ! j)"
  have eq: "lsq_report inst j s = lu_count (\<lambda>c. c\<lparr>lc_memOrderViolation := lc_memOrderViolation c + 1\<rparr>)
      ((set_load j ?e s)\<lparr>lu_memDepViolator := Some (sn (lds s ! j))\<rparr>)"
    by (simp add: lsq_report_def set_load_def)
  have ok: "load_ok (lhd s + j) (lds s ! j)" by (rule base_load [OF wf_base(1) [OF assms(1)] assms(2)])
  have "lsq_wf (set_load j ?e s)"
    by (rule set_load_wf [OF assms])
      (use ok wf_base_parts(10) [OF assms(1)] in \<open>auto simp: same_load_def load_ok_def lsq_record_violation_def stall_good_def\<close>)
  then show "lsq_wf (lsq_report inst j s)" by (simp add: eq)
  show "lds (lsq_report inst j s) = (lds s)[j := ?e]" "lhd (lsq_report inst j s) = lhd s"
    "lu_storeQueue (lsq_report inst j s) = lu_storeQueue s" "aux_same s (lsq_report inst j s)"
    "lu_memDepViolator (lsq_report inst j s) = Some (sn (lds s ! j))"
    using set_load_lists [OF wf_base_parts(1) [OF assms(1)] assms(2)] by (simp_all add: eq aux_same_def)
qed

text \<open>The loads an executing store has to look at, and the first it violates with.\<close>

definition first_violated :: "lsq_unit \<Rightarrow> lsq_inst \<Rightarrow> nat option" where
  "first_violated s inst =
     find (\<lambda>j. violates (lu_depCheckShift s) inst (ei (lds s ! j))) [li_lqIt inst - lhd s ..< length (lds s)]"

definition store_outcome :: "lsq_inst \<Rightarrow> lsq_unit \<Rightarrow> fault \<Rightarrow> lsq_unit \<Rightarrow> bool" where
  "store_outcome inst s f s' \<longleftrightarrow>
     (case first_violated s inst of
        Some j \<Rightarrow> if not_after_violator (lu_memDepViolator s) (sn (lds s ! j))
          then f = M5PanicFault \<and> lds s' = (lds s)[j := on_inst (lsq_record_violation inst) (lds s ! j)] \<and>
            lu_memDepViolator s' = Some (sn (lds s ! j))
          else f = NoFault \<and> lds s' = lds s \<and> lu_memDepViolator s' = lu_memDepViolator s
      | None \<Rightarrow> f = NoFault \<and> lds s' = lds s \<and> lu_memDepViolator s' = lu_memDepViolator s)"

lemma checkViolations_store:
  assumes "lsq_wf s" "\<not> li_isLoad inst" "lhd s \<le> li_lqIt inst" "li_lqIt inst \<le> lhd s + length (lds s)"
  shows "\<exists>f s'. lsq_checkViolations (li_lqIt inst) inst s = Inr (f, s') \<and> lsq_wf s' \<and> lu_storeQueue s' = lu_storeQueue s \<and>
    lhd s' = lhd s \<and> aux_same s s' \<and> store_outcome inst s f s'"
proof -
  note P = wf_base_parts [OF assms(1)]
  have a: "li_lqIt inst - lhd s \<le> length (lds s)" "lhd s + (li_lqIt inst - lhd s) = li_lqIt inst" using assms(3,4) by simp_all
  have "lsq_checkViolations (li_lqIt inst) inst s =
    (case first_violated s inst of
       Some k \<Rightarrow> if not_after_violator (lu_memDepViolator s) (sn (lds s ! k)) then Inr (M5PanicFault, lsq_report inst k s)
                 else Inr (NoFault, s)
     | None \<Rightarrow> Inr (NoFault, s))"
    using checkViolations_loop_store [OF P(1,5) assms(2) a(1)] assms(4) cq_end_eq [OF P(1)]
    unfolding a(2) by (simp add: lsq_checkViolations_def first_violated_def)
  moreover have "j < length (lds s)" if "first_violated s inst = Some j" for j
    using that by (auto simp: first_violated_def find_Some_iff)
  ultimately show ?thesis
    using assms(1) report_wf [OF assms(1)] by (auto simp: store_outcome_def split: option.splits)
qed

lemma executeStore_ok:
  assumes "lsq_wf s" "k < length (sts s)" "plain_store (sts s ! k)" "plain_write r d (sts s ! k)"
    "lhd s \<le> li_lqIt (ei (sts s ! k))"
    "li_isStoreConditional (ei (sts s ! k)) \<or> li_isAtomic (ei (sts s ! k)) \<Longrightarrow> \<forall>e \<in> set (lds s). sn (sts s ! k) < sn e"
  shows "\<exists>f s' e'. lsq_executeStore (lsq_pushStore r d) (shd s + k) s = Inr (f, s') \<and> lsq_wf s' \<and>
    sts s' = (sts s)[k := e'] \<and> ei e' = push_inst r (ei (sts s ! k)) \<and> le_size e' = rq_size r \<and> le_request e' = Some r \<and>
    store_written e' \<and> shd s' = shd s \<and> lhd s' = lhd s \<and> aux_same s s' \<and> store_outcome (ei e') s f s'"
proof -
  let ?e = "sts s ! k" and ?w = "written r d (on_inst (push_inst r) (sts s ! k))"
  let ?t = "set_store k ?w s"
  note P = wf_base_parts [OF assms(1)] and A = set_store_lists [OF wf_base_parts(2) [OF assms(1)] assms(2)]
  have ok: "store_ok (shd s + k) ?e" by (rule base_store [OF wf_base(1) [OF assms(1)] assms(2)])
  then have inst: "le_inst ?e \<noteq> None" "\<not> li_isSquashed (ei ?e)" "\<not> li_isLoad (ei ?e)" by (simp_all add: store_ok_def)
  have ei: "ei ?w = push_inst r (ei ?e)" using inst(1) by simp
  have sw: "store_written ?w" by (rule written_ok [OF inst(1) assms(4)])
  have wt: "lsq_wf ?t"
    by (rule set_store_wf [OF assms(1,2)])
      (use inst ei sw in \<open>simp_all add: same_store_def same_flags_def push_inst_def\<close>)
  have sz: "rq_size r \<noteq> 0" using assms(4) by (auto simp: plain_write_def fits_def)
  have nth: "sts ?t ! k = ?w" "k < length (sts ?t)" using assms(2) by (simp_all add: A)
  define c where "c = (li_isStoreConditional (ei ?e) \<or> li_isAtomic (ei ?e))"
  define u where "u = (if c then set_canWB k ?t else ?t)"
  define e' where "e' = (if c then ?w\<lparr>se_canWB := True\<rparr> else ?w)"
  have e': "ei e' = push_inst r (ei ?e)" "le_size e' = rq_size r" "le_request e' = Some r" "store_written e'"
    using ei sw by (simp_all add: e'_def)
  have u: "sts u = (sts s)[k := e']" "shd u = shd s" "lds u = lds s" "lhd u = lhd s" "aux_same s u"
    "lu_memDepViolator u = lu_memDepViolator s"
    using set_store_lists [OF wf_base_parts(2) [OF wt] nth(2)] nth(1)
    by (simp_all add: u_def e'_def set_canWB_def aux_same_def set_store_norm A)
  have "lsq_wf u"
  proof (cases c)
    case True
    have "\<not> se_canWB (sts ?t ! k)" using assms(3) nth(1) by (simp add: plain_store_def)
    then have "lsq_base (set_canWB k ?t)" by (rule set_canWB_base [OF wf_base(1) [OF wt] nth(2)])
    moreover have "committed_older (sts u) (lds u)"
    proof -
      have "sn e' = sn ?e" by (simp add: e'(1) push_inst_def)
      then have "\<forall>l \<in> set (lds s). sn e' < sn l" using assms(6) True by (simp add: c_def)
      then show ?thesis
        using wf_base(2) [OF assms(1)] set_update_subset_insert [of "sts s" k e'] unfolding u(1,3) committed_older_def by blast
    qed
    ultimately show ?thesis using True by (simp add: lsq_wf_def u_def)
  qed (simp add: u_def wt)
  have lq: "li_lqIt (ei ?e) \<le> lhd s + length (lds s)" using P(7) assms(2) by (simp add: cross_linked_def)
  have "\<not> li_isLoad (ei e')" "lhd u \<le> li_lqIt (ei e')" "li_lqIt (ei e') \<le> lhd u + length (lds u)"
    unfolding u(3,4) e'(1) using inst(3) assms(5) lq by (simp_all add: push_inst_def)
  from checkViolations_store [OF \<open>lsq_wf u\<close> this] obtain f s' where
    s': "lsq_checkViolations (li_lqIt (ei e')) (ei e') u = Inr (f, s')" "lsq_wf s'" "lu_storeQueue s' = lu_storeQueue u"
      "lhd s' = lhd u" "aux_same u s'" "store_outcome (ei e') u f s'" by blast
  have "lsq_executeStore (lsq_pushStore r d) (shd s + k) s = Inr (f, s')"
  proof -
    have g: "cq_get (lu_storeQueue ?t) (shd s + k) = Inr ?w" "sq_inst s (shd s + k) = Inr (ei ?e)"
      using base_store_get [OF wf_base(1) [OF wt] nth(2)] nth(1) base_store_inst [OF wf_base(1) [OF assms(1)] assms(2)] by simp_all
    have m: "sq_modify (shd s + k) (\<lambda>e. e\<lparr>se_canWB := True\<rparr>) ?t = Inr (set_store k (?w\<lparr>se_canWB := True\<rparr>) ?t)"
      using sq_modify_set [OF wf_base_parts(2) [OF wt] nth(2)] nth(1) by simp
    have "le_instruction ?w = Inr (ei ?w)" using inst(1) by (intro le_instruction_some) simp
    moreover have "cq_size (lu_storeQueue s) \<noteq> 0" using assms(2) by simp
    moreover have "lsq_checkViolations (li_lqIt (ei ?e)) (ei ?w) u = Inr (f, s')" using s'(1) unfolding e'(1) ei by (simp add: push_inst_def)
    ultimately show ?thesis
      using g m inst assms(3) sz pushStore_eq [OF assms(1,2,4)]
      by (cases c) (auto simp: lsq_executeStore_def plain_store_def ei push_inst_def u_def c_def set_canWB_def nth(1))
  qed
  moreover have "store_outcome (ei e') s f s'"
  proof -
    have "first_violated u (ei e') = first_violated s (ei e')" using u(3-5) by (simp add: first_violated_def aux_same_def)
    then show ?thesis using s'(6) unfolding store_outcome_def u(3,6) by simp
  qed
  ultimately show ?thesis
    using s'(2-5) u e' aux_same_trans [OF u(5) s'(5)]
    by (intro exI [where x = f] exI [where x = s'] exI [where x = e']) simp
qed

section \<open>Snoops\<close>

definition addr_known :: "lsq_entry \<Rightarrow> bool" where
  "addr_known e \<longleftrightarrow> (case le_request e of None \<Rightarrow> True
     | Some r \<Rightarrow> rq_isSplit r \<or> (case rq_paddrs r of [] \<Rightarrow> False | p # ps \<Rightarrow> p \<noteq> None))"

lemma cacheBlockHit_total: "le_request e = Some r \<Longrightarrow> addr_known e \<Longrightarrow> \<exists>b. lsq_isCacheBlockHit x m r = Inr b"
  by (auto simp: addr_known_def lsq_isCacheBlockHit_def split: list.splits)

text \<open>A snoop only sets the fault of a load, the state of its request or its snoop mark.\<close>

definition snooped :: "lsq_unit \<Rightarrow> lsq_unit \<Rightarrow> bool" where
  "snooped s s' \<longleftrightarrow> quiet s s' \<and> map load_view (lds s') = map load_view (lds s)"

lemma snooped_trans: "snooped s t \<Longrightarrow> snooped t u \<Longrightarrow> snooped s u"
  by (auto simp: snooped_def intro: quiet_trans)

lemma snoop_mark:
  assumes "lsq_wf s" "a < length (lds s)" "\<And>i. load_view (on_inst f (lds s ! a)) = load_view (lds s ! a)"
  shows "snooped s (set_load a ((on_inst f (lds s ! a))\<lparr>le_request := q\<rparr>) s)"
    "snooped s (set_load a (on_inst f (lds s ! a)) s)"
proof -
  note P = wf_base_parts [OF assms(1)] and A = set_load_lists [OF wf_base_parts(1) [OF assms(1)] assms(2)]
  have ok: "load_ok (lhd s + a) (lds s ! a)" by (rule base_load [OF wf_base(1) [OF assms(1)] assms(2)])
  have "snooped s (set_load a e s)" if v: "load_view e = load_view (lds s ! a)" for e
  proof -
    have "lsq_wf (set_load a e s)"
      by (rule set_load_wf [OF assms(1,2)]) (use v ok P(10) in \<open>auto simp: load_view_def same_load_def load_ok_def stall_good_def\<close>)
    moreover have "map load_view (lds (set_load a e s)) = map load_view (lds s)"
      using assms(2) v by (simp add: A map_update list_update_same_conv)
    ultimately show ?thesis by (simp add: snooped_def quiet_def aux_same_def)
  qed
  moreover have "load_view (e\<lparr>le_request := q\<rparr>) = load_view e" for e by (simp add: load_view_def)
  ultimately show "snooped s (set_load a ((on_inst f (lds s ! a))\<lparr>le_request := q\<rparr>) s)"
    "snooped s (set_load a (on_inst f (lds s ! a)) s)" using assms(3) by simp_all
qed

lemma snooped_call: "snooped s t \<Longrightarrow> snooped s (lu_call c t)"
  by (auto simp: snooped_def quiet_def aux_same_def)

lemma checkSnoop_loop_ok:
  assumes "lsq_wf s" "a \<le> length (lds s)" "\<And>j. a \<le> j \<Longrightarrow> j < length (lds s) \<Longrightarrow> addr_known (lds s ! j)"
  shows "\<exists>s'. checkSnoop_loop x [lhd s + a ..< lhd s + length (lds s)] force s = Inr s' \<and> snooped s s'"
  using assms
proof (induction "length (lds s) - a" arbitrary: a s force)
  case 0
  then show ?case by (simp add: snooped_def quiet_def)
next
  case (Suc n)
  note P = wf_base_parts [OF Suc.prems(1)]
  let ?e = "lds s ! a"
  have a: "a < length (lds s)" using Suc.hyps(2) by simp
  have ok: "load_ok (lhd s + a) ?e" by (rule base_load [OF wf_base(1) [OF Suc.prems(1)] a])
  then have e: "le_inst ?e = Some (ei ?e)" by (auto simp: load_ok_def ei_def)
  have cons: "[lhd s + a ..< lhd s + cq_size (lu_loadQueue s)] = (lhd s + a) # [lhd s + Suc a ..< lhd s + cq_size (lu_loadQueue s)]"
    using a by (simp add: upt_conv_Cons)
  have get: "cq_get (lu_loadQueue s) (lhd s + a) = Inr ?e" using cq_get_nth [OF P(1)] a by simp
  have next_ok: "\<exists>s'. checkSnoop_loop x [lhd s + Suc a ..< lhd s + cq_size (lu_loadQueue s)] f t = Inr s' \<and> snooped s s'"
    if t: "snooped s t" "\<And>j. j \<noteq> a \<Longrightarrow> lds t ! j = lds s ! j" for t f
  proof -
    have q: "lsq_wf t" "lhd t = lhd s" "length (lds t) = length (lds s)"
      using t(1) map_eq_imp_length_eq [of load_view "lds t" load_view "lds s"] by (simp_all add: snooped_def quiet_def)
    have "n = length (lds t) - Suc a" "Suc a \<le> length (lds t)" using Suc.hyps(2) a unfolding q(3) by simp_all
    moreover have "addr_known (lds t ! j)" if "Suc a \<le> j" "j < length (lds t)" for j
      using Suc.prems(3) [of j] that t(2) [of j] unfolding q(3) by simp
    ultimately obtain s' where "checkSnoop_loop x [lhd t + Suc a ..< lhd t + length (lds t)] f t = Inr s'" "snooped t s'"
      using Suc.hyps(1) [OF _ q(1), of "Suc a" f] by blast
    then show ?thesis using snooped_trans [OF t(1)] q(2,3) by auto
  qed
  have self: "snooped s s" using Suc.prems(1) by (simp add: snooped_def quiet_def)
  note skip = next_ok [OF self]
  let ?c = "if li_memReqLLSC (ei ?e) then lu_call (HandleLockedSnoopHit (sn ?e)) s else s"
  have mod: "lq_modify (lhd s + a) f s = Inr (set_load a (f ?e) s)"
    "lq_modify (lhd s + a) f (lu_call c s) = Inr (lu_call c (set_load a (f ?e) s))" for f c
    using lq_modify_at [of s "lhd s" a f] lq_modify_at [of "lu_call c s" "lhd s" a f] P(1) a by simp_all
  have other: "j \<noteq> a \<Longrightarrow> lds (set_load a v s) ! j = lds s ! j" for j v using set_load_lists(1) [OF P(1) a] by simp
  have M: "snooped s (set_load a ((on_inst (\<lambda>i. i\<lparr>li_fault := ReExec\<rparr>) ?e)\<lparr>le_request := q\<rparr>) s)"
    "snooped s (set_load a (on_inst (\<lambda>i. i\<lparr>li_hitExternalSnoop := True\<rparr>) ?e) s)" for q
    by (rule snoop_mark [OF Suc.prems(1) a], use e in \<open>simp add: load_view_def\<close>)+
  note marked = next_ok [OF M(1) other] next_ok [OF M(2) other] next_ok [OF snooped_call [OF M(2)], unfolded lu_call_fields, OF other]
  show ?case
  proof (cases "le_request ?e")
    case None
    then show ?thesis using skip by (simp add: cons get e)
  next
    case (Some r)
    from cacheBlockHit_total [OF Some Suc.prems(3)] a obtain b where "lsq_isCacheBlockHit x (lu_cacheBlockMask s) r = Inr b" by blast
    then show ?thesis
      using skip marked Some by (simp add: cons get e mod Let_def)
  qed
qed

lemma checkSnoop_ok:
  assumes "lsq_wf s" "\<forall>e \<in> set (lds s). addr_known e"
  shows "\<exists>s'. lsq_checkSnoop x s = Inr s' \<and> snooped s s'"
proof (cases "lds s = []")
  case True
  then have "cq_empty (lu_loadQueue s)" by (simp add: cq_empty_def flip: cq_list_length)
  then show ?thesis using assms(1) by (auto simp: lsq_checkSnoop_def snooped_def quiet_def)
next
  case False
  note P = wf_base_parts [OF assms(1)]
  let ?e = "lds s ! 0"
  have n: "0 < length (lds s)" "\<not> cq_empty (lu_loadQueue s)" using False by (simp_all add: cq_empty_def flip: cq_list_length)
  have ok: "load_ok (lhd s) ?e" using base_load [OF wf_base(1) [OF assms(1)] n(1)] by simp
  then have e: "le_inst ?e = Some (ei ?e)" "cq_get (lu_loadQueue s) (lhd s) = Inr ?e"
    using cq_get_nth [OF P(1), of 0] n(1) by (auto simp: load_ok_def ei_def)
  have known: "addr_known ?e" using assms(2) n(1) by (metis nth_mem)
  obtain b where b: "(case le_request ?e of None \<Rightarrow> Inr False
               | Some request \<Rightarrow> if li_effAddrValid (ei ?e)
                   then rbind (lsq_isCacheBlockHit (x AND lu_cacheBlockMask s) (lu_cacheBlockMask s) request) (\<lambda>hit. Inr (hit \<and> li_memReqLLSC (ei ?e)))
                   else Inr False) = Inr b"
  proof (cases "le_request ?e")
    case (Some r)
    from cacheBlockHit_total [OF Some known] obtain h where
      "lsq_isCacheBlockHit (x AND lu_cacheBlockMask s) (lu_cacheBlockMask s) r = Inr h" by blast
    then show ?thesis using that [of False] that [of "h \<and> li_memReqLLSC (ei ?e)"] Some by (cases "li_effAddrValid (ei ?e)") auto
  qed (use that [of False] in simp)
  let ?t = "if b then lu_call (HandleLockedSnoopHit (sn ?e)) s else s"
  have t: "lsq_wf ?t" "lds ?t = lds s" "lhd ?t = lhd s" "snooped s ?t"
    using assms(1) by (auto simp: snooped_def quiet_def aux_same_def)
  have "Suc 0 \<le> length (lds ?t)" unfolding t(2) using n(1) by simp
  moreover have "addr_known (lds ?t ! j)" if "j < length (lds ?t)" for j using that assms(2) unfolding t(2) by simp
  ultimately obtain s' where
    "checkSnoop_loop (x AND lu_cacheBlockMask s) [lhd s + Suc 0 ..< lhd s + length (lds s)] False ?t = Inr s'" "snooped ?t s'"
    using checkSnoop_loop_ok [OF t(1), of "Suc 0" "x AND lu_cacheBlockMask s" False] unfolding t(2,3) by blast
  then show ?thesis
    using n e b snooped_trans [OF t(4)] cq_end_eq [OF P(1)] by (auto simp: lsq_checkSnoop_def Let_def)
qed

end
