(* ===== verification/Lsq_Writeback.thy ===== *)
theory Lsq_Writeback
  imports Lsq_Exec
begin

text \<open>
  The write-back of committed stores: completion removes finished stores from the front of the queue, the write-back loop
  moves its iterator over committed stores in order, and from a well-formed state neither fails.
\<close>

section \<open>What write-back leaves of the stores\<close>

definition store_view :: "sq_entry \<Rightarrow> (seqnum \<times> u32 \<times> lsq_request option) \<times> (u64 \<times> bool \<times> bool) \<times> (bool \<times> u8 list)" where
  "store_view e = ((sn e, le_size e, le_request e), (li_effAddr (ei e), li_strictlyOrdered (ei e), li_isAtomic (ei e)), (se_isAllZeros e, se_data e))"

definition wb_view :: "sq_entry \<Rightarrow> ((seqnum \<times> u32 \<times> lsq_request option) \<times> (u64 \<times> bool \<times> bool) \<times> (bool \<times> u8 list)) \<times> bool" where
  "wb_view e = (store_view e, se_canWB e)"

text \<open>Stores leave from the front and only if they may be written back; the others are the same.\<close>

definition stores_from :: "lsq_unit \<Rightarrow> lsq_unit \<Rightarrow> bool" where
  "stores_from s s' \<longleftrightarrow> shd s \<le> shd s' \<and> shd s' + length (sts s') = shd s + length (sts s) \<and>
     map wb_view (sts s') = map wb_view (drop (shd s' - shd s) (sts s)) \<and> (\<forall>k < shd s' - shd s. se_canWB (sts s ! k)) \<and>
     lu_storeWBIt s \<le> lu_storeWBIt s'"

definition wb_moved :: "lsq_unit \<Rightarrow> lsq_unit \<Rightarrow> bool" where
  "wb_moved s s' \<longleftrightarrow> lu_loadQueue s' = lu_loadQueue s \<and> lu_memDepViolator s' = lu_memDepViolator s \<and>
     lu_depCheckShift s' = lu_depCheckShift s \<and> lu_checkLoads s' = lu_checkLoads s \<and> set (lu_calls s) \<subseteq> set (lu_calls s') \<and>
     stores_from s s'"

lemma stores_from_refl: "stores_from s s"
  by (simp add: stores_from_def)

lemma stores_from_trans:
  assumes "stores_from s t" "stores_from t u"
  shows "stores_from s u"
proof -
  let ?n = "shd t - shd s"
  have "map wb_view (drop (shd u - shd t) (sts t)) = map wb_view (drop (shd u - shd s) (sts s))"
    using assms unfolding stores_from_def
    by (simp add: drop_map [symmetric] flip: cq_list_length)
  moreover have "se_canWB (sts s ! k)" if k: "k < shd u - shd s" for k
  proof (cases "k < ?n")
    case True
    then show ?thesis using assms(1) by (simp add: stores_from_def)
  next
    case False
    have v: "map wb_view (sts t) = map wb_view (drop ?n (sts s))" and l: "shd s \<le> shd t" "shd t \<le> shd u" "shd u - shd t \<le> length (sts t)"
      using assms unfolding stores_from_def by auto
    have j: "k - ?n < length (sts t)" "k - ?n < shd u - shd t" using False k l by auto
    have "wb_view (sts t ! (k - ?n)) = wb_view (drop ?n (sts s) ! (k - ?n))" using map_view_nth [OF v [symmetric] j(1)] by simp
    then have "se_canWB (sts t ! (k - ?n)) = se_canWB (drop ?n (sts s) ! (k - ?n))" by (simp add: wb_view_def)
    moreover have "drop ?n (sts s) ! (k - ?n) = sts s ! k"
      using False j(1) map_eq_imp_length_eq [OF v] by (subst nth_drop) (auto simp: cq_list_length)
    ultimately show ?thesis using assms(2) j(2) by (simp add: stores_from_def)
  qed
  ultimately show ?thesis using assms unfolding stores_from_def by simp
qed

lemma wb_moved_refl: "wb_moved s s"
  by (simp add: wb_moved_def stores_from_refl)

lemma wb_moved_trans: "wb_moved s t \<Longrightarrow> wb_moved t u \<Longrightarrow> wb_moved s u"
  by (auto simp: wb_moved_def intro: stores_from_trans)

lemma store_view_flags [simp]: "store_view (e\<lparr>se_canWB := a\<rparr>) = store_view e" "store_view (e\<lparr>se_completed := a\<rparr>) = store_view e"
  "store_view (e\<lparr>se_committed := a\<rparr>) = store_view e"
  by (simp_all add: store_view_def)

section \<open>Completion\<close>

definition drop_store :: "lsq_unit \<Rightarrow> lsq_unit" where
  "drop_store s = s\<lparr>lu_storeQueue := cq_drop_front (cq_upd (lu_storeQueue s) (shd s) (se_clear (sts s ! 0)))\<rparr>"

lemma drop_store_lists:
  assumes "cq_ok (lu_storeQueue s)" "sts s \<noteq> []"
  shows "sts (drop_store s) = tl (sts s)" "shd (drop_store s) = Suc (shd s)" "cq_ok (lu_storeQueue (drop_store s))"
    "cq_rest (lu_storeQueue (drop_store s)) = cq_rest (lu_storeQueue s) @ [se_clear (sts s ! 0)]"
proof -
  have n: "0 < cq_size (lu_storeQueue s)" using assms(2) by (simp flip: cq_list_length)
  note U = cq_list_upd_nth [OF assms(1) n, of "se_clear (sts s ! 0)", unfolded add_0_right]
  show "sts (drop_store s) = tl (sts s)" "shd (drop_store s) = Suc (shd s)" "cq_ok (lu_storeQueue (drop_store s))"
    using n assms(1) by (simp_all add: drop_store_def cq_drop_list U update_ends)
  show "cq_rest (lu_storeQueue (drop_store s)) = cq_rest (lu_storeQueue s) @ [se_clear (sts s ! 0)]"
    using n assms by (simp add: drop_store_def cq_drop_rest U update_ends)
qed

lemma drop_store_fields [simp]: "lu_loadQueue (drop_store s) = lu_loadQueue s" "lu_storeWBIt (drop_store s) = lu_storeWBIt s"
  "lu_isStoreBlocked (drop_store s) = lu_isStoreBlocked s" "lu_storesToWB (drop_store s) = lu_storesToWB s"
  "lu_stalled (drop_store s) = lu_stalled s" "lu_stallingStoreIsn (drop_store s) = lu_stallingStoreIsn s"
  "lu_stallingLoadIdx (drop_store s) = lu_stallingLoadIdx s" "lu_memDepViolator (drop_store s) = lu_memDepViolator s"
  "lu_calls (drop_store s) = lu_calls s" "lu_depCheckShift (drop_store s) = lu_depCheckShift s"
  "lu_checkLoads (drop_store s) = lu_checkLoads s" "lu_needsTSO (drop_store s) = lu_needsTSO s"
  by (simp_all add: drop_store_def)

lemma drop_store_wf:
  assumes "lsq_wf s" "sts s \<noteq> []" "se_completed (sts s ! 0)"
  shows "lsq_wf (drop_store s)" "wb_moved s (drop_store s)"
proof -
  note P = wf_base_parts [OF assms(1)] and L = drop_store_lists [OF wf_base_parts(2) [OF assms(1)] assms(2)]
  obtain x xs where xs: "sts s = x # xs" using assms(2) by (cases "sts s") auto
  have wb: "shd s < lu_storeWBIt s" using P(8) assms(3) xs unfolding wb_good_def by (metis add.right_neutral length_greater_0_conv list.distinct(1))
  have 1: "sq_good (Suc (shd s)) xs"
    using P(6) unfolding sq_good_def xs by (auto dest: spec [where x = "Suc k" for k])
  have 2: "cross_linked (lhd s) (lds s) (Suc (shd s)) xs"
  proof -
    have "(Suc (shd s) + k < li_sqIt (ei (lds s ! i)) \<longleftrightarrow> sn (xs ! k) < sn (lds s ! i)) \<and>
        (li_lqIt (ei (xs ! k)) \<le> lhd s + i \<longleftrightarrow> sn (xs ! k) < sn (lds s ! i))" if "i < length (lds s)" "k < length xs" for i k
      using cross_linkedD [OF P(7) that(1), of "Suc k"] that(2) by (simp add: xs)
    moreover have "\<forall>k<length xs. li_lqIt (ei (xs ! k)) \<le> lhd s + length (lds s)"
      using P(7) unfolding cross_linked_def xs by (auto dest: spec [where x = "Suc k" for k])
    moreover have "\<forall>i<length (lds s). li_sqIt (ei (lds s ! i)) \<le> Suc (shd s) + length xs"
      using P(7) unfolding cross_linked_def xs by simp
    ultimately show ?thesis unfolding cross_linked_def by blast
  qed
  have 3: "wb_good (Suc (shd s)) xs (lds s) (lu_storeWBIt s) (lu_isStoreBlocked s)"
  proof -
    have "(Suc (shd s) + k < lu_storeWBIt s \<longrightarrow> se_canWB (xs ! k)) \<and> (se_completed (xs ! k) \<longrightarrow> Suc (shd s) + k < lu_storeWBIt s) \<and>
        (lu_storeWBIt s \<le> Suc (shd s) + k \<and> (se_committed (xs ! k) \<or> li_memData (ei (xs ! k))) \<longrightarrow>
           lu_isStoreBlocked s \<and> Suc (shd s) + k = lu_storeWBIt s)" if "k < length xs" for k
      using P(8) that unfolding wb_good_def xs by (auto dest: spec [where x = "Suc k"])
    moreover have "lu_isStoreBlocked s \<longrightarrow> lu_storeWBIt s < Suc (shd s) + length xs \<and> se_canWB (xs ! (lu_storeWBIt s - Suc (shd s)))"
      using P(8) wb unfolding wb_good_def xs by (auto simp: nth_Cons' Suc_diff_Suc)
    moreover have "lu_storeWBIt s \<le> Suc (shd s) + length xs" "\<forall>i<length (lds s). lu_storeWBIt s \<le> li_sqIt (ei (lds s ! i))"
      using P(8) unfolding wb_good_def xs by auto
    ultimately show ?thesis using wb unfolding wb_good_def by (simp add: Suc_le_eq)
  qed
  have 4: "committed_older xs (lds s)" using wf_base(2) [OF assms(1)] by (simp add: committed_older_def xs)
  have "filter awaiting (sts s) = filter awaiting xs" using assms(3) by (simp add: xs awaiting_def)
  then show "lsq_wf (drop_store s)" using P 1 2 3 4 L xs by (simp add: lsq_wf_def lsq_base_def)
  have "cq_size (lu_storeQueue s) = Suc (length xs)" using arg_cong [OF xs, of length] by simp
  moreover have "se_canWB x" using P(8) wb xs unfolding wb_good_def by (metis add.right_neutral length_greater_0_conv list.distinct(1) nth_Cons_0)
  ultimately show "wb_moved s (drop_store s)"
    using L(1,2) xs by (simp add: wb_moved_def stores_from_def flip: cq_list_length [of "lu_storeQueue (drop_store s)"])
qed

definition set_completed :: "nat \<Rightarrow> lsq_unit \<Rightarrow> lsq_unit" where
  "set_completed k s = (set_store k ((sts s ! k)\<lparr>se_completed := True\<rparr>) s)\<lparr>lu_storesToWB := lu_storesToWB s - 1\<rparr>"

lemma stores_from_update:
  assumes "cq_ok (lu_storeQueue s)" "k < length (sts s)" "wb_view e = wb_view (sts s ! k)"
  shows "map wb_view (sts (set_store k e s)) = map wb_view (sts s)"
  using assms set_store_lists(1) [OF assms(1,2)] by (simp add: map_update list_update_same_conv)

lemma set_completed_wf:
  assumes "lsq_wf s" "k < length (sts s)" "shd s + k < lu_storeWBIt s" "\<not> se_completed (sts s ! k)"
  shows "lsq_wf (set_completed k s)" "wb_moved s (set_completed k s)"
    "sts (set_completed k s) = (sts s)[k := (sts s ! k)\<lparr>se_completed := True\<rparr>]"
proof -
  let ?e = "(sts s ! k)\<lparr>se_completed := True\<rparr>"
  note P = wf_base_parts [OF assms(1)] and L = set_store_lists [OF wf_base_parts(2) [OF assms(1)] assms(2)]
  have ok: "store_ok (shd s + k) (sts s ! k)" by (rule base_store [OF wf_base(1) [OF assms(1)] assms(2)])
  have same: "same_store (sts s ! k) ?e" "le_size ?e \<noteq> 0 \<longrightarrow> store_written ?e"
    using ok by (auto simp: same_store_def store_ok_def)
  have eq: "se_canWB ((sts s)[k := ?e] ! j) = se_canWB (sts s ! j)" "se_committed ((sts s)[k := ?e] ! j) = se_committed (sts s ! j)"
     "li_memData (ei ((sts s)[k := ?e] ! j)) = li_memData (ei (sts s ! j))" "sn ((sts s)[k := ?e] ! j) = sn (sts s ! j)" for j
    using assms(2) by (cases "j = k"; simp)+
  have cw: "se_completed ((sts s)[k := ?e] ! j) \<Longrightarrow> j = k \<or> se_completed (sts s ! j)" for j by (cases "j = k") auto
  have 1: "wb_good (shd s) ((sts s)[k := ?e]) (lds s) (lu_storeWBIt s) (lu_isStoreBlocked s)"
    using P(8) cw assms(3) unfolding wb_good_def length_list_update eq by blast
  have "se_canWB (sts s ! k)" using P(8) assms(2,3) unfolding wb_good_def by blast
  then have 2: "lu_storesToWB s - 1 = int (length (filter awaiting ((sts s)[k := ?e])))"
    using P(9) assms(2,4) filter_update_uncount [of k "sts s" awaiting ?e] by (simp add: awaiting_def)
  have 3: "committed_older ((sts s)[k := ?e]) (lds s)"
    using wf_base(2) [OF assms(1)] unfolding committed_older_def all_set_conv_all_nth length_list_update eq .
  show "lsq_wf (set_completed k s)"
    using P set_store_lists_good [OF wf_base(1) [OF assms(1)] assms(2) same] 1 2 3
    by (simp add: set_completed_def lsq_wf_def lsq_base_def L)
  show "wb_moved s (set_completed k s)"
    using stores_from_update [OF P(2) assms(2), of ?e] by (simp add: set_completed_def wb_moved_def stores_from_def L wb_view_def)
  show "sts (set_completed k s) = (sts s)[k := ?e]" by (simp add: set_completed_def L)
qed

lemma cq_get_any: "cq_ok q \<Longrightarrow> \<exists>x. cq_get q i = Inr x"
  by (simp add: cq_get_def cq_slot_def cq_ok_def)

lemma completeStore_pop_wf:
  assumes "lsq_wf s" "sts s \<noteq> []" "se_completed (sts s ! 0)" "length (sts s) \<le> n"
  shows "\<exists>q. completeStore_pop n (lu_storeQueue s) = Inr q \<and> lsq_wf (s\<lparr>lu_storeQueue := q\<rparr>) \<and> wb_moved s (s\<lparr>lu_storeQueue := q\<rparr>)"
  using assms
proof (induction n arbitrary: s)
  case 0
  then have "sts s = []" by (simp only: le_zero_eq length_0_conv)
  with 0 show ?case by simp
next
  case (Suc n)
  let ?t = "drop_store s"
  note P = wf_base_parts [OF Suc.prems(1)] and L = drop_store_lists [OF wf_base_parts(2) [OF Suc.prems(1)] Suc.prems(2)]
    and W = drop_store_wf [OF Suc.prems(1-3)]
  have n0: "0 < cq_size (lu_storeQueue s)" using Suc.prems(2) by (simp flip: cq_list_length)
  have q: "lu_storeQueue ?t = cq_drop_front (cq_upd (lu_storeQueue s) (shd s) (se_clear (sts s ! 0)))"
    by (simp add: drop_store_def)
  have pop: "completeStore_pop (Suc n) (lu_storeQueue s) =
      rbind (cq_front (lu_storeQueue ?t)) (\<lambda>e. if se_completed e \<and> \<not> cq_empty (lu_storeQueue ?t)
        then completeStore_pop n (lu_storeQueue ?t) else Inr (lu_storeQueue ?t))"
    unfolding q using cq_modify_eq [OF P(2) n0, of se_clear] n0 by (simp add: cq_pop_drop)
  obtain x where x: "cq_front (lu_storeQueue ?t) = Inr x" using cq_get_any [OF L(3)] by (auto simp: cq_front_def)
  have t: "?t = s\<lparr>lu_storeQueue := lu_storeQueue ?t\<rparr>" by (simp add: drop_store_def)
  show ?case
  proof (cases "se_completed x \<and> \<not> cq_empty (lu_storeQueue ?t)")
    case False
    then have "completeStore_pop (Suc n) (lu_storeQueue s) = Inr (lu_storeQueue ?t)" using pop x by auto
    then show ?thesis using W t by auto
  next
    case True
    then have ne: "sts ?t \<noteq> []" by (simp add: cq_empty_def flip: length_greater_0_conv)
    then have "0 < cq_size (lu_storeQueue ?t)" by (simp flip: cq_list_length)
    then have "x = sts ?t ! 0" using x cq_get_nth [OF L(3), of 0] by (simp add: cq_front_def)
    moreover have "length (sts ?t) \<le> n" using Suc.prems(4) unfolding L(1) by simp
    ultimately obtain q where q: "completeStore_pop n (lu_storeQueue ?t) = Inr q" "lsq_wf (?t\<lparr>lu_storeQueue := q\<rparr>)"
        "wb_moved ?t (?t\<lparr>lu_storeQueue := q\<rparr>)"
      using Suc.IH [OF W(1) ne] True by auto
    have "?t\<lparr>lu_storeQueue := q\<rparr> = s\<lparr>lu_storeQueue := q\<rparr>" by (simp add: drop_store_def)
    then show ?thesis using q pop x True wb_moved_trans [OF W(2) q(3)] by (simp del: completeStore_pop.simps)
  qed
qed

lemma unstall_wf:
  assumes "lsq_wf s"
  shows "\<exists>s'. lsq_unstall x s = Inr s' \<and> lsq_wf s' \<and> wb_moved s s' \<and> lu_storeQueue s' = lu_storeQueue s \<and>
    lu_storeWBIt s' = lu_storeWBIt s \<and> lu_isStoreBlocked s' = lu_isStoreBlocked s"
proof (cases "lu_stalled s \<and> x = lu_stallingStoreIsn s")
  case True
  then have i: "lhd s \<le> lu_stallingLoadIdx s" "lu_stallingLoadIdx s - lhd s < length (lds s)"
    using wf_base_parts(10) [OF assms] by (auto simp: stall_good_def)
  let ?t = "s\<lparr>lu_stalled := False, lu_stallingStoreIsn := 0\<rparr>"
  have "lq_inst ?t (lu_stallingLoadIdx s) = Inr (ei (lds s ! (lu_stallingLoadIdx s - lhd s)))"
    using base_load_inst [OF wf_base(1) [OF assms] i(2)] i(1) by (simp add: lq_inst_def)
  moreover have "lsq_wf ?t" using assms by (simp add: lsq_wf_def lsq_base_def stall_good_def)
  ultimately show ?thesis using True by (simp add: lsq_unstall_def Let_def wb_moved_def stores_from_def subset_insertI)
next
  case False
  then show ?thesis using assms by (auto simp: lsq_unstall_def wb_moved_refl)
qed

lemma completeStore_wf:
  assumes "lsq_wf s" "k < length (sts s)" "shd s + k < lu_storeWBIt s" "\<not> se_completed (sts s ! k)"
  shows "\<exists>s'. lsq_completeStore (shd s + k) s = Inr s' \<and> lsq_wf s' \<and> wb_moved s s' \<and> lu_storeWBIt s' = lu_storeWBIt s \<and>
    lu_isStoreBlocked s' = lu_isStoreBlocked s"
proof -
  let ?t = "set_completed k s" and ?e = "sts s ! k"
  note C = set_completed_wf [OF assms] and P = wf_base_parts [OF assms(1)]
  have ok: "store_ok (shd s + k) ?e" by (rule base_store [OF wf_base(1) [OF assms(1)] assms(2)])
  have g: "cq_get (lu_storeQueue s) (shd s + k) = Inr ?e" "le_valid ?e" "le_instruction ?e = Inr (ei ?e)"
    using base_store_get [OF wf_base(1) [OF assms(1)] assms(2)] ok by (simp_all add: store_ok_def le_instruction_some)
  have m: "sq_modify (shd s + k) (\<lambda>e. e\<lparr>se_completed := True\<rparr>) s = Inr (set_store k (?e\<lparr>se_completed := True\<rparr>) s)"
    by (rule sq_modify_set [OF P(2) assms(2)])
  have f: "lu_storeWBIt ?t = lu_storeWBIt s" "lu_isStoreBlocked ?t = lu_isStoreBlocked s" "shd ?t = shd s"
    by (simp_all add: set_completed_def)
  obtain u where u: "(if shd s + k = shd ?t then
        rbind (completeStore_pop (cq_size (lu_storeQueue ?t)) (lu_storeQueue ?t)) (\<lambda>sq.
              Inr (lu_call UpdateLSQNextCycle (?t\<lparr>lu_storeQueue := sq\<rparr>)))
            else Inr ?t) = Inr u" "lsq_wf u" "wb_moved ?t u" "lu_storeWBIt u = lu_storeWBIt s" "lu_isStoreBlocked u = lu_isStoreBlocked s"
  proof (cases "k = 0")
    case True
    then have "sts ?t \<noteq> []" "se_completed (sts ?t ! 0)" using C(3) assms(2) by (auto simp flip: length_greater_0_conv)
    from completeStore_pop_wf [OF C(1) this, of "cq_size (lu_storeQueue ?t)"] obtain q where
      q: "completeStore_pop (cq_size (lu_storeQueue ?t)) (lu_storeQueue ?t) = Inr q" "lsq_wf (?t\<lparr>lu_storeQueue := q\<rparr>)"
        "wb_moved ?t (?t\<lparr>lu_storeQueue := q\<rparr>)" by auto
    have "wb_moved ?t (lu_call UpdateLSQNextCycle (?t\<lparr>lu_storeQueue := q\<rparr>))"
      using q(3) by (auto simp: wb_moved_def stores_from_def)
    then show ?thesis using that [of "lu_call UpdateLSQNextCycle (?t\<lparr>lu_storeQueue := q\<rparr>)"] q True f by simp
  qed (use that [of ?t] C(1) f wb_moved_refl in simp)
  from unstall_wf [OF u(2), of "sn ?e"] obtain v where v: "lsq_unstall (sn ?e) u = Inr v" "lsq_wf v" "wb_moved u v"
      "lu_storeWBIt v = lu_storeWBIt u" "lu_isStoreBlocked v = lu_isStoreBlocked u" by blast
  let ?c = "lu_call (SetCompleted (sn ?e)) v"
  let ?s' = "if lu_needsTSO ?c then ?c\<lparr>lu_storeInFlight := False\<rparr> else ?c"
  have "lsq_completeStore (shd s + k) s = rbind (if shd s + k = shd ?t then
        rbind (completeStore_pop (cq_size (lu_storeQueue ?t)) (lu_storeQueue ?t)) (\<lambda>sq.
              Inr (lu_call UpdateLSQNextCycle (?t\<lparr>lu_storeQueue := sq\<rparr>)))
            else Inr ?t) (\<lambda>s. rbind (lsq_unstall (sn ?e) s) (\<lambda>s. let s = lu_call (SetCompleted (sn ?e)) s in
        Inr (if lu_needsTSO s then s\<lparr>lu_storeInFlight := False\<rparr> else s)))"
    unfolding lsq_completeStore_def g(1) rbind_Inr m check_True [OF g(2)] g(3) set_completed_def Let_def set_store_fields(3) by simp
  then have "lsq_completeStore (shd s + k) s = Inr ?s'" unfolding u(1) rbind_Inr v(1) Let_def .
  moreover have "wb_moved v ?s'" by (auto simp: wb_moved_def stores_from_def)
  moreover have "lsq_wf ?s'" using v(2) by simp
  ultimately show ?thesis
    using v u(4,5) wb_moved_trans [OF C(2) wb_moved_trans [OF u(3) wb_moved_trans [OF v(3)]]] by (intro exI [where x = ?s']) simp
qed

section \<open>Moving the write-back iterator\<close>

lemma wf_transfer:
  assumes "lsq_wf t" "lu_storeQueue s = lu_storeQueue t" "lu_loadQueue s = lu_loadQueue t" "lu_storeWBIt s = lu_storeWBIt t"
    "lu_isStoreBlocked s = lu_isStoreBlocked t" "lu_storesToWB s = lu_storesToWB t"
    "lu_stalled s \<longrightarrow> lu_stalled t \<and> lu_stallingStoreIsn s = lu_stallingStoreIsn t \<and> lu_stallingLoadIdx s = lu_stallingLoadIdx t"
  shows "lsq_wf s"
  using assms by (auto simp: lsq_wf_def lsq_base_def stall_good_def)

text \<open>A store as the write-back leaves it: marked as sent, otherwise the same.\<close>

definition sent_store :: "sq_entry \<Rightarrow> sq_entry \<Rightarrow> bool" where
  "sent_store e e' \<longleftrightarrow> same_store e e' \<and> (le_size e' \<noteq> 0 \<longrightarrow> store_written e') \<and> se_canWB e' = se_canWB e \<and>
     se_completed e' = se_completed e \<and> store_view e' = store_view e"

lemma sent_store_refl: "store_ok k e \<Longrightarrow> sent_store e e"
  by (auto simp: sent_store_def same_store_def store_ok_def)

lemma wb_advance:
  assumes "lsq_wf s" "w < length (sts s)" "shd s + w = lu_storeWBIt s" "se_canWB (sts s ! w)" "sent_store (sts s ! w) e"
  shows "lsq_wf ((set_store w e s)\<lparr>lu_isStoreBlocked := False, lu_storeWBIt := lu_storeWBIt s + 1\<rparr>)" (is "lsq_wf ?a")
    "lsq_wf ((set_store w e s)\<lparr>lu_isStoreBlocked := True\<rparr>)" (is "lsq_wf ?b")
    "map wb_view (sts (set_store w e s)) = map wb_view (sts s)"
proof -
  note P = wf_base_parts [OF assms(1)] and L = set_store_lists [OF wf_base_parts(2) [OF assms(1)] assms(2)]
  note S = assms(5) [unfolded sent_store_def]
  have eq: "se_canWB ((sts s)[w := e] ! j) = se_canWB (sts s ! j)" "se_completed ((sts s)[w := e] ! j) = se_completed (sts s ! j)"
    "sn ((sts s)[w := e] ! j) = sn (sts s ! j)" for j
    by (cases "j = w"; use assms(2) S in \<open>simp add: same_store_def\<close>)+
  have other: "j \<noteq> w \<Longrightarrow> (sts s)[w := e] ! j = sts s ! j" for j by simp
  have le: "lu_storeWBIt s + 1 \<le> li_sqIt (ei (lds s ! i))" if "i < length (lds s)" for i
  proof -
    have "sn (sts s ! w) < sn (lds s ! i)"
      using wf_base(2) [OF assms(1)] assms(2,4) that by (simp add: committed_older_def)
    then have "shd s + w < li_sqIt (ei (lds s ! i))" using cross_linkedD(1) [OF P(7) that assms(2)] by simp
    then show ?thesis using assms(3) by simp
  qed
  have W: "shd s \<le> lu_storeWBIt s" "lu_storeWBIt s \<le> shd s + length (sts s)" "\<forall>i<length (lds s). lu_storeWBIt s \<le> li_sqIt (ei (lds s ! i))"
    "\<And>k. k < length (sts s) \<Longrightarrow> shd s + k < lu_storeWBIt s \<Longrightarrow> se_canWB (sts s ! k)"
    "\<And>k. k < length (sts s) \<Longrightarrow> se_completed (sts s ! k) \<Longrightarrow> shd s + k < lu_storeWBIt s"
    "\<And>k. k < length (sts s) \<Longrightarrow> lu_storeWBIt s \<le> shd s + k \<Longrightarrow> se_committed (sts s ! k) \<or> li_memData (ei (sts s ! k)) \<Longrightarrow> shd s + k = lu_storeWBIt s"
    using P(8) unfolding wb_good_def by blast+
  have cm: "k = w" if "k < length (sts s)" "lu_storeWBIt s \<le> shd s + k" "se_committed ((sts s)[w := e] ! k) \<or> li_memData (ei ((sts s)[w := e] ! k))" for k
    using W(6) [OF that(1,2)] that(3) assms(3) other [of k] by (cases "k = w") auto
  have cn: "se_canWB (sts s ! k)" if "k < length (sts s)" "shd s + k < lu_storeWBIt s + 1" for k
    using W(4) [OF that(1)] that(2) assms(3,4) by (cases "k = w") auto
  have 1: "wb_good (shd s) ((sts s)[w := e]) (lds s) (lu_storeWBIt s + 1) False"
    unfolding wb_good_def length_list_update eq
  proof (intro conjI allI impI)
    fix k assume k: "k < length (sts s)"
    show "shd s + k < lu_storeWBIt s + 1 \<Longrightarrow> se_canWB (sts s ! k)" by (rule cn [OF k])
    show "se_completed (sts s ! k) \<Longrightarrow> shd s + k < lu_storeWBIt s + 1" using W(5) [OF k] by simp
    show "lu_storeWBIt s + 1 \<le> shd s + k \<and> (se_committed ((sts s)[w := e] ! k) \<or> li_memData (ei ((sts s)[w := e] ! k))) \<Longrightarrow> False"
      "lu_storeWBIt s + 1 \<le> shd s + k \<and> (se_committed ((sts s)[w := e] ! k) \<or> li_memData (ei ((sts s)[w := e] ! k))) \<Longrightarrow>
        shd s + k = lu_storeWBIt s + 1"
      using cm [OF k] assms(3) by auto
  qed (use W(1) le assms(2,3) in auto)
  have 2: "wb_good (shd s) ((sts s)[w := e]) (lds s) (lu_storeWBIt s) True"
    unfolding wb_good_def length_list_update eq
  proof (intro conjI allI impI)
    fix k assume k: "k < length (sts s)"
    show "shd s + k < lu_storeWBIt s \<Longrightarrow> se_canWB (sts s ! k)" by (rule W(4) [OF k])
    show "se_completed (sts s ! k) \<Longrightarrow> shd s + k < lu_storeWBIt s" by (rule W(5) [OF k])
    show "lu_storeWBIt s \<le> shd s + k \<and> (se_committed ((sts s)[w := e] ! k) \<or> li_memData (ei ((sts s)[w := e] ! k))) \<Longrightarrow>
        shd s + k = lu_storeWBIt s"
      using cm [OF k] assms(3) by auto
  next
    show "se_canWB (sts s ! (lu_storeWBIt s - shd s))" using assms(3,4) by (simp flip: assms(3))
  qed (use W(1-3) assms(2,3) in auto)
  have "map awaiting ((sts s)[w := e]) = map awaiting (sts s)"
    by (rule nth_equalityI) (simp_all add: awaiting_def eq)
  then have 3: "lu_storesToWB s = int (length (filter awaiting ((sts s)[w := e])))"
    using P(9) map_filter_length [of awaiting "(sts s)[w := e]" "sts s"] by simp
  have 4: "committed_older ((sts s)[w := e]) (lds s)"
    using wf_base(2) [OF assms(1)] unfolding committed_older_def all_set_conv_all_nth length_list_update eq .
  have G: "sq_good (shd s) ((sts s)[w := e])" "cross_linked (lhd s) (lds s) (shd s) ((sts s)[w := e])"
    using set_store_lists_good [OF wf_base(1) [OF assms(1)] assms(2)] S by blast+
  show "lsq_wf ?a" using P 1 3 4 G by (simp add: lsq_wf_def lsq_base_def L)
  show "lsq_wf ?b" using P 2 3 4 G by (simp add: lsq_wf_def lsq_base_def L)
  show "map wb_view (sts (set_store w e s)) = map wb_view (sts s)"
    using stores_from_update [OF P(2) assms(2)] S by (simp add: wb_view_def)
qed

text \<open>The stall of a unit that is well-formed up to its stores names a load of the queue.\<close>

definition stall_load :: "lsq_unit \<Rightarrow> bool" where
  "stall_load s \<longleftrightarrow> (lu_stalled s \<longrightarrow> (\<exists>i. lq_inst s (lu_stallingLoadIdx s) = Inr i))"

lemma wf_stall_load:
  assumes "lsq_wf t" "lu_loadQueue s = lu_loadQueue t" "lu_stalled s = lu_stalled t" "lu_stallingLoadIdx s = lu_stallingLoadIdx t"
  shows "stall_load s"
proof -
  have "lu_stalled t \<Longrightarrow> lq_inst t (lu_stallingLoadIdx t) = Inr (ei (lds t ! (lu_stallingLoadIdx t - lhd t)))"
    using wf_base_parts(10) [OF assms(1)] base_load_inst [OF wf_base(1) [OF assms(1)], of "lu_stallingLoadIdx t - lhd t"]
    by (auto simp: stall_good_def)
  then show ?thesis using assms(2-4) by (auto simp: stall_load_def lq_inst_def)
qed

text \<open>Everything the invariant reads, up to the end of a stall.\<close>

definition core_same :: "lsq_unit \<Rightarrow> lsq_unit \<Rightarrow> bool" where
  "core_same t s \<longleftrightarrow> lu_storeQueue s = lu_storeQueue t \<and> lu_loadQueue s = lu_loadQueue t \<and> lu_storeWBIt s = lu_storeWBIt t \<and>
    lu_isStoreBlocked s = lu_isStoreBlocked t \<and> lu_storesToWB s = lu_storesToWB t \<and>
    (lu_stalled s \<longrightarrow> lu_stalled t \<and> lu_stallingStoreIsn s = lu_stallingStoreIsn t \<and> lu_stallingLoadIdx s = lu_stallingLoadIdx t) \<and>
    lu_memDepViolator s = lu_memDepViolator t \<and> lu_depCheckShift s = lu_depCheckShift t \<and> lu_checkLoads s = lu_checkLoads t \<and>
    set (lu_calls t) \<subseteq> set (lu_calls s)"

lemma core_same_wf: "lsq_wf t \<Longrightarrow> core_same t s \<Longrightarrow> lsq_wf s"
  by (rule wf_transfer [of t]) (simp_all add: core_same_def)

lemma core_same_moved: "wb_moved s t \<Longrightarrow> core_same t u \<Longrightarrow> wb_moved s u"
  by (auto simp: wb_moved_def core_same_def stores_from_def)

lemma storePostSend_core:
  assumes "sq_inst s (lu_storeWBIt s) = Inr i" "stall_load s"
  shows "\<exists>s'. lsq_storePostSend s = Inr s' \<and> core_same (s\<lparr>lu_storeWBIt := lu_storeWBIt s + 1\<rparr>) s'"
proof (cases "lu_stalled s \<and> li_seqNum i = lu_stallingStoreIsn s")
  case True
  with assms(2) obtain j where "lq_inst s (lu_stallingLoadIdx s) = Inr j" by (auto simp: stall_load_def)
  then have "lq_inst (s\<lparr>lu_stalled := False, lu_stallingStoreIsn := 0\<rparr>) (lu_stallingLoadIdx s) = Inr j" by (simp add: lq_inst_def)
  then show ?thesis
    using assms(1) True by (auto simp: lsq_storePostSend_def lsq_unstall_def Let_def core_same_def)
next
  case False
  then have "lsq_unstall (li_seqNum i) s = Inr s" by (auto simp: lsq_unstall_def)
  then show ?thesis using assms(1) by (auto simp: lsq_storePostSend_def Let_def core_same_def)
qed

lemma send_store_core:
  assumes "sq_inst s (lu_storeWBIt s) = Inr i" "stall_load s"
  shows "\<exists>s'. lsq_send_store a s = Inr s' \<and>
    (core_same (s\<lparr>lu_isStoreBlocked := False, lu_storeWBIt := lu_storeWBIt s + 1\<rparr>) s' \<or> core_same (s\<lparr>lu_isStoreBlocked := True\<rparr>) s')"
proof (cases "\<not> wa_cacheBlocked a \<and> wa_portAvailable a \<and> wa_accepted a")
  case True
  let ?t = "lu_call (PacketSent (li_seqNum i)) (s\<lparr>lu_isStoreBlocked := False\<rparr>)"
  have "sq_inst ?t (lu_storeWBIt ?t) = Inr i" "stall_load ?t" using assms by (simp_all add: sq_inst_def stall_load_def lq_inst_def)
  from storePostSend_core [OF this] obtain s' where s': "lsq_storePostSend ?t = Inr s'"
    "core_same (?t\<lparr>lu_storeWBIt := lu_storeWBIt ?t + 1\<rparr>) s'" by blast
  moreover have "lsq_send_store a s = lsq_storePostSend ?t"
    using True assms(1) by (simp add: lsq_send_store_def lsq_trySendPacket_def Let_def)
  moreover have "core_same (s\<lparr>lu_isStoreBlocked := False, lu_storeWBIt := lu_storeWBIt s + 1\<rparr>) s'"
    using s'(2) by (auto simp: core_same_def)
  ultimately show ?thesis by (intro exI [where x = s']) simp
next
  case False
  then show ?thesis
    using assms(1) by (auto simp: lsq_send_store_def lsq_trySendPacket_def Let_def core_same_def)
qed

lemma completeStore_wbit:
  "lsq_completeStore i (s\<lparr>lu_storeWBIt := n\<rparr>) = rbind (lsq_completeStore i s) (\<lambda>s. Inr (s\<lparr>lu_storeWBIt := n\<rparr>))"
  by (simp add: lsq_completeStore_def sq_modify_def lsq_unstall_def lq_inst_def lu_call_def Let_def rbind_def split: sum.splits)

lemma completeStore_keeps_wbit:
  assumes "lsq_completeStore i s = Inr s'"
  shows "lu_storeWBIt s' = lu_storeWBIt s"
proof -
  have "lsq_completeStore i s = rbind (lsq_completeStore i s) (\<lambda>t. Inr (t\<lparr>lu_storeWBIt := lu_storeWBIt s\<rparr>))"
    using completeStore_wbit [of i "lu_storeWBIt s" s] by simp
  then have "s' = s'\<lparr>lu_storeWBIt := lu_storeWBIt s\<rparr>" using assms by simp
  then have "lu_storeWBIt s' = lu_storeWBIt (s'\<lparr>lu_storeWBIt := lu_storeWBIt s\<rparr>)" by (rule arg_cong)
  then show ?thesis by simp
qed

lemma completeStore_then_advance:
  assumes "lsq_completeStore i (s\<lparr>lu_storeWBIt := lu_storeWBIt s + 1\<rparr>) = Inr t"
  shows "\<exists>s'. lsq_completeStore i s = Inr s' \<and> s'\<lparr>lu_storeWBIt := lu_storeWBIt s' + 1\<rparr> = t"
  using assms completeStore_keeps_wbit [of i s] by (auto simp: completeStore_wbit rbind_eq_Inr)

section \<open>The loop\<close>

text \<open>A store at the iterator that has been marked as sent: it completes at once, or its packets go to the cache.\<close>

lemma sent_completes:
  assumes "lsq_wf s" "w < length (sts s)" "shd s + w = lu_storeWBIt s" "se_canWB (sts s ! w)" "sent_store (sts s ! w) d"
    "\<not> lu_isStoreBlocked s" "\<not> se_completed (sts s ! w)"
  shows "\<exists>s'. lsq_completeStore (lu_storeWBIt s) (lu_call x (set_store w d s)) = Inr s' \<and> lsq_wf (s'\<lparr>lu_storeWBIt := lu_storeWBIt s' + 1\<rparr>) \<and>
    wb_moved s (s'\<lparr>lu_storeWBIt := lu_storeWBIt s' + 1\<rparr>) \<and> (cq_empty (lu_storeQueue s') \<longrightarrow> cq_end (lu_storeQueue s') = lu_storeWBIt s' + 1)"
proof -
  let ?t = "set_store w d s"
  let ?u = "(lu_call x ?t)\<lparr>lu_storeWBIt := lu_storeWBIt (lu_call x ?t) + 1\<rparr>"
  note A = set_store_lists [OF wf_base_parts(2) [OF assms(1)] assms(2)] and V = wb_advance [OF assms(1-5)]
  have u: "lsq_wf ?u" by (rule core_same_wf [OF V(1)]) (use assms(6) in \<open>auto simp: core_same_def\<close>)
  have m: "wb_moved s ?u" using V(3) by (auto simp: wb_moved_def stores_from_def)
  have "w < length (sts ?u)" "shd ?u + w < lu_storeWBIt ?u" "\<not> se_completed (sts ?u ! w)"
    using assms(2,3,5,7) by (simp_all add: A sent_store_def)
  from completeStore_wf [OF u this] obtain v where v: "lsq_completeStore (lu_storeWBIt s) ?u = Inr v" "lsq_wf v" "wb_moved ?u v"
    using assms(3) by auto
  from completeStore_then_advance [OF v(1)] v(2) wb_moved_trans [OF m v(3)] obtain s' where
    s': "lsq_completeStore (lu_storeWBIt s) (lu_call x ?t) = Inr s'" "lsq_wf (s'\<lparr>lu_storeWBIt := lu_storeWBIt s' + 1\<rparr>)"
      "wb_moved s (s'\<lparr>lu_storeWBIt := lu_storeWBIt s' + 1\<rparr>)" by auto
  moreover have "cq_empty (lu_storeQueue s') \<Longrightarrow> cq_end (lu_storeQueue s') = lu_storeWBIt s' + 1"
    using wf_base_parts(2,8) [OF s'(2)] cq_end_eq [of "lu_storeQueue s'"] by (simp add: cq_empty_def wb_good_def)
  ultimately show ?thesis by blast
qed

lemma sent_goes:
  assumes "lsq_wf s" "w < length (sts s)" "shd s + w = lu_storeWBIt s" "se_canWB (sts s ! w)" "sent_store (sts s ! w) d"
    "le_inst d \<noteq> None"
  shows "\<exists>s'. lsq_send_store a (lu_call x (set_store w d s)) = Inr s' \<and> lsq_wf s' \<and> wb_moved s s'"
proof -
  let ?t = "set_store w d s" and ?p = "lu_call x (set_store w d s)"
  note P = wf_base_parts [OF assms(1)] and A = set_store_lists [OF wf_base_parts(2) [OF assms(1)] assms(2)] and V = wb_advance [OF assms(1-5)]
  have "sq_inst ?p (lu_storeWBIt ?p) = Inr (ei d)"
    using sq_inst_eq [of ?t w] assms(2,3,6) P(2) by (simp add: A sq_inst_def)
  moreover have "stall_load ?p" by (rule wf_stall_load [OF assms(1)]) simp_all
  ultimately obtain s' where s': "lsq_send_store a ?p = Inr s'"
    "core_same (?p\<lparr>lu_isStoreBlocked := False, lu_storeWBIt := lu_storeWBIt ?p + 1\<rparr>) s' \<or> core_same (?p\<lparr>lu_isStoreBlocked := True\<rparr>) s'"
    using send_store_core by blast
  have p: "lsq_wf (?p\<lparr>lu_isStoreBlocked := False, lu_storeWBIt := lu_storeWBIt ?p + 1\<rparr>)" "lsq_wf (?p\<lparr>lu_isStoreBlocked := True\<rparr>)"
    by (rule core_same_wf [OF V(1)], auto simp: core_same_def) (rule core_same_wf [OF V(2)], auto simp: core_same_def)
  have q: "wb_moved s (?p\<lparr>lu_isStoreBlocked := False, lu_storeWBIt := lu_storeWBIt ?p + 1\<rparr>)" "wb_moved s (?p\<lparr>lu_isStoreBlocked := True\<rparr>)"
    using V(3) by (auto simp: wb_moved_def stores_from_def)
  have "lsq_wf s'" "wb_moved s s'" using s'(2) core_same_wf [OF p(1)] core_same_wf [OF p(2)] core_same_moved [OF q(1)] core_same_moved [OF q(2)] by blast+
  then show ?thesis using s'(1) by blast
qed

lemma wb_round_wf:
  assumes "lsq_wf s" "lsq_wb_ready s = Inr True"
  shows "\<exists>go s'. lsq_wb_round a s = Inr (go, s') \<and> lsq_wf s' \<and> wb_moved s s'"
proof (cases "lu_isStoreBlocked s")
  case True
  then show ?thesis using assms(1) wb_moved_refl by (auto simp: lsq_wb_round_def)
next
  case nb: False
  note P = wf_base_parts [OF assms(1)]
  define w where "w = lu_storeWBIt s - shd s"
  have "cq_isValidIdx (lu_storeQueue s) (lu_storeWBIt s)"
    using assms(2) by (auto simp: lsq_wb_ready_def split: if_splits)
  then have w: "w < length (sts s)" "shd s + w = lu_storeWBIt s" by (auto simp: w_def cq_isValidIdx_def)
  let ?e = "sts s ! w"
  have get: "cq_get (lu_storeQueue s) (lu_storeWBIt s) = Inr ?e" using base_store_get [OF wf_base(1) [OF assms(1)] w(1)] w(2) by simp
  have can: "se_canWB ?e" using assms(2) get by (auto simp: lsq_wb_ready_def split: if_splits)
  have ok: "store_ok (shd s + w) ?e" by (rule base_store [OF wf_base(1) [OF assms(1)] w(1)])
  then have inst: "le_instruction ?e = Inr (ei ?e)" "le_inst ?e \<noteq> None" by (simp_all add: store_ok_def le_instruction_some)
  have new: "\<not> se_committed ?e" "\<not> li_memData (ei ?e)" "\<not> se_completed ?e"
    using P(8) nb w unfolding wb_good_def by (auto dest!: spec [where x = w])
  note self = sent_store_refl [OF ok]
  have same: "set_store w ?e s = s"
    using w(1) P(2) by (simp add: set_store_def cq_upd_def cq_list_nth list_update_id)
  let ?adv = "s\<lparr>lu_storeWBIt := lu_storeWBIt s + 1\<rparr>"
  have adv: "lsq_wf ?adv" "wb_moved s ?adv"
    using core_same_wf [OF wb_advance(1) [OF assms(1) w can self, unfolded same], of ?adv] nb
    by (simp_all add: wb_moved_def stores_from_def core_same_def)
  consider (empty) "le_size ?e = 0" | (prefetch) "le_size ?e \<noteq> 0" "li_isDataPrefetch (ei ?e)"
    | (send) "le_size ?e \<noteq> 0" "\<not> li_isDataPrefetch (ei ?e)" by blast
  then show ?thesis
  proof cases
    case empty
    from completeStore_wf [OF adv(1), of w] w new(3) obtain s' where "lsq_completeStore (lu_storeWBIt s) ?adv = Inr s'" "lsq_wf s'"
      "wb_moved ?adv s'" by auto
    then show ?thesis using nb get empty wb_moved_trans [OF adv(2)] by (auto simp: lsq_wb_round_def)
  next
    case prefetch
    then show ?thesis using nb get inst adv by (auto simp: lsq_wb_round_def)
  next
    case send
    then have "store_written ?e" using ok by (simp add: store_ok_def)
    then obtain r where r: "le_request ?e = Some r" "rq_size r = le_size ?e" "se_isAllZeros ?e \<or> unat (le_size ?e) \<le> length (se_data ?e)"
      "li_isStoreConditional (ei ?e) \<longrightarrow> \<not> rq_isLocalAccess r" by (auto simp: store_written_def split: option.splits)
    obtain bytes where b: "lsq_store_bytes r ?e = Inr bytes" using r(2,3) by (cases "se_isAllZeros ?e") (auto simp: lsq_store_bytes_def)
    show ?thesis
    proof (cases "(rq_isLLSC r \<or> rq_isRelease r) \<and> lu_storeWBIt s \<noteq> shd s")
      case True
      then show ?thesis using nb get inst send r(1) new assms(1) wb_moved_refl by (auto simp: lsq_wb_round_def)
    next
      case early: False
      let ?c = "?e\<lparr>se_committed := True\<rparr>"
      let ?d = "on_inst (\<lambda>i. i\<lparr>li_memData := True\<rparr>) ?c"
      let ?t = "set_store w ?d s"
      note A = set_store_lists [OF P(2) w(1)]
      have mod: "sq_modify (lu_storeWBIt s) (\<lambda>e. e\<lparr>se_committed := True\<rparr>) s = Inr (set_store w ?c s)"
          "sq_modify (lu_storeWBIt s) (on_inst (\<lambda>i. i\<lparr>li_memData := True\<rparr>)) (set_store w ?c s) = Inr ?t"
        using sq_modify_set [OF P(2) w(1)] sq_modify_set [of "set_store w ?c s" w] w A by (simp_all add: set_store_norm)
      have dv: "sent_store ?e ?d" "ei ?d = (ei ?e)\<lparr>li_memData := True\<rparr>" "le_inst ?d \<noteq> None"
        using inst(2) ok by (auto simp: sent_store_def same_store_def store_ok_def store_written_def store_view_def split: option.splits)
      have round: "lsq_wb_round a s =
          (if li_isStoreConditional (ei ?e) \<and> \<not> wa_reserved a then
            rbind (lsq_completeStore (lu_storeWBIt s) (lu_call (FailedConditional (sn ?e)) ?t)) (\<lambda>s.
            Inr (True, if cq_empty (lu_storeQueue s) then s\<lparr>lu_storeWBIt := cq_end (lu_storeQueue s)\<rparr>
                       else s\<lparr>lu_storeWBIt := lu_storeWBIt s + 1\<rparr>))
          else if rq_isLocalAccess r then
            rbind (check (\<not> li_isStoreConditional (ei ?e)) Assertion) (\<lambda>_.
            rbind (lsq_completeStore (lu_storeWBIt s) (lu_call (LocalAccess (sn ?e)) ?t)) (\<lambda>s.
            Inr (True, s\<lparr>lu_storeWBIt := lu_storeWBIt s + 1\<rparr>)))
          else
            rbind (lsq_send_store a (lu_call (BuildPackets (sn ?e) bytes) ?t)) (\<lambda>s. Inr (True, s)))"
        using nb get inst(1) send r(1) new early mod b by (auto simp: lsq_wb_round_def)
      note sent = assms(1) w can dv(1)
      show ?thesis
      proof (cases "li_isStoreConditional (ei ?e) \<and> \<not> wa_reserved a \<or> rq_isLocalAccess r")
        case True
        define x where "x = (if li_isStoreConditional (ei ?e) \<and> \<not> wa_reserved a then FailedConditional (sn ?e) else LocalAccess (sn ?e))"
        from sent_completes [OF sent nb new(3), of x] round True r(4) show ?thesis
          unfolding x_def by (cases "li_isStoreConditional (ei ?e) \<and> \<not> wa_reserved a") auto
      next
        case False
        from sent_goes [OF sent dv(3), of a "BuildPackets (sn ?e) bytes"] round False show ?thesis by auto
      qed
    qed
  qed
qed

lemma wb_ready_total:
  assumes "lsq_wf s"
  shows "\<exists>b. lsq_wb_ready s = Inr b"
proof -
  obtain x where "cq_get (lu_storeQueue s) (lu_storeWBIt s) = Inr x" using cq_get_any [OF wf_base_parts(2) [OF assms]] by blast
  then show ?thesis
    by (cases "lu_storesToWB s > 0 \<and> cq_isValidIdx (lu_storeQueue s) (lu_storeWBIt s)") (auto simp: lsq_wb_ready_def intro: exI [of _ False])
qed

lemma wb_loop_wf:
  assumes "lsq_wf s"
  shows "\<exists>s'. lsq_wb_loop answers s = Inr s' \<and> lsq_wf s' \<and> wb_moved s s'"
  using assms
proof (induction answers arbitrary: s)
  case Nil
  obtain b where "lsq_wb_ready s = Inr b" using wb_ready_total [OF Nil] by blast
  then show ?case using Nil wb_moved_refl by (subst lsq_wb_loop.simps) auto
next
  case (Cons a as)
  obtain b where b: "lsq_wb_ready s = Inr b" using wb_ready_total [OF Cons.prems] by blast
  show ?case
  proof (cases b)
    case False
    then show ?thesis using b Cons.prems wb_moved_refl by (subst lsq_wb_loop.simps) auto
  next
    case True
    with b have r: "lsq_wb_ready s = Inr True" by simp
    from wb_round_wf [OF Cons.prems r, of a] obtain go t where t: "lsq_wb_round a s = Inr (go, t)" "lsq_wf t" "wb_moved s t" by blast
    from Cons.IH [OF t(2)] obtain s' where "lsq_wb_loop as t = Inr s'" "lsq_wf s'" "wb_moved s s'"
      using wb_moved_trans [OF t(3)] by blast
    then show ?thesis using t b True by (subst lsq_wb_loop.simps) (cases go; auto)
  qed
qed

lemma writebackStores_wf:
  assumes "lsq_wf s"
  shows "\<exists>s'. lsq_writebackStores b answers s = Inr s' \<and> lsq_wf s' \<and> wb_moved s s'"
proof -
  obtain t where t: "(if lu_isStoreBlocked s then lsq_writebackBlockedStore b s else Inr s) = Inr t" "lsq_wf t" "wb_moved s t"
  proof (cases "lu_isStoreBlocked s")
    case True
    note P = wf_base_parts [OF assms]
    define w where "w = lu_storeWBIt s - shd s"
    have w: "w < length (sts s)" "shd s + w = lu_storeWBIt s" "se_canWB (sts s ! w)"
      using P(8) True by (auto simp: w_def wb_good_def)
    have ok: "store_ok (shd s + w) (sts s ! w)" by (rule base_store [OF wf_base(1) [OF assms] w(1)])
    have same: "set_store w (sts s ! w) s = s"
      using w(1) P(2) by (simp add: set_store_def cq_upd_def cq_list_nth list_update_id)
    note V = wb_advance [OF assms w sent_store_refl [OF ok], unfolded same]
    have "sq_inst s (lu_storeWBIt s) = Inr (ei (sts s ! w))" using base_store_inst [OF wf_base(1) [OF assms] w(1)] w(2) by simp
    moreover have "stall_load s" by (rule wf_stall_load [OF assms]) simp_all
    ultimately obtain t where t: "lsq_send_store b s = Inr t"
      "core_same (s\<lparr>lu_isStoreBlocked := False, lu_storeWBIt := lu_storeWBIt s + 1\<rparr>) t \<or> core_same (s\<lparr>lu_isStoreBlocked := True\<rparr>) t"
      using send_store_core by blast
    have "wb_moved s (s\<lparr>lu_isStoreBlocked := False, lu_storeWBIt := lu_storeWBIt s + 1\<rparr>)" "wb_moved s (s\<lparr>lu_isStoreBlocked := True\<rparr>)"
      by (simp_all add: wb_moved_def stores_from_def)
    then have "lsq_wf t" "wb_moved s t" using t(2) core_same_wf [OF V(1)] core_same_wf [OF V(2)] core_same_moved by blast+
    then show ?thesis using that [of t] t(1) True by (simp add: lsq_writebackBlockedStore_def)
  qed (use that [of s] assms wb_moved_refl in simp)
  from wb_loop_wf [OF t(2), of answers] obtain s' where s': "lsq_wb_loop answers t = Inr s'" "lsq_wf s'" "wb_moved t s'" by blast
  have "lu_storesToWB s' \<ge> 0" using wf_base_parts(9) [OF s'(2)] by simp
  then show ?thesis using t(1) s' wb_moved_trans [OF t(3) s'(3)] by (simp add: lsq_writebackStores_def)
qed

end
