(* ===== verification/Lsq_Order.thy ===== *)
theory Lsq_Order
  imports Lsq_Writeback
begin

text \<open>
  What a load of the load/store queue has read.  A load that has executed is sound if it has the bytes of the youngest
  older store that overlaps it among the stores still to be written back, or is condemned to be squashed; every operation
  of the unit keeps all loads sound.
\<close>

section \<open>Soundness of a load\<close>

definition load_bytes :: "lsq_inst \<Rightarrow> sq_entry \<Rightarrow> u8 list" where
  "load_bytes i e = map (\<lambda>j. store_byte e (unat (li_effAddr i) + j)) [0 ..< unat (li_effSize i)]"

definition load_key :: "lsq_entry \<Rightarrow> (seqnum \<times> bool \<times> u64 \<times> u32 \<times> bool) \<times> (seqnum \<times> seqnum)" where
  "load_key e = ((sn e, li_effAddrValid (ei e), li_effAddr (ei e), li_effSize (ei e), li_strictlyOrdered (ei e)),
     (li_forwardedFrom (ei e), li_violatingStoreSeqNum (ei e)))"

text \<open>
  \<open>P\<close> are the stores not yet written back, \<open>ss\<close> all stores of the queue, \<open>C\<close> tells what a pending squash takes.
\<close>

definition load_fresh :: "sq_entry set \<Rightarrow> (seqnum \<Rightarrow> bool) \<Rightarrow> lsq_entry \<Rightarrow> bool" where
  "load_fresh P C l \<longleftrightarrow> (li_effAddrValid (ei l) \<and> \<not> li_strictlyOrdered (ei l) \<longrightarrow>
     (\<forall>e \<in> P. participates e \<and> sn e < sn l \<and> overlaps (li_effAddr (ei l)) (li_effSize (ei l)) e \<longrightarrow>
        sn e \<le> li_forwardedFrom (ei l) \<or> C (sn l)))"

definition load_source :: "sq_entry set \<Rightarrow> lsq_call set \<Rightarrow> lsq_entry \<Rightarrow> bool" where
  "load_source S cs l \<longleftrightarrow> (li_effAddrValid (ei l) \<and> li_forwardedFrom (ei l) \<noteq> 0 \<longrightarrow>
     ((\<exists>e \<in> S. sn e = li_forwardedFrom (ei l)) \<or> (\<forall>e \<in> S. li_forwardedFrom (ei l) < sn e)) \<and>
     (\<forall>e \<in> S. sn e = li_forwardedFrom (ei l) \<longrightarrow> participates e \<and>
        bytes_at (li_effAddr (ei l)) (li_effSize (ei l)) \<subseteq> bytes_at (li_effAddr (ei e)) (le_size e) \<and>
        WritebackEvent (sn l) (load_bytes (ei l) e) \<in> cs))"

definition load_sound :: "sq_entry set \<Rightarrow> sq_entry set \<Rightarrow> lsq_call set \<Rightarrow> (seqnum \<Rightarrow> bool) \<Rightarrow> lsq_entry \<Rightarrow> bool" where
  "load_sound P S cs C l \<longleftrightarrow>
     (li_violatingStoreSeqNum (ei l) \<noteq> 0 \<longrightarrow> C (sn l)) \<and> li_forwardedFrom (ei l) < sn l \<and>
     (li_effAddrValid (ei l) \<longrightarrow> fits (li_effAddr (ei l)) (li_effSize (ei l))) \<and>
     load_fresh P C l \<and> load_source S cs l"

definition pending :: "lsq_unit \<Rightarrow> sq_entry list" where
  "pending s = drop (lu_storeWBIt s - shd s) (sts s)"

definition unit_sound :: "(seqnum \<Rightarrow> bool) \<Rightarrow> lsq_unit \<Rightarrow> bool" where
  "unit_sound C s \<longleftrightarrow> (\<forall>l \<in> set (lds s). load_sound (set (pending s)) (set (sts s)) (set (lu_calls s)) C l) \<and>
     (\<forall>e \<in> set (sts s). 0 < sn e)"

lemma store_view_cong:
  assumes "store_view e = store_view e'"
  shows "sn e = sn e'" "participates e = participates e'" "overlaps a n e = overlaps a n e'" "store_byte e = store_byte e'"
    "li_effAddr (ei e) = li_effAddr (ei e')" "le_size e = le_size e'"
proof -
  have v: "sn e = sn e'" "le_size e = le_size e'" "le_request e = le_request e'" "li_effAddr (ei e) = li_effAddr (ei e')"
    "li_strictlyOrdered (ei e) = li_strictlyOrdered (ei e')" "se_isAllZeros e = se_isAllZeros e'" "se_data e = se_data e'"
    using assms by (simp_all add: store_view_def)
  show "sn e = sn e'" "li_effAddr (ei e) = li_effAddr (ei e')" "le_size e = le_size e'" by (fact v)+
  show "participates e = participates e'" "overlaps a n e = overlaps a n e'" "store_byte e = store_byte e'"
    unfolding participates_def overlaps_def store_byte_def [abs_def] v by (rule refl)+
qed

lemma load_bytes_cong:
  assumes "store_view e = store_view e'" "li_effAddr i = li_effAddr j" "li_effSize i = li_effSize j"
  shows "load_bytes i e = load_bytes j e'"
  unfolding load_bytes_def store_view_cong(4) [OF assms(1)] assms(2,3) by (rule refl)

text \<open>Soundness is kept when stores disappear or keep their view, calls are added and more is condemned.\<close>

lemma load_sound_mono:
  assumes "load_sound P S cs C l" "load_key l' = load_key l"
    and P: "\<And>e. e \<in> P' \<Longrightarrow> \<exists>e0 \<in> P. store_view e = store_view e0"
    and S: "\<And>e. e \<in> S' \<Longrightarrow> \<exists>e0 \<in> S. store_view e = store_view e0"
    and F: "\<And>e0. e0 \<in> S \<Longrightarrow> sn e0 = li_forwardedFrom (ei l) \<Longrightarrow>
       (\<exists>e \<in> S'. sn e = li_forwardedFrom (ei l)) \<or> (\<forall>e \<in> S'. li_forwardedFrom (ei l) < sn e)"
    and "cs \<subseteq> cs'" "C (sn l) \<longrightarrow> C' (sn l)"
  shows "load_sound P' S' cs' C' l'"
proof -
  have k: "sn l' = sn l" "li_effAddrValid (ei l') = li_effAddrValid (ei l)" "li_effAddr (ei l') = li_effAddr (ei l)"
    "li_effSize (ei l') = li_effSize (ei l)" "li_strictlyOrdered (ei l') = li_strictlyOrdered (ei l)"
    "li_forwardedFrom (ei l') = li_forwardedFrom (ei l)" "li_violatingStoreSeqNum (ei l') = li_violatingStoreSeqNum (ei l)"
    using assms(2) by (simp_all add: load_key_def)
  have 1: "load_fresh P' C' l'"
    unfolding load_fresh_def k
  proof (intro impI ballI)
    fix e assume a: "li_effAddrValid (ei l) \<and> \<not> li_strictlyOrdered (ei l)" "e \<in> P'"
      "participates e \<and> sn e < sn l \<and> overlaps (li_effAddr (ei l)) (li_effSize (ei l)) e"
    from P [OF a(2)] obtain e0 where e0: "e0 \<in> P" "store_view e = store_view e0" by blast
    have "sn e0 \<le> li_forwardedFrom (ei l) \<or> C (sn l)"
      using assms(1) a(1,3) e0(1) unfolding load_sound_def load_fresh_def store_view_cong [OF e0(2)] by blast
    then show "sn e \<le> li_forwardedFrom (ei l) \<or> C' (sn l)" using assms(7) store_view_cong(1) [OF e0(2)] by auto
  qed
  have 2: "load_source S' cs' l'"
    unfolding load_source_def k
  proof (intro impI conjI ballI)
    assume a: "li_effAddrValid (ei l) \<and> li_forwardedFrom (ei l) \<noteq> 0"
    then have src: "(\<exists>e \<in> S. sn e = li_forwardedFrom (ei l)) \<or> (\<forall>e \<in> S. li_forwardedFrom (ei l) < sn e)"
      "\<forall>e \<in> S. sn e = li_forwardedFrom (ei l) \<longrightarrow> participates e \<and>
        bytes_at (li_effAddr (ei l)) (li_effSize (ei l)) \<subseteq> bytes_at (li_effAddr (ei e)) (le_size e) \<and>
        WritebackEvent (sn l) (load_bytes (ei l) e) \<in> cs"
      using assms(1) unfolding load_sound_def load_source_def by blast+
    show "(\<exists>e \<in> S'. sn e = li_forwardedFrom (ei l)) \<or> (\<forall>e \<in> S'. li_forwardedFrom (ei l) < sn e)"
    proof (cases "\<exists>e \<in> S. sn e = li_forwardedFrom (ei l)")
      case True
      then show ?thesis using F by blast
    next
      case False
      then have lt: "\<forall>e \<in> S. li_forwardedFrom (ei l) < sn e" using src(1) by blast
      have "li_forwardedFrom (ei l) < sn e" if "e \<in> S'" for e
      proof -
        from S [OF that] obtain e0 where e0: "e0 \<in> S" "store_view e = store_view e0" by blast
        show ?thesis using lt e0(1) store_view_cong(1) [OF e0(2)] by simp
      qed
      then show ?thesis by blast
    qed
    fix e assume e: "e \<in> S'" "sn e = li_forwardedFrom (ei l)"
    from S [OF e(1)] obtain e0 where e0: "e0 \<in> S" "store_view e = store_view e0" by blast
    have "load_bytes (ei l') e = load_bytes (ei l) e0" by (rule load_bytes_cong [OF e0(2)]) (simp_all add: k)
    then show "participates e" "bytes_at (li_effAddr (ei l)) (li_effSize (ei l)) \<subseteq> bytes_at (li_effAddr (ei e)) (le_size e)"
      "WritebackEvent (sn l) (load_bytes (ei l') e) \<in> cs'"
      using src(2) e0(1) e(2) assms(6) unfolding store_view_cong [OF e0(2)] by auto
  qed
  show ?thesis using assms(1,7) 1 2 unfolding load_sound_def k by blast
qed

definition same_sources :: "lsq_unit \<Rightarrow> lsq_unit \<Rightarrow> seqnum \<Rightarrow> bool" where
  "same_sources s s' f \<longleftrightarrow> (\<forall>e0 \<in> set (sts s). sn e0 = f \<longrightarrow> (\<exists>e \<in> set (sts s'). sn e = f) \<or> (\<forall>e \<in> set (sts s'). f < sn e))"

definition from_stores :: "sq_entry list \<Rightarrow> sq_entry list \<Rightarrow> bool" where
  "from_stores ss ss' \<longleftrightarrow> store_view ` set ss' \<subseteq> store_view ` set ss"

lemma from_storesD: "from_stores ss ss' \<Longrightarrow> e \<in> set ss' \<Longrightarrow> \<exists>e0 \<in> set ss. store_view e = store_view e0"
  unfolding from_stores_def by blast

lemma unit_sound_mono:
  assumes "unit_sound C s" "from_stores (pending s) (pending s')" "from_stores (sts s) (sts s')" "set (lu_calls s) \<subseteq> set (lu_calls s')"
    and L: "\<And>l'. l' \<in> set (lds s') \<Longrightarrow> \<exists>l \<in> set (lds s). load_key l' = load_key l \<and> (C (sn l) \<longrightarrow> C' (sn l)) \<and>
       same_sources s s' (li_forwardedFrom (ei l))"
  shows "unit_sound C' s'"
  unfolding unit_sound_def
proof (intro conjI ballI)
  fix l' assume l': "l' \<in> set (lds s')"
  from L [OF this] obtain l where l: "l \<in> set (lds s)" "load_key l' = load_key l" "C (sn l) \<longrightarrow> C' (sn l)"
    "same_sources s s' (li_forwardedFrom (ei l))" by blast
  show "load_sound (set (pending s')) (set (sts s')) (set (lu_calls s')) C' l'"
  proof (rule load_sound_mono [where C = C and C' = C' and P = "set (pending s)" and S = "set (sts s)" and l = l, OF _ l(2) _ _ _ assms(4) l(3)])
    show "load_sound (set (pending s)) (set (sts s)) (set (lu_calls s)) C l" using assms(1) l(1) by (simp add: unit_sound_def)
    show "\<exists>e0 \<in> set (pending s). store_view e = store_view e0" if "e \<in> set (pending s')" for e by (rule from_storesD [OF assms(2) that])
    show "\<exists>e0 \<in> set (sts s). store_view e = store_view e0" if "e \<in> set (sts s')" for e by (rule from_storesD [OF assms(3) that])
    show "(\<exists>e \<in> set (sts s'). sn e = li_forwardedFrom (ei l)) \<or> (\<forall>e \<in> set (sts s'). li_forwardedFrom (ei l) < sn e)"
      if "e0 \<in> set (sts s)" "sn e0 = li_forwardedFrom (ei l)" for e0
      using l(4) that unfolding same_sources_def by blast
  qed
next
  fix e assume "e \<in> set (sts s')"
  from from_storesD [OF assms(3) this] obtain e0 where e0: "e0 \<in> set (sts s)" "store_view e = store_view e0" by blast
  then show "0 < sn e" using assms(1) store_view_cong(1) [OF e0(2)] by (simp add: unit_sound_def)
qed

lemma from_stores_refl [simp]: "from_stores ss ss"
  by (simp add: from_stores_def)

lemma from_stores_view: "map store_view ss' = map store_view ss \<Longrightarrow> from_stores ss ss'"
  unfolding from_stores_def by (metis list.set_map order_refl)

lemma same_sources_view:
  assumes "map store_view (sts s') = map store_view (sts s)"
  shows "same_sources s s' f"
  unfolding same_sources_def
proof (intro ballI impI disjI1)
  fix e0 assume e0: "e0 \<in> set (sts s)" "sn e0 = f"
  then have "store_view e0 \<in> set (map store_view (sts s'))" unfolding assms by simp
  then obtain e where e: "e \<in> set (sts s')" "store_view e0 = store_view e" by auto
  then show "\<exists>e \<in> set (sts s'). sn e = f" using e0(2) store_view_cong(1) [OF e(2)] by auto
qed

lemma pending_view:
  assumes "map store_view (sts s') = map store_view (sts s)" "lu_storeWBIt s' = lu_storeWBIt s" "shd s' = shd s"
  shows "from_stores (pending s) (pending s')"
  by (rule from_stores_view) (simp add: pending_def assms(2,3) assms(1) flip: drop_map)

lemma wb_moved_sound:
  assumes "lsq_wf s" "lsq_wf s'" "wb_moved s s'" "unit_sound C s"
  shows "unit_sound C s'"
proof (rule unit_sound_mono [OF assms(4)])
  note W = assms(3) [unfolded wb_moved_def stores_from_def]
  define n where "n = shd s' - shd s"
  have "map wb_view (sts s') = map wb_view (drop n (sts s))" using W n_def by simp
  then have "map fst (map wb_view (sts s')) = map fst (map wb_view (drop n (sts s)))" by (rule arg_cong)
  then have v: "map store_view (sts s') = map store_view (drop n (sts s))" by (simp add: wb_view_def comp_def)
  show "from_stores (sts s) (sts s')"
    using v unfolding from_stores_def by (metis image_mono list.set_map set_drop_subset)
  have wb: "shd s' \<le> lu_storeWBIt s'" "shd s \<le> lu_storeWBIt s"
    using wf_base_parts(8) [OF assms(2)] wf_base_parts(8) [OF assms(1)] by (simp_all add: wb_good_def)
  then have "lu_storeWBIt s' - shd s' + n = (lu_storeWBIt s - shd s) + (lu_storeWBIt s' - lu_storeWBIt s)"
    using W by (simp add: n_def)
  then have "map store_view (pending s') = map store_view (drop (lu_storeWBIt s' - lu_storeWBIt s) (pending s))"
    using v by (simp add: pending_def drop_map [symmetric] add.commute)
  then show "from_stores (pending s) (pending s')"
    unfolding from_stores_def by (metis image_mono list.set_map set_drop_subset)
  show "set (lu_calls s) \<subseteq> set (lu_calls s')" using W by blast
  fix l assume l: "l \<in> set (lds s')"
  have "same_sources s s' f" for f
    unfolding same_sources_def
  proof (intro ballI impI)
    fix e0 assume e0: "e0 \<in> set (sts s)" "sn e0 = f"
    then obtain k where k: "k < length (sts s)" "sts s ! k = e0" by (auto simp: in_set_conv_nth)
    have len: "length (sts s') = length (sts s) - n" using map_eq_imp_length_eq [OF v] by simp
    have nth: "sn (sts s' ! j) = sn (sts s ! (n + j))" if "j < length (sts s')" for j
    proof -
      have "store_view (sts s' ! j) = store_view (drop n (sts s) ! j)" using map_view_nth [OF v [symmetric] that] by simp
      from store_view_cong(1) [OF this] show ?thesis using that len by simp
    qed
    show "(\<exists>e \<in> set (sts s'). sn e = f) \<or> (\<forall>e \<in> set (sts s'). f < sn e)"
    proof (cases "n \<le> k")
      case True
      then have j: "k - n < length (sts s')" using k(1) len by simp
      then have "sn (sts s' ! (k - n)) = f" using nth [OF j] True k e0(2) by simp
      then show ?thesis using nth_mem [OF j] by blast
    next
      case False
      have "f < sn e" if "e \<in> set (sts s')" for e
      proof -
        from that obtain j where j: "j < length (sts s')" "e = sts s' ! j" by (auto simp: in_set_conv_nth)
        have "sn (sts s ! k) < sn (sts s ! (n + j))"
          by (rule sorted_sn) (use wf_base_parts(6) [OF assms(1)] False j(1) len in \<open>auto simp: sq_good_def\<close>)
        then show ?thesis using nth [OF j(1)] j(2) k(2) e0(2) by simp
      qed
      then show ?thesis by blast
    qed
  qed
  then show "\<exists>l0 \<in> set (lds s). load_key l = load_key l0 \<and> (C (sn l0) \<longrightarrow> C (sn l0)) \<and> same_sources s s' (li_forwardedFrom (ei l0))"
    using l W by auto
qed

section \<open>Operations keep the loads sound\<close>

definition cond :: "(seqnum \<Rightarrow> bool) \<Rightarrow> lsq_unit \<Rightarrow> seqnum \<Rightarrow> bool" where
  "cond D s x \<longleftrightarrow> (case lu_memDepViolator s of None \<Rightarrow> False | Some v \<Rightarrow> v \<le> x) \<or> D x"

lemma cond_sunk: "violator_sunk s s' \<Longrightarrow> cond D s x \<Longrightarrow> cond D s' x"
  by (auto simp: cond_def violator_sunk_def split: option.splits)

lemma cond_same: "lu_memDepViolator s' = lu_memDepViolator s \<Longrightarrow> cond D s' = cond D s"
  by (simp add: cond_def fun_eq_iff)

lemma same_keys:
  assumes "unit_sound C s" "lu_storeQueue s' = lu_storeQueue s" "lu_storeWBIt s' = lu_storeWBIt s"
    "set (lu_calls s) \<subseteq> set (lu_calls s')" "load_key ` set (lds s') \<subseteq> load_key ` set (lds s)" "\<And>x. C x \<Longrightarrow> C' x"
  shows "unit_sound C' s'"
proof (rule unit_sound_mono [OF assms(1) _ _ assms(4)])
  show "from_stores (pending s) (pending s')" "from_stores (sts s) (sts s')" using assms(2,3) by (simp_all add: pending_def)
  fix l' assume "l' \<in> set (lds s')"
  then obtain l where "l \<in> set (lds s)" "load_key l' = load_key l" using assms(5) by blast
  moreover have "same_sources s s' f" for f by (rule same_sources_view) (simp add: assms(2))
  ultimately show "\<exists>l \<in> set (lds s). load_key l' = load_key l \<and> (C (sn l) \<longrightarrow> C' (sn l)) \<and> same_sources s s' (li_forwardedFrom (ei l))"
    using assms(6) by blast
qed

definition fresh_load :: "lsq_inst \<Rightarrow> bool" where
  "fresh_load i \<longleftrightarrow> li_isLoad i \<and> \<not> li_isSquashed i \<and> \<not> li_effAddrValid i \<and> li_forwardedFrom i = 0 \<and> li_violatingStoreSeqNum i = 0 \<and>
     0 < li_seqNum i"

definition fresh_store :: "lsq_inst \<Rightarrow> bool" where
  "fresh_store i \<longleftrightarrow> \<not> li_isLoad i \<and> \<not> li_isSquashed i \<and> \<not> li_memData i \<and> 0 < li_seqNum i"

lemma insertLoad_sound:
  assumes "lsq_wf s" "length (lds s) < cq_capacity (lu_loadQueue s)" "fresh_load i" "lsq_insertLoad i s = Inr s'" "unit_sound C s"
  shows "unit_sound C s'"
proof -
  obtain L: "lds s' = lds s @ [entered_load i s]" "lu_storeQueue s' = lu_storeQueue s" "lu_storeWBIt s' = lu_storeWBIt s" "lu_calls s' = lu_calls s"
    using insertLoad_lists [OF wf_base(1) [OF assms(1)] assms(2), of i] assms(4) by auto
  have "load_sound P S cs C (entered_load i s)" for P S cs
    using assms(3) by (simp add: load_sound_def load_fresh_def load_source_def entered_load_def ei_def fresh_load_def)
  then show ?thesis using assms(5) unfolding unit_sound_def pending_def L by auto
qed

lemma insertStore_sound:
  assumes "lsq_wf s" "length (sts s) < cq_capacity (lu_storeQueue s)" "fresh_store i" "newest (li_seqNum i) s"
    "lsq_insertStore i s = Inr s'" "unit_sound C s"
  shows "unit_sound C s'"
proof -
  let ?e = "entered_store i s"
  obtain L: "sts s' = sts s @ [?e]" "shd s' = shd s" "lu_loadQueue s' = lu_loadQueue s" "lu_storeWBIt s' = lu_storeWBIt s" "lu_calls s' = lu_calls s"
    using insertStore_lists [OF wf_base(1) [OF assms(1)] assms(2), of i] assms(5) by auto
  have e: "sn ?e = li_seqNum i" "\<not> participates ?e" by (simp_all add: entered_store_def ei_def participates_def)
  have pend: "set (pending s') \<subseteq> insert ?e (set (pending s))" by (auto simp: pending_def L drop_append split: if_splits dest: in_set_dropD)
  have "load_sound (set (pending s')) (set (sts s')) (set (lu_calls s')) C l" if l: "l \<in> set (lds s)" for l
  proof -
    have old: "load_sound (set (pending s)) (set (sts s)) (set (lu_calls s)) C l" using assms(6) l by (simp add: unit_sound_def)
    then have "li_forwardedFrom (ei l) < sn l" by (simp add: load_sound_def)
    also have "sn l < sn ?e" using assms(4) l by (simp add: newest_def e)
    finally have f: "li_forwardedFrom (ei l) < sn ?e" .
    have "load_fresh (set (pending s')) C l" using old pend e(2) unfolding load_sound_def load_fresh_def by blast
    moreover have "load_source (set (sts s')) (set (lu_calls s')) l"
      using old f unfolding load_sound_def load_source_def L by auto
    ultimately show ?thesis using old by (simp add: load_sound_def)
  qed
  then show ?thesis using assms(3,6) unfolding unit_sound_def L by (auto simp: e fresh_store_def)
qed

lemma kept_set: "set (kept q es) \<subseteq> set es" "e \<in> set (kept q es) \<Longrightarrow> sn e \<le> q"
  by (auto simp: kept_def dest: set_takeWhileD)

lemma squash_sound:
  assumes "lsq_wf s" "lds s' = kept q (lds s)" "sts s' = kept q (sts s)" "shd s' = shd s" "aux_same s s'"
    "unit_sound C s" "\<And>x. x \<le> q \<Longrightarrow> C x \<Longrightarrow> C' x"
  shows "unit_sound C' s'"
proof (rule unit_sound_mono [OF assms(6)])
  show "from_stores (sts s) (sts s')" using kept_set(1) unfolding from_stores_def assms(3) by (metis image_mono)
  have "set (drop n (kept q (sts s))) \<subseteq> set (drop n (sts s))" for n
    by (subst kept_take(1)) (metis drop_take set_take_subset)
  then show "from_stores (pending s) (pending s')"
    using assms(4,5) unfolding from_stores_def pending_def aux_same_def assms(3) by (metis image_mono)
  show "set (lu_calls s) \<subseteq> set (lu_calls s')" using assms(5) by (simp add: aux_same_def)
  fix l assume "l \<in> set (lds s')"
  then have l: "l \<in> set (lds s)" "sn l \<le> q" using kept_set(1) [of q "lds s"] kept_set(2) [of l q "lds s"] assms(2) by auto
  have "li_forwardedFrom (ei l) < sn l" using assms(6) l(1) by (simp add: unit_sound_def load_sound_def)
  with l(2) have f: "li_forwardedFrom (ei l) \<le> q" by simp
  have "same_sources s s' (li_forwardedFrom (ei l))"
    unfolding same_sources_def
  proof (intro ballI impI disjI1)
    fix e assume e: "e \<in> set (sts s)" "sn e = li_forwardedFrom (ei l)"
    then obtain k where k: "k < length (sts s)" "sts s ! k = e" by (auto simp: in_set_conv_nth)
    have srt: "sorted_wrt (<) (map sn (sts s))" using wf_base_parts(6) [OF assms(1)] by (simp add: sq_good_def)
    have "k < length (kept q (sts s))" using kept_iff [OF srt k(1), of q] k(2) e(2) f by simp
    then have "e \<in> set (sts s')" using kept_nth k(2) nth_mem unfolding assms(3) by metis
    then show "\<exists>e \<in> set (sts s'). sn e = li_forwardedFrom (ei l)" using e(2) by blast
  qed
  then show "\<exists>l0 \<in> set (lds s). load_key l = load_key l0 \<and> (C (sn l0) \<longrightarrow> C' (sn l0)) \<and> same_sources s s' (li_forwardedFrom (ei l0))"
    using l assms(7) by blast
qed

lemma commit_sound:
  assumes "sts s' = map (commit_mark n) (sts s)" "shd s' = shd s" "lu_storeWBIt s' = lu_storeWBIt s"
    "set (lds s') \<subseteq> set (lds s)" "set (lu_calls s) \<subseteq> set (lu_calls s')" "unit_sound C s"
  shows "unit_sound C s'"
proof (rule unit_sound_mono [OF assms(6) _ _ assms(5)])
  have v: "map store_view (sts s') = map store_view (sts s)" by (simp add: assms(1) commit_mark_def)
  show "from_stores (pending s) (pending s')" by (rule pending_view [OF v assms(3,2)])
  show "from_stores (sts s) (sts s')" by (rule from_stores_view [OF v])
  fix l assume "l \<in> set (lds s')"
  then show "\<exists>l0 \<in> set (lds s). load_key l = load_key l0 \<and> (C (sn l0) \<longrightarrow> C (sn l0)) \<and> same_sources s s' (li_forwardedFrom (ei l0))"
    using assms(4) same_sources_view [OF v] by blast
qed

section \<open>Executing stores and loads\<close>

lemma unat_last: "fits a n \<Longrightarrow> unat (a + ucast n - 1) = unat a + unat n - 1"
proof -
  assume f: "fits a n"
  then have "1 \<le> a + ucast n" using fits_end [OF f] by (simp add: word_le_nat_alt fits_def word_less_nat_alt)
  then show ?thesis using fits_end [OF f] by (simp add: unat_sub)
qed

text \<open>Accesses that share a byte share a granule of the dependence check.\<close>

lemma overlap_conflicts:
  assumes "fits (li_effAddr i) (li_effSize i)" "fits (li_effAddr j) (li_effSize j)"
    "unat (li_effAddr j) < unat (li_effAddr i) + unat (li_effSize i)" "unat (li_effAddr i) < unat (li_effAddr j) + unat (li_effSize j)"
    "li_effAddrValid j" "\<not> li_strictlyOrdered j"
  shows "conflicts shift i j"
proof -
  have "unat (li_effAddr j) div 2 ^ shift \<le> (unat (li_effAddr i) + unat (li_effSize i) - 1) div 2 ^ shift"
    by (rule div_le_mono) (use assms(3) in simp)
  moreover have "unat (li_effAddr i) div 2 ^ shift \<le> (unat (li_effAddr j) + unat (li_effSize j) - 1) div 2 ^ shift"
    by (rule div_le_mono) (use assms(4) in simp)
  ultimately show ?thesis
    using assms(5,6) by (simp add: conflicts_def eff_first_def eff_last_def word_le_nat_alt unat_drop_bit unat_last [OF assms(1)] unat_last [OF assms(2)])
qed

lemma store_outcome_sunk: "store_outcome i s f s' \<Longrightarrow> violator_sunk s s'"
  by (auto simp: store_outcome_def violator_sunk_def not_after_violator_def split: option.splits if_splits)

text \<open>After an executing store every younger load it conflicts with is settled towards it or condemned.\<close>

lemma store_outcome_covers:
  assumes "lsq_wf s" "store_outcome i s f s'" "j < length (lds s)" "li_lqIt i \<le> lhd s + j"
    "conflicts (lu_depCheckShift s) i (ei (lds s ! j))"
  shows "settled i (ei (lds s ! j)) \<or> cond D s' (sn (lds s ! j))"
proof (cases "settled i (ei (lds s ! j))")
  case False
  let ?P = "\<lambda>k. violates (lu_depCheckShift s) i (ei (lds s ! k))"
  have j: "?P j" "j \<in> set [li_lqIt i - lhd s ..< length (lds s)]" using assms(3-5) False by (auto simp: violates_def)
  then obtain k where k: "first_violated s i = Some k" unfolding first_violated_def by (metis (no_types, lifting) find_None_iff not_None_eq)
  then have "k \<le> j"
  proof -
    obtain m where m: "m < length [li_lqIt i - lhd s ..< length (lds s)]" "k = [li_lqIt i - lhd s ..< length (lds s)] ! m"
      "\<forall>m'<m. \<not> ?P ([li_lqIt i - lhd s ..< length (lds s)] ! m')"
      using k unfolding first_violated_def by (auto simp: find_Some_iff)
    have "\<not> j < k"
    proof
      assume "j < k"
      then have "j - (li_lqIt i - lhd s) < m" "[li_lqIt i - lhd s ..< length (lds s)] ! (j - (li_lqIt i - lhd s)) = j"
        using m(1,2) j(2) by auto
      then show False using m(3) j(1) by metis
    qed
    then show ?thesis by simp
  qed
  then have "sn (lds s ! k) \<le> sn (lds s ! j)"
    using wf_base_parts(5) [OF assms(1)] sorted_sn [of "lds s" k j] assms(3) by (cases "k = j") (auto simp: lq_good_def)
  then show ?thesis
    using assms(2) k by (auto simp: store_outcome_def cond_def not_after_violator_def split: if_splits option.splits)
qed simp

lemma pending_update:
  assumes "e \<in> set (pending s')" "sts s' = (sts s)[k := e']" "lu_storeWBIt s' = lu_storeWBIt s" "shd s' = shd s"
  shows "e = e' \<or> e \<in> set (pending s)"
proof -
  let ?n = "lu_storeWBIt s - shd s"
  from assms obtain j where j: "j < length (sts s) - ?n" "e = (sts s)[k := e'] ! (?n + j)"
    by (auto simp: pending_def in_set_conv_nth)
  show ?thesis
  proof (cases "?n + j = k")
    case True
    then show ?thesis using j by simp
  next
    case False
    then have "e = drop ?n (sts s) ! j" "j < length (drop ?n (sts s))" using j by simp_all
    then show ?thesis unfolding pending_def using nth_mem by blast
  qed
qed

lemma store_outcome_loads:
  assumes "store_outcome inst s f s'"
  shows "length (lds s') = length (lds s)"
    "i < length (lds s) \<Longrightarrow> lds s' ! i = lds s ! i \<or>
      lds s' ! i = on_inst (lsq_record_violation inst) (lds s ! i) \<and> cond D s' (sn (lds s ! i))"
proof -
  consider "lds s' = lds s"
    | j where "lds s' = (lds s)[j := on_inst (lsq_record_violation inst) (lds s ! j)]" "lu_memDepViolator s' = Some (sn (lds s ! j))"
    using assms by (auto simp: store_outcome_def split: option.splits if_splits)
  then have "length (lds s') = length (lds s) \<and> (i < length (lds s) \<longrightarrow> lds s' ! i = lds s ! i \<or>
      lds s' ! i = on_inst (lsq_record_violation inst) (lds s ! i) \<and> cond D s' (sn (lds s ! i)))"
  proof cases
    case (2 j)
    then show ?thesis unfolding 2(1) by (cases "i = j") (simp_all add: cond_def)
  qed simp
  then show "length (lds s') = length (lds s)" "i < length (lds s) \<Longrightarrow> lds s' ! i = lds s ! i \<or>
      lds s' ! i = on_inst (lsq_record_violation inst) (lds s ! i) \<and> cond D s' (sn (lds s ! i))" by blast+
qed

lemma store_outcome_keys:
  assumes "lsq_wf s" "store_outcome inst s f s'" "i < length (lds s)"
  shows "fst (load_key (lds s' ! i)) = fst (load_key (lds s ! i))" "li_forwardedFrom (ei (lds s' ! i)) = li_forwardedFrom (ei (lds s ! i))"
    "li_violatingStoreSeqNum (ei (lds s' ! i)) \<noteq> 0 \<Longrightarrow> li_violatingStoreSeqNum (ei (lds s ! i)) \<noteq> 0 \<or> cond D s' (sn (lds s ! i))"
proof -
  have "ei (on_inst (lsq_record_violation inst) (lds s ! i)) = lsq_record_violation inst (ei (lds s ! i))"
    by (rule ei_on_inst) (use base_load [OF wf_base(1) [OF assms(1)] assms(3)] in \<open>simp add: load_ok_def\<close>)
  then show "fst (load_key (lds s' ! i)) = fst (load_key (lds s ! i))" "li_forwardedFrom (ei (lds s' ! i)) = li_forwardedFrom (ei (lds s ! i))"
    "li_violatingStoreSeqNum (ei (lds s' ! i)) \<noteq> 0 \<Longrightarrow> li_violatingStoreSeqNum (ei (lds s ! i)) \<noteq> 0 \<or> cond D s' (sn (lds s ! i))"
    using store_outcome_loads(2) [OF assms(2,3), of D] by (auto simp: load_key_def lsq_record_violation_def)
qed

text \<open>A store that has just executed: what the loads see of it.\<close>

lemma executed_store_fresh:
  assumes "lsq_wf s" "k < length (sts s)" "load_sound P S cs (cond D s) (lds s ! i)" "i < length (lds s)"
    and e': "sn e' = sn (sts s ! k)" "li_lqIt (ei e') = li_lqIt (ei (sts s ! k))" "li_effSize (ei e') = le_size e'"
      "fits (li_effAddr (ei e')) (le_size e')" "store_outcome (ei e') s f s'"
    and a: "li_effAddrValid (ei (lds s ! i))" "\<not> li_strictlyOrdered (ei (lds s ! i))" "sn e' < sn (lds s ! i)"
      "overlaps (li_effAddr (ei (lds s ! i))) (li_effSize (ei (lds s ! i))) e'"
  shows "sn e' \<le> li_forwardedFrom (ei (lds s ! i)) \<or> cond D s' (sn (lds s ! i))"
proof -
  let ?l = "lds s ! i"
  have fl: "fits (li_effAddr (ei ?l)) (li_effSize (ei ?l))" using assms(3) a(1) by (simp add: load_sound_def)
  have "conflicts (lu_depCheckShift s) (ei e') (ei ?l)"
    by (rule overlap_conflicts [OF _ fl _ _ a(1,2)]) (use e'(3,4) a(4) in \<open>simp_all add: overlaps_def\<close>)
  moreover have "li_lqIt (ei e') \<le> lhd s + i"
    using cross_linkedD(2) [OF wf_base_parts(7) [OF assms(1)] assms(4,2)] a(3) e'(1,2) by simp
  ultimately have "settled (ei e') (ei ?l) \<or> cond D s' (sn ?l)" using store_outcome_covers [OF assms(1) e'(5) assms(4)] by blast
  moreover have "li_violatingStoreSeqNum (ei ?l) \<noteq> 0 \<longrightarrow> cond D s' (sn ?l)"
    using assms(3) cond_sunk [OF store_outcome_sunk [OF e'(5)]] by (auto simp: load_sound_def)
  ultimately show ?thesis by (auto simp: settled_def)
qed

lemma executed_store_source:
  assumes "load_source (set (sts s)) cs l" "k < length (sts s)" "\<not> participates (sts s ! k)" "sn e' = sn (sts s ! k)"
    "cs \<subseteq> cs'" "fst (load_key l') = fst (load_key l)" "li_forwardedFrom (ei l') = li_forwardedFrom (ei l)"
  shows "load_source (set ((sts s)[k := e'])) cs' l'"
proof (cases "li_effAddrValid (ei l) \<and> li_forwardedFrom (ei l) \<noteq> 0")
  case True
  let ?f = "li_forwardedFrom (ei l)"
  have key: "sn l' = sn l" "li_effAddrValid (ei l') = li_effAddrValid (ei l)" "li_effAddr (ei l') = li_effAddr (ei l)"
    "li_effSize (ei l') = li_effSize (ei l)" using assms(6) by (simp_all add: load_key_def)
  have lb: "load_bytes (ei l') e = load_bytes (ei l) e" for e by (simp add: load_bytes_def key)
  note src = assms(1) [unfolded load_source_def, rule_format, OF True]
  have kin: "sts s ! k \<in> set (sts s)" using assms(2) by simp
  have ne: "sn (sts s ! k) \<noteq> ?f" using src kin assms(3) by blast
  have sub: "set ((sts s)[k := e']) \<subseteq> insert e' (set (sts s))" by (rule set_update_subset_insert)
  have mem: "e \<in> set ((sts s)[k := e'])" if "e \<in> set (sts s)" "sn e = ?f" for e
  proof -
    from that(1) obtain j where j: "j < length (sts s)" "sts s ! j = e" unfolding in_set_conv_nth by blast
    then have "(sts s)[k := e'] ! j = e" using ne that(2) by (cases "j = k") auto
    then show ?thesis using j(1) nth_mem [of j "(sts s)[k := e']"] by simp
  qed
  have "(\<exists>e \<in> set ((sts s)[k := e']). sn e = ?f) \<or> (\<forall>e \<in> set ((sts s)[k := e']). ?f < sn e)"
  proof (cases "\<exists>e \<in> set (sts s). sn e = ?f")
    case True
    then show ?thesis using mem by blast
  next
    case False
    then have "\<forall>e \<in> set (sts s). ?f < sn e" using src by blast
    then show ?thesis using kin assms(4) sub by auto
  qed
  moreover have "e \<in> set (sts s)" if "e \<in> set ((sts s)[k := e'])" "sn e = ?f" for e using that ne assms(4) sub by auto
  ultimately show ?thesis using src assms(5) unfolding load_source_def key lb assms(7) by blast
next
  case False
  moreover have "li_effAddrValid (ei l') = li_effAddrValid (ei l)" using assms(6) by (simp add: load_key_def)
  ultimately show ?thesis unfolding load_source_def assms(7) by blast
qed

lemma executeStore_sound:
  assumes "lsq_wf s" "k < length (sts s)" "plain_store (sts s ! k)"
    and e': "ei e' = push_inst r (ei (sts s ! k))" "le_size e' = rq_size r" "store_written e'" "le_request e' = Some r"
      "sts s' = (sts s)[k := e']" "shd s' = shd s"
    and "aux_same s s'" "store_outcome (ei e') s f s'" "unit_sound (cond D s) s"
  shows "unit_sound (cond D s') s'"
proof -
  have sn: "sn e' = sn (sts s ! k)" "li_lqIt (ei e') = li_lqIt (ei (sts s ! k))" "li_effSize (ei e') = le_size e'"
    using e'(1,2) by (simp_all add: push_inst_def)
  have fit: "fits (li_effAddr (ei e')) (le_size e')" using e'(1-4) by (simp add: store_written_def)
  have aux: "lu_storeWBIt s' = lu_storeWBIt s" "set (lu_calls s) \<subseteq> set (lu_calls s')" using assms(10) by (simp_all add: aux_same_def)
  have np: "\<not> participates (sts s ! k)" using assms(3) by (simp add: plain_store_def participates_def)
  have "load_sound (set (pending s')) (set (sts s')) (set (lu_calls s')) (cond D s') (lds s' ! i)" if i: "i < length (lds s)" for i
  proof -
    let ?l = "lds s ! i"
    have old: "load_sound (set (pending s)) (set (sts s)) (set (lu_calls s)) (cond D s) ?l" using assms(12) i by (simp add: unit_sound_def)
    note key = store_outcome_keys(1,2) [OF assms(1,11) i] store_outcome_keys(3) [OF assms(1,11) i, where D = D]
    have k: "sn (lds s' ! i) = sn ?l" "li_effAddrValid (ei (lds s' ! i)) = li_effAddrValid (ei ?l)" "li_effAddr (ei (lds s' ! i)) = li_effAddr (ei ?l)"
      "li_effSize (ei (lds s' ! i)) = li_effSize (ei ?l)" "li_strictlyOrdered (ei (lds s' ! i)) = li_strictlyOrdered (ei ?l)"
      using key(1) by (simp_all add: load_key_def)
    have C: "cond D s (sn ?l) \<Longrightarrow> cond D s' (sn ?l)" by (rule cond_sunk [OF store_outcome_sunk [OF assms(11)]])
    have "load_fresh (set (pending s')) (cond D s') (lds s' ! i)"
      unfolding load_fresh_def k key(2)
    proof (intro impI ballI)
      fix e assume a: "li_effAddrValid (ei ?l) \<and> \<not> li_strictlyOrdered (ei ?l)" "e \<in> set (pending s')"
        "participates e \<and> sn e < sn ?l \<and> overlaps (li_effAddr (ei ?l)) (li_effSize (ei ?l)) e"
      from pending_update [OF a(2) e'(5) aux(1) e'(6)] show "sn e \<le> li_forwardedFrom (ei ?l) \<or> cond D s' (sn ?l)"
      proof
        assume "e = e'"
        then show ?thesis using executed_store_fresh [OF assms(1,2) old i sn fit assms(11)] a(1,3) by blast
      next
        assume "e \<in> set (pending s)"
        then show ?thesis using old a C unfolding load_sound_def load_fresh_def by blast
      qed
    qed
    moreover have "load_source (set (sts s')) (set (lu_calls s')) (lds s' ! i)"
      unfolding e'(5) by (rule executed_store_source [OF _ assms(2) np sn(1) aux(2) key(1,2)]) (use old in \<open>simp add: load_sound_def\<close>)
    ultimately show ?thesis using old C key(3) unfolding load_sound_def k key(2) by blast
  qed
  moreover have "0 < sn e" if "e \<in> set (sts s')" for e
    using that assms(2,12) set_update_subset_insert [of "sts s" k e'] sn(1) unfolding e'(5) unit_sound_def by auto
  ultimately show ?thesis unfolding unit_sound_def by (metis in_set_conv_nth store_outcome_loads(1) [OF assms(11)])
qed

text \<open>The supplier is the youngest of the stores a load looks at that overlap it.\<close>

lemma supplier_youngest:
  assumes "lsq_wf s" "l < length (lds s)" "e \<in> set (pending s)" "sn e < sn (lds s ! l)" "suppliers r e"
  shows "\<exists>k. supplier r s l = Some k \<and> sn e \<le> sn (sts s ! k)"
proof -
  let ?P = "\<lambda>k. suppliers r (sts s ! k)"
  note P = wf_base_parts [OF assms(1)]
  from assms(3) obtain j where j: "j < length (sts s) - (lu_storeWBIt s - shd s)" "e = sts s ! (lu_storeWBIt s - shd s + j)"
    by (auto simp: pending_def in_set_conv_nth)
  define m where "m = lu_storeWBIt s - shd s + j"
  have m: "m < length (sts s)" "e = sts s ! m" "lu_storeWBIt s - shd s \<le> m" using j by (simp_all add: m_def)
  have "shd s + m < li_sqIt (ei (lds s ! l))" using cross_linkedD(1) [OF P(7) assms(2) m(1)] assms(4) m(2) by simp
  then have ms: "m \<in> set (scanned s l)" using m(3) by (simp add: scanned_def)
  then obtain k where k: "supplier r s l = Some k"
    unfolding supplier_def using assms(5) m(2) by (metis (no_types, lifting) find_None_iff not_None_eq set_rev)
  then obtain i where i: "i < length (scanned s l)" "k = rev (scanned s l) ! i" "\<forall>i'<i. \<not> ?P (rev (scanned s l) ! i')"
    unfolding supplier_def by (auto simp: find_Some_iff)
  let ?a = "lu_storeWBIt s - shd s" and ?b = "li_sqIt (ei (lds s ! l)) - shd s"
  have r: "rev (scanned s l) ! i' = ?b - Suc i'" if "i' < length (scanned s l)" for i'
    using that by (simp add: scanned_def rev_nth)
  have "m \<le> k"
  proof (rule ccontr)
    assume "\<not> m \<le> k"
    moreover have "m < ?b" "k = ?b - Suc i" "i < ?b - ?a" using i(1,2) r [OF i(1)] ms by (simp_all add: scanned_def)
    ultimately have lt: "?b - Suc m < i" "?b - Suc (?b - Suc m) = m" by linarith+
    moreover have "rev (scanned s l) ! (?b - Suc m) = m" using r [of "?b - Suc m"] i(1) lt by linarith
    ultimately show False using i(3) assms(5) m(2) by metis
  qed
  moreover have "k < length (sts s)" using scanned_mem(1) [OF assms(1,2)] supplier_mem [OF k] by blast
  ultimately have "sn e \<le> sn (sts s ! k)"
    using sorted_sn [of "sts s" m k] P(6) m(2) by (cases "m = k") (auto simp: sq_good_def)
  then show ?thesis using k by blast
qed

lemma loaded_sound:
  assumes "lsq_wf s" "l < length (lds s)" "li_forwardedFrom (ei (lds s ! l)) = 0" "fits (rq_vaddr r) (rq_size r)"
    "same_inst (ei (lds s ! l)) (ei e)" "loaded r l s s' (ei e)" "li_violatingStoreSeqNum (ei e) \<noteq> 0 \<Longrightarrow> C (sn e)" "0 < sn e"
  shows "load_sound (set (pending s)) (set (sts s)) (set (lu_calls s')) C e"
proof (cases "li_effAddrValid (ei e)")
  case False
  then show ?thesis using assms(3,6-8) by (auto simp: load_sound_def load_fresh_def load_source_def loaded_def)
next
  case True
  have sn: "sn e = sn (lds s ! l)" using assms(5) by (simp add: same_inst_def)
  have a: "li_effAddr (ei e) = rq_vaddr r" "li_effSize (ei e) = rq_size r" using assms(6) True by (auto simp: loaded_def)
  consider "supplier r s l = None" "li_forwardedFrom (ei e) = 0"
    | k where "supplier r s l = Some k" "can_forward r (sts s ! k)" "li_forwardedFrom (ei e) = sn (sts s ! k)"
        "WritebackEvent (sn e) (bytes_from r (sts s ! k)) \<in> set (lu_calls s')"
    using assms(3,6) True sn by (auto simp: loaded_def)
  then show ?thesis
  proof cases
    case 1
    then have "load_fresh (set (pending s)) C e"
      using supplier_youngest [OF assms(1,2)] unfolding load_fresh_def a sn suppliers_def by force
    then show ?thesis using 1 assms(4,7,8) by (simp add: load_sound_def load_source_def a)
  next
    case (2 k)
    note M = scanned_mem [OF assms(1,2)] and K = supplier_mem [OF 2(1)]
    have k: "k < length (sts s)" "sn (sts s ! k) < sn e" using M(1,2) K sn by auto
    have "load_fresh (set (pending s)) C e"
      using supplier_youngest [OF assms(1,2)] 2(1,3) unfolding load_fresh_def a sn suppliers_def by force
    moreover have "e' = sts s ! k" if "e' \<in> set (sts s)" "sn e' = sn (sts s ! k)" for e'
    proof -
      from that obtain j where j: "j < length (sts s)" "e' = sts s ! j" unfolding in_set_conv_nth by blast
      have srt: "sorted_wrt (<) (map sn (sts s))" using wf_base_parts(6) [OF assms(1)] by (simp add: sq_good_def)
      have "j = k" using sorted_sn [OF srt, of j k] sorted_sn [OF srt, of k j] j k(1) that(2) by (cases j k rule: linorder_cases) auto
      then show ?thesis using j(2) by simp
    qed
    then have "load_source (set (sts s)) (set (lu_calls s')) e"
      using 2 K k(1) unfolding load_source_def a load_bytes_def bytes_from_def can_forward_def suppliers_def by (metis nth_mem)
    ultimately show ?thesis using 2(3) k(2) assms(4,7) by (simp add: load_sound_def a)
  qed
qed

lemma load_view_key: "load_view e = load_view e' \<Longrightarrow> load_key e = load_key e'"
  by (simp add: load_view_def load_key_def)

lemma executeLoad_sound:
  assumes "lsq_wf s" "l < length (lds s)" "li_forwardedFrom (ei (lds s ! l)) = 0" "fits (rq_vaddr r) (rq_size r)"
    and s': "lu_storeQueue s' = lu_storeQueue s" "aux_same s s'" "violator_sunk s s'"
      "map load_view (lds s') = map load_view ((lds s)[l := e'])"
    and e': "same_inst (ei (lds s ! l)) (ei e')" "loaded r l s s' (ei e')" and "unit_sound (cond D s) s"
  shows "unit_sound (cond D s') s'"
proof -
  have aux: "lu_storeWBIt s' = lu_storeWBIt s" "set (lu_calls s) \<subseteq> set (lu_calls s')" using s'(2) by (simp_all add: aux_same_def)
  have pend: "pending s' = pending s" by (simp add: pending_def s'(1) aux(1))
  have old: "load_sound (set (pending s)) (set (sts s)) (set (lu_calls s)) (cond D s) (lds s ! i)" if "i < length (lds s)" for i
    using assms(11) that by (simp add: unit_sound_def)
  have new: "load_sound (set (pending s)) (set (sts s)) (set (lu_calls s')) (cond D s') e'"
  proof (rule loaded_sound [OF assms(1-4) e'])
    have sn: "sn e' = sn (lds s ! l)" using e'(1) by (simp add: same_inst_def)
    show "cond D s' (sn e')" if "li_violatingStoreSeqNum (ei e') \<noteq> 0"
      using old [OF assms(2)] e'(1) that cond_sunk [OF s'(3)] unfolding load_sound_def same_inst_def by auto
    show "0 < sn e'" using old [OF assms(2)] assms(3) sn by (simp add: load_sound_def)
  qed
  have "load_sound (set (pending s)) (set (sts s)) (set (lu_calls s')) (cond D s') x" if "x \<in> set (lds s')" for x
  proof -
    have len: "length (lds s') = length (lds s)" using map_eq_imp_length_eq [OF s'(4)] by simp
    from that obtain i where i: "i < length (lds s)" "x = lds s' ! i" unfolding in_set_conv_nth len by blast
    have "load_view x = load_view ((lds s)[l := e'] ! i)" using map_view_nth [OF s'(4), of i] i by simp
    then have k: "load_key x = load_key ((lds s)[l := e'] ! i)" by (rule load_view_key)
    show ?thesis
    proof (cases "i = l")
      case True
      then show ?thesis using k assms(2) by (intro load_sound_mono [OF new]) auto
    next
      case False
      then show ?thesis using k aux(2) cond_sunk [OF s'(3), of D "sn (lds s ! i)"] by (intro load_sound_mono [OF old [OF i(1)]]) auto
    qed
  qed
  then show ?thesis using assms(11) unfolding unit_sound_def pend s'(1) by blast
qed

end
