(* ===== verification/Lsq_System.thy ===== *)
theory Lsq_System
  imports Lsq_Order
begin

text \<open>
  The load/store queue together with the redirects of the execute stage (\<^verbatim>\<open>IEW::executeInsts\<close> of \<^verbatim>\<open>cpu/o3/iew.cc\<close>): any
  sequence of dispatches, executions, commits, squashes, write-backs, responses and snoops.  No operation of such a
  sequence runs into an assertion or a panic, and a load that has executed and is not about to be squashed has the bytes
  of the youngest older store that overlaps it, if such a store has executed and is still to be written back.
\<close>

section \<open>Redirects of the execute stage\<close>

text \<open>
  A squash request: the sequence number and whether the instruction itself goes too.  \<open>ys_squash\<close> is the one being built
  in \<^verbatim>\<open>toCommit\<close> in this cycle, \<open>ys_flight\<close> are those on their way to commit and back.
\<close>

type_synonym redirect = "seqnum \<times> bool"

record lsq_sys =
  ys_unit :: lsq_unit
  ys_fetchRedirect :: bool
  ys_squash :: "redirect option"
  ys_flight :: "redirect list"

definition iew_squashDueToBranch :: "seqnum \<Rightarrow> lsq_sys \<Rightarrow> lsq_sys" where
  "iew_squashDueToBranch n y =
     (case ys_squash y of None \<Rightarrow> y\<lparr>ys_squash := Some (n, False)\<rparr>
      | Some (p, inc) \<Rightarrow> if n < p then y\<lparr>ys_squash := Some (n, False)\<rparr> else y)"

definition iew_squashDueToMemOrder :: "seqnum \<Rightarrow> lsq_sys \<Rightarrow> lsq_sys" where
  "iew_squashDueToMemOrder n y =
     (case ys_squash y of None \<Rightarrow> y\<lparr>ys_squash := Some (n, True)\<rparr>
      | Some (p, inc) \<Rightarrow> if n \<le> p then y\<lparr>ys_squash := Some (n, True)\<rparr> else y)"

text \<open>What \<^verbatim>\<open>executeInsts\<close> does after an instruction; \<open>mispredicted\<close> is its test for a branch to redirect.\<close>

definition iew_checkRedirect :: "seqnum \<Rightarrow> bool \<Rightarrow> bool \<Rightarrow> lsq_sys \<Rightarrow> lsq_sys res" where
  "iew_checkRedirect n isMemRef mispredicted y =
     (if \<not> ys_fetchRedirect y \<or> (case ys_squash y of None \<Rightarrow> True | Some (p, inc) \<Rightarrow> n < p) then
        if mispredicted then Inr (iew_squashDueToBranch n (y\<lparr>ys_fetchRedirect := True\<rparr>))
        else (case lsq_getMemDepViolator (ys_unit y) of
          (None, u) \<Rightarrow> Inr y
        | (Some v, u) \<Rightarrow> rbind (check isMemRef Assertion) (\<lambda>_.
            Inr (iew_squashDueToMemOrder v (y\<lparr>ys_unit := u, ys_fetchRedirect := True\<rparr>))))
      else (case lsq_getMemDepViolator (ys_unit y) of
          (None, u) \<Rightarrow> Inr y
        | (Some v, u) \<Rightarrow> rbind (check isMemRef Assertion) (\<lambda>_. Inr (y\<lparr>ys_unit := u\<rparr>))))"

text \<open>
  A load and a store in \<^verbatim>\<open>executeInsts\<close>.  The instruction of a queue entry is not squashed: a squash removes the entry.
\<close>

definition iew_executeLoad :: "lsq_request \<Rightarrow> bool \<Rightarrow> bool \<Rightarrow> bool \<Rightarrow> nat \<Rightarrow> lsq_sys \<Rightarrow> lsq_sys res" where
  "iew_executeLoad request outstanding sent mispredicted idx y =
     rbind (lsq_executeLoad (lsq_pushLoad request outstanding sent) idx (ys_unit y)) (\<lambda>(fault, u).
     rbind (lq_inst u idx) (\<lambda>inst.
     if li_translationDelayed inst \<and> fault = NoFault then Inr (y\<lparr>ys_unit := lu_call (DeferMemInst (li_seqNum inst)) u\<rparr>)
     else
       rbind (if li_isDataPrefetch inst \<or> li_isInstPrefetch inst then lq_modify idx (on_inst (\<lambda>i. i\<lparr>li_fault := NoFault\<rparr>)) u
              else Inr u) (\<lambda>u.
       iew_checkRedirect (li_seqNum inst) True (mispredicted \<and> li_isExecuted inst) (y\<lparr>ys_unit := u\<rparr>))))"

definition iew_executeStore :: "lsq_request \<Rightarrow> u8 list \<Rightarrow> bool \<Rightarrow> nat \<Rightarrow> lsq_sys \<Rightarrow> lsq_sys res" where
  "iew_executeStore request data mispredicted idx y =
     rbind (lsq_executeStore (lsq_pushStore request data) idx (ys_unit y)) (\<lambda>(fault, u).
     rbind (sq_inst u idx) (\<lambda>inst.
     if li_translationDelayed inst \<and> fault = NoFault then Inr (y\<lparr>ys_unit := lu_call (DeferMemInst (li_seqNum inst)) u\<rparr>)
     else
       rbind (if \<not> li_isAtomic inst \<and> (fault \<noteq> NoFault \<or> \<not> li_predicate inst \<or> \<not> li_isStoreConditional inst) then
                rbind (sq_modify idx (on_inst (\<lambda>i. i\<lparr>li_isExecuted := True\<rparr>)) u) (\<lambda>u.
                Inr (lu_call (InstToCommit (li_seqNum inst)) u))
              else Inr u) (\<lambda>u.
       iew_checkRedirect (li_seqNum inst) True mispredicted (y\<lparr>ys_unit := u\<rparr>))))"

text \<open>
  What \<^verbatim>\<open>IEW::tick\<close> does with the sequence number commit sends: nothing while commit squashes, when the number is the
  point of the squash.
\<close>

definition iew_commit :: "seqnum \<Rightarrow> bool \<Rightarrow> bool \<Rightarrow> lsq_unit \<Rightarrow> lsq_unit res" where
  "iew_commit doneSeqNum squash robSquashing u =
     (if doneSeqNum \<noteq> 0 \<and> \<not> squash \<and> \<not> robSquashing then
        rbind (lsq_commitStores doneSeqNum u) (\<lambda>u.
        rbind (lsq_commitLoads doneSeqNum u) (\<lambda>u.
        Inr (lu_call (InstQueueCommit doneSeqNum) (lu_call UpdateLSQNextCycle u))))
      else Inr u)"

definition iew_checkMisprediction :: "seqnum \<Rightarrow> bool \<Rightarrow> lsq_sys \<Rightarrow> lsq_sys" where
  "iew_checkMisprediction n mispredicted y =
     (if \<not> ys_fetchRedirect y \<or> (case ys_squash y of None \<Rightarrow> True | Some (p, inc) \<Rightarrow> n < p) then
        if mispredicted then iew_squashDueToBranch n (y\<lparr>ys_fetchRedirect := True\<rparr>) else y
      else y)"

text \<open>The response to a load of the queue, and the check of its prediction that ends \<^verbatim>\<open>writeback\<close>.\<close>

definition lsq_respond :: "nat \<Rightarrow> lsq_unit \<Rightarrow> lsq_unit res" where
  "lsq_respond idx u =
     rbind (lq_inst u idx) (\<lambda>inst. rbind (lsq_writeback inst u) (\<lambda>(inst, u). lq_modify idx (on_inst (\<lambda>_. inst)) u))"

definition iew_loadDone :: "bool \<Rightarrow> nat \<Rightarrow> lsq_sys \<Rightarrow> lsq_sys res" where
  "iew_loadDone mispredicted idx y =
     rbind (lq_inst (ys_unit y) idx) (\<lambda>inst.
     rbind (lsq_respond idx (ys_unit y)) (\<lambda>u.
     Inr (if li_isSquashed inst then y\<lparr>ys_unit := u\<rparr> else iew_checkMisprediction (li_seqNum inst) mispredicted (y\<lparr>ys_unit := u\<rparr>))))"

text \<open>A squash up to \<open>q\<close> answers a request if it takes at least the same instructions.\<close>

definition answered :: "seqnum \<Rightarrow> redirect \<Rightarrow> bool" where
  "answered q r \<longleftrightarrow> (if snd r then q < fst r else q \<le> fst r)"

section \<open>Sequences of operations\<close>

text \<open>Positions are relative to the heads of the queues.\<close>

datatype lsq_op =
    Dispatch lsq_inst
  | ExecLoad nat lsq_request bool bool bool
  | ExecStore nat lsq_request "u8 list" bool
  | ExecOther seqnum bool
  | CommitTo seqnum bool bool
  | SquashTo seqnum
  | WriteStores wb_answer "wb_answer list"
  | StoreDone nat
  | LoadDone nat bool
  | SnoopAt u64
  | NextCycle

definition on_unit :: "(lsq_unit \<Rightarrow> lsq_unit res) \<Rightarrow> lsq_sys \<Rightarrow> lsq_sys res" where
  "on_unit f y = rbind (f (ys_unit y)) (\<lambda>u. Inr (y\<lparr>ys_unit := u\<rparr>))"

fun lsq_exec :: "lsq_op \<Rightarrow> lsq_sys \<Rightarrow> lsq_sys res" where
  "lsq_exec (Dispatch inst) y = on_unit (lsq_insert inst) y"
| "lsq_exec (ExecLoad l r outstanding sent mp) y = iew_executeLoad r outstanding sent mp (lhd (ys_unit y) + l) y"
| "lsq_exec (ExecStore k r data mp) y = iew_executeStore r data mp (shd (ys_unit y) + k) y"
| "lsq_exec (ExecOther n mp) y = iew_checkRedirect n False mp y"
| "lsq_exec (CommitTo n squash robSquashing) y = on_unit (iew_commit n squash robSquashing) y"
| "lsq_exec (SquashTo q) y =
     rbind (lsq_squash q (ys_unit y)) (\<lambda>u. Inr (y\<lparr>ys_unit := u, ys_flight := filter (\<lambda>r. \<not> answered q r) (ys_flight y)\<rparr>))"
| "lsq_exec (WriteStores b answers) y = on_unit (lsq_writebackStores b answers) y"
| "lsq_exec (StoreDone k) y = on_unit (lsq_completeStore (shd (ys_unit y) + k)) y"
| "lsq_exec (LoadDone l mp) y = iew_loadDone mp (lhd (ys_unit y) + l) y"
| "lsq_exec (SnoopAt a) y = on_unit (lsq_checkSnoop a) y"
| "lsq_exec NextCycle y =
     Inr (y\<lparr>ys_fetchRedirect := False, ys_squash := None,
        ys_flight := ys_flight y @ (case ys_squash y of None \<Rightarrow> [] | Some r \<Rightarrow> [r])\<rparr>)"

text \<open>
  When the stages around the unit use an operation: instructions arrive in program order and only when there is room, an
  executing access lies inside the address space and is translated at once, a store executes once, conditional and atomic
  stores execute when they are the oldest, commit passes executed loads only and a squash no committed store.  An
  instruction that does not access memory executes while no violation is recorded, which \<^verbatim>\<open>executeInsts\<close> asserts: the
  access that finds a violation takes it up at once, unless it redirects fetch as a branch too.
\<close>

fun lsq_allowed :: "lsq_op \<Rightarrow> lsq_sys \<Rightarrow> bool" where
  "lsq_allowed (Dispatch inst) y \<longleftrightarrow> newest (li_seqNum inst) (ys_unit y) \<and>
     (fresh_load inst \<and> 0 < lsq_numFreeLoadEntries (ys_unit y) \<or>
      fresh_store inst \<and> (li_isStore inst \<or> li_isAtomic inst) \<and> 0 < lsq_numFreeStoreEntries (ys_unit y))"
| "lsq_allowed (ExecLoad l r outstanding sent mp) y \<longleftrightarrow> (let s = ys_unit y in
     l < length (lds s) \<and> plain_load (ei (lds s ! l)) \<and> plain_access r \<and> li_forwardedFrom (ei (lds s ! l)) = 0 \<and>
     \<not> (lu_stalled s \<and> lu_stallingLoadIdx s = lhd s + l))"
| "lsq_allowed (ExecStore k r data mp) y \<longleftrightarrow> (let s = ys_unit y in
     k < length (sts s) \<and> plain_store (sts s ! k) \<and> plain_write r data (sts s ! k) \<and> lhd s \<le> li_lqIt (ei (sts s ! k)) \<and>
     (li_isStoreConditional (ei (sts s ! k)) \<or> li_isAtomic (ei (sts s ! k)) \<longrightarrow> (\<forall>l \<in> set (lds s). sn (sts s ! k) < sn l)))"
| "lsq_allowed (ExecOther n mp) y \<longleftrightarrow> lu_memDepViolator (ys_unit y) = None"
| "lsq_allowed (CommitTo n squash robSquashing) y \<longleftrightarrow> squash \<or> robSquashing \<or> (\<forall>l \<in> set (lds (ys_unit y)). sn l \<le> n \<longrightarrow> li_isExecuted (ei l))"
| "lsq_allowed (SquashTo q) y \<longleftrightarrow> (\<forall>e \<in> set (sts (ys_unit y)). se_canWB e \<longrightarrow> sn e \<le> q)"
| "lsq_allowed (WriteStores b answers) y \<longleftrightarrow> True"
| "lsq_allowed (StoreDone k) y \<longleftrightarrow> (let s = ys_unit y in
     k < length (sts s) \<and> shd s + k < lu_storeWBIt s \<and> \<not> se_completed (sts s ! k))"
| "lsq_allowed (LoadDone l mp) y \<longleftrightarrow> (let s = ys_unit y in
     l < length (lds s) \<and> (li_fault (ei (lds s ! l)) = NoFault \<or> li_fault (ei (lds s ! l)) = ReExec) \<and>
     \<not> (lu_stalled s \<and> lu_stallingLoadIdx s = lhd s + l))"
| "lsq_allowed (SnoopAt a) y \<longleftrightarrow> (\<forall>e \<in> set (lds (ys_unit y)). addr_known e)"
| "lsq_allowed NextCycle y \<longleftrightarrow> True"

fun lsq_run :: "lsq_op list \<Rightarrow> lsq_sys \<Rightarrow> lsq_sys res" where
  "lsq_run [] y = Inr y"
| "lsq_run (op # ops) y = rbind (lsq_exec op y) (lsq_run ops)"

fun allowed_run :: "lsq_op list \<Rightarrow> lsq_sys \<Rightarrow> bool" where
  "allowed_run [] y \<longleftrightarrow> True"
| "allowed_run (op # ops) y \<longleftrightarrow> lsq_allowed op y \<and> (case lsq_exec op y of Inl err \<Rightarrow> True | Inr y' \<Rightarrow> allowed_run ops y')"

definition lsq_start :: "lsq_unit \<Rightarrow> lsq_sys" where
  "lsq_start u = \<lparr>ys_unit = u, ys_fetchRedirect = False, ys_squash = None, ys_flight = []\<rparr>"

section \<open>The invariant of the system\<close>

definition kills :: "redirect \<Rightarrow> seqnum \<Rightarrow> bool" where
  "kills r x \<longleftrightarrow> fst r < x \<or> snd r \<and> fst r = x"

definition doomed :: "lsq_sys \<Rightarrow> seqnum \<Rightarrow> bool" where
  "doomed y x \<longleftrightarrow> (\<exists>r \<in> set (ys_flight y). kills r x) \<or> (case ys_squash y of None \<Rightarrow> False | Some r \<Rightarrow> kills r x)"

text \<open>A load goes with the next squash if a request takes it or a recorded violator is at least as old.\<close>

abbreviation condemned :: "lsq_sys \<Rightarrow> seqnum \<Rightarrow> bool" where
  "condemned y \<equiv> cond (doomed y) (ys_unit y)"

definition sys_inv :: "lsq_sys \<Rightarrow> bool" where
  "sys_inv y \<longleftrightarrow> lsq_wf (ys_unit y) \<and> unit_sound (condemned y) (ys_unit y) \<and>
     (\<forall>v. lu_memDepViolator (ys_unit y) = Some v \<longrightarrow> doomed y v)"

lemma kills_mono: "kills r v \<Longrightarrow> v \<le> x \<Longrightarrow> kills r x"
  by (auto simp: kills_def)

lemma doomed_mono: "doomed y v \<Longrightarrow> v \<le> x \<Longrightarrow> doomed y x"
  by (auto simp: doomed_def split: option.splits intro: kills_mono)

lemma doomed_unit [simp]: "doomed (y\<lparr>ys_unit := u\<rparr>) = doomed y" "doomed (y\<lparr>ys_fetchRedirect := b\<rparr>) = doomed y"
  by (simp_all add: doomed_def fun_eq_iff)

lemma unit_sound_weaken: "unit_sound C s \<Longrightarrow> (\<And>x. C x \<Longrightarrow> C' x) \<Longrightarrow> unit_sound C' s"
  using same_keys [of C s s C'] by auto

lemma clear_violator [simp]: "lsq_wf (u\<lparr>lu_memDepViolator := v\<rparr>) = lsq_wf u" "unit_sound C (u\<lparr>lu_memDepViolator := v\<rparr>) = unit_sound C u"
  by (simp_all add: lsq_wf_def lsq_base_def unit_sound_def pending_def)

text \<open>A redirect, once asked for, is only replaced by one that takes at least as much.\<close>

lemma squashDueToBranch_doomed: "doomed y x \<Longrightarrow> doomed (iew_squashDueToBranch n y) x" "n < x \<Longrightarrow> doomed (iew_squashDueToBranch n y) x"
  by (auto simp: iew_squashDueToBranch_def doomed_def kills_def split: option.splits)

lemma squashDueToMemOrder_doomed: "doomed y x \<Longrightarrow> doomed (iew_squashDueToMemOrder n y) x" "n \<le> x \<Longrightarrow> doomed (iew_squashDueToMemOrder n y) x"
  by (auto simp: iew_squashDueToMemOrder_def doomed_def kills_def split: option.splits)

lemma redirect_unit [simp]: "ys_unit (iew_squashDueToBranch n y) = ys_unit y" "ys_unit (iew_squashDueToMemOrder n y) = ys_unit y"
  by (simp_all add: iew_squashDueToBranch_def iew_squashDueToMemOrder_def split: option.splits prod.splits)

text \<open>The violator an instruction finds is younger than it, so a redirect that is kept covers it.\<close>

lemma checkRedirect_inv:
  assumes "lsq_wf (ys_unit y)" "unit_sound (condemned y) (ys_unit y)"
    and v: "\<And>v. lu_memDepViolator (ys_unit y) = Some v \<Longrightarrow> isMemRef \<and> (n < v \<or> doomed y v)"
  shows "\<exists>y'. iew_checkRedirect n isMemRef mispredicted y = Inr y' \<and> sys_inv y'"
proof (cases "\<not> ys_fetchRedirect y \<or> (case ys_squash y of None \<Rightarrow> True | Some (p, inc) \<Rightarrow> n < p)")
  case first: True
  show ?thesis
  proof (cases mispredicted)
    case True
    let ?y = "iew_squashDueToBranch n (y\<lparr>ys_fetchRedirect := True\<rparr>)"
    have "unit_sound (condemned ?y) (ys_unit ?y)"
      using unit_sound_weaken [OF assms(2), of "condemned ?y"] squashDueToBranch_doomed(1) [where y = "y\<lparr>ys_fetchRedirect := True\<rparr>"]
      by (auto simp: cond_def)
    moreover have "doomed ?y v" if "lu_memDepViolator (ys_unit y) = Some v" for v
      using v [OF that] squashDueToBranch_doomed [where y = "y\<lparr>ys_fetchRedirect := True\<rparr>" and x = v and n = n] by auto
    ultimately have "sys_inv ?y" using assms(1) by (simp add: sys_inv_def)
    then show ?thesis using first True by (simp add: iew_checkRedirect_def)
  next
    case nm: False
    show ?thesis
    proof (cases "lu_memDepViolator (ys_unit y)")
      case None
      then have "sys_inv y" using assms by (simp add: sys_inv_def)
      then show ?thesis using first nm None by (simp add: iew_checkRedirect_def lsq_getMemDepViolator_def)
    next
      case (Some w)
      let ?z = "y\<lparr>ys_unit := (ys_unit y)\<lparr>lu_memDepViolator := None\<rparr>, ys_fetchRedirect := True\<rparr>"
      let ?y = "iew_squashDueToMemOrder w ?z"
      have "condemned ?y x" if "condemned y x" for x
        using that Some squashDueToMemOrder_doomed [where y = ?z and x = x and n = w] by (auto simp: cond_def)
      from unit_sound_weaken [OF assms(2) this] have "sys_inv ?y" using assms(1) by (simp add: sys_inv_def)
      then show ?thesis using first nm Some v by (simp add: iew_checkRedirect_def lsq_getMemDepViolator_def)
    qed
  qed
next
  case second: False
  then obtain p inc where p: "ys_squash y = Some (p, inc)" "p \<le> n" "ys_fetchRedirect y" by (auto split: option.splits)
  show ?thesis
  proof (cases "lu_memDepViolator (ys_unit y)")
    case None
    then have "sys_inv y" using assms by (simp add: sys_inv_def)
    then show ?thesis using second None by (simp add: iew_checkRedirect_def lsq_getMemDepViolator_def)
  next
    case (Some w)
    let ?y = "y\<lparr>ys_unit := (ys_unit y)\<lparr>lu_memDepViolator := None\<rparr>\<rparr>"
    have "doomed y w" using v [OF Some] p by (auto simp: doomed_def kills_def)
    then have "condemned ?y x" if "condemned y x" for x using that Some doomed_mono by (auto simp: cond_def)
    from unit_sound_weaken [OF assms(2) this] have "sys_inv ?y" using assms(1) by (simp add: sys_inv_def)
    then show ?thesis using second Some v by (simp add: iew_checkRedirect_def lsq_getMemDepViolator_def)
  qed
qed

lemma on_unit_inv:
  assumes "sys_inv y" "f (ys_unit y) = Inr u" "lsq_wf u" "unit_sound (condemned y) u" "lu_memDepViolator u = lu_memDepViolator (ys_unit y)"
  shows "\<exists>y'. on_unit f y = Inr y' \<and> sys_inv y'"
proof -
  have "cond (doomed y) u = condemned y" by (rule cond_same [OF assms(5)])
  then show ?thesis using assms by (simp add: on_unit_def sys_inv_def)
qed

lemmas sys_parts = conjunct1 [OF sys_inv_def [THEN iffD1]] conjunct1 [OF conjunct2 [OF sys_inv_def [THEN iffD1]]]

section \<open>Every allowed operation returns and keeps the invariant\<close>

lemma dispatch_inv:
  assumes "sys_inv y" "lsq_allowed (Dispatch inst) y"
  shows "\<exists>y'. lsq_exec (Dispatch inst) y = Inr y' \<and> sys_inv y'"
proof -
  let ?s = "ys_unit y" and ?i = "inst\<lparr>li_inLSQ := True\<rparr>"
  note W = sys_parts [OF assms(1)]
  have new: "newest (li_seqNum ?i) ?s" using assms(2) by simp
  consider "fresh_load inst" "length (lds ?s) < cq_capacity (lu_loadQueue ?s)"
    | "fresh_store inst" "li_isStore inst \<or> li_isAtomic inst" "length (sts ?s) < cq_capacity (lu_storeQueue ?s)"
    using assms(2) by (auto simp: lsq_numFreeLoadEntries_def lsq_numFreeStoreEntries_def)
  then show ?thesis
  proof cases
    case 1
    then have f: "fresh_load ?i" "\<not> li_isSquashed ?i" by (simp_all add: fresh_load_def)
    from insertLoad_lists [OF wf_base(1) [OF W(1)] 1(2), of ?i] obtain u where
      u: "lsq_insertLoad ?i ?s = Inr u" "lu_memDepViolator u = lu_memDepViolator ?s" by blast
    have "lsq_insert inst ?s = Inr u" using 1(1) u(1) by (simp add: lsq_insert_def fresh_load_def Let_def)
    from on_unit_inv [where f = "lsq_insert inst", OF assms(1) this insertLoad_wf [OF W(1) 1(2) new f(2) u(1)] insertLoad_sound [OF W(1) 1(2) f(1) u(1) W(2)] u(2)]
    show ?thesis by simp
  next
    case 2
    then have f: "fresh_store ?i" "\<not> li_isSquashed ?i" "\<not> li_isLoad ?i" "\<not> li_memData ?i" by (simp_all add: fresh_store_def)
    from insertStore_lists [OF wf_base(1) [OF W(1)] 2(3), of ?i] obtain u where
      u: "lsq_insertStore ?i ?s = Inr u" "lu_memDepViolator u = lu_memDepViolator ?s" by blast
    have "lsq_insert inst ?s = Inr u" using 2(1,2) u(1) by (auto simp: lsq_insert_def fresh_store_def Let_def)
    from on_unit_inv [where f = "lsq_insert inst", OF assms(1) this insertStore_wf [OF W(1) 2(3) new f(2-4) u(1)] insertStore_sound [OF W(1) 2(3) f(1) new u(1) W(2)] u(2)]
    show ?thesis by simp
  qed
qed

lemma view_sound:
  assumes "unit_sound C s" "quiet s s'" "load_key ` set (lds s') \<subseteq> load_key ` set (lds s)"
  shows "unit_sound C s'"
  by (rule same_keys [OF assms(1) _ _ _ assms(3)]) (use assms(2) in \<open>auto simp: quiet_def aux_same_def\<close>)

lemma view_keys: "map load_view xs = map load_view ys \<Longrightarrow> load_key ` set xs \<subseteq> load_key ` set ys"
proof
  fix k assume m: "map load_view xs = map load_view ys" and "k \<in> load_key ` set xs"
  then obtain x where x: "x \<in> set xs" "k = load_key x" by blast
  then have "load_view x \<in> set (map load_view ys)" using m by (metis image_eqI list.set_map)
  then obtain z where "z \<in> set ys" "load_view x = load_view z" by auto
  then show "k \<in> load_key ` set ys" using load_view_key x(2) by blast
qed

lemma snoop_inv:
  assumes "sys_inv y" "lsq_allowed (SnoopAt a) y"
  shows "\<exists>y'. lsq_exec (SnoopAt a) y = Inr y' \<and> sys_inv y'"
proof -
  note W = sys_parts [OF assms(1)]
  from checkSnoop_ok [OF W(1), of a] assms(2) obtain u where
    u: "lsq_checkSnoop a (ys_unit y) = Inr u" "quiet (ys_unit y) u" "map load_view (lds u) = map load_view (lds (ys_unit y))"
    by (auto simp: snooped_def)
  have "lsq_wf u" "lu_memDepViolator u = lu_memDepViolator (ys_unit y)" using u(2) by (simp_all add: quiet_def)
  from on_unit_inv [where f = "lsq_checkSnoop a", OF assms(1) u(1) this(1) view_sound [OF W(2) u(2) view_keys [OF u(3)]] this(2)]
  show ?thesis by simp
qed

lemma writeback_inv:
  assumes "sys_inv y"
  shows "\<exists>y'. lsq_exec (WriteStores b answers) y = Inr y' \<and> sys_inv y'"
    "lsq_allowed (StoreDone k) y \<Longrightarrow> \<exists>y'. lsq_exec (StoreDone k) y = Inr y' \<and> sys_inv y'"
proof -
  note W = sys_parts [OF assms]
  have moved: "\<exists>y'. on_unit f y = Inr y' \<and> sys_inv y'" if "f (ys_unit y) = Inr u" "lsq_wf u" "wb_moved (ys_unit y) u" for f u
    by (rule on_unit_inv [where f = f, OF assms that(1,2) wb_moved_sound [OF W(1) that(2,3) W(2)]]) (use that(3) in \<open>simp add: wb_moved_def\<close>)
  show "\<exists>y'. lsq_exec (WriteStores b answers) y = Inr y' \<and> sys_inv y'"
    using writebackStores_wf [OF W(1), of b answers] moved [of "lsq_writebackStores b answers"] by auto
  assume "lsq_allowed (StoreDone k) y"
  then show "\<exists>y'. lsq_exec (StoreDone k) y = Inr y' \<and> sys_inv y'"
    using completeStore_wf [OF W(1), of k] moved [of "lsq_completeStore (shd (ys_unit y) + k)"] by (auto simp: Let_def)
qed

lemma dropWhile_later:
  assumes "sorted_wrt (<) (map sn es)" "e \<in> set (dropWhile (\<lambda>e. sn e \<le> n) es)"
  shows "n < sn e"
  using assms
proof (induction es)
  case (Cons x xs)
  then show ?case by (cases "sn x \<le> n") (auto simp: not_le)
qed simp

lemma commit_inv:
  assumes "sys_inv y" "lsq_allowed (CommitTo n squash robSquashing) y"
  shows "\<exists>y'. lsq_exec (CommitTo n squash robSquashing) y = Inr y' \<and> sys_inv y'"
proof (cases "n = 0 \<or> squash \<or> robSquashing")
  case True
  then show ?thesis using assms(1) by (auto simp: on_unit_def iew_commit_def)
next
  case False
  let ?s = "ys_unit y"
  note W = sys_parts [OF assms(1)]
  from commitStores_lists [OF wf_base(1) [OF W(1)], of n] obtain t where
    t: "lsq_commitStores n ?s = Inr t" "lsq_base t" "sts t = map (commit_mark n) (sts ?s)" "shd t = shd ?s" "lu_loadQueue t = lu_loadQueue ?s"
      "aux_same ?s t" "lu_memDepViolator t = lu_memDepViolator ?s" by blast
  have ex: "sn (lds t ! i) \<le> n \<Longrightarrow> li_isExecuted (ei (lds t ! i))" if "i < length (lds t)" for i
    using assms(2) False that unfolding t(5) by simp
  from commitLoads_lists [OF t(2) ex] obtain u where
    u: "lsq_commitLoads n t = Inr u" "lsq_base u" "lds u = dropWhile (\<lambda>e. sn e \<le> n) (lds t)"
      "lu_storeQueue u = lu_storeQueue t" "aux_same t u" "lu_memDepViolator u = lu_memDepViolator t" by blast
  have srt: "sorted_wrt (<) (map sn (lds ?s))" using wf_base_parts(5) [OF W(1)] by (simp add: lq_good_def)
  have sub: "set (lds u) \<subseteq> set (lds ?s)" unfolding u(3) t(5) by (meson set_dropWhileD subsetI)
  have later: "n < sn l" if "l \<in> set (lds u)" for l
    using dropWhile_later [OF srt, of l n] that unfolding u(3) t(5) by simp
  have "committed_older (sts u) (lds u)"
    unfolding committed_older_def
  proof (intro ballI impI)
    fix e l assume a: "e \<in> set (sts u)" "l \<in> set (lds u)" "se_canWB e"
    from a(1) obtain e0 where e0: "e0 \<in> set (sts ?s)" "e = commit_mark n e0" unfolding u(4) t(3) by auto
    show "sn e < sn l"
    proof (cases "sn e0 \<le> n")
      case True
      then show ?thesis using e0(2) later [OF a(2)] by (simp add: commit_mark_def)
    next
      case False
      then have "e = e0" using e0(2) by (simp add: commit_mark_def)
      then show ?thesis using wf_base(2) [OF W(1)] e0(1) a(2,3) sub unfolding committed_older_def by blast
    qed
  qed
  then have wf: "lsq_wf (lu_call (InstQueueCommit n) (lu_call UpdateLSQNextCycle u))" using u(2) by (simp add: lsq_wf_def)
  have aux: "aux_same ?s u" by (rule aux_same_trans [OF t(6) u(5)])
  have "unit_sound (condemned y) (lu_call (InstQueueCommit n) (lu_call UpdateLSQNextCycle u))"
    by (rule commit_sound [OF _ _ _ _ _ W(2), where n = n])
      (use u(4) t(3,4) aux sub in \<open>auto simp: aux_same_def lu_call_def\<close>)
  from on_unit_inv [where f = "iew_commit n squash robSquashing", OF assms(1) _ wf this] show ?thesis
    using False t(1,7) u(1,6) by (simp add: iew_commit_def lu_call_def)
qed

lemma answered_spares: "answered q r \<Longrightarrow> x \<le> q \<Longrightarrow> \<not> kills r x"
  by (simp add: answered_def kills_def split: if_splits) auto

lemma squash_inv:
  assumes "sys_inv y" "lsq_allowed (SquashTo q) y"
  shows "\<exists>y'. lsq_exec (SquashTo q) y = Inr y' \<and> sys_inv y'"
proof -
  let ?s = "ys_unit y"
  note W = sys_parts [OF assms(1)]
  have "\<forall>e \<in> set (sts ?s). se_canWB e \<longrightarrow> sn e \<le> q" using assms(2) by simp
  from squash_lists [OF W(1) this] obtain u where
    u: "lsq_squash q ?s = Inr u" "lsq_wf u" "lds u = kept q (lds ?s)" "sts u = kept q (sts ?s)" "shd u = shd ?s" "aux_same ?s u"
      "lu_memDepViolator u = (case lu_memDepViolator ?s of None \<Rightarrow> None | Some v \<Rightarrow> if q < v then None else Some v)" by blast
  let ?y = "y\<lparr>ys_unit := u, ys_flight := filter (\<lambda>r. \<not> answered q r) (ys_flight y)\<rparr>"
  have d: "doomed ?y x" if x: "x \<le> q" "doomed y x" for x
    using x(2) answered_spares [OF _ x(1)] unfolding doomed_def by (simp del: split_paired_Ex bex_simps) blast
  have c: "condemned ?y x" if x: "x \<le> q" "condemned y x" for x
  proof (cases "doomed y x")
    case True
    then show ?thesis using d [OF x(1)] by (simp add: cond_def)
  next
    case False
    then obtain v where v: "lu_memDepViolator ?s = Some v" "v \<le> x" using x(2) by (auto simp: cond_def split: option.splits)
    then have "\<not> q < v" using x(1) by simp
    then show ?thesis using u(7) v by (simp add: cond_def)
  qed
  have "unit_sound (condemned ?y) u" by (rule squash_sound [OF W(1) u(3-6) W(2)]) (rule c)
  moreover have "doomed ?y v" if "lu_memDepViolator u = Some v" for v
  proof -
    have "lu_memDepViolator ?s = Some v" "v \<le> q" using that u(7) by (auto split: option.splits if_splits)
    then show ?thesis using assms(1) d by (simp add: sys_inv_def)
  qed
  ultimately have "sys_inv ?y" using u(2) by (simp add: sys_inv_def)
  then show ?thesis using u(1) by simp
qed

lemma nextCycle_inv: "sys_inv y \<Longrightarrow> \<exists>y'. lsq_exec NextCycle y = Inr y' \<and> sys_inv y'"
proof -
  assume y: "sys_inv y"
  let ?y = "y\<lparr>ys_fetchRedirect := False, ys_squash := None, ys_flight := ys_flight y @ (case ys_squash y of None \<Rightarrow> [] | Some r \<Rightarrow> [r])\<rparr>"
  have "doomed ?y = doomed y" by (auto simp: doomed_def fun_eq_iff split: option.splits)
  then show ?thesis using y by (simp add: sys_inv_def)
qed

text \<open>Changes of an entry that loads do not see.\<close>

lemma modify_load_inv:
  assumes "lsq_wf s" "unit_sound C s" "l < length (lds s)" "same_load (lds s ! l) (on_inst f (lds s ! l))"
    "load_key (on_inst f (lds s ! l)) = load_key (lds s ! l)"
    "lu_stalled s \<and> lu_stallingLoadIdx s = lhd s + l \<Longrightarrow> \<not> li_isExecuted (ei (on_inst f (lds s ! l)))"
  shows "\<exists>u. lq_modify (lhd s + l) (on_inst f) s = Inr u \<and> lsq_wf u \<and> unit_sound C u \<and> lu_memDepViolator u = lu_memDepViolator s"
proof -
  note L = set_load_lists [OF wf_base_parts(1) [OF assms(1)] assms(3)]
  have eq: "lq_modify (lhd s + l) (on_inst f) s = Inr (set_load l (on_inst f (lds s ! l)) s)"
    using lq_modify_at [OF wf_base_parts(1) [OF assms(1)] refl, of l] assms(3) by simp
  have wf: "lsq_wf (set_load l (on_inst f (lds s ! l)) s)" by (rule set_load_wf [OF assms(1,3,4)]) (use assms(6) in blast)
  have "load_key ` set (lds (set_load l (on_inst f (lds s ! l)) s)) \<subseteq> load_key ` set (lds s)"
  proof
    fix k assume "k \<in> load_key ` set (lds (set_load l (on_inst f (lds s ! l)) s))"
    then obtain x where x: "x \<in> set ((lds s)[l := on_inst f (lds s ! l)])" "k = load_key x" unfolding L by blast
    then have "x = on_inst f (lds s ! l) \<or> x \<in> set (lds s)" using set_update_subset_insert by fastforce
    then show "k \<in> load_key ` set (lds s)" using x(2) assms(3,5) nth_mem by auto
  qed
  then have "unit_sound C (set_load l (on_inst f (lds s ! l)) s)"
    by (rule same_keys [where C = C and s = s, OF assms(2), rotated 3]) simp_all
  then show ?thesis using eq wf by simp
qed

lemma unit_sound_call: "unit_sound C s \<Longrightarrow> unit_sound C (lu_call c s)"
  by (rule same_keys [where C = C and s = s]) (auto simp: lu_call_def)

lemma checkMisprediction_inv:
  assumes "sys_inv y"
  shows "sys_inv (iew_checkMisprediction n mp y)"
proof -
  let ?y = "iew_squashDueToBranch n (y\<lparr>ys_fetchRedirect := True\<rparr>)"
  have d: "doomed y x \<Longrightarrow> doomed ?y x" for x using squashDueToBranch_doomed(1) [where y = "y\<lparr>ys_fetchRedirect := True\<rparr>"] by simp
  have "unit_sound (condemned ?y) (ys_unit ?y)"
    using unit_sound_weaken [OF sys_parts(2) [OF assms], of "condemned ?y"] d by (auto simp: cond_def)
  then have "sys_inv ?y" using assms d by (simp add: sys_inv_def)
  then show ?thesis using assms by (simp add: iew_checkMisprediction_def)
qed

lemma loadDone_inv:
  assumes "sys_inv y" "lsq_allowed (LoadDone l mp) y"
  shows "\<exists>y'. lsq_exec (LoadDone l mp) y = Inr y' \<and> sys_inv y'"
proof -
  let ?s = "ys_unit y" and ?i = "ei (lds (ys_unit y) ! l)"
  note W = sys_parts [OF assms(1)]
  have a: "l < length (lds ?s)" "li_fault ?i = NoFault \<or> li_fault ?i = ReExec" "\<not> (lu_stalled ?s \<and> lu_stallingLoadIdx ?s = lhd ?s + l)"
    using assms(2) by (simp_all add: Let_def)
  note ok = base_load [OF wf_base(1) [OF W(1)] a(1), unfolded load_ok_def]
  have inst: "lq_inst ?s (lhd ?s + l) = Inr ?i" by (rule base_load_inst [OF wf_base(1) [OF W(1)] a(1)])
  let ?j = "?i\<lparr>li_isExecuted := True\<rparr>"
  define t0 where "t0 = (if \<not> li_isExecuted ?i \<and> li_fault ?i = NoFault then lu_call (CompleteAcc (li_seqNum ?i)) ?s else ?s)"
  let ?t = "lu_call (CheckMisprediction (li_seqNum ?i)) (lu_call (InstToCommit (li_seqNum ?i)) t0)"
  have t0: "lsq_wf t0" "unit_sound (condemned y) t0" "lds t0 = lds ?s" "lhd t0 = lhd ?s" "lu_memDepViolator t0 = lu_memDepViolator ?s"
      "lu_stalled t0 = lu_stalled ?s" "lu_stallingLoadIdx t0 = lu_stallingLoadIdx ?s"
    using W by (simp_all add: t0_def unit_sound_call)
  have "lsq_writeback ?i ?s = Inr (?j, ?t)" using ok a(2) by (auto simp: lsq_writeback_def t0_def)
  then have eq: "lsq_respond (lhd ?s + l) ?s = lq_modify (lhd ?s + l) (on_inst (\<lambda>_. ?j)) ?t" using inst by (simp add: lsq_respond_def)
  have s: "unit_sound (condemned y) ?t" using t0(2) by (simp add: unit_sound_call)
  have "\<exists>u. lq_modify (lhd ?t + l) (on_inst (\<lambda>_. ?j)) ?t = Inr u \<and> lsq_wf u \<and> unit_sound (condemned y) u \<and> lu_memDepViolator u = lu_memDepViolator ?t"
    by (rule modify_load_inv [OF _ s]) (use t0 a(1,3) ok in \<open>auto simp: same_load_def load_key_def\<close>)
  then obtain u where u: "lsq_respond (lhd ?s + l) ?s = Inr u" "lsq_wf u" "unit_sound (condemned y) u" "lu_memDepViolator u = lu_memDepViolator ?s"
    using eq t0 by auto
  from on_unit_inv [where f = "lsq_respond (lhd ?s + l)", OF assms(1) u] u(1) have "sys_inv (y\<lparr>ys_unit := u\<rparr>)" by (simp add: on_unit_def)
  from checkMisprediction_inv [OF this] this show ?thesis using inst u(1) by (simp add: iew_loadDone_def)
qed

lemma execLoad_inv:
  assumes "sys_inv y" "lsq_allowed (ExecLoad l r outstanding sent mp) y"
  shows "\<exists>y'. lsq_exec (ExecLoad l r outstanding sent mp) y = Inr y' \<and> sys_inv y'"
proof -
  let ?s = "ys_unit y" and ?e = "lds (ys_unit y) ! l"
  note W = sys_parts [OF assms(1)]
  have a: "l < length (lds ?s)" "plain_load (ei ?e)" "plain_access r" "li_forwardedFrom (ei ?e) = 0"
    "\<not> (lu_stalled ?s \<and> lu_stallingLoadIdx ?s = lhd ?s + l)" using assms(2) by (simp_all add: Let_def)
  from executeLoad_ok [OF W(1) a(1-3,5), of outstanding sent] obtain f u e where
    u: "lsq_executeLoad (lsq_pushLoad r outstanding sent) (lhd ?s + l) ?s = Inr (f, u)" "lsq_wf u" "lu_storeQueue u = lu_storeQueue ?s"
      "lhd u = lhd ?s" "aux_same ?s u" "violator_sunk ?s u" "violator_from (Suc l) ?s u"
      "map load_view (lds u) = map load_view ((lds ?s)[l := e])" "same_inst (ei ?e) (ei e)" "loaded r l ?s u (ei e)" by blast
  have fit: "fits (rq_vaddr r) (rq_size r)" using a(3) by (simp add: plain_access_def)
  have snd: "unit_sound (cond (doomed y) u) u" by (rule executeLoad_sound [OF W(1) a(1,4) fit u(3,5,6,8,9,10) W(2)])
  have len: "length (lds u) = length (lds ?s)" using map_eq_imp_length_eq [OF u(8)] by simp
  then have l: "l < length (lds u)" using a(1) by simp
  let ?i = "ei (lds u ! l)"
  have "load_view (lds u ! l) = load_view e" using map_view_nth [OF u(8), of l] a(1) by simp
  then have i: "sn (lds u ! l) = sn ?e" "\<not> li_translationDelayed ?i"
    using u(9) a(2) by (simp_all add: load_view_def same_inst_def plain_load_def)
  have inst: "lq_inst u (lhd ?s + l) = Inr ?i" using base_load_inst [OF wf_base(1) [OF u(2)] l] u(4) by simp
  note ok = base_load [OF wf_base(1) [OF u(2)] l, unfolded load_ok_def]
  have st: "lu_stalled u \<and> lu_stallingLoadIdx u = lhd u + l \<Longrightarrow> \<not> li_isExecuted ?i"
    using wf_base_parts(10) [OF u(2)] by (auto simp: stall_good_def)
  have "\<exists>t. (if li_isDataPrefetch ?i \<or> li_isInstPrefetch ?i then lq_modify (lhd ?s + l) (on_inst (\<lambda>i. i\<lparr>li_fault := NoFault\<rparr>)) u else Inr u) = Inr t \<and>
      lsq_wf t \<and> unit_sound (cond (doomed y) u) t \<and> lu_memDepViolator t = lu_memDepViolator u"
    using u(2) snd modify_load_inv [OF u(2) snd l, of "\<lambda>i. i\<lparr>li_fault := NoFault\<rparr>"] ok st u(4) by (auto simp: same_load_def load_key_def)
  then obtain t where t: "(if li_isDataPrefetch ?i \<or> li_isInstPrefetch ?i then lq_modify (lhd ?s + l) (on_inst (\<lambda>i. i\<lparr>li_fault := NoFault\<rparr>)) u else Inr u) = Inr t"
      "lsq_wf t" "unit_sound (cond (doomed y) u) t" "lu_memDepViolator t = lu_memDepViolator u" by blast
  have "unit_sound (condemned (y\<lparr>ys_unit := t\<rparr>)) t" using t(3) cond_same [OF t(4), of "doomed y"] by simp
  moreover have "sn ?e < v \<or> doomed y v" if v: "lu_memDepViolator t = Some v" for v
  proof (cases "lu_memDepViolator ?s = Some v")
    case True
    then show ?thesis using assms(1) by (simp add: sys_inv_def)
  next
    case False
    then obtain j where j: "Suc l \<le> j" "j < length (lds ?s)" "v = sn (lds ?s ! j)"
      using u(7) v t(4) unfolding violator_from_def by auto
    then show ?thesis using sorted_sn [of "lds ?s" l j] wf_base_parts(5) [OF W(1)] by (simp add: lq_good_def)
  qed
  ultimately have "\<exists>y'. iew_checkRedirect (sn ?e) True (mp \<and> li_isExecuted ?i) (y\<lparr>ys_unit := t\<rparr>) = Inr y' \<and> sys_inv y'"
    by (intro checkRedirect_inv) (use t(2) in auto)
  then show ?thesis using u(1) inst i t(1) by (simp add: iew_executeLoad_def)
qed

lemma modify_store_inv:
  assumes "lsq_wf s" "unit_sound C s" "k < length (sts s)"
  defines "f \<equiv> \<lambda>i. i\<lparr>li_isExecuted := True\<rparr>"
  shows "\<exists>u. sq_modify (shd s + k) (on_inst f) s = Inr u \<and> lsq_wf u \<and> unit_sound C u \<and> lu_memDepViolator u = lu_memDepViolator s"
proof -
  let ?e = "sts s ! k" and ?u = "set_store k (on_inst f (sts s ! k)) s"
  note L = set_store_lists [OF wf_base_parts(2) [OF assms(1)] assms(3)] and ok = base_store [OF wf_base(1) [OF assms(1)] assms(3)]
  have eq: "sq_modify (shd s + k) (on_inst f) s = Inr ?u" by (rule sq_modify_set [OF wf_base_parts(2) [OF assms(1)] assms(3)])
  have i: "le_inst ?e \<noteq> None" using ok by (simp add: store_ok_def)
  have wf: "lsq_wf ?u"
    by (rule set_store_wf [OF assms(1,3)])
      (use ok i in \<open>auto simp: f_def same_store_def same_flags_def store_ok_def store_written_def split: option.splits\<close>)
  have v: "map store_view (sts ?u) = map store_view (sts s)"
    using assms(3) i unfolding L by (simp add: map_update store_view_def f_def list_update_same_conv)
  have "unit_sound C ?u"
  proof (rule unit_sound_mono [OF assms(2) pending_view [OF v] from_stores_view [OF v]])
    fix l assume "l \<in> set (lds ?u)"
    then show "\<exists>l0 \<in> set (lds s). load_key l = load_key l0 \<and> (C (sn l0) \<longrightarrow> C (sn l0)) \<and> same_sources s ?u (li_forwardedFrom (ei l0))"
      using same_sources_view [OF v] unfolding L by blast
  qed (simp_all add: L)
  then show ?thesis using eq wf by simp
qed

lemma execStore_allowed:
  assumes "lsq_allowed (ExecStore k r data mp) y"
  shows "k < length (sts (ys_unit y))" "plain_store (sts (ys_unit y) ! k)" "plain_write r data (sts (ys_unit y) ! k)"
    "lhd (ys_unit y) \<le> li_lqIt (ei (sts (ys_unit y) ! k))"
    "li_isStoreConditional (ei (sts (ys_unit y) ! k)) \<or> li_isAtomic (ei (sts (ys_unit y) ! k)) \<Longrightarrow>
      \<forall>l \<in> set (lds (ys_unit y)). sn (sts (ys_unit y) ! k) < sn l"
  using assms unfolding lsq_allowed.simps Let_def by blast+

lemma allowed_executeStore:
  assumes "lsq_wf (ys_unit y)" "lsq_allowed (ExecStore k r data mp) y"
  shows "\<exists>f s' e'. lsq_executeStore (lsq_pushStore r data) (shd (ys_unit y) + k) (ys_unit y) = Inr (f, s') \<and> lsq_wf s' \<and>
    sts s' = (sts (ys_unit y))[k := e'] \<and> ei e' = push_inst r (ei (sts (ys_unit y) ! k)) \<and> le_size e' = rq_size r \<and> le_request e' = Some r \<and>
    store_written e' \<and> shd s' = shd (ys_unit y) \<and> lhd s' = lhd (ys_unit y) \<and> aux_same (ys_unit y) s' \<and> store_outcome (ei e') (ys_unit y) f s'"
  by (rule executeStore_ok [OF assms(1) execStore_allowed(1-4) [OF assms(2)]]) (rule execStore_allowed(5) [OF assms(2)])

lemma execStore_inv:
  assumes "sys_inv y" "lsq_allowed (ExecStore k r data mp) y"
  shows "\<exists>y'. lsq_exec (ExecStore k r data mp) y = Inr y' \<and> sys_inv y'"
proof -
  let ?s = "ys_unit y" and ?e = "sts (ys_unit y) ! k"
  note W = sys_parts [OF assms(1)]
  note a = execStore_allowed [OF assms(2)]
  from allowed_executeStore [OF W(1) assms(2)] obtain f u e where
    u: "lsq_executeStore (lsq_pushStore r data) (shd ?s + k) ?s = Inr (f, u)" "lsq_wf u" "sts u = (sts ?s)[k := e]"
      "ei e = push_inst r (ei ?e)" "le_size e = rq_size r" "le_request e = Some r" "store_written e" "shd u = shd ?s" "lhd u = lhd ?s"
      "aux_same ?s u" "store_outcome (ei e) ?s f u" by blast
  have snd: "unit_sound (cond (doomed y) u) u"
    by (rule executeStore_sound [OF W(1) a(1,2) u(4,5,7,6,3,8,10,11) W(2)])
  have k: "k < length (sts u)" "sts u ! k = e" using a(1) u(3) by simp_all
  let ?i = "ei e"
  have i: "sn e = sn ?e" "\<not> li_translationDelayed ?i" "li_lqIt ?i = li_lqIt (ei ?e)"
    using u(4) a(2) by (simp_all add: push_inst_def plain_store_def)
  have inst: "sq_inst u (shd ?s + k) = Inr ?i" using base_store_inst [OF wf_base(1) [OF u(2)] k(1)] u(8) k(2) by simp
  define upd where "upd \<longleftrightarrow> \<not> li_isAtomic ?i \<and> (f \<noteq> NoFault \<or> \<not> li_predicate ?i \<or> \<not> li_isStoreConditional ?i)"
  obtain t where t: "(if upd then rbind (sq_modify (shd ?s + k) (on_inst (\<lambda>i. i\<lparr>li_isExecuted := True\<rparr>)) u) (\<lambda>u.
        Inr (lu_call (InstToCommit (sn e)) u)) else Inr u) = Inr t" "lsq_wf t" "unit_sound (cond (doomed y) u) t" "lu_memDepViolator t = lu_memDepViolator u"
    using u(2) snd modify_store_inv [OF u(2) snd k(1)] unit_sound_call unfolding u(8) by (cases upd) auto
  have "unit_sound (condemned (y\<lparr>ys_unit := t\<rparr>)) t" using t(3) cond_same [OF t(4), of "doomed y"] by simp
  moreover have "sn ?e < v \<or> doomed y v" if v: "lu_memDepViolator t = Some v" for v
  proof (cases "lu_memDepViolator ?s = Some v")
    case True
    then show ?thesis using assms(1) by (simp add: sys_inv_def)
  next
    case False
    then obtain j where j: "first_violated ?s ?i = Some j" "v = sn (lds ?s ! j)"
      using u(11) v t(4) unfolding store_outcome_def by (auto split: option.splits if_splits)
    then have "li_lqIt ?i - lhd ?s \<le> j" and jl: "j < length (lds ?s)"
      unfolding first_violated_def by (auto simp: find_Some_iff)
    then have "li_lqIt (ei ?e) \<le> lhd ?s + j" using i(3) by simp
    then show ?thesis using cross_linkedD(2) [OF wf_base_parts(7) [OF W(1)] jl a(1)] j(2) by blast
  qed
  ultimately have "\<exists>y'. iew_checkRedirect (sn ?e) True mp (y\<lparr>ys_unit := t\<rparr>) = Inr y' \<and> sys_inv y'"
    by (intro checkRedirect_inv) (use t(2) in auto)
  then show ?thesis using u(1) inst i t(1) unfolding upd_def by (simp add: iew_executeStore_def)
qed

lemma exec_inv:
  assumes "sys_inv y" "lsq_allowed op y"
  shows "\<exists>y'. lsq_exec op y = Inr y' \<and> sys_inv y'"
proof (cases op)
  case (ExecOther n mp)
  have "\<exists>y'. iew_checkRedirect n False mp y = Inr y' \<and> sys_inv y'"
    by (rule checkRedirect_inv) (use sys_parts [OF assms(1)] assms(2) ExecOther in auto)
  then show ?thesis using ExecOther by simp
qed (use assms dispatch_inv execLoad_inv execStore_inv commit_inv squash_inv writeback_inv loadDone_inv snoop_inv nextCycle_inv in \<open>simp_all del: lsq_exec.simps lsq_allowed.simps\<close>)

lemma run_inv: "sys_inv y \<Longrightarrow> allowed_run ops y \<Longrightarrow> \<exists>y'. lsq_run ops y = Inr y' \<and> sys_inv y'"
proof (induction ops arbitrary: y)
  case (Cons op ops)
  from exec_inv [OF Cons.prems(1)] Cons.prems(2) obtain z where z: "lsq_exec op y = Inr z" "sys_inv z" by auto
  then show ?case using Cons.IH [OF z(2)] Cons.prems(2) by simp
qed simp

lemma start_inv: "0 < lqEntries \<Longrightarrow> 0 < sqEntries \<Longrightarrow> sys_inv (lsq_start (lsq_new lqEntries sqEntries d c t m cl))"
  using lsq_new_wf [of lqEntries sqEntries d c t m cl]
  by (simp add: sys_inv_def lsq_start_def unit_sound_def lsq_new_def lsq_resetState_def cq_new_parts)

section \<open>Reachable states\<close>

inductive lsq_reach :: "lsq_sys \<Rightarrow> bool" where
  start: "0 < lqEntries \<Longrightarrow> 0 < sqEntries \<Longrightarrow> lsq_reach (lsq_start (lsq_new lqEntries sqEntries d c t m cl))"
| step: "lsq_reach y \<Longrightarrow> lsq_allowed op y \<Longrightarrow> lsq_exec op y = Inr y' \<Longrightarrow> lsq_reach y'"

lemma reach_inv: "lsq_reach y \<Longrightarrow> sys_inv y"
proof (induction rule: lsq_reach.induct)
  case (step y op y')
  then show ?case using exec_inv [of y op] by auto
qed (rule start_inv)

lemma lsq_run_reach: "lsq_reach y \<Longrightarrow> allowed_run ops y \<Longrightarrow> lsq_run ops y = Inr y' \<Longrightarrow> lsq_reach y'"
proof (induction ops arbitrary: y)
  case (Cons op ops)
  then obtain z where z: "lsq_exec op y = Inr z" "lsq_run ops z = Inr y'" by (auto simp: rbind_eq_Inr)
  show ?case by (rule Cons.IH [of z]) (use Cons.prems z lsq_reach.step in auto)
qed simp

lemmas reach_wf = sys_parts(1) [OF reach_inv]

end
