(* ===== verification/Lsq_Theorems.thy ===== *)
theory Lsq_Theorems
  imports Lsq_System
begin

text \<open>
  The properties of the load/store queue and of its use by the execute stage, with examples of two instructions: a store
  and a younger load of the same bytes.
\<close>

section \<open>Examples\<close>

lemma fits_int [code]: "fits a n \<longleftrightarrow> 0 < n \<and> uint n < 2 ^ 31 \<and> uint a + uint n < 2 ^ 64"
proof -
  have "unat n < 2 ^ 31 \<longleftrightarrow> int (unat n) < int (2 ^ 31)" "unat a + unat n < 2 ^ 64 \<longleftrightarrow> int (unat a + unat n) < int (2 ^ 64)"
    by (simp_all only: of_nat_less_iff)
  then show ?thesis by (simp add: fits_def)
qed

definition mem_inst :: "seqnum \<Rightarrow> bool \<Rightarrow> lsq_inst" where
  "mem_inst n load = \<lparr>li_seqNum = n, li_pc = 0x400, li_isLoad = load, li_isStore = (\<not> load), li_isAtomic = False,
     li_isStoreConditional = False, li_isDataPrefetch = False, li_isInstPrefetch = False, li_isHtmStart = False, li_isHtmStop = False,
     li_inLSQ = False, li_isSquashed = False, li_isIssued = False, li_isExecuted = False, li_isAtCommit = False, li_predicate = True,
     li_memAccPredicate = True, li_hasRequest = False, li_translationDelayed = False, li_translationCompleted = True,
     li_requestPartialFault = False, li_requestComplete = False, li_requestSplit = False, li_memReqLLSC = False,
     li_strictlyOrdered = False, li_effAddrValid = False, li_effAddr = 0, li_effSize = 0, li_memData = False,
     li_possibleLoadViolation = False, li_hitExternalSnoop = False, li_fault = NoFault, li_lqIdx = 0, li_sqIdx = 0, li_lqIt = 0,
     li_sqIt = 0, li_forwardedFrom = 0, li_violatingStoreSeqNum = 0, li_violatingStorePC = 0, li_storeQueueDistance = 0\<rparr>"

definition ex_request :: "u64 \<Rightarrow> u32 \<Rightarrow> lsq_request" where
  "ex_request a n = \<lparr>rq_vaddr = a, rq_size = n, rq_isLLSC = False, rq_isRelease = False, rq_isMasked = False,
     rq_isStrictlyOrdered = False, rq_isLocalAccess = False, rq_isAtomic = False, rq_blockZero = False, rq_isCacheMaintenance = False,
     rq_isHTMCmd = False, rq_isSplit = False, rq_paddrs = [Some a], rq_stateFault = False\<rparr>"

definition ex_unit :: lsq_unit where
  "ex_unit = lsq_new 4 4 0 True False 8 64"

section \<open>What a load has read\<close>

text \<open>The stores a load has to see: executed, still to be written back, older and with a byte in common.\<close>

definition visible :: "lsq_inst \<Rightarrow> lsq_unit \<Rightarrow> sq_entry list" where
  "visible i s = filter (\<lambda>e. participates e \<and> sn e < li_seqNum i \<and> overlaps (li_effAddr i) (li_effSize i) e) (pending s)"

lemma last_filter_latest:
  assumes "sorted_wrt (<) (map f xs)" "x \<in> set (filter P xs)"
  shows "f x \<le> (f (last (filter P xs)) :: 'a :: linorder)"
proof -
  have "sorted_wrt (\<lambda>x y. f x < f y) (filter P xs)" using assms(1) by (simp add: sorted_wrt_map sorted_wrt_filter)
  then show ?thesis using assms(2)
  proof (induction "filter P xs" rule: rev_induct)
    case (snoc y ys)
    then have "filter P xs = ys @ [y]" by simp
    then show ?case using snoc.prems by (auto simp: sorted_wrt_append)
  qed simp
qed

lemma pending_sorted: "lsq_wf s \<Longrightarrow> sorted_wrt (<) (map sn (pending s))"
proof -
  assume "lsq_wf s"
  then have "sorted_wrt (<) (map sn (sts s))" using wf_base_parts(6) by (simp add: sq_good_def)
  then show ?thesis unfolding pending_def drop_map [symmetric] by (rule sorted_wrt_drop)
qed

lemma younger_pending:
  assumes "lsq_wf s" "e \<in> set (pending s)" "f \<in> set (sts s)" "sn e \<le> sn f"
  shows "f \<in> set (pending s)"
proof -
  let ?n = "lu_storeWBIt s - shd s"
  have srt: "sorted_wrt (<) (map sn (sts s))" using wf_base_parts(6) [OF assms(1)] by (simp add: sq_good_def)
  from assms(2) obtain j where j: "j < length (sts s) - ?n" "e = sts s ! (?n + j)" by (auto simp: pending_def in_set_conv_nth)
  from assms(3) obtain i where i: "i < length (sts s)" "f = sts s ! i" unfolding in_set_conv_nth by blast
  have "?n + j \<le> i"
  proof (rule ccontr)
    assume "\<not> ?n + j \<le> i"
    then have "sn f < sn e" using sorted_sn [OF srt, of i "?n + j"] i j by simp
    then show False using assms(4) by simp
  qed
  then have "f = drop ?n (sts s) ! (i - ?n)" "i - ?n < length (drop ?n (sts s))" using i by simp_all
  then show ?thesis unfolding pending_def using nth_mem by blast
qed

lemma load_sees_youngest:
  assumes "lsq_wf s" "unit_sound C s" "l \<in> set (lds s)" "li_effAddrValid (ei l)" "\<not> li_strictlyOrdered (ei l)" "\<not> C (sn l)"
    "visible (ei l) s \<noteq> []"
  defines "e \<equiv> last (visible (ei l) s)"
  shows "li_forwardedFrom (ei l) = sn e \<and> bytes_at (li_effAddr (ei l)) (li_effSize (ei l)) \<subseteq> bytes_at (li_effAddr (ei e)) (le_size e) \<and>
    WritebackEvent (sn l) (load_bytes (ei l) e) \<in> set (lu_calls s)"
proof -
  have S: "load_sound (set (pending s)) (set (sts s)) (set (lu_calls s)) C l" using assms(2,3) by (simp add: unit_sound_def)
  have "e \<in> set (visible (ei l) s)" unfolding e_def by (rule last_in_set [OF assms(7)])
  then have e: "e \<in> set (pending s)" "participates e" "sn e < sn l" "overlaps (li_effAddr (ei l)) (li_effSize (ei l)) e"
    by (simp_all add: visible_def)
  then have es: "e \<in> set (sts s)" unfolding pending_def by (meson in_set_dropD)
  let ?f = "li_forwardedFrom (ei l)"
  have f: "sn e \<le> ?f" using S e assms(4-6) unfolding load_sound_def load_fresh_def by blast
  moreover have "0 < sn e" using assms(2) es by (simp add: unit_sound_def)
  ultimately have nz: "?f \<noteq> 0" by auto
  have fl: "?f < sn l" "fits (li_effAddr (ei l)) (li_effSize (ei l))" using S assms(4) by (simp_all add: load_sound_def)
  from S nz assms(4) have src: "(\<exists>x \<in> set (sts s). sn x = ?f) \<or> (\<forall>x \<in> set (sts s). ?f < sn x)"
    and at: "\<And>x. x \<in> set (sts s) \<Longrightarrow> sn x = ?f \<Longrightarrow> participates x \<and>
        bytes_at (li_effAddr (ei l)) (li_effSize (ei l)) \<subseteq> bytes_at (li_effAddr (ei x)) (le_size x) \<and>
        WritebackEvent (sn l) (load_bytes (ei l) x) \<in> set (lu_calls s)"
    unfolding load_sound_def load_source_def by blast+
  from src f es obtain x where x: "x \<in> set (sts s)" "sn x = ?f" by (metis leD)
  have "0 < unat (li_effSize (ei l))" using fl(2) by (simp add: fits_def word_less_nat_alt)
  then have "overlaps (li_effAddr (ei l)) (li_effSize (ei l)) x"
    using at [OF x] by (auto simp: overlaps_def bytes_at_def)
  moreover have "x \<in> set (pending s)" by (rule younger_pending [OF assms(1) e(1) x(1)]) (use f x(2) in simp)
  ultimately have "x \<in> set (visible (ei l) s)" using at [OF x] x(2) fl(1) by (simp add: visible_def)
  then have "sn x \<le> sn e" unfolding e_def visible_def by (rule last_filter_latest [OF pending_sorted [OF assms(1)]])
  then have eq: "?f = sn e" using f x(2) by simp
  then show ?thesis using at [OF es] by simp
qed

text \<open>C1. Loads see the stores before them.  However dispatches, executions, commits, squashes, write-backs, responses and snoops
  follow each other, as long as each is used as the stages around the queue use it (other instructions execute only while no
  violation waits to be reported), no assertion fails and nothing is read out
  of range; and in the state that is reached every load that has executed, unless a pending squash or recorded violation takes it,
  got all its bytes from the youngest older store with a byte in common that is still to be written back, if there is one.\<close>

theorem loads_see_older_stores:
  assumes "0 < lqEntries" "0 < sqEntries" "allowed_run ops (lsq_start (lsq_new lqEntries sqEntries shift chk tso m line))"
  shows "\<exists>y. lsq_run ops (lsq_start (lsq_new lqEntries sqEntries shift chk tso m line)) = Inr y \<and>
    (\<forall>l \<in> set (lds (ys_unit y)). li_effAddrValid (ei l) \<and> \<not> li_strictlyOrdered (ei l) \<and> \<not> condemned y (sn l) \<and>
       visible (ei l) (ys_unit y) \<noteq> [] \<longrightarrow>
       (let e = last (visible (ei l) (ys_unit y)) in
        li_forwardedFrom (ei l) = sn e \<and> bytes_at (li_effAddr (ei l)) (li_effSize (ei l)) \<subseteq> bytes_at (li_effAddr (ei e)) (le_size e) \<and>
        WritebackEvent (sn l) (load_bytes (ei l) e) \<in> set (lu_calls (ys_unit y))))"
proof -
  from run_inv [OF start_inv [OF assms(1,2)] assms(3)] obtain y where
    y: "lsq_run ops (lsq_start (lsq_new lqEntries sqEntries shift chk tso m line)) = Inr y" "sys_inv y" by blast
  note W = sys_parts [OF y(2)]
  from y(1) load_sees_youngest [OF W] show ?thesis by (intro exI [where x = y] conjI ballI impI) (simp_all add: Let_def)
qed

text \<open>A store of four bytes that executes before a load of two of them.\<close>

definition ex_forward :: "lsq_op list" where
  "ex_forward = [Dispatch (mem_inst 1 False), Dispatch (mem_inst 2 True), ExecStore 0 (ex_request 0x10 4) [1, 2, 3, 4] False,
     ExecLoad 0 (ex_request 0x12 2) False False False]"

theorem loads_see_older_stores_witness:
  "allowed_run ex_forward (lsq_start ex_unit) \<and>
   (\<exists>y. lsq_run ex_forward (lsq_start ex_unit) = Inr y \<and>
      (\<forall>l \<in> set (lds (ys_unit y)). li_effAddrValid (ei l) \<and> \<not> li_strictlyOrdered (ei l) \<and> \<not> condemned y (sn l) \<and>
         visible (ei l) (ys_unit y) \<noteq> [] \<longrightarrow>
         (let e = last (visible (ei l) (ys_unit y)) in
          li_forwardedFrom (ei l) = sn e \<and> bytes_at (li_effAddr (ei l)) (li_effSize (ei l)) \<subseteq> bytes_at (li_effAddr (ei e)) (le_size e) \<and>
          WritebackEvent (sn l) (load_bytes (ei l) e) \<in> set (lu_calls (ys_unit y))))) \<and>
   (case lsq_run ex_forward (lsq_start ex_unit) of Inl err \<Rightarrow> False
    | Inr y \<Rightarrow> map (\<lambda>l. (li_effAddrValid (ei l), condemned y (sn l), length (visible (ei l) (ys_unit y)))) (lds (ys_unit y)) = [(True, False, 1)] \<and>
        WritebackEvent 2 [3, 4] \<in> set (lu_calls (ys_unit y)))"
proof (intro conjI)
  show a: "allowed_run ex_forward (lsq_start ex_unit)" by code_simp
  show "\<exists>y. lsq_run ex_forward (lsq_start ex_unit) = Inr y \<and>
      (\<forall>l \<in> set (lds (ys_unit y)). li_effAddrValid (ei l) \<and> \<not> li_strictlyOrdered (ei l) \<and> \<not> condemned y (sn l) \<and>
         visible (ei l) (ys_unit y) \<noteq> [] \<longrightarrow>
         (let e = last (visible (ei l) (ys_unit y)) in
          li_forwardedFrom (ei l) = sn e \<and> bytes_at (li_effAddr (ei l)) (li_effSize (ei l)) \<subseteq> bytes_at (li_effAddr (ei e)) (le_size e) \<and>
          WritebackEvent (sn l) (load_bytes (ei l) e) \<in> set (lu_calls (ys_unit y))))"
    unfolding ex_unit_def by (rule loads_see_older_stores [OF _ _ a [unfolded ex_unit_def]]) simp_all
  show "case lsq_run ex_forward (lsq_start ex_unit) of Inl err \<Rightarrow> False
    | Inr y \<Rightarrow> map (\<lambda>l. (li_effAddrValid (ei l), condemned y (sn l), length (visible (ei l) (ys_unit y)))) (lds (ys_unit y)) = [(True, False, 1)] \<and>
        WritebackEvent 2 [3, 4] \<in> set (lu_calls (ys_unit y))" by code_simp
qed

section \<open>Searching the store queue\<close>

lemma supplier_visible:
  fixes r :: lsq_request
  assumes "lsq_wf s" "l < length (lds s)"
  defines "es \<equiv> filter (\<lambda>e. sn e < sn (lds s ! l) \<and> suppliers r e) (pending s)"
  shows "(case supplier r s l of None \<Rightarrow> es = [] | Some k \<Rightarrow> es \<noteq> [] \<and> sts s ! k = last es)"
proof (cases "supplier r s l")
  case None
  then have "es = []" unfolding es_def filter_empty_conv using supplier_youngest [OF assms(1,2)] by fastforce
  then show ?thesis using None by simp
next
  case (Some k)
  note K = supplier_mem [OF Some] and M = scanned_mem [OF assms(1,2) conjunct1 [OF supplier_mem [OF Some]]]
  let ?n = "lu_storeWBIt s - shd s"
  have "sts s ! k = drop ?n (sts s) ! (k - ?n)" "k - ?n < length (drop ?n (sts s))" using M(1,3) by auto
  then have "sts s ! k \<in> set (pending s)" unfolding pending_def using nth_mem by metis
  then have mem: "sts s ! k \<in> set es" using K M(2) by (simp add: es_def)
  then have ne: "es \<noteq> []" by auto
  have le: "sn (sts s ! k) \<le> sn (last es)" using mem unfolding es_def by (rule last_filter_latest [OF pending_sorted [OF assms(1)]])
  have last: "last es \<in> set (pending s)" "sn (last es) < sn (lds s ! l)" "suppliers r (last es)"
    using last_in_set [OF ne] by (simp_all add: es_def)
  from supplier_youngest [OF assms(1,2) last] Some le have eq: "sn (sts s ! k) = sn (last es)" by auto
  have "last es \<in> set (sts s)" using last(1) unfolding pending_def by (meson in_set_dropD)
  then obtain j where j: "j < length (sts s)" "sts s ! j = last es" unfolding in_set_conv_nth by blast
  have srt: "sorted_wrt (<) (map sn (sts s))" using wf_base_parts(6) [OF assms(1)] by (simp add: sq_good_def)
  have "j = k" using sorted_sn [OF srt, of j k] sorted_sn [OF srt, of k j] j M(1) eq by (cases j k rule: linorder_cases) auto
  then show ?thesis using Some ne j(2) by simp
qed

text \<open>C7. The backward walk over the store queue is the search for the youngest older store with a byte in common: the load gets
  its bytes from that store if they all are in it and it can supply them, it waits for the store if not, and without such a store
  it goes to the cache.  Stores without data, strictly ordered stores and cache maintenance are passed over.  The load ends below
  the top of the address space.\<close>

theorem read_search_exact:
  assumes "lsq_reach y" "l < length (lds (ys_unit y))" "fits (rq_vaddr r) (rq_size r)"
  shows "lsq_read_scan r outstanding sent (lhd (ys_unit y) + l)
      (rev [lu_storeWBIt (ys_unit y) ..< li_sqIt (ei (lds (ys_unit y) ! l))]) (ys_unit y) =
    (let s = ys_unit y; es = filter (\<lambda>e. sn e < sn (lds s ! l) \<and> suppliers r e) (pending s); e = last es in
     if es = [] then lsq_access r sent (lhd s + l) s
     else if can_forward r e then lsq_forward r outstanding (lhd s + l) (ei e) e s
     else lsq_stall (lhd s + l) (ei e) e s)"
proof -
  note wf = reach_wf [OF assms(1)]
  note eq = read_scan_supplier [OF wf assms(2,3), of outstanding sent] and vis = supplier_visible [OF wf assms(2), of r]
  show ?thesis
  proof (cases "supplier r (ys_unit y) l")
    case None
    then show ?thesis using eq vis by (simp add: Let_def)
  next
    case (Some k)
    then have "filter (\<lambda>e. sn e < sn (lds (ys_unit y) ! l) \<and> suppliers r e) (pending (ys_unit y)) \<noteq> []"
      "sts (ys_unit y) ! k = last (filter (\<lambda>e. sn e < sn (lds (ys_unit y) ! l) \<and> suppliers r e) (pending (ys_unit y)))" using vis by simp_all
    then show ?thesis using eq unfolding Some option.case Let_def by (simp only: if_False)
  qed
qed

lemma ex_reached: "allowed_run ops (lsq_start ex_unit) \<Longrightarrow> lsq_run ops (lsq_start ex_unit) = Inr y \<Longrightarrow> lsq_reach y"
  by (rule lsq_run_reach [of "lsq_start ex_unit" ops]) (simp_all add: ex_unit_def lsq_reach.start)

lemma ex_runs: "case lsq_run ops (lsq_start ex_unit) of Inl err \<Rightarrow> False | Inr y \<Rightarrow> P y \<Longrightarrow> allowed_run ops (lsq_start ex_unit) \<Longrightarrow>
  \<exists>y. lsq_run ops (lsq_start ex_unit) = Inr y \<and> lsq_reach y \<and> P y"
  using ex_reached [of ops] by (auto split: sum.splits)

theorem read_search_exact_witness:
  "\<exists>y. lsq_reach y \<and> 1 = length (lds (ys_unit y)) \<and> fits 0x12 2 \<and>
     lsq_read_scan (ex_request 0x12 2) False False (lhd (ys_unit y) + 0)
       (rev [lu_storeWBIt (ys_unit y) ..< li_sqIt (ei (lds (ys_unit y) ! 0))]) (ys_unit y) =
     lsq_forward (ex_request 0x12 2) False (lhd (ys_unit y) + 0) (ei (sts (ys_unit y) ! 0)) (sts (ys_unit y) ! 0) (ys_unit y)"
proof -
  let ?r = "ex_request 0x12 2"
  have "\<exists>y. lsq_run (take 3 ex_forward) (lsq_start ex_unit) = Inr y \<and> lsq_reach y \<and>
      (map (\<lambda>e. sn e < sn (lds (ys_unit y) ! 0) \<and> suppliers ?r e \<and> can_forward ?r e) (pending (ys_unit y)) = [True] \<and>
       length (lds (ys_unit y)) = 1 \<and> pending (ys_unit y) = sts (ys_unit y))" (is "\<exists>y. _ \<and> _ \<and> ?P y")
    by (rule ex_runs [where P = ?P]) code_simp+
  then obtain y where y: "lsq_reach y" "length (lds (ys_unit y)) = 1" "pending (ys_unit y) = sts (ys_unit y)"
    "map (\<lambda>e. sn e < sn (lds (ys_unit y) ! 0) \<and> suppliers ?r e \<and> can_forward ?r e) (pending (ys_unit y)) = [True]"
    by (elim exE conjE) (rule that)
  from y(4) obtain e where e: "sts (ys_unit y) = [e]" "sn e < sn (lds (ys_unit y) ! 0)" "suppliers ?r e" "can_forward ?r e"
    unfolding y(3) map_eq_Cons_conv by auto
  have "0 < length (lds (ys_unit y))" "fits (rq_vaddr ?r) (rq_size ?r)" using y(2) by (simp_all add: ex_request_def fits_int)
  from read_search_exact [OF y(1) this, of False False] y(1,2) show ?thesis
    by (intro exI [where x = y]) (simp add: y(3) e fits_int Let_def)
qed

section \<open>Order violations\<close>

lemma find_filter:
  assumes "a \<le> length xs"
  shows "case find (\<lambda>j. P (xs ! j)) [a ..< length xs] of None \<Rightarrow> filter P (drop a xs) = []
    | Some j \<Rightarrow> \<exists>ys. filter P (drop a xs) = xs ! j # ys"
  using assms
proof (induction "length xs - a" arbitrary: a)
  case (Suc n)
  then have a: "a < length xs" by simp
  have eq: "[a ..< length xs] = a # [Suc a ..< length xs]" "drop a xs = xs ! a # drop (Suc a) xs"
    using a by (simp_all add: upt_conv_Cons Cons_nth_drop_Suc)
  have "case find (\<lambda>j. P (xs ! j)) [Suc a ..< length xs] of None \<Rightarrow> filter P (drop (Suc a) xs) = []
    | Some j \<Rightarrow> \<exists>ys. filter P (drop (Suc a) xs) = xs ! j # ys" by (rule Suc.hyps(1)) (use Suc.hyps(2) a in simp_all)
  then show ?case
    unfolding eq by (cases "P (xs ! a)"; cases "find (\<lambda>j. P (xs ! j)) [Suc a ..< length xs]") simp_all
qed simp

lemma filter_suffix:
  assumes "\<And>j. j < length xs \<Longrightarrow> Q (xs ! j) \<longleftrightarrow> a \<le> j"
  shows "filter (\<lambda>x. Q x \<and> P x) xs = filter P (drop a xs)"
proof -
  have t: "\<not> Q x" if "x \<in> set (take a xs)" for x using that assms by (auto simp: in_set_conv_nth)
  have d: "Q x" if "x \<in> set (drop a xs)" for x using that assms by (auto simp: in_set_conv_nth)
  have "filter (\<lambda>x. Q x \<and> P x) xs = filter (\<lambda>x. Q x \<and> P x) (take a xs) @ filter (\<lambda>x. Q x \<and> P x) (drop a xs)"
    by (metis append_take_drop_id filter_append)
  also have "filter (\<lambda>x. Q x \<and> P x) (take a xs) = []" using t by (simp add: filter_empty_conv)
  also have "filter (\<lambda>x. Q x \<and> P x) (drop a xs) = filter P (drop a xs)" using d by (auto intro: filter_cong)
  finally show ?thesis by simp
qed

text \<open>The loads a store has to report: younger, executed, in the same granule and not settled by a younger store.\<close>

definition violated_loads :: "nat \<Rightarrow> lsq_request \<Rightarrow> lsq_unit \<Rightarrow> lsq_entry list" where
  "violated_loads k r s = filter (\<lambda>l. sn (sts s ! k) < sn l \<and> violates (lu_depCheckShift s) (push_inst r (ei (sts s ! k))) (ei l)) (lds s)"

lemma first_violated_hd:
  assumes "lsq_wf s" "k < length (sts s)" "lhd s \<le> li_lqIt (ei (sts s ! k))"
  shows "case first_violated s (push_inst r (ei (sts s ! k))) of None \<Rightarrow> violated_loads k r s = []
    | Some j \<Rightarrow> j < length (lds s) \<and> violated_loads k r s \<noteq> [] \<and> hd (violated_loads k r s) = lds s ! j"
proof -
  let ?i = "push_inst r (ei (sts s ! k))" and ?a = "li_lqIt (ei (sts s ! k)) - lhd s"
  note P = wf_base_parts [OF assms(1)]
  have i: "li_lqIt ?i = li_lqIt (ei (sts s ! k))" by (simp add: push_inst_def)
  have a: "?a \<le> length (lds s)" using P(7) assms(2) unfolding cross_linked_def by (metis add.commute le_diff_conv)
  have "sn (sts s ! k) < sn (lds s ! j) \<longleftrightarrow> ?a \<le> j" if "j < length (lds s)" for j
    using cross_linkedD(2) [OF P(7) that assms(2)] assms(3) by (metis add.commute le_diff_conv)
  from filter_suffix [of "lds s", OF this] have v: "violated_loads k r s = filter (\<lambda>l. violates (lu_depCheckShift s) ?i (ei l)) (drop ?a (lds s))"
    unfolding violated_loads_def .
  show ?thesis
  proof (cases "first_violated s ?i")
    case None
    then show ?thesis using find_filter [OF a, of "\<lambda>l. violates (lu_depCheckShift s) ?i (ei l)"] unfolding v first_violated_def i by simp
  next
    case (Some j)
    then have "j < length (lds s)" unfolding first_violated_def by (auto simp: find_Some_iff)
    moreover have "\<exists>ys. violated_loads k r s = lds s ! j # ys"
      using Some find_filter [OF a, of "\<lambda>l. violates (lu_depCheckShift s) ?i (ei l)"] unfolding v first_violated_def i by simp
    ultimately show ?thesis using Some by auto
  qed
qed

text \<open>C6. A store that executes reports a violation exactly when a younger load has already executed on one of its granules without
  having got its data from this store or a younger one; it reports the oldest such load, unless one at least as old is already
  recorded, and never an older load or one that is settled.\<close>

theorem store_reports_oldest_violation:
  assumes "lsq_reach y" "lsq_allowed (ExecStore k r data mp) y"
  shows "\<exists>f s'. lsq_executeStore (lsq_pushStore r data) (shd (ys_unit y) + k) (ys_unit y) = Inr (f, s') \<and>
    (let s = ys_unit y; vs = violated_loads k r s in
     if vs \<noteq> [] \<and> not_after_violator (lu_memDepViolator s) (sn (hd vs))
     then f = M5PanicFault \<and> lu_memDepViolator s' = Some (sn (hd vs))
     else f = NoFault \<and> lu_memDepViolator s' = lu_memDepViolator s \<and> lds s' = lds s)"
proof -
  let ?s = "ys_unit y" and ?e = "sts (ys_unit y) ! k"
  note wf = reach_wf [OF assms(1)]
  note a = execStore_allowed [OF assms(2)]
  from allowed_executeStore [OF wf assms(2)] obtain f s' where
    s': "lsq_executeStore (lsq_pushStore r data) (shd ?s + k) ?s = Inr (f, s')" "store_outcome (push_inst r (ei ?e)) ?s f s'" by force
  note o = s'(2) [unfolded store_outcome_def] and h = first_violated_hd [OF wf a(1,4), of r]
  have "let vs = violated_loads k r ?s in if vs \<noteq> [] \<and> not_after_violator (lu_memDepViolator ?s) (sn (hd vs))
     then f = M5PanicFault \<and> lu_memDepViolator s' = Some (sn (hd vs))
     else f = NoFault \<and> lu_memDepViolator s' = lu_memDepViolator ?s \<and> lds s' = lds ?s"
    using o h by (cases "first_violated ?s (push_inst r (ei ?e))") (auto simp: Let_def split: if_splits)
  then show ?thesis using s'(1) by (intro exI [where x = f] exI [where x = s']) (simp add: Let_def)
qed

text \<open>A load that executes before the store whose bytes it needs.\<close>

definition ex_misorder :: "lsq_op list" where
  "ex_misorder = [Dispatch (mem_inst 1 False), Dispatch (mem_inst 2 True), ExecLoad 0 (ex_request 0x12 2) False True False, NextCycle]"

theorem store_reports_oldest_violation_witness:
  "\<exists>y f s'. lsq_reach y \<and> lsq_allowed (ExecStore 0 (ex_request 0x10 4) [1, 2, 3, 4] False) y \<and>
     lsq_executeStore (lsq_pushStore (ex_request 0x10 4) [1, 2, 3, 4]) (shd (ys_unit y) + 0) (ys_unit y) = Inr (f, s') \<and>
     f = M5PanicFault \<and> lu_memDepViolator s' = Some 2"
proof -
  let ?r = "ex_request 0x10 4"
  have "\<exists>y. lsq_run ex_misorder (lsq_start ex_unit) = Inr y \<and> lsq_reach y \<and>
      (lsq_allowed (ExecStore 0 ?r [1, 2, 3, 4] False) y \<and> lu_memDepViolator (ys_unit y) = None \<and>
       map sn (violated_loads 0 ?r (ys_unit y)) = [2])" (is "\<exists>y. _ \<and> _ \<and> ?P y")
    by (rule ex_runs [where P = ?P]) code_simp+
  then obtain y where y: "lsq_reach y" "lsq_allowed (ExecStore 0 ?r [1, 2, 3, 4] False) y" "lu_memDepViolator (ys_unit y) = None"
    "map sn (violated_loads 0 ?r (ys_unit y)) = [2]" by (elim exE conjE) (rule that)
  from y(4) have "violated_loads 0 ?r (ys_unit y) \<noteq> []" "sn (hd (violated_loads 0 ?r (ys_unit y))) = 2" by auto
  with store_reports_oldest_violation [OF y(1,2)] y(1-3) show ?thesis by (auto simp: Let_def not_after_violator_def)
qed

section \<open>Squash, commit and write-back\<close>

lemma kept_filter: "sorted_wrt (<) (map sn es) \<Longrightarrow> kept q es = filter (\<lambda>e. sn e \<le> q) es"
proof (induction es)
  case (Cons e es)
  then have "filter (\<lambda>e. sn e \<le> q) es = []" if "q < sn e" using that by (auto simp: filter_empty_conv)
  then show ?case using Cons by (auto simp: kept_def not_le)
qed (simp add: kept_def)

lemma dropWhile_filter: "sorted_wrt (<) (map sn es) \<Longrightarrow> dropWhile (\<lambda>e. sn e \<le> q) es = filter (\<lambda>e. q < sn e) es"
proof (induction es)
  case (Cons e es)
  then have "filter (\<lambda>e. q < sn e) es = es" if "q < sn e" using that by (auto simp: filter_id_conv)
  then show ?case using Cons by (auto simp: not_le)
qed simp

lemma queues_sorted: "lsq_wf s \<Longrightarrow> sorted_wrt (<) (map sn (lds s))" "lsq_wf s \<Longrightarrow> sorted_wrt (<) (map sn (sts s))"
  using wf_base_parts(5,6) by (auto simp: lq_good_def sq_good_def)

text \<open>C9. A squash removes exactly the younger loads and stores.  It never comes to a committed store, a recorded violator is
  forgotten exactly if it is younger, the stall ends exactly if the stalled load is younger and is left as it is otherwise, and the
  stores being written back are not touched.\<close>

theorem lsq_squash_exact:
  assumes "lsq_reach y" "lsq_allowed (SquashTo q) y"
  shows "\<exists>u. lsq_squash q (ys_unit y) = Inr u \<and> lds u = filter (\<lambda>l. sn l \<le> q) (lds (ys_unit y)) \<and>
    sts u = filter (\<lambda>e. sn e \<le> q) (sts (ys_unit y)) \<and> lu_storeWBIt u = lu_storeWBIt (ys_unit y) \<and>
    lu_storesToWB u = lu_storesToWB (ys_unit y) \<and>
    lu_memDepViolator u = (case lu_memDepViolator (ys_unit y) of None \<Rightarrow> None | Some v \<Rightarrow> if v \<le> q then Some v else None) \<and>
    stall_of u = (let s = ys_unit y in
      if lu_stalled s \<and> q < sn (lds s ! (lu_stallingLoadIdx s - lhd s)) then (False, 0, 0) else stall_of s)"
proof -
  let ?s = "ys_unit y"
  note wf = reach_wf [OF assms(1)]
  have wb: "\<forall>e \<in> set (sts ?s). se_canWB e \<longrightarrow> sn e \<le> q" using assms(2) by simp
  from squash_lists [OF wf this] obtain u where
    u: "lsq_squash q ?s = Inr u" "lsq_wf u" "lds u = kept q (lds ?s)" "sts u = kept q (sts ?s)" "aux_same ?s u"
      "lu_memDepViolator u = (case lu_memDepViolator ?s of None \<Rightarrow> None | Some v \<Rightarrow> if q < v then None else Some v)"
      "stall_of u = (if lu_stalled ?s \<and> lhd ?s + length (kept q (lds ?s)) \<le> lu_stallingLoadIdx ?s then (False, 0, 0) else stall_of ?s)"
    by blast
  have "filter awaiting (filter (\<lambda>e. sn e \<le> q) (sts ?s)) = filter awaiting (sts ?s)"
    unfolding filter_filter using wb by (intro filter_cong) (auto simp: awaiting_def)
  then have "lu_storesToWB u = lu_storesToWB ?s"
    using wf_base_parts(9) [OF u(2)] wf_base_parts(9) [OF wf] unfolding u(4) kept_filter [OF queues_sorted(2) [OF wf]] by simp
  moreover have "lu_memDepViolator u = (case lu_memDepViolator ?s of None \<Rightarrow> None | Some v \<Rightarrow> if v \<le> q then Some v else None)"
    using u(6) by (auto simp: not_le split: option.splits)
  moreover have "lhd ?s + length (kept q (lds ?s)) \<le> lu_stallingLoadIdx ?s \<longleftrightarrow> q < sn (lds ?s ! (lu_stallingLoadIdx ?s - lhd ?s))"
    if "lu_stalled ?s"
  proof -
    have "lhd ?s \<le> lu_stallingLoadIdx ?s" "lu_stallingLoadIdx ?s - lhd ?s < length (lds ?s)"
      using that wf_base_parts(10) [OF wf] by (auto simp: stall_good_def)
    then show ?thesis using kept_iff [OF queues_sorted(1) [OF wf], of "lu_stallingLoadIdx ?s - lhd ?s" q] by auto
  qed
  then have "stall_of u = (if lu_stalled ?s \<and> q < sn (lds ?s ! (lu_stallingLoadIdx ?s - lhd ?s)) then (False, 0, 0) else stall_of ?s)"
    unfolding u(7) by meson
  ultimately show ?thesis
    using u(1,5) unfolding u(3,4) kept_filter [OF queues_sorted(1) [OF wf]] kept_filter [OF queues_sorted(2) [OF wf]]
    by (intro exI [where x = u]) (simp add: aux_same_def u(1,3,4) kept_filter queues_sorted wf Let_def)
qed

text \<open>A load of eight bytes that stalls on a store of four of them.\<close>

definition ex_stall :: "lsq_op list" where
  "ex_stall = [Dispatch (mem_inst 1 False), Dispatch (mem_inst 2 True), ExecStore 0 (ex_request 0x10 4) [1, 2, 3, 4] False,
     ExecLoad 0 (ex_request 0x10 8) False False False]"

theorem lsq_squash_exact_witness:
  "\<exists>y u. lsq_reach y \<and> lsq_allowed (SquashTo 1) y \<and> map sn (lds (ys_unit y)) = [2] \<and> lu_stalled (ys_unit y) \<and>
     lsq_squash 1 (ys_unit y) = Inr u \<and> lds u = [] \<and> map sn (sts u) = [1] \<and> \<not> lu_stalled u"
proof -
  have "\<exists>y. lsq_run ex_stall (lsq_start ex_unit) = Inr y \<and> lsq_reach y \<and>
      (lsq_allowed (SquashTo 1) y \<and> map sn (lds (ys_unit y)) = [2] \<and> map sn (sts (ys_unit y)) = [1] \<and> lu_stalled (ys_unit y) \<and>
       lu_stallingLoadIdx (ys_unit y) - lhd (ys_unit y) = 0)" (is "\<exists>y. _ \<and> _ \<and> ?P y")
    by (rule ex_runs [where P = ?P]) code_simp+
  then obtain y where y: "lsq_reach y" "lsq_allowed (SquashTo 1) y" "map sn (lds (ys_unit y)) = [2]" "map sn (sts (ys_unit y)) = [1]"
      "lu_stalled (ys_unit y)" "lu_stallingLoadIdx (ys_unit y) - lhd (ys_unit y) = 0"
    by (elim exE conjE) (rule that)
  from lsq_squash_exact [OF y(1,2)] obtain u where u: "lsq_squash 1 (ys_unit y) = Inr u"
    "lds u = filter (\<lambda>l. sn l \<le> 1) (lds (ys_unit y))" "sts u = filter (\<lambda>e. sn e \<le> 1) (sts (ys_unit y))"
    "stall_of u = (let s = ys_unit y in if lu_stalled s \<and> 1 < sn (lds s ! (lu_stallingLoadIdx s - lhd s)) then (False, 0, 0) else stall_of s)"
    by (elim exE conjE) (rule that)
  obtain l e where le: "lds (ys_unit y) = [l]" "sn l = 2" "sts (ys_unit y) = [e]" "sn e = 1" using y(3,4) by auto
  have n: "\<not> (2 :: seqnum) \<le> 1" "(1 :: seqnum) < 2" by (simp_all add: word_le_nat_alt word_less_nat_alt)
  then have "\<not> lu_stalled u" using u(4) y(5,6) le by (simp add: Let_def)
  then show ?thesis using y(1-3,5) u(1-3) le n(1) by (intro exI [where x = y] exI [where x = u]) simp
qed

text \<open>C12. When commit has reached a sequence number and is not squashing, exactly the loads up to it leave the queue and exactly the
  stores up to it may be written back; the others stay as they are, and the instruction queue is told.  A number that comes with a
  squash, or while the reorder buffer squashes, commits nothing.\<close>

theorem lsq_commit_exact:
  assumes "lsq_reach y" "lsq_allowed (CommitTo n squash robSquashing) y"
  shows "\<exists>u. iew_commit n squash robSquashing (ys_unit y) = Inr u \<and>
    (if n = 0 \<or> squash \<or> robSquashing then u = ys_unit y
     else lds u = filter (\<lambda>l. n < sn l) (lds (ys_unit y)) \<and>
       sts u = map (\<lambda>e. if sn e \<le> n then e\<lparr>se_canWB := True\<rparr> else e) (sts (ys_unit y)) \<and>
       InstQueueCommit n \<in> set (lu_calls u))"
proof (cases "n = 0 \<or> squash \<or> robSquashing")
  case True
  then show ?thesis by (auto simp: iew_commit_def)
next
  case False
  let ?s = "ys_unit y"
  note wf = reach_wf [OF assms(1)]
  from commitStores_lists [OF wf_base(1) [OF wf], of n] obtain t where
    t: "lsq_commitStores n ?s = Inr t" "lsq_base t" "sts t = map (commit_mark n) (sts ?s)" "lu_loadQueue t = lu_loadQueue ?s" by blast
  have ex: "sn (lds t ! i) \<le> n \<Longrightarrow> li_isExecuted (ei (lds t ! i))" if "i < length (lds t)" for i
    using assms(2) False that unfolding t(4) by simp
  from commitLoads_lists [OF t(2) ex] obtain u where
    u: "lsq_commitLoads n t = Inr u" "lds u = dropWhile (\<lambda>e. sn e \<le> n) (lds t)" "lu_storeQueue u = lu_storeQueue t" by blast
  show ?thesis
    using False t(1) u(1) by (intro exI [where x = "lu_call (InstQueueCommit n) (lu_call UpdateLSQNextCycle u)"])
      (simp add: iew_commit_def u(2,3) t(3,4) dropWhile_filter [OF queues_sorted(1) [OF wf]] commit_mark_def lu_call_def)
qed

definition ex_commit :: "lsq_op list" where
  "ex_commit = [Dispatch (mem_inst 1 False), Dispatch (mem_inst 2 True), ExecStore 0 (ex_request 0x10 4) [1, 2, 3, 4] False,
     ExecLoad 0 (ex_request 0x12 2) False False False, LoadDone 0 False]"

theorem lsq_commit_exact_witness:
  "\<exists>y u. lsq_reach y \<and> lsq_allowed (CommitTo 2 False False) y \<and> map sn (lds (ys_unit y)) = [2] \<and> iew_commit 2 False False (ys_unit y) = Inr u \<and>
     lds u = [] \<and> map se_canWB (sts u) = [True]"
proof -
  have "\<exists>y. lsq_run ex_commit (lsq_start ex_unit) = Inr y \<and> lsq_reach y \<and>
      (lsq_allowed (CommitTo 2 False False) y \<and> map sn (lds (ys_unit y)) = [2] \<and> map sn (sts (ys_unit y)) = [1])" (is "\<exists>y. _ \<and> _ \<and> ?P y")
    by (rule ex_runs [where P = ?P]) code_simp+
  then obtain y where y: "lsq_reach y" "lsq_allowed (CommitTo 2 False False) y" "map sn (lds (ys_unit y)) = [2]" "map sn (sts (ys_unit y)) = [1]"
    by (elim exE conjE) (rule that)
  from lsq_commit_exact [OF y(1,2)] obtain u where u: "iew_commit 2 False False (ys_unit y) = Inr u" "lds u = filter (\<lambda>l. 2 < sn l) (lds (ys_unit y))"
    "sts u = map (\<lambda>e. if sn e \<le> 2 then e\<lparr>se_canWB := True\<rparr> else e) (sts (ys_unit y))" by auto
  obtain l e where "lds (ys_unit y) = [l]" "sn l = 2" "sts (ys_unit y) = [e]" "sn e = 1" using y(3,4) by auto
  then show ?thesis using y(1-3) u by (intro exI [where x = y] exI [where x = u]) simp
qed

text \<open>C11. Writing stores back never fails, whatever the cache answers: committed stores leave the queue from its front in program
  order, the other stores keep their address, data and flag, and the loads are not touched.\<close>

theorem writeback_from_the_front:
  assumes "lsq_reach y"
  shows "\<exists>u n. lsq_writebackStores blocked answers (ys_unit y) = Inr u \<and> lds u = lds (ys_unit y) \<and> n \<le> length (sts (ys_unit y)) \<and>
    map wb_view (sts u) = map wb_view (drop n (sts (ys_unit y))) \<and> (\<forall>e \<in> set (take n (sts (ys_unit y))). se_canWB e)"
proof -
  let ?s = "ys_unit y"
  from writebackStores_wf [OF reach_wf [OF assms], of blocked answers] obtain u where
    u: "lsq_writebackStores blocked answers ?s = Inr u" "wb_moved ?s u" by blast
  note W = u(2) [unfolded wb_moved_def stores_from_def]
  let ?n = "shd u - shd ?s"
  have n: "?n \<le> length (sts ?s)" using W by auto
  have "\<forall>e \<in> set (take ?n (sts ?s)). se_canWB e" using W n by (auto simp: in_set_conv_nth)
  then show ?thesis using u(1) W n by (intro exI [where x = u] exI [where x = ?n]) simp
qed

definition ex_answer :: wb_answer where
  "ex_answer = \<lparr>wa_cacheBlocked = False, wa_portAvailable = True, wa_accepted = True, wa_reserved = True\<rparr>"

theorem writeback_from_the_front_witness:
  "\<exists>y u n. lsq_reach y \<and> lsq_writebackStores ex_answer [ex_answer] (ys_unit y) = Inr u \<and> map sn (sts (ys_unit y)) = [1] \<and> n \<le> 1 \<and>
     map wb_view (sts u) = map wb_view (drop n (sts (ys_unit y)))"
proof -
  have "\<exists>y. lsq_run (ex_commit @ [CommitTo 2 False False]) (lsq_start ex_unit) = Inr y \<and> lsq_reach y \<and> map sn (sts (ys_unit y)) = [1]" (is "\<exists>y. _ \<and> _ \<and> ?P y")
    by (rule ex_runs [where P = ?P]) code_simp+
  then obtain y where y: "lsq_reach y" "map sn (sts (ys_unit y)) = [1]" by (elim exE conjE) (rule that)
  have "length (sts (ys_unit y)) = 1" using arg_cong [OF y(2), of length] by simp
  with writeback_from_the_front [OF y(1), of ex_answer "[ex_answer]"] obtain u n where
    "lsq_writebackStores ex_answer [ex_answer] (ys_unit y) = Inr u" "n \<le> 1" "map wb_view (sts u) = map wb_view (drop n (sts (ys_unit y)))" by auto
  then show ?thesis by (intro exI [where x = y] exI [where x = u] exI [where x = n] conjI) (rule y | assumption)+
qed

section \<open>Drained\<close>

lemma slots_cover: "0 < c \<Longrightarrow> (\<lambda>i. i mod c) ` {h ..< h + c} = {..<c :: nat}"
proof (rule card_subset_eq)
  assume "0 < c"
  then show "(\<lambda>i. i mod c) ` {h ..< h + c} \<subseteq> {..<c}" by auto
  have "inj_on (\<lambda>i. i mod c) {h ..< h + c}" by (rule inj_onI) (use window_slots_distinct [of h _ c] in auto)
  then show "card ((\<lambda>i. i mod c) ` {h ..< h + c}) = card {..<c}" by (simp add: card_image)
qed simp

lemma cq_data_set: "cq_ok q \<Longrightarrow> set (cq_data q) = set (cq_list q) \<union> set (cq_rest q)"
proof -
  assume ok: "cq_ok q"
  let ?c = "cq_capacity q" and ?h = "cq_head q"
  have "{?h ..< ?h + ?c} = {?h ..< ?h + cq_size q} \<union> {?h + cq_size q ..< ?h + ?c}" using ok by (auto simp: cq_ok_def)
  then have "set (cq_list q) \<union> set (cq_rest q) = (!) (cq_data q) ` (\<lambda>i. i mod ?c) ` {?h ..< ?h + ?c}"
    by (simp add: cq_list_def cq_rest_def image_Un image_image)
  also have "\<dots> = (!) (cq_data q) ` {..<?c}" using ok by (subst slots_cover) (simp_all add: cq_ok_def)
  also have "\<dots> = set (cq_data q)" using ok by (auto simp: cq_ok_def set_conv_nth)
  finally show ?thesis by simp
qed

lemma rfold_checks: "rfold (\<lambda>i u. rbind (g i) (\<lambda>e. check (P e) err)) is () = Inr () \<longleftrightarrow> (\<forall>i \<in> set is. \<exists>e. g i = Inr e \<and> P e)"
  by (induction "is") (auto simp: rbind_eq_Inr check_eq_Inr)

text \<open>C14. The sanity check of a drain passes exactly when no load is in the queue and every store that may be written back has
  been completed.\<close>

theorem lsq_drain_check_exact:
  assumes "lsq_reach y"
  shows "lsq_drainSanityCheck (ys_unit y) = Inr () \<longleftrightarrow>
    lds (ys_unit y) = [] \<and> (\<forall>e \<in> set (sts (ys_unit y)). se_canWB e \<longrightarrow> se_completed e)"
proof -
  let ?s = "ys_unit y" and ?q = "lu_loadQueue (ys_unit y)"
  note wf = reach_wf [OF assms] and P = wf_base_parts [OF reach_wf [OF assms]]
  have cap: "0 < cq_capacity ?q" "length (cq_data ?q) = cq_capacity ?q" using P(1) by (simp_all add: cq_ok_def)
  have "cq_get ?q i = Inr (cq_data ?q ! i)" if "i < cq_capacity ?q" for i using that cap by (simp add: cq_get_def cq_slot_def)
  then have "(\<forall>i \<in> set [0 ..< cq_capacity ?q]. \<exists>e. cq_get ?q i = Inr e \<and> \<not> le_valid e) \<longleftrightarrow> (\<forall>e \<in> set (cq_data ?q). \<not> le_valid e)"
    using cap(2) by (auto simp: all_set_conv_all_nth)
  also have "\<dots> \<longleftrightarrow> lds ?s = []"
  proof -
    have "\<forall>e \<in> set (cq_rest ?q). \<not> le_valid e" using P(3) by (simp add: list_all_iff clean_load_def)
    moreover have "\<forall>e \<in> set (lds ?s). le_valid e" using base_load [OF wf_base(1) [OF wf]] by (auto simp: in_set_conv_nth load_ok_def)
    ultimately show ?thesis unfolding cq_data_set [OF P(1)] by (cases "lds ?s") auto
  qed
  finally have 1: "(\<forall>i \<in> set [0 ..< cq_capacity ?q]. \<exists>e. cq_get ?q i = Inr e \<and> \<not> le_valid e) \<longleftrightarrow> lds ?s = []" .
  have 2: "lu_storesToWB ?s = 0 \<longleftrightarrow> (\<forall>e \<in> set (sts ?s). se_canWB e \<longrightarrow> se_completed e)"
    unfolding P(9) by (auto simp: filter_empty_conv awaiting_def)
  show ?thesis
    unfolding lsq_drainSanityCheck_def rbind_eq_Inr check_eq_Inr 1 [symmetric] 2 [symmetric]
    using rfold_checks [of "cq_get ?q" "\<lambda>e. \<not> le_valid e" Assertion "[0 ..< cq_capacity ?q]"] by auto
qed

theorem lsq_drain_check_exact_witness:
  "\<exists>y. lsq_reach y \<and> lds (ys_unit y) \<noteq> [] \<and> lsq_drainSanityCheck (ys_unit y) \<noteq> Inr ()"
proof -
  have "\<exists>y. lsq_run ex_commit (lsq_start ex_unit) = Inr y \<and> lsq_reach y \<and> map sn (lds (ys_unit y)) = [2]" (is "\<exists>y. _ \<and> _ \<and> ?P y")
    by (rule ex_runs [where P = ?P]) code_simp+
  then obtain y where y: "lsq_reach y" "map sn (lds (ys_unit y)) = [2]" by (elim exE conjE) (rule that)
  then have "lds (ys_unit y) \<noteq> []" by auto
  with lsq_drain_check_exact [OF y(1)] y(1) show ?thesis by blast
qed

section \<open>The range test at the end of the address space\<close>

text \<open>C28. For accesses that end below the top of the address space, the comparison of the wrapped ends decides exactly: the store covers
  the load if it has all its bytes (and can supply them), overlaps it if they have a byte in common, and is passed over if not.\<close>

theorem coverage_within_bounds:
  fixes e :: sq_entry
  assumes "fits (rq_vaddr r) (rq_size r)" "fits (li_effAddr (ei e)) (le_size e)" "le_request e = Some q"
  shows "lsq_coverage r (ei e) (rq_isMasked q) (le_size e) =
    (if bytes_at (rq_vaddr r) (rq_size r) \<inter> bytes_at (li_effAddr (ei e)) (le_size e) = {} then NoAddrRangeCoverage
     else if bytes_at (rq_vaddr r) (rq_size r) \<subseteq> bytes_at (li_effAddr (ei e)) (le_size e) \<and> \<not> li_isAtomic (ei e) \<and> \<not> rq_isLLSC r \<and>
       \<not> rq_isMasked q then FullAddrRangeCoverage
     else PartialAddrRangeCoverage)"
proof -
  have "0 < rq_size r" "0 < le_size e" using assms(1,2) by (simp_all add: fits_def)
  from overlaps_bytes [OF this] show ?thesis using coverage_exact [OF assms] assms(3) by (simp add: can_forward_def)
qed

definition ex_entry :: "u64 \<Rightarrow> u32 \<Rightarrow> sq_entry" where
  "ex_entry a n = \<lparr>le_inst = Some ((mem_inst 1 False)\<lparr>li_effAddr := a, li_effSize := n, li_effAddrValid := True\<rparr>),
     le_request = Some (ex_request a n), le_size = n, le_valid = True, se_data = replicate 8 7, se_canWB = False, se_committed = False,
     se_completed = False, se_isAllZeros = False\<rparr>"

theorem coverage_within_bounds_witness:
  "fits 0xFFFFFFFFFFFFFFF8 4 \<and> fits 0xFFFFFFFFFFFFFFF6 6 \<and>
   lsq_coverage (ex_request 0xFFFFFFFFFFFFFFF8 4) (ei (ex_entry 0xFFFFFFFFFFFFFFF6 6)) False 6 = FullAddrRangeCoverage"
proof -
  have f: "fits 0xFFFFFFFFFFFFFFF8 4" "fits 0xFFFFFFFFFFFFFFF6 6" by (simp_all add: fits_int)
  have "lsq_coverage (ex_request 0xFFFFFFFFFFFFFFF8 4) (ei (ex_entry 0xFFFFFFFFFFFFFFF6 6)) (rq_isMasked (ex_request 0xFFFFFFFFFFFFFFF6 6))
      (le_size (ex_entry 0xFFFFFFFFFFFFFFF6 6)) = FullAddrRangeCoverage"
    by (subst coverage_within_bounds [where q = "ex_request 0xFFFFFFFFFFFFFFF6 6"])
      (use f in \<open>simp_all add: ex_request_def ex_entry_def ei_def mem_inst_def bytes_at_def\<close>)
  then show ?thesis using f by (simp add: ex_request_def ex_entry_def)
qed

text \<open>An access whose last byte is the last one of the address space, so that its end wraps to zero.\<close>

definition ends_at_top :: "u64 \<Rightarrow> u32 \<Rightarrow> bool" where
  "ends_at_top a n \<longleftrightarrow> 0 < n \<and> unat n < 2 ^ 31 \<and> unat a + unat n = 2 ^ 64"

lemma ends_at_top_end: "ends_at_top a n \<Longrightarrow> a + ucast n = 0" "ends_at_top a n \<Longrightarrow> (scast n :: u64) = ucast n"
proof -
  assume top: "ends_at_top a n"
  have "unat (ucast n :: u64) = unat n"
    using top by (auto simp: ends_at_top_def unsigned_ucast_eq unsigned_take_bit_eq take_bit_nat_eq_self)
  then have "unat (a + ucast n) = 0" using top by (simp add: unat_word_ariths ends_at_top_def)
  then show "a + ucast n = 0" by (simp add: unat_eq_0)
  show "(scast n :: u64) = ucast n" using top by (simp add: ends_at_top_def fits_scast)
qed

definition load_top :: "lsq_request \<Rightarrow> bool" where
  "load_top r \<longleftrightarrow> ends_at_top (rq_vaddr r) (rq_size r)"

definition store_top :: "sq_entry \<Rightarrow> bool" where
  "store_top e \<longleftrightarrow> ends_at_top (li_effAddr (ei e)) (le_size e)"

text \<open>C40. At the top of the address space the range test is wrong.  For a load and a store, neither atomic nor load-linked, of which at least one
  ends with the last byte of the address space and the other one does so too or ends below it, the answer is full coverage (or partial,
  if the store is masked) exactly when the load ends at the top and does not start below the store, and no coverage in
  all other cases.  So a load that ends at the top and starts below the store is sent to the cache although it contains all
  bytes of the store, a load is never served by a store that ends at the top unless it ends there as well, and a load that ends at
  the top is served by any store that starts at or below it, although a store that ends below the top does not have its last byte.\<close>

theorem coverage_wraps_at_the_top:
  fixes e :: sq_entry
  assumes "\<not> li_isAtomic (ei e)" "\<not> rq_isLLSC r" "load_top r \<or> store_top e"
    "load_top r \<or> fits (rq_vaddr r) (rq_size r)" "store_top e \<or> fits (li_effAddr (ei e)) (le_size e)"
  shows "lsq_coverage r (ei e) masked (le_size e) =
      (if load_top r \<and> li_effAddr (ei e) \<le> rq_vaddr r then if masked then PartialAddrRangeCoverage else FullAddrRangeCoverage
       else NoAddrRangeCoverage) \<and>
    (load_top r \<and> rq_vaddr r < li_effAddr (ei e) \<longrightarrow>
       bytes_at (li_effAddr (ei e)) (le_size e) \<subseteq> bytes_at (rq_vaddr r) (rq_size r)) \<and>
    (load_top r \<and> \<not> store_top e \<longrightarrow> \<not> bytes_at (rq_vaddr r) (rq_size r) \<subseteq> bytes_at (li_effAddr (ei e)) (le_size e))"
proof (intro conjI impI)
  let ?la = "rq_vaddr r" and ?ln = "rq_size r" and ?sa = "li_effAddr (ei e)" and ?sn = "le_size e"
  have se: "(scast ?sn :: u64) = ucast ?sn" using assms(5) ends_at_top_end(2) fits_scast by (auto simp: store_top_def fits_def)
  have l0: "?la + ucast ?ln = 0 \<longleftrightarrow> load_top r"
  proof (cases "load_top r")
    case False
    then have "unat (?la + ucast ?ln) = unat ?la + unat ?ln" "0 < unat ?ln" using assms(4) fits_end by (auto simp: fits_def word_less_nat_alt)
    then show ?thesis using False by (metis add_is_0 less_irrefl unat_0)
  qed (simp add: load_top_def ends_at_top_end(1))
  have s0: "?sa + ucast ?sn = 0" if "store_top e" using that by (simp add: store_top_def ends_at_top_end(1))
  show "lsq_coverage r (ei e) masked ?sn =
      (if load_top r \<and> ?sa \<le> ?la then if masked then PartialAddrRangeCoverage else FullAddrRangeCoverage else NoAddrRangeCoverage)"
  proof (cases "load_top r")
    case True
    then have "?la + ucast ?ln = 0" using l0 by simp
    then show ?thesis using True assms(1,2) unfolding lsq_coverage_def Let_def se by auto
  next
    case False
    then have "?la + ucast ?ln \<noteq> 0" "?sa + ucast ?sn = 0" using l0 s0 assms(3) by auto
    then show ?thesis using False assms(1,2) unfolding lsq_coverage_def Let_def se by auto
  qed
  show "bytes_at ?sa ?sn \<subseteq> bytes_at ?la ?ln" if "load_top r \<and> ?la < ?sa"
    using that assms(5) by (auto simp: bytes_at_def ends_at_top_def load_top_def store_top_def fits_def word_less_nat_alt)
  show "\<not> bytes_at ?la ?ln \<subseteq> bytes_at ?sa ?sn" if "load_top r \<and> \<not> store_top e"
  proof -
    have "unat ?sa + unat ?sn < unat ?la + unat ?ln" "0 < unat ?ln"
      using that assms(5) by (auto simp: ends_at_top_def load_top_def fits_def word_less_nat_alt)
    then show ?thesis by (simp add: bytes_at_def ivl_subset)
  qed
qed

theorem coverage_wraps_at_the_top_witness:
  "lsq_coverage (ex_request 0xFFFFFFFFFFFFFFF8 8) (ei (ex_entry 0xFFFFFFFFFFFFFFFC 4)) False 4 = NoAddrRangeCoverage \<and>
   bytes_at 0xFFFFFFFFFFFFFFFC 4 \<subseteq> bytes_at 0xFFFFFFFFFFFFFFF8 8 \<and>
   lsq_coverage (ex_request 0xFFFFFFFFFFFFFFFC 4) (ei (ex_entry 0xFFFFFFFFFFFFFFF0 4)) False 4 = FullAddrRangeCoverage \<and>
   \<not> bytes_at 0xFFFFFFFFFFFFFFFC 4 \<subseteq> bytes_at 0xFFFFFFFFFFFFFFF0 4"
proof -
  have r: "rq_vaddr (ex_request a n) = a" "rq_size (ex_request a n) = n" "\<not> rq_isLLSC (ex_request a n)"
    "li_effAddr (ei (ex_entry a n)) = a" "le_size (ex_entry a n) = n" "\<not> li_isAtomic (ei (ex_entry a n))" for a n
    by (simp_all add: ex_request_def ex_entry_def ei_def mem_inst_def)
  have t: "load_top (ex_request 0xFFFFFFFFFFFFFFF8 8)" "store_top (ex_entry 0xFFFFFFFFFFFFFFFC 4)" "load_top (ex_request 0xFFFFFFFFFFFFFFFC 4)"
    "fits 0xFFFFFFFFFFFFFFF0 4" "\<not> store_top (ex_entry 0xFFFFFFFFFFFFFFF0 4)"
    by (simp_all add: load_top_def store_top_def ends_at_top_def r fits_int)
  from coverage_wraps_at_the_top [of "ex_entry 0xFFFFFFFFFFFFFFFC 4" "ex_request 0xFFFFFFFFFFFFFFF8 8" False]
    coverage_wraps_at_the_top [of "ex_entry 0xFFFFFFFFFFFFFFF0 4" "ex_request 0xFFFFFFFFFFFFFFFC 4" False]
  show ?thesis using t by (simp add: r)
qed

end
