(* ===== verification/Lsq_Dependence.thy ===== *)
theory Lsq_Dependence
  imports Lsq_Theorems Mem_Dep_Safety
begin

text \<open>
  The load/store queue as the memory-dependence unit sees it: what \<^verbatim>\<open>MemDepUnit::insert\<close> reads of it at a predicted distance.
  The distance that the queue records with a violation leads back to the violating store, and a prediction that a unit gets
  for a load of a reachable queue never reads past its stores.
\<close>

text \<open>
  The head of the store queue goes through an \<^verbatim>\<open>int\<close>; a slot is read through an iterator that the distance was
  subtracted from.
\<close>

definition lsq_getStoreHead :: "lsq_unit \<Rightarrow> int" where
  "lsq_getStoreHead u = sint (word_of_nat (shd u) :: 32 word)"

definition lsq_view_of :: "lsq_unit \<Rightarrow> lsq_view" where
  "lsq_view_of u = \<lparr>lv_storeHead = lsq_getStoreHead u,
     lv_instruction = (\<lambda>x. case cq_get (lu_storeQueue u) (unat x) of Inl err \<Rightarrow> None | Inr e \<Rightarrow> map_option li_seqNum (le_inst e))\<rparr>"

text \<open>Queue indices grow with every store; the lookup goes through 32 bits, so a run of at most \<open>2 ^ 31\<close> stores is considered.\<close>

definition narrow :: "lsq_unit \<Rightarrow> bool" where
  "narrow u \<longleftrightarrow> shd u + length (sts u) < 2 ^ 31"

lemma getStoreHead_narrow: "narrow u \<Longrightarrow> lsq_getStoreHead u = int (shd u)"
  unfolding lsq_getStoreHead_def narrow_def
  by (subst signed_of_nat) (simp add: signed_take_bit_int_eq_self)

lemma view_instruction:
  assumes "lsq_wf u" "k < length (sts u)" "unat x = shd u + k"
  shows "lv_instruction (lsq_view_of u) x = Some (sn (sts u ! k))"
proof -
  have "le_inst (sts u ! k) \<noteq> None" using base_store [OF wf_base(1) [OF assms(1)] assms(2)] by (simp add: store_ok_def)
  then show ?thesis using base_store_get [OF wf_base(1) [OF assms(1)] assms(2)] assms(3) by (auto simp: lsq_view_of_def ei_def)
qed

lemma index_bound:
  assumes "lsq_wf u" "narrow u" "l < length (lds u)"
  shows "li_sqIt (ei (lds u ! l)) \<le> shd u + length (sts u)" "shd u + length (sts u) < 2 ^ 31" "unat (word_of_nat (li_sqIt (ei (lds u ! l))) :: u64) = li_sqIt (ei (lds u ! l))"
proof -
  show b: "shd u + length (sts u) < 2 ^ 31" using assms(2) by (simp only: narrow_def)
  show i: "li_sqIt (ei (lds u ! l)) \<le> shd u + length (sts u)" using wf_base_parts(7) [OF assms(1)] assms(3) by (simp add: cross_linked_def)
  show "unat (word_of_nat (li_sqIt (ei (lds u ! l))) :: u64) = li_sqIt (ei (lds u ! l))"
    using i b by (intro unat_of_nat_small) simp
qed

text \<open>The store \<open>d\<close> places before a load, if the queue reaches that far.\<close>

definition dep_probe :: "u64 \<Rightarrow> dyn_inst" where
  "dep_probe x = \<lparr>di_seqNum = 0, di_threadNumber = 0, di_pc = 0, di_isLoad = True, di_isStore = False, di_isAtomic = False,
     di_isReadBarrier = False, di_isWriteBarrier = False, di_isHtmCmd = False, di_sqIdx = x\<rparr>"

lemma predicted_store_at:
  assumes "lsq_wf u" "narrow u" "l < length (lds u)" "di_sqIdx i = word_of_nat (li_sqIt (ei (lds u ! l)))"
    "0 < pr_storeQueueDistance p" "pr_storeQueueDistance p < 2 ^ 63"
  defines "n \<equiv> li_sqIt (ei (lds u ! l)) - shd u" and "d \<equiv> nat (pr_storeQueueDistance p)"
  shows "(word_of_int (lv_storeHead (lsq_view_of u) + pr_storeQueueDistance p) \<le> di_sqIdx i) \<longleftrightarrow> d \<le> n"
    "d \<le> n \<Longrightarrow> n - d < length (sts u) \<and> predicted_store (lsq_view_of u) i p = Some (sn (sts u ! (n - d)))"
proof -
  let ?q = "li_sqIt (ei (lds u ! l))"
  note B = index_bound [OF assms(1-3)]
  have lo: "shd u \<le> ?q" using wf_base_parts(8) [OF assms(1)] assms(3) unfolding wb_good_def by (meson le_trans)
  have d: "pr_storeQueueDistance p = int d" "0 < d" "d < 2 ^ 63" using assms(5,6) by (simp_all add: d_def)
  have h: "lv_storeHead (lsq_view_of u) = int (shd u)" using getStoreHead_narrow [OF assms(2)] by (simp add: lsq_view_of_def)
  have w: "(word_of_int (int (shd u) + int d) :: u64) = word_of_nat (shd u + d)" by simp
  have "unat (word_of_nat (shd u + d) :: u64) = shd u + d" using B(2) d(3) by (intro unat_of_nat_small) simp
  then show 1: "(word_of_int (lv_storeHead (lsq_view_of u) + pr_storeQueueDistance p) \<le> di_sqIdx i) \<longleftrightarrow> d \<le> n"
    unfolding h d(1) w assms(4) word_le_nat_alt B(3) n_def using lo by auto
  assume le: "d \<le> n"
  have k: "n - d < length (sts u)" using le d(2) B(1) lo unfolding n_def by linarith
  have "(word_of_nat ?q - word_of_int (int d) :: u64) = word_of_nat (?q - d)"
    using le lo unfolding n_def by (simp add: of_nat_diff)
  moreover have "unat (word_of_nat (?q - d) :: u64) = shd u + (n - d)"
    using le lo B(1,2) unfolding n_def by (subst unat_of_nat_small) auto
  ultimately have "lv_instruction (lsq_view_of u) (di_sqIdx i - word_of_int (int d)) = Some (sn (sts u ! (n - d)))"
    unfolding assms(4) using view_instruction [OF assms(1) k] by simp
  then show "n - d < length (sts u) \<and> predicted_store (lsq_view_of u) i p = Some (sn (sts u ! (n - d)))"
    using k 1 le d(2) unfolding predicted_store_def d(1) by simp
qed

text \<open>C4. What the load/store queue records is what the memory-dependence unit looks up: after a violation the load has the number
  of the violating store and a positive distance, and a prediction of that distance for a load at the same place in the store
  queue makes it wait for exactly that store.\<close>

theorem violation_distance_leads_back:
  assumes "lsq_reach y" "lsq_allowed (ExecStore k r data mp) y" "narrow (ys_unit y)"
    "lsq_executeStore (lsq_pushStore r data) (shd (ys_unit y) + k) (ys_unit y) = Inr (M5PanicFault, s')"
  shows "\<exists>l \<in> set (lds s'). lu_memDepViolator s' = Some (sn l) \<and> li_violatingStoreSeqNum (ei l) = sn (sts (ys_unit y) ! k) \<and>
    0 < li_storeQueueDistance (ei l) \<and>
    (\<forall>i p. di_sqIdx i = word_of_nat (li_sqIt (ei l)) \<and> pr_storeQueueDistance p = li_storeQueueDistance (ei l) \<longrightarrow>
       predicted_store (lsq_view_of s') i p = Some (sn (sts (ys_unit y) ! k)))"
proof -
  let ?s = "ys_unit y"
  note wf = reach_wf [OF assms(1)] and a = execStore_allowed [OF assms(2)]
  from allowed_executeStore [OF wf assms(2)] assms(4) obtain e where
    s': "lsq_wf s'" "sts s' = (sts ?s)[k := e]" "ei e = push_inst r (ei (sts ?s ! k))" "shd s' = shd ?s" "lhd s' = lhd ?s"
      "store_outcome (ei e) ?s M5PanicFault s'" by auto
  from s'(6) obtain j where j: "first_violated ?s (ei e) = Some j"
      "lds s' = (lds ?s)[j := on_inst (lsq_record_violation (ei e)) (lds ?s ! j)]" "lu_memDepViolator s' = Some (sn (lds ?s ! j))"
    by (auto simp: store_outcome_def split: option.splits if_splits)
  have jl: "j < length (lds ?s)" "li_lqIt (ei e) - lhd ?s \<le> j" using j(1) by (auto simp: first_violated_def find_Some_iff)
  have i0: "li_lqIt (ei e) = li_lqIt (ei (sts ?s ! k))" "sn e = sn (sts ?s ! k)" "li_sqIt (ei e) = li_sqIt (ei (sts ?s ! k))"
    using s'(3) by (simp_all add: push_inst_def)
  have "li_lqIt (ei (sts ?s ! k)) \<le> lhd ?s + j" using jl(2) i0(1) a(4) by linarith
  then have older: "shd ?s + k < li_sqIt (ei (lds ?s ! j))"
    using cross_linkedD [OF wf_base_parts(7) [OF wf] jl(1) a(1)] by blast
  have k: "li_sqIt (ei (sts ?s ! k)) = shd ?s + k" using base_store [OF wf_base(1) [OF wf] a(1)] by (simp add: store_ok_def)
  define l where "l = lds s' ! j"
  have jl': "j < length (lds s')" using jl(1) j(2) by simp
  have le: "le_inst (lds ?s ! j) \<noteq> None" using base_load [OF wf_base(1) [OF wf] jl(1)] by (simp add: load_ok_def)
  have l: "l \<in> set (lds s')" "ei l = lsq_record_violation (ei e) (ei (lds ?s ! j))"
    using nth_mem [OF jl'] jl(1) le j(2) unfolding l_def by simp_all
  have f: "sn l = sn (lds ?s ! j)" "li_violatingStoreSeqNum (ei l) = sn (sts ?s ! k)" "li_sqIt (ei l) = li_sqIt (ei (lds ?s ! j))"
    "li_storeQueueDistance (ei l) = int (li_sqIt (ei l)) - int (shd ?s + k)"
    using l(2) i0 k by (simp_all add: lsq_record_violation_def)
  have "length (sts s') = length (sts ?s)" unfolding s'(2) by (rule length_list_update)
  then have nar: "narrow s'" using assms(3) s'(4) by (simp only: narrow_def)
  have "predicted_store (lsq_view_of s') i p = Some (sn (sts ?s ! k))"
    if "di_sqIdx i = word_of_nat (li_sqIt (ei l))" "pr_storeQueueDistance p = li_storeQueueDistance (ei l)" for i p
  proof -
    let ?d = "nat (pr_storeQueueDistance p)" and ?n = "li_sqIt (ei (lds s' ! j)) - shd s'"
    have q: "li_sqIt (ei l) < 2 ^ 31" using index_bound(1,2) [OF s'(1) nar jl'] unfolding l_def by linarith
    have d: "0 < pr_storeQueueDistance p" "pr_storeQueueDistance p < 2 ^ 63" using that(2) f(3,4) older q by simp_all
    have "?n - ?d = k" "?d \<le> ?n" using that(2) f(3,4) older s'(4) unfolding l_def by auto
    then show ?thesis
      using predicted_store_at(2) [OF s'(1) nar jl' that(1) [unfolded l_def] d] s'(2) i0(2) a(1) by simp
  qed
  then show ?thesis using l(1) f j(3) older by (intro bexI [where x = l]) auto
qed

theorem violation_distance_leads_back_witness:
  "\<exists>y s'. lsq_reach y \<and> narrow (ys_unit y) \<and>
     lsq_executeStore (lsq_pushStore (ex_request 0x10 4) [1, 2, 3, 4]) (shd (ys_unit y) + 0) (ys_unit y) = Inr (M5PanicFault, s') \<and>
     (\<exists>l \<in> set (lds s'). lu_memDepViolator s' = Some (sn l) \<and> 0 < li_storeQueueDistance (ei l))"
proof -
  let ?r = "ex_request 0x10 4"
  have "\<exists>y. lsq_run ex_misorder (lsq_start ex_unit) = Inr y \<and> lsq_reach y \<and>
      (lsq_allowed (ExecStore 0 ?r [1, 2, 3, 4] False) y \<and> shd (ys_unit y) + length (sts (ys_unit y)) = 2 \<and>
       (case lsq_executeStore (lsq_pushStore ?r [1, 2, 3, 4]) (shd (ys_unit y) + 0) (ys_unit y) of Inl err \<Rightarrow> False
        | Inr (f, s') \<Rightarrow> f = M5PanicFault))" (is "\<exists>y. _ \<and> _ \<and> ?P y")
    by (rule ex_runs [where P = ?P]) code_simp+
  then obtain y where y: "lsq_reach y" "lsq_allowed (ExecStore 0 ?r [1, 2, 3, 4] False) y" "shd (ys_unit y) + length (sts (ys_unit y)) = 2"
    "case lsq_executeStore (lsq_pushStore ?r [1, 2, 3, 4]) (shd (ys_unit y) + 0) (ys_unit y) of Inl err \<Rightarrow> False | Inr (f, s') \<Rightarrow> f = M5PanicFault"
    by (elim exE conjE) (rule that)
  from y(4) obtain s' where s': "lsq_executeStore (lsq_pushStore ?r [1, 2, 3, 4]) (shd (ys_unit y) + 0) (ys_unit y) = Inr (M5PanicFault, s')"
    by (cases "lsq_executeStore (lsq_pushStore ?r [1, 2, 3, 4]) (shd (ys_unit y) + 0) (ys_unit y)") auto
  have n: "narrow (ys_unit y)" unfolding narrow_def y(3) by simp
  from violation_distance_leads_back [OF y(1,2) n s'] y(1) s' n show ?thesis by blast
qed

section \<open>The contract between the two units\<close>

text \<open>
  What the memory-dependence unit relies on: for an instruction that has entered the queue, a distance that passes the test
  against the head leads to a store, and to an older one.
\<close>

locale store_lookup =
  fixes ok :: "'u \<Rightarrow> bool" and view :: "'u \<Rightarrow> lsq_view"
    and entered :: "'u \<Rightarrow> seqnum \<Rightarrow> u64 \<Rightarrow> bool" and is_store :: "'u \<Rightarrow> seqnum \<Rightarrow> bool"
  assumes found: "ok u \<Longrightarrow> entered u n x \<Longrightarrow> 0 < d \<Longrightarrow> d < 2 ^ 63 \<Longrightarrow> word_of_int (lv_storeHead (view u) + d) \<le> x \<Longrightarrow>
    \<exists>m. lv_instruction (view u) (x - word_of_int d) = Some m \<and> m < n \<and> is_store u m"
begin

lemma sound:
  assumes "ok u" "entered u (di_seqNum i) (di_sqIdx i)" "0 \<le> pr_storeQueueDistance r" "pr_storeQueueDistance r < 2 ^ 63" "pr_seqNum r = 0"
    "\<forall>j \<in> in_unit s. is_store u (di_seqNum j) \<longrightarrow> di_isStore j \<or> di_isAtomic j"
  shows "prediction_sound (view u) i r s"
proof (cases "pr_storeQueueDistance r \<noteq> 0 \<and> word_of_int (lv_storeHead (view u) + pr_storeQueueDistance r) \<le> di_sqIdx i")
  case True
  then obtain m where "lv_instruction (view u) (di_sqIdx i - word_of_int (pr_storeQueueDistance r)) = Some m" "m < di_seqNum i" "is_store u m"
    using found [OF assms(1,2), of "pr_storeQueueDistance r"] assms(3,4) by auto
  then show ?thesis using True assms(6) by (auto simp: prediction_sound_def predicted_store_def)
next
  case False
  then have "predicted_store (view u) i r = None" unfolding predicted_store_def using assms(5) by (simp only: if_False) simp
  then show ?thesis using False unfolding prediction_sound_def by (simp only: option.distinct simp_thms ball_triv)
qed

end

definition lsq_entered :: "lsq_unit \<Rightarrow> seqnum \<Rightarrow> u64 \<Rightarrow> bool" where
  "lsq_entered u n x \<longleftrightarrow> (\<exists>l < length (lds u). n = sn (lds u ! l) \<and> x = word_of_nat (li_sqIt (ei (lds u ! l))))"

lemma lookup_older:
  assumes "lsq_wf u" "narrow u" "lsq_entered u n x" "0 < d" "d < 2 ^ 63" "word_of_int (lv_storeHead (lsq_view_of u) + d) \<le> x"
  shows "\<exists>m. lv_instruction (lsq_view_of u) (x - word_of_int d) = Some m \<and> m < n \<and> m \<in> sn ` set (sts u)"
proof -
  from assms(3) obtain l where l: "l < length (lds u)" "n = sn (lds u ! l)" "x = word_of_nat (li_sqIt (ei (lds u ! l)))"
    by (auto simp: lsq_entered_def)
  let ?i = "dep_probe x" and ?r = "no_prediction\<lparr>pr_storeQueueDistance := d\<rparr>" and ?n = "li_sqIt (ei (lds u ! l)) - shd u"
  have d: "0 < pr_storeQueueDistance ?r" "pr_storeQueueDistance ?r < 2 ^ 63" "di_sqIdx ?i = word_of_nat (li_sqIt (ei (lds u ! l)))"
    using assms(4,5) l(3) by (simp_all add: dep_probe_def)
  note at = predicted_store_at [OF assms(1,2) l(1) d(3,1,2)]
  have le: "nat d \<le> ?n" using at(1) assms(6) l(3) d(3) by simp
  with at(2) have k: "?n - nat d < length (sts u)" "predicted_store (lsq_view_of u) ?i ?r = Some (sn (sts u ! (?n - nat d)))" by simp_all
  have "lv_instruction (lsq_view_of u) (x - word_of_int d) = Some (sn (sts u ! (?n - nat d)))"
    using k(2) assms(4,6) by (simp add: predicted_store_def dep_probe_def)
  moreover have "shd u + (?n - nat d) < li_sqIt (ei (lds u ! l))" using le assms(4) by linarith
  then have "sn (sts u ! (?n - nat d)) < n" using cross_linkedD(1) [OF wf_base_parts(7) [OF assms(1)] l(1) k(1)] l(2) by simp
  ultimately show ?thesis using k(1) by auto
qed

interpretation lsqv: store_lookup "\<lambda>u. lsq_wf u \<and> narrow u" lsq_view_of lsq_entered "\<lambda>u m. m \<in> sn ` set (sts u)"
  by unfold_locales (rule lookup_older, auto)

lemma check_paths_seqNum: "check_paths n i pc bh b p = Inr (r, q) \<Longrightarrow> pr_seqNum r = 0"
  by (induction n arbitrary: i p) (auto simp: rbind_eq_Inr no_prediction_def split: if_splits)

lemma ph_checkInst_seqNum: "ph_checkInst pc n bh ld p = Inr (r, q) \<Longrightarrow> pr_seqNum r = 0"
  by (auto simp: ph_checkInst_def Let_def rbind_eq_Inr no_prediction_def dest: check_paths_seqNum split: if_splits)

text \<open>C2. The predictor, the load/store queue and the memory-dependence unit together: a load that has just entered both queues waits for
  exactly the store at the distance that PHAST predicts, counted back from the load in the store queue, if the queue reaches that
  far and the store is still in the unit, and besides for the outstanding barriers.  The lookup never reads a slot without a store.
  The position of the store queue fits 31 bits, and the tables of the predictor have at least two sets.\<close>

theorem predicted_load_waits:
  assumes "ph_wf p" "tid < MaxThreads" "\<forall>sn. path_of (st sn) < 8" "mu_reach phast_ops (mu_new tid p st) s b"
    and "lsq_reach y" "narrow (ys_unit y)" "l < length (lds (ys_unit y))"
    and i: "b < di_seqNum i" "di_threadNumber i = mu_id s" "di_isLoad i" "\<not> di_isStore i" "\<not> di_isAtomic i"
      "di_seqNum i = sn (lds (ys_unit y) ! l)" "di_sqIdx i = word_of_nat (li_sqIt (ei (lds (ys_unit y) ! l)))"
    and "\<forall>j \<in> in_unit s. \<forall>e \<in> set (sts (ys_unit y)). di_seqNum j = sn e \<longrightarrow> di_isStore j \<or> di_isAtomic j"
    and r: "ph_checkInst (di_pc i) (di_seqNum i) bh True (mu_depPred s) = Inr (r, q)" "0 \<le> pr_storeQueueDistance r" "pr_storeQueueDistance r < 2 ^ 63"
  shows "\<exists>s'. mu_insert phast_ops (lsq_view_of (ys_unit y)) i bh s = Inr s' \<and>
    producers s' i = {j \<in> in_unit s. load_barrier j \<or>
      (let d = nat (pr_storeQueueDistance r); n = li_sqIt (ei (lds (ys_unit y) ! l)) - shd (ys_unit y) in
       0 < d \<and> d \<le> n \<and> di_seqNum j = sn (sts (ys_unit y) ! (n - d)))}"
proof -
  let ?u = "ys_unit y" and ?d = "nat (pr_storeQueueDistance r)" and ?v = "lsq_view_of (ys_unit y)"
  let ?n = "li_sqIt (ei (lds ?u ! l)) - shd ?u"
  note wf = reach_wf [OF assms(5)]
  have z: "pr_seqNum r = 0" by (rule ph_checkInst_seqNum [OF r(1)])
  have at: "predicted_store ?v i r = (if 0 < ?d \<and> ?d \<le> ?n then Some (sn (sts ?u ! (?n - ?d))) else None)"
    using predicted_store_at [OF wf assms(6,7) i(7), of r] r(2,3) z
    by (cases "pr_storeQueueDistance r = 0") (force simp: predicted_store_def)+
  have "prediction_sound ?v i r s"
  proof (rule lsqv.sound [OF _ _ r(2,3) z])
    show "lsq_wf ?u \<and> narrow ?u" using wf assms(6) by blast
    show "lsq_entered ?u (di_seqNum i) (di_sqIdx i)" using assms(7) i(6,7) by (auto simp: lsq_entered_def)
    show "\<forall>j \<in> in_unit s. di_seqNum j \<in> sn ` set (sts ?u) \<longrightarrow> di_isStore j \<or> di_isAtomic j" using assms(15) by blast
  qed
  then have al: "allowed phast_ops (InsertMem ?v i bh) s b" using i(1-3) r(1) by (simp add: phast_ops_def)
  have chk: "dp_checkInst phast_ops = ph_checkInst" by (simp add: phast_ops_def)
  from ph.mu_insert_ok [OF phast_reach_ok [OF assms(1-4)] al] r(1) i(3) obtain s' where
    s': "mu_insert phast_ops ?v i bh s = Inr s'" "producers s' i = {j \<in> in_unit s. must_wait ?v i r j}" unfolding chk by auto
  have "must_wait ?v i r j \<longleftrightarrow> load_barrier j \<or> 0 < ?d \<and> ?d \<le> ?n \<and> di_seqNum j = sn (sts ?u ! (?n - ?d))" for j
    unfolding must_wait_def at using i(3-5) by auto
  then show ?thesis using s' by (simp add: Let_def)
qed

text \<open>A store and a load behind it, for the unit; the predictor has learned that the load depends on the store one place before it.\<close>

definition dep_store :: dyn_inst where
  "dep_store = \<lparr>di_seqNum = 1, di_threadNumber = 0, di_pc = 0x10, di_isLoad = False, di_isStore = True, di_isAtomic = False,
     di_isReadBarrier = False, di_isWriteBarrier = False, di_isHtmCmd = False, di_sqIdx = 1\<rparr>"

definition dep_load :: dyn_inst where
  "dep_load = ex_load\<lparr>di_sqIdx := 2\<rparr>"

lemma store_inserted:
  "\<exists>s. mu_reach phast_ops (mu_new 0 p ex_state) s 1 \<and> in_unit s = {dep_store} \<and> mu_depPred s = p \<and> mu_id s = 0"
proof -
  have "allowed phast_ops (InsertMem ex_lsq dep_store []) (mu_new 0 p ex_state) 0"
    by (simp add: dep_store_def mu_new_def phast_ops_def ph_checkInst_def prediction_sound_def predicted_store_def no_prediction_def)
  moreover obtain s where s: "mu_step phast_ops (InsertMem ex_lsq dep_store []) (mu_new 0 p ex_state) = Inr s" "mu_depPred s = p" "mu_id s = 0"
      "mu_memDepHash s = [(1, 0)]" "mu_entries s = [new_entry dep_store]"
    by (simp add: mu_new_def MaxThreads_def mu_place_def mu_insert_def phast_ops_def ph_checkInst_def predicted_dependency_def no_prediction_def
      barrier_dependencies_def in_flight_def mu_depend_def insertBarrierSN_def load_barrier_def store_barrier_def mu_regs_if_ready_def mu_count_inst_def new_entry_def Let_def ex_defs dep_store_def)
  ultimately have "mu_reach phast_ops (mu_new 0 p ex_state) s 1"
    using mu_reach.step [OF mu_reach.start] by (fastforce simp: dep_store_def)
  moreover have "in_unit s = {dep_store}"
    using s(4,5) by (auto simp: in_unit_def at_entry_def new_entry_def dep_store_def split: if_splits)
  ultimately show ?thesis using s(2,3) by blast
qed

theorem predicted_load_waits_witness:
  "\<exists>p s y s'. mu_reach phast_ops (mu_new 0 p ex_state) s 1 \<and> lsq_reach y \<and> narrow (ys_unit y) \<and>
     mu_insert phast_ops (lsq_view_of (ys_unit y)) dep_load [\<lparr>bi_indirect = False, bi_taken = True, bi_target = 0x500, bi_seqNum = 0, bi_pc = 0x4f0\<rparr>] s = Inr s' \<and>
     producers s' dep_load = {dep_store}"
proof -
  let ?bh = "[\<lparr>bi_indirect = False, bi_taken = True, bi_target = 0x500, bi_seqNum = 0, bi_pc = 0x4f0\<rparr>]"
  obtain p0 where p0: "ph_init 128 4 16 4 0 = Inr p0" "ph_wf p0" "ph_blank p0" using default_phast by blast
  have "\<exists>p' i r p''. ph_violation 0x14 1 1 False 0 0 ?bh p0 = Inr p' \<and> ph_wf p' \<and> ph_historySizes p0 ! i \<le> branches_to_store ?bh 1 \<and>
    ph_checkInst 0x14 2 ?bh True p' = Inr (r, p'') \<and> pr_storeQueueDistance r = 1 \<and> pr_predBranchHistLength r = i"
    by (rule ph_learns [OF p0(2,3)]) simp_all
  then obtain p r q where p: "ph_wf p" "ph_checkInst 0x14 2 ?bh True p = Inr (r, q)" "pr_storeQueueDistance r = 1" by blast
  obtain s where s: "mu_reach phast_ops (mu_new 0 p ex_state) s 1" "in_unit s = {dep_store}" "mu_depPred s = p" "mu_id s = 0"
    using store_inserted by blast
  have "\<exists>y. lsq_run (take 2 ex_misorder) (lsq_start ex_unit) = Inr y \<and> lsq_reach y \<and>
      (map sn (lds (ys_unit y)) = [2] \<and> map sn (sts (ys_unit y)) = [1] \<and> shd (ys_unit y) = 1 \<and>
       map (\<lambda>l. li_sqIt (ei l)) (lds (ys_unit y)) = [2])" (is "\<exists>y. _ \<and> _ \<and> ?P y")
    by (rule ex_runs [where P = ?P]) code_simp+
  then obtain y where y: "lsq_reach y" "map sn (lds (ys_unit y)) = [2]" "map sn (sts (ys_unit y)) = [1]" "shd (ys_unit y) = 1"
    "map (\<lambda>l. li_sqIt (ei l)) (lds (ys_unit y)) = [2]" by (elim exE conjE) (rule that)
  obtain l where l: "lds (ys_unit y) = [l]" "sn l = 2" "li_sqIt (ei l) = 2" using y(2,5) by auto
  obtain e where e: "sts (ys_unit y) = [e]" "sn e = 1" using y(3) by auto
  have n: "narrow (ys_unit y)" unfolding narrow_def y(4) e(1) by simp
  have ld: "di_pc dep_load = 0x14" "di_seqNum dep_load = 2" by (simp_all add: dep_load_def ex_load_def)
  have "\<exists>s'. mu_insert phast_ops (lsq_view_of (ys_unit y)) dep_load ?bh s = Inr s' \<and>
    producers s' dep_load = {j \<in> in_unit s. load_barrier j \<or>
      (let d = nat (pr_storeQueueDistance r); n = li_sqIt (ei (lds (ys_unit y) ! 0)) - shd (ys_unit y) in
       0 < d \<and> d \<le> n \<and> di_seqNum j = sn (sts (ys_unit y) ! (n - d)))}"
  proof (rule predicted_load_waits [OF p(1) _ _ s(1) y(1) n])
    show "ph_checkInst (di_pc dep_load) (di_seqNum dep_load) ?bh True (mu_depPred s) = Inr (r, q)" unfolding ld s(3) by (rule p(2))
    show "0 < length (lds (ys_unit y))" unfolding l(1) by simp
    show "\<forall>j \<in> in_unit s. \<forall>e \<in> set (sts (ys_unit y)). di_seqNum j = sn e \<longrightarrow> di_isStore j \<or> di_isAtomic j" by (simp add: s(2) dep_store_def)
  qed (simp_all add: MaxThreads_def ex_state_def path_of_def s(4) l p(3) dep_load_def ex_load_def)
  then obtain s' where s': "mu_insert phast_ops (lsq_view_of (ys_unit y)) dep_load ?bh s = Inr s'"
    "producers s' dep_load = {j \<in> {dep_store}. load_barrier j \<or> di_seqNum j = 1}" using l e y(4) p(3) s(2) by (auto simp: Let_def)
  have "producers s' dep_load = {dep_store}" unfolding s'(2) by (auto simp: dep_store_def)
  with s(1) y(1) n s'(1) show ?thesis by blast
qed

end
