(* ===== verification/Rename_Stage.thy ===== *)
theory Rename_Stage
  imports Dep_Predictor "HOL-Library.Multiset"
begin

text \<open>
  Register renaming of the out-of-order core: the physical register file and its register identifiers
  (\<^verbatim>\<open>cpu/o3/regfile.cc\<close>, \<^verbatim>\<open>cpu/reg_class.hh\<close>), the free lists (\<^verbatim>\<open>cpu/o3/free_list.hh\<close>), the rename maps
  (\<^verbatim>\<open>cpu/o3/rename_map.hh\<close>, \<^verbatim>\<open>cpu/o3/rename_map.cc\<close>), the scoreboard (\<^verbatim>\<open>cpu/o3/scoreboard.hh\<close>) and the parts of
  \<^verbatim>\<open>cpu/o3/rename.cc\<close> that rename, undo and retire mappings. A physical register is identified by its
  class and its indices, of which there is one object each; a rename map holds pointers that are null at first. The
  state is that of one thread together with the free lists and the scoreboard that the threads share.
\<close>

section \<open>Registers\<close>

datatype reg_class = IntRegClass | FloatRegClass | VecRegClass | VecElemClass | VecPredRegClass | MatRegClass | CCRegClass
  | MiscRegClass | InvalidRegClass

definition rename_classes :: "reg_class list" where
  "rename_classes = [IntRegClass, FloatRegClass, VecRegClass, VecElemClass, VecPredRegClass, MatRegClass, CCRegClass]"

record reg_id =
  ri_class :: reg_class
  ri_index :: nat
  ri_numPinnedWrites :: int

record phys_reg =
  pr_class :: reg_class
  pr_index :: nat
  pr_flatIdx :: nat

record pin_state =
  pn_numPinnedWrites :: int
  pn_numPinnedWritesToComplete :: int
  pn_pinned :: bool

definition isRenameable :: "reg_class \<Rightarrow> bool" where
  "isRenameable c \<longleftrightarrow> c \<noteq> MiscRegClass \<and> c \<noteq> InvalidRegClass"

definition invalidPhysRegId :: phys_reg where
  "invalidPhysRegId = \<lparr>pr_class = InvalidRegClass, pr_index = 2 ^ 32 - 1, pr_flatIdx = 2 ^ 32 - 1\<rparr>"

definition setNumPinnedWrites :: "int \<Rightarrow> pin_state \<Rightarrow> pin_state" where
  "setNumPinnedWrites n p = p\<lparr>pn_numPinnedWrites := n, pn_pinned := (n \<noteq> 0)\<rparr>"

subsection \<open>The physical register file\<close>

record phys_reg_file =
  prf_ids :: "reg_class \<Rightarrow> phys_reg list"
  prf_totalNumRegs :: nat

definition class_ids :: "reg_class \<Rightarrow> nat \<Rightarrow> nat \<Rightarrow> phys_reg list" where
  "class_ids c n flat = map (\<lambda>i. \<lparr>pr_class = c, pr_index = i, pr_flatIdx = flat + i\<rparr>) [0 ..< n]"

text \<open>\<open>regs\<close> gives the number of architectural registers of a class.\<close>

definition mk_phys_reg_file ::
  "nat \<Rightarrow> nat \<Rightarrow> nat \<Rightarrow> nat \<Rightarrow> nat \<Rightarrow> nat \<Rightarrow> (reg_class \<Rightarrow> nat) \<Rightarrow> phys_reg_file res" where
  "mk_phys_reg_file nInt nFloat nVec nVecPred nMat nCC regs =
     (if regs VecRegClass = 0 then Inl DivByZero
      else let nVecElem = nVec * (regs VecElemClass div regs VecRegClass);
               f1 = nInt; f2 = f1 + nFloat; f3 = f2 + nVec; f4 = f3 + nVecElem; f5 = f4 + nVecPred; f6 = f5 + nMat in
      Inr \<lparr>prf_ids = (\<lambda>c. case c of
             IntRegClass \<Rightarrow> class_ids IntRegClass nInt 0
           | FloatRegClass \<Rightarrow> class_ids FloatRegClass nFloat f1
           | VecRegClass \<Rightarrow> class_ids VecRegClass nVec f2
           | VecElemClass \<Rightarrow> class_ids VecElemClass nVecElem f3
           | VecPredRegClass \<Rightarrow> class_ids VecPredRegClass nVecPred f4
           | MatRegClass \<Rightarrow> class_ids MatRegClass nMat f5
           | CCRegClass \<Rightarrow> class_ids CCRegClass nCC f6
           | MiscRegClass \<Rightarrow> map (\<lambda>i. \<lparr>pr_class = MiscRegClass, pr_index = i, pr_flatIdx = 0\<rparr>) [0 ..< regs MiscRegClass]
           | InvalidRegClass \<Rightarrow> []),
           prf_totalNumRegs = nInt + nFloat + nVec + nVecElem + nVecPred + nMat + nCC\<rparr>)"

section \<open>State of the stage\<close>

record rename_history =
  hb_instSeqNum :: seqnum
  hb_archReg :: reg_id
  hb_newPhysReg :: phys_reg
  hb_prevPhysReg :: phys_reg

record rename_stage =
  rn_map :: "reg_class \<Rightarrow> phys_reg option list"
  rn_free :: "reg_class \<Rightarrow> phys_reg list"
  rn_misc :: "phys_reg list"
  rn_pins :: "phys_reg \<Rightarrow> pin_state"
  rn_scoreboard :: "bool list"
  rn_numPhysRegs :: nat
  rn_historyBuffer :: "rename_history list"
  rn_freeingInProgress :: "phys_reg list"
  rn_branchHistory :: branch_history
  rn_classLookups :: "reg_class \<Rightarrow> nat"
  rn_lookups :: nat
  rn_renamedOperands :: nat
  rn_undoneMaps :: nat
  rn_committedMaps :: nat

subsection \<open>Free lists\<close>

definition addReg :: "phys_reg \<Rightarrow> rename_stage \<Rightarrow> rename_stage" where
  "addReg r s = s\<lparr>rn_free := (rn_free s)(pr_class r := rn_free s (pr_class r) @ [r])\<rparr>"

definition getReg :: "reg_class \<Rightarrow> rename_stage \<Rightarrow> (phys_reg \<times> rename_stage) res" where
  "getReg c s = (case rn_free s c of [] \<Rightarrow> Inl Assertion | r # rs \<Rightarrow> Inr (r, s\<lparr>rn_free := (rn_free s)(c := rs)\<rparr>))"

definition numFreeRegs :: "reg_class \<Rightarrow> rename_stage \<Rightarrow> nat" where
  "numFreeRegs c s = length (rn_free s c)"

definition hasFreeRegs :: "reg_class \<Rightarrow> rename_stage \<Rightarrow> bool" where
  "hasFreeRegs c s \<longleftrightarrow> rn_free s c \<noteq> []"

definition initFreeList :: "phys_reg_file \<Rightarrow> rename_stage \<Rightarrow> rename_stage res" where
  "initFreeList rf s = rfold (\<lambda>c s.
     rbind (check (\<forall>i < length (prf_ids rf c). pr_index (prf_ids rf c ! i) = i) Assertion) (\<lambda>_.
     Inr (fold addReg (prf_ids rf c) s))) rename_classes s"

subsection \<open>Rename maps\<close>

definition srm_lookup :: "reg_id \<Rightarrow> rename_stage \<Rightarrow> phys_reg option res" where
  "srm_lookup a s =
     rbind (check (ri_index a \<le> length (rn_map s (ri_class a))) Assertion) (\<lambda>_. vget (rn_map s (ri_class a)) (ri_index a))"

definition srm_setEntry :: "reg_id \<Rightarrow> phys_reg \<Rightarrow> rename_stage \<Rightarrow> rename_stage res" where
  "srm_setEntry a r s =
     rbind (check (ri_index a \<le> length (rn_map s (ri_class a))) Assertion) (\<lambda>_.
     rbind (vset (rn_map s (ri_class a)) (ri_index a) (Some r)) (\<lambda>m. Inr (s\<lparr>rn_map := (rn_map s)(ri_class a := m)\<rparr>)))"

definition srm_rename :: "reg_id \<Rightarrow> rename_stage \<Rightarrow> (phys_reg \<times> phys_reg \<times> rename_stage) res" where
  "srm_rename a s =
     rbind (vget (rn_map s (ri_class a)) (ri_index a)) (\<lambda>prev.
     case prev of None \<Rightarrow> Inl NullDeref
     | Some prev_reg \<Rightarrow>
         if ri_class a = InvalidRegClass
         then rbind (check (pr_class prev_reg = InvalidRegClass) Assertion) (\<lambda>_. Inr (prev_reg, prev_reg, s))
         else if 0 < pn_numPinnedWrites (rn_pins s prev_reg)
         then rbind (check (ri_numPinnedWrites a = 0) Assertion) (\<lambda>_.
              Inr (prev_reg, prev_reg, s\<lparr>rn_pins := (rn_pins s)(prev_reg :=
                (rn_pins s prev_reg)\<lparr>pn_numPinnedWrites := pn_numPinnedWrites (rn_pins s prev_reg) - 1\<rparr>)\<rparr>))
         else rbind (getReg (ri_class a) s) (\<lambda>(r, s).
              Inr (r, prev_reg, s\<lparr>rn_map := (rn_map s)(ri_class a := (rn_map s (ri_class a))[ri_index a := Some r]),
                rn_pins := (rn_pins s)(r := (setNumPinnedWrites (ri_numPinnedWrites a) (rn_pins s r))
                  \<lparr>pn_numPinnedWritesToComplete := ri_numPinnedWrites a + 1\<rparr>)\<rparr>)))"

definition urm_lookup :: "reg_id \<Rightarrow> rename_stage \<Rightarrow> phys_reg option res" where
  "urm_lookup a s =
     (if ri_class a = InvalidRegClass then Inr (Some invalidPhysRegId)
      else if ri_class a = MiscRegClass then rbind (vget (rn_misc s) (ri_index a)) (\<lambda>r. Inr (Some r))
      else srm_lookup a s)"

definition urm_rename :: "reg_id \<Rightarrow> rename_stage \<Rightarrow> (phys_reg \<times> phys_reg \<times> rename_stage) res" where
  "urm_rename a s =
     (if \<not> isRenameable (ri_class a)
      then rbind (urm_lookup a s) (\<lambda>p. case p of None \<Rightarrow> Inl NullDeref | Some r \<Rightarrow> Inr (r, r, s))
      else srm_rename a s)"

definition urm_setEntry :: "reg_id \<Rightarrow> phys_reg \<Rightarrow> rename_stage \<Rightarrow> rename_stage res" where
  "urm_setEntry a r s =
     rbind (check (pr_class r = ri_class a) Assertion) (\<lambda>_.
     if \<not> isRenameable (ri_class a)
     then rbind (urm_lookup a s) (\<lambda>p. rbind (check (p = Some r) Assertion) (\<lambda>_. Inr s))
     else srm_setEntry a r s)"

text \<open>\<^verbatim>\<open>UINT_MAX\<close> when no class has architectural registers.\<close>

definition minFreeEntries :: "rename_stage \<Rightarrow> nat" where
  "minFreeEntries s = foldl (\<lambda>m c. if rn_map s c \<noteq> [] then min m (numFreeRegs c s) else m) (2 ^ 32 - 1) rename_classes"

text \<open>\<open>num_dest\<close> is the instruction's number of destination registers of a class.\<close>

definition canRename :: "(reg_class \<Rightarrow> nat) \<Rightarrow> rename_stage \<Rightarrow> bool" where
  "canRename num_dest s \<longleftrightarrow> list_all (\<lambda>c. \<not> numFreeRegs c s < num_dest c) rename_classes"

subsection \<open>Scoreboard\<close>

definition sb_getReg :: "phys_reg \<Rightarrow> rename_stage \<Rightarrow> bool res" where
  "sb_getReg r s = (if \<not> isRenameable (pr_class r) then Inr True
     else rbind (check (pr_flatIdx r < rn_numPhysRegs s) Assertion) (\<lambda>_. vget (rn_scoreboard s) (pr_flatIdx r)))"

definition sb_update :: "bool \<Rightarrow> phys_reg \<Rightarrow> rename_stage \<Rightarrow> rename_stage res" where
  "sb_update v r s = (if \<not> isRenameable (pr_class r) then Inr s
     else rbind (check (pr_flatIdx r < rn_numPhysRegs s) Assertion) (\<lambda>_.
          rbind (vset (rn_scoreboard s) (pr_flatIdx r) v) (\<lambda>b. Inr (s\<lparr>rn_scoreboard := b\<rparr>))))"

definition sb_setReg :: "phys_reg \<Rightarrow> rename_stage \<Rightarrow> rename_stage res" where
  "sb_setReg = sb_update True"

definition sb_unsetReg :: "phys_reg \<Rightarrow> rename_stage \<Rightarrow> rename_stage res" where
  "sb_unsetReg = sb_update False"

subsection \<open>The stage\<close>

text \<open>\<open>dests\<close> are the flattened destination registers of the instruction.\<close>

definition renameDest :: "seqnum \<Rightarrow> reg_id \<Rightarrow> rename_stage \<Rightarrow> rename_stage res" where
  "renameDest sn a s =
     rbind (urm_rename a s) (\<lambda>(r, prev, s).
     rbind (sb_unsetReg r s) (\<lambda>s.
     Inr (s\<lparr>rn_historyBuffer := \<lparr>hb_instSeqNum = sn, hb_archReg = a, hb_newPhysReg = r, hb_prevPhysReg = prev\<rparr> # rn_historyBuffer s,
            rn_renamedOperands := rn_renamedOperands s + 1\<rparr>)))"

definition renameDestRegs :: "seqnum \<Rightarrow> reg_id list \<Rightarrow> rename_stage \<Rightarrow> rename_stage res" where
  "renameDestRegs sn dests = rfold (renameDest sn) dests"

definition count_lookup :: "reg_class \<Rightarrow> (reg_class \<Rightarrow> nat) \<Rightarrow> (reg_class \<Rightarrow> nat)" where
  "count_lookup c n = (case c of
       IntRegClass \<Rightarrow> n(IntRegClass := n IntRegClass + 1)
     | FloatRegClass \<Rightarrow> n(FloatRegClass := n FloatRegClass + 1)
     | VecRegClass \<Rightarrow> n(VecRegClass := n VecRegClass + 1)
     | VecElemClass \<Rightarrow> n(VecRegClass := n VecRegClass + 1)
     | VecPredRegClass \<Rightarrow> n(VecPredRegClass := n VecPredRegClass + 1)
     | MatRegClass \<Rightarrow> n(MatRegClass := n MatRegClass + 1)
     | _ \<Rightarrow> n)"

text \<open>The renamed source registers, each with whether it is ready.\<close>

fun renameSrcRegs :: "reg_id list \<Rightarrow> rename_stage \<Rightarrow> ((phys_reg \<times> bool) list \<times> rename_stage) res" where
  "renameSrcRegs [] s = Inr ([], s)"
| "renameSrcRegs (a # srcs) s =
     rbind (urm_lookup a s) (\<lambda>p. case p of None \<Rightarrow> Inl NullDeref | Some r \<Rightarrow>
     rbind (sb_getReg r s) (\<lambda>ready.
     rbind (renameSrcRegs srcs (s\<lparr>rn_classLookups := count_lookup (ri_class a) (rn_classLookups s), rn_lookups := rn_lookups s + 1\<rparr>))
       (\<lambda>(rs, s). Inr ((r, ready) # rs, s))))"

fun squash_history :: "seqnum \<Rightarrow> rename_history list \<Rightarrow> rename_stage \<Rightarrow> rename_stage res" where
  "squash_history sq [] s = Inr (s\<lparr>rn_historyBuffer := []\<rparr>)"
| "squash_history sq (h # hs) s =
     (if sq < hb_instSeqNum h
      then rbind (if hb_newPhysReg h \<noteq> hb_prevPhysReg h
                  then rbind (urm_setEntry (hb_archReg h) (hb_prevPhysReg h) s) (\<lambda>s.
                       Inr (s\<lparr>rn_freeingInProgress := rn_freeingInProgress s @ [hb_newPhysReg h]\<rparr>))
                  else Inr s) (\<lambda>s.
           squash_history sq hs (s\<lparr>rn_undoneMaps := rn_undoneMaps s + 1\<rparr>))
      else Inr (s\<lparr>rn_historyBuffer := h # hs\<rparr>))"

definition rn_doSquash :: "seqnum \<Rightarrow> rename_stage \<Rightarrow> rename_stage res" where
  "rn_doSquash squashed_seq_num s =
     squash_history squashed_seq_num (rn_historyBuffer s)
       (s\<lparr>rn_branchHistory := dropWhile (\<lambda>b. squashed_seq_num < bi_seqNum b) (rn_branchHistory s)\<rparr>)"

text \<open>From the oldest entry on; the list is given back to front.\<close>

fun retire_history :: "seqnum \<Rightarrow> rename_history list \<Rightarrow> rename_stage \<Rightarrow> rename_stage" where
  "retire_history sn [] s = s\<lparr>rn_historyBuffer := []\<rparr>"
| "retire_history sn (h # hs) s =
     (if hb_instSeqNum h \<le> sn
      then retire_history sn hs ((if hb_newPhysReg h \<noteq> hb_prevPhysReg h then addReg (hb_prevPhysReg h) s else s)
             \<lparr>rn_committedMaps := rn_committedMaps s + 1\<rparr>)
      else s\<lparr>rn_historyBuffer := rev (h # hs)\<rparr>)"

definition removeFromHistory :: "seqnum \<Rightarrow> rename_stage \<Rightarrow> rename_stage" where
  "removeFromHistory inst_seq_num s = retire_history inst_seq_num (rev (rn_historyBuffer s)) s"

definition releaseFreeing :: "rename_stage \<Rightarrow> rename_stage" where
  "releaseFreeing s = (fold addReg (rn_freeingInProgress s) s)\<lparr>rn_freeingInProgress := []\<rparr>"

subsection \<open>Setting up\<close>

text \<open>A thread's maps before registers are assigned.\<close>

definition rename_init :: "phys_reg_file \<Rightarrow> (reg_class \<Rightarrow> nat) \<Rightarrow> rename_stage" where
  "rename_init rf regs = \<lparr>rn_map = (\<lambda>c. if isRenameable c then replicate (regs c) None else []), rn_free = (\<lambda>_. []), rn_misc = prf_ids rf MiscRegClass,
     rn_pins = (\<lambda>_. \<lparr>pn_numPinnedWrites = 0, pn_numPinnedWritesToComplete = 0, pn_pinned = False\<rparr>),
     rn_scoreboard = replicate (prf_totalNumRegs rf) True, rn_numPhysRegs = prf_totalNumRegs rf, rn_historyBuffer = [],
     rn_freeingInProgress = [], rn_branchHistory = [], rn_classLookups = (\<lambda>_. 0), rn_lookups = 0, rn_renamedOperands = 0,
     rn_undoneMaps = 0, rn_committedMaps = 0\<rparr>"

section \<open>The invariant\<close>

text \<open>An entry of the history undone on a map, and the history as a chain of such steps: each entry that changed the map finds
  its register in place when its turn to be undone comes.\<close>

definition undo_entry :: "rename_history \<Rightarrow> (reg_class \<Rightarrow> phys_reg option list) \<Rightarrow> (reg_class \<Rightarrow> phys_reg option list)" where
  "undo_entry h m = (if hb_newPhysReg h = hb_prevPhysReg h then m
     else m(ri_class (hb_archReg h) := (m (ri_class (hb_archReg h)))[ri_index (hb_archReg h) := Some (hb_prevPhysReg h)]))"

fun chain :: "rename_history list \<Rightarrow> (reg_class \<Rightarrow> phys_reg option list) \<Rightarrow> bool" where
  "chain [] m \<longleftrightarrow> True"
| "chain (h # hs) m \<longleftrightarrow> (hb_newPhysReg h \<noteq> hb_prevPhysReg h \<longrightarrow>
     isRenameable (ri_class (hb_archReg h)) \<and> pr_class (hb_prevPhysReg h) = ri_class (hb_archReg h) \<and> pr_class (hb_newPhysReg h) = ri_class (hb_archReg h) \<and>
     ri_index (hb_archReg h) < length (m (ri_class (hb_archReg h))) \<and>
     m (ri_class (hb_archReg h)) ! ri_index (hb_archReg h) = Some (hb_newPhysReg h)) \<and> chain hs (undo_entry h m)"

text \<open>The registers of a class that the stage accounts for: mapped, free, waiting to be freed after a squash, or kept for an undo.\<close>

definition kept_prevs :: "reg_class \<Rightarrow> rename_history list \<Rightarrow> phys_reg list" where
  "kept_prevs c hs = map hb_prevPhysReg (filter (\<lambda>h. hb_newPhysReg h \<noteq> hb_prevPhysReg h \<and> ri_class (hb_archReg h) = c) hs)"

definition held :: "reg_class \<Rightarrow> rename_stage \<Rightarrow> phys_reg multiset" where
  "held c s = mset (map the (rn_map s c)) + mset (rn_free s c) + mset (filter (\<lambda>r. pr_class r = c) (rn_freeingInProgress s)) +
     mset (kept_prevs c (rn_historyBuffer s))"

definition rn_wf :: "rename_stage \<Rightarrow> bool" where
  "rn_wf s \<longleftrightarrow> (\<forall>c. isRenameable c \<longrightarrow> None \<notin> set (rn_map s c) \<and>
       (\<forall>r \<in># held c s. pr_class r = c \<and> pr_flatIdx r < rn_numPhysRegs s \<and> count (held c s) r = 1)) \<and>
     chain (rn_historyBuffer s) (rn_map s) \<and> length (rn_scoreboard s) = rn_numPhysRegs s \<and>
     (\<forall>r\<in>set (rn_freeingInProgress s). isRenameable (pr_class r))"

lemma urm_rename_cases:
  assumes "urm_rename a s = Inr (r, p, s1)"
  shows "(r = p \<and> (\<exists>pn. s1 = s\<lparr>rn_pins := pn\<rparr>)) \<or>
    (isRenameable (ri_class a) \<and> ri_index a < length (rn_map s (ri_class a)) \<and> rn_map s (ri_class a) ! ri_index a = Some p \<and>
     (\<exists>rs pn. rn_free s (ri_class a) = r # rs \<and> s1 = s\<lparr>rn_free := (rn_free s)(ri_class a := rs),
       rn_map := (rn_map s)(ri_class a := (rn_map s (ri_class a))[ri_index a := Some r]), rn_pins := pn\<rparr>))"
proof (cases "isRenameable (ri_class a)")
  case False
  then have "r = p \<and> s1 = s" using assms by (auto simp: urm_rename_def rbind_eq_Inr split: option.splits)
  moreover have "s = s\<lparr>rn_pins := rn_pins s\<rparr>" by simp
  ultimately show ?thesis by blast
next
  case True
  then have sr: "srm_rename a s = Inr (r, p, s1)" and ni: "ri_class a \<noteq> InvalidRegClass" using assms by (auto simp: urm_rename_def isRenameable_def)
  from sr obtain q where q: "ri_index a < length (rn_map s (ri_class a))" "rn_map s (ri_class a) ! ri_index a = Some q"
    by (auto simp: srm_rename_def rbind_eq_Inr vget_eq_Inr split: option.splits)
  show ?thesis
  proof (cases "0 < pn_numPinnedWrites (rn_pins s q)")
    case True
    then have "r = p \<and> (\<exists>pn. s1 = s\<lparr>rn_pins := pn\<rparr>)" using sr q ni by (auto simp: srm_rename_def rbind_eq_Inr)
    then show ?thesis by blast
  next
    case False
    from sr q ni False obtain rs where "rn_free s (ri_class a) = r # rs" "p = q"
      by (auto simp: srm_rename_def rbind_eq_Inr getReg_def split: list.splits)
    then show ?thesis using True sr q ni False by (simp add: srm_rename_def getReg_def) blast
  qed
qed

lemma sb_update_cases:
  assumes "sb_update v r s = Inr s'"
  shows "\<exists>b. s' = s\<lparr>rn_scoreboard := b\<rparr> \<and> length b = length (rn_scoreboard s)"
proof (cases "isRenameable (pr_class r)")
  case False
  then have "s' = s" using assms by (simp add: sb_update_def)
  then show ?thesis by (intro exI [of _ "rn_scoreboard s"]) simp
qed (use assms in \<open>auto simp: sb_update_def rbind_eq_Inr vset_eq_Inr\<close>)

lemma held_other [simp]:
  "held c (s\<lparr>rn_pins := x1\<rparr>) = held c s" "held c (s\<lparr>rn_scoreboard := x2\<rparr>) = held c s" "held c (s\<lparr>rn_renamedOperands := x3\<rparr>) = held c s"
  "held c (s\<lparr>rn_branchHistory := x4\<rparr>) = held c s" "held c (s\<lparr>rn_undoneMaps := x5\<rparr>) = held c s" "held c (s\<lparr>rn_committedMaps := x6\<rparr>) = held c s"
  "held c (s\<lparr>rn_classLookups := x7\<rparr>) = held c s" "held c (s\<lparr>rn_lookups := x8\<rparr>) = held c s"
  by (simp_all add: held_def)

lemma wf_held:
  "rn_wf s \<Longrightarrow> isRenameable c \<Longrightarrow> r \<in># held c s \<Longrightarrow> pr_class r = c \<and> pr_flatIdx r < rn_numPhysRegs s \<and> count (held c s) r = 1"
  unfolding rn_wf_def by blast

lemma the_in_map: "i < length xs \<Longrightarrow> xs ! i = Some p \<Longrightarrow> p \<in> the ` set xs"
  using nth_mem [of i xs] by (force intro: rev_image_eqI)

lemma mset_the_update:
  "i < length xs \<Longrightarrow> xs ! i = Some p \<Longrightarrow> mset (map the (xs[i := Some r])) + {#p#} = mset (map the xs) + {#r#}"
proof -
  assume i: "i < length xs" and p: "xs ! i = Some p"
  then have "p \<in># mset (map the xs)" using the_in_map by simp
  moreover have "mset ((map the xs)[i := r]) = add_mset r (mset (map the xs) - {#map the xs ! i#})" using i by (intro mset_update) simp
  ultimately show ?thesis using i p by (simp add: map_update)
qed

text \<open>What renaming one destination does: it keeps the account and the invariant, and the new entry of the history undoes it.\<close>

lemma renameDest_step:
  assumes wf: "rn_wf s" and run: "renameDest sn a s = Inr s'"
  shows "\<exists>h. rn_historyBuffer s' = h # rn_historyBuffer s \<and> hb_instSeqNum h = sn \<and> undo_entry h (rn_map s') = rn_map s \<and>
    chain [h] (rn_map s') \<and> rn_freeingInProgress s' = rn_freeingInProgress s \<and> (\<forall>c. held c s' = held c s) \<and>
    rn_numPhysRegs s' = rn_numPhysRegs s \<and> length (rn_scoreboard s') = length (rn_scoreboard s) \<and>
    (\<forall>c. None \<notin> set (rn_map s c) \<longrightarrow> None \<notin> set (rn_map s' c))"
proof -
  obtain r p s1 where r: "urm_rename a s = Inr (r, p, s1)" using run by (auto simp: renameDest_def rbind_eq_Inr)
  let ?h = "\<lparr>hb_instSeqNum = sn, hb_archReg = a, hb_newPhysReg = r, hb_prevPhysReg = p\<rparr>" and ?c = "ri_class a"
  obtain b where b: "s' = s1\<lparr>rn_scoreboard := b, rn_historyBuffer := ?h # rn_historyBuffer s1, rn_renamedOperands := rn_renamedOperands s1 + 1\<rparr>"
      "length b = length (rn_scoreboard s1)"
    using run r sb_update_cases by (fastforce simp: renameDest_def rbind_eq_Inr sb_unsetReg_def)
  from urm_rename_cases [OF r] show ?thesis
  proof (elim disjE conjE exE)
    fix pn assume "r = p" "s1 = s\<lparr>rn_pins := pn\<rparr>"
    then show ?thesis using b by (intro exI [of _ ?h]) (simp add: undo_entry_def held_def kept_prevs_def)
  next
    fix rs pn
    assume i: "isRenameable ?c" "ri_index a < length (rn_map s ?c)" "rn_map s ?c ! ri_index a = Some p" and f: "rn_free s ?c = r # rs"
      and s1: "s1 = s\<lparr>rn_free := (rn_free s)(?c := rs), rn_map := (rn_map s)(?c := (rn_map s ?c)[ri_index a := Some r]), rn_pins := pn\<rparr>"
    have pin: "p \<in># mset (map the (rn_map s ?c))" using the_in_map [OF i(2,3)] by simp
    then have "p \<in># held ?c s" by (simp add: held_def)
    from wf_held [OF wf i(1) this] have pc: "pr_class p = ?c" and c1: "count (held ?c s) p = 1" by simp_all
    have "r \<in># held ?c s" using f by (simp add: held_def)
    from wf_held [OF wf i(1) this] have rc: "pr_class r = ?c" by simp
    have ne: "r \<noteq> p"
    proof
      assume "r = p"
      then show False using c1 f pin by (simp add: held_def count_eq_zero_iff)
    qed
    have "held c s' = held c s" for c
      using mset_the_update [OF i(2,3), of r] f ne b s1 by (cases "c = ?c") (simp_all add: held_def kept_prevs_def)
    moreover have "undo_entry ?h (rn_map s') = rn_map s"
      using b s1 ne i(3) by (auto simp: undo_entry_def) (metis fun_upd_triv list_update_id)
    moreover have "chain [?h] (rn_map s')" using b s1 i pc rc by simp
    moreover have "None \<notin> set (rn_map s' c)" if "None \<notin> set (rn_map s c)" for c
      using that set_update_subset_insert [of "rn_map s c" "ri_index a" "Some r"] b s1 by (cases "c = ?c") auto
    moreover have "rn_historyBuffer s' = ?h # rn_historyBuffer s" "rn_freeingInProgress s' = rn_freeingInProgress s"
        "rn_numPhysRegs s' = rn_numPhysRegs s" "length (rn_scoreboard s') = length (rn_scoreboard s)" "hb_instSeqNum ?h = sn"
      using b s1 by simp_all
    ultimately show ?thesis by blast
  qed
qed

lemma renameDest_wf:
  assumes wf: "rn_wf s" and run: "renameDest sn a s = Inr s'"
  shows "rn_wf s'"
proof -
  obtain h where h: "rn_historyBuffer s' = h # rn_historyBuffer s" "undo_entry h (rn_map s') = rn_map s" "chain [h] (rn_map s')"
      "rn_freeingInProgress s' = rn_freeingInProgress s" "\<And>c. held c s' = held c s" "rn_numPhysRegs s' = rn_numPhysRegs s"
      "length (rn_scoreboard s') = length (rn_scoreboard s)" "\<And>c. None \<notin> set (rn_map s c) \<Longrightarrow> None \<notin> set (rn_map s' c)"
    using renameDest_step [OF wf run] by blast
  have "chain (rn_historyBuffer s) (rn_map s)" using wf unfolding rn_wf_def by blast
  then have "chain (rn_historyBuffer s') (rn_map s')" using h(3) unfolding h(1) chain.simps h(2) by blast
  then show ?thesis using wf h(8) unfolding rn_wf_def h(4-7) by blast
qed

lemma chain_append: "chain (hs1 @ hs2) m \<longleftrightarrow> chain hs1 m \<and> chain hs2 (fold undo_entry hs1 m)"
  by (induction hs1 arbitrary: m) auto

lemma chain_class:
  "chain hs m \<Longrightarrow> h \<in> set hs \<Longrightarrow> hb_newPhysReg h \<noteq> hb_prevPhysReg h \<Longrightarrow>
   pr_class (hb_prevPhysReg h) = ri_class (hb_archReg h) \<and> isRenameable (ri_class (hb_archReg h))"
  by (induction hs arbitrary: m) auto

text \<open>Renaming the destinations of instructions, one after the other.\<close>

definition rename_insts :: "(seqnum \<times> reg_id list) list \<Rightarrow> rename_stage \<Rightarrow> rename_stage res" where
  "rename_insts = rfold (\<lambda>(sn, ds). renameDestRegs sn ds)"

definition undoable :: "seqnum set \<Rightarrow> rename_stage \<Rightarrow> rename_stage \<Rightarrow> bool" where
  "undoable N s0 s \<longleftrightarrow> rn_wf s \<and> (\<exists>new. rn_historyBuffer s = new @ rn_historyBuffer s0 \<and> hb_instSeqNum ` set new \<subseteq> N \<and>
     fold undo_entry new (rn_map s) = rn_map s0) \<and> rn_freeingInProgress s = rn_freeingInProgress s0 \<and> (\<forall>c. held c s = held c s0)"

lemma undoable_refl: "rn_wf s \<Longrightarrow> undoable N s s"
  by (simp add: undoable_def)

lemma undoable_step:
  assumes u: "undoable N s0 s" and run: "renameDest sn a s = Inr s'" and sn: "sn \<in> N"
  shows "undoable N s0 s'"
proof -
  have wf: "rn_wf s" using u by (simp add: undoable_def)
  obtain new where new: "rn_historyBuffer s = new @ rn_historyBuffer s0" "hb_instSeqNum ` set new \<subseteq> N" "fold undo_entry new (rn_map s) = rn_map s0"
    using u by (auto simp: undoable_def)
  obtain h where h: "rn_historyBuffer s' = h # rn_historyBuffer s" "hb_instSeqNum h = sn" "undo_entry h (rn_map s') = rn_map s"
      "rn_freeingInProgress s' = rn_freeingInProgress s" "\<And>c. held c s' = held c s"
    using renameDest_step [OF wf run] by blast
  have "rn_historyBuffer s' = (h # new) @ rn_historyBuffer s0" "hb_instSeqNum ` set (h # new) \<subseteq> N" "fold undo_entry (h # new) (rn_map s') = rn_map s0"
    using h(1-3) new sn by simp_all
  then show ?thesis using renameDest_wf [OF wf run] h(4,5) u unfolding undoable_def by metis
qed

lemma renameDestRegs_undoable:
  "renameDestRegs sn ds s = Inr s' \<Longrightarrow> undoable N s0 s \<Longrightarrow> sn \<in> N \<Longrightarrow> undoable N s0 s'"
  unfolding renameDestRegs_def by (erule rfold_invariant) (blast intro: undoable_step)+

lemma rename_insts_undoable:
  "rename_insts is s = Inr s' \<Longrightarrow> undoable N s0 s \<Longrightarrow> fst ` set is \<subseteq> N \<Longrightarrow> undoable N s0 s'"
  unfolding rename_insts_def
proof (erule rfold_invariant)
  fix x s t
  assume a: "fst ` set is \<subseteq> N" "x \<in> set is" "undoable N s0 s" "(case x of (sn, ds) \<Rightarrow> renameDestRegs sn ds) s = Inr t"
  then have "renameDestRegs (fst x) (snd x) s = Inr t" "fst x \<in> N" by (auto simp: case_prod_unfold)
  then show "undoable N s0 t" using a(3) by (blast intro: renameDestRegs_undoable)
qed

text \<open>Undoing the younger part of the history.\<close>

definition real_news :: "rename_history list \<Rightarrow> phys_reg list" where
  "real_news hs = map hb_newPhysReg (filter (\<lambda>h. hb_newPhysReg h \<noteq> hb_prevPhysReg h) hs)"

lemma squash_history_value:
  assumes "chain hs (rn_map s)"
  shows "\<exists>s'. squash_history sq hs s = Inr s' \<and> rn_map s' = fold undo_entry (takeWhile (\<lambda>h. sq < hb_instSeqNum h) hs) (rn_map s) \<and>
    rn_historyBuffer s' = dropWhile (\<lambda>h. sq < hb_instSeqNum h) hs \<and> rn_free s' = rn_free s \<and>
    rn_freeingInProgress s' = rn_freeingInProgress s @ real_news (takeWhile (\<lambda>h. sq < hb_instSeqNum h) hs) \<and>
    (\<forall>c. held c s' = held c (s\<lparr>rn_historyBuffer := hs\<rparr>)) \<and> rn_numPhysRegs s' = rn_numPhysRegs s \<and> rn_scoreboard s' = rn_scoreboard s \<and>
    (\<forall>c. None \<notin> set (rn_map s c) \<longrightarrow> None \<notin> set (rn_map s' c)) \<and> rn_branchHistory s' = rn_branchHistory s"
  using assms
proof (induction hs arbitrary: s)
  case Nil
  then show ?case by (simp add: real_news_def held_def)
next
  case (Cons h hs)
  show ?case
  proof (cases "sq < hb_instSeqNum h")
    case False
    then show ?thesis by (simp add: real_news_def held_def)
  next
    case yes: True
    let ?a = "hb_archReg h" and ?n = "hb_newPhysReg h" and ?p = "hb_prevPhysReg h"
    let ?c = "ri_class ?a"
    show ?thesis
    proof (cases "?n = ?p")
      case True
      then have "chain hs (rn_map (s\<lparr>rn_undoneMaps := rn_undoneMaps s + 1\<rparr>))" using Cons.prems by (simp add: undo_entry_def)
      from Cons.IH [OF this] show ?thesis using yes True
        by (simp add: undo_entry_def real_news_def held_def kept_prevs_def)
    next
      case False
      let ?s1 = "s\<lparr>rn_map := undo_entry h (rn_map s), rn_freeingInProgress := rn_freeingInProgress s @ [?n], rn_undoneMaps := rn_undoneMaps s + 1\<rparr>"
      have h: "isRenameable ?c" "pr_class ?p = ?c" "pr_class ?n = ?c" "ri_index ?a < length (rn_map s ?c)" "rn_map s ?c ! ri_index ?a = Some ?n"
        using Cons.prems False by simp_all
      have u: "undo_entry h (rn_map s) = (rn_map s)(?c := (rn_map s ?c)[ri_index ?a := Some ?p])" using False by (simp add: undo_entry_def)
      have set: "urm_setEntry ?a ?p s = Inr (s\<lparr>rn_map := undo_entry h (rn_map s)\<rparr>)"
        using h u by (simp add: urm_setEntry_def srm_setEntry_def)
      have "held c (?s1\<lparr>rn_historyBuffer := hs\<rparr>) = held c (s\<lparr>rn_historyBuffer := h # hs\<rparr>)" for c
        using mset_the_update [OF h(4,5), of ?p] h(3) False u by (cases "c = ?c") (auto simp: held_def kept_prevs_def)
      moreover have "None \<notin> set (rn_map ?s1 c)" if "None \<notin> set (rn_map s c)" for c
        using that u set_update_subset_insert [of "rn_map s ?c" "ri_index ?a" "Some ?p"] by (cases "c = ?c") auto
      moreover have "chain hs (rn_map ?s1)" using Cons.prems by simp
      ultimately obtain s' where s': "squash_history sq hs ?s1 = Inr s'"
          "rn_map s' = fold undo_entry (takeWhile (\<lambda>h. sq < hb_instSeqNum h) hs) (rn_map ?s1)"
          "rn_historyBuffer s' = dropWhile (\<lambda>h. sq < hb_instSeqNum h) hs" "rn_free s' = rn_free ?s1"
          "rn_freeingInProgress s' = rn_freeingInProgress ?s1 @ real_news (takeWhile (\<lambda>h. sq < hb_instSeqNum h) hs)"
          "\<And>c. held c s' = held c (s\<lparr>rn_historyBuffer := h # hs\<rparr>)" "rn_numPhysRegs s' = rn_numPhysRegs ?s1"
          "rn_scoreboard s' = rn_scoreboard ?s1" "\<And>c. None \<notin> set (rn_map s c) \<Longrightarrow> None \<notin> set (rn_map s' c)" "rn_branchHistory s' = rn_branchHistory ?s1"
        using Cons.IH [of ?s1] by metis
      have "squash_history sq (h # hs) s = Inr s'" using yes False set s'(1) by simp
      then show ?thesis using s'(2-10) yes False by (intro exI [of _ s']) (simp add: real_news_def)
    qed
  qed
qed

lemma rn_wf_chain: "rn_wf s \<Longrightarrow> chain (rn_historyBuffer s) (rn_map s)"
  unfolding rn_wf_def by blast

lemma chain_news:
  "chain hs m \<Longrightarrow> r \<in> set (real_news (takeWhile P hs)) \<Longrightarrow> isRenameable (pr_class r)"
  by (induction hs arbitrary: m) (auto simp: real_news_def split: if_splits)

lemma chain_dropWhile: "chain hs m \<Longrightarrow> chain (dropWhile P hs) (fold undo_entry (takeWhile P hs) m)"
  using chain_append [of "takeWhile P hs" "dropWhile P hs" m] by simp

lemma rn_doSquash_value:
  assumes wf: "rn_wf s"
  shows "\<exists>s'. rn_doSquash sq s = Inr s' \<and> rn_wf s' \<and> (\<forall>c. held c s' = held c s) \<and>
    rn_map s' = fold undo_entry (takeWhile (\<lambda>h. sq < hb_instSeqNum h) (rn_historyBuffer s)) (rn_map s) \<and>
    rn_historyBuffer s' = dropWhile (\<lambda>h. sq < hb_instSeqNum h) (rn_historyBuffer s) \<and>
    rn_freeingInProgress s' = rn_freeingInProgress s @ real_news (takeWhile (\<lambda>h. sq < hb_instSeqNum h) (rn_historyBuffer s)) \<and>
    rn_free s' = rn_free s \<and> rn_branchHistory s' = dropWhile (\<lambda>b. sq < bi_seqNum b) (rn_branchHistory s)"
proof -
  let ?s0 = "s\<lparr>rn_branchHistory := dropWhile (\<lambda>b. sq < bi_seqNum b) (rn_branchHistory s)\<rparr>"
  note ch = rn_wf_chain [OF wf]
  have "chain (rn_historyBuffer s) (rn_map ?s0)" using ch by simp
  from squash_history_value [OF this, of sq] obtain s' where
    s': "squash_history sq (rn_historyBuffer s) ?s0 = Inr s'"
      "rn_map s' = fold undo_entry (takeWhile (\<lambda>h. sq < hb_instSeqNum h) (rn_historyBuffer s)) (rn_map s)"
      "rn_historyBuffer s' = dropWhile (\<lambda>h. sq < hb_instSeqNum h) (rn_historyBuffer s)" "rn_free s' = rn_free s"
      "rn_freeingInProgress s' = rn_freeingInProgress s @ real_news (takeWhile (\<lambda>h. sq < hb_instSeqNum h) (rn_historyBuffer s))"
      "\<And>c. held c s' = held c s" "rn_numPhysRegs s' = rn_numPhysRegs s" "rn_scoreboard s' = rn_scoreboard s"
      "\<And>c. None \<notin> set (rn_map s c) \<Longrightarrow> None \<notin> set (rn_map s' c)" "rn_branchHistory s' = rn_branchHistory ?s0"
    by (auto simp: held_def)
  have "chain (rn_historyBuffer s') (rn_map s')" unfolding s'(2,3) by (rule chain_dropWhile [OF ch])
  moreover have "\<forall>r\<in>set (rn_freeingInProgress s'). isRenameable (pr_class r)"
    using wf chain_news [OF ch] unfolding s'(5) rn_wf_def by auto
  ultimately have "rn_wf s'" using wf s'(9) unfolding rn_wf_def s'(6-8) by blast
  then show ?thesis using s' by (intro exI [of _ s']) (simp add: rn_doSquash_def)
qed

text \<open>Freeing registers.\<close>

lemma fold_addReg:
  "fold addReg rs s = s\<lparr>rn_free := (\<lambda>c. rn_free s c @ filter (\<lambda>r. pr_class r = c) rs)\<rparr>"
proof (induction rs arbitrary: s)
  case (Cons r rs)
  have "(\<lambda>c. rn_free (addReg r s) c @ filter (\<lambda>r. pr_class r = c) rs) = (\<lambda>c. rn_free s c @ filter (\<lambda>r. pr_class r = c) (r # rs))"
    by (auto simp: addReg_def)
  then show ?case using Cons.IH [of "addReg r s"] by (simp add: addReg_def)
qed simp

lemma releaseFreeing_keeps:
  shows "held c (releaseFreeing s) = held c s" "rn_wf s \<Longrightarrow> rn_wf (releaseFreeing s)"
proof -
  show h: "held c (releaseFreeing s) = held c s" for c by (simp add: releaseFreeing_def fold_addReg held_def)
  have "rn_map (releaseFreeing s) = rn_map s" "rn_historyBuffer (releaseFreeing s) = rn_historyBuffer s"
      "rn_numPhysRegs (releaseFreeing s) = rn_numPhysRegs s" "rn_scoreboard (releaseFreeing s) = rn_scoreboard s"
      "rn_freeingInProgress (releaseFreeing s) = []"
    by (simp_all add: releaseFreeing_def fold_addReg)
  then show "rn_wf s \<Longrightarrow> rn_wf (releaseFreeing s)" unfolding rn_wf_def h by simp
qed

definition held_now :: "reg_class \<Rightarrow> rename_stage \<Rightarrow> phys_reg multiset" where
  "held_now c s = mset (map the (rn_map s c)) + mset (rn_free s c) + mset (filter (\<lambda>r. pr_class r = c) (rn_freeingInProgress s))"

lemma held_history: "held c (s\<lparr>rn_historyBuffer := hs\<rparr>) = held_now c s + mset (kept_prevs c hs)"
  by (simp add: held_def held_now_def)

lemma held_now_addReg: "held_now c (addReg r s) = held_now c s + (if pr_class r = c then {#r#} else {#})"
  by (simp add: held_now_def addReg_def)

lemma held_now_committed [simp]: "held_now c (s\<lparr>rn_committedMaps := n\<rparr>) = held_now c s"
  by (simp add: held_now_def)

lemma retire_history_value:
  assumes "\<And>h. h \<in> set rhs \<Longrightarrow> hb_newPhysReg h \<noteq> hb_prevPhysReg h \<Longrightarrow> pr_class (hb_prevPhysReg h) = ri_class (hb_archReg h)"
  shows "(\<forall>c. held c (retire_history sn rhs s) = held c (s\<lparr>rn_historyBuffer := rev rhs\<rparr>)) \<and>
    rn_map (retire_history sn rhs s) = rn_map s \<and> rn_numPhysRegs (retire_history sn rhs s) = rn_numPhysRegs s \<and>
    rn_scoreboard (retire_history sn rhs s) = rn_scoreboard s \<and> rn_freeingInProgress (retire_history sn rhs s) = rn_freeingInProgress s \<and>
    rn_historyBuffer (retire_history sn rhs s) = rev (dropWhile (\<lambda>h. hb_instSeqNum h \<le> sn) rhs)"
  using assms
proof (induction rhs arbitrary: s)
  case (Cons h rhs)
  let ?s1 = "(if hb_newPhysReg h \<noteq> hb_prevPhysReg h then addReg (hb_prevPhysReg h) s else s)\<lparr>rn_committedMaps := rn_committedMaps s + 1\<rparr>"
  have f: "rn_map ?s1 = rn_map s" "rn_numPhysRegs ?s1 = rn_numPhysRegs s" "rn_scoreboard ?s1 = rn_scoreboard s"
      "rn_freeingInProgress ?s1 = rn_freeingInProgress s"
    by (simp_all add: addReg_def)
  have held: "held c (?s1\<lparr>rn_historyBuffer := rev rhs\<rparr>) = held c (s\<lparr>rn_historyBuffer := rev (h # rhs)\<rparr>)" for c
  proof (cases "hb_newPhysReg h = hb_prevPhysReg h")
    case True
    then show ?thesis by (simp add: held_history kept_prevs_def)
  next
    case False
    then have "pr_class (hb_prevPhysReg h) = ri_class (hb_archReg h)" using Cons.prems by simp
    then show ?thesis using False by (simp add: held_history held_now_addReg kept_prevs_def)
  qed
  show ?case
  proof (cases "hb_instSeqNum h \<le> sn")
    case True
    have ih: "(\<forall>c. held c (retire_history sn rhs ?s1) = held c (?s1\<lparr>rn_historyBuffer := rev rhs\<rparr>)) \<and>
        rn_map (retire_history sn rhs ?s1) = rn_map ?s1 \<and> rn_numPhysRegs (retire_history sn rhs ?s1) = rn_numPhysRegs ?s1 \<and>
        rn_scoreboard (retire_history sn rhs ?s1) = rn_scoreboard ?s1 \<and>
        rn_freeingInProgress (retire_history sn rhs ?s1) = rn_freeingInProgress ?s1 \<and>
        rn_historyBuffer (retire_history sn rhs ?s1) = rev (dropWhile (\<lambda>h. hb_instSeqNum h \<le> sn) rhs)"
      by (rule Cons.IH) (use Cons.prems in simp)
    have r: "retire_history sn (h # rhs) s = retire_history sn rhs ?s1" "dropWhile (\<lambda>h. hb_instSeqNum h \<le> sn) (h # rhs) = dropWhile (\<lambda>h. hb_instSeqNum h \<le> sn) rhs"
      using True by simp_all
    show ?thesis using ih unfolding r held f .
  next
    case False
    then show ?thesis by (simp add: held_def)
  qed
qed (simp add: held_def)

lemma removeFromHistory_keeps:
  assumes wf: "rn_wf s"
  shows "held c (removeFromHistory sn s) = held c s" "rn_wf (removeFromHistory sn s)" "rn_map (removeFromHistory sn s) = rn_map s"
proof -
  note ch = rn_wf_chain [OF wf]
  have cl: "pr_class (hb_prevPhysReg h) = ri_class (hb_archReg h)"
    if "h \<in> set (rev (rn_historyBuffer s))" "hb_newPhysReg h \<noteq> hb_prevPhysReg h" for h
    using chain_class [OF ch, of h] that by simp
  have v: "\<And>c. held c (removeFromHistory sn s) = held c (s\<lparr>rn_historyBuffer := rev (rev (rn_historyBuffer s))\<rparr>)"
      "rn_map (removeFromHistory sn s) = rn_map s" "rn_numPhysRegs (removeFromHistory sn s) = rn_numPhysRegs s"
      "rn_scoreboard (removeFromHistory sn s) = rn_scoreboard s" "rn_freeingInProgress (removeFromHistory sn s) = rn_freeingInProgress s"
      "rn_historyBuffer (removeFromHistory sn s) = rev (dropWhile (\<lambda>h. hb_instSeqNum h \<le> sn) (rev (rn_historyBuffer s)))"
    using retire_history_value [of "rev (rn_historyBuffer s)" sn s] cl by (simp_all add: removeFromHistory_def)
  show h: "held c (removeFromHistory sn s) = held c s" for c using v(1) by simp
  show "rn_map (removeFromHistory sn s) = rn_map s" by (rule v(2))
  have "chain (rn_historyBuffer (removeFromHistory sn s)) (rn_map s)"
  proof -
    define A where "A = takeWhile (\<lambda>h. hb_instSeqNum h \<le> sn) (rev (rn_historyBuffer s))"
    define B where "B = dropWhile (\<lambda>h. hb_instSeqNum h \<le> sn) (rev (rn_historyBuffer s))"
    have "rev (rn_historyBuffer s) = A @ B" by (simp add: A_def B_def)
    then have "rev (rev (rn_historyBuffer s)) = rev (A @ B)" by (rule arg_cong)
    then have "rn_historyBuffer s = rev B @ rev A" by simp
    moreover have "rn_historyBuffer (removeFromHistory sn s) = rev B" unfolding B_def by (rule v(6))
    ultimately show ?thesis using ch by (simp add: chain_append)
  qed
  then show "rn_wf (removeFromHistory sn s)" using wf unfolding rn_wf_def h v(2-5) by (elim conjE) (intro conjI)
qed

section \<open>Renaming succeeds when it is allowed to start\<close>

definition dest_ok :: "rename_stage \<Rightarrow> reg_id \<Rightarrow> bool" where
  "dest_ok s a \<longleftrightarrow> ri_numPinnedWrites a = 0 \<and>
     (isRenameable (ri_class a) \<and> ri_index a < length (rn_map s (ri_class a)) \<or> ri_class a = InvalidRegClass \<or>
      ri_class a = MiscRegClass \<and> ri_index a < length (rn_misc s) \<and> pr_class (rn_misc s ! ri_index a) = MiscRegClass)"

lemma sb_update_ok:
  assumes "isRenameable (pr_class r) \<Longrightarrow> pr_flatIdx r < rn_numPhysRegs s" "length (rn_scoreboard s) = rn_numPhysRegs s"
  shows "\<exists>b. sb_update v r s = Inr (s\<lparr>rn_scoreboard := b\<rparr>)"
proof (cases "isRenameable (pr_class r)")
  case True
  then show ?thesis using assms by (simp add: sb_update_def) blast
next
  case False
  then have "sb_update v r s = Inr (s\<lparr>rn_scoreboard := rn_scoreboard s\<rparr>)" by (simp add: sb_update_def)
  then show ?thesis by blast
qed

lemma urm_rename_ok:
  assumes wf: "rn_wf s" and a: "dest_ok s a" and free: "isRenameable (ri_class a) \<Longrightarrow> rn_free s (ri_class a) \<noteq> []"
  shows "\<exists>r p m f pn. urm_rename a s = Inr (r, p, s\<lparr>rn_free := f, rn_map := m, rn_pins := pn\<rparr>) \<and>
    (isRenameable (pr_class r) \<longrightarrow> pr_flatIdx r < rn_numPhysRegs s) \<and>
    (\<forall>c. length (m c) = length (rn_map s c)) \<and> (\<forall>c. length (rn_free s c) \<le> length (f c) + (if c = ri_class a then 1 else 0))"
proof (cases "isRenameable (ri_class a)")
  case False
  have id: "s = s\<lparr>rn_free := rn_free s, rn_map := rn_map s, rn_pins := rn_pins s\<rparr>" by simp
  have "\<exists>r. urm_rename a s = Inr (r, r, s) \<and> \<not> isRenameable (pr_class r)"
    using False a by (auto simp: urm_rename_def urm_lookup_def dest_ok_def isRenameable_def invalidPhysRegId_def)
  then obtain r where "urm_rename a s = Inr (r, r, s\<lparr>rn_free := rn_free s, rn_map := rn_map s, rn_pins := rn_pins s\<rparr>)" "\<not> isRenameable (pr_class r)"
    using id by auto
  moreover have "\<forall>c. length (rn_map s c) = length (rn_map s c)" "\<forall>c. length (rn_free s c) \<le> length (rn_free s c) + (if c = ri_class a then 1 else 0)"
    by simp_all
  ultimately show ?thesis by blast
next
  case True
  let ?c = "ri_class a" and ?i = "ri_index a"
  have i: "?i < length (rn_map s ?c)" "ri_numPinnedWrites a = 0" "?c \<noteq> InvalidRegClass" using a True by (auto simp: dest_ok_def isRenameable_def)
  have "None \<notin> set (rn_map s ?c)" using wf True unfolding rn_wf_def by blast
  then obtain p where p: "rn_map s ?c ! ?i = Some p" using i(1) by (metis not_None_eq nth_mem)
  have pf: "pr_flatIdx p < rn_numPhysRegs s"
    using wf_held [OF wf True, of p] the_in_map [OF i(1) p] by (simp add: held_def)
  show ?thesis
  proof (cases "0 < pn_numPinnedWrites (rn_pins s p)")
    case pin: True
    then obtain pn where "urm_rename a s = Inr (p, p, s\<lparr>rn_free := rn_free s, rn_map := rn_map s, rn_pins := pn\<rparr>)"
      using True i p by (simp add: urm_rename_def srm_rename_def)
    moreover have "\<forall>c. length (rn_map s c) = length (rn_map s c)" "\<forall>c. length (rn_free s c) \<le> length (rn_free s c) + (if c = ?c then 1 else 0)"
      by simp_all
    ultimately show ?thesis using pf by blast
  next
    case False
    obtain r rs where r: "rn_free s ?c = r # rs" using free True by (meson list.exhaust)
    then have rf: "pr_flatIdx r < rn_numPhysRegs s" using wf_held [OF wf True, of r] by (simp add: held_def)
    let ?m = "(rn_map s)(?c := (rn_map s ?c)[?i := Some r])" and ?f = "(rn_free s)(?c := rs)"
    obtain pn where "urm_rename a s = Inr (r, p, s\<lparr>rn_free := ?f, rn_map := ?m, rn_pins := pn\<rparr>)"
      using True False i p r by (simp add: urm_rename_def srm_rename_def getReg_def)
    moreover have "\<forall>c. length (?m c) = length (rn_map s c)" "\<forall>c. length (rn_free s c) \<le> length (?f c) + (if c = ?c then 1 else 0)"
      using r by simp_all
    ultimately show ?thesis using rf by blast
  qed
qed

lemma renameDest_ok:
  assumes wf: "rn_wf s" and a: "dest_ok s a" and free: "isRenameable (ri_class a) \<Longrightarrow> rn_free s (ri_class a) \<noteq> []"
  shows "\<exists>s'. renameDest sn a s = Inr s' \<and> rn_wf s' \<and> (\<forall>b. dest_ok s b \<longrightarrow> dest_ok s' b) \<and>
    (\<forall>c. length (rn_free s c) \<le> length (rn_free s' c) + (if c = ri_class a then 1 else 0))"
proof -
  obtain r p m f pn where u: "urm_rename a s = Inr (r, p, s\<lparr>rn_free := f, rn_map := m, rn_pins := pn\<rparr>)"
      "isRenameable (pr_class r) \<Longrightarrow> pr_flatIdx r < rn_numPhysRegs s" "\<And>c. length (m c) = length (rn_map s c)"
      "\<And>c. length (rn_free s c) \<le> length (f c) + (if c = ri_class a then 1 else 0)"
    using urm_rename_ok [OF assms] by blast
  have sb: "length (rn_scoreboard s) = rn_numPhysRegs s" using wf unfolding rn_wf_def by blast
  obtain b where "sb_unsetReg r (s\<lparr>rn_free := f, rn_map := m, rn_pins := pn\<rparr>) = Inr (s\<lparr>rn_free := f, rn_map := m, rn_pins := pn, rn_scoreboard := b\<rparr>)"
    using sb_update_ok [of r "s\<lparr>rn_free := f, rn_map := m, rn_pins := pn\<rparr>" False] u(2) sb by (auto simp: sb_unsetReg_def)
  then obtain s' where s': "renameDest sn a s = Inr s'" "rn_free s' = f" "rn_map s' = m" "rn_misc s' = rn_misc s"
    using u(1) by (simp add: renameDest_def)
  have "\<forall>b. dest_ok s b \<longrightarrow> dest_ok s' b" unfolding dest_ok_def s'(3,4) u(3) by blast
  then show ?thesis using s'(1) renameDest_wf [OF wf s'(1)] u(4) unfolding s'(2) [symmetric] by blast
qed

definition dests_in :: "reg_class \<Rightarrow> reg_id list \<Rightarrow> nat" where
  "dests_in c ds = length (filter (\<lambda>a. ri_class a = c) ds)"

lemma renameDestRegs_ok:
  assumes "rn_wf s" "\<forall>a\<in>set ds. dest_ok s a" "\<And>c. isRenameable c \<Longrightarrow> dests_in c ds \<le> length (rn_free s c)"
  shows "\<exists>s'. renameDestRegs sn ds s = Inr s' \<and> rn_wf s'"
  using assms unfolding renameDestRegs_def
proof (induction ds arbitrary: s)
  case (Cons a ds)
  have "isRenameable (ri_class a) \<Longrightarrow> rn_free s (ri_class a) \<noteq> []" using Cons.prems(3) [of "ri_class a"] by (auto simp: dests_in_def)
  then obtain s1 where s1: "renameDest sn a s = Inr s1" "rn_wf s1" "\<And>b. dest_ok s b \<Longrightarrow> dest_ok s1 b"
      "\<And>c. length (rn_free s c) \<le> length (rn_free s1 c) + (if c = ri_class a then 1 else 0)"
    using renameDest_ok [OF Cons.prems(1), of a sn] Cons.prems(2) by auto
  have "dests_in c ds \<le> length (rn_free s1 c)" if "isRenameable c" for c
    using Cons.prems(3) [OF that] s1(4) [of c] by (auto simp: dests_in_def split: if_splits)
  then show ?case using Cons.IH [OF s1(2)] Cons.prems(2) s1(1,3) by simp
qed simp

lemma rename_classes_renameable: "isRenameable c \<longleftrightarrow> c \<in> set rename_classes"
  by (cases c) (simp_all add: isRenameable_def rename_classes_def)

lemma renameSrcRegs_keeps:
  "renameSrcRegs srcs s = Inr (rs, s') \<Longrightarrow> \<exists>n m. s' = s\<lparr>rn_classLookups := n, rn_lookups := m\<rparr>"
proof (induction srcs arbitrary: s rs)
  case Nil
  then have "s' = s\<lparr>rn_classLookups := rn_classLookups s, rn_lookups := rn_lookups s\<rparr>" by simp
  then show ?case by blast
next
  case (Cons a srcs)
  then obtain rs1 where "renameSrcRegs srcs (s\<lparr>rn_classLookups := count_lookup (ri_class a) (rn_classLookups s), rn_lookups := rn_lookups s + 1\<rparr>) = Inr (rs1, s')"
    by (auto simp: rbind_eq_Inr split: option.splits)
  from Cons.IH [OF this] show ?case by auto
qed

section \<open>Properties\<close>

text \<open>What the rename stage is asked to do.\<close>

datatype rn_call = RenameDests seqnum "reg_id list" | RenameSrcs "reg_id list" | UndoAfter seqnum | RetireUpTo seqnum | ReleaseSquashed

fun rn_step :: "rn_call \<Rightarrow> rename_stage \<Rightarrow> rename_stage res" where
  "rn_step (RenameDests sn ds) s = renameDestRegs sn ds s"
| "rn_step (RenameSrcs srcs) s = rbind (renameSrcRegs srcs s) (\<lambda>(_, s). Inr s)"
| "rn_step (UndoAfter sq) s = rn_doSquash sq s"
| "rn_step (RetireUpTo sn) s = Inr (removeFromHistory sn s)"
| "rn_step ReleaseSquashed s = Inr (releaseFreeing s)"

lemma rn_step_keeps:
  assumes wf: "rn_wf s" and run: "rn_step call s = Inr s'"
  shows "rn_wf s' \<and> (\<forall>c. held c s' = held c s)"
proof (cases call)
  case (RenameDests sn ds)
  then have "undoable {sn} s s'" using renameDestRegs_undoable [of sn ds s s' "{sn}" s] run undoable_refl [OF wf] by simp
  then show ?thesis by (simp add: undoable_def)
next
  case (RenameSrcs srcs)
  then obtain n m where "s' = s\<lparr>rn_classLookups := n, rn_lookups := m\<rparr>" using run renameSrcRegs_keeps by (fastforce simp: rbind_eq_Inr)
  then show ?thesis using wf unfolding rn_wf_def by simp
next
  case (UndoAfter sq)
  then show ?thesis using run rn_doSquash_value [OF wf, of sq] by auto
next
  case (RetireUpTo sn)
  then have "s' = removeFromHistory sn s" using run by simp
  then show ?thesis using removeFromHistory_keeps(1,2) [OF wf] by blast
next
  case ReleaseSquashed
  then have "s' = releaseFreeing s" using run by simp
  then show ?thesis using releaseFreeing_keeps(1) releaseFreeing_keeps(2) [OF wf] by blast
qed

text \<open>C15. Physical registers are never lost and never handed out twice: whatever instructions are renamed, undone after
  a squash, retired, and however late the squashed registers are released, every register of a class stays in exactly
  one place: mapped, free, about to be freed, or kept for an undo.\<close>

theorem registers_conserved:
  assumes "rn_wf s" "rfold rn_step calls s = Inr s'"
  shows "rn_wf s' \<and> (\<forall>c. held c s' = held c s)"
proof (rule rfold_invariant [OF assms(2)])
  fix call t t'
  assume "rn_wf t \<and> (\<forall>c. held c t = held c s)" "rn_step call t = Inr t'"
  then show "rn_wf t' \<and> (\<forall>c. held c t' = held c s)" using rn_step_keeps by metis
qed (simp add: assms(1))

text \<open>A state of one class: two architectural and four physical integer registers.\<close>

definition ex_int :: "nat \<Rightarrow> phys_reg" where
  "ex_int i = \<lparr>pr_class = IntRegClass, pr_index = i, pr_flatIdx = i\<rparr>"

definition ex_dest :: "nat \<Rightarrow> reg_id" where
  "ex_dest i = \<lparr>ri_class = IntRegClass, ri_index = i, ri_numPinnedWrites = 0\<rparr>"

definition ex_stage :: rename_stage where
  "ex_stage = (rename_init \<lparr>prf_ids = (\<lambda>_. []), prf_totalNumRegs = 4\<rparr> (\<lambda>_. 0))
     \<lparr>rn_map := (\<lambda>c. if c = IntRegClass then [Some (ex_int 0), Some (ex_int 1)] else []),
      rn_free := (\<lambda>c. if c = IntRegClass then [ex_int 2, ex_int 3] else [])\<rparr>"

lemmas ex_rename_defs = ex_stage_def ex_int_def ex_dest_def rename_init_def

lemma ex_stage_wf: "rn_wf ex_stage"
  by (auto simp: rn_wf_def held_def kept_prevs_def ex_rename_defs)

lemmas rename_evals = renameDestRegs_def renameDest_def urm_rename_def srm_rename_def getReg_def sb_unsetReg_def sb_update_def
  isRenameable_def setNumPinnedWrites_def vget_def vset_def ex_rename_defs

theorem registers_conserved_witness:
  "\<exists>s'. rfold rn_step [RenameDests 5 [ex_dest 0], RenameDests 6 [ex_dest 1], UndoAfter 5, RetireUpTo 5, ReleaseSquashed] ex_stage = Inr s' \<and>
    rn_wf s' \<and> held IntRegClass s' = mset (map ex_int [0, 1, 2, 3])"
proof -
  obtain s' where s': "rfold rn_step [RenameDests 5 [ex_dest 0], RenameDests 6 [ex_dest 1], UndoAfter 5, RetireUpTo 5, ReleaseSquashed] ex_stage = Inr s'"
    by (simp add: rename_evals rn_doSquash_def urm_setEntry_def srm_setEntry_def)
  have "held IntRegClass ex_stage = mset (map ex_int [0, 1, 2, 3])" by (simp add: held_def kept_prevs_def ex_rename_defs)
  then show ?thesis using registers_conserved [OF ex_stage_wf s'] s' by auto
qed

text \<open>C16. A squash undoes renaming exactly: after any number of younger instructions were renamed, squashing back to an older sequence number
  succeeds and restores every rename map and the history, and once the squashed registers are released each free list holds
  the registers it held before.\<close>

theorem squash_undoes_renames:
  assumes wf: "rn_wf s" and run: "rename_insts insts s = Inr s1"
    and young: "\<forall>i\<in>set insts. sq < fst i" and old: "\<forall>h\<in>set (rn_historyBuffer s). hb_instSeqNum h \<le> sq"
    and idle: "rn_freeingInProgress s = []"
  shows "\<exists>s2. rn_doSquash sq s1 = Inr s2 \<and> rn_map s2 = rn_map s \<and> rn_historyBuffer s2 = rn_historyBuffer s \<and>
    rn_map (releaseFreeing s2) = rn_map s \<and> (\<forall>c. mset (rn_free (releaseFreeing s2) c) = mset (rn_free s c))"
proof -
  have "undoable {n. sq < n} s s1" by (rule rename_insts_undoable [OF run undoable_refl [OF wf]]) (use young in auto)
  then obtain new where u: "rn_wf s1" "rn_historyBuffer s1 = new @ rn_historyBuffer s" "\<forall>h\<in>set new. sq < hb_instSeqNum h"
      "fold undo_entry new (rn_map s1) = rn_map s" "\<And>c. held c s1 = held c s" "rn_freeingInProgress s1 = []"
    using idle by (auto simp: undoable_def)
  have tw: "takeWhile (\<lambda>h. sq < hb_instSeqNum h) (rn_historyBuffer s1) = new" "dropWhile (\<lambda>h. sq < hb_instSeqNum h) (rn_historyBuffer s1) = rn_historyBuffer s"
    using u(3) old unfolding u(2) by (cases "rn_historyBuffer s"; fastforce simp: takeWhile_append dropWhile_append)+
  obtain s2 where s2: "rn_doSquash sq s1 = Inr s2" "\<And>c. held c s2 = held c s1" "rn_map s2 = rn_map s" "rn_historyBuffer s2 = rn_historyBuffer s"
    using rn_doSquash_value [OF u(1), of sq] unfolding tw u(4) by blast
  have r: "rn_map (releaseFreeing s2) = rn_map s" "rn_historyBuffer (releaseFreeing s2) = rn_historyBuffer s" "rn_freeingInProgress (releaseFreeing s2) = []"
    using s2(3,4) by (simp_all add: releaseFreeing_def fold_addReg)
  have "mset (rn_free (releaseFreeing s2) c) = mset (rn_free s c)" for c
  proof -
    have "held c (releaseFreeing s2) = held c s" using releaseFreeing_keeps(1) s2(2) u(5) by simp
    then show ?thesis using idle by (simp add: held_def r)
  qed
  then show ?thesis using s2 r(1) by blast
qed

theorem squash_undoes_renames_witness:
  "\<exists>s1 s2. rename_insts [(6, [ex_dest 0]), (7, [ex_dest 0])] ex_stage = Inr s1 \<and> rn_map s1 \<noteq> rn_map ex_stage \<and>
    rn_doSquash 5 s1 = Inr s2 \<and> rn_map s2 = rn_map ex_stage"
proof -
  obtain s1 where s1: "rename_insts [(6, [ex_dest 0]), (7, [ex_dest 0])] ex_stage = Inr s1" "rn_map s1 IntRegClass ! 0 = Some (ex_int 3)"
    by (simp add: rename_insts_def rename_evals)
  have ne: "rn_map s1 \<noteq> rn_map ex_stage"
  proof
    assume "rn_map s1 = rn_map ex_stage"
    then show False using s1(2) by (simp add: ex_rename_defs)
  qed
  have "\<exists>s2. rn_doSquash 5 s1 = Inr s2 \<and> rn_map s2 = rn_map ex_stage \<and> rn_historyBuffer s2 = rn_historyBuffer ex_stage \<and>
      rn_map (releaseFreeing s2) = rn_map ex_stage \<and> (\<forall>c. mset (rn_free (releaseFreeing s2) c) = mset (rn_free ex_stage c))"
    by (rule squash_undoes_renames [OF ex_stage_wf s1(1)]) (simp_all add: ex_stage_def rename_init_def)
  then show ?thesis using s1(1) ne by blast
qed

text \<open>C17. The check before renaming is enough: when \<open>canRename\<close> allows an instruction whose destinations are registers of the machine without pinned
  writes, renaming all of them meets no empty free list, no null mapping and no register outside the scoreboard.\<close>

theorem canRename_suffices:
  assumes "rn_wf s" "\<forall>a\<in>set ds. dest_ok s a" "canRename (\<lambda>c. dests_in c ds) s"
  shows "\<exists>s'. renameDestRegs sn ds s = Inr s' \<and> rn_wf s'"
proof (rule renameDestRegs_ok [OF assms(1,2)])
  fix c assume "isRenameable c"
  then show "dests_in c ds \<le> length (rn_free s c)"
    using assms(3) unfolding rename_classes_renameable canRename_def numFreeRegs_def by (auto simp: list_all_iff not_less)
qed

theorem canRename_suffices_witness:
  "\<exists>s'. renameDestRegs 9 [ex_dest 0, ex_dest 1] ex_stage = Inr s' \<and> rn_wf s'"
  by (rule canRename_suffices [OF ex_stage_wf])
    (simp_all add: dest_ok_def canRename_def numFreeRegs_def dests_in_def rename_classes_def isRenameable_def ex_rename_defs)

text \<open>The assertion that guards a rename map is off by one: the index one past the last architectural register passes it and the
  access goes out of range; every larger index is caught by the assertion and every smaller one is served.\<close>

theorem lookup_past_end:
  "srm_lookup a s = (if ri_index a < length (rn_map s (ri_class a)) then Inr (rn_map s (ri_class a) ! ri_index a)
     else if ri_index a = length (rn_map s (ri_class a)) then Inl OutOfRange else Inl Assertion)"
  by (simp add: srm_lookup_def vget_def check_def)

end
