(* ===== verification/Core_Setup.thy ===== *)
theory Core_Setup
  imports Rename_Stage
begin

text \<open>
  The part of the core's constructor (\<^verbatim>\<open>cpu/o3/cpu.cc\<close>) that sets up renaming for all threads: its checks of the
  configuration, the free lists filled from the physical register file, and the assignment of a physical register to every
  architectural register of every active thread, in the rename map and in the commit stage's map.  \<open>regs\<close> gives the number of
  architectural registers of a class.
\<close>

section \<open>The constructor\<close>

definition check_threads :: "bool \<Rightarrow> nat \<Rightarrow> nat \<Rightarrow> unit res" where
  "check_threads FullSystem workload numThreads =
     rbind (check (\<not> (FullSystem \<and> numThreads > 1)) Fatal) (\<lambda>_.
     check (\<not> (\<not> FullSystem \<and> numThreads < workload)) Fatal)"

definition active_threads :: "bool \<Rightarrow> nat \<Rightarrow> nat res" where
  "active_threads FullSystem workload =
     (if FullSystem then Inr 1 else rbind (check (\<not> workload > MaxThreads) Panic) (\<lambda>_. Inr workload))"

definition not_enough :: "nat \<Rightarrow> nat \<Rightarrow> nat \<Rightarrow> bool" where
  "not_enough numThreads phys arch \<longleftrightarrow> phys \<le> numThreads * arch \<and> arch \<noteq> 0"

definition check_phys_regs :: "nat \<Rightarrow> nat \<Rightarrow> nat \<Rightarrow> nat \<Rightarrow> nat \<Rightarrow> nat \<Rightarrow> nat \<Rightarrow> (reg_class \<Rightarrow> nat) \<Rightarrow> unit res" where
  "check_phys_regs numThreads nInt nFloat nVec nVecPred nMat nCC regs =
     rbind (check (numThreads \<noteq> 0) Assertion) (\<lambda>_.
     rbind (check (\<not> not_enough numThreads nInt (regs IntRegClass)) Panic) (\<lambda>_.
     rbind (check (\<not> not_enough numThreads nFloat (regs FloatRegClass)) Panic) (\<lambda>_.
     rbind (check (\<not> not_enough numThreads nVec (regs VecRegClass)) Panic) (\<lambda>_.
     rbind (check (\<not> not_enough numThreads nVecPred (regs VecPredRegClass)) Panic) (\<lambda>_.
     rbind (check (\<not> not_enough numThreads nMat (regs MatRegClass)) Panic) (\<lambda>_.
     check (\<not> not_enough numThreads nCC (regs CCRegClass)) Panic))))))"

text \<open>
  The maps of all threads, and the free lists and the scoreboard they share, which \<open>co_stage\<close> holds together with the map of
  the thread at hand.
\<close>

type_synonym rename_map = "reg_class \<Rightarrow> phys_reg option list"

record core_regs =
  co_renameMap :: "rename_map list"
  co_commitRenameMap :: "rename_map list"
  co_stage :: rename_stage

definition thread_stage :: "core_regs \<Rightarrow> nat \<Rightarrow> rename_stage" where
  "thread_stage core tid = (co_stage core)\<lparr>rn_map := co_renameMap core ! tid\<rparr>"

text \<open>One register: the pair is the commit stage's map and the thread's stage.\<close>

definition assign_reg :: "reg_class \<Rightarrow> nat \<Rightarrow> rename_map \<times> rename_stage \<Rightarrow> (rename_map \<times> rename_stage) res" where
  "assign_reg c i = (\<lambda>(commit, s).
     let id = \<lparr>ri_class = c, ri_index = i, ri_numPinnedWrites = 0\<rparr> in
     rbind (getReg c s) (\<lambda>(phys_reg, s).
     rbind (urm_setEntry id phys_reg s) (\<lambda>s.
     rbind (urm_setEntry id phys_reg (s\<lparr>rn_map := commit\<rparr>)) (\<lambda>t.
     Inr (rn_map t, s)))))"

definition assign_thread :: "(reg_class \<Rightarrow> nat) \<Rightarrow> nat \<Rightarrow> core_regs \<Rightarrow> core_regs res" where
  "assign_thread regs tid core =
     rbind (vget (co_renameMap core) tid) (\<lambda>m.
     rbind (vget (co_commitRenameMap core) tid) (\<lambda>commit.
     rbind (rfold (\<lambda>c. rfold (assign_reg c) [0 ..< regs c]) rename_classes (commit, (co_stage core)\<lparr>rn_map := m\<rparr>)) (\<lambda>(commit, s).
     Inr \<lparr>co_renameMap = (co_renameMap core)[tid := rn_map s], co_commitRenameMap = (co_commitRenameMap core)[tid := commit],
          co_stage = s\<rparr>)))"

definition assign_regs :: "(reg_class \<Rightarrow> nat) \<Rightarrow> nat \<Rightarrow> core_regs \<Rightarrow> core_regs res" where
  "assign_regs regs active = rfold (assign_thread regs) [0 ..< active]"

definition mk_core ::
  "bool \<Rightarrow> nat \<Rightarrow> nat \<Rightarrow> nat \<Rightarrow> nat \<Rightarrow> nat \<Rightarrow> nat \<Rightarrow> nat \<Rightarrow> nat \<Rightarrow> (reg_class \<Rightarrow> nat) \<Rightarrow> core_regs res" where
  "mk_core FullSystem workload numThreads nInt nFloat nVec nVecPred nMat nCC regs =
     rbind (mk_phys_reg_file nInt nFloat nVec nVecPred nMat nCC regs) (\<lambda>rf.
     rbind (initFreeList rf (rename_init rf regs)) (\<lambda>s.
     rbind (check_threads FullSystem workload numThreads) (\<lambda>_.
     rbind (active_threads FullSystem workload) (\<lambda>active.
     rbind (check_phys_regs numThreads nInt nFloat nVec nVecPred nMat nCC regs) (\<lambda>_.
     assign_regs regs active \<lparr>co_renameMap = replicate numThreads (rn_map s), co_commitRenameMap = replicate numThreads (rn_map s),
       co_stage = s\<rparr>)))))"

section \<open>What the constructor builds\<close>

lemma class_ids_facts:
  "length (class_ids c n f) = n" "i < n \<Longrightarrow> pr_index (class_ids c n f ! i) = i" "r \<in> set (class_ids c n f) \<Longrightarrow> pr_class r = c"
  "r \<in> set (class_ids c n f) \<Longrightarrow> f \<le> pr_flatIdx r \<and> pr_flatIdx r < f + n" "distinct (class_ids c n f)"
  by (auto simp: class_ids_def distinct_map inj_on_def)

definition file_ok :: "phys_reg_file \<Rightarrow> bool" where
  "file_ok rf \<longleftrightarrow> (\<forall>c\<in>set rename_classes. distinct (prf_ids rf c) \<and>
     (\<forall>i < length (prf_ids rf c). pr_index (prf_ids rf c ! i) = i) \<and>
     (\<forall>r\<in>set (prf_ids rf c). pr_class r = c \<and> pr_flatIdx r < prf_totalNumRegs rf))"

lemma mk_phys_reg_file_ok: "mk_phys_reg_file nI nF nV nP nM nC regs = Inr rf \<Longrightarrow> file_ok rf"
  by (auto simp: mk_phys_reg_file_def Let_def file_ok_def rename_classes_def class_ids_facts split: if_splits dest!: class_ids_facts(4))

lemma initFreeList_value:
  assumes "file_ok rf"
  shows "initFreeList rf s = Inr (s\<lparr>rn_free := (\<lambda>c. rn_free s c @ (if isRenameable c then prf_ids rf c else []))\<rparr>)"
proof -
  have "rfold (\<lambda>c s. rbind (check (\<forall>i < length (prf_ids rf c). pr_index (prf_ids rf c ! i) = i) Assertion) (\<lambda>_.
      Inr (fold addReg (prf_ids rf c) s))) cs s = Inr (s\<lparr>rn_free := (\<lambda>c. rn_free s c @ (if c \<in> set cs then prf_ids rf c else []))\<rparr>)"
    if "set cs \<subseteq> set rename_classes" "distinct cs" for cs s
    using that
  proof (induction cs arbitrary: s)
    case (Cons c cs)
    have c: "\<forall>i < length (prf_ids rf c). pr_index (prf_ids rf c ! i) = i" "\<forall>r\<in>set (prf_ids rf c). pr_class r = c"
      using assms Cons.prems(1) by (auto simp: file_ok_def)
    have f: "filter (\<lambda>r. pr_class r = c') (prf_ids rf c) = (if c' = c then prf_ids rf c else [])" for c'
      using c(2) by (auto simp: filter_id_conv filter_empty_conv)
    have "(\<lambda>c'. (rn_free s c' @ (if c' = c then prf_ids rf c else [])) @ (if c' \<in> set cs then prf_ids rf c' else [])) =
        (\<lambda>c'. rn_free s c' @ (if c' \<in> set (c # cs) then prf_ids rf c' else []))"
      using Cons.prems(2) by (auto simp: fun_eq_iff)
    then show ?case using Cons c(1) by (simp add: fold_addReg f)
  qed simp
  moreover have "distinct rename_classes" by (simp add: rename_classes_def)
  ultimately show ?thesis unfolding initFreeList_def rename_classes_renameable by blast
qed

text \<open>Both maps of a thread go through the same steps, so they stay equal.\<close>

lemma assign_reg_both:
  "assign_reg c i (rn_map s, s) =
     rbind (getReg c s) (\<lambda>(r, s). rbind (urm_setEntry \<lparr>ri_class = c, ri_index = i, ri_numPinnedWrites = 0\<rparr> r s) (\<lambda>s. Inr (rn_map s, s)))"
proof (cases "getReg c s")
  case (Inr x)
  obtain r t where x: "x = (r, t)" by (cases x)
  have m: "rn_map t = rn_map s" using Inr x by (auto simp: getReg_def split: list.splits)
  show ?thesis
  proof (cases "urm_setEntry \<lparr>ri_class = c, ri_index = i, ri_numPinnedWrites = 0\<rparr> r t")
    case (Inr u)
    then have "u\<lparr>rn_map := rn_map s\<rparr> = t"
      using m by (auto simp: urm_setEntry_def srm_setEntry_def rbind_eq_Inr vset_eq_Inr urm_lookup_def split: if_splits)
    then show ?thesis using Inr \<open>getReg c s = Inr x\<close> x by (simp add: assign_reg_def Let_def)
  qed (simp add: assign_reg_def Let_def \<open>getReg c s = Inr x\<close> x)
qed (simp add: assign_reg_def Let_def)

lemma assign_class:
  assumes "isRenameable c" "rn_map s c = replicate n None" "n \<le> length (rn_free s c)" "\<forall>r\<in>set (rn_free s c). pr_class r = c" "k \<le> n"
  shows "\<exists>t. rfold (assign_reg c) [0 ..< k] (rn_map s, s) = Inr (rn_map t, t) \<and>
    t = s\<lparr>rn_free := (rn_free s)(c := drop k (rn_free s c)), rn_map := (rn_map s)(c := map Some (take k (rn_free s c)) @ replicate (n - k) None)\<rparr>"
  using assms(5)
proof (induction k)
  case 0
  have "s = s\<lparr>rn_free := (rn_free s)(c := drop 0 (rn_free s c)), rn_map := (rn_map s)(c := map Some (take 0 (rn_free s c)) @ replicate (n - 0) None)\<rparr>"
    using assms(2) by (simp add: fun_upd_idem)
  then show ?case by (intro exI [where x = s] conjI) (simp, assumption)
next
  case (Suc k)
  let ?F = "rn_free s c"
  let ?s = "s\<lparr>rn_free := (rn_free s)(c := drop k ?F), rn_map := (rn_map s)(c := map Some (take k ?F) @ replicate (n - k) None)\<rparr>"
  let ?t = "s\<lparr>rn_free := (rn_free s)(c := drop (Suc k) ?F), rn_map := (rn_map s)(c := map Some (take (Suc k) ?F) @ replicate (n - Suc k) None)\<rparr>"
  have k: "k < length ?F" "k < n" using Suc.prems assms(3) by simp_all
  have d: "drop k ?F = ?F ! k # drop (Suc k) ?F" using k(1) by (simp add: Cons_nth_drop_Suc)
  have cl: "pr_class (?F ! k) = c" using assms(4) k(1) by simp
  have "n - k = Suc (n - Suc k)" using k(2) by simp
  then have m: "(map Some (take k ?F) @ replicate (n - k) None)[k := Some (?F ! k)] = map Some (take (Suc k) ?F) @ replicate (n - Suc k) None"
    using k(1) by (simp add: list_update_append take_Suc_conv_app_nth)
  have step: "assign_reg c k (rn_map ?s, ?s) = Inr (rn_map ?t, ?t)"
    unfolding assign_reg_both using d cl assms(1) k m by (simp add: getReg_def urm_setEntry_def srm_setEntry_def)
  have ih: "rfold (assign_reg c) [0 ..< k] (rn_map s, s) = Inr (rn_map ?s, ?s)" using Suc.IH [OF Suc_leD [OF Suc.prems]] by (elim exE conjE) (simp only:)
  have "rfold (assign_reg c) [0 ..< Suc k] (rn_map s, s) = rbind (rfold (assign_reg c) [0 ..< k] (rn_map s, s)) (assign_reg c k)"
    by (simp add: rfold_append rbind_def split: sum.splits)
  then show ?case unfolding ih rbind_Inr step by blast
qed

definition assigned :: "(reg_class \<Rightarrow> nat) \<Rightarrow> reg_class set \<Rightarrow> rename_stage \<Rightarrow> rename_stage" where
  "assigned regs C s = s\<lparr>rn_free := (\<lambda>c. if c \<in> C then drop (regs c) (rn_free s c) else rn_free s c),
     rn_map := (\<lambda>c. if c \<in> C then map Some (take (regs c) (rn_free s c)) else rn_map s c)\<rparr>"

lemma assign_classes:
  assumes "set cs \<subseteq> set rename_classes" "distinct cs"
    "\<And>c. c \<in> set cs \<Longrightarrow> rn_map s c = replicate (regs c) None \<and> regs c \<le> length (rn_free s c) \<and> (\<forall>r\<in>set (rn_free s c). pr_class r = c)"
  shows "rfold (\<lambda>c. rfold (assign_reg c) [0 ..< regs c]) cs (rn_map s, s) = Inr (rn_map (assigned regs (set cs) s), assigned regs (set cs) s)"
  using assms
proof (induction cs arbitrary: s)
  case Nil
  then show ?case by (simp add: assigned_def)
next
  case (Cons c cs)
  let ?t = "assigned regs {c} s"
  have t: "?t = s\<lparr>rn_free := (rn_free s)(c := drop (regs c) (rn_free s c)), rn_map := (rn_map s)(c := map Some (take (regs c) (rn_free s c)))\<rparr>"
    unfolding assigned_def by (auto simp: fun_eq_iff)
  have "isRenameable c" using Cons.prems(1) rename_classes_renameable by simp
  then have one: "rfold (assign_reg c) [0 ..< regs c] (rn_map s, s) = Inr (rn_map ?t, ?t)"
    unfolding t using assign_class [of c s "regs c" "regs c"] Cons.prems(3) [of c] by simp
  have "rfold (\<lambda>c. rfold (assign_reg c) [0 ..< regs c]) cs (rn_map ?t, ?t) = Inr (rn_map (assigned regs (set cs) ?t), assigned regs (set cs) ?t)"
    by (rule Cons.IH) (use Cons.prems in \<open>auto simp: assigned_def\<close>)
  moreover have "assigned regs (set cs) ?t = assigned regs (set (c # cs)) s"
    using Cons.prems(2) by (auto simp: assigned_def fun_eq_iff)
  ultimately show ?case using one by simp
qed

text \<open>After \<open>k\<close> threads: each has its slice of the registers of a class, and the free list is what is left.\<close>

definition slice_map :: "(reg_class \<Rightarrow> nat) \<Rightarrow> phys_reg_file \<Rightarrow> nat \<Rightarrow> rename_map" where
  "slice_map regs rf t = (\<lambda>c. if isRenameable c then map Some (take (regs c) (drop (t * regs c) (prf_ids rf c))) else [])"

definition after_threads :: "(reg_class \<Rightarrow> nat) \<Rightarrow> phys_reg_file \<Rightarrow> nat \<Rightarrow> nat \<Rightarrow> core_regs \<Rightarrow> bool" where
  "after_threads regs rf n k core \<longleftrightarrow>
     co_renameMap core = map (slice_map regs rf) [0 ..< k] @ replicate (n - k) (rn_map (rename_init rf regs)) \<and>
     co_commitRenameMap core = co_renameMap core \<and>
     (\<exists>m. co_stage core = (rename_init rf regs)\<lparr>rn_map := m, rn_free := (\<lambda>c. if isRenameable c then drop (k * regs c) (prf_ids rf c) else [])\<rparr>)"

lemma assign_regs_slices:
  assumes "file_ok rf" "k \<le> n" "\<And>c. isRenameable c \<Longrightarrow> k * regs c \<le> length (prf_ids rf c)"
    "after_threads regs rf n 0 core"
  shows "\<exists>core'. assign_regs regs k core = Inr core' \<and> after_threads regs rf n k core'"
  using assms(2,3)
proof (induction k)
  case 0
  then show ?case using assms(4) by (simp add: assign_regs_def)
next
  case (Suc k)
  have "k * regs c \<le> length (prf_ids rf c)" if "isRenameable c" for c using Suc.prems(2) [OF that] by simp
  then have "\<exists>core'. assign_regs regs k core = Inr core' \<and> after_threads regs rf n k core'" using Suc.prems(1) by (intro Suc.IH) simp_all
  then obtain core1 m where c1: "assign_regs regs k core = Inr core1"
      "co_renameMap core1 = map (slice_map regs rf) [0 ..< k] @ replicate (n - k) (rn_map (rename_init rf regs))"
      "co_commitRenameMap core1 = co_renameMap core1"
      "co_stage core1 = (rename_init rf regs)\<lparr>rn_map := m, rn_free := (\<lambda>c. if isRenameable c then drop (k * regs c) (prf_ids rf c) else [])\<rparr>"
    unfolding after_threads_def by (elim exE conjE) (rule that)
  let ?s = "(co_stage core1)\<lparr>rn_map := rn_map (rename_init rf regs)\<rparr>"
  let ?t = "assigned regs (set rename_classes) ?s"
  have kn: "k < n" using Suc.prems(1) by simp
  have nth: "k < length (co_renameMap core1)" "co_renameMap core1 ! k = rn_map (rename_init rf regs)"
    using kn unfolding c1(2) by (simp_all add: nth_append)
  have left: "regs c \<le> length (prf_ids rf c) - k * regs c" if "isRenameable c" for c using Suc.prems(2) [OF that] by simp
  have "pr_class r = c" if "c \<in> set rename_classes" "r \<in> set (prf_ids rf c)" for c r using assms(1) that by (auto simp: file_ok_def)
  moreover have "distinct rename_classes" by (simp add: rename_classes_def)
  ultimately have "rfold (\<lambda>c. rfold (assign_reg c) [0 ..< regs c]) rename_classes (rn_map ?s, ?s) = Inr (rn_map ?t, ?t)"
    using left by (intro assign_classes) (auto simp: rename_classes_renameable [symmetric] c1(4) rename_init_def dest: in_set_dropD)
  then have step: "assign_thread regs k core1 = Inr \<lparr>co_renameMap = (co_renameMap core1)[k := rn_map ?t],
      co_commitRenameMap = (co_renameMap core1)[k := rn_map ?t], co_stage = ?t\<rparr>"
    using nth by (simp add: assign_thread_def c1(3))
  have "rn_map ?t = slice_map regs rf k"
    by (auto simp: assigned_def slice_map_def c1(4) rename_init_def rename_classes_renameable fun_eq_iff)
  moreover have "(co_renameMap core1)[k := x] = map (slice_map regs rf) [0 ..< k] @ x # replicate (n - Suc k) (rn_map (rename_init rf regs))" for x
  proof -
    have "n - k = Suc (n - Suc k)" using kn by simp
    then show ?thesis unfolding c1(2) by (simp add: list_update_append)
  qed
  moreover have "?t = (rename_init rf regs)\<lparr>rn_map := rn_map ?t, rn_free := (\<lambda>c. if isRenameable c then drop (Suc k * regs c) (prf_ids rf c) else [])\<rparr>"
    by (auto simp: assigned_def c1(4) rename_init_def rename_classes_renameable fun_eq_iff add.commute)
  moreover have "assign_regs regs (Suc k) core = rbind (assign_regs regs k core) (assign_thread regs k)"
    by (simp add: assign_regs_def rfold_append rbind_def split: sum.splits)
  ultimately show ?case unfolding c1(1) rbind_Inr step after_threads_def by auto
qed

lemma enough_regs:
  assumes "mk_phys_reg_file nI nF nV nP nM nC regs = Inr rf" "check_phys_regs n nI nF nV nP nM nC regs = Inr ()"
    "regs VecRegClass dvd regs VecElemClass" "isRenameable c" "regs c \<noteq> 0"
  shows "n * regs c < length (prf_ids rf c)"
proof -
  have ne: "\<not> not_enough n nI (regs IntRegClass)" "\<not> not_enough n nF (regs FloatRegClass)" "\<not> not_enough n nV (regs VecRegClass)"
      "\<not> not_enough n nP (regs VecPredRegClass)" "\<not> not_enough n nM (regs MatRegClass)" "\<not> not_enough n nC (regs CCRegClass)"
    using assms(2) by (auto simp: check_phys_regs_def rbind_eq_Inr)
  have "n * regs VecElemClass < nV * (regs VecElemClass div regs VecRegClass)" if e: "regs VecElemClass \<noteq> 0"
  proof -
    obtain k where k: "regs VecElemClass = regs VecRegClass * k" using assms(3) by (elim dvdE)
    then have "0 < k" "regs VecRegClass \<noteq> 0" using e by auto
    moreover from this have "n * regs VecRegClass < nV" using ne(3) by (simp add: not_enough_def)
    ultimately show ?thesis using k by (simp flip: mult.assoc)
  qed
  then show ?thesis using assms(1,4,5) ne
    by (cases c) (auto simp: mk_phys_reg_file_def Let_def class_ids_facts isRenameable_def not_enough_def split: if_splits)
qed

lemma slices_concat: "concat (map (\<lambda>t. take r (drop (t * r) xs)) [0 ..< k]) = take (k * r) xs"
proof (induction k)
  case (Suc k)
  have "take (Suc k * r) xs = take (k * r) xs @ take r (drop (k * r) xs)" using take_add [of "k * r" r xs] by (simp add: add.commute)
  then show ?case using Suc by simp
qed simp

lemma slice_subset:
  assumes "a + r \<le> b"
  shows "mset (take r (drop a xs)) + mset (drop b xs) \<subseteq># mset xs"
proof -
  have "drop (a + r) xs = take (b - (a + r)) (drop (a + r) xs) @ drop b xs"
    using append_take_drop_id [of "b - (a + r)" "drop (a + r) xs"] assms by simp
  then have "mset xs = mset (take a xs) + (mset (take r (drop a xs)) + (mset (take (b - (a + r)) (drop (a + r) xs)) + mset (drop b xs)))"
    using append_take_drop_id [of a xs] append_take_drop_id [of r "drop a xs"] by (metis drop_drop add.commute mset_append)
  then show ?thesis by (simp add: subset_mset.add_increasing2 ac_simps)
qed

lemma slice_wf:
  assumes "file_ok rf" "\<And>c. t * regs c + regs c \<le> k * regs c" "rn_map s = slice_map regs rf t"
    "\<And>c. isRenameable c \<Longrightarrow> rn_free s c = drop (k * regs c) (prf_ids rf c)" "rn_numPhysRegs s = prf_totalNumRegs rf"
    "length (rn_scoreboard s) = prf_totalNumRegs rf" "rn_historyBuffer s = []" "rn_freeingInProgress s = []"
  shows "rn_wf s"
  unfolding rn_wf_def
proof (intro conjI allI impI ballI)
  fix c assume c: "isRenameable c"
  have ids: "distinct (prf_ids rf c)" "\<forall>r\<in>set (prf_ids rf c). pr_class r = c \<and> pr_flatIdx r < prf_totalNumRegs rf"
    using assms(1) c rename_classes_renameable by (auto simp: file_ok_def)
  show "None \<notin> set (rn_map s c)" using c by (auto simp: assms(3) slice_map_def)
  have "held c s = mset (take (regs c) (drop (t * regs c) (prf_ids rf c))) + mset (drop (k * regs c) (prf_ids rf c))"
    using c by (simp add: held_def assms(3,4,7,8) slice_map_def kept_prevs_def comp_def multiset.map_comp)
  then have sub: "held c s \<subseteq># mset (prf_ids rf c)" using slice_subset [OF assms(2)] by simp
  fix r assume r: "r \<in># held c s"
  then have "r \<in> set (prf_ids rf c)" using mset_subset_eqD [OF sub r] by simp
  then show "pr_class r = c" "pr_flatIdx r < rn_numPhysRegs s" using ids(2) by (auto simp: assms(5))
  have "count (held c s) r \<le> count (mset (prf_ids rf c)) r" by (rule mset_subset_eq_count [OF sub])
  also have "\<dots> \<le> 1" using ids(1) by (simp add: distinct_count_atmost_1)
  moreover have "0 < count (held c s) r" using r by simp
  ultimately show "count (held c s) r = 1" by linarith
qed (simp_all add: assms(5-8))

lemma active_bound: "check_threads fs workload n = Inr () \<Longrightarrow> active_threads fs workload = Inr active \<Longrightarrow> n \<noteq> 0 \<Longrightarrow> active \<le> n"
  by (auto simp: check_threads_def active_threads_def rbind_eq_Inr split: if_splits)

lemma mk_core_slices:
  assumes "mk_phys_reg_file nI nF nV nP nM nC regs = Inr rf" "check_threads fs workload n = Inr ()" "active_threads fs workload = Inr active"
    "check_phys_regs n nI nF nV nP nM nC regs = Inr ()" "active \<le> n" "\<And>c. isRenameable c \<Longrightarrow> active * regs c \<le> length (prf_ids rf c)"
  shows "\<exists>core. mk_core fs workload n nI nF nV nP nM nC regs = Inr core \<and> after_threads regs rf n active core"
proof -
  have ok: "file_ok rf" by (rule mk_phys_reg_file_ok [OF assms(1)])
  define s where "s = (rename_init rf regs)\<lparr>rn_free := (\<lambda>c. if isRenameable c then prf_ids rf c else [])\<rparr>"
  define core0 where "core0 = \<lparr>co_renameMap = replicate n (rn_map s), co_commitRenameMap = replicate n (rn_map s), co_stage = s\<rparr>"
  have s: "initFreeList rf (rename_init rf regs) = Inr s" by (simp add: initFreeList_value [OF ok] s_def rename_init_def)
  have "s = (rename_init rf regs)\<lparr>rn_map := rn_map s, rn_free := (\<lambda>c. if isRenameable c then drop (0 * regs c) (prf_ids rf c) else [])\<rparr>"
    by (simp add: s_def rename_init_def fun_eq_iff)
  then have "after_threads regs rf n 0 core0"
    unfolding after_threads_def core0_def by (auto intro!: exI [where x = "rn_map s"]) (simp add: s_def)
  then have "\<exists>core. assign_regs regs active core0 = Inr core \<and> after_threads regs rf n active core"
    using assms(6) by (intro assign_regs_slices [OF ok assms(5)]) simp_all
  then show ?thesis using assms(1-4) s by (simp add: mk_core_def core0_def)
qed

section \<open>Properties\<close>

text \<open>C18. A core whose constructor's checks pass, on an architecture with a whole number of elements per vector register, is set up
  without running out of registers: in every active thread every architectural register has a physical register of its class, the
  commit stage's maps agree, no physical register is given to two architectural registers of any threads, those not given out are
  free, and every class in use has a free register left.\<close>

theorem rename_setup:
  assumes "mk_phys_reg_file nI nF nV nP nM nC regs = Inr rf" "check_threads fs workload n = Inr ()" "active_threads fs workload = Inr active"
    "check_phys_regs n nI nF nV nP nM nC regs = Inr ()" "regs VecRegClass dvd regs VecElemClass"
  shows "\<exists>core. mk_core fs workload n nI nF nV nP nM nC regs = Inr core \<and>
    co_commitRenameMap core = co_renameMap core \<and> length (co_renameMap core) = n \<and>
    (\<forall>tid < active. rn_wf (thread_stage core tid) \<and> (\<forall>c. isRenameable c \<longrightarrow> length ((co_renameMap core ! tid) c) = regs c)) \<and>
    (\<forall>c. isRenameable c \<longrightarrow> distinct (prf_ids rf c) \<and>
       mset (concat (map (\<lambda>tid. map the ((co_renameMap core ! tid) c)) [0 ..< active])) + mset (rn_free (co_stage core) c) = mset (prf_ids rf c) \<and>
       (regs c \<noteq> 0 \<longrightarrow> rn_free (co_stage core) c \<noteq> []))"
proof -
  have ok: "file_ok rf" by (rule mk_phys_reg_file_ok [OF assms(1)])
  have "n \<noteq> 0" using assms(4) by (auto simp: check_phys_regs_def rbind_eq_Inr)
  then have an: "active \<le> n" by (rule active_bound [OF assms(2,3)])
  have room: "active * regs c < length (prf_ids rf c)" if "isRenameable c" "regs c \<noteq> 0" for c
    using enough_regs [OF assms(1,4,5) that] mult_le_mono1 [OF an, of "regs c"] by linarith
  then have le: "active * regs c \<le> length (prf_ids rf c)" if "isRenameable c" for c using that by (cases "regs c = 0") (auto simp: less_imp_le)
  have "\<exists>core. mk_core fs workload n nI nF nV nP nM nC regs = Inr core \<and> after_threads regs rf n active core"
    using le by (intro mk_core_slices [OF assms(1-4) an])
  then obtain core m where core: "mk_core fs workload n nI nF nV nP nM nC regs = Inr core" and
    maps: "co_renameMap core = map (slice_map regs rf) [0 ..< active] @ replicate (n - active) (rn_map (rename_init rf regs))"
      "co_commitRenameMap core = co_renameMap core" and
    stage: "co_stage core = (rename_init rf regs)\<lparr>rn_map := m, rn_free := (\<lambda>c. if isRenameable c then drop (active * regs c) (prf_ids rf c) else [])\<rparr>"
    unfolding after_threads_def by (elim exE conjE) (rule that)
  have nth: "co_renameMap core ! t = slice_map regs rf t" if "t < active" for t using that unfolding maps(1) by (simp add: nth_append)
  show ?thesis
  proof (intro exI [where x = core] conjI allI impI)
    fix t assume t: "t < active"
    have tr: "t * regs c + regs c \<le> active * regs c" for c using mult_le_mono1 [OF Suc_leI [OF t], of "regs c"] by (simp add: add.commute)
    show "length ((co_renameMap core ! t) c) = regs c" if "isRenameable c" for c
      using that le [OF that] tr [of c] by (simp add: nth [OF t] slice_map_def)
    show "rn_wf (thread_stage core t)"
      by (rule slice_wf [OF ok, where regs = regs and t = t and k = active]) (use tr in \<open>auto simp: thread_stage_def stage nth [OF t] rename_init_def\<close>)
  next
    fix c assume c: "isRenameable c"
    have "map (\<lambda>tid. map the ((co_renameMap core ! tid) c)) [0 ..< active] = map (\<lambda>t. take (regs c) (drop (t * regs c) (prf_ids rf c))) [0 ..< active]"
      using c nth by (intro map_cong refl) (simp add: slice_map_def comp_def)
    then have "concat (map (\<lambda>tid. map the ((co_renameMap core ! tid) c)) [0 ..< active]) = take (active * regs c) (prf_ids rf c)"
      by (simp only: slices_concat)
    then show "mset (concat (map (\<lambda>tid. map the ((co_renameMap core ! tid) c)) [0 ..< active])) + mset (rn_free (co_stage core) c) = mset (prf_ids rf c)"
      using c by (simp add: stage flip: mset_append)
    show "distinct (prf_ids rf c)" using ok c rename_classes_renameable by (auto simp: file_ok_def)
    show "rn_free (co_stage core) c \<noteq> []" if "regs c \<noteq> 0" using c room [OF c that] by (simp add: stage)
  qed (use core maps an in simp_all)
qed

text \<open>Two threads of a small machine.\<close>

definition ex_regs :: "reg_class \<Rightarrow> nat" where
  "ex_regs c = (case c of VecElemClass \<Rightarrow> 4 | InvalidRegClass \<Rightarrow> 0 | _ \<Rightarrow> 2)"

theorem rename_setup_witness:
  "\<exists>core. mk_core False 2 2 5 5 5 5 5 5 ex_regs = Inr core \<and> length (co_renameMap core) = 2 \<and>
     rn_wf (thread_stage core 0) \<and> rn_wf (thread_stage core 1) \<and> length ((co_renameMap core ! 1) IntRegClass) = 2 \<and>
     rn_free (co_stage core) VecElemClass \<noteq> []"
proof -
  obtain rf where rf: "mk_phys_reg_file 5 5 5 5 5 5 ex_regs = Inr rf" by (simp add: mk_phys_reg_file_def Let_def ex_regs_def)
  have "check_threads False 2 2 = Inr ()" "active_threads False 2 = Inr 2" "check_phys_regs 2 5 5 5 5 5 5 ex_regs = Inr ()"
      "ex_regs VecRegClass dvd ex_regs VecElemClass"
    by (simp_all add: check_threads_def active_threads_def MaxThreads_def check_phys_regs_def not_enough_def ex_regs_def)
  from rename_setup [OF rf this] obtain core where
    core: "mk_core False 2 2 5 5 5 5 5 5 ex_regs = Inr core" "length (co_renameMap core) = 2"
      "\<forall>tid < 2. rn_wf (thread_stage core tid) \<and> (\<forall>c. isRenameable c \<longrightarrow> length ((co_renameMap core ! tid) c) = ex_regs c)"
      "\<forall>c. isRenameable c \<longrightarrow> ex_regs c \<noteq> 0 \<longrightarrow> rn_free (co_stage core) c \<noteq> []" by auto
  have ren: "isRenameable IntRegClass" "isRenameable VecElemClass" by (simp_all add: isRenameable_def)
  have two: "(0::nat) < 2" "(1::nat) < 2" by simp_all
  have "length ((co_renameMap core ! 1) IntRegClass) = 2" "rn_wf (thread_stage core 1)" "rn_wf (thread_stage core 0)"
    using core(3) two ren(1) by (auto simp: ex_regs_def)
  moreover have "rn_free (co_stage core) VecElemClass \<noteq> []" using core(4) ren(2) by (simp add: ex_regs_def)
  ultimately show ?thesis using core(1,2) by (intro exI [where x = core] conjI) assumption+
qed

end
