(* ===== verification/Rob.thy ===== *)
theory Rob
  imports Mem_Dep_Unit
begin

text \<open>
  The reorder buffer of the out-of-order core (\<^verbatim>\<open>cpu/o3/rob.hh\<close>, \<^verbatim>\<open>cpu/o3/rob.cc\<close>), with the status bits of
  \<^verbatim>\<open>cpu/o3/dyn_inst.hh\<close> that it reads and writes.  The per-thread arrays of the class are functions of the thread
  number.  An iterator into an instruction list is the sequence number of the instruction it points to, and \<open>None\<close> is the
  end iterator; \<open>head\<close> and \<open>tail\<close>, which may point into any of the lists, carry the thread number as well.  The two counts
  kept in \<open>unsigned\<close> members are naturals whose subtractions wrap modulo \<open>2 ^ 32\<close>.  What the buffer asks of the core
  (whether a thread is exiting) is an argument, and what it hands to the core (the instructions it removes) is recorded in
  \<open>rob_removed\<close>.

  Shown here: the occupancy counts, the program order of every list, the head pointer and the squash iterators are kept by
  every operation the commit stage may perform; instructions leave in the order they entered; a squash marks exactly the
  younger instructions of its thread, within a number of cycles given by the squash width.
\<close>

section \<open>Data\<close>

datatype smt_queue_policy = Dynamic | Partitioned | Threshold

datatype rob_status = Rob_Running | Rob_Idle | Rob_Squashing

record rob_inst =
  rb_seqNum :: seqnum
  rb_threadNumber :: nat
  rb_isLoad :: bool
  rb_isStore :: bool
  rb_isRMW :: bool
  rb_isRMWA :: bool
  rb_RobEntry :: bool
  rb_CanCommit :: bool
  rb_Committed :: bool
  rb_Squashed :: bool
  rb_dueToMemOrder :: bool

record rob_counters =
  rc_reads :: nat
  rc_writes :: nat
  rc_squashedLoads :: nat
  rc_squashedRMWLoads :: nat
  rc_squashedRMWALoads :: nat
  rc_squashedStores :: nat
  rc_squashedRMWStores :: nat
  rc_squashedRMWAStores :: nat

record rob =
  rob_robStatus :: "nat \<Rightarrow> rob_status option"
  rob_robPolicy :: smt_queue_policy
  rob_activeThreads :: "nat list"
  rob_numEntries :: nat
  rob_threadEntries :: "nat \<Rightarrow> nat"
  rob_maxEntries :: "nat \<Rightarrow> nat"
  rob_instList :: "nat \<Rightarrow> rob_inst list"
  rob_squashWidth :: nat
  rob_tail :: "(nat \<times> seqnum) option"
  rob_head :: "(nat \<times> seqnum) option"
  rob_squashIt :: "nat \<Rightarrow> seqnum option"
  rob_numInstsInROB :: nat
  rob_squashedSeqNum :: "nat \<Rightarrow> seqnum"
  rob_doneSquashing :: "nat \<Rightarrow> bool"
  rob_numThreads :: nat
  rob_stats :: rob_counters
  rob_removed :: "rob_inst list"

definition unsigned_sub :: "nat \<Rightarrow> nat \<Rightarrow> nat" where
  "unsigned_sub a b = nat ((int a - int b) mod 2 ^ 32)"

lemma unsigned_sub_exact: "b \<le> a \<Longrightarrow> a < 2 ^ 32 \<Longrightarrow> unsigned_sub a b = a - b"
  by (simp add: unsigned_sub_def nat_diff_distrib)

section \<open>Construction, entry limits and queries\<close>

definition rob_resetState :: "rob \<Rightarrow> rob" where
  "rob_resetState s = s\<lparr>
     rob_threadEntries := (\<lambda>tid. if tid < MaxThreads then 0 else rob_threadEntries s tid),
     rob_squashIt := (\<lambda>tid. if tid < MaxThreads then None else rob_squashIt s tid),
     rob_squashedSeqNum := (\<lambda>tid. if tid < MaxThreads then 0 else rob_squashedSeqNum s tid),
     rob_doneSquashing := (\<lambda>tid. if tid < MaxThreads then True else rob_doneSquashing s tid),
     rob_numInstsInROB := 0, rob_head := None, rob_tail := None\<rparr>"

definition rob_initial_max :: "smt_queue_policy \<Rightarrow> nat \<Rightarrow> int \<Rightarrow> nat \<Rightarrow> nat res" where
  "rob_initial_max policy entries threshold threads =
     (case policy of
        Dynamic \<Rightarrow> Inr entries
      | Partitioned \<Rightarrow> (if threads = 0 then Inl DivByZero else Inr (entries div threads))
      | Threshold \<Rightarrow> Inr (nat (threshold mod 2 ^ 32)))"

definition rob_new :: "smt_queue_policy \<Rightarrow> nat \<Rightarrow> nat \<Rightarrow> int \<Rightarrow> nat \<Rightarrow> rob res" where
  "rob_new policy entries width threshold threads =
     rbind (rob_initial_max policy entries threshold threads) (\<lambda>m.
     Inr (rob_resetState
       \<lparr>rob_robStatus = \<lambda>_. None, rob_robPolicy = policy, rob_activeThreads = [], rob_numEntries = entries,
        rob_threadEntries = \<lambda>_. 0, rob_maxEntries = \<lambda>tid. if tid < threads then m else 0,
        rob_instList = \<lambda>_. [], rob_squashWidth = width, rob_tail = None, rob_head = None, rob_squashIt = \<lambda>_. None,
        rob_numInstsInROB = 0, rob_squashedSeqNum = \<lambda>_. 0, rob_doneSquashing = \<lambda>_. True, rob_numThreads = threads,
        rob_stats = \<lparr>rc_reads = 0, rc_writes = 0, rc_squashedLoads = 0, rc_squashedRMWLoads = 0, rc_squashedRMWALoads = 0,
          rc_squashedStores = 0, rc_squashedRMWStores = 0, rc_squashedRMWAStores = 0\<rparr>,
        rob_removed = []\<rparr>))"

definition rob_setActiveThreads :: "nat list \<Rightarrow> rob \<Rightarrow> rob" where
  "rob_setActiveThreads at s = s\<lparr>rob_activeThreads := at\<rparr>"

definition rob_takeOverFrom :: "rob \<Rightarrow> rob" where
  "rob_takeOverFrom s = rob_resetState s"

definition rob_reset_thread :: "nat \<Rightarrow> nat \<Rightarrow> rob \<Rightarrow> rob" where
  "rob_reset_thread active_threads tid s =
     (if rob_robPolicy s = Partitioned then
        s\<lparr>rob_maxEntries := (rob_maxEntries s)(tid := rob_numEntries s div active_threads)\<rparr>
      else if rob_robPolicy s = Threshold \<and> active_threads = 1 then
        s\<lparr>rob_maxEntries := (rob_maxEntries s)(tid := rob_numEntries s)\<rparr>
      else s)"

definition rob_resetEntries :: "rob \<Rightarrow> rob" where
  "rob_resetEntries s =
     (if rob_robPolicy s \<noteq> Dynamic \<or> rob_numThreads s > 1 then
        fold (rob_reset_thread (length (rob_activeThreads s))) (rob_activeThreads s) s
      else s)"

definition rob_entryAmount :: "nat \<Rightarrow> rob \<Rightarrow> nat res" where
  "rob_entryAmount num_threads s =
     (if rob_robPolicy s = Partitioned then
        if num_threads = 0 then Inl DivByZero else Inr (rob_numEntries s div num_threads)
      else Inr 0)"

definition rob_countInsts :: "rob \<Rightarrow> nat" where
  "rob_countInsts s = sum_list (map (\<lambda>tid. length (rob_instList s tid)) [0..<rob_numThreads s])"

definition rob_isEmpty :: "rob \<Rightarrow> bool" where
  "rob_isEmpty s \<longleftrightarrow> rob_numInstsInROB s = 0"

definition rob_isEmpty_thread :: "nat \<Rightarrow> rob \<Rightarrow> bool" where
  "rob_isEmpty_thread tid s \<longleftrightarrow> rob_threadEntries s tid = 0"

definition rob_isFull :: "rob \<Rightarrow> bool" where
  "rob_isFull s \<longleftrightarrow> rob_numInstsInROB s = rob_numEntries s"

definition rob_isFull_thread :: "nat \<Rightarrow> rob \<Rightarrow> bool" where
  "rob_isFull_thread tid s \<longleftrightarrow> rob_threadEntries s tid = rob_numEntries s"

definition rob_numFreeEntries :: "rob \<Rightarrow> nat" where
  "rob_numFreeEntries s = unsigned_sub (rob_numEntries s) (rob_numInstsInROB s)"

definition rob_numFreeEntries_thread :: "nat \<Rightarrow> rob \<Rightarrow> nat" where
  "rob_numFreeEntries_thread tid s = unsigned_sub (rob_maxEntries s tid) (rob_threadEntries s tid)"

definition rob_drainSanityCheck :: "rob \<Rightarrow> unit res" where
  "rob_drainSanityCheck s =
     rbind (check (\<forall>tid<rob_numThreads s. rob_instList s tid = []) Assertion) (\<lambda>_.
     check (rob_isEmpty s) Assertion)"

definition rob_isHeadReady :: "nat \<Rightarrow> rob \<Rightarrow> (bool \<times> rob) res" where
  "rob_isHeadReady tid s =
     (let s = s\<lparr>rob_stats := (rob_stats s)\<lparr>rc_reads := rc_reads (rob_stats s) + 1\<rparr>\<rparr> in
      if rob_threadEntries s tid \<noteq> 0 then
        (case rob_instList s tid of [] \<Rightarrow> Inl NullDeref | i # _ \<Rightarrow> Inr (rb_CanCommit i, s))
      else Inr (False, s))"

fun rob_canCommit_loop :: "nat list \<Rightarrow> rob \<Rightarrow> (bool \<times> rob) res" where
  "rob_canCommit_loop [] s = Inr (False, s)"
| "rob_canCommit_loop (tid # ts) s =
     rbind (rob_isHeadReady tid s) (\<lambda>(ready, s). if ready then Inr (True, s) else rob_canCommit_loop ts s)"

definition rob_canCommit :: "rob \<Rightarrow> (bool \<times> rob) res" where
  "rob_canCommit s = rob_canCommit_loop (rob_activeThreads s) s"

text \<open>The inner \<open>None\<close> stands for \<open>dummyInst\<close>.\<close>

definition rob_readHeadInst :: "nat \<Rightarrow> rob \<Rightarrow> rob_inst option res" where
  "rob_readHeadInst tid s =
     (if rob_threadEntries s tid \<noteq> 0 then
        (case rob_instList s tid of
           [] \<Rightarrow> Inl NullDeref
         | i # _ \<Rightarrow> rbind (check (rb_RobEntry i) Assertion) (\<lambda>_. Inr (Some i)))
      else Inr None)"

definition rob_readTailInst :: "nat \<Rightarrow> rob \<Rightarrow> rob_inst res" where
  "rob_readTailInst tid s =
     (if rob_instList s tid = [] then Inl NullDeref else Inr (last (rob_instList s tid)))"

definition rob_findInst :: "nat \<Rightarrow> seqnum \<Rightarrow> rob \<Rightarrow> rob_inst option" where
  "rob_findInst tid squash_inst s = find (\<lambda>i. rb_seqNum i = squash_inst) (rob_instList s tid)"

section \<open>Insertion and retirement\<close>

fun rob_head_loop :: "(nat \<Rightarrow> rob_inst list) \<Rightarrow> nat list \<Rightarrow> (nat \<times> seqnum) option \<Rightarrow> (nat \<times> seqnum) option" where
  "rob_head_loop il [] h = h"
| "rob_head_loop il (tid # ts) h =
     (case il tid of
        [] \<Rightarrow> rob_head_loop il ts h
      | i # _ \<Rightarrow>
          (case h of
             None \<Rightarrow> rob_head_loop il ts (Some (tid, rb_seqNum i))
           | Some (t, lowest_num) \<Rightarrow>
               rob_head_loop il ts (if rb_seqNum i < lowest_num then Some (tid, rb_seqNum i) else Some (t, lowest_num))))"

definition rob_updateHead :: "rob \<Rightarrow> rob" where
  "rob_updateHead s = s\<lparr>rob_head := rob_head_loop (rob_instList s) (rob_activeThreads s) None\<rparr>"

fun rob_tail_loop :: "(nat \<Rightarrow> rob_inst list) \<Rightarrow> nat list \<Rightarrow> (nat \<times> seqnum) option \<Rightarrow> (nat \<times> seqnum) option" where
  "rob_tail_loop il [] h = h"
| "rob_tail_loop il (tid # ts) h =
     (if il tid = [] then rob_tail_loop il ts h
      else
        let i = last (il tid) in
        (case h of
           None \<Rightarrow> rob_tail_loop il ts (Some (tid, rb_seqNum i))
         | Some (t, n) \<Rightarrow>
             rob_tail_loop il ts (if rb_seqNum i > n then Some (tid, rb_seqNum i) else Some (t, n))))"

definition rob_updateTail :: "rob \<Rightarrow> rob" where
  "rob_updateTail s = s\<lparr>rob_tail := rob_tail_loop (rob_instList s) (rob_activeThreads s) None\<rparr>"

definition rob_count_write :: "rob \<Rightarrow> rob" where
  "rob_count_write s = s\<lparr>rob_stats := (rob_stats s)\<lparr>rc_writes := rc_writes (rob_stats s) + 1\<rparr>\<rparr>"

definition rob_insertInst :: "rob_inst \<Rightarrow> rob \<Rightarrow> rob res" where
  "rob_insertInst inst s =
     (let s = rob_count_write s in
      rbind (check (rob_numInstsInROB s \<noteq> rob_numEntries s) Assertion) (\<lambda>_.
      let tid = rb_threadNumber inst;
          l = rob_instList s tid @ [inst\<lparr>rb_RobEntry := True\<rparr>] in
      rbind (if rob_numInstsInROB s = 0 then
               rbind (check (rb_seqNum (hd l) = rb_seqNum inst) Assertion) (\<lambda>_.
               Inr (s\<lparr>rob_head := Some (tid, rb_seqNum (hd l))\<rparr>))
             else Inr s) (\<lambda>s.
      Inr (s\<lparr>rob_instList := (rob_instList s)(tid := l),
             rob_tail := Some (tid, rb_seqNum (last l)),
             rob_numInstsInROB := rob_numInstsInROB s + 1,
             rob_threadEntries := (rob_threadEntries s)(tid := rob_threadEntries s tid + 1)\<rparr>))))"

definition rob_retireHead :: "nat \<Rightarrow> rob \<Rightarrow> rob res" where
  "rob_retireHead tid s =
     (let s = rob_count_write s in
      rbind (check (rob_numInstsInROB s > 0) Assertion) (\<lambda>_.
      case rob_instList s tid of
        [] \<Rightarrow> Inl NullDeref
      | head_inst # l \<Rightarrow>
          rbind (check (rb_CanCommit head_inst) Assertion) (\<lambda>_.
          let s = s\<lparr>rob_instList := (rob_instList s)(tid := l),
                    rob_numInstsInROB := rob_numInstsInROB s - 1,
                    rob_threadEntries := (rob_threadEntries s)(tid := unsigned_sub (rob_threadEntries s tid) 1)\<rparr>;
              s = rob_updateHead s in
          Inr (s\<lparr>rob_removed := rob_removed s @ [head_inst\<lparr>rb_RobEntry := False, rb_Committed := True\<rparr>]\<rparr>))))"

section \<open>Squashing\<close>

definition rob_updateViolationMarker :: "seqnum \<Rightarrow> rob_inst list \<Rightarrow> rob_inst list" where
  "rob_updateViolationMarker squash_seq_num l =
     map (\<lambda>i. if rb_seqNum i > squash_seq_num then i\<lparr>rb_dueToMemOrder := False\<rparr> else i) l"

definition rob_mark_squashed :: "bool \<Rightarrow> rob_inst \<Rightarrow> rob_inst" where
  "rob_mark_squashed squashedDueToMemOrder i =
     (let i = i\<lparr>rb_Squashed := True, rb_CanCommit := True\<rparr> in
      if rb_isLoad i \<and> squashedDueToMemOrder then i\<lparr>rb_dueToMemOrder := True\<rparr> else i)"

definition rob_count_squashed :: "rob_inst \<Rightarrow> rob_counters \<Rightarrow> rob_counters" where
  "rob_count_squashed i c =
     (let c = (if rb_isLoad i then
                 c\<lparr>rc_squashedLoads := rc_squashedLoads c + 1,
                   rc_squashedRMWLoads := rc_squashedRMWLoads c + of_bool (rb_isRMW i),
                   rc_squashedRMWALoads := rc_squashedRMWALoads c + of_bool (rb_isRMWA i)\<rparr> else c) in
      if rb_isStore i then
        c\<lparr>rc_squashedStores := rc_squashedStores c + 1,
          rc_squashedRMWStores := rc_squashedRMWStores c + of_bool (rb_isRMW i),
          rc_squashedRMWAStores := rc_squashedRMWAStores c + of_bool (rb_isRMWA i)\<rparr> else c)"

text \<open>
  The loop of \<open>doSquash\<close> over the remaining width, the position of the squash iterator, \<open>robTailUpdate\<close>, the list and the
  counters.  It ends at a position, or at \<open>None\<close> when it has squashed the first instruction of the list.
\<close>

fun rob_squash_loop :: "nat \<Rightarrow> seqnum \<Rightarrow> bool \<Rightarrow> nat \<Rightarrow> bool \<Rightarrow> rob_inst list \<Rightarrow> rob_counters
    \<Rightarrow> nat option \<times> bool \<times> rob_inst list \<times> rob_counters" where
  "rob_squash_loop 0 sq mem p robTailUpdate l c = (Some p, robTailUpdate, l, c)"
| "rob_squash_loop (Suc n) sq mem p robTailUpdate l c =
     (if rb_seqNum (l ! p) > sq then
        let i = l ! p; l = l[p := rob_mark_squashed mem i]; c = rob_count_squashed i c in
        if p = 0 then (None, robTailUpdate, l, c)
        else rob_squash_loop n sq mem (p - 1) (robTailUpdate \<or> rb_seqNum i = rb_seqNum (last l)) l c
      else (Some p, robTailUpdate, l, c))"

definition rob_position :: "seqnum \<Rightarrow> rob_inst list \<Rightarrow> nat option" where
  "rob_position sn l =
     (let p = length (takeWhile (\<lambda>i. rb_seqNum i \<noteq> sn) l) in if p < length l then Some p else None)"

definition rob_end_squash :: "nat \<Rightarrow> rob \<Rightarrow> rob" where
  "rob_end_squash tid s =
     s\<lparr>rob_squashIt := (rob_squashIt s)(tid := None), rob_doneSquashing := (rob_doneSquashing s)(tid := True)\<rparr>"

definition numInstsToSquash :: "bool \<Rightarrow> rob \<Rightarrow> nat" where
  "numInstsToSquash isThreadExiting s = (if isThreadExiting then rob_numEntries s else rob_squashWidth s)"

definition rob_doSquash :: "bool \<Rightarrow> nat \<Rightarrow> bool \<Rightarrow> rob \<Rightarrow> rob res" where
  "rob_doSquash isThreadExiting tid squashedDueToMemOrder s =
     (let s = rob_count_write s; l = rob_instList s tid; sq = rob_squashedSeqNum s tid in
      case rob_squashIt s tid of
        None \<Rightarrow> Inl Assertion
      | Some it \<Rightarrow>
        (case rob_position it l of
           None \<Rightarrow> Inl NullDeref
         | Some p \<Rightarrow>
             if rb_seqNum (l ! p) < sq then Inr (rob_end_squash tid s)
             else
               let l = (if squashedDueToMemOrder then l else rob_updateViolationMarker sq l) in
               (case rob_squash_loop (numInstsToSquash isThreadExiting s) sq squashedDueToMemOrder p False l (rob_stats s) of
                  (None, _, l, c) \<Rightarrow>
                    Inr (rob_end_squash tid (s\<lparr>rob_instList := (rob_instList s)(tid := l), rob_stats := c\<rparr>))
                | (Some q, robTailUpdate, l, c) \<Rightarrow>
                    let s = s\<lparr>rob_instList := (rob_instList s)(tid := l), rob_stats := c,
                              rob_squashIt := (rob_squashIt s)(tid := Some (rb_seqNum (l ! q)))\<rparr>;
                        s = (if rb_seqNum (l ! q) \<le> sq then rob_end_squash tid s else s) in
                    Inr (if robTailUpdate then rob_updateTail s else s))))"

definition rob_squash :: "bool \<Rightarrow> seqnum \<Rightarrow> nat \<Rightarrow> bool \<Rightarrow> rob \<Rightarrow> rob res" where
  "rob_squash isThreadExiting squash_num tid squashedDueToMemOrder s =
     (if rob_isEmpty_thread tid s then Inr s
      else
        let s = s\<lparr>rob_robStatus := (rob_robStatus s)(tid := Some Rob_Squashing),
                  rob_doneSquashing := (rob_doneSquashing s)(tid := False),
                  rob_squashedSeqNum := (rob_squashedSeqNum s)(tid := squash_num)\<rparr> in
        if rob_instList s tid \<noteq> [] then
          rob_doSquash isThreadExiting tid squashedDueToMemOrder
            (s\<lparr>rob_squashIt := (rob_squashIt s)(tid := Some (rb_seqNum (last (rob_instList s tid))))\<rparr>)
        else Inr s)"

text \<open>
  What the commit stage does with a squashing thread at the start of each of its cycles: nothing once the thread is done,
  one more \<open>doSquash\<close> otherwise.  The list says for every cycle whether the thread is exiting.
\<close>

definition rob_squash_cycle :: "nat \<Rightarrow> bool \<Rightarrow> bool \<Rightarrow> rob \<Rightarrow> rob res" where
  "rob_squash_cycle tid squashingDueToMemOrder isThreadExiting s =
     (if rob_doneSquashing s tid then Inr s else rob_doSquash isThreadExiting tid squashingDueToMemOrder s)"

definition rob_squash_cycles :: "nat \<Rightarrow> bool \<Rightarrow> bool list \<Rightarrow> rob \<Rightarrow> rob res" where
  "rob_squash_cycles tid mem exs s = rfold (rob_squash_cycle tid mem) exs s"

text \<open>The commit stage marks an executed instruction, unless it has been squashed meanwhile.\<close>

definition rob_markCompleted :: "nat \<Rightarrow> seqnum \<Rightarrow> rob \<Rightarrow> rob" where
  "rob_markCompleted tid sn s = s\<lparr>rob_instList := (rob_instList s)(tid :=
     map (\<lambda>i. if rb_seqNum i = sn \<and> \<not> rb_Squashed i then i\<lparr>rb_CanCommit := True\<rparr> else i) (rob_instList s tid))\<rparr>"

section \<open>What a squash does to one list\<close>

abbreviation program_order :: "rob_inst list \<Rightarrow> bool" where
  "program_order \<equiv> sorted_wrt (\<lambda>i j. rb_seqNum i < rb_seqNum j)"

text \<open>The instruction as the violation marker leaves it, and as the whole squash leaves it.\<close>

definition unmarked :: "bool \<Rightarrow> seqnum \<Rightarrow> rob_inst \<Rightarrow> rob_inst" where
  "unmarked mem sq i = (if \<not> mem \<and> sq < rb_seqNum i then i\<lparr>rb_dueToMemOrder := False\<rparr> else i)"

definition squashed_to :: "bool \<Rightarrow> seqnum \<Rightarrow> rob_inst \<Rightarrow> rob_inst" where
  "squashed_to mem sq i = (if sq < rb_seqNum i then rob_mark_squashed mem (unmarked mem sq i) else i)"

text \<open>The list in the middle of a squash, with \<open>p\<close> instructions still to be visited.\<close>

definition half_squashed :: "bool \<Rightarrow> seqnum \<Rightarrow> nat \<Rightarrow> rob_inst list \<Rightarrow> rob_inst list" where
  "half_squashed mem sq p l = map (unmarked mem sq) (take p l) @ map (squashed_to mem sq) (drop p l)"

lemma unmarked_simps [simp]:
  "rb_seqNum (unmarked mem sq i) = rb_seqNum i" "rb_threadNumber (unmarked mem sq i) = rb_threadNumber i"
  "rb_RobEntry (unmarked mem sq i) = rb_RobEntry i" "unmarked mem sq (unmarked mem sq i) = unmarked mem sq i"
  "rb_seqNum i \<le> sq \<Longrightarrow> unmarked mem sq i = i"
  by (auto simp: unmarked_def)

lemma mark_squashed_simps [simp]:
  "rb_seqNum (rob_mark_squashed mem i) = rb_seqNum i" "rb_threadNumber (rob_mark_squashed mem i) = rb_threadNumber i"
  "rb_RobEntry (rob_mark_squashed mem i) = rb_RobEntry i"
  by (simp_all add: rob_mark_squashed_def Let_def)

lemma squashed_to_simps [simp]:
  "rb_seqNum (squashed_to mem sq i) = rb_seqNum i" "rb_threadNumber (squashed_to mem sq i) = rb_threadNumber i"
  "rb_RobEntry (squashed_to mem sq i) = rb_RobEntry i" "rb_seqNum i \<le> sq \<Longrightarrow> squashed_to mem sq i = i"
  "unmarked mem sq (squashed_to mem sq i) = squashed_to mem sq i"
  by (auto simp: squashed_to_def rob_mark_squashed_def unmarked_def Let_def)

lemma squashed_to_effect:
  "squashed_to mem sq = (\<lambda>i. if sq < rb_seqNum i
     then i\<lparr>rb_Squashed := True, rb_CanCommit := True, rb_dueToMemOrder := mem \<and> (rb_isLoad i \<or> rb_dueToMemOrder i)\<rparr> else i)"
  by (auto simp: squashed_to_def rob_mark_squashed_def unmarked_def Let_def fun_eq_iff)

lemma violation_marker: "(if mem then l else rob_updateViolationMarker sq l) = map (unmarked mem sq) l"
  by (cases mem) (simp_all add: rob_updateViolationMarker_def unmarked_def [abs_def])

lemma half_squashed_simps [simp]:
  "length (half_squashed mem sq p l) = length l"
  "half_squashed mem sq (length l) l = map (unmarked mem sq) l"
  "half_squashed mem sq 0 l = map (squashed_to mem sq) l"
  "map (unmarked mem sq) (half_squashed mem sq p l) = half_squashed mem sq p l"
  "map rb_seqNum (half_squashed mem sq p l) = map rb_seqNum l"
  by (simp_all add: half_squashed_def comp_def take_map drop_map) (metis append_take_drop_id map_append)

lemma half_squashed_nth: "p < length l \<Longrightarrow> half_squashed mem sq (Suc p) l ! p = unmarked mem sq (l ! p)"
  by (simp add: half_squashed_def nth_append)

lemma half_squashed_seq: "q < length l \<Longrightarrow> rb_seqNum (half_squashed mem sq p l ! q) = rb_seqNum (l ! q)"
  using half_squashed_simps(5) [of mem sq p l] by (metis half_squashed_simps(1) nth_map)

lemma half_squashed_step:
  assumes "p < length l" "sq < rb_seqNum (l ! p)"
  shows "(half_squashed mem sq (Suc p) l)[p := rob_mark_squashed mem (unmarked mem sq (l ! p))] = half_squashed mem sq p l"
  using assms by (simp add: half_squashed_def take_Suc_conv_app_nth list_update_append Cons_nth_drop_Suc [symmetric] squashed_to_def)

lemma program_order_le:
  "program_order l \<Longrightarrow> k \<le> q \<Longrightarrow> q < length l \<Longrightarrow> rb_seqNum (l ! k) \<le> rb_seqNum (l ! q)"
  by (cases "k = q") (auto simp: sorted_wrt_iff_nth_less intro: less_imp_le)

lemma half_squashed_done:
  assumes "program_order l" "q < length l" "rb_seqNum (l ! q) \<le> sq"
  shows "half_squashed mem sq (Suc q) l = map (squashed_to mem sq) l"
proof -
  have old: "rb_seqNum i \<le> sq" if "i \<in> set (take (Suc q) l)" for i
  proof -
    from that obtain k where "k < length (take (Suc q) l)" "take (Suc q) l ! k = i" unfolding in_set_conv_nth by blast
    then have k: "k \<le> q" "i = l ! k" by simp_all
    then have "rb_seqNum i \<le> rb_seqNum (l ! q)" using program_order_le [OF assms(1) _ assms(2)] by simp
    then show ?thesis using assms(3) by (rule order_trans)
  qed
  have "map (unmarked mem sq) (take (Suc q) l) = map (squashed_to mem sq) (take (Suc q) l)"
    by (rule map_cong) (simp_all add: old)
  then have "half_squashed mem sq (Suc q) l = map (squashed_to mem sq) (take (Suc q) l @ drop (Suc q) l)"
    unfolding half_squashed_def map_append by (rule arg_cong)
  then show ?thesis by (simp only: append_take_drop_id)
qed

lemma squash_loop_half:
  assumes "p < length l" "rob_squash_loop n sq mem p tu (half_squashed mem sq (Suc p) l) c = (r, tu', l', c')"
  shows "(r = None \<and> p < n \<and> l' = half_squashed mem sq 0 l) \<or>
    (\<exists>q. r = Some q \<and> q \<le> p \<and> l' = half_squashed mem sq (Suc q) l \<and> (rb_seqNum (l ! q) \<le> sq \<or> p = q + n))"
  using assms
proof (induction n arbitrary: p tu c)
  case (Suc n)
  show ?case
  proof (cases "sq < rb_seqNum (l ! p)")
    case younger: True
    show ?thesis
    proof (cases p)
      case 0
      then show ?thesis using Suc.prems younger half_squashed_step [OF Suc.prems(1) younger]
        by (auto simp: half_squashed_nth Let_def)
    next
      case (Suc p0)
      then have "\<exists>tu0 c0. rob_squash_loop n sq mem p0 tu0 (half_squashed mem sq (Suc p0) l) c0 = (r, tu', l', c')"
        using Suc.prems younger half_squashed_step [OF Suc.prems(1) younger] by (auto simp: half_squashed_nth Let_def)
      then show ?thesis using Suc.IH [of p0] Suc Suc.prems(1) by fastforce
    qed
  next
    case False
    then show ?thesis using Suc.prems by (auto simp: half_squashed_nth)
  qed
qed auto

lemma position_nth:
  assumes "program_order l" "p < length l"
  shows "rob_position (rb_seqNum (l ! p)) l = Some p"
proof -
  have "takeWhile (\<lambda>i. rb_seqNum i \<noteq> rb_seqNum (l ! p)) l = take p l"
    using assms by (intro takeWhile_eq_take_P_nth) (auto simp: sorted_wrt_iff_nth_less dest: less_imp_neq)
  then show ?thesis using assms(2) by (simp add: rob_position_def)
qed

lemma program_order_cong: "map rb_seqNum l = map rb_seqNum l' \<Longrightarrow> program_order l = program_order l'"
  by (simp flip: sorted_wrt_map [of "(<)" rb_seqNum])

section \<open>One call of the squash\<close>

text \<open>Everything a squash of thread \<open>tid\<close> leaves as it is.\<close>

definition squash_frame :: "nat \<Rightarrow> rob \<Rightarrow> rob \<Rightarrow> bool" where
  "squash_frame tid s s' \<longleftrightarrow> rob_robPolicy s' = rob_robPolicy s \<and> rob_activeThreads s' = rob_activeThreads s \<and>
     rob_numEntries s' = rob_numEntries s \<and> rob_threadEntries s' = rob_threadEntries s \<and> rob_maxEntries s' = rob_maxEntries s \<and>
     rob_squashWidth s' = rob_squashWidth s \<and> rob_head s' = rob_head s \<and> rob_numInstsInROB s' = rob_numInstsInROB s \<and>
     rob_numThreads s' = rob_numThreads s \<and> rob_removed s' = rob_removed s \<and>
     (\<forall>t. t \<noteq> tid \<longrightarrow> rob_instList s' t = rob_instList s t \<and> rob_squashIt s' t = rob_squashIt s t \<and>
        rob_doneSquashing s' t = rob_doneSquashing s t \<and> rob_squashedSeqNum s' t = rob_squashedSeqNum s t \<and>
        rob_robStatus s' t = rob_robStatus s t)"

text \<open>The squash of the list \<open>l\<close> down to \<open>sq\<close> has reached position \<open>p\<close>, or is complete.\<close>

definition squash_at :: "bool \<Rightarrow> seqnum \<Rightarrow> nat \<Rightarrow> rob_inst list \<Rightarrow> nat \<Rightarrow> rob \<Rightarrow> bool" where
  "squash_at mem sq tid l p s \<longleftrightarrow> p < length l \<and> rob_squashIt s tid = Some (rb_seqNum (l ! p)) \<and> \<not> rob_doneSquashing s tid \<and>
     rob_squashedSeqNum s tid = sq \<and> map (unmarked mem sq) (rob_instList s tid) = half_squashed mem sq (Suc p) l"

definition squash_complete :: "bool \<Rightarrow> seqnum \<Rightarrow> nat \<Rightarrow> rob_inst list \<Rightarrow> rob \<Rightarrow> bool" where
  "squash_complete mem sq tid l s \<longleftrightarrow> rob_squashIt s tid = None \<and> rob_doneSquashing s tid \<and>
     rob_instList s tid = map (squashed_to mem sq) l"

lemma squash_frame_trans: "squash_frame tid s s' \<Longrightarrow> squash_frame tid s' s'' \<Longrightarrow> squash_frame tid s s''"
  by (simp add: squash_frame_def)

lemma squash_frame_width: "squash_frame tid s s' \<Longrightarrow> numInstsToSquash ex s' = numInstsToSquash ex s"
  by (simp add: squash_frame_def numInstsToSquash_def)

lemma count_write_simps [simp]:
  "rob_instList (rob_count_write s) = rob_instList s" "rob_squashedSeqNum (rob_count_write s) = rob_squashedSeqNum s"
  "rob_squashIt (rob_count_write s) = rob_squashIt s" "numInstsToSquash ex (rob_count_write s) = numInstsToSquash ex s"
  "rob_doneSquashing (rob_count_write s) = rob_doneSquashing s" "rob_numInstsInROB (rob_count_write s) = rob_numInstsInROB s"
  "rob_numEntries (rob_count_write s) = rob_numEntries s" "rob_threadEntries (rob_count_write s) = rob_threadEntries s"
  by (simp_all add: rob_count_write_def numInstsToSquash_def)

lemma squash_at_position:
  assumes "program_order l" "squash_at mem sq tid l p s"
  shows "map rb_seqNum (rob_instList s tid) = map rb_seqNum l" "rob_position (rb_seqNum (l ! p)) (rob_instList s tid) = Some p"
    "rb_seqNum (rob_instList s tid ! p) = rb_seqNum (l ! p)" "p < length l"
proof -
  have "map rb_seqNum (map (unmarked mem sq) (rob_instList s tid)) = map rb_seqNum l" and p: "p < length l"
    using assms(2) by (simp_all add: squash_at_def)
  then show seqs: "map rb_seqNum (rob_instList s tid) = map rb_seqNum l" by (simp add: comp_def)
  from p seqs show nth: "rb_seqNum (rob_instList s tid ! p) = rb_seqNum (l ! p)" by (metis length_map nth_map)
  have "program_order (rob_instList s tid)" "p < length (rob_instList s tid)"
    using assms(1) p program_order_cong [OF seqs] map_eq_imp_length_eq [OF seqs] by simp_all
  from position_nth [OF this] show "rob_position (rb_seqNum (l ! p)) (rob_instList s tid) = Some p" by (simp add: nth)
  show "p < length l" by (rule p)
qed

lemma doSquash_unfold:
  assumes "rob_squashIt s tid = Some it" "rob_position it (rob_instList s tid) = Some p" "sq = rob_squashedSeqNum s tid"
    "sq \<le> rb_seqNum (rob_instList s tid ! p)"
    "rob_squash_loop (numInstsToSquash ex s) sq mem p False (map (unmarked mem sq) (rob_instList s tid)) (rob_stats (rob_count_write s)) =
      (r, tu, l', c)"
  shows "rob_doSquash ex tid mem s =
    (case r of
       None \<Rightarrow> Inr (rob_end_squash tid ((rob_count_write s)\<lparr>rob_instList := (rob_instList s)(tid := l'), rob_stats := c\<rparr>))
     | Some q \<Rightarrow>
         let s = (rob_count_write s)\<lparr>rob_instList := (rob_instList s)(tid := l'), rob_stats := c,
                    rob_squashIt := (rob_squashIt s)(tid := Some (rb_seqNum (l' ! q)))\<rparr>;
             s = (if rb_seqNum (l' ! q) \<le> sq then rob_end_squash tid s else s) in
         Inr (if tu then rob_updateTail s else s))"
  using assms by (simp add: rob_doSquash_def Let_def violation_marker not_less split: option.split)

lemma doSquash_progress:
  assumes "program_order l" "squash_at mem sq tid l p s" "sq \<le> rb_seqNum (l ! p)"
  shows "\<exists>s'. rob_doSquash ex tid mem s = Inr s' \<and> squash_frame tid s s' \<and>
    (squash_complete mem sq tid l s' \<or>
     (\<exists>q. squash_at mem sq tid l q s' \<and> sq < rb_seqNum (l ! q) \<and> p = q + numInstsToSquash ex s))"
proof -
  note pos = squash_at_position [OF assms(1,2)]
  let ?s = "rob_count_write s"
  obtain r tu l' c where loop: "rob_squash_loop (numInstsToSquash ex s) sq mem p False (half_squashed mem sq (Suc p) l) (rob_stats ?s) = (r, tu, l', c)"
    by (cases "rob_squash_loop (numInstsToSquash ex s) sq mem p False (half_squashed mem sq (Suc p) l) (rob_stats ?s)")
  have st: "rob_squashIt s tid = Some (rb_seqNum (l ! p))" "rob_squashedSeqNum s tid = sq"
    "map (unmarked mem sq) (rob_instList s tid) = half_squashed mem sq (Suc p) l"
    using assms(2) by (simp_all add: squash_at_def)
  note ds = doSquash_unfold [OF st(1) pos(2) st(2) [symmetric] _ loop [folded st(3)], unfolded pos(3), OF assms(3)]
  from squash_loop_half [OF pos(4) loop] consider
      (first) "r = None" "l' = half_squashed mem sq 0 l"
    | (stop) q where "r = Some q" "q \<le> p" "l' = half_squashed mem sq (Suc q) l" "rb_seqNum (l ! q) \<le> sq \<or> p = q + numInstsToSquash ex s" by blast
  then show ?thesis
  proof cases
    case first
    then show ?thesis
      by (simp add: ds squash_frame_def squash_complete_def rob_end_squash_def rob_count_write_def)
  next
    case stop
    then have q: "q < length l" using pos(4) by simp
    show ?thesis
    proof (cases "rb_seqNum (l ! q) \<le> sq")
      case True
      then show ?thesis using stop half_squashed_done [OF assms(1) q True, of mem] q
        by (auto simp: ds squash_frame_def squash_complete_def rob_end_squash_def rob_count_write_def half_squashed_seq Let_def
            rob_updateTail_def)
    next
      case False
      moreover from this have "sq < rb_seqNum (l ! q)" by simp
      ultimately show ?thesis using stop q assms(2)
        by (cases tu) (simp_all add: ds squash_frame_def squash_at_def rob_count_write_def half_squashed_seq Let_def
            rob_updateTail_def disjI2 exI [of _ q])
    qed
  qed
qed

lemma doSquash_older:
  assumes "program_order l" "squash_at mem sq tid l p s" "rb_seqNum (l ! p) < sq"
  shows "rob_doSquash ex tid mem s = Inr (rob_end_squash tid (rob_count_write s))"
  using assms(2,3) squash_at_position [OF assms(1,2)] by (simp add: rob_doSquash_def squash_at_def)

lemma squashed_all_older:
  assumes "program_order l" "l \<noteq> []" "rb_seqNum (last l) \<le> sq"
  shows "map (squashed_to mem sq) l = l"
proof (rule map_idI)
  fix i assume "i \<in> set l"
  then obtain k where k: "k < length l" "l ! k = i" unfolding in_set_conv_nth by blast
  then have "rb_seqNum i \<le> rb_seqNum (last l)"
    using program_order_le [OF assms(1), of k "length l - 1"] assms(2) by (simp add: last_conv_nth)
  then show "squashed_to mem sq i = i" using assms(3) by simp
qed

lemma squash_start:
  assumes "program_order (rob_instList s tid)" "rob_threadEntries s tid = length (rob_instList s tid)" "rob_instList s tid \<noteq> []"
  shows "\<exists>s'. rob_squash ex sq tid mem s = Inr s' \<and> squash_frame tid s s' \<and>
    (squash_complete mem sq tid (rob_instList s tid) s' \<or>
     (\<exists>q. squash_at mem sq tid (rob_instList s tid) q s' \<and> sq < rb_seqNum (rob_instList s tid ! q) \<and>
       length (rob_instList s tid) = Suc (q + numInstsToSquash ex s)))"
proof -
  let ?l = "rob_instList s tid" and ?p = "length (rob_instList s tid) - 1"
  let ?s = "s\<lparr>rob_robStatus := (rob_robStatus s)(tid := Some Rob_Squashing), rob_doneSquashing := (rob_doneSquashing s)(tid := False),
    rob_squashedSeqNum := (rob_squashedSeqNum s)(tid := sq), rob_squashIt := (rob_squashIt s)(tid := Some (rb_seqNum (last ?l)))\<rparr>"
  have p: "?p < length ?l" "Suc ?p = length ?l" "?l ! ?p = last ?l" using assms(3) by (simp_all add: last_conv_nth)
  have start: "squash_at mem sq tid ?l ?p ?s"
    using p unfolding squash_at_def p(2) half_squashed_simps by simp
  have sq: "rob_squash ex sq tid mem s = rob_doSquash ex tid mem ?s"
    using assms(2,3) by (simp add: rob_squash_def rob_isEmpty_thread_def)
  have fr: "squash_frame tid s ?s" by (simp add: squash_frame_def)
  show ?thesis
  proof (cases "sq \<le> rb_seqNum (?l ! ?p)")
    case True
    from doSquash_progress [OF assms(1) start True, of ex] obtain s' where
      s': "rob_doSquash ex tid mem ?s = Inr s'" "squash_frame tid ?s s'" "squash_complete mem sq tid ?l s' \<or>
       (\<exists>q. squash_at mem sq tid ?l q s' \<and> sq < rb_seqNum (?l ! q) \<and> ?p = q + numInstsToSquash ex ?s)" by blast
    have "numInstsToSquash ex ?s = numInstsToSquash ex s" by (rule squash_frame_width [OF fr])
    then have "squash_complete mem sq tid ?l s' \<or>
       (\<exists>q. squash_at mem sq tid ?l q s' \<and> sq < rb_seqNum (?l ! q) \<and> length ?l = Suc (q + numInstsToSquash ex s))"
      using s'(3) p(2) by metis
    then show ?thesis using sq s'(1) squash_frame_trans [OF fr s'(2)] by simp
  next
    case False
    then have older: "rb_seqNum (?l ! ?p) < sq" by simp
    have "map (squashed_to mem sq) ?l = ?l" using squashed_all_older [OF assms(1,3)] older p(3) by simp
    then have "squash_complete mem sq tid ?l (rob_end_squash tid (rob_count_write ?s))"
      by (simp add: squash_complete_def rob_end_squash_def)
    moreover note doSquash_older [OF assms(1) start older, of ex]
    moreover have "squash_frame tid ?s (rob_end_squash tid (rob_count_write ?s))"
      by (simp add: squash_frame_def rob_end_squash_def rob_count_write_def)
    ultimately show ?thesis using sq squash_frame_trans [OF fr] by auto
  qed
qed

lemma older_count:
  assumes "program_order l" "p < length l" "sq < rb_seqNum (l ! p)"
  shows "length (filter (\<lambda>i. rb_seqNum i \<le> sq) l) \<le> p"
proof -
  have "filter (\<lambda>i. rb_seqNum i \<le> sq) (drop p l) = []"
  proof (clarsimp simp: filter_empty_conv in_set_conv_nth not_le)
    fix k assume "k < length l - p"
    then show "sq < rb_seqNum (l ! (p + k))"
      using assms by (cases k) (auto simp: sorted_wrt_iff_nth_less intro: less_trans)
  qed
  then have "filter (\<lambda>i. rb_seqNum i \<le> sq) l = filter (\<lambda>i. rb_seqNum i \<le> sq) (take p l)"
    by (metis append.right_neutral append_take_drop_id filter_append)
  then show ?thesis using length_filter_le [of "\<lambda>i. rb_seqNum i \<le> sq" "take p l"] by simp
qed

lemma squash_cycles_done: "rob_doneSquashing s tid \<Longrightarrow> rob_squash_cycles tid mem exs s = Inr s"
  by (induction exs) (simp_all add: rob_squash_cycles_def rob_squash_cycle_def)

lemma squash_cycles_end:
  assumes "program_order l" "squash_at mem sq tid l p s" "sq < rb_seqNum (l ! p)" "length l \<le> rob_numEntries s"
    "Suc p - length (filter (\<lambda>i. rb_seqNum i \<le> sq) l) \<le> rob_squashWidth s * length exs"
  shows "\<exists>s'. rob_squash_cycles tid mem exs s = Inr s' \<and> squash_frame tid s s' \<and> squash_complete mem sq tid l s'"
  using assms(2-)
proof (induction exs arbitrary: s p)
  case Nil
  have "p < length l" using Nil.prems(1) by (simp add: squash_at_def)
  from older_count [OF assms(1) this Nil.prems(2)] Nil.prems(4) show ?case by simp
next
  case (Cons ex exs)
  from doSquash_progress [OF assms(1) Cons.prems(1) less_imp_le [OF Cons.prems(2)], of ex] obtain s' where
    s': "rob_doSquash ex tid mem s = Inr s'" "squash_frame tid s s'" "squash_complete mem sq tid l s' \<or>
       (\<exists>q. squash_at mem sq tid l q s' \<and> sq < rb_seqNum (l ! q) \<and> p = q + numInstsToSquash ex s)" by blast
  have first: "rob_squash_cycles tid mem (ex # exs) s = rob_squash_cycles tid mem exs s'"
    using Cons.prems(1) s'(1) by (simp add: rob_squash_cycles_def rob_squash_cycle_def squash_at_def)
  from s'(3) show ?case
  proof (elim disjE exE conjE)
    assume fin: "squash_complete mem sq tid l s'"
    then have "rob_squash_cycles tid mem exs s' = Inr s'" by (simp add: squash_complete_def squash_cycles_done)
    then show ?thesis using first fin s'(2) by simp
  next
    fix q assume q: "squash_at mem sq tid l q s'" "sq < rb_seqNum (l ! q)" "p = q + numInstsToSquash ex s"
    have "p < length l" using Cons.prems(1) by (simp add: squash_at_def)
    then have ex: "\<not> ex" using q(3) Cons.prems(3) by (auto simp: numInstsToSquash_def)
    have same: "rob_numEntries s' = rob_numEntries s" "rob_squashWidth s' = rob_squashWidth s"
      using s'(2) by (simp_all add: squash_frame_def)
    have "Suc q - length (filter (\<lambda>i. rb_seqNum i \<le> sq) l) \<le> rob_squashWidth s' * length exs"
      using Cons.prems(4) q(3) ex same by (simp add: numInstsToSquash_def)
    from Cons.IH [OF q(1,2) _ this] Cons.prems(3) same obtain s'' where
      "rob_squash_cycles tid mem exs s' = Inr s''" "squash_frame tid s' s''" "squash_complete mem sq tid l s''" by auto
    then show ?thesis using first squash_frame_trans [OF s'(2)] by auto
  qed
qed

section \<open>The calls of the commit stage and the invariant\<close>

datatype rob_call =
    InsertInst rob_inst
  | RetireHead nat
  | MarkCompleted nat seqnum
  | StartSquash bool seqnum nat bool
  | SquashCycle bool nat bool
  | ResetEntries
  | SetActive "nat list"
  | TakeOver

fun rob_exec :: "rob_call \<Rightarrow> rob \<Rightarrow> rob res" where
  "rob_exec (InsertInst i) s = rob_insertInst i s"
| "rob_exec (RetireHead tid) s = rob_retireHead tid s"
| "rob_exec (MarkCompleted tid sn) s = Inr (rob_markCompleted tid sn s)"
| "rob_exec (StartSquash ex sn tid mem) s = rob_squash ex sn tid mem s"
| "rob_exec (SquashCycle ex tid mem) s = rob_squash_cycle tid mem ex s"
| "rob_exec ResetEntries s = Inr (rob_resetEntries s)"
| "rob_exec (SetActive at) s = Inr (rob_setActiveThreads at s)"
| "rob_exec TakeOver s = Inr (rob_takeOverFrom s)"

text \<open>
  What the stages around the buffer guarantee: sequence numbers grow, a thread with instructions in the buffer is active,
  nothing is inserted into a full buffer, only a ready head is retired and not while its thread is being squashed, and the
  buffer is taken over only after a drain.
\<close>

fun rob_allowed :: "rob_call \<Rightarrow> rob \<Rightarrow> rob_inst list \<Rightarrow> bool" where
  "rob_allowed (InsertInst i) s log \<longleftrightarrow>
     rb_threadNumber i \<in> set (rob_activeThreads s) \<and> \<not> rob_isFull s \<and> (\<forall>j\<in>set log. rb_seqNum j < rb_seqNum i)"
| "rob_allowed (RetireHead tid) s log \<longleftrightarrow>
     (case rob_isHeadReady tid s of Inl _ \<Rightarrow> False | Inr (ready, _) \<Rightarrow> ready) \<and> rob_doneSquashing s tid"
| "rob_allowed (SetActive at) s log \<longleftrightarrow>
     distinct at \<and> list_all (\<lambda>t. t < rob_numThreads s) at \<and> list_all (\<lambda>t. rob_instList s t \<noteq> [] \<longrightarrow> t \<in> set at) (rob_activeThreads s)"
| "rob_allowed TakeOver s log \<longleftrightarrow> rob_drainSanityCheck s = Inr ()"
| "rob_allowed _ s log \<longleftrightarrow> True"

fun rob_log :: "rob_call \<Rightarrow> rob_inst list \<Rightarrow> rob_inst list" where
  "rob_log (InsertInst i) log = log @ [i]"
| "rob_log _ log = log"

inductive rob_reach :: "rob \<Rightarrow> rob_inst list \<Rightarrow> bool" where
  start: "rob_new policy entries width threshold threads = Inr s \<Longrightarrow> entries < 2 ^ 32 \<Longrightarrow> threads \<le> MaxThreads \<Longrightarrow> rob_reach s []"
| step: "rob_reach s log \<Longrightarrow> rob_allowed c s log \<Longrightarrow> rob_exec c s = Inr s' \<Longrightarrow> rob_reach s' (rob_log c log)"

definition counts_ok :: "rob \<Rightarrow> bool" where
  "counts_ok s \<longleftrightarrow> (\<forall>t. rob_threadEntries s t = length (rob_instList s t)) \<and>
     rob_numInstsInROB s = (\<Sum>t<MaxThreads. length (rob_instList s t)) \<and>
     rob_numInstsInROB s \<le> rob_numEntries s \<and> rob_numEntries s < 2 ^ 32"

definition threads_ok :: "rob \<Rightarrow> bool" where
  "threads_ok s \<longleftrightarrow> rob_numThreads s \<le> MaxThreads \<and> distinct (rob_activeThreads s) \<and>
     (\<forall>t\<in>set (rob_activeThreads s). t < rob_numThreads s) \<and> (\<forall>t. rob_instList s t \<noteq> [] \<longrightarrow> t \<in> set (rob_activeThreads s))"

definition order_ok :: "rob \<Rightarrow> bool" where
  "order_ok s \<longleftrightarrow> (\<forall>t. program_order (rob_instList s t) \<and> (\<forall>i\<in>set (rob_instList s t). rb_threadNumber i = t \<and> rb_RobEntry i))"

definition iterators_ok :: "rob \<Rightarrow> bool" where
  "iterators_ok s \<longleftrightarrow> (\<forall>t. (rob_squashIt s t = None \<longleftrightarrow> rob_doneSquashing s t) \<and>
     (\<forall>sn. rob_squashIt s t = Some sn \<longrightarrow> sn \<in> rb_seqNum ` set (rob_instList s t)))"

definition points_to_oldest :: "(nat \<Rightarrow> rob_inst list) \<Rightarrow> (nat \<times> seqnum) option \<Rightarrow> bool" where
  "points_to_oldest il h \<longleftrightarrow> (case h of
      None \<Rightarrow> (\<forall>t. il t = [])
    | Some (t, n) \<Rightarrow> il t \<noteq> [] \<and> n = rb_seqNum (hd (il t)) \<and> (\<forall>u. \<forall>j\<in>set (il u). n \<le> rb_seqNum j))"

definition head_ok :: "rob \<Rightarrow> bool" where
  "head_ok s \<longleftrightarrow> points_to_oldest (rob_instList s) (rob_head s)"

definition rob_inv :: "rob \<Rightarrow> bool" where
  "rob_inv s \<longleftrightarrow> counts_ok s \<and> threads_ok s \<and> order_ok s \<and> iterators_ok s \<and> head_ok s"

text \<open>What has left each thread's list, followed by what is in it, is what was put into it.\<close>

definition conserved :: "rob \<Rightarrow> rob_inst list \<Rightarrow> bool" where
  "conserved s log \<longleftrightarrow> (\<forall>t. map rb_seqNum (filter (\<lambda>i. rb_threadNumber i = t) (rob_removed s) @ rob_instList s t) =
     map rb_seqNum (filter (\<lambda>i. rb_threadNumber i = t) log)) \<and>
     (\<forall>i\<in>set (rob_removed s). rb_CanCommit i \<and> rb_Committed i \<and> \<not> rb_RobEntry i)"

lemmas rob_inv_defs = rob_inv_def counts_ok_def threads_ok_def order_ok_def iterators_ok_def head_ok_def

definition rob_key :: "rob_inst \<Rightarrow> seqnum \<times> nat \<times> bool" where
  "rob_key i = (rb_seqNum i, rb_threadNumber i, rb_RobEntry i)"

lemma rob_key_seqs:
  assumes "map rob_key l = map rob_key l'"
  shows "map rb_seqNum l = map rb_seqNum l'" "length l = length l'" "(l = []) = (l' = [])"
    "(\<forall>i\<in>set l. P (rob_key i)) = (\<forall>i\<in>set l'. P (rob_key i))"
proof -
  show "map rb_seqNum l = map rb_seqNum l'" using arg_cong [OF assms, of "map fst"] by (simp add: comp_def rob_key_def)
  show "length l = length l'" by (rule map_eq_imp_length_eq [OF assms])
  then show "(l = []) = (l' = [])" by auto
  have "(\<forall>i\<in>set l. P (rob_key i)) = list_all P (map rob_key l)" for l by (simp add: list_all_iff)
  then show "(\<forall>i\<in>set l. P (rob_key i)) = (\<forall>i\<in>set l'. P (rob_key i))" using assms by simp
qed

text \<open>The invariant and the conservation of instructions depend on the lists through these keys only.\<close>

lemma rob_inv_keys:
  assumes inv: "rob_inv s" and fr: "squash_frame tid s s'"
    and key: "map rob_key (rob_instList s' tid) = map rob_key (rob_instList s tid)"
    and it: "rob_squashIt s' tid = None \<longleftrightarrow> rob_doneSquashing s' tid"
      "\<And>sn. rob_squashIt s' tid = Some sn \<Longrightarrow> sn \<in> rb_seqNum ` set (rob_instList s' tid)"
  shows "rob_inv s'"
proof -
  have keys: "map rob_key (rob_instList s' t) = map rob_key (rob_instList s t)" for t
    using key fr by (cases "t = tid") (simp_all add: squash_frame_def)
  note seqs = rob_key_seqs(1) [OF keys] and len = rob_key_seqs(2) [OF keys] and nil = rob_key_seqs(3) [OF keys]
  have c: "counts_ok s'" using inv fr by (simp add: rob_inv_def counts_ok_def squash_frame_def len)
  have t: "threads_ok s'" using inv fr by (simp add: rob_inv_def threads_ok_def squash_frame_def nil)
  have "(\<forall>i\<in>set (rob_instList s' t). rb_threadNumber i = t \<and> rb_RobEntry i) \<longleftrightarrow>
      (\<forall>i\<in>set (rob_instList s t). rb_threadNumber i = t \<and> rb_RobEntry i)" for t
    using rob_key_seqs(4) [OF keys [of t], of "\<lambda>k. fst (snd k) = t \<and> snd (snd k)"] by (simp add: rob_key_def)
  then have o: "order_ok s'" using inv by (simp add: rob_inv_def order_ok_def program_order_cong [OF seqs])
  have i: "iterators_ok s'" unfolding iterators_ok_def
  proof (intro allI)
    fix t show "(rob_squashIt s' t = None \<longleftrightarrow> rob_doneSquashing s' t) \<and>
      (\<forall>sn. rob_squashIt s' t = Some sn \<longrightarrow> sn \<in> rb_seqNum ` set (rob_instList s' t))"
      using inv fr it by (cases "t = tid") (simp_all add: rob_inv_def iterators_ok_def squash_frame_def)
  qed
  have first: "rob_instList s t \<noteq> [] \<Longrightarrow> rb_seqNum (hd (rob_instList s' t)) = rb_seqNum (hd (rob_instList s t))" for t
    using seqs [of t] by (cases "rob_instList s t"; cases "rob_instList s' t") simp_all
  have low: "(\<forall>j\<in>set (rob_instList s' t). n \<le> rb_seqNum j) = (\<forall>j\<in>set (rob_instList s t). n \<le> rb_seqNum j)" for t n
    using rob_key_seqs(4) [OF keys [of t], of "\<lambda>k. n \<le> fst k"] by (simp add: rob_key_def)
  have "head_ok s'" using inv fr by (simp add: rob_inv_def head_ok_def points_to_oldest_def squash_frame_def first low nil split: option.splits prod.splits)
  with c t o i show ?thesis by (simp add: rob_inv_def)
qed

lemma conserved_keys:
  assumes "conserved s log" "squash_frame tid s s'" "map rob_key (rob_instList s' tid) = map rob_key (rob_instList s tid)"
  shows "conserved s' log"
proof -
  have "map rb_seqNum (rob_instList s' t) = map rb_seqNum (rob_instList s t)" for t
    using rob_key_seqs(1) [OF assms(3)] assms(2) by (cases "t = tid") (simp_all add: squash_frame_def)
  then show ?thesis using assms(1,2) by (simp add: conserved_def squash_frame_def)
qed

section \<open>Every allowed call succeeds and keeps the invariant\<close>

definition rob_good :: "rob \<Rightarrow> rob_inst list \<Rightarrow> bool" where
  "rob_good s log \<longleftrightarrow> rob_inv s \<and> conserved s log"

lemma squash_loop_keys:
  assumes "p < length l" "rob_squash_loop n sq mem p tu l c = (r, tu', l', c')"
  shows "map rob_key l' = map rob_key l \<and> (\<forall>q. r = Some q \<longrightarrow> q < length l)"
  using assms
proof (induction n arbitrary: p tu l c)
  case (Suc n)
  have "rob_key (rob_mark_squashed mem (l ! p)) = map rob_key l ! p" using Suc.prems(1) by (simp add: rob_key_def)
  then have key: "map rob_key (l[p := rob_mark_squashed mem (l ! p)]) = map rob_key l" by (simp only: map_update list_update_id)
  show ?case
  proof (cases "sq < rb_seqNum (l ! p) \<and> p \<noteq> 0")
    case True
    then have "p - 1 < length (l[p := rob_mark_squashed mem (l ! p)])" using Suc.prems(1) by simp
    from Suc.IH [OF this] True Suc.prems(2) key show ?thesis by (simp add: Let_def) blast
  next
    case False
    then show ?thesis using Suc.prems key by (auto simp: Let_def split: if_splits)
  qed
qed auto

lemma position_member:
  assumes "sn \<in> rb_seqNum ` set l"
  obtains p where "rob_position sn l = Some p" "p < length l"
proof -
  have "length (takeWhile (\<lambda>i. rb_seqNum i \<noteq> sn) l) < length l"
    using assms by (induction l) auto
  then show thesis by (intro that) (simp_all add: rob_position_def)
qed

lemma doSquash_keys:
  assumes "rob_squashIt s tid = Some sn" "sn \<in> rb_seqNum ` set (rob_instList s tid)" "\<not> rob_doneSquashing s tid"
  shows "\<exists>s'. rob_doSquash ex tid mem s = Inr s' \<and> squash_frame tid s s' \<and>
    map rob_key (rob_instList s' tid) = map rob_key (rob_instList s tid) \<and>
    (rob_squashIt s' tid = None \<longleftrightarrow> rob_doneSquashing s' tid) \<and>
    (\<forall>sn. rob_squashIt s' tid = Some sn \<longrightarrow> sn \<in> rb_seqNum ` set (rob_instList s' tid))"
proof -
  let ?sq = "rob_squashedSeqNum s tid"
  obtain p where p: "rob_position sn (rob_instList s tid) = Some p" "p < length (rob_instList s tid)"
    using position_member [OF assms(2)] .
  let ?l = "map (unmarked mem ?sq) (rob_instList s tid)"
  have lk: "map rob_key ?l = map rob_key (rob_instList s tid)" by (simp add: rob_key_def)
  obtain r tu l' c where loop: "rob_squash_loop (numInstsToSquash ex s) ?sq mem p False ?l (rob_stats (rob_count_write s)) = (r, tu, l', c)"
    by (cases "rob_squash_loop (numInstsToSquash ex s) ?sq mem p False ?l (rob_stats (rob_count_write s))")
  from squash_loop_keys [OF _ this] p(2) have keys: "map rob_key l' = map rob_key (rob_instList s tid)"
    and q: "\<And>q. r = Some q \<Longrightarrow> q < length (rob_instList s tid)" by (simp_all add: rob_key_def comp_def)
  have len: "length l' = length (rob_instList s tid)" by (rule map_eq_imp_length_eq [OF keys])
  show ?thesis
  proof (cases "rb_seqNum (rob_instList s tid ! p) < ?sq")
    case True
    then show ?thesis using assms(1) p(1)
      by (simp add: rob_doSquash_def Let_def squash_frame_def rob_end_squash_def rob_count_write_def)
  next
    case young: False
    then have "?sq \<le> rb_seqNum (rob_instList s tid ! p)" by simp
    note ds = doSquash_unfold [OF assms(1) p(1) refl this loop]
    show ?thesis
    proof (cases r)
      case None
      then show ?thesis using keys by (simp add: ds squash_frame_def rob_end_squash_def rob_count_write_def)
    next
      case (Some q)
      then have "l' ! q \<in> set l'" using q len by simp
      with Some show ?thesis using assms(3) keys
        by (cases tu) (simp_all add: ds Let_def squash_frame_def rob_end_squash_def rob_updateTail_def rob_count_write_def)
    qed
  qed
qed

lemma rob_good_keys:
  assumes "rob_good s log" "squash_frame tid s s'" "map rob_key (rob_instList s' tid) = map rob_key (rob_instList s tid)"
    "rob_squashIt s' tid = None \<longleftrightarrow> rob_doneSquashing s' tid"
    "\<forall>sn. rob_squashIt s' tid = Some sn \<longrightarrow> sn \<in> rb_seqNum ` set (rob_instList s' tid)"
  shows "rob_good s' log"
  using rob_inv_keys [OF _ assms(2,3,4)] conserved_keys [OF _ assms(2,3)] assms(1,5) by (simp add: rob_good_def)

lemma squash_cycle_good:
  assumes "rob_good s log"
  shows "\<exists>s'. rob_squash_cycle tid mem ex s = Inr s' \<and> rob_good s' log"
proof (cases "rob_doneSquashing s tid")
  case True
  then show ?thesis using assms by (simp add: rob_squash_cycle_def)
next
  case False
  then obtain sn where sn: "rob_squashIt s tid = Some sn" "sn \<in> rb_seqNum ` set (rob_instList s tid)"
    using assms by (auto simp: rob_good_def rob_inv_def iterators_ok_def)
  from doSquash_keys [OF sn False, of ex mem] show ?thesis
  proof (elim exE conjE)
    fix s' assume s': "rob_doSquash ex tid mem s = Inr s'" "squash_frame tid s s'"
      "map rob_key (rob_instList s' tid) = map rob_key (rob_instList s tid)" "(rob_squashIt s' tid = None) = rob_doneSquashing s' tid"
      "\<forall>sn. rob_squashIt s' tid = Some sn \<longrightarrow> sn \<in> rb_seqNum ` set (rob_instList s' tid)"
    from rob_good_keys [OF assms s'(2-)] s'(1) False show ?thesis by (simp add: rob_squash_cycle_def)
  qed
qed

lemma squash_good:
  assumes "rob_good s log"
  shows "\<exists>s'. rob_squash ex sn tid mem s = Inr s' \<and> rob_good s' log"
proof (cases "rob_instList s tid = []")
  case True
  then have "rob_isEmpty_thread tid s" using assms by (simp add: rob_good_def rob_inv_def counts_ok_def rob_isEmpty_thread_def)
  then show ?thesis using assms by (simp add: rob_squash_def)
next
  case False
  let ?l = "rob_instList s tid"
  let ?s = "s\<lparr>rob_robStatus := (rob_robStatus s)(tid := Some Rob_Squashing), rob_doneSquashing := (rob_doneSquashing s)(tid := False),
    rob_squashedSeqNum := (rob_squashedSeqNum s)(tid := sn), rob_squashIt := (rob_squashIt s)(tid := Some (rb_seqNum (last ?l)))\<rparr>"
  have "squash_frame tid s ?s" by (simp add: squash_frame_def)
  then have good: "rob_good ?s log" using False by (intro rob_good_keys [OF assms, of tid]) simp_all
  have "rob_squash ex sn tid mem s = rob_squash_cycle tid mem ex ?s"
    using assms False by (simp add: rob_squash_def rob_squash_cycle_def rob_isEmpty_thread_def rob_good_def rob_inv_def counts_ok_def)
  with squash_cycle_good [OF good] show ?thesis by simp
qed

lemma markCompleted_good:
  assumes "rob_good s log"
  shows "rob_good (rob_markCompleted tid sn s) log"
proof -
  have key: "map rob_key (rob_instList (rob_markCompleted tid sn s) tid) = map rob_key (rob_instList s tid)"
    by (simp add: rob_markCompleted_def rob_key_def comp_def)
  have seqs: "rb_seqNum ` set (rob_instList (rob_markCompleted tid sn s) tid) = rb_seqNum ` set (rob_instList s tid)"
    using arg_cong [OF rob_key_seqs(1) [OF key], of set] by simp
  have "squash_frame tid s (rob_markCompleted tid sn s)" by (simp add: squash_frame_def rob_markCompleted_def)
  then show ?thesis
  proof (rule rob_good_keys [OF assms _ key])
    show "(rob_squashIt (rob_markCompleted tid sn s) tid = None) = rob_doneSquashing (rob_markCompleted tid sn s) tid"
      using assms by (simp add: rob_markCompleted_def rob_good_def rob_inv_def iterators_ok_def)
    show "\<forall>n. rob_squashIt (rob_markCompleted tid sn s) tid = Some n \<longrightarrow> n \<in> rb_seqNum ` set (rob_instList (rob_markCompleted tid sn s) tid)"
      unfolding seqs using assms by (simp add: rob_markCompleted_def rob_good_def rob_inv_def iterators_ok_def)
  qed
qed

lemma reset_thread_frame: "\<exists>m. rob_reset_thread n t s = s\<lparr>rob_maxEntries := m\<rparr>"
  by (cases "rob_robPolicy s = Partitioned \<or> rob_robPolicy s = Threshold \<and> n = 1")
    (auto simp: rob_reset_thread_def intro: exI [of _ "rob_maxEntries s"])

lemma resetEntries_frame: "\<exists>m. rob_resetEntries s = s\<lparr>rob_maxEntries := m\<rparr>"
proof -
  have id: "s = s\<lparr>rob_maxEntries := rob_maxEntries s\<rparr>" for s :: rob by simp
  have "\<exists>m. fold (rob_reset_thread n) ts s = s\<lparr>rob_maxEntries := m\<rparr>" for ts n
  proof (induction ts arbitrary: s)
    case Nil
    show ?case using id [of s] by (simp only: fold_simps) (rule exI)
  next
    case (Cons t ts)
    obtain m where m: "rob_reset_thread n t s = s\<lparr>rob_maxEntries := m\<rparr>" using reset_thread_frame ..
    obtain m' where "fold (rob_reset_thread n) ts (s\<lparr>rob_maxEntries := m\<rparr>) = s\<lparr>rob_maxEntries := m\<rparr>\<lparr>rob_maxEntries := m'\<rparr>"
      using Cons.IH ..
    then show ?case by (simp add: m exI [of _ m'])
  qed
  then show ?thesis using id [of s] unfolding rob_resetEntries_def by (auto intro: exI [of _ "rob_maxEntries s"])
qed

lemma resetEntries_good:
  assumes "rob_good s log"
  shows "rob_good (rob_resetEntries s) log"
proof -
  obtain m where m: "rob_resetEntries s = s\<lparr>rob_maxEntries := m\<rparr>" using resetEntries_frame ..
  show ?thesis using assms unfolding m by (simp add: rob_good_def rob_inv_defs conserved_def)
qed

lemma setActive_good: "rob_good s log \<Longrightarrow> rob_allowed (SetActive at) s log \<Longrightarrow> rob_good (rob_setActiveThreads at s) log"
  by (simp add: rob_good_def rob_setActiveThreads_def rob_inv_def conserved_def threads_ok_def counts_ok_def order_ok_def
      iterators_ok_def head_ok_def list_all_iff)

lemma takeOver_good:
  assumes "rob_good s log" "rob_allowed TakeOver s log"
  shows "rob_good (rob_takeOverFrom s) log"
proof -
  have th: "threads_ok s" and it: "iterators_ok s" using assms(1) by (simp_all add: rob_good_def rob_inv_def)
  have empty: "rob_instList s t = []" for t
    using assms(2) th by (cases "t < rob_numThreads s") (auto simp: rob_drainSanityCheck_def threads_ok_def rbind_eq_Inr)
  have none: "rob_squashIt s t = None" "rob_doneSquashing s t" for t
    using it empty [of t] by (auto simp: iterators_ok_def)
  have "rob_threadEntries s t = 0" for t using assms(1) empty by (simp add: rob_good_def rob_inv_def counts_ok_def)
  then show ?thesis using assms(1) empty none
    by (simp add: rob_good_def rob_takeOverFrom_def rob_resetState_def rob_inv_defs conserved_def points_to_oldest_def)
qed

lemma new_good:
  assumes "rob_new policy entries width threshold threads = Inr s" "entries < 2 ^ 32" "threads \<le> MaxThreads"
  shows "rob_good s []"
  using assms by (auto simp: rob_new_def rbind_eq_Inr rob_resetState_def rob_good_def rob_inv_defs conserved_def points_to_oldest_def cong: if_cong)

lemma sum_fun_upd:
  fixes g :: "'a \<Rightarrow> nat" and k n :: nat
  assumes "k < n"
  shows "(\<Sum>t<n. g ((f(k := x)) t)) + g (f k) = (\<Sum>t<n. g (f t)) + g x"
proof -
  have "(\<Sum>t\<in>{..<n} - {k}. g ((f(k := x)) t)) = (\<Sum>t\<in>{..<n} - {k}. g (f t))" by (rule sum.cong) simp_all
  moreover have "(\<Sum>t<n. g ((f(k := x)) t)) = g x + (\<Sum>t\<in>{..<n} - {k}. g ((f(k := x)) t))"
    using assms sum.remove [of "{..<n}" k "\<lambda>t. g ((f(k := x)) t)"] by simp
  moreover have "(\<Sum>t<n. g (f t)) = g (f k) + (\<Sum>t\<in>{..<n} - {k}. g (f t))"
    using assms sum.remove [of "{..<n}" k "\<lambda>t. g (f t)"] by simp
  ultimately show ?thesis by linarith
qed

lemma good_older_than_log:
  assumes "rob_good s log" "j \<in> set (rob_instList s t)"
  shows "\<exists>k\<in>set log. rb_seqNum k = rb_seqNum j"
proof -
  have "rb_seqNum j \<in> set (map rb_seqNum (filter (\<lambda>i. rb_threadNumber i = t) (rob_removed s) @ rob_instList s t))"
    using assms(2) by simp
  also have "\<dots> = set (map rb_seqNum (filter (\<lambda>i. rb_threadNumber i = t) log))"
    using assms(1) unfolding rob_good_def conserved_def by (intro arg_cong [where f = set]) blast
  finally show ?thesis by auto
qed

lemma thread_in_range: "threads_ok s \<Longrightarrow> rob_instList s t \<noteq> [] \<Longrightarrow> t < MaxThreads"
  unfolding threads_ok_def by (meson less_le_trans)

lemma insert_good:
  assumes "rob_good s log" "rob_allowed (InsertInst i) s log"
  shows "\<exists>s'. rob_insertInst i s = Inr s' \<and> rob_good s' (log @ [i])"
proof -
  let ?t = "rb_threadNumber i" and ?i = "i\<lparr>rb_RobEntry := True\<rparr>"
  have inv: "counts_ok s" "threads_ok s" "order_ok s" "iterators_ok s" "head_ok s" and con: "conserved s log"
    using assms(1) by (simp_all add: rob_good_def rob_inv_def)
  have tid: "?t \<in> set (rob_activeThreads s)" "?t < MaxThreads" and nf: "rob_numInstsInROB s \<noteq> rob_numEntries s"
    using assms(2) inv(2) by (auto simp: threads_ok_def rob_isFull_def)
  have old: "rb_seqNum j < rb_seqNum i" if "j \<in> set (rob_instList s t)" for j t
    using good_older_than_log [OF assms(1) that] assms(2) by auto
  have empty: "rob_instList s t = []" if "rob_numInstsInROB s = 0" for t
    using that inv(1) thread_in_range [OF inv(2), of t] by (auto simp: counts_ok_def)
  define h where "h = (if rob_numInstsInROB s = 0 then Some (?t, rb_seqNum i) else rob_head s)"
  define s' where "s' = (rob_count_write s)\<lparr>rob_head := h, rob_instList := (rob_instList s)(?t := rob_instList s ?t @ [?i]),
    rob_tail := Some (?t, rb_seqNum i), rob_numInstsInROB := rob_numInstsInROB s + 1,
    rob_threadEntries := (rob_threadEntries s)(?t := rob_threadEntries s ?t + 1)\<rparr>"
  have "rob_insertInst i s = Inr s'"
    using nf empty by (auto simp: rob_insertInst_def Let_def s'_def h_def rob_count_write_def)
  moreover have "counts_ok s'"
    using inv(1) nf sum_fun_upd [OF tid(2), of length "rob_instList s" "rob_instList s ?t @ [?i]"]
    by (simp add: counts_ok_def s'_def)
  moreover have "threads_ok s'" using inv(2) tid(1) by (simp add: threads_ok_def s'_def rob_count_write_def)
  moreover have "order_ok s'" using inv(3) old by (simp add: order_ok_def s'_def sorted_wrt_append)
  moreover have "iterators_ok s'" using inv(4) by (auto simp: iterators_ok_def s'_def)
  moreover have "head_ok s'"
  proof (cases "rob_numInstsInROB s = 0")
    case True
    then show ?thesis using empty by (simp add: head_ok_def points_to_oldest_def s'_def h_def)
  next
    case False
    have "rob_head s \<noteq> None"
    proof
      assume "rob_head s = None"
      then have "rob_instList s t = []" for t using inv(5) by (simp add: head_ok_def points_to_oldest_def)
      then show False using False inv(1) by (simp add: counts_ok_def)
    qed
    then obtain u n where h: "rob_head s = Some (u, n)" by auto
    have u: "rob_instList s u \<noteq> []" "n = rb_seqNum (hd (rob_instList s u))" "\<And>v j. j \<in> set (rob_instList s v) \<Longrightarrow> n \<le> rb_seqNum j"
      using inv(5) h by (auto simp: head_ok_def points_to_oldest_def)
    then have "n < rb_seqNum i" using old [OF list.set_sel(1) [OF u(1)]] by simp
    then show ?thesis using False h u by (auto simp: head_ok_def points_to_oldest_def s'_def h_def)
  qed
  moreover have "conserved s' (log @ [i])" using con by (simp add: conserved_def s'_def rob_count_write_def)
  ultimately show ?thesis by (simp add: rob_good_def rob_inv_def)
qed

definition points_to_first :: "(nat \<Rightarrow> rob_inst list) \<Rightarrow> (nat \<times> seqnum) option \<Rightarrow> bool" where
  "points_to_first il h \<longleftrightarrow> (case h of None \<Rightarrow> True | Some (t, n) \<Rightarrow> il t \<noteq> [] \<and> n = rb_seqNum (hd (il t)))"

definition head_step :: "(nat \<Rightarrow> rob_inst list) \<Rightarrow> nat \<Rightarrow> (nat \<times> seqnum) option \<Rightarrow> (nat \<times> seqnum) option" where
  "head_step il t h =
     (if il t = [] \<or> (\<exists>u n. h = Some (u, n) \<and> n \<le> rb_seqNum (hd (il t))) then h else Some (t, rb_seqNum (hd (il t))))"

lemma head_loop_Cons: "rob_head_loop il (t # ts) h = rob_head_loop il ts (head_step il t h)"
  by (cases "il t"; cases h) (auto simp: head_step_def)

lemma head_loop_points: "points_to_first il h \<Longrightarrow> points_to_first il (rob_head_loop il ts h)"
proof (induction ts arbitrary: h)
  case (Cons t ts)
  have "points_to_first il (head_step il t h)" using Cons.prems by (auto simp: head_step_def points_to_first_def)
  then show ?case unfolding head_loop_Cons by (rule Cons.IH)
qed simp

lemma head_loop_None: "rob_head_loop il ts h = None \<longleftrightarrow> h = None \<and> (\<forall>t\<in>set ts. il t = [])"
proof (induction ts arbitrary: h)
  case (Cons t ts)
  have "head_step il t h = None \<longleftrightarrow> h = None \<and> il t = []" by (auto simp: head_step_def)
  then show ?case unfolding head_loop_Cons Cons.IH by auto
qed simp

lemma head_loop_lowest:
  "rob_head_loop il ts h = Some x \<Longrightarrow>
    (\<forall>y. h = Some y \<longrightarrow> snd x \<le> snd y) \<and> (\<forall>u\<in>set ts. il u \<noteq> [] \<longrightarrow> snd x \<le> rb_seqNum (hd (il u)))"
proof (induction ts arbitrary: h)
  case (Cons t ts)
  note le = Cons.IH [OF Cons.prems [unfolded head_loop_Cons]]
  have "snd x \<le> snd y" if h: "h = Some y" for y
  proof (cases "il t = [] \<or> snd y \<le> rb_seqNum (hd (il t))")
    case True
    then have "head_step il t h = Some y" using h by (cases y) (auto simp: head_step_def)
    then show ?thesis using le by blast
  next
    case False
    then have "head_step il t h = Some (t, rb_seqNum (hd (il t)))" using h by (auto simp: head_step_def)
    then have "snd x \<le> rb_seqNum (hd (il t))" using le by force
    also have "\<dots> \<le> snd y" using False linear by blast
    finally show ?thesis .
  qed
  moreover have "snd x \<le> rb_seqNum (hd (il t))" if "il t \<noteq> []"
  proof (cases "\<exists>u n. h = Some (u, n) \<and> n \<le> rb_seqNum (hd (il t))")
    case True
    then obtain u n where n: "h = Some (u, n)" "n \<le> rb_seqNum (hd (il t))" by blast
    then have "head_step il t h = Some (u, n)" by (simp add: head_step_def)
    then have "snd x \<le> n" using le by force
    then show ?thesis using n(2) by (rule order_trans)
  next
    case False
    then have "head_step il t h = Some (t, rb_seqNum (hd (il t)))" using that by (auto simp: head_step_def)
    then show ?thesis using le by force
  qed
  ultimately show ?case using le by simp
qed simp

lemma list_within_capacity:
  assumes "counts_ok s" "threads_ok s"
  shows "length (rob_instList s tid) \<le> rob_numEntries s"
proof (cases "rob_instList s tid = []")
  case False
  then have "tid < MaxThreads" by (rule thread_in_range [OF assms(2)])
  then have "length (rob_instList s tid) \<le> rob_numInstsInROB s"
    using assms(1) member_le_sum [of tid "{..<MaxThreads}" "\<lambda>t. length (rob_instList s t)"] by (simp add: counts_ok_def)
  then show ?thesis using assms(1) by (simp add: counts_ok_def)
qed simp

lemma retire_good:
  assumes "rob_good s log" "rob_allowed (RetireHead tid) s log"
  shows "\<exists>s'. rob_retireHead tid s = Inr s' \<and> rob_good s' log"
proof -
  have inv: "counts_ok s" "threads_ok s" "order_ok s" "iterators_ok s" "head_ok s" and con: "conserved s log"
    using assms(1) by (simp_all add: rob_good_def rob_inv_def)
  obtain i l where il: "rob_instList s tid = i # l" "rb_CanCommit i" and ds: "rob_doneSquashing s tid"
    using assms(2) by (auto simp: rob_isHeadReady_def Let_def split: if_splits list.splits)
  have tid: "tid < MaxThreads" using thread_in_range [OF inv(2), of tid] il(1) by simp
  note sum = sum_fun_upd [OF tid, of length "rob_instList s" l, unfolded il(1)]
  let ?L = "(rob_instList s)(tid := l)"
  define s' where "s' = (rob_count_write s)\<lparr>rob_instList := ?L, rob_numInstsInROB := rob_numInstsInROB s - 1,
    rob_threadEntries := (rob_threadEntries s)(tid := length l),
    rob_head := rob_head_loop ?L (rob_activeThreads s) None,
    rob_removed := rob_removed s @ [i\<lparr>rb_RobEntry := False, rb_Committed := True\<rparr>]\<rparr>"
  have pos: "0 < rob_numInstsInROB s" using inv(1) sum by (simp add: counts_ok_def)
  have "rob_threadEntries s tid = Suc (length l)" "Suc (length l) < 2 ^ 32"
    using inv(1) il(1) list_within_capacity [OF inv(1,2), of tid] by (simp_all add: counts_ok_def)
  then have "unsigned_sub (rob_threadEntries s tid) 1 = length l" by (simp add: unsigned_sub_def)
  then have "rob_retireHead tid s = Inr s'"
    using pos il by (simp add: rob_retireHead_def Let_def s'_def rob_updateHead_def) (simp add: rob_count_write_def)
  moreover have "counts_ok s'" using inv(1) sum by (auto simp: counts_ok_def s'_def)
  moreover have th: "threads_ok s'" using inv(2) il(1) by (auto simp: threads_ok_def s'_def rob_count_write_def)
  moreover have "order_ok s'"
    unfolding order_ok_def s'_def using inv(3) il(1) by (auto simp: order_ok_def) (metis list.set_intros(2) sorted_wrt.simps(2))+
  moreover have "rob_squashIt s tid \<noteq> Some sn" for sn using inv(4) ds unfolding iterators_ok_def by (metis option.distinct(1))
  then have "iterators_ok s'" using inv(4) by (simp add: iterators_ok_def s'_def)
  moreover have "head_ok s'"
  proof -
    let ?h = "rob_head_loop ?L (rob_activeThreads s) None"
    have active: "t \<in> set (rob_activeThreads s)" if "?L t \<noteq> []" for t
      using th that by (auto simp: threads_ok_def s'_def rob_count_write_def)
    have sorted: "program_order (?L t)" for t using \<open>order_ok s'\<close> by (simp add: order_ok_def s'_def)
    show ?thesis
    proof (cases ?h)
      case None
      then have "?L t = []" for t using active unfolding head_loop_None by blast
      then show ?thesis using None by (simp add: head_ok_def points_to_oldest_def s'_def)
    next
      case (Some x)
      have "snd x \<le> rb_seqNum j" if "j \<in> set (?L u)" for u j
      proof -
        have "?L u \<noteq> []" using that by auto
        then have "snd x \<le> rb_seqNum (hd (?L u))" using head_loop_lowest [OF Some] active by blast
        also have "\<dots> \<le> rb_seqNum j" using that sorted [of u] by (cases "?L u") (auto intro: less_imp_le)
        finally show ?thesis .
      qed
      moreover have "points_to_first ?L ?h" by (rule head_loop_points) (simp add: points_to_first_def)
      ultimately show ?thesis using Some by (cases x) (auto simp: head_ok_def points_to_oldest_def s'_def points_to_first_def)
    qed
  qed
  moreover have "conserved s' log"
  proof -
    have ti: "rb_threadNumber i = tid" using inv(3) il(1) unfolding order_ok_def by (metis list.set_intros(1))
    have all: "\<And>t. map rb_seqNum (filter (\<lambda>i. rb_threadNumber i = t) (rob_removed s)) @ map rb_seqNum (rob_instList s t) =
       map rb_seqNum (filter (\<lambda>i. rb_threadNumber i = t) log)" using con by (simp add: conserved_def)
    show ?thesis using con ti il(2) all all [of tid, unfolded il(1)]
      by (simp add: conserved_def s'_def rob_count_write_def)
  qed
  ultimately show ?thesis by (simp add: rob_good_def rob_inv_def)
qed

lemma exec_good:
  assumes "rob_good s log" "rob_allowed c s log"
  shows "\<exists>s'. rob_exec c s = Inr s' \<and> rob_good s' (rob_log c log)"
  using assms insert_good retire_good squash_good squash_cycle_good markCompleted_good resetEntries_good setActive_good takeOver_good
  by (cases c) simp_all

lemma reach_good: "rob_reach s log \<Longrightarrow> rob_good s log"
proof (induction rule: rob_reach.induct)
  case (start policy entries width threshold threads s)
  then show ?case by (rule new_good)
next
  case (step s log c s')
  then show ?case using exec_good [OF step.IH step.hyps(2)] by simp
qed

lemma reach_sorted_log: "rob_reach s log \<Longrightarrow> program_order log"
proof (induction rule: rob_reach.induct)
  case (step s log c s')
  then show ?case by (cases c) (simp_all add: sorted_wrt_append)
qed simp

lemma squash_run:
  assumes inv: "counts_ok s" "threads_ok s" "order_ok s" "iterators_ok s"
    and width: "length (filter (\<lambda>i. sq < rb_seqNum i) (rob_instList s tid)) \<le> rob_squashWidth s * Suc (length exs)"
  shows "\<exists>s1 s2. rob_squash ex sq tid mem s = Inr s1 \<and> rob_squash_cycles tid mem exs s1 = Inr s2 \<and> squash_frame tid s s2 \<and>
    rob_doneSquashing s2 tid \<and> rob_instList s2 tid = map (squashed_to mem sq) (rob_instList s tid)"
proof (cases "rob_instList s tid = []")
  case True
  have "rob_squashIt s tid = None" using inv(4) True unfolding iterators_ok_def by (metis empty_iff image_empty list.set(1) not_None_eq)
  then have d: "rob_doneSquashing s tid" using inv(4) by (simp add: iterators_ok_def)
  have "rob_squash ex sq tid mem s = Inr s" using inv(1) True by (simp add: rob_squash_def rob_isEmpty_thread_def counts_ok_def)
  moreover have "squash_frame tid s s" by (simp add: squash_frame_def)
  ultimately show ?thesis using d True squash_cycles_done [OF d] by simp
next
  case False
  let ?l = "rob_instList s tid"
  have po: "program_order ?l" using inv(3) by (simp add: order_ok_def)
  have te: "rob_threadEntries s tid = length ?l" using inv(1) by (simp add: counts_ok_def)
  have len: "length ?l \<le> rob_numEntries s" using list_within_capacity [OF inv(1,2)] .
  from squash_start [OF po te False, of ex sq mem] obtain s1 where s1: "rob_squash ex sq tid mem s = Inr s1" "squash_frame tid s s1"
    "squash_complete mem sq tid ?l s1 \<or> (\<exists>q. squash_at mem sq tid ?l q s1 \<and> sq < rb_seqNum (?l ! q) \<and>
       length ?l = Suc (q + numInstsToSquash ex s))" by blast
  from s1(3) show ?thesis
  proof (elim disjE exE conjE)
    assume fin: "squash_complete mem sq tid ?l s1"
    then show ?thesis using s1(1,2) squash_cycles_done [of s1 tid] by (simp add: squash_complete_def)
  next
    fix q assume q: "squash_at mem sq tid ?l q s1" "sq < rb_seqNum (?l ! q)" "length ?l = Suc (q + numInstsToSquash ex s)"
    have same: "rob_numEntries s1 = rob_numEntries s" "rob_squashWidth s1 = rob_squashWidth s" using s1(2) by (simp_all add: squash_frame_def)
    have ex: "\<not> ex" using q(3) len by (auto simp: numInstsToSquash_def)
    have "length (filter (\<lambda>i. sq < rb_seqNum i) ?l) + length (filter (\<lambda>i. rb_seqNum i \<le> sq) ?l) = length ?l"
      using sum_length_filter_compl [of "\<lambda>i. sq < rb_seqNum i" ?l] by (simp add: not_less)
    then have "Suc q - length (filter (\<lambda>i. rb_seqNum i \<le> sq) ?l) \<le> rob_squashWidth s1 * length exs"
      using width q(3) ex same by (simp add: numInstsToSquash_def)
    from squash_cycles_end [OF po q(1,2) _ this] len same obtain s2 where
      "rob_squash_cycles tid mem exs s1 = Inr s2" "squash_frame tid s1 s2" "squash_complete mem sq tid ?l s2" by auto
    then show ?thesis using s1(1) squash_frame_trans [OF s1(2)] by (auto simp: squash_complete_def)
  qed
qed

section \<open>A concrete run\<close>

fun rob_run :: "rob_call list \<Rightarrow> rob \<Rightarrow> rob_inst list \<Rightarrow> (rob \<times> rob_inst list) option" where
  "rob_run [] s log = Some (s, log)"
| "rob_run (c # cs) s log =
     (if rob_allowed c s log then case rob_exec c s of Inl _ \<Rightarrow> None | Inr s' \<Rightarrow> rob_run cs s' (rob_log c log) else None)"

lemma run_reach: "rob_reach s log \<Longrightarrow> rob_run cs s log = Some (s', log') \<Longrightarrow> rob_reach s' log'"
  by (induction cs s log rule: rob_run.induct) (auto split: if_splits sum.splits intro: rob_reach.step)

definition ex_inst :: "seqnum \<Rightarrow> rob_inst" where
  "ex_inst n = \<lparr>rb_seqNum = n, rb_threadNumber = 0, rb_isLoad = True, rb_isStore = False, rb_isRMW = False, rb_isRMWA = False,
     rb_RobEntry = False, rb_CanCommit = False, rb_Committed = False, rb_Squashed = False, rb_dueToMemOrder = False\<rparr>"

text \<open>Four entries shared by two threads; thread 0 runs alone and fills three of them, then thread 1 starts.\<close>

definition ex_calls :: "rob_call list" where
  "ex_calls = [SetActive [0], ResetEntries, InsertInst (ex_inst 1), InsertInst (ex_inst 2), InsertInst (ex_inst 3),
     MarkCompleted 0 1, SetActive [0, 1], ResetEntries]"

definition ex_rob :: "(rob \<times> rob_inst list) option" where
  "ex_rob = (case rob_new Partitioned 4 1 100 2 of Inl _ \<Rightarrow> None | Inr s \<Rightarrow> rob_run ex_calls s [])"

lemma ex_rob_view:
  "map_option (\<lambda>(s, log). (rob_activeThreads s, rob_threadEntries s 0, rob_maxEntries s 0, rob_squashWidth s,
       rob_numEntries s)) ex_rob = Some ([0, 1], 3, 2, 1, 4)"
  "map_option (\<lambda>(s, log). (map rb_seqNum (rob_instList s 0), map rb_CanCommit (rob_instList s 0), map rb_Squashed (rob_instList s 0),
       rob_doneSquashing s 0, log)) ex_rob =
     Some ([1, 2, 3], [True, False, False], [False, False, False], True, [ex_inst 1, ex_inst 2, ex_inst 3])"
  by code_simp+

lemma ex_rob_reach:
  obtains s where "rob_reach s [ex_inst 1, ex_inst 2, ex_inst 3]" "rob_activeThreads s = [0, 1]" "rob_threadEntries s 0 = 3"
    "rob_maxEntries s 0 = 2" "rob_squashWidth s = 1" "rob_numEntries s = 4" "map rb_seqNum (rob_instList s 0) = [1, 2, 3]" "rob_doneSquashing s 0"
    "map rb_CanCommit (rob_instList s 0) = [True, False, False]" "map rb_Squashed (rob_instList s 0) = [False, False, False]"
proof -
  obtain s where s: "ex_rob = Some (s, [ex_inst 1, ex_inst 2, ex_inst 3])" using ex_rob_view(2) by auto
  obtain s0 where s0: "rob_new Partitioned 4 1 100 2 = Inr s0" "rob_run ex_calls s0 [] = Some (s, [ex_inst 1, ex_inst 2, ex_inst 3])"
    using s by (auto simp: ex_rob_def split: sum.splits)
  have "rob_reach s0 []" by (rule rob_reach.start [OF s0(1)]) (simp_all add: MaxThreads_def)
  from run_reach [OF this s0(2)] have reach: "rob_reach s [ex_inst 1, ex_inst 2, ex_inst 3]" .
  have "rob_activeThreads s = [0, 1]" "rob_threadEntries s 0 = 3" "rob_maxEntries s 0 = 2" "rob_squashWidth s = 1" "rob_numEntries s = 4"
    "map rb_seqNum (rob_instList s 0) = [1, 2, 3]" "rob_doneSquashing s 0" "map rb_CanCommit (rob_instList s 0) = [True, False, False]"
    "map rb_Squashed (rob_instList s 0) = [False, False, False]"
    using ex_rob_view unfolding s by simp_all
  then show thesis by (rule that [OF reach])
qed

section \<open>Properties\<close>

text \<open>C19. A squash completes, and does exactly what it should.  Started from any reachable state, with as many further cycles
  as the squash width needs for the younger instructions of the thread, no assertion fails, the thread is done squashing, every
  instruction of the thread younger than the squash point is marked squashed and ready to leave the buffer, older ones and the
  other threads are untouched.  The mark that the cause was a memory-order violation is set on the younger loads when it was,
  and is cleared on all younger instructions when it was not.\<close>

theorem rob_squash_completes:
  assumes "rob_reach s log" "length (filter (\<lambda>i. sq < rb_seqNum i) (rob_instList s tid)) \<le> rob_squashWidth s * Suc (length exs)"
  shows "\<exists>s1 s2. rob_squash ex sq tid mem s = Inr s1 \<and> rob_squash_cycles tid mem exs s1 = Inr s2 \<and> rob_doneSquashing s2 tid \<and>
    rob_instList s2 tid = map (\<lambda>i. if sq < rb_seqNum i
      then i\<lparr>rb_Squashed := True, rb_CanCommit := True, rb_dueToMemOrder := mem \<and> (rb_isLoad i \<or> rb_dueToMemOrder i)\<rparr> else i)
      (rob_instList s tid) \<and> (\<forall>t. t \<noteq> tid \<longrightarrow> rob_instList s2 t = rob_instList s t)"
proof -
  let ?l = "rob_instList s tid"
  have inv: "counts_ok s" "threads_ok s" "order_ok s" "iterators_ok s" using reach_good [OF assms(1)] by (simp_all add: rob_good_def rob_inv_def)
  have "\<exists>s1 s2. rob_squash ex sq tid mem s = Inr s1 \<and> rob_squash_cycles tid mem exs s1 = Inr s2 \<and> squash_frame tid s s2 \<and>
    rob_doneSquashing s2 tid \<and> rob_instList s2 tid = map (squashed_to mem sq) ?l"
    by (rule squash_run [OF inv assms(2)])
  then show ?thesis unfolding squashed_to_effect [symmetric] squash_frame_def by (elim exE conjE) auto
qed

theorem rob_squash_completes_witness:
  "\<exists>s s1 s2. rob_squash False 1 0 True s = Inr s1 \<and> rob_squash_cycles 0 True [False] s1 = Inr s2 \<and> rob_doneSquashing s2 0 \<and>
    map rb_Squashed (rob_instList s2 0) = [False, True, True]"
proof -
  obtain s where s: "rob_reach s [ex_inst 1, ex_inst 2, ex_inst 3]" "rob_squashWidth s = 1" "map rb_seqNum (rob_instList s 0) = [1, 2, 3]"
    "map rb_Squashed (rob_instList s 0) = [False, False, False]" by (rule ex_rob_reach)
  then obtain a b c where l: "rob_instList s 0 = [a, b, c]" "rb_seqNum a = 1" "rb_seqNum b = 2" "rb_seqNum c = 3" "\<not> rb_Squashed a"
    by (auto simp: map_eq_Cons_conv)
  then have "length (filter (\<lambda>i. 1 < rb_seqNum i) (rob_instList s 0)) \<le> rob_squashWidth s * Suc (length [False])"
    using s(2) by simp
  from rob_squash_completes [OF s(1) this, of False True] show ?thesis
  proof (elim exE conjE)
    fix s1 s2
    assume r: "rob_squash False 1 0 True s = Inr s1" "rob_squash_cycles 0 True [False] s1 = Inr s2" "rob_doneSquashing s2 0"
      "rob_instList s2 0 = map (\<lambda>i. if 1 < rb_seqNum i
        then i\<lparr>rb_Squashed := True, rb_CanCommit := True, rb_dueToMemOrder := True \<and> (rb_isLoad i \<or> rb_dueToMemOrder i)\<rparr> else i)
        (rob_instList s 0)"
    have "map rb_Squashed (rob_instList s2 0) = [False, True, True]" unfolding r(4) l(1) by (simp add: l)
    with r(1-3) show ?thesis by (intro exI conjI)
  qed
qed

text \<open>C20. Instructions leave the buffer in the order in which they entered it.  For every thread, what has been retired followed
  by what is still in the buffer is, in this order, everything that was inserted: nothing is lost, duplicated or overtaken.
  Whatever was retired had been ready to commit, is marked committed and no longer counts as being in the buffer.\<close>

theorem rob_retires_in_order:
  assumes "rob_reach s log"
  shows "map rb_seqNum (filter (\<lambda>i. rb_threadNumber i = t) (rob_removed s)) @ map rb_seqNum (rob_instList s t) =
      map rb_seqNum (filter (\<lambda>i. rb_threadNumber i = t) log) \<and>
    program_order (filter (\<lambda>i. rb_threadNumber i = t) (rob_removed s) @ rob_instList s t) \<and>
    (\<forall>i\<in>set (rob_removed s). rb_CanCommit i \<and> rb_Committed i \<and> \<not> rb_RobEntry i)"
proof -
  have con: "conserved s log" using reach_good [OF assms] by (simp add: rob_good_def)
  then have eq: "map rb_seqNum (filter (\<lambda>i. rb_threadNumber i = t) (rob_removed s) @ rob_instList s t) =
      map rb_seqNum (filter (\<lambda>i. rb_threadNumber i = t) log)" by (simp add: conserved_def)
  have "program_order (filter (\<lambda>i. rb_threadNumber i = t) log)" using reach_sorted_log [OF assms] by (rule sorted_wrt_filter)
  then show ?thesis using con eq program_order_cong [OF eq] by (simp add: conserved_def)
qed

theorem rob_retires_in_order_witness:
  "\<exists>s. rob_reach s [ex_inst 1, ex_inst 2, ex_inst 3] \<and>
    map rb_seqNum (filter (\<lambda>i. rb_threadNumber i = 0) (rob_removed s)) @ map rb_seqNum (rob_instList s 0) = [1, 2, 3]"
proof -
  obtain s where s: "rob_reach s [ex_inst 1, ex_inst 2, ex_inst 3]" by (rule ex_rob_reach)
  from rob_retires_in_order [OF s, of 0] s show ?thesis by (auto simp: ex_inst_def)
qed

text \<open>C21. The buffer is safe.  Every call the commit stage may make succeeds, and afterwards the occupancy count is the number of
  instructions in the lists and within the capacity, the number of free entries is exact, and the head pointer is at the oldest
  instruction of all threads, or at the end when there is none.\<close>

theorem rob_calls_safe:
  assumes "rob_reach s log" "rob_allowed c s log"
  shows "\<exists>s'. rob_exec c s = Inr s' \<and> rob_numInstsInROB s' = (\<Sum>t<MaxThreads. length (rob_instList s' t)) \<and>
    rob_numInstsInROB s' \<le> rob_numEntries s' \<and> rob_numFreeEntries s' + rob_numInstsInROB s' = rob_numEntries s' \<and>
    (case rob_head s' of
       None \<Rightarrow> \<forall>t. rob_instList s' t = []
     | Some (t, n) \<Rightarrow> (\<exists>i. rob_readHeadInst t s' = Inr (Some i) \<and> rb_seqNum i = n) \<and> (\<forall>u. \<forall>j\<in>set (rob_instList s' u). n \<le> rb_seqNum j))"
proof -
  obtain s' where s': "rob_exec c s = Inr s'" "rob_good s' (rob_log c log)" using exec_good [OF reach_good [OF assms(1)] assms(2)] by blast
  then have c: "counts_ok s'" and h: "points_to_oldest (rob_instList s') (rob_head s')" and o: "order_ok s'"
    by (simp_all add: rob_good_def rob_inv_def head_ok_def)
  have "rob_numFreeEntries s' + rob_numInstsInROB s' = rob_numEntries s'"
    using c unsigned_sub_exact [of "rob_numInstsInROB s'" "rob_numEntries s'"] unfolding rob_numFreeEntries_def counts_ok_def by linarith
  moreover have "\<exists>i. rob_readHeadInst t s' = Inr (Some i) \<and> rb_seqNum i = rb_seqNum (hd (rob_instList s' t))" if "rob_instList s' t \<noteq> []" for t
    using that c o by (cases "rob_instList s' t") (auto simp: rob_readHeadInst_def counts_ok_def order_ok_def dest!: spec [of _ t])
  ultimately show ?thesis using s'(1) c h by (auto simp: counts_ok_def points_to_oldest_def split: option.splits)
qed

theorem rob_calls_safe_witness:
  "\<exists>s s'. rob_reach s [ex_inst 1, ex_inst 2, ex_inst 3] \<and> rob_exec (RetireHead 0) s = Inr s' \<and>
    rob_numFreeEntries s' + rob_numInstsInROB s' = rob_numEntries s'"
proof -
  obtain s where s: "rob_reach s [ex_inst 1, ex_inst 2, ex_inst 3]" "rob_threadEntries s 0 = 3" "rob_doneSquashing s 0"
    "map rb_CanCommit (rob_instList s 0) = [True, False, False]" by (rule ex_rob_reach)
  then have "rob_allowed (RetireHead 0) s [ex_inst 1, ex_inst 2, ex_inst 3]"
    by (auto simp: rob_isHeadReady_def Let_def map_eq_Cons_conv)
  from rob_calls_safe [OF s(1) this] s(1) show ?thesis by blast
qed

text \<open>The free-entry count of a single thread is not safe.  Under the partitioned policy the limit of a running thread shrinks
  when another thread starts; a reachable state has a thread above its limit, for which the count of free entries wraps around
  to nearly \<open>2 ^ 32\<close> although none is free, and the per-thread fullness test says that the partition is not full.\<close>

theorem rob_thread_limit_wraps:
  "\<exists>s log. rob_reach s log \<and> rob_activeThreads s = [0, 1] \<and> rob_maxEntries s 0 < rob_threadEntries s 0 \<and>
    rob_numFreeEntries_thread 0 s = 2 ^ 32 - 1 \<and> \<not> rob_isFull_thread 0 s"
proof -
  obtain s where s: "rob_reach s [ex_inst 1, ex_inst 2, ex_inst 3]" "rob_activeThreads s = [0, 1]" "rob_threadEntries s 0 = 3"
    "rob_maxEntries s 0 = 2" "rob_numEntries s = 4" by (rule ex_rob_reach)
  then have "rob_numFreeEntries_thread 0 s = 2 ^ 32 - 1" "\<not> rob_isFull_thread 0 s"
    by (simp_all add: rob_numFreeEntries_thread_def unsigned_sub_def rob_isFull_thread_def)
  with s show ?thesis by (intro exI conjI) simp_all
qed

end
