(* ===== verification/Commit_Stage.thy ===== *)
theory Commit_Stage
  imports Rob
begin

text \<open>
  The control part of the commit stage (\<^verbatim>\<open>cpu/o3/commit.hh\<close>, \<^verbatim>\<open>cpu/o3/commit.cc\<close>): the squash of the reorder buffer
  on behalf of traps, of other contexts and of the execute stage, the cycles in which a squash goes on, the insertion of renamed
  instructions, the marking of executed ones, and the choice of the thread to commit from.  The buffer and its list of active
  threads are those of \<^verbatim>\<open>Rob.thy\<close>.  Program counters are values of an arbitrary type.  Whether a thread is exiting and
  what the execute and rename stages send are arguments.  What the stage sends back is the record of each thread in
  \<open>cs_toIEW\<close>; the threads for which an exit event was requested are in \<open>cs_exitEvents\<close>.

  Shown here: which cause the squash of a lone thread is recorded with and how far it gets, that the oldest-ready policy
  picks the oldest ready head while sequence numbers fit 32 bits and not beyond, and that the round-robin policy serves every
  ready thread within one round.
\<close>

section \<open>Data\<close>

datatype thread_status = Running | Idle | ROBSquashing | ROBSquashingDueToMemOrder | TrapPending | FetchTrapPending | SquashAfterPending

datatype commit_policy = RoundRobin | OldestReady

record 'pc commit_info =
  ci_doneSeqNum :: seqnum
  ci_squash :: bool
  ci_robSquashing :: bool
  ci_mispredictInst :: "seqnum option"
  ci_branchTaken :: bool
  ci_squashInst :: "seqnum option"
  ci_pc :: "'pc option"

text \<open>A mispredicted branch is its sequence number and whether it is an unconditional control instruction.\<close>

record 'pc iew_info =
  iw_squash :: bool
  iw_squashedSeqNum :: seqnum
  iw_mispredictInst :: "(seqnum \<times> bool) option"
  iw_includeSquashInst :: bool
  iw_branchTaken :: bool
  iw_pc :: "'pc option"

record 'pc commit_stage =
  cs_rob :: rob
  cs_nextActive :: bool
  cs_commitStatus :: "nat \<Rightarrow> thread_status"
  cs_commitPolicy :: commit_policy
  cs_trapSquash :: "nat \<Rightarrow> bool"
  cs_tcSquash :: "nat \<Rightarrow> bool"
  cs_squashAfterInst :: "nat \<Rightarrow> seqnum option"
  cs_priority_list :: "nat list"
  cs_numThreads :: nat
  cs_pc :: "nat \<Rightarrow> 'pc"
  cs_youngestSeqNum :: "nat \<Rightarrow> seqnum"
  cs_lastCommitedSeqNum :: "nat \<Rightarrow> seqnum"
  cs_trapInFlight :: "nat \<Rightarrow> bool"
  cs_committedStores :: "nat \<Rightarrow> bool"
  cs_changedROBNumEntries :: "nat \<Rightarrow> bool"
  cs_wroteToTimeBuffer :: bool
  cs_trapPending :: "nat \<Rightarrow> bool"
  cs_noSquashFromTC :: "nat \<Rightarrow> bool"
  cs_toIEW :: "nat \<Rightarrow> 'pc commit_info"
  cs_exitEvents :: "nat list"
  cs_branchMispredicts :: nat

definition cs_send :: "nat \<Rightarrow> ('pc commit_info \<Rightarrow> 'pc commit_info) \<Rightarrow> 'pc commit_stage \<Rightarrow> 'pc commit_stage" where
  "cs_send tid f s = s\<lparr>cs_toIEW := (cs_toIEW s)(tid := f (cs_toIEW s tid))\<rparr>"

definition cs_setStatus :: "nat \<Rightarrow> thread_status \<Rightarrow> 'pc commit_stage \<Rightarrow> 'pc commit_stage" where
  "cs_setStatus tid st s = s\<lparr>cs_commitStatus := (cs_commitStatus s)(tid := st)\<rparr>"

section \<open>Squashing\<close>

definition cs_squashAll :: "bool \<Rightarrow> nat \<Rightarrow> 'pc commit_stage \<Rightarrow> 'pc commit_stage res" where
  "cs_squashAll isThreadExiting tid s =
     rbind (if rob_isEmpty_thread tid (cs_rob s) then Inr (cs_lastCommitedSeqNum s tid)
            else rbind (rob_readHeadInst tid (cs_rob s)) (\<lambda>i.
                 case i of None \<Rightarrow> Inl NullDeref | Some i \<Rightarrow> Inr (rb_seqNum i - 1))) (\<lambda>squashed_inst.
     rbind (rob_squash isThreadExiting squashed_inst tid False (cs_rob s)) (\<lambda>rob.
     Inr (cs_send tid (\<lambda>c. c\<lparr>ci_doneSeqNum := squashed_inst, ci_squash := True, ci_robSquashing := True,
                            ci_mispredictInst := None, ci_squashInst := None, ci_pc := Some (cs_pc s tid)\<rparr>)
       (s\<lparr>cs_youngestSeqNum := (cs_youngestSeqNum s)(tid := cs_lastCommitedSeqNum s tid), cs_rob := rob,
          cs_changedROBNumEntries := (cs_changedROBNumEntries s)(tid := True)\<rparr>))))"

definition cs_squashFromTrap :: "bool \<Rightarrow> nat \<Rightarrow> 'pc commit_stage \<Rightarrow> 'pc commit_stage res" where
  "cs_squashFromTrap isThreadExiting tid s =
     rbind (cs_squashAll isThreadExiting tid s) (\<lambda>s.
     Inr (cs_setStatus tid ROBSquashing
       (s\<lparr>cs_trapPending := (cs_trapPending s)(tid := False), cs_noSquashFromTC := (cs_noSquashFromTC s)(tid := False),
          cs_trapInFlight := (cs_trapInFlight s)(tid := False), cs_trapSquash := (cs_trapSquash s)(tid := False)\<rparr>)))"

definition cs_squashFromTC :: "bool \<Rightarrow> nat \<Rightarrow> 'pc commit_stage \<Rightarrow> 'pc commit_stage res" where
  "cs_squashFromTC isThreadExiting tid s =
     rbind (cs_squashAll isThreadExiting tid s) (\<lambda>s.
     rbind (check (\<not> cs_trapPending s tid) Assertion) (\<lambda>_.
     Inr (cs_setStatus tid ROBSquashing
       (s\<lparr>cs_noSquashFromTC := (cs_noSquashFromTC s)(tid := False), cs_tcSquash := (cs_tcSquash s)(tid := False)\<rparr>))))"

definition cs_squashFromSquashAfter :: "bool \<Rightarrow> nat \<Rightarrow> 'pc commit_stage \<Rightarrow> 'pc commit_stage res" where
  "cs_squashFromSquashAfter isThreadExiting tid s =
     rbind (cs_squashAll isThreadExiting tid s) (\<lambda>s.
     Inr (cs_setStatus tid ROBSquashing
       (cs_send tid (\<lambda>c. c\<lparr>ci_squashInst := cs_squashAfterInst s tid\<rparr>) s)
         \<lparr>cs_squashAfterInst := (cs_squashAfterInst s)(tid := None)\<rparr>))"

definition cs_squashAfter :: "nat \<Rightarrow> seqnum \<Rightarrow> 'pc commit_stage \<Rightarrow> 'pc commit_stage res" where
  "cs_squashAfter tid head_inst s =
     rbind (check (cs_squashAfterInst s tid = None \<or> cs_squashAfterInst s tid = Some head_inst) Assertion) (\<lambda>_.
     Inr (cs_setStatus tid SquashAfterPending s\<lparr>cs_squashAfterInst := (cs_squashAfterInst s)(tid := Some head_inst)\<rparr>))"

text \<open>The first part of the loop body of \<open>commit\<close>: a squash the stage itself has asked for.\<close>

definition cs_own_squash :: "bool \<Rightarrow> nat \<Rightarrow> 'pc commit_stage \<Rightarrow> 'pc commit_stage res" where
  "cs_own_squash isThreadExiting tid s =
     (if cs_trapSquash s tid then
        rbind (check (\<not> cs_tcSquash s tid) Assertion) (\<lambda>_.
        rbind (cs_squashFromTrap isThreadExiting tid s) (\<lambda>s.
        Inr (if isThreadExiting then s\<lparr>cs_exitEvents := cs_exitEvents s @ [tid]\<rparr> else s)))
      else if cs_tcSquash s tid then
        rbind (check (cs_commitStatus s tid \<noteq> TrapPending) Assertion) (\<lambda>_. cs_squashFromTC isThreadExiting tid s)
      else if cs_commitStatus s tid = SquashAfterPending then cs_squashFromSquashAfter isThreadExiting tid s
      else Inr s)"

text \<open>The second part: a squash from the execute stage.  The flag \<open>mem\<close> is the local \<open>squashedDueToMemOrder\<close>.\<close>

definition cs_iew_squash :: "bool \<Rightarrow> 'pc iew_info \<Rightarrow> nat \<Rightarrow> bool \<Rightarrow> 'pc commit_stage \<Rightarrow> (bool \<times> 'pc commit_stage) res" where
  "cs_iew_squash isThreadExiting fromIEW tid mem s =
     (if iw_squash fromIEW \<and> cs_commitStatus s tid \<noteq> TrapPending \<and> iw_squashedSeqNum fromIEW \<le> cs_youngestSeqNum s tid then
        let mem = (if iw_mispredictInst fromIEW \<noteq> None then mem else True);
            s = cs_setStatus tid (if mem then ROBSquashingDueToMemOrder else ROBSquashing) s;
            squashed_inst = (if iw_includeSquashInst fromIEW then iw_squashedSeqNum fromIEW - 1 else iw_squashedSeqNum fromIEW);
            s = s\<lparr>cs_youngestSeqNum := (cs_youngestSeqNum s)(tid := squashed_inst)\<rparr> in
        rbind (rob_squash isThreadExiting squashed_inst tid mem (cs_rob s)) (\<lambda>rob.
        let s = s\<lparr>cs_rob := rob, cs_changedROBNumEntries := (cs_changedROBNumEntries s)(tid := True)\<rparr>;
            uncond = (case iw_mispredictInst fromIEW of Some (_, uncond) \<Rightarrow> uncond | None \<Rightarrow> False);
            s = cs_send tid (\<lambda>c. c\<lparr>ci_doneSeqNum := squashed_inst, ci_squash := True, ci_robSquashing := True,
                  ci_mispredictInst := map_option fst (iw_mispredictInst fromIEW),
                  ci_branchTaken := iw_branchTaken fromIEW \<or> uncond,
                  ci_squashInst := map_option rb_seqNum (rob_findInst tid squashed_inst rob),
                  ci_pc := iw_pc fromIEW\<rparr>) s in
        Inr (mem, if iw_mispredictInst fromIEW \<noteq> None then s\<lparr>cs_branchMispredicts := cs_branchMispredicts s + 1\<rparr> else s))
      else Inr (mem, s))"

definition squashing_status :: "thread_status \<Rightarrow> bool" where
  "squashing_status st \<longleftrightarrow> st = ROBSquashing \<or> st = ROBSquashingDueToMemOrder"

text \<open>The loop of \<open>commit\<close> over the active threads, with \<open>squashedDueToMemOrder\<close> and \<open>num_squashing_threads\<close>.\<close>

fun cs_squash_threads :: "(nat \<Rightarrow> bool) \<Rightarrow> (nat \<Rightarrow> 'pc iew_info) \<Rightarrow> nat list \<Rightarrow> bool \<Rightarrow> nat \<Rightarrow> 'pc commit_stage
    \<Rightarrow> (nat \<times> 'pc commit_stage) res" where
  "cs_squash_threads exiting fromIEW [] mem n s = Inr (n, s)"
| "cs_squash_threads exiting fromIEW (tid # ts) mem n s =
     rbind (cs_own_squash (exiting tid) tid s) (\<lambda>s.
     rbind (cs_iew_squash (exiting tid) (fromIEW tid) tid mem s) (\<lambda>(mem, s).
     cs_squash_threads exiting fromIEW ts mem (if squashing_status (cs_commitStatus s tid) then n + 1 else n) s))"

section \<open>Instructions from the rename and execute stages\<close>

definition cs_getInst :: "rob_inst \<Rightarrow> 'pc commit_stage \<Rightarrow> 'pc commit_stage res" where
  "cs_getInst inst s =
     (let tid = rb_threadNumber inst in
      if \<not> rb_Squashed inst \<and> cs_commitStatus s tid \<noteq> ROBSquashing \<and> cs_commitStatus s tid \<noteq> TrapPending then
        rbind (rob_insertInst inst (cs_rob s)) (\<lambda>rob.
        rbind (check (rob_threadEntries rob tid \<le> rob_maxEntries rob tid) Assertion) (\<lambda>_.
        Inr (s\<lparr>cs_changedROBNumEntries := (cs_changedROBNumEntries s)(tid := True), cs_rob := rob,
               cs_youngestSeqNum := (cs_youngestSeqNum s)(tid := rb_seqNum inst)\<rparr>)))
      else Inr s)"

definition cs_getInsts :: "nat \<Rightarrow> rob_inst list \<Rightarrow> 'pc commit_stage \<Rightarrow> 'pc commit_stage res" where
  "cs_getInsts renameWidth fromRename s = rfold cs_getInst (take renameWidth fromRename) s"

definition cs_markCompletedInsts :: "(nat \<times> seqnum) list \<Rightarrow> 'pc commit_stage \<Rightarrow> 'pc commit_stage" where
  "cs_markCompletedInsts fromIEW s =
     s\<lparr>cs_rob := fold (\<lambda>(tid, sn). rob_markCompleted tid sn) fromIEW (cs_rob s)\<rparr>"

text \<open>
  The squash and insertion part of \<open>commit\<close>.  What follows the insertion in the same branch, \<open>commitInsts\<close>, is not part of it.
\<close>

definition cs_commit_front :: "(nat \<Rightarrow> bool) \<Rightarrow> (nat \<Rightarrow> 'pc iew_info) \<Rightarrow> nat \<Rightarrow> rob_inst list \<Rightarrow> 'pc commit_stage \<Rightarrow> 'pc commit_stage res" where
  "cs_commit_front exiting fromIEW renameWidth fromRename s =
     rbind (cs_squash_threads exiting fromIEW (rob_activeThreads (cs_rob s)) False 0 s) (\<lambda>(num_squashing_threads, s).
     let s = (if num_squashing_threads \<noteq> 0 then s\<lparr>cs_nextActive := True\<rparr> else s) in
     if num_squashing_threads \<noteq> cs_numThreads s then cs_getInsts renameWidth fromRename s else Inr s)"

text \<open>The loop at the start of \<open>tick\<close>.\<close>

definition cs_tick_thread :: "(nat \<Rightarrow> bool) \<Rightarrow> nat \<Rightarrow> 'pc commit_stage \<Rightarrow> 'pc commit_stage res" where
  "cs_tick_thread exiting tid s =
     (let s = s\<lparr>cs_committedStores := (cs_committedStores s)(tid := False)\<rparr> in
      if squashing_status (cs_commitStatus s tid) then
        if rob_doneSquashing (cs_rob s) tid then Inr (cs_setStatus tid Running s)
        else
          rbind (rob_doSquash (exiting tid) tid (cs_commitStatus s tid = ROBSquashingDueToMemOrder) (cs_rob s)) (\<lambda>rob.
          Inr (cs_send tid (\<lambda>c. c\<lparr>ci_robSquashing := True\<rparr>) (s\<lparr>cs_rob := rob, cs_wroteToTimeBuffer := True\<rparr>)))
      else Inr s)"

definition cs_tick_front :: "(nat \<Rightarrow> bool) \<Rightarrow> 'pc commit_stage \<Rightarrow> 'pc commit_stage res" where
  "cs_tick_front exiting s =
     rfold (cs_tick_thread exiting) (rob_activeThreads (cs_rob s)) (s\<lparr>cs_wroteToTimeBuffer := False, cs_nextActive := False\<rparr>)"

text \<open>
  A cycle of the stage without \<open>commitInsts\<close> and \<open>markCompletedInsts\<close>: the squashes go on, new ones start, and renamed
  instructions are inserted. The records of \<open>cs_toIEW\<close> keep what was sent in earlier cycles.
\<close>

definition cs_cycle_front :: "(nat \<Rightarrow> bool) \<Rightarrow> (nat \<Rightarrow> 'pc iew_info) \<Rightarrow> nat \<Rightarrow> rob_inst list \<Rightarrow> 'pc commit_stage \<Rightarrow> 'pc commit_stage res" where
  "cs_cycle_front exiting fromIEW renameWidth fromRename s =
     rbind (cs_tick_front exiting s) (cs_commit_front exiting fromIEW renameWidth fromRename)"

section \<open>The thread to commit from\<close>

definition can_commit_status :: "thread_status \<Rightarrow> bool" where
  "can_commit_status st \<longleftrightarrow> st = Running \<or> st = Idle \<or> st = FetchTrapPending"

definition cs_isHeadReady :: "nat \<Rightarrow> 'pc commit_stage \<Rightarrow> (bool \<times> 'pc commit_stage) res" where
  "cs_isHeadReady tid s = rbind (rob_isHeadReady tid (cs_rob s)) (\<lambda>(ready, rob). Inr (ready, s\<lparr>cs_rob := rob\<rparr>))"

text \<open>The second list holds the threads in front of the iterator, nearest first.\<close>

fun cs_roundRobin_loop :: "nat list \<Rightarrow> nat list \<Rightarrow> 'pc commit_stage \<Rightarrow> (nat option \<times> 'pc commit_stage) res" where
  "cs_roundRobin_loop [] before s = Inr (None, s)"
| "cs_roundRobin_loop (tid # ts) before s =
     (if can_commit_status (cs_commitStatus s tid) then
        rbind (cs_isHeadReady tid s) (\<lambda>(ready, s).
        if ready then Inr (Some tid, s\<lparr>cs_priority_list := rev before @ ts @ [tid]\<rparr>)
        else cs_roundRobin_loop ts (tid # before) s)
      else cs_roundRobin_loop ts (tid # before) s)"

definition cs_roundRobin :: "'pc commit_stage \<Rightarrow> (nat option \<times> 'pc commit_stage) res" where
  "cs_roundRobin s = cs_roundRobin_loop (cs_priority_list s) [] s"

text \<open>The accumulator is \<open>oldest\<close> and \<open>oldest_seq_num\<close>, an \<open>unsigned\<close>; it is \<open>None\<close> while \<open>first\<close> holds.\<close>

fun cs_oldestReady_loop :: "nat list \<Rightarrow> (nat \<times> u32) option \<Rightarrow> 'pc commit_stage \<Rightarrow> (nat option \<times> 'pc commit_stage) res" where
  "cs_oldestReady_loop [] best s = Inr (map_option fst best, s)"
| "cs_oldestReady_loop (tid # ts) best s =
     (if \<not> rob_isEmpty_thread tid (cs_rob s) \<and> can_commit_status (cs_commitStatus s tid) then
        rbind (cs_isHeadReady tid s) (\<lambda>(ready, s).
        if ready then
          rbind (rob_readHeadInst tid (cs_rob s)) (\<lambda>head_inst.
          case head_inst of
            None \<Rightarrow> Inl NullDeref
          | Some i \<Rightarrow>
              cs_oldestReady_loop ts
                (case best of
                   None \<Rightarrow> Some (tid, ucast (rb_seqNum i))
                 | Some (oldest, oldest_seq_num) \<Rightarrow>
                     if rb_seqNum i < ucast oldest_seq_num then Some (tid, ucast (rb_seqNum i))
                     else Some (oldest, oldest_seq_num)) s)
        else cs_oldestReady_loop ts best s)
      else cs_oldestReady_loop ts best s)"

definition cs_oldestReady :: "'pc commit_stage \<Rightarrow> (nat option \<times> 'pc commit_stage) res" where
  "cs_oldestReady s = cs_oldestReady_loop (rob_activeThreads (cs_rob s)) None s"

text \<open>The loop over the exiting threads: \<open>None\<close> when there is none to commit from.\<close>

fun cs_exiting_thread :: "(nat \<Rightarrow> bool) \<Rightarrow> nat list \<Rightarrow> 'pc commit_stage \<Rightarrow> (nat option \<times> 'pc commit_stage) res" where
  "cs_exiting_thread exiting [] s = Inr (None, s)"
| "cs_exiting_thread exiting (tid # ts) s =
     (if exiting tid \<and> \<not> rob_isEmpty_thread tid (cs_rob s) \<and> can_commit_status (cs_commitStatus s tid) then
        rbind (cs_isHeadReady tid s) (\<lambda>(ready, s).
        rbind (check ready Assertion) (\<lambda>_.
        rbind (rob_readHeadInst tid (cs_rob s)) (\<lambda>head_inst.
        rbind (check (case head_inst of None \<Rightarrow> False | Some i \<Rightarrow> rb_Squashed i) Assertion) (\<lambda>_.
        Inr (Some tid, s)))))
      else cs_exiting_thread exiting ts s)"

definition cs_getCommittingThread :: "(nat \<Rightarrow> bool) \<Rightarrow> 'pc commit_stage \<Rightarrow> (nat option \<times> 'pc commit_stage) res" where
  "cs_getCommittingThread exiting s =
     (if cs_numThreads s > 1 then
        rbind (cs_exiting_thread exiting (rob_activeThreads (cs_rob s)) s) (\<lambda>(r, s).
        if r \<noteq> None then Inr (r, s)
        else (case cs_commitPolicy s of RoundRobin \<Rightarrow> cs_roundRobin s | OldestReady \<Rightarrow> cs_oldestReady s))
      else
        (case rob_activeThreads (cs_rob s) of
           [] \<Rightarrow> Inl Assertion
         | tid # _ \<Rightarrow> Inr (if can_commit_status (cs_commitStatus s tid) then Some tid else None, s)))"

section \<open>Readiness\<close>

definition cs_ready :: "nat \<Rightarrow> 'pc commit_stage \<Rightarrow> bool" where
  "cs_ready tid s \<longleftrightarrow> can_commit_status (cs_commitStatus s tid) \<and>
     rob_instList (cs_rob s) tid \<noteq> [] \<and> rb_CanCommit (hd (rob_instList (cs_rob s) tid))"

definition head_seq :: "nat \<Rightarrow> 'pc commit_stage \<Rightarrow> seqnum" where
  "head_seq tid s = rb_seqNum (hd (rob_instList (cs_rob s) tid))"

text \<open>A read of the buffer changes its counters only.\<close>

definition with_stats :: "rob_counters \<Rightarrow> 'pc commit_stage \<Rightarrow> 'pc commit_stage" where
  "with_stats c s = s\<lparr>cs_rob := (cs_rob s)\<lparr>rob_stats := c\<rparr>\<rparr>"

lemma with_stats_simps [simp]:
  "cs_ready t (with_stats c s) = cs_ready t s" "head_seq t (with_stats c s) = head_seq t s"
  "cs_commitStatus (with_stats c s) = cs_commitStatus s" "with_stats c (with_stats d s) = with_stats c s"
  "rob_instList (cs_rob (with_stats c s)) = rob_instList (cs_rob s)" "rob_activeThreads (cs_rob (with_stats c s)) = rob_activeThreads (cs_rob s)"
  "counts_ok (cs_rob (with_stats c s)) = counts_ok (cs_rob s)" "order_ok (cs_rob (with_stats c s)) = order_ok (cs_rob s)"
  "rob_isEmpty_thread t (cs_rob (with_stats c s)) = rob_isEmpty_thread t (cs_rob s)"
  "rob_readHeadInst t (cs_rob (with_stats c s)) = rob_readHeadInst t (cs_rob s)"
  "cs_priority_list (with_stats c s) = cs_priority_list s"
  by (simp_all add: with_stats_def cs_ready_def head_seq_def counts_ok_def order_ok_def rob_isEmpty_thread_def rob_readHeadInst_def)

lemma with_stats_id: "\<exists>c. s = with_stats c s"
  by (rule exI [of _ "rob_stats (cs_rob s)"]) (simp add: with_stats_def)

lemma isHeadReady_value:
  assumes "counts_ok (cs_rob s)"
  shows "\<exists>c. cs_isHeadReady t s = Inr (rob_instList (cs_rob s) t \<noteq> [] \<and> rb_CanCommit (hd (rob_instList (cs_rob s) t)), with_stats c s)"
  using assms by (cases "rob_instList (cs_rob s) t")
    (auto simp: cs_isHeadReady_def rob_isHeadReady_def counts_ok_def Let_def with_stats_def)

lemma not_empty_thread: "counts_ok r \<Longrightarrow> rob_isEmpty_thread t r \<longleftrightarrow> rob_instList r t = []"
  by (simp add: counts_ok_def rob_isEmpty_thread_def)

lemma readHead_value:
  assumes "counts_ok r" "order_ok r" "rob_instList r t \<noteq> []"
  shows "rob_readHeadInst t r = Inr (Some (hd (rob_instList r t)))"
proof (cases "rob_instList r t")
  case (Cons i l)
  then have "rb_RobEntry i" using assms(2) unfolding order_ok_def by (metis list.set_intros(1))
  then show ?thesis using Cons assms(1) by (simp add: rob_readHeadInst_def counts_ok_def)
qed (use assms(3) in simp)

section \<open>Round robin\<close>

lemma find_SomeD: "find P xs = Some x \<Longrightarrow> P x \<and> x \<in> set xs"
  by (induction xs) (auto split: if_splits)

lemma roundRobin_loop_value:
  assumes "counts_ok (cs_rob s)"
  shows "\<exists>c. cs_roundRobin_loop ts before s =
    (case find (\<lambda>t. cs_ready t s) ts of
       None \<Rightarrow> Inr (None, with_stats c s)
     | Some t \<Rightarrow> Inr (Some t, (with_stats c s)\<lparr>cs_priority_list := rev before @ remove1 t ts @ [t]\<rparr>))"
  using assms
proof (induction ts arbitrary: before s)
  case Nil
  show ?case using with_stats_id [of s] by simp
next
  case (Cons t ts)
  show ?case
  proof (cases "can_commit_status (cs_commitStatus s t)")
    case True
    obtain c where c: "cs_isHeadReady t s = Inr (rob_instList (cs_rob s) t \<noteq> [] \<and> rb_CanCommit (hd (rob_instList (cs_rob s) t)), with_stats c s)"
      using isHeadReady_value [OF Cons.prems] by blast
    show ?thesis
    proof (cases "cs_ready t s")
      case r: True
      then show ?thesis using True c by (auto simp: cs_ready_def intro!: exI [of _ c])
    next
      case r: False
      have "cs_roundRobin_loop (t # ts) before s = cs_roundRobin_loop ts (t # before) (with_stats c s)"
        using True r c by (auto simp: cs_ready_def)
      with Cons.IH [of "with_stats c s" "t # before"] Cons.prems r show ?thesis
        by (cases "find (\<lambda>t. cs_ready t s) ts") (auto dest!: find_SomeD)
    qed
  next
    case False
    then have "\<not> cs_ready t s" by (simp add: cs_ready_def)
    then show ?thesis using False Cons.IH [of s "t # before"] Cons.prems
      by (cases "find (\<lambda>t. cs_ready t s) ts") (auto dest!: find_SomeD)
  qed
qed

text \<open>The position of a thread in the priority list.\<close>

definition place :: "nat \<Rightarrow> nat list \<Rightarrow> nat" where
  "place t xs = length (takeWhile (\<lambda>u. u \<noteq> t) xs)"

lemma place_less: "t \<in> set xs \<Longrightarrow> place t xs < length xs"
  by (induction xs) (auto simp: place_def)

lemma place_moves_up:
  assumes "find P xs = Some u" "u \<noteq> t" "P t" "t \<in> set xs"
  shows "t \<in> set (remove1 u xs @ [u]) \<and> place t xs = Suc (place t (remove1 u xs @ [u]))"
  using assms
proof (induction xs)
  case (Cons x xs)
  show ?case
  proof (cases "P x")
    case True
    then have u: "u = x" using Cons.prems(1) by simp
    then have "t \<in> set xs" using Cons.prems by auto
    then show ?thesis using u Cons.prems(2) by (simp add: place_def)
  next
    case False
    then have "find P xs = Some u" "x \<noteq> t" "t \<in> set xs" using Cons.prems by auto
    moreover from this have "x \<noteq> u" using False find_SomeD by metis
    ultimately show ?thesis using Cons.IH Cons.prems(2,3) by (auto simp: place_def)
  qed
qed simp

lemma roundRobin_value:
  assumes "counts_ok (cs_rob s)" "t \<in> set (cs_priority_list s)" "cs_ready t s"
  shows "\<exists>u s'. cs_roundRobin s = Inr (Some u, s') \<and>
    (u = t \<or> t \<in> set (cs_priority_list s') \<and> place t (cs_priority_list s) = Suc (place t (cs_priority_list s')))"
proof -
  obtain u where u: "find (\<lambda>t. cs_ready t s) (cs_priority_list s) = Some u" 
    using assms(2,3) by (cases "find (\<lambda>t. cs_ready t s) (cs_priority_list s)") (auto simp: find_None_iff)
  obtain c where "cs_roundRobin s = Inr (Some u, (with_stats c s)\<lparr>cs_priority_list := remove1 u (cs_priority_list s) @ [u]\<rparr>)"
    using roundRobin_loop_value [OF assms(1), of "cs_priority_list s" "[]"] u by (auto simp: cs_roundRobin_def)
  then show ?thesis using place_moves_up [OF u _ assms(3,2)] by auto
qed

section \<open>Oldest ready\<close>

lemma head_loop_thread: "rob_head_loop il ts None = Some x \<Longrightarrow> fst x \<in> set ts"
proof -
  have "rob_head_loop il ts h = Some x \<Longrightarrow> h = Some x \<or> fst x \<in> set ts" for h
  proof (induction ts arbitrary: h)
    case (Cons t ts)
    have "head_step il t h = h \<or> head_step il t h = Some (t, rb_seqNum (hd (il t)))" by (simp add: head_step_def)
    then show ?case using Cons.IH [of "head_step il t h"] Cons.prems unfolding head_loop_Cons by auto
  qed simp
  then show "rob_head_loop il ts None = Some x \<Longrightarrow> fst x \<in> set ts" by blast
qed

definition small :: "seqnum \<Rightarrow> bool" where
  "small n \<longleftrightarrow> n < 2 ^ 32"

lemma small_ucast: "small n \<Longrightarrow> ucast (ucast n :: u32) = n"
proof -
  assume "small n"
  then have "unat n < 2 ^ 32" by (simp add: small_def word_less_nat_alt)
  then have "unat (ucast (ucast n :: u32) :: seqnum) = unat n" by (simp add: unsigned_ucast_eq unsigned_take_bit_eq take_bit_nat_eq_self)
  then show ?thesis by (simp add: word_unat_eq_iff)
qed

text \<open>While the sequence numbers fit 32 bits, the search is the head search of the buffer over the ready threads.\<close>

lemma oldestReady_loop_value:
  assumes "counts_ok (cs_rob s)" "order_ok (cs_rob s)" "\<forall>t\<in>set ts. cs_ready t s \<longrightarrow> small (head_seq t s)" "\<forall>x. h = Some x \<longrightarrow> small (snd x)"
  shows "\<exists>c. cs_oldestReady_loop ts (map_option (\<lambda>(t, n). (t, ucast n)) h) s =
    Inr (map_option fst (rob_head_loop (rob_instList (cs_rob s)) (filter (\<lambda>t. cs_ready t s) ts) h), with_stats c s)"
  using assms
proof (induction ts arbitrary: h s)
  case Nil
  show ?case using with_stats_id [of s] by (cases h) auto
next
  case (Cons t ts)
  let ?il = "rob_instList (cs_rob s)"
  show ?case
  proof (cases "can_commit_status (cs_commitStatus s t) \<and> ?il t \<noteq> []")
    case True
    obtain c where c: "cs_isHeadReady t s = Inr (?il t \<noteq> [] \<and> rb_CanCommit (hd (?il t)), with_stats c s)"
      using isHeadReady_value [OF Cons.prems(1)] by blast
    show ?thesis
    proof (cases "cs_ready t s")
      case r: True
      obtain i l where il: "?il t = i # l" using True by (cases "?il t") auto
      then have i: "small (rb_seqNum i)" using Cons.prems(3) r by (simp add: head_seq_def)
      define h' where "h' = (case h of None \<Rightarrow> Some (t, rb_seqNum i)
        | Some (u, n) \<Rightarrow> if rb_seqNum i < n then Some (t, rb_seqNum i) else Some (u, n))"
      have h': "\<forall>x. h' = Some x \<longrightarrow> small (snd x)" using i Cons.prems(4) by (auto simp: h'_def split: option.splits)
      have "cs_oldestReady_loop (t # ts) (map_option (\<lambda>(t, n). (t, ucast n)) h) s =
          cs_oldestReady_loop ts (map_option (\<lambda>(t, n). (t, ucast n)) h') (with_stats c s)"
        using True c il r Cons.prems(1,2,4) readHead_value [OF Cons.prems(1,2), of t]
        by (cases h) (auto simp: not_empty_thread cs_ready_def h'_def small_ucast)
      moreover have "rob_head_loop ?il (filter (\<lambda>t. cs_ready t s) (t # ts)) h = rob_head_loop ?il (filter (\<lambda>t. cs_ready t s) ts) h'"
        using r il by (cases h) (auto simp: h'_def)
      ultimately show ?thesis using Cons.IH [of "with_stats c s" h'] Cons.prems(1-3) h' by simp
    next
      case r: False
      then have "cs_oldestReady_loop (t # ts) b s = cs_oldestReady_loop ts b (with_stats c s)" for b
        using True c Cons.prems(1) by (auto simp: not_empty_thread cs_ready_def)
      then show ?thesis using Cons.IH [of "with_stats c s" h] Cons.prems r by simp
    qed
  next
    case False
    then have "\<not> cs_ready t s" "cs_oldestReady_loop (t # ts) b s = cs_oldestReady_loop ts b s" for b
      using Cons.prems(1) by (auto simp: not_empty_thread cs_ready_def)
    then show ?thesis using Cons.IH [of s h] Cons.prems by simp
  qed
qed

section \<open>One thread squashing\<close>

lemma doSquash_active:
  assumes "rob_doSquash ex tid mem s = Inr s'"
  shows "rob_activeThreads s' = rob_activeThreads s"
  using assms
  by (auto simp: rob_doSquash_def Let_def rob_end_squash_def rob_updateTail_def rob_count_write_def split: option.splits if_splits prod.splits)

text \<open>The stage runs one thread and no squash is pending besides the one that is going on.\<close>

definition lone_squash :: "nat \<Rightarrow> thread_status \<Rightarrow> 'pc commit_stage \<Rightarrow> bool" where
  "lone_squash tid st s \<longleftrightarrow> rob_activeThreads (cs_rob s) = [tid] \<and> cs_numThreads s = 1 \<and> cs_commitStatus s tid = st \<and>
     squashing_status st \<and> \<not> cs_trapSquash s tid \<and> \<not> cs_tcSquash s tid"

lemma lone_cycle:
  assumes "lone_squash tid st s" "\<not> rob_doneSquashing (cs_rob s) tid" "\<not> iw_squash (fromIEW tid)"
    "rob_doSquash (exiting tid) tid (st = ROBSquashingDueToMemOrder) (cs_rob s) = Inr rob"
  shows "\<exists>s'. cs_cycle_front exiting fromIEW w insts s = Inr s' \<and> cs_rob s' = rob \<and> lone_squash tid st s'"
proof -
  let ?s1 = "cs_send tid (\<lambda>c. c\<lparr>ci_robSquashing := True\<rparr>) (s\<lparr>cs_nextActive := False,
    cs_committedStores := (cs_committedStores s)(tid := False), cs_rob := rob, cs_wroteToTimeBuffer := True\<rparr>)"
  have tick: "cs_tick_front exiting s = Inr ?s1"
    using assms by (simp add: cs_tick_front_def cs_tick_thread_def lone_squash_def Let_def)
  have lone: "lone_squash tid st ?s1" using assms(1) doSquash_active [OF assms(4)] by (simp add: lone_squash_def cs_send_def)
  then have "cs_squash_threads exiting fromIEW [tid] False 0 ?s1 = Inr (1, ?s1)"
    using assms(3) by (auto simp: cs_own_squash_def cs_iew_squash_def lone_squash_def squashing_status_def)
  then have "cs_commit_front exiting fromIEW w insts ?s1 = Inr (?s1\<lparr>cs_nextActive := True\<rparr>)"
    using lone by (simp add: cs_commit_front_def lone_squash_def)
  then show ?thesis using tick lone by (simp add: cs_cycle_front_def lone_squash_def cs_send_def)
qed

type_synonym 'pc cycle_input = "(nat \<Rightarrow> bool) \<times> (nat \<Rightarrow> 'pc iew_info) \<times> nat \<times> rob_inst list"

definition cs_cycles :: "'pc cycle_input list \<Rightarrow> 'pc commit_stage \<Rightarrow> 'pc commit_stage res" where
  "cs_cycles cyc s = rfold (\<lambda>(exiting, fromIEW, w, insts). cs_cycle_front exiting fromIEW w insts) cyc s"

lemma lone_cycles:
  assumes "lone_squash tid st s" "\<forall>(exiting, fromIEW, w, insts)\<in>set cyc. \<not> iw_squash (fromIEW tid)"
    "rob_squash_cycles tid (st = ROBSquashingDueToMemOrder) (map (\<lambda>(exiting, _). exiting tid) cyc) (cs_rob s) = Inr rob"
    "rob_doneSquashing rob tid"
  shows "\<exists>j\<le>length cyc. \<exists>s'. cs_cycles (take j cyc) s = Inr s' \<and> cs_rob s' = rob \<and> lone_squash tid st s'"
  using assms
proof (induction cyc arbitrary: s)
  case Nil
  then show ?case by (simp add: rob_squash_cycles_def cs_cycles_def)
next
  case (Cons x cyc)
  show ?case
  proof (cases "rob_doneSquashing (cs_rob s) tid")
    case True
    then have "rob = cs_rob s" using Cons.prems(3) squash_cycles_done by fastforce
    then show ?thesis using Cons.prems(1) by (intro exI [of _ 0]) (simp add: cs_cycles_def)
  next
    case False
    obtain exiting fromIEW w insts where x: "x = (exiting, fromIEW, w, insts)" by (cases x)
    from Cons.prems(3) obtain r1 where r1: "rob_doSquash (exiting tid) tid (st = ROBSquashingDueToMemOrder) (cs_rob s) = Inr r1"
      "rob_squash_cycles tid (st = ROBSquashingDueToMemOrder) (map (\<lambda>(exiting, _). exiting tid) cyc) r1 = Inr rob"
      using False x by (auto simp: rob_squash_cycles_def rob_squash_cycle_def rbind_eq_Inr)
    have "\<not> iw_squash (fromIEW tid)" using Cons.prems(2) x by simp
    from lone_cycle [where exiting = exiting and fromIEW = fromIEW, OF Cons.prems(1) False this r1(1), of w insts] obtain s1 where
      s1: "cs_cycle_front exiting fromIEW w insts s = Inr s1" "cs_rob s1 = r1" "lone_squash tid st s1" by blast
    from Cons.IH [OF s1(3)] Cons.prems(2,4) r1(2) s1(2) obtain j s' where
      "j \<le> length cyc" "cs_cycles (take j cyc) s1 = Inr s'" "cs_rob s' = rob" "lone_squash tid st s'" by auto
    then show ?thesis using s1(1) x by (intro exI [of _ "Suc j"]) (simp add: cs_cycles_def)
  qed
qed

text \<open>The first cycle: the execute stage asks for a squash.\<close>

definition squash_request :: "nat \<Rightarrow> 'pc iew_info \<Rightarrow> 'pc commit_stage \<Rightarrow> bool" where
  "squash_request tid iw s \<longleftrightarrow> iw_squash iw \<and> iw_squashedSeqNum iw \<le> cs_youngestSeqNum s tid \<and>
     rob_activeThreads (cs_rob s) = [tid] \<and> cs_numThreads s = 1 \<and> can_commit_status (cs_commitStatus s tid) \<and>
     \<not> cs_trapSquash s tid \<and> \<not> cs_tcSquash s tid"

definition squash_point :: "'pc iew_info \<Rightarrow> seqnum" where
  "squash_point iw = (if iw_includeSquashInst iw then iw_squashedSeqNum iw - 1 else iw_squashedSeqNum iw)"

lemma lone_start:
  assumes "squash_request tid (fromIEW tid) s"
    "rob_squash (exiting tid) (squash_point (fromIEW tid)) tid (iw_mispredictInst (fromIEW tid) = None) (cs_rob s) = Inr rob"
    "rob_activeThreads rob = [tid]"
  shows "\<exists>s'. cs_commit_front exiting fromIEW w insts s = Inr s' \<and> cs_rob s' = rob \<and>
    lone_squash tid (if iw_mispredictInst (fromIEW tid) = None then ROBSquashingDueToMemOrder else ROBSquashing) s' \<and>
    ci_doneSeqNum (cs_toIEW s' tid) = squash_point (fromIEW tid)"
proof -
  let ?st = "if iw_mispredictInst (fromIEW tid) = None then ROBSquashingDueToMemOrder else ROBSquashing"
  have req: "iw_squash (fromIEW tid)" "iw_squashedSeqNum (fromIEW tid) \<le> cs_youngestSeqNum s tid" "rob_activeThreads (cs_rob s) = [tid]"
    "cs_numThreads s = 1" "cs_commitStatus s tid \<noteq> TrapPending" "cs_commitStatus s tid \<noteq> SquashAfterPending"
    "\<not> cs_trapSquash s tid" "\<not> cs_tcSquash s tid"
    using assms(1) by (auto simp: squash_request_def can_commit_status_def)
  have "\<exists>s'. cs_iew_squash (exiting tid) (fromIEW tid) tid False s = Inr (iw_mispredictInst (fromIEW tid) = None, s') \<and>
      cs_rob s' = rob \<and> cs_commitStatus s' tid = ?st \<and> cs_numThreads s' = 1 \<and> \<not> cs_trapSquash s' tid \<and> \<not> cs_tcSquash s' tid \<and>
      ci_doneSeqNum (cs_toIEW s' tid) = squash_point (fromIEW tid)"
    using req assms(2) by (cases "iw_mispredictInst (fromIEW tid)")
      (simp_all add: cs_iew_squash_def Let_def cs_setStatus_def cs_send_def squash_point_def)
  then obtain s' where s': "cs_iew_squash (exiting tid) (fromIEW tid) tid False s = Inr (iw_mispredictInst (fromIEW tid) = None, s')"
      "cs_rob s' = rob" "cs_commitStatus s' tid = ?st" "cs_numThreads s' = 1" "\<not> cs_trapSquash s' tid" "\<not> cs_tcSquash s' tid"
      "ci_doneSeqNum (cs_toIEW s' tid) = squash_point (fromIEW tid)" by blast
  have "cs_squash_threads exiting fromIEW [tid] False 0 s = Inr (1, s')"
    using req s' by (simp add: cs_own_squash_def squashing_status_def)
  then have "cs_commit_front exiting fromIEW w insts s = Inr (s'\<lparr>cs_nextActive := True\<rparr>)"
    using req(3) s'(4) by (simp add: cs_commit_front_def)
  then show ?thesis using s' assms(3) by (simp add: lone_squash_def squashing_status_def)
qed

lemma squash_active: "rob_squash ex sq tid mem r = Inr r' \<Longrightarrow> rob_activeThreads r' = rob_activeThreads r"
  by (auto simp: rob_squash_def Let_def dest!: doSquash_active split: if_splits)

section \<open>Concrete stages\<close>

definition ex_run :: "nat \<Rightarrow> rob_call list \<Rightarrow> (rob \<times> rob_inst list) option" where
  "ex_run threads calls = (case rob_new Dynamic 8 1 100 threads of Inl _ \<Rightarrow> None | Inr s \<Rightarrow> rob_run calls s [])"

lemma ex_run_reach: "ex_run threads calls = Some (s, log) \<Longrightarrow> threads \<le> MaxThreads \<Longrightarrow> rob_reach s log"
proof -
  assume run: "ex_run threads calls = Some (s, log)" and "threads \<le> MaxThreads"
  then obtain s0 where s0: "rob_new Dynamic 8 1 100 threads = Inr s0" "rob_run calls s0 [] = Some (s, log)"
    by (auto simp: ex_run_def split: sum.splits)
  have "rob_reach s0 []" by (rule rob_reach.start [OF s0(1)]) (use \<open>threads \<le> MaxThreads\<close> in simp_all)
  then show ?thesis using s0(2) by (rule run_reach)
qed

definition ex_load :: "nat \<Rightarrow> seqnum \<Rightarrow> rob_inst" where
  "ex_load tid n = (ex_inst n)\<lparr>rb_threadNumber := tid\<rparr>"

definition ex_stage :: "nat \<Rightarrow> nat list \<Rightarrow> rob \<Rightarrow> unit commit_stage" where
  "ex_stage threads prio r = \<lparr>cs_rob = r, cs_nextActive = False, cs_commitStatus = \<lambda>_. Running, cs_commitPolicy = RoundRobin,
     cs_trapSquash = \<lambda>_. False, cs_tcSquash = \<lambda>_. False, cs_squashAfterInst = \<lambda>_. None, cs_priority_list = prio,
     cs_numThreads = threads, cs_pc = \<lambda>_. (), cs_youngestSeqNum = \<lambda>_. 9, cs_lastCommitedSeqNum = \<lambda>_. 0, cs_trapInFlight = \<lambda>_. False,
     cs_committedStores = \<lambda>_. False, cs_changedROBNumEntries = \<lambda>_. False, cs_wroteToTimeBuffer = False,
     cs_trapPending = \<lambda>_. False, cs_noSquashFromTC = \<lambda>_. False,
     cs_toIEW = \<lambda>_. \<lparr>ci_doneSeqNum = 0, ci_squash = False, ci_robSquashing = False, ci_mispredictInst = None, ci_branchTaken = False,
       ci_squashInst = None, ci_pc = None\<rparr>, cs_exitEvents = [], cs_branchMispredicts = 0\<rparr>"

text \<open>No request, an order violation down to \<open>n\<close>, a mispredicted branch \<open>n\<close>.\<close>

definition ex_quiet :: "unit iew_info" where
  "ex_quiet = \<lparr>iw_squash = False, iw_squashedSeqNum = 0, iw_mispredictInst = None, iw_includeSquashInst = False, iw_branchTaken = False, iw_pc = None\<rparr>"

definition ex_violation :: "seqnum \<Rightarrow> unit iew_info" where
  "ex_violation n = ex_quiet\<lparr>iw_squash := True, iw_squashedSeqNum := n\<rparr>"

definition ex_mispredict :: "seqnum \<Rightarrow> unit iew_info" where
  "ex_mispredict n = ex_quiet\<lparr>iw_squash := True, iw_squashedSeqNum := n, iw_mispredictInst := Some (n, False)\<rparr>"

definition ex_one :: "(rob \<times> rob_inst list) option" where
  "ex_one = ex_run 1 [SetActive [0], InsertInst (ex_load 0 1), InsertInst (ex_load 0 2), InsertInst (ex_load 0 3)]"

lemma ex_one_reach:
  obtains r log where "rob_reach r log" "rob_activeThreads r = [0]" "rob_squashWidth r = 1" "map rb_seqNum (rob_instList r 0) = [1, 2, 3]"
    "map rb_isLoad (rob_instList r 0) = [True, True, True]" "map rb_dueToMemOrder (rob_instList r 0) = [False, False, False]"
proof -
  have view: "map_option (\<lambda>(r, log). (rob_activeThreads r, rob_squashWidth r, map rb_seqNum (rob_instList r 0),
      map rb_isLoad (rob_instList r 0), map rb_dueToMemOrder (rob_instList r 0))) ex_one =
    Some ([0], 1, [1, 2, 3], [True, True, True], [False, False, False])" by code_simp
  then obtain r log where r: "ex_one = Some (r, log)" by auto
  then have "rob_reach r log" using ex_run_reach by (auto simp: ex_one_def MaxThreads_def)
  with view show thesis unfolding r by (intro that [of r log]) simp_all
qed

text \<open>Two threads; the heads of both are ready and that of thread 1 is the older one.\<close>

definition ex_two :: "seqnum \<Rightarrow> (rob \<times> rob_inst list) option" where
  "ex_two n = ex_run 2 [SetActive [0, 1], InsertInst (ex_load 1 (n + 1)), InsertInst (ex_load 0 (n + 5)),
     MarkCompleted 1 (n + 1), MarkCompleted 0 (n + 5)]"

definition ex_heads :: "rob \<Rightarrow> (seqnum \<times> bool) list \<times> (seqnum \<times> bool) list" where
  "ex_heads r = (map (\<lambda>i. (rb_seqNum i, rb_CanCommit i)) (rob_instList r 0), map (\<lambda>i. (rb_seqNum i, rb_CanCommit i)) (rob_instList r 1))"

lemma ex_two_small:
  "map_option (\<lambda>(r, log). (rob_activeThreads r, ex_heads r)) (ex_two 0) = Some ([0, 1], [(5, True)], [(1, True)])"
  "map_option (\<lambda>(r, log). map_sum id (\<lambda>(t, s). (t, cs_priority_list s)) (cs_roundRobin (ex_stage 2 [1, 0] r))) (ex_two 0) = Some (Inr (Some 1, [0, 1]))"
  "map_option (\<lambda>(r, log). map_sum id (\<lambda>(t, s). (t, cs_priority_list s)) (cs_roundRobin (ex_stage 2 [0, 1] r))) (ex_two 0) = Some (Inr (Some 0, [1, 0]))"
  by code_simp+

lemma ex_two_large:
  "map_option (\<lambda>(r, log). (rob_activeThreads r, ex_heads r, map_sum id fst (cs_oldestReady (ex_stage 2 [] r)))) (ex_two 0x100000000) =
    Some ([0, 1], ([(0x100000005, True)], [(0x100000001, True)]), Inr (Some 0))"
  by code_simp

definition ex_no_exit :: "nat \<Rightarrow> bool" where
  "ex_no_exit tid = False"

definition ex_cycle :: "unit cycle_input" where
  "ex_cycle = (ex_no_exit, \<lambda>_. ex_quiet, 8, [])"

lemma map_sum_InrD: "map_sum id f x = Inr y \<Longrightarrow> \<exists>z. x = Inr z \<and> f z = y"
  by (cases x) simp_all

section \<open>Properties\<close>

text \<open>C22. On a core that runs one thread, a squash asked for by the execute stage is carried out with its right cause.  Within as
  many cycles as the squash width needs, whatever the rename stage sends meanwhile, exactly the instructions younger than the
  squash point are marked squashed; the loads among them are marked as squashed for memory order exactly when the request
  names no mispredicted branch, and the status of the thread records the same cause.  The cycles are those of the squash and insertion
  part: nothing is committed or marked completed meanwhile.\<close>

theorem commit_squash_single:
  assumes "rob_reach (cs_rob s) log" "squash_request tid (fromIEW tid) s"
    "\<forall>(exiting, fromIEW, w, insts)\<in>set cyc. \<not> iw_squash (fromIEW tid)"
    "length (filter (\<lambda>i. squash_point (fromIEW tid) < rb_seqNum i) (rob_instList (cs_rob s) tid)) \<le> rob_squashWidth (cs_rob s) * Suc (length cyc)"
  shows "\<exists>s1 j s2. cs_commit_front exiting fromIEW w insts s = Inr s1 \<and> j \<le> length cyc \<and> cs_cycles (take j cyc) s1 = Inr s2 \<and>
    rob_doneSquashing (cs_rob s2) tid \<and>
    cs_commitStatus s2 tid = (if iw_mispredictInst (fromIEW tid) = None then ROBSquashingDueToMemOrder else ROBSquashing) \<and>
    rob_instList (cs_rob s2) tid = map (\<lambda>i. if squash_point (fromIEW tid) < rb_seqNum i
      then i\<lparr>rb_Squashed := True, rb_CanCommit := True,
             rb_dueToMemOrder := iw_mispredictInst (fromIEW tid) = None \<and> (rb_isLoad i \<or> rb_dueToMemOrder i)\<rparr> else i)
      (rob_instList (cs_rob s) tid)"
proof -
  let ?mem = "iw_mispredictInst (fromIEW tid) = None" and ?st = "if iw_mispredictInst (fromIEW tid) = None then ROBSquashingDueToMemOrder else ROBSquashing"
  have inv: "counts_ok (cs_rob s)" "threads_ok (cs_rob s)" "order_ok (cs_rob s)" "iterators_ok (cs_rob s)"
    using reach_good [OF assms(1)] by (simp_all add: rob_good_def rob_inv_def)
  have "length (filter (\<lambda>i. squash_point (fromIEW tid) < rb_seqNum i) (rob_instList (cs_rob s) tid)) \<le>
      rob_squashWidth (cs_rob s) * Suc (length (map (\<lambda>(exiting, _). exiting tid) cyc))" using assms(4) by simp
  from squash_run [OF inv this, of "exiting tid" ?mem] obtain r1 r2 where r: "rob_squash (exiting tid) (squash_point (fromIEW tid)) tid ?mem (cs_rob s) = Inr r1"
    "rob_squash_cycles tid ?mem (map (\<lambda>(exiting, _). exiting tid) cyc) r1 = Inr r2" "rob_doneSquashing r2 tid"
    "rob_instList r2 tid = map (squashed_to ?mem (squash_point (fromIEW tid))) (rob_instList (cs_rob s) tid)" by blast
  have act: "rob_activeThreads r1 = [tid]" using squash_active [OF r(1)] assms(2) by (simp add: squash_request_def)
  from lone_start [where fromIEW = fromIEW and exiting = exiting, OF assms(2) r(1) act, of w insts] obtain s1 where
    s1: "cs_commit_front exiting fromIEW w insts s = Inr s1" "cs_rob s1 = r1" "lone_squash tid ?st s1" by blast
  have "(?st = ROBSquashingDueToMemOrder) = ?mem" by simp
  with lone_cycles [OF s1(3) assms(3), of r2] r(2,3) s1(2) obtain j s2 where
    "j \<le> length cyc" "cs_cycles (take j cyc) s1 = Inr s2" "cs_rob s2 = r2" "lone_squash tid ?st s2" by auto
  then show ?thesis using s1(1) r(3,4) unfolding squashed_to_effect lone_squash_def by blast
qed

theorem commit_squash_single_witness:
  "\<exists>s s1 j s2. cs_commit_front ex_no_exit (\<lambda>_. ex_violation 1) 8 [] s = Inr s1 \<and> cs_cycles (take j [ex_cycle]) s1 = Inr s2 \<and>
    map rb_dueToMemOrder (rob_instList (cs_rob s2) 0) = [False, True, True]"
proof -
  obtain r log where r: "rob_reach r log" "rob_activeThreads r = [0]" "rob_squashWidth r = 1" "map rb_seqNum (rob_instList r 0) = [1, 2, 3]"
    "map rb_isLoad (rob_instList r 0) = [True, True, True]" "map rb_dueToMemOrder (rob_instList r 0) = [False, False, False]"
    by (rule ex_one_reach)
  then obtain a b c where l: "rob_instList r 0 = [a, b, c]" "rb_seqNum a = 1" "rb_seqNum b = 2" "rb_seqNum c = 3"
    "rb_isLoad b" "rb_isLoad c" "\<not> rb_dueToMemOrder a" by (auto simp: map_eq_Cons_conv)
  let ?s = "ex_stage 1 [] r"
  have req: "rob_reach (cs_rob ?s) log" "squash_request 0 ((\<lambda>_. ex_violation 1) 0) ?s" "squash_point (ex_violation 1) = 1"
    "iw_mispredictInst (ex_violation 1) = None" "rob_instList (cs_rob ?s) 0 = [a, b, c]"
    using r(1,2) l(1) by (simp_all add: ex_stage_def squash_request_def ex_violation_def ex_quiet_def can_commit_status_def squash_point_def)
  have "\<forall>(exiting, fromIEW, w, insts)\<in>set [ex_cycle]. \<not> iw_squash (fromIEW 0)" by (simp add: ex_cycle_def ex_quiet_def)
  moreover have "length (filter (\<lambda>i. squash_point ((\<lambda>_. ex_violation 1) 0) < rb_seqNum i) (rob_instList (cs_rob ?s) 0)) \<le>
      rob_squashWidth (cs_rob ?s) * Suc (length [ex_cycle])"
    using r(3) by (simp add: req l ex_stage_def)
  ultimately obtain s1 j s2 where s2: "cs_commit_front ex_no_exit (\<lambda>_. ex_violation 1) 8 [] ?s = Inr s1" "cs_cycles (take j [ex_cycle]) s1 = Inr s2"
    "rob_instList (cs_rob s2) 0 = map (\<lambda>i. if 1 < rb_seqNum i
      then i\<lparr>rb_Squashed := True, rb_CanCommit := True, rb_dueToMemOrder := True \<and> (rb_isLoad i \<or> rb_dueToMemOrder i)\<rparr> else i) [a, b, c]"
    using commit_squash_single [of ?s log 0 "\<lambda>_. ex_violation 1" "[ex_cycle]" ex_no_exit 8 "[]"] req by auto
  have "map rb_dueToMemOrder (rob_instList (cs_rob s2) 0) = [False, True, True]" unfolding s2(3) by (simp add: l)
  with s2(1,2) show ?thesis by (intro exI conjI)
qed

text \<open>The oldest-ready policy picks, among the active threads whose state allows them to commit and whose head instruction is
  ready, one whose head is the oldest, as long as their sequence numbers are below \<open>2 ^ 32\<close>; it picks none exactly when there
  is none.\<close>

theorem oldest_ready_picks_oldest:
  assumes "rob_reach (cs_rob s) log" "\<forall>t\<in>set (rob_activeThreads (cs_rob s)). cs_ready t s \<longrightarrow> head_seq t s < 2 ^ 32"
  shows "\<exists>r s'. cs_oldestReady s = Inr (r, s') \<and>
    (case r of
       None \<Rightarrow> \<forall>t\<in>set (rob_activeThreads (cs_rob s)). \<not> cs_ready t s
     | Some t \<Rightarrow> t \<in> set (rob_activeThreads (cs_rob s)) \<and> cs_ready t s \<and>
         (\<forall>u\<in>set (rob_activeThreads (cs_rob s)). cs_ready u s \<longrightarrow> head_seq t s \<le> head_seq u s))"
proof -
  let ?il = "rob_instList (cs_rob s)" and ?ts = "filter (\<lambda>t. cs_ready t s) (rob_activeThreads (cs_rob s))"
  let ?h = "rob_head_loop ?il ?ts None"
  have inv: "counts_ok (cs_rob s)" "order_ok (cs_rob s)" using reach_good [OF assms(1)] by (simp_all add: rob_good_def rob_inv_def)
  have "\<forall>t\<in>set (rob_activeThreads (cs_rob s)). cs_ready t s \<longrightarrow> small (head_seq t s)" using assms(2) by (simp add: small_def)
  from oldestReady_loop_value [OF inv this, of None] obtain c where c: "cs_oldestReady s = Inr (map_option fst ?h, with_stats c s)"
    by (auto simp: cs_oldestReady_def)
  show ?thesis
  proof (cases ?h)
    case None
    then show ?thesis using c unfolding head_loop_None by (auto simp: cs_ready_def)
  next
    case (Some x)
    have "points_to_first ?il ?h" by (rule head_loop_points) (simp add: points_to_first_def)
    then have x: "snd x = head_seq (fst x) s" using Some by (cases x) (simp add: points_to_first_def head_seq_def)
    have "fst x \<in> set ?ts" using head_loop_thread [OF Some] by simp
    moreover have "head_seq (fst x) s \<le> head_seq u s" if "u \<in> set ?ts" for u
      using head_loop_lowest [OF Some] that x by (auto simp: cs_ready_def head_seq_def)
    ultimately show ?thesis using c Some by (intro exI [of _ "Some (fst x)"]) auto
  qed
qed

theorem oldest_ready_picks_oldest_witness:
  "\<exists>r log s'. rob_reach r log \<and> cs_oldestReady (ex_stage 2 [] r) = Inr (Some 1, s')"
proof -
  obtain r log where r: "ex_two 0 = Some (r, log)" using ex_two_small(1) by (cases "ex_two 0") auto
  then have reach: "rob_reach r log" using ex_run_reach by (auto simp: ex_two_def MaxThreads_def)
  let ?s = "ex_stage 2 [] r :: unit commit_stage"
  have h: "rob_activeThreads (cs_rob ?s) = [0, 1]" "cs_ready 0 ?s" "cs_ready 1 ?s" "head_seq 0 ?s = 5" "head_seq 1 ?s = 1"
    using ex_two_small(1) unfolding r by (auto simp: ex_heads_def ex_stage_def cs_ready_def head_seq_def can_commit_status_def map_eq_Cons_conv)
  have "rob_reach (cs_rob ?s) log" using reach by (simp add: ex_stage_def)
  moreover have "\<forall>t\<in>set (rob_activeThreads (cs_rob ?s)). cs_ready t ?s \<longrightarrow> head_seq t ?s < 2 ^ 32" by (simp add: h h [simplified])
  ultimately obtain x s' where x: "cs_oldestReady ?s = Inr (x, s')"
    "case x of None \<Rightarrow> \<forall>t\<in>set (rob_activeThreads (cs_rob ?s)). \<not> cs_ready t ?s
     | Some t \<Rightarrow> t \<in> set (rob_activeThreads (cs_rob ?s)) \<and> cs_ready t ?s \<and>
         (\<forall>u\<in>set (rob_activeThreads (cs_rob ?s)). cs_ready u ?s \<longrightarrow> head_seq t ?s \<le> head_seq u ?s)"
    using oldest_ready_picks_oldest [of ?s log] by blast
  have "x = Some 1" using x(2) h by (auto simp: word_le_nat_alt split: option.splits)
  with x(1) reach show ?thesis by blast
qed

text \<open>Beyond 32 bits the oldest-ready policy picks wrongly.  The oldest sequence number seen is kept in an \<open>unsigned\<close>, so with
  heads \<open>2 ^ 32 + 5\<close> in thread 0 and \<open>2 ^ 32 + 1\<close> in thread 1, both ready, it picks thread 0.\<close>

theorem oldest_ready_truncates:
  "\<exists>r log s'. rob_reach r log \<and> cs_oldestReady (ex_stage 2 [] r) = Inr (Some 0, s') \<and>
    rob_activeThreads r = [0, 1] \<and> ex_heads r = ([(2 ^ 32 + 5, True)], [(2 ^ 32 + 1, True)])"
proof -
  obtain r log where r: "ex_two 0x100000000 = Some (r, log)" using ex_two_large by (cases "ex_two 0x100000000") auto
  then have "rob_reach r log" using ex_run_reach by (auto simp: ex_two_def MaxThreads_def)
  then show ?thesis using ex_two_large unfolding r by (auto dest!: map_sum_InrD)
qed

text \<open>C23. The round-robin policy starves no thread.  However the stage changes from one choice to the next, as long as the
  priority list is left to the policy, a thread of the list that stays ready to commit is chosen at one of the first choices, as
  many as the list is long.\<close>

theorem round_robin_fair:
  assumes "\<forall>k. \<exists>log. rob_reach (cs_rob (run k)) log"
    "\<forall>k r s'. cs_roundRobin (run k) = Inr (r, s') \<longrightarrow> cs_priority_list (run (Suc k)) = cs_priority_list s'"
    "t \<in> set (cs_priority_list (run 0))" "\<forall>k. cs_ready t (run k)"
  shows "\<exists>k<length (cs_priority_list (run 0)). \<exists>s'. cs_roundRobin (run k) = Inr (Some t, s')"
proof (rule ccontr)
  assume never: "\<not> ?thesis"
  have "k \<le> length (cs_priority_list (run 0)) \<Longrightarrow>
    t \<in> set (cs_priority_list (run k)) \<and> place t (cs_priority_list (run k)) + k = place t (cs_priority_list (run 0))" for k
  proof (induction k)
    case (Suc k)
    then have IH: "t \<in> set (cs_priority_list (run k))" "place t (cs_priority_list (run k)) + k = place t (cs_priority_list (run 0))" by simp_all
    obtain log where "rob_reach (cs_rob (run k)) log" using assms(1) by blast
    then have ok: "counts_ok (cs_rob (run k))" using reach_good by (simp add: rob_good_def rob_inv_def)
    obtain u s' where u: "cs_roundRobin (run k) = Inr (Some u, s')"
      "u = t \<or> t \<in> set (cs_priority_list s') \<and> place t (cs_priority_list (run k)) = Suc (place t (cs_priority_list s'))"
      using roundRobin_value [OF ok IH(1)] assms(4) by blast
    have "u \<noteq> t" using never u(1) Suc.prems by auto
    moreover have "cs_priority_list (run (Suc k)) = cs_priority_list s'" using assms(2) u(1) by blast
    ultimately show ?case using u(2) IH(2) by simp
  qed (use assms(3) in simp)
  from this [of "length (cs_priority_list (run 0))"] place_less [OF assms(3)] show False by simp
qed

theorem round_robin_fair_witness:
  "\<exists>run :: nat \<Rightarrow> unit commit_stage. cs_priority_list (run 0) = [1, 0] \<and> (\<exists>k<2. \<exists>s'. cs_roundRobin (run k) = Inr (Some 0, s'))"
proof -
  obtain r log where r: "ex_two 0 = Some (r, log)" using ex_two_small(1) by (cases "ex_two 0") auto
  then have reach: "rob_reach r log" using ex_run_reach by (auto simp: ex_two_def MaxThreads_def)
  define run :: "nat \<Rightarrow> unit commit_stage" where "run k = ex_stage 2 (if even k then [1, 0] else [0, 1]) r" for k
  note v = ex_two_small [unfolded r option.map option.inject prod.case]
  have "\<forall>k. \<exists>log. rob_reach (cs_rob (run k)) log" using reach by (auto simp: run_def ex_stage_def)
  moreover have "\<forall>k x s'. cs_roundRobin (run k) = Inr (x, s') \<longrightarrow> cs_priority_list (run (Suc k)) = cs_priority_list s'"
    using v(2,3) by (auto simp: run_def) (simp_all add: ex_stage_def)
  moreover have "0 \<in> set (cs_priority_list (run 0))" by (simp add: run_def ex_stage_def)
  moreover have "\<forall>k. cs_ready 0 (run k)"
    using v(1) by (auto simp: run_def ex_heads_def ex_stage_def cs_ready_def can_commit_status_def map_eq_Cons_conv)
  ultimately have "\<exists>k<length (cs_priority_list (run 0)). \<exists>s'. cs_roundRobin (run k) = Inr (Some 0, s')" by (rule round_robin_fair)
  then show ?thesis by (intro exI [of _ run]) (simp add: run_def ex_stage_def numeral_2_eq_2)
qed

end
