(* ===== verification/Commit_Threads.thy ===== *)
theory Commit_Threads
  imports Commit_Stage
begin

text \<open>
  The squash loop of \<^verbatim>\<open>Commit::commit\<close> when several threads are active (\<^verbatim>\<open>cpu/o3/commit.cc\<close>). Its local flag
  \<open>squashedDueToMemOrder\<close> is set for one thread and read for all that follow; the insertion of renamed
  instructions looks at the status that the flag decides.
\<close>

section \<open>One thread of the loop\<close>

lemma rob_squash_total:
  assumes "rob_good s log"
  shows "\<exists>s'. rob_squash ex sq tid mem s = Inr s' \<and> rob_good s' log \<and> squash_frame tid s s' \<and>
    (length (filter (\<lambda>i. sq < rb_seqNum i) (rob_instList s tid)) \<le> rob_squashWidth s \<longrightarrow>
       rob_doneSquashing s' tid \<and> rob_instList s' tid = map (squashed_to mem sq) (rob_instList s tid))"
proof -
  have inv: "counts_ok s" "threads_ok s" "order_ok s" "iterators_ok s" using assms by (simp_all add: rob_good_def rob_inv_def)
  from squash_good [OF assms] obtain s' where s': "rob_squash ex sq tid mem s = Inr s'" "rob_good s' log" by blast
  have "squash_frame tid s s'"
  proof (cases "rob_instList s tid = []")
    case True
    then have "s' = s" using s'(1) inv(1) by (simp add: rob_squash_def rob_isEmpty_thread_def counts_ok_def)
    then show ?thesis by (simp add: squash_frame_def)
  next
    case False
    from squash_start [OF _ _ this, of ex sq mem] inv(1,3) s'(1) show ?thesis by (auto simp: counts_ok_def order_ok_def)
  qed
  then show ?thesis using s' squash_run [OF inv, of sq tid "[]" ex mem] by (auto simp: rob_squash_cycles_def)
qed

text \<open>A thread for which the stage itself has asked for no squash, and whether the loop takes the request of the execute stage.\<close>

definition plain_thread :: "'pc commit_stage \<Rightarrow> nat \<Rightarrow> bool" where
  "plain_thread s t \<longleftrightarrow> \<not> cs_trapSquash s t \<and> \<not> cs_tcSquash s t \<and> cs_commitStatus s t \<noteq> TrapPending \<and>
     cs_commitStatus s t \<noteq> SquashAfterPending"

definition accepted :: "(nat \<Rightarrow> 'pc iew_info) \<Rightarrow> 'pc commit_stage \<Rightarrow> nat \<Rightarrow> bool" where
  "accepted fromIEW s t \<longleftrightarrow> iw_squash (fromIEW t) \<and> iw_squashedSeqNum (fromIEW t) \<le> cs_youngestSeqNum s t"

definition order_request :: "(nat \<Rightarrow> 'pc iew_info) \<Rightarrow> 'pc commit_stage \<Rightarrow> nat \<Rightarrow> bool" where
  "order_request fromIEW s t \<longleftrightarrow> accepted fromIEW s t \<and> iw_mispredictInst (fromIEW t) = None"

definition same_thread :: "nat \<Rightarrow> 'pc commit_stage \<Rightarrow> 'pc commit_stage \<Rightarrow> bool" where
  "same_thread t s s' \<longleftrightarrow> cs_commitStatus s' t = cs_commitStatus s t \<and> cs_youngestSeqNum s' t = cs_youngestSeqNum s t \<and>
     cs_trapSquash s' t = cs_trapSquash s t \<and> cs_tcSquash s' t = cs_tcSquash s t \<and> cs_toIEW s' t = cs_toIEW s t \<and>
     rob_instList (cs_rob s') t = rob_instList (cs_rob s) t \<and> rob_doneSquashing (cs_rob s') t = rob_doneSquashing (cs_rob s) t"

definition same_core :: "'pc commit_stage \<Rightarrow> 'pc commit_stage \<Rightarrow> bool" where
  "same_core s s' \<longleftrightarrow> rob_activeThreads (cs_rob s') = rob_activeThreads (cs_rob s) \<and>
     rob_squashWidth (cs_rob s') = rob_squashWidth (cs_rob s) \<and> rob_numEntries (cs_rob s') = rob_numEntries (cs_rob s) \<and>
     rob_numInstsInROB (cs_rob s') = rob_numInstsInROB (cs_rob s) \<and> rob_threadEntries (cs_rob s') = rob_threadEntries (cs_rob s) \<and>
     rob_maxEntries (cs_rob s') = rob_maxEntries (cs_rob s) \<and> cs_numThreads s' = cs_numThreads s"

text \<open>The squash of a thread that the loop has carried out with the flag \<open>mem\<close>.\<close>

definition squashed_thread :: "(nat \<Rightarrow> 'pc iew_info) \<Rightarrow> bool \<Rightarrow> nat \<Rightarrow> 'pc commit_stage \<Rightarrow> 'pc commit_stage \<Rightarrow> bool" where
  "squashed_thread fromIEW mem t s s' \<longleftrightarrow>
     cs_commitStatus s' t = (if mem then ROBSquashingDueToMemOrder else ROBSquashing) \<and>
     ci_mispredictInst (cs_toIEW s' t) = map_option fst (iw_mispredictInst (fromIEW t)) \<and>
     (length (filter (\<lambda>i. squash_point (fromIEW t) < rb_seqNum i) (rob_instList (cs_rob s) t)) \<le> rob_squashWidth (cs_rob s) \<longrightarrow>
        rob_doneSquashing (cs_rob s') t \<and>
        rob_instList (cs_rob s') t = map (squashed_to mem (squash_point (fromIEW t))) (rob_instList (cs_rob s) t))"

lemma own_squash_plain: "plain_thread s t \<Longrightarrow> cs_own_squash ex t s = Inr s"
  by (simp add: plain_thread_def cs_own_squash_def)

lemma iew_squash_step:
  assumes "rob_good (cs_rob s) log" "plain_thread s u"
  shows "\<exists>s'. cs_iew_squash ex (f u) u mem s = Inr (mem \<or> order_request f s u, s') \<and> rob_good (cs_rob s') log \<and>
    (\<forall>t. t \<noteq> u \<longrightarrow> same_thread t s s') \<and> same_core s s' \<and>
    (if accepted f s u then squashed_thread f (mem \<or> order_request f s u) u s s' else s' = s)"
proof (cases "accepted f s u")
  case False
  then show ?thesis using assms
    by (auto simp: cs_iew_squash_def accepted_def order_request_def same_thread_def same_core_def)
next
  case True
  let ?mem = "mem \<or> order_request f s u"
  from rob_squash_total [OF assms(1), of ex "squash_point (f u)" u ?mem] obtain r where
    r: "rob_squash ex (squash_point (f u)) u ?mem (cs_rob s) = Inr r" "rob_good r log" "squash_frame u (cs_rob s) r"
      "length (filter (\<lambda>i. squash_point (f u) < rb_seqNum i) (rob_instList (cs_rob s) u)) \<le> rob_squashWidth (cs_rob s) \<longrightarrow>
       rob_doneSquashing r u \<and> rob_instList r u = map (squashed_to ?mem (squash_point (f u))) (rob_instList (cs_rob s) u)" by blast
  have "\<exists>s'. cs_iew_squash ex (f u) u mem s = Inr (?mem, s') \<and> cs_rob s' = r \<and> cs_numThreads s' = cs_numThreads s \<and>
      cs_commitStatus s' = (cs_commitStatus s)(u := if ?mem then ROBSquashingDueToMemOrder else ROBSquashing) \<and>
      cs_youngestSeqNum s' = (cs_youngestSeqNum s)(u := squash_point (f u)) \<and> cs_trapSquash s' = cs_trapSquash s \<and>
      cs_tcSquash s' = cs_tcSquash s \<and> (\<forall>t. t \<noteq> u \<longrightarrow> cs_toIEW s' t = cs_toIEW s t) \<and>
      ci_mispredictInst (cs_toIEW s' u) = map_option fst (iw_mispredictInst (f u))"
    using True assms(2) r(1) unfolding order_request_def accepted_def plain_thread_def
    by (cases "iw_mispredictInst (f u)") (simp_all add: cs_iew_squash_def Let_def cs_setStatus_def cs_send_def squash_point_def)
  then show ?thesis using True r(2-4) by (elim exE) (auto simp: same_thread_def same_core_def squashed_thread_def squash_frame_def)
qed

section \<open>The loop\<close>

lemma same_thread_simps:
  assumes "same_thread t s s'"
  shows "plain_thread s' t = plain_thread s t" "accepted f s' t = accepted f s t" "order_request f s' t = order_request f s t"
  using assms by (simp_all add: same_thread_def plain_thread_def accepted_def order_request_def)

lemma same_thread_trans: "same_thread t s s' \<Longrightarrow> same_thread t s' s'' \<Longrightarrow> same_thread t s s''"
  by (simp add: same_thread_def)

lemma same_core_trans: "same_core s s' \<Longrightarrow> same_core s' s'' \<Longrightarrow> same_core s s''"
  by (simp add: same_core_def)

lemma squashed_after: "squashed_thread f mem t s s' \<Longrightarrow> same_thread t s' s'' \<Longrightarrow> squashed_thread f mem t s s''"
  by (simp add: squashed_thread_def same_thread_def)

lemma squashed_before: "same_thread t s s' \<Longrightarrow> same_core s s' \<Longrightarrow> squashed_thread f mem t s' s'' \<Longrightarrow> squashed_thread f mem t s s''"
  by (simp add: squashed_thread_def same_thread_def same_core_def)

text \<open>The value of the flag when the loop is at thread \<open>t\<close>.\<close>

definition flag_at :: "(nat \<Rightarrow> 'pc iew_info) \<Rightarrow> 'pc commit_stage \<Rightarrow> nat list \<Rightarrow> nat \<Rightarrow> bool" where
  "flag_at fromIEW s ts t \<longleftrightarrow> (\<exists>u\<in>set (takeWhile (\<lambda>u. u \<noteq> t) ts) \<union> {t}. order_request fromIEW s u)"

lemma flag_at_Cons:
  "flag_at f s (u # ts) t \<longleftrightarrow> (if t = u then order_request f s u else order_request f s u \<or> flag_at f s ts t)"
  by (auto simp: flag_at_def)

lemma flag_at_cong: "(\<And>u. u \<in> set ts \<Longrightarrow> same_thread u s s') \<Longrightarrow> t \<in> set ts \<Longrightarrow> flag_at f s' ts t = flag_at f s ts t"
  unfolding flag_at_def using same_thread_simps(3) by (metis (no_types, lifting) Un_iff set_takeWhileD singletonD)

lemma squash_loop:
  assumes "rob_good (cs_rob s) log" "distinct ts" "\<forall>u\<in>set ts. plain_thread s u"
  shows "\<exists>s'. cs_squash_threads exiting f ts mem n s =
      Inr (n + length (filter (\<lambda>t. squashing_status (cs_commitStatus s' t)) ts), s') \<and>
    rob_good (cs_rob s') log \<and> same_core s s' \<and> (\<forall>t. t \<notin> set ts \<longrightarrow> same_thread t s s') \<and>
    (\<forall>t\<in>set ts. if accepted f s t then squashed_thread f (mem \<or> flag_at f s ts t) t s s' else same_thread t s s')"
  using assms
proof (induction ts arbitrary: s mem n)
  case Nil
  then show ?case by (simp add: same_core_def same_thread_def)
next
  case (Cons u ts)
  from iew_squash_step [OF Cons.prems(1), of u "exiting u" f mem] Cons.prems(3) obtain s1 where
    s1: "cs_iew_squash (exiting u) (f u) u mem s = Inr (mem \<or> order_request f s u, s1)" "rob_good (cs_rob s1) log"
      "\<forall>t. t \<noteq> u \<longrightarrow> same_thread t s s1" "same_core s s1"
      "if accepted f s u then squashed_thread f (mem \<or> order_request f s u) u s s1 else s1 = s" by auto
  have nu: "u \<notin> set ts" using Cons.prems(2) by simp
  then have same: "same_thread t s s1" if "t \<in> set ts" for t using s1(3) that by (cases "t = u") simp_all
  have "\<forall>t\<in>set ts. plain_thread s1 t" using Cons.prems(3) same same_thread_simps(1) by (metis list.set_intros(2))
  from Cons.IH [OF s1(2) _ this, of "mem \<or> order_request f s u" "if squashing_status (cs_commitStatus s1 u) then n + 1 else n"]
    Cons.prems(2) obtain s' where
    s': "cs_squash_threads exiting f ts (mem \<or> order_request f s u) (if squashing_status (cs_commitStatus s1 u) then n + 1 else n) s1 =
        Inr ((if squashing_status (cs_commitStatus s1 u) then n + 1 else n) + length (filter (\<lambda>t. squashing_status (cs_commitStatus s' t)) ts), s')"
      "rob_good (cs_rob s') log" "same_core s1 s'" "\<forall>t. t \<notin> set ts \<longrightarrow> same_thread t s1 s'"
      "\<forall>t\<in>set ts. if accepted f s1 t then squashed_thread f ((mem \<or> order_request f s u) \<or> flag_at f s1 ts t) t s1 s' else same_thread t s1 s'"
    by auto
  have u': "same_thread u s1 s'" using s'(4) nu by blast
  have run: "cs_squash_threads exiting f (u # ts) mem n s =
      Inr (n + length (filter (\<lambda>t. squashing_status (cs_commitStatus s' t)) (u # ts)), s')"
    using own_squash_plain [of s u "exiting u"] Cons.prems(3) s1(1) s'(1) u' by (simp add: same_thread_def)
  have head: "if accepted f s u then squashed_thread f (mem \<or> flag_at f s (u # ts) u) u s s' else same_thread u s s'"
    using s1(5) u' squashed_after by (auto simp: flag_at_Cons split: if_splits)
  have "if accepted f s t then squashed_thread f (mem \<or> flag_at f s (u # ts) t) t s s' else same_thread t s s'" if t: "t \<in> set ts" for t
  proof -
    have "t \<noteq> u" using t nu by blast
    then have fl: "(mem \<or> flag_at f s (u # ts) t) = ((mem \<or> order_request f s u) \<or> flag_at f s1 ts t)"
      using flag_at_cong [OF same t, of f] by (simp add: flag_at_Cons disj_assoc)
    show ?thesis
    proof (cases "accepted f s t")
      case True
      then have "squashed_thread f (mem \<or> flag_at f s (u # ts) t) t s1 s'"
        using bspec [OF s'(5) t] unfolding fl same_thread_simps(2) [OF same [OF t]] by simp
      then show ?thesis using True squashed_before [OF same [OF t] s1(4)] by simp
    next
      case False
      then show ?thesis using bspec [OF s'(5) t] same_thread_trans [OF same [OF t]]
        unfolding same_thread_simps(2) [OF same [OF t]] by simp
    qed
  qed
  moreover have "same_thread t s s'" if "t \<notin> set (u # ts)" for t
    using s1(3) s'(4) that same_thread_trans by (metis list.set_intros)
  ultimately show ?case using run head s'(2) same_core_trans [OF s1(4) s'(3)] by auto
qed

section \<open>Insertion behind a squash\<close>




section \<open>Concrete stages\<close>

text \<open>Two threads with two and three loads.\<close>

definition ex_six :: "(rob \<times> rob_inst list) option" where
  "ex_six = ex_run 2 [SetActive [0, 1], InsertInst (ex_load 0 1), InsertInst (ex_load 0 2), InsertInst (ex_load 1 3),
     InsertInst (ex_load 1 4), InsertInst (ex_load 1 5)]"

lemma ex_six_reach:
  obtains r log where "rob_reach r log" "rob_activeThreads r = [0, 1]" "rob_squashWidth r = 1" "map rb_seqNum (rob_instList r 1) = [3, 4, 5]"
    "map rb_isLoad (rob_instList r 1) = [True, True, True]" "map rb_dueToMemOrder (rob_instList r 1) = [False, False, False]"
    "map rb_seqNum log = [1, 2, 3, 4, 5]" "\<not> rob_isFull r" "rob_threadEntries r 1 < rob_maxEntries r 1"
proof -
  have view: "map_option (\<lambda>(r, log). (rob_activeThreads r, rob_squashWidth r, map rb_seqNum (rob_instList r 1),
      map rb_isLoad (rob_instList r 1), map rb_dueToMemOrder (rob_instList r 1), map rb_seqNum log, rob_isFull r,
      rob_threadEntries r 1 < rob_maxEntries r 1)) ex_six =
    Some ([0, 1], 1, [3, 4, 5], [True, True, True], [False, False, False], [1, 2, 3, 4, 5], False, True)" by code_simp
  then obtain r log where r: "ex_six = Some (r, log)" by auto
  then have "rob_reach r log" using ex_run_reach by (auto simp: ex_six_def MaxThreads_def)
  with view show thesis unfolding r by (intro that [of r log]) simp_all
qed

definition ex_requests :: "unit iew_info \<Rightarrow> unit iew_info \<Rightarrow> nat \<Rightarrow> unit iew_info" where
  "ex_requests a b t = (if t = 0 then a else b)"

lemmas ex_request_defs = ex_requests_def ex_stage_def ex_violation_def ex_mispredict_def ex_quiet_def plain_thread_def accepted_def
  order_request_def flag_at_def squash_point_def

section \<open>Properties\<close>

text \<open>C38. The cause a squash is recorded with, for any number of active threads for which the stage itself has asked for no squash:
  the loop of \<^verbatim>\<open>commit\<close> carries out every request it accepts, and the status of the thread, and the loads squashed in this cycle
  when the squash width is enough for the whole squash, record a memory-order violation exactly when this thread or any
  active thread before it in the list has an accepted request that names no branch.  So the cause of an earlier thread leaks into
  a later one: its record names the mispredicted branch while its status and its loads say memory order.\<close>

theorem squash_cause_leaks:
  assumes "rob_reach (cs_rob s) log" "\<forall>u\<in>set (rob_activeThreads (cs_rob s)). plain_thread s u"
    "t \<in> set (rob_activeThreads (cs_rob s))" "accepted f s t"
  shows "\<exists>n s'. cs_squash_threads exiting f (rob_activeThreads (cs_rob s)) False 0 s = Inr (n, s') \<and>
    cs_commitStatus s' t = (if flag_at f s (rob_activeThreads (cs_rob s)) t then ROBSquashingDueToMemOrder else ROBSquashing) \<and>
    ci_mispredictInst (cs_toIEW s' t) = map_option fst (iw_mispredictInst (f t)) \<and>
    (length (filter (\<lambda>i. squash_point (f t) < rb_seqNum i) (rob_instList (cs_rob s) t)) \<le> rob_squashWidth (cs_rob s) \<longrightarrow>
       rob_instList (cs_rob s') t = map (\<lambda>i. if squash_point (f t) < rb_seqNum i
         then i\<lparr>rb_Squashed := True, rb_CanCommit := True,
                rb_dueToMemOrder := flag_at f s (rob_activeThreads (cs_rob s)) t \<and> (rb_isLoad i \<or> rb_dueToMemOrder i)\<rparr> else i)
         (rob_instList (cs_rob s) t))"
proof -
  note good = reach_good [OF assms(1)]
  then have "distinct (rob_activeThreads (cs_rob s))" by (simp add: rob_good_def rob_inv_def threads_ok_def)
  from squash_loop [OF good this assms(2), of exiting f False 0] obtain n s' where
    s': "cs_squash_threads exiting f (rob_activeThreads (cs_rob s)) False 0 s = Inr (n, s')"
      "squashed_thread f (flag_at f s (rob_activeThreads (cs_rob s)) t) t s s'" using assms(3,4) by auto
  then show ?thesis unfolding squashed_thread_def squashed_to_effect by blast
qed

theorem squash_cause_leaks_witness:
  "\<exists>s n s'. cs_squash_threads ex_no_exit (ex_requests (ex_violation 1) (ex_mispredict 4)) [0, 1] False 0 s = Inr (n, s') \<and>
    cs_commitStatus s' 1 = ROBSquashingDueToMemOrder \<and> ci_mispredictInst (cs_toIEW s' 1) = Some 4 \<and>
    map rb_dueToMemOrder (rob_instList (cs_rob s') 1) = [False, False, True]"
proof -
  obtain r log where r: "rob_reach r log" "rob_activeThreads r = [0, 1]" "rob_squashWidth r = 1" "map rb_seqNum (rob_instList r 1) = [3, 4, 5]"
    "map rb_isLoad (rob_instList r 1) = [True, True, True]" "map rb_dueToMemOrder (rob_instList r 1) = [False, False, False]"
    by (rule ex_six_reach)
  then obtain a b c where l: "rob_instList r 1 = [a, b, c]" "rb_seqNum a = 3" "rb_seqNum b = 4" "rb_seqNum c = 5" "rb_isLoad c"
    "\<not> rb_dueToMemOrder a" "\<not> rb_dueToMemOrder b" by (auto simp: map_eq_Cons_conv)
  let ?s = "ex_stage 2 [] r" and ?f = "ex_requests (ex_violation 1) (ex_mispredict 4)"
  have s: "cs_rob ?s = r" by (simp add: ex_stage_def)
  have h: "rob_reach (cs_rob ?s) log" "\<forall>u\<in>set (rob_activeThreads (cs_rob ?s)). plain_thread ?s u" "1 \<in> set (rob_activeThreads (cs_rob ?s))"
    "accepted ?f ?s 1" using r(1,2) by (simp_all add: ex_request_defs)
  have v: "flag_at ?f ?s [0, 1] 1" "squash_point (?f 1) = 4" "iw_mispredictInst (?f 1) = Some (4, False)"
    by (simp_all add: ex_request_defs)
  from squash_cause_leaks [OF h, of ex_no_exit] v l r(3) show ?thesis unfolding s r(2)
    by (elim exE conjE) (rule exI [of _ ?s], simp)
qed



end
