(* ===== verification/Cache_Index.thy ===== *)
theory Cache_Index
  imports Int_Math
begin

text \<open>
  How a cache finds the entries for an address: the base indexing policy, the set-associative and the skewed-associative policy
  of \<^verbatim>\<open>mem/cache/tags/indexing_policies\<close>, and the loop of \<^verbatim>\<open>BaseSetAssoc::tagsInit\<close> that
  places the blocks. Entries are named by their number; a place of the table is null until an entry is set there. Addresses are
  64-bit words, set and way numbers 32-bit words. A single-bit access of \<^verbatim>\<open>base/bitfield.hh\<close> satisfies its
  assertion and is written by its value.
\<close>

unbundle bit_operations_syntax

section \<open>The base policy\<close>

record index_policy =
  ip_assoc :: u32
  ip_numSets :: u32
  ip_setShift :: nat
  ip_setMask :: u32
  ip_sets :: "nat option list list"
  ip_tagShift :: nat
  ip_position :: "nat \<Rightarrow> u32 \<times> u32"

definition mk_index_policy :: "u64 \<Rightarrow> u32 \<Rightarrow> u32 \<Rightarrow> index_policy res" where
  "mk_index_policy cache_size entry_size assoc =
     (if entry_size * assoc = 0 then Inl DivByZero
      else let numSets = ucast (cache_size div ucast (entry_size * assoc)) :: u32 in
      rbind (floorLog2 4 (ucast entry_size)) (\<lambda>setShift.
      rbind (floorLog2 4 (ucast numSets)) (\<lambda>l.
      rbind (check (isPowerOf2 (ucast numSets)) Fatal) (\<lambda>_.
      rbind (check (0 < assoc) Fatal) (\<lambda>_.
      Inr \<lparr>ip_assoc = assoc, ip_numSets = numSets, ip_setShift = setShift, ip_setMask = numSets - 1,
           ip_sets = replicate (unat numSets) (replicate (unat assoc) None), ip_tagShift = setShift + l,
           ip_position = (\<lambda>_. (0, 0))\<rparr>)))))"

definition ip_getEntry :: "u32 \<Rightarrow> u32 \<Rightarrow> 'z index_policy_scheme \<Rightarrow> nat option res" where
  "ip_getEntry st way ip = rbind (vget (ip_sets ip) (unat st)) (\<lambda>row. vget row (unat way))"

definition ip_setEntry :: "nat \<Rightarrow> u64 \<Rightarrow> 'z index_policy_scheme \<Rightarrow> 'z index_policy_scheme res" where
  "ip_setEntry entry index ip =
     (let st = ucast (index div ucast (ip_assoc ip)) :: u32; way = ucast (index mod ucast (ip_assoc ip)) :: u32 in
      rbind (check (st < ip_numSets ip) Assertion) (\<lambda>_.
      rbind (vget (ip_sets ip) (unat st)) (\<lambda>row.
      rbind (vset row (unat way) (Some entry)) (\<lambda>row.
      rbind (vset (ip_sets ip) (unat st) row) (\<lambda>sets.
      Inr (ip\<lparr>ip_sets := sets, ip_position := (ip_position ip)(entry := (st, way))\<rparr>))))))"

definition extractTag :: "'z index_policy_scheme \<Rightarrow> addr \<Rightarrow> addr" where
  "extractTag ip a = drop_bit (ip_tagShift ip) a"

text \<open>The blocks of a cache are placed one after the other.\<close>

definition tagsInit :: "nat \<Rightarrow> 'z index_policy_scheme \<Rightarrow> 'z index_policy_scheme res" where
  "tagsInit numBlocks ip = rfold (\<lambda>i. ip_setEntry i (of_nat i)) [0 ..< numBlocks] ip"

section \<open>The set-associative policy\<close>

definition sa_extractSet :: "index_policy \<Rightarrow> addr \<Rightarrow> u32" where
  "sa_extractSet ip a = ucast (drop_bit (ip_setShift ip) a AND ucast (ip_setMask ip))"

text \<open>The set is shifted as a 32-bit word, and extended afterwards.\<close>

definition sa_regenerateAddr :: "index_policy \<Rightarrow> addr \<Rightarrow> nat \<Rightarrow> addr" where
  "sa_regenerateAddr ip tag entry = push_bit (ip_tagShift ip) tag OR ucast (push_bit (ip_setShift ip) (fst (ip_position ip entry)))"

definition sa_getPossibleEntries :: "index_policy \<Rightarrow> addr \<Rightarrow> nat option list res" where
  "sa_getPossibleEntries ip a = vget (ip_sets ip) (unat (sa_extractSet ip a))"

section \<open>The skewed-associative policy\<close>

record skewed_policy = index_policy +
  sk_msbShift :: nat

definition mk_skewed :: "u64 \<Rightarrow> u32 \<Rightarrow> u32 \<Rightarrow> skewed_policy res" where
  "mk_skewed cache_size entry_size assoc =
     rbind (mk_index_policy cache_size entry_size assoc) (\<lambda>ip.
     rbind (floorLog2 4 (ucast (ip_numSets ip))) (\<lambda>l.
     rbind (check (\<not> 64 < ip_setShift ip + 2 * l) Panic) (\<lambda>_.
     rbind (check (\<not> ip_numSets ip \<le> 2) Fatal) (\<lambda>_.
     Inr (index_policy.extend ip \<lparr>sk_msbShift = l - 1\<rparr>)))))"

definition insertBit :: "u64 \<Rightarrow> nat \<Rightarrow> u64 \<Rightarrow> u64" where
  "insertBit val k bit_val = (val AND NOT (mask_range k k)) OR (push_bit k bit_val AND mask_range k k)"

definition sk_hash :: "nat \<Rightarrow> addr \<Rightarrow> addr" where
  "sk_hash msbShift a =
     (let lsb = bits_val a 0 0;
          msb = bits_val a msbShift msbShift;
          xor_bit = msb XOR lsb
      in insertBit (drop_bit 1 a) msbShift xor_bit)"

definition sk_dehash :: "nat \<Rightarrow> addr \<Rightarrow> addr" where
  "sk_dehash msbShift a =
     (let msb = bits_val a (msbShift - 1) (msbShift - 1);
          xor_bit = bits_val a msbShift msbShift;
          lsb = msb XOR xor_bit;
          addr_no_msb = mbits a (msbShift - 1) 0
      in insertBit (push_bit 1 addr_no_msb) 0 lsb)"

definition skew_switch :: "nat \<Rightarrow> nat \<Rightarrow> addr \<Rightarrow> addr \<Rightarrow> addr res" where
  "skew_switch m k addr1 addr2 =
     (if k = 0 then Inr (sk_hash m addr1 XOR sk_hash m addr2 XOR addr2)
      else if k = 1 then Inr (sk_hash m addr1 XOR sk_hash m addr2 XOR addr1)
      else if k = 2 then Inr (sk_hash m addr1 XOR sk_dehash m addr2 XOR addr2)
      else if k = 3 then Inr (sk_hash m addr1 XOR sk_dehash m addr2 XOR addr1)
      else if k = 4 then Inr (sk_dehash m addr1 XOR sk_hash m addr2 XOR addr2)
      else if k = 5 then Inr (sk_dehash m addr1 XOR sk_hash m addr2 XOR addr1)
      else if k = 6 then Inr (sk_dehash m addr1 XOR sk_dehash m addr2 XOR addr2)
      else if k = 7 then Inr (sk_dehash m addr1 XOR sk_dehash m addr2 XOR addr1)
      else Inl Panic)"

definition skew :: "nat \<Rightarrow> addr \<Rightarrow> nat \<Rightarrow> addr res" where
  "skew m a way =
     (let addr1 = bits_val a m 0;
          addr2 = bits_val a (2 * (m + 1) - 1) (m + 1)
      in rbind (skew_switch m (way mod 8) addr1 addr2) (\<lambda>addr1. Inr ((sk_hash m ^^ (way div 8)) addr1)))"

definition deskew_switch :: "nat \<Rightarrow> nat \<Rightarrow> addr \<Rightarrow> addr \<Rightarrow> addr res" where
  "deskew_switch m k addr1 addr2 =
     (if k = 0 then Inr (sk_dehash m (addr1 XOR sk_hash m addr2 XOR addr2))
      else if k = 1 then Inr ((sk_hash m ^^ m) (addr1 XOR sk_hash m addr2))
      else if k = 2 then Inr (sk_dehash m (addr1 XOR sk_dehash m addr2 XOR addr2))
      else if k = 3 then Inr ((sk_hash m ^^ m) (addr1 XOR sk_dehash m addr2))
      else if k = 4 then Inr (sk_hash m (addr1 XOR sk_hash m addr2 XOR addr2))
      else if k = 5 then Inr ((sk_hash m ^^ (m + 1)) (addr1 XOR sk_hash m addr2))
      else if k = 6 then Inr (sk_hash m (addr1 XOR sk_dehash m addr2 XOR addr2))
      else if k = 7 then Inr ((sk_hash m ^^ (m + 1)) (addr1 XOR sk_dehash m addr2))
      else Inl Panic)"

definition deskew :: "nat \<Rightarrow> addr \<Rightarrow> nat \<Rightarrow> addr res" where
  "deskew m a way =
     (let addr1 = bits_val a m 0;
          addr2 = bits_val a (2 * (m + 1) - 1) (m + 1);
          addr1 = (if 8 \<le> way then (sk_dehash m ^^ (way div 8)) addr1 else addr1)
      in deskew_switch m (way mod 8) addr1 addr2)"

definition sk_extractSet :: "skewed_policy \<Rightarrow> addr \<Rightarrow> u32 \<Rightarrow> u32 res" where
  "sk_extractSet ip a way =
     rbind (skew (sk_msbShift ip) (drop_bit (ip_setShift ip) a) (unat way)) (\<lambda>s. Inr (ucast (s AND ucast (ip_setMask ip))))"

definition sk_regenerateAddr :: "skewed_policy \<Rightarrow> addr \<Rightarrow> nat \<Rightarrow> addr res" where
  "sk_regenerateAddr ip tag entry =
     (let addr_set = push_bit (sk_msbShift ip + 1) tag OR ucast (fst (ip_position ip entry)) in
      rbind (deskew (sk_msbShift ip) addr_set (unat (snd (ip_position ip entry)))) (\<lambda>d.
      Inr (push_bit (ip_tagShift ip) tag OR push_bit (ip_setShift ip) (d AND ucast (ip_setMask ip)))))"

fun sk_ways :: "skewed_policy \<Rightarrow> addr \<Rightarrow> nat list \<Rightarrow> nat option list res" where
  "sk_ways ip a [] = Inr []"
| "sk_ways ip a (w # ws) =
     rbind (sk_extractSet ip a (of_nat w)) (\<lambda>st.
     rbind (vget (ip_sets ip) (unat st)) (\<lambda>row.
     rbind (vget row w) (\<lambda>e.
     rbind (sk_ways ip a ws) (\<lambda>es. Inr (e # es)))))"

definition sk_getPossibleEntries :: "skewed_policy \<Rightarrow> addr \<Rightarrow> nat option list res" where
  "sk_getPossibleEntries ip a = sk_ways ip a [0 ..< unat (ip_assoc ip)]"

section \<open>The skewing functions are invertible\<close>

definition fits :: "nat \<Rightarrow> addr \<Rightarrow> bool" where
  "fits m a \<longleftrightarrow> (\<forall>i. bit a i \<longrightarrow> i \<le> m)"

lemma bit_insertBit: "k < 64 \<Longrightarrow> bit (insertBit v k b) i \<longleftrightarrow> (if i = k then bit b 0 else bit v i)"
  by (auto simp: insertBit_def bit_or_iff bit_and_iff bit_not_iff bit_mask_range bit_push_bit_iff dest: bit_imp_le_length)

lemma bit_sk_hash: "m < 64 \<Longrightarrow> bit (sk_hash m a) i \<longleftrightarrow> (if i = m then bit a m \<noteq> bit a 0 else bit a (Suc i))"
  by (auto simp: sk_hash_def Let_def bit_insertBit bit_xor_iff bit_bits_val bit_drop_bit_eq)

lemma bit_sk_dehash:
  "0 < m \<Longrightarrow> m < 64 \<Longrightarrow> bit (sk_dehash m a) i \<longleftrightarrow> (if i = 0 then bit a (m - 1) \<noteq> bit a m else i \<le> m \<and> bit a (i - 1))"
  by (auto simp: sk_dehash_def Let_def bit_insertBit bit_xor_iff bit_bits_val bit_mbits bit_push_bit_iff simp del: push_bit_of_1 push_bit_Suc dest: bit_imp_le_length)

lemma fits_hash [simp]: "m < 64 \<Longrightarrow> fits m a \<Longrightarrow> fits m (sk_hash m a)"
  by (auto simp: fits_def bit_sk_hash split: if_splits)

lemma fits_dehash [simp]: "0 < m \<Longrightarrow> m < 64 \<Longrightarrow> fits m (sk_dehash m a)"
  by (auto simp: fits_def bit_sk_dehash split: if_splits)

lemma fits_xor [simp]: "fits m a \<Longrightarrow> fits m b \<Longrightarrow> fits m (a XOR b)"
  by (auto simp: fits_def bit_xor_iff)

lemma fits_funpow [simp]: "m < 64 \<Longrightarrow> fits m a \<Longrightarrow> fits m ((sk_hash m ^^ k) a)"
  by (induction k) auto

lemma fits_dehash_funpow [simp]: "0 < m \<Longrightarrow> m < 64 \<Longrightarrow> fits m a \<Longrightarrow> fits m ((sk_dehash m ^^ k) a)"
  by (induction k) auto

lemma dehash_hash [simp]: "0 < m \<Longrightarrow> m < 64 \<Longrightarrow> fits m a \<Longrightarrow> sk_dehash m (sk_hash m a) = a"
  by (rule bit_eqI) (auto simp: bit_sk_dehash bit_sk_hash fits_def)

lemma hash_dehash [simp]: "0 < m \<Longrightarrow> m < 64 \<Longrightarrow> fits m a \<Longrightarrow> sk_hash m (sk_dehash m a) = a"
  by (rule bit_eqI) (auto simp: bit_sk_dehash bit_sk_hash fits_def)

lemma hash_xor: "m < 64 \<Longrightarrow> sk_hash m (a XOR b) = sk_hash m a XOR sk_hash m b"
  by (rule bit_eqI) (auto simp: bit_sk_hash bit_xor_iff)

lemma hash_funpow_xor: "m < 64 \<Longrightarrow> (sk_hash m ^^ k) (a XOR b) = (sk_hash m ^^ k) a XOR (sk_hash m ^^ k) b"
  by (induction k) (simp_all add: hash_xor)

lemma dehash_funpow_hash: "0 < m \<Longrightarrow> m < 64 \<Longrightarrow> fits m a \<Longrightarrow> (sk_dehash m ^^ k) ((sk_hash m ^^ k) a) = a"
proof (induction k)
  case (Suc k)
  then show ?case by (simp add: funpow_swap1 [of "sk_dehash m"]) 
qed simp

text \<open>Hashing shifts the bits of an infinite sequence into the word; each bit of the sequence is the exclusive or of two earlier ones.\<close>

fun shifted :: "nat \<Rightarrow> addr \<Rightarrow> nat \<Rightarrow> bool" where
  "shifted m a i = (if i \<le> m then bit a i else shifted m a (i - (m + 1)) \<noteq> shifted m a (i - 1))"

declare shifted.simps [simp del]

lemma shifted_start: "i \<le> m \<Longrightarrow> shifted m a i = bit a i"
  using shifted.simps [of m a i] by simp

lemma shifted_next: "shifted m a (m + 1 + i) \<longleftrightarrow> shifted m a i \<noteq> shifted m a (m + i)"
proof -
  have n: "\<not> m + 1 + i \<le> m" "m + 1 + i - (m + 1) = i" "m + 1 + i - 1 = m + i" by simp_all
  show ?thesis using shifted.simps [of m a "m + 1 + i"] by (simp only: n if_False)
qed

lemma bit_hash_funpow: "m < 64 \<Longrightarrow> fits m a \<Longrightarrow> bit ((sk_hash m ^^ k) a) i \<longleftrightarrow> i \<le> m \<and> shifted m a (k + i)"
proof (induction k arbitrary: i)
  case 0
  then show ?case by (auto simp: fits_def shifted_start)
next
  case (Suc k)
  have e: "Suc k + m = m + 1 + k" "k + m = m + k" by simp_all
  have "shifted m a (Suc k + m) \<longleftrightarrow> shifted m a k \<noteq> shifted m a (k + m)" 
    using shifted_next [of m a k] unfolding e .
  then have "bit (sk_hash m ((sk_hash m ^^ k) a)) i \<longleftrightarrow> i \<le> m \<and> shifted m a (Suc k + i)"
    unfolding bit_sk_hash [OF Suc.prems(1)] Suc.IH [OF Suc.prems] by (cases i m rule: linorder_cases) (simp, force, simp)
  then show ?case by simp
qed

lemma hash_cycle: "m < 64 \<Longrightarrow> fits m a \<Longrightarrow> (sk_hash m ^^ (m + 1)) a = a XOR (sk_hash m ^^ m) a"
proof (rule bit_eqI)
  fix i assume m: "m < 64" "fits m a"
  have "bit a i \<longleftrightarrow> i \<le> m \<and> shifted m a i" using m(2) by (auto simp: fits_def shifted_start)
  then show "bit ((sk_hash m ^^ (m + 1)) a) i \<longleftrightarrow> bit (a XOR (sk_hash m ^^ m) a) i"
    unfolding bit_xor_iff bit_hash_funpow [OF m] shifted_next by blast
qed

lemma hash_back:
  assumes "m < 64" "fits m a"
  shows "(sk_hash m ^^ m) (sk_hash m a XOR a) = a"
proof -
  have "(sk_hash m ^^ m) (sk_hash m a XOR a) = (sk_hash m ^^ (m + 1)) a XOR (sk_hash m ^^ m) a"
    using assms by (simp add: hash_funpow_xor funpow_swap1)
  also have "\<dots> = a" unfolding hash_cycle [OF assms] by (simp add: xor.assoc)
  finally show ?thesis .
qed

lemma dehash_back:
  assumes "0 < m" "m < 64" "fits m a"
  shows "(sk_hash m ^^ (m + 1)) (sk_dehash m a XOR a) = a"
proof -
  have "(sk_hash m ^^ (m + 1)) (sk_dehash m a XOR a) = (sk_hash m ^^ m) (sk_hash m (sk_dehash m a XOR a))" by (simp add: funpow_swap1)
  also have "\<dots> = (sk_hash m ^^ m) (sk_hash m a XOR a)" using assms by (simp add: hash_xor xor.commute)
  also have "\<dots> = a" by (rule hash_back [OF assms(2,3)])
  finally show ?thesis .
qed

lemma xor_undo: "((x :: u64) XOR y XOR z) XOR y XOR z = x" "(x XOR y XOR z) XOR y = x XOR z"
  by (rule bit_eqI; auto simp: bit_xor_iff)+

lemma deskew_switch_skew:
  assumes m: "0 < m" "m < 64" and f: "fits m x" and k: "k < 8"
  shows "rbind (skew_switch m k x y) (\<lambda>s. deskew_switch m k s y) = Inr x"
proof -
  note b = hash_back [OF m(2) f] dehash_back [OF m f]
  consider "k = 0" | "k = 1" | "k = 2" | "k = 3" | "k = 4" | "k = 5" | "k = 6" | "k = 7" using k by linarith
  then show ?thesis by cases (use m f b in \<open>simp_all add: skew_switch_def deskew_switch_def xor_undo\<close>)
qed

section \<open>The table\<close>

lemma unat_ucast_up [simp]: "unat (ucast (x :: u32) :: u64) = unat x"
  by transfer simp

lemma findMsbSet_power: "k < 64 \<Longrightarrow> findMsbSet (2 ^ k) = k"
  using findMsbSet_bit [of "2 ^ k"] by (auto simp: bit_exp_iff)

definition index_wf :: "nat \<Rightarrow> 'z index_policy_scheme \<Rightarrow> bool" where
  "index_wf n ip \<longleftrightarrow> n < 32 \<and> ip_numSets ip = 2 ^ n \<and> ip_setMask ip = mask n \<and> ip_setShift ip < 32 \<and>
     ip_tagShift ip = ip_setShift ip + n \<and> 0 < ip_assoc ip"

lemma floorLog2_power:
  assumes "k < 32"
  shows "floorLog2 4 (2 ^ k) = Inr k"
proof -
  have u: "unat (2 ^ k :: u64) = 2 ^ k" using assms unat_power2 [of k, where 'a = 64] by simp
  have "(2 :: nat) ^ k < 2 ^ (8 * 4)" by (rule power_strict_increasing) (use assms in simp_all)
  moreover have "(2 :: u64) ^ k \<noteq> 0" using u by (metis power_not_zero unsigned_0 zero_neq_numeral)
  ultimately have "floorLog2 4 (2 ^ k) = Inr (findMsbSet (2 ^ k))" using u by (intro floorLog2_msb) simp_all
  then show ?thesis using assms findMsbSet_power [of k] by simp
qed

lemma floorLog2_u32:
  assumes r: "floorLog2 4 (ucast (x :: u32)) = Inr l"
  shows "l < 32"
proof -
  have nz: "(ucast x :: u64) \<noteq> 0" using r by (auto simp: floorLog2_def rbind_eq_Inr check_def split: if_splits)
  have le: "unat (ucast x :: u64) < 2 ^ 32" using u32_unat_lt [of x] by simp
  then have "l = findMsbSet (ucast x)" using r floorLog2_msb [OF nz, of 4] by simp
  then have "(2 :: nat) ^ l < 2 ^ 32" using findMsbSet_bounds [OF nz] le by (metis le_less_trans)
  then show ?thesis by (rule power_less_imp_less_exp [rotated]) simp
qed

lemma mk_index_policy_wf:
  assumes "mk_index_policy sz es as = Inr ip"
  shows "\<exists>n. index_wf n ip \<and> ip_assoc ip = as \<and> ip_sets ip = replicate (2 ^ n) (replicate (unat as) None)"
proof -
  define N :: u32 where "N = ucast (sz div ucast (es * as))"
  obtain sh l where f: "floorLog2 4 (ucast es) = Inr sh" "floorLog2 4 (ucast N) = Inr l" "isPowerOf2 (ucast N)" "0 < as"
      and ip: "ip = \<lparr>ip_assoc = as, ip_numSets = N, ip_setShift = sh, ip_setMask = N - 1, ip_sets = replicate (unat N) (replicate (unat as) None),
        ip_tagShift = sh + l, ip_position = (\<lambda>_. (0, 0))\<rparr>"
    using assms by (auto simp: mk_index_policy_def Let_def rbind_eq_Inr N_def check_def split: if_splits)
  obtain n where n: "(ucast N :: u64) = 2 ^ n" "unat (ucast N :: u64) = 2 ^ n" using f(3) by (rule isPowerOf2E)
  have un: "unat N = 2 ^ n" using n(2) by simp
  then have "(2 :: nat) ^ n < 2 ^ 32" using u32_unat_lt [of N] by metis
  then have n32: "n < 32" by (rule power_less_imp_less_exp [rotated]) simp
  then have N: "N = 2 ^ n" using un unat_power2 [of n, where 'a = 32] by (simp add: word_unat_eq_iff)
  have "l = n" using f(2) n(1) floorLog2_power [OF n32] by simp
  then show ?thesis using floorLog2_u32 [OF f(1)] n32 un N f(4) ip by (intro exI [of _ n]) (simp add: index_wf_def mask_eq_exp_minus_1)
qed

text \<open>The table after the first \<open>k\<close> blocks are placed.\<close>

definition placed :: "nat \<Rightarrow> nat \<Rightarrow> nat \<Rightarrow> nat option list list" where
  "placed sets ways k = map (\<lambda>s. map (\<lambda>w. if s * ways + w < k then Some (s * ways + w) else None) [0 ..< ways]) [0 ..< sets]"

lemma place_eq: "w < ways \<Longrightarrow> s * ways + w = k \<longleftrightarrow> s = k div ways \<and> w = k mod (ways :: nat)"
  by (metis div_mult_mod_eq div_mult_self3 div_less add.commute add_0 less_nat_zero_code mod_less mod_mult_self3 neq0_conv)

lemma placed_nth:
  "length (placed sets ways k) = sets"
  "s < sets \<Longrightarrow> placed sets ways k ! s = map (\<lambda>w. if s * ways + w < k then Some (s * ways + w) else None) [0 ..< ways]"
  by (simp_all add: placed_def)

lemma placed_next:
  assumes "k < sets * ways"
  shows "(placed sets ways k)[k div ways := (placed sets ways k ! (k div ways))[k mod ways := Some k]] = placed sets ways (Suc k)"
proof (rule nth_equalityI)
  fix s assume "s < length ((placed sets ways k)[k div ways := (placed sets ways k ! (k div ways))[k mod ways := Some k]])"
  then have s: "s < sets" by (simp add: placed_nth)
  have eq: "s * ways + w < Suc k \<longleftrightarrow> s * ways + w < k \<or> s = k div ways \<and> w = k mod ways" if "w < ways" for w
    using place_eq [OF that, of s k] by (auto simp: less_Suc_eq)
  show "(placed sets ways k)[k div ways := (placed sets ways k ! (k div ways))[k mod ways := Some k]] ! s = placed sets ways (Suc k) ! s"
  proof (cases "s = k div ways")
    case True
    then have "(placed sets ways k)[k div ways := (placed sets ways k ! (k div ways))[k mod ways := Some k]] ! s =
        (placed sets ways k ! s)[k mod ways := Some k]" using s by (simp add: placed_nth)
    also have "\<dots> = placed sets ways (Suc k) ! s"
      by (rule nth_equalityI) (use s True eq in \<open>auto simp: placed_nth nth_list_update\<close>)
    finally show ?thesis .
  next
    case False
    then show ?thesis using s eq by (simp add: placed_nth)
  qed
qed (simp add: placed_nth)

lemma word_index:
  fixes as :: u32
  assumes "i < 2 ^ n * unat as" "n < 32"
  shows "unat (ucast (of_nat i div ucast as :: u64) :: u32) = i div unat as"
    "unat (ucast (of_nat i mod ucast as :: u64) :: u32) = i mod unat as" "i div unat as < 2 ^ n"
proof -
  have pos: "0 < unat as" using assms(1) by (cases "unat as") simp_all
  have "2 ^ n * unat as < 2 ^ 32 * 2 ^ 32"
    using assms(2) u32_unat_lt [of as] by (intro mult_strict_mono power_strict_increasing) simp_all
  then have i: "i < 2 ^ LENGTH(64)" using assms(1) by simp
  then have u: "unat (of_nat i :: u64) = i" by (rule unat_of_nat_small)
  show d: "i div unat as < 2 ^ n" using assms(1) by (simp add: less_mult_imp_div_less)
  have "(2 :: nat) ^ n < 2 ^ 32" using assms(2) by (intro power_strict_increasing) simp_all
  then have d32: "i div unat as < 2 ^ 32" using d by simp
  have m32: "i mod unat as < 2 ^ 32" using u32_unat_lt [of as] pos by (meson less_trans mod_less_divisor)
  show "unat (ucast (of_nat i div ucast as :: u64) :: u32) = i div unat as"
    using d32 by (simp add: unat_ucast unat_div u)
  show "unat (ucast (of_nat i mod ucast as :: u64) :: u32) = i mod unat as"
    using m32 by (simp add: unat_ucast unat_mod u)
qed

lemma tagsInit_value:
  assumes wf: "index_wf n ip" and sets: "ip_sets ip = placed (2 ^ n) (unat (ip_assoc ip)) 0" and k: "k \<le> 2 ^ n * unat (ip_assoc ip)"
  shows "\<exists>pos. tagsInit k ip = Inr (ip\<lparr>ip_sets := placed (2 ^ n) (unat (ip_assoc ip)) k, ip_position := pos\<rparr>) \<and>
    (\<forall>i<k. unat (fst (pos i)) = i div unat (ip_assoc ip) \<and> unat (snd (pos i)) = i mod unat (ip_assoc ip))"
  using k
proof (induction k)
  case 0
  have "ip = ip\<lparr>ip_sets := ip_sets ip, ip_position := ip_position ip\<rparr>" by simp
  then show ?case unfolding sets by (intro exI [of _ "ip_position ip"]) (simp add: tagsInit_def)
next
  case (Suc k)
  let ?a = "unat (ip_assoc ip)"
  have k: "k < 2 ^ n * ?a" and n: "n < 32" using Suc.prems wf by (simp_all add: index_wf_def)
  from Suc obtain pos where r: "tagsInit k ip = Inr (ip\<lparr>ip_sets := placed (2 ^ n) ?a k, ip_position := pos\<rparr>)"
      and pos: "\<And>i. i < k \<Longrightarrow> unat (fst (pos i)) = i div ?a \<and> unat (snd (pos i)) = i mod ?a"
    by auto
  let ?s = "ucast (of_nat k div ucast (ip_assoc ip) :: u64) :: u32" and ?w = "ucast (of_nat k mod ucast (ip_assoc ip) :: u64) :: u32"
  note w = word_index [OF k n]
  have "?s < ip_numSets ip" using w(1,3) wf unat_power2 [of n, where 'a = 32] by (simp add: word_less_nat_alt index_wf_def)
  moreover have "k mod ?a < ?a" using k by (cases ?a) simp_all
  moreover have "k div ?a < length (placed (2 ^ n) ?a k)" "length (placed (2 ^ n) ?a k ! (k div ?a)) = ?a" using w(3) by (simp_all add: placed_def)
  ultimately have step: "ip_setEntry k (of_nat k) (ip\<lparr>ip_sets := placed (2 ^ n) ?a k, ip_position := pos\<rparr>) =
      Inr (ip\<lparr>ip_sets := placed (2 ^ n) ?a (Suc k), ip_position := pos(k := (?s, ?w))\<rparr>)"
    using w placed_next [OF k] by (simp add: ip_setEntry_def Let_def check_def vget_def vset_def)
  have "tagsInit (Suc k) ip = Inr (ip\<lparr>ip_sets := placed (2 ^ n) ?a (Suc k), ip_position := pos(k := (?s, ?w))\<rparr>)"
    using r step by (simp add: tagsInit_def rfold_append)
  moreover have "\<forall>i<Suc k. unat (fst ((pos(k := (?s, ?w))) i)) = i div ?a \<and> unat (snd ((pos(k := (?s, ?w))) i)) = i mod ?a"
    using pos w by (simp add: less_Suc_eq)
  ultimately show ?case by blast
qed

lemma tagsInit_full:
  assumes wf: "index_wf n ip" and sets: "ip_sets ip = replicate (2 ^ n) (replicate (unat (ip_assoc ip)) None)"
  obtains ip' where "tagsInit (unat (ip_numSets ip) * unat (ip_assoc ip)) ip = Inr ip'" "index_wf n ip'"
    "ip_assoc ip' = ip_assoc ip" "ip_setShift ip' = ip_setShift ip" "ip_tagShift ip' = ip_tagShift ip" "index_policy.more ip' = index_policy.more ip"
    "\<And>s w. s < 2 ^ n \<Longrightarrow> w < unat (ip_assoc ip) \<Longrightarrow> ip_sets ip' ! s ! w = Some (s * unat (ip_assoc ip) + w)"
    "\<And>s w. s < 2 ^ n \<Longrightarrow> w < unat (ip_assoc ip) \<Longrightarrow> ip_position ip' (s * unat (ip_assoc ip) + w) = (of_nat s, of_nat w)"
    "length (ip_sets ip') = 2 ^ n" "\<And>s. s < 2 ^ n \<Longrightarrow> length (ip_sets ip' ! s) = unat (ip_assoc ip)"
proof -
  let ?a = "unat (ip_assoc ip)" and ?k = "unat (ip_numSets ip) * unat (ip_assoc ip)"
  have k: "?k = 2 ^ n * ?a" using wf unat_power2 [of n, where 'a = 32] by (simp add: index_wf_def)
  have "ip_sets ip = placed (2 ^ n) ?a 0" unfolding sets by (rule nth_equalityI; simp add: placed_nth list_eq_iff_nth_eq)
  from tagsInit_value [OF wf this, of ?k] obtain pos where
    r: "tagsInit ?k ip = Inr (ip\<lparr>ip_sets := placed (2 ^ n) ?a ?k, ip_position := pos\<rparr>)" (is "_ = Inr ?ip")
    and pos: "\<And>i. i < ?k \<Longrightarrow> unat (fst (pos i)) = i div ?a \<and> unat (snd (pos i)) = i mod ?a"
    using k by auto
  have lt: "s * ?a + w < ?k" if "s < 2 ^ n" "w < ?a" for s w
  proof -
    have "s * ?a + w < Suc s * ?a" using that(2) by simp
    also have "\<dots> \<le> 2 ^ n * ?a" using that(1) by (intro mult_le_mono1) simp
    finally show ?thesis unfolding k .
  qed
  have p: "pos (s * ?a + w) = (of_nat s, of_nat w)" if "s < 2 ^ n" "w < ?a" for s w
  proof -
    have "unat (fst (pos (s * ?a + w))) = s" "unat (snd (pos (s * ?a + w))) = w" using pos [OF lt [OF that]] that(2) by simp_all
    then show ?thesis by (metis prod.collapse of_nat_unat ucast_id)
  qed
  show ?thesis
    by (rule that [of ?ip]) (use r wf lt p in \<open>simp_all add: placed_nth index_wf_def\<close>)
qed

lemma bit_ucast_u64: "bit (ucast (x :: u32) :: u64) i \<longleftrightarrow> bit x i"
  by (auto simp: bit_ucast_iff dest: bit_imp_le_length)

lemma bit_ucast_u32: "bit (ucast (x :: u64) :: u32) i \<longleftrightarrow> i < 32 \<and> bit x i"
  by (auto simp: bit_ucast_iff)

lemma bits_less_power: "(\<And>i. bit (x :: u32) i \<Longrightarrow> i < n) \<Longrightarrow> unat x < 2 ^ n"
proof -
  assume "\<And>i. bit x i \<Longrightarrow> i < n"
  then have "take_bit n x = x" by (auto simp: bit_eq_iff bit_take_bit_iff)
  then show ?thesis by (metis take_bit_nat_less_exp unsigned_take_bit_eq)
qed

lemma sa_extractSet_less: "index_wf n ip \<Longrightarrow> unat (sa_extractSet ip a) < 2 ^ n"
  by (rule bits_less_power) (auto simp: sa_extractSet_def bit_ucast_u32 bit_and_iff bit_ucast_u64 index_wf_def bit_mask_iff)

lemma sa_regenerate:
  assumes n: "index_wf n ip" and p: "fst (ip_position ip e) = sa_extractSet ip a"
  shows "sa_regenerateAddr ip (extractTag ip a) e = a AND NOT (mask (ip_setShift ip)) \<longleftrightarrow>
    (\<forall>i. 32 \<le> i \<and> i < ip_tagShift ip \<longrightarrow> \<not> bit a i)"
proof -
  have b: "bit (sa_regenerateAddr ip (extractTag ip a) e) i \<longleftrightarrow> bit a i \<and> (ip_tagShift ip \<le> i \<or> ip_setShift ip \<le> i \<and> i < 32)" for i
  proof (cases "ip_tagShift ip \<le> i")
    case True
    then show ?thesis using n unfolding sa_regenerateAddr_def extractTag_def
      by (auto simp: index_wf_def bit_or_iff bit_push_bit_iff bit_ucast_u64 p sa_extractSet_def bit_ucast_u32 bit_drop_bit_eq bit_and_iff bit_mask_iff
        dest: bit_imp_le_length)
  next
    case False
    then have "i - ip_setShift ip < n" if "ip_setShift ip \<le> i" using that n by (auto simp: index_wf_def)
    then show ?thesis using n False unfolding sa_regenerateAddr_def extractTag_def
      by (auto simp: index_wf_def bit_or_iff bit_push_bit_iff bit_ucast_u64 p sa_extractSet_def bit_ucast_u32 bit_drop_bit_eq bit_and_iff bit_mask_iff
        dest: bit_imp_le_length)
  qed
  have m: "bit (a AND NOT (mask (ip_setShift ip))) i \<longleftrightarrow> bit a i \<and> ip_setShift ip \<le> i" for i
    by (auto simp: bit_and_iff bit_not_iff bit_mask_iff dest: bit_imp_le_length)
  have le: "ip_setShift ip \<le> ip_tagShift ip" "ip_setShift ip < 32" using n by (simp_all add: index_wf_def)
  have "sa_regenerateAddr ip (extractTag ip a) e = a AND NOT (mask (ip_setShift ip)) \<longleftrightarrow>
      (\<forall>i. bit a i \<and> (ip_tagShift ip \<le> i \<or> ip_setShift ip \<le> i \<and> i < 32) \<longleftrightarrow> bit a i \<and> ip_setShift ip \<le> i)"
    unfolding b [symmetric] m [symmetric] by (auto intro: bit_eqI)
  then show ?thesis using le by (meson le_trans less_imp_le not_le)
qed

text \<open>C25. In a set-associative cache whose blocks are all placed, the candidates for an address are the ways of one set, and the address is regenerated
  from its tag and the place of a candidate exactly when it has no bit set between bit 32 and the tag, because the set number is shifted as a 32-bit word:
  in a table that spans at most 32 bits every address is regenerated, in a larger one not.\<close>

theorem set_associative_roundtrip:
  fixes ip0 :: index_policy
  assumes mk: "mk_index_policy cache_size entry_size assoc = Inr ip0"
  shows "\<exists>ip es. tagsInit (unat (ip_numSets ip0) * unat assoc) ip0 = Inr ip \<and> sa_getPossibleEntries ip a = Inr es \<and> length es = unat assoc \<and>
    (\<forall>w<length es. \<exists>e. es ! w = Some e \<and>
      (sa_regenerateAddr ip (extractTag ip a) e = a AND NOT (mask (ip_setShift ip)) \<longleftrightarrow> (\<forall>i. 32 \<le> i \<and> i < ip_tagShift ip \<longrightarrow> \<not> bit a i)))"
proof -
  obtain n where wf0: "index_wf n ip0" "ip_assoc ip0 = assoc" "ip_sets ip0 = replicate (2 ^ n) (replicate (unat (ip_assoc ip0)) None)"
    using mk_index_policy_wf [OF mk] by auto
  obtain ip where r: "tagsInit (unat (ip_numSets ip0) * unat assoc) ip0 = Inr ip" and wf: "index_wf n ip"
      and e: "\<And>s w. s < 2 ^ n \<Longrightarrow> w < unat assoc \<Longrightarrow> ip_sets ip ! s ! w = Some (s * unat assoc + w)"
      and p: "\<And>s w. s < 2 ^ n \<Longrightarrow> w < unat assoc \<Longrightarrow> ip_position ip (s * unat assoc + w) = (of_nat s, of_nat w)"
      and l: "length (ip_sets ip) = 2 ^ n" "\<And>s. s < 2 ^ n \<Longrightarrow> length (ip_sets ip ! s) = unat assoc"
    using tagsInit_full [OF wf0(1,3)] unfolding wf0(2) by metis
  let ?s = "unat (sa_extractSet ip a)"
  have s: "?s < 2 ^ n" by (rule sa_extractSet_less [OF wf])
  have "sa_getPossibleEntries ip a = Inr (ip_sets ip ! ?s)" using s l by (simp add: sa_getPossibleEntries_def vget_def)
  moreover have "\<exists>e. ip_sets ip ! ?s ! w = Some e \<and> (sa_regenerateAddr ip (extractTag ip a) e = a AND NOT (mask (ip_setShift ip)) \<longleftrightarrow>
      (\<forall>i. 32 \<le> i \<and> i < ip_tagShift ip \<longrightarrow> \<not> bit a i))" if w: "w < unat assoc" for w
    using e [OF s w] sa_regenerate [OF wf, of "?s * unat assoc + w" a] p [OF s w] by simp
  ultimately show ?thesis using r s l by auto
qed

theorem set_associative_roundtrip_witness:
  "\<exists>ip0 ip es. mk_index_policy 0x10000 64 4 = Inr ip0 \<and> tagsInit (unat (ip_numSets ip0) * 4) ip0 = Inr ip \<and>
    sa_getPossibleEntries ip 0x12345678 = Inr es \<and> length es = 4"
proof -
  obtain ip0 :: index_policy where m: "mk_index_policy 0x10000 64 4 = Inr ip0"
    using floorLog2_power [of 6] floorLog2_power [of 8] by (simp add: mk_index_policy_def Let_def check_def isPowerOf2_def)
  show ?thesis using set_associative_roundtrip [OF m, of "0x12345678"] m by auto
qed

lemma skew_fits:
  assumes "0 < m" "m < 64" "fits m x" "fits m y" "skew_switch m k x y = Inr s"
  shows "fits m s"
  using assms by (auto simp: skew_switch_def split: if_splits)

lemma bits_val_low: "fits m (bits_val a m 0)"
  by (simp add: fits_def bit_bits_val)

lemma bits_val_next: "fits m (bits_val a (2 * (m + 1) - 1) (m + 1))"
  by (simp add: fits_def bit_bits_val)

text \<open>Undoing the skewing of an address in a way, from the set it gave and the upper half of the address.\<close>

lemma deskew_skew:
  assumes m: "0 < m" "m < 32"
  shows "\<exists>s. skew m a way = Inr s \<and> fits m s \<and>
    (\<forall>b. bits_val b m 0 = s \<and> bits_val b (2 * (m + 1) - 1) (m + 1) = bits_val a (2 * (m + 1) - 1) (m + 1) \<longrightarrow> deskew m b way = Inr (bits_val a m 0))"
proof -
  let ?x = "bits_val a m 0" and ?y = "bits_val a (2 * (m + 1) - 1) (m + 1)"
  have m64: "m < 64" using m by simp
  from deskew_switch_skew [OF m(1) m64 bits_val_low, of "way mod 8" a ?y] obtain t where
    t: "skew_switch m (way mod 8) ?x ?y = Inr t" "deskew_switch m (way mod 8) t ?y = Inr ?x"
    by (auto simp: rbind_eq_Inr)
  have ft: "fits m t" by (rule skew_fits [OF m(1) m64 bits_val_low bits_val_next t(1)])
  let ?s = "(sk_hash m ^^ (way div 8)) t"
  have undo: "(if 8 \<le> way then (sk_dehash m ^^ (way div 8)) ?s else ?s) = t"
    using dehash_funpow_hash [OF m(1) m64 ft] by (cases "8 \<le> way") simp_all
  have "skew m a way = Inr ?s" using t(1) by (simp add: skew_def Let_def)
  moreover have "deskew m b way = Inr ?x" if "bits_val b m 0 = ?s" "bits_val b (2 * (m + 1) - 1) (m + 1) = ?y" for b
    unfolding deskew_def Let_def that undo by (rule t(2))
  ultimately show ?thesis using ft m64 by (intro exI [of _ ?s]) simp
qed

lemma mk_skewed_wf:
  assumes "mk_skewed sz es as = Inr ip"
  shows "\<exists>n. index_wf n ip \<and> 2 \<le> n \<and> sk_msbShift ip = n - 1 \<and> ip_setShift ip + 2 * n \<le> 64 \<and> ip_assoc ip = as \<and>
    ip_sets ip = replicate (2 ^ n) (replicate (unat as) None)"
proof -
  obtain ip0 l where i: "mk_index_policy sz es as = Inr ip0" "floorLog2 4 (ucast (ip_numSets ip0)) = Inr l" "\<not> 64 < ip_setShift ip0 + 2 * l"
      "\<not> ip_numSets ip0 \<le> 2" and ip: "ip = index_policy.extend ip0 \<lparr>sk_msbShift = l - 1\<rparr>"
    using assms by (auto simp: mk_skewed_def rbind_eq_Inr check_def split: if_splits)
  obtain n where n: "index_wf n ip0" "ip_assoc ip0 = as" "ip_sets ip0 = replicate (2 ^ n) (replicate (unat as) None)"
    using mk_index_policy_wf [OF i(1)] by blast
  have n32: "n < 32" "ip_numSets ip0 = 2 ^ n" using n(1) by (simp_all add: index_wf_def)
  have "(ucast (2 ^ n :: u32) :: u64) = 2 ^ n"
    by (rule bit_eqI) (use n32(1) in \<open>auto simp: bit_ucast_u64 bit_exp_iff\<close>)
  then have "l = n" using i(2) n32 floorLog2_power by simp
  moreover have "2 \<le> n"
  proof (rule ccontr)
    assume "\<not> 2 \<le> n"
    then have "n = 0 \<or> n = 1" by auto
    then show False using i(4) n32(2) by auto
  qed
  ultimately show ?thesis using n i(3) ip by (intro exI [of _ n]) (simp add: index_wf_def index_policy.defs)
qed

lemma sk_extractSet_value:
  assumes wf: "index_wf n ip" and n: "2 \<le> n" "sk_msbShift ip = n - 1" "ip_setShift ip + 2 * n \<le> 64"
  shows "\<exists>s. sk_extractSet ip a way = Inr s \<and> unat s < 2 ^ n \<and>
    (\<forall>e. ip_position ip e = (s, way) \<longrightarrow> sk_regenerateAddr ip (extractTag ip a) e = Inr (a AND NOT (mask (ip_setShift ip))))"
proof -
  let ?m = "n - 1" and ?sh = "ip_setShift ip"
  have w: "n < 32" "ip_setMask ip = mask n" "ip_tagShift ip = ?sh + n" using wf by (simp_all add: index_wf_def)
  have m: "0 < ?m" "?m < 32" "?m + 1 = n" using n(1) w(1) by simp_all
  obtain t where t: "skew ?m (drop_bit ?sh a) (unat way) = Inr t" "fits ?m t"
      "\<And>b. bits_val b ?m 0 = t \<Longrightarrow> bits_val b (2 * (?m + 1) - 1) (?m + 1) = bits_val (drop_bit ?sh a) (2 * (?m + 1) - 1) (?m + 1) \<Longrightarrow>
        deskew ?m b (unat way) = Inr (bits_val (drop_bit ?sh a) ?m 0)"
    using deskew_skew [OF m(1,2), of "drop_bit ?sh a" "unat way"] by blast
  have ft: "bit t i \<Longrightarrow> i < n" for i using t(2) m(3) by (fastforce simp: fits_def)
  have ft32: "bit t i \<Longrightarrow> i < 32" for i using ft [of i] w(1) by linarith
  let ?s = "ucast t :: u32"
  have tm: "t AND ucast (mask n :: u32) = t" by (rule bit_eqI) (use ft ft32 w(1) in \<open>auto simp: bit_and_iff bit_ucast_u64 bit_mask_iff\<close>)
  have ts: "ucast ?s = t" by (rule bit_eqI) (use ft32 in \<open>auto simp: bit_ucast_u64 bit_ucast_u32\<close>)
  have "unat ?s < 2 ^ n" by (rule bits_less_power) (use ft in \<open>auto simp: bit_ucast_u32\<close>)
  moreover have "sk_regenerateAddr ip (extractTag ip a) e = Inr (a AND NOT (mask ?sh))" if e: "ip_position ip e = (?s, way)" for e
  proof -
    let ?b = "push_bit n (drop_bit (?sh + n) a) OR t"
    have low: "bits_val ?b ?m 0 = t"
      by (rule bit_eqI) (use t(2) m(3) in \<open>auto simp: fits_def bit_bits_val bit_or_iff bit_push_bit_iff dest: bit_imp_le_length\<close>)
    have up: "bits_val ?b (2 * (?m + 1) - 1) (?m + 1) = bits_val (drop_bit ?sh a) (2 * (?m + 1) - 1) (?m + 1)"
      unfolding m(3) by (rule bit_eqI) (use ft n(3) in \<open>auto simp: bit_bits_val bit_or_iff bit_push_bit_iff bit_drop_bit_eq add.assoc dest: ft\<close>)
    have d: "deskew ?m ?b (unat way) = Inr (bits_val (drop_bit ?sh a) ?m 0)" by (rule t(3) [OF low up])
    have "push_bit (?sh + n) (drop_bit (?sh + n) a) OR push_bit ?sh (bits_val (drop_bit ?sh a) ?m 0 AND ucast (mask n :: u32)) = a AND NOT (mask ?sh)"
    proof (rule bit_eqI)
      fix i
      show "bit (push_bit (?sh + n) (drop_bit (?sh + n) a) OR push_bit ?sh (bits_val (drop_bit ?sh a) ?m 0 AND ucast (mask n :: u32))) i \<longleftrightarrow>
          bit (a AND NOT (mask ?sh)) i"
        using w(1) m(3) by (cases "?sh + n \<le> i")
          (auto simp: bit_or_iff bit_push_bit_iff bit_drop_bit_eq bit_bits_val bit_and_iff bit_ucast_u64 bit_mask_iff bit_not_iff dest: bit_imp_le_length)
    qed
    then show ?thesis using d unfolding sk_regenerateAddr_def Let_def extractTag_def e w n(2) fst_conv snd_conv ts m(3) by simp
  qed
  ultimately show ?thesis using t(1) tm n(2) w(2) by (intro exI [of _ ?s]) (simp add: sk_extractSet_def)
qed

text \<open>C24. The skewing of the skewed-associative cache can be undone for every way: once all blocks are placed, an address has one candidate
  per way, all of them different, and the address (up to the offset in the block) is regenerated from its tag and the place of any candidate.\<close>

theorem skewed_roundtrip:
  assumes mk: "mk_skewed cache_size entry_size assoc = Inr ip0"
  shows "\<exists>ip es. tagsInit (unat (ip_numSets ip0) * unat assoc) ip0 = Inr ip \<and> sk_getPossibleEntries ip a = Inr es \<and>
    length es = unat assoc \<and> distinct es \<and>
    (\<forall>w<length es. \<exists>e. es ! w = Some e \<and> sk_regenerateAddr ip (extractTag ip a) e = Inr (a AND NOT (mask (ip_setShift ip))))"
proof -
  obtain n where wf0: "index_wf n ip0" and n: "2 \<le> n" "sk_msbShift ip0 = n - 1" "ip_setShift ip0 + 2 * n \<le> 64"
      and as: "ip_assoc ip0 = assoc" and t0: "ip_sets ip0 = replicate (2 ^ n) (replicate (unat (ip_assoc ip0)) None)"
    using mk_skewed_wf [OF mk] by auto
  obtain ip where r: "tagsInit (unat (ip_numSets ip0) * unat assoc) ip0 = Inr ip" and wf: "index_wf n ip"
      and f: "ip_assoc ip = assoc" "ip_setShift ip = ip_setShift ip0" "index_policy.more ip = index_policy.more ip0"
      and e: "\<And>s w. s < 2 ^ n \<Longrightarrow> w < unat assoc \<Longrightarrow> ip_sets ip ! s ! w = Some (s * unat assoc + w)"
      and p: "\<And>s w. s < 2 ^ n \<Longrightarrow> w < unat assoc \<Longrightarrow> ip_position ip (s * unat assoc + w) = (of_nat s, of_nat w)"
      and l: "length (ip_sets ip) = 2 ^ n" "\<And>s. s < 2 ^ n \<Longrightarrow> length (ip_sets ip ! s) = unat assoc"
    using tagsInit_full [OF wf0 t0] unfolding as by metis
  have mb: "sk_msbShift ip = n - 1" using f(3) n(2) by (cases ip; cases ip0) simp
  define S where "S w = (case sk_extractSet ip a (of_nat w) of Inr s \<Rightarrow> s | Inl _ \<Rightarrow> 0)" for w :: nat
  have S: "sk_extractSet ip a (of_nat w) = Inr (S w)" "unat (S w) < 2 ^ n"
      "\<And>e. ip_position ip e = (S w, of_nat w) \<Longrightarrow> sk_regenerateAddr ip (extractTag ip a) e = Inr (a AND NOT (mask (ip_setShift ip)))" for w
    using sk_extractSet_value [OF wf n(1) mb, of a "of_nat w"] n(3) f(2) by (auto simp: S_def)
  let ?e = "\<lambda>w. unat (S w) * unat assoc + w"
  have "sk_ways ip a ws = Inr (map (\<lambda>w. Some (?e w)) ws)" if "\<forall>w\<in>set ws. w < unat assoc" for ws
    using that by (induction ws) (simp_all add: S l e vget_def)
  then have "sk_getPossibleEntries ip a = Inr (map (\<lambda>w. Some (?e w)) [0 ..< unat assoc])" unfolding sk_getPossibleEntries_def f(1) by simp
  moreover have "sk_regenerateAddr ip (extractTag ip a) (?e w) = Inr (a AND NOT (mask (ip_setShift ip)))" if "w < unat assoc" for w
    by (rule S(3)) (use p [OF S(2) that] in simp)
  moreover have "distinct (map (\<lambda>w. Some (?e w)) [0 ..< unat assoc])"
  proof (subst distinct_map, intro conjI inj_onI)
    fix v w assume "v \<in> set [0 ..< unat assoc]" "w \<in> set [0 ..< unat assoc]" "Some (?e v) = Some (?e w)"
    then have "v < unat assoc" "w < unat assoc" "?e v mod unat assoc = ?e w mod unat assoc" by simp_all
    then show "v = w" by simp
  qed simp
  ultimately show ?thesis using r by (intro exI [of _ ip] exI [of _ "map (\<lambda>w. Some (?e w)) [0 ..< unat assoc]"]) simp
qed

theorem skewed_roundtrip_witness:
  "\<exists>ip0 ip es. mk_skewed 0x10000 64 4 = Inr ip0 \<and> tagsInit (unat (ip_numSets ip0) * 4) ip0 = Inr ip \<and>
    sk_getPossibleEntries ip 0x12345678 = Inr es \<and> distinct es"
proof -
  obtain ip0 where m: "mk_skewed 0x10000 64 4 = Inr ip0"
    using floorLog2_power [of 6] floorLog2_power [of 8]
    by (simp add: mk_skewed_def mk_index_policy_def Let_def check_def isPowerOf2_def)
  show ?thesis using skewed_roundtrip [OF m, of "0x12345678"] m by auto
qed

end
