(* ===== verification/Repl_Policy.thy ===== *)
theory Repl_Policy
  imports Sat_Counter
begin

text \<open>
  The cache replacement policies of \<^verbatim>\<open>mem/cache/replacement_policies\<close> that keep one data object per entry: LRU, FIFO, MRU, LFU, random, weighted LRU,
  bimodal insertion, second chance and BRRIP. An entry is named by a number and a policy's state maps it to its replacement data, a record that is
  extended where the data class is derived from another one. The virtual functions of the base class are the record \<open>rp_ops\<close>; what a cache
  relies on is the locale \<open>replacement_policy\<close>, interpreted on every policy. The current tick is an argument of each call. Random numbers
  are a parameter: \<open>draw k lo hi\<close> is what the \<open>k\<close>-th call of \<^verbatim>\<open>random_mt.random(lo, hi)\<close> returns.
\<close>

section \<open>The interface\<close>

record 's rp_ops =
  rp_invalidate :: "nat \<Rightarrow> 's \<Rightarrow> 's res"
  rp_touch :: "tick \<Rightarrow> nat \<Rightarrow> 's \<Rightarrow> 's res"
  rp_reset :: "tick \<Rightarrow> nat \<Rightarrow> 's \<Rightarrow> 's res"
  rp_getVictim :: "nat list \<Rightarrow> 's \<Rightarrow> (nat \<times> 's) res"

datatype rp_call = Invalidate nat | Touch tick nat | Reset tick nat | GetVictim "nat list"

text \<open>A sequence of calls, with the victims chosen on the way.\<close>

fun rp_run :: "'s rp_ops \<Rightarrow> rp_call list \<Rightarrow> 's \<Rightarrow> (nat list \<times> 's) res" where
  "rp_run ops [] s = Inr ([], s)"
| "rp_run ops (Invalidate e # cs) s = rbind (rp_invalidate ops e s) (rp_run ops cs)"
| "rp_run ops (Touch now e # cs) s = rbind (rp_touch ops now e s) (rp_run ops cs)"
| "rp_run ops (Reset now e # cs) s = rbind (rp_reset ops now e s) (rp_run ops cs)"
| "rp_run ops (GetVictim es # cs) s =
     rbind (rp_getVictim ops es s) (\<lambda>(v, s). rbind (rp_run ops cs s) (\<lambda>(vs, s). Inr (v # vs, s)))"

fun calls_ok :: "(nat \<Rightarrow> bool) \<Rightarrow> (nat list \<Rightarrow> bool) \<Rightarrow> rp_call list \<Rightarrow> bool" where
  "calls_ok entry cands [] \<longleftrightarrow> True"
| "calls_ok entry cands (Invalidate e # cs) \<longleftrightarrow> entry e \<and> calls_ok entry cands cs"
| "calls_ok entry cands (Touch now e # cs) \<longleftrightarrow> entry e \<and> calls_ok entry cands cs"
| "calls_ok entry cands (Reset now e # cs) \<longleftrightarrow> entry e \<and> calls_ok entry cands cs"
| "calls_ok entry cands (GetVictim es # cs) \<longleftrightarrow> cands es \<and> calls_ok entry cands cs"

fun asked :: "rp_call list \<Rightarrow> nat list list" where
  "asked [] = []"
| "asked (GetVictim es # cs) = es # asked cs"
| "asked (c # cs) = asked cs"

definition victims_ok :: "'s rp_ops \<Rightarrow> rp_call list \<Rightarrow> 's \<Rightarrow> bool" where
  "victims_ok ops cs s \<longleftrightarrow> (\<exists>vs s'. rp_run ops cs s = Inr (vs, s') \<and> list_all2 (\<lambda>v es. v \<in> set es) vs (asked cs))"

text \<open>What the cache relies on: every call on known entries succeeds and the victim is one of the candidates.\<close>

locale replacement_policy =
  fixes ops :: "'s rp_ops" and ok :: "'s \<Rightarrow> bool" and entry :: "nat \<Rightarrow> bool" and cands :: "nat list \<Rightarrow> bool"
  assumes invalidate_ok: "ok s \<Longrightarrow> entry e \<Longrightarrow> \<exists>s'. rp_invalidate ops e s = Inr s' \<and> ok s'"
    and touch_ok: "ok s \<Longrightarrow> entry e \<Longrightarrow> \<exists>s'. rp_touch ops now e s = Inr s' \<and> ok s'"
    and reset_ok: "ok s \<Longrightarrow> entry e \<Longrightarrow> \<exists>s'. rp_reset ops now e s = Inr s' \<and> ok s'"
    and victim_ok: "ok s \<Longrightarrow> cands es \<Longrightarrow> \<exists>v s'. rp_getVictim ops es s = Inr (v, s') \<and> v \<in> set es \<and> ok s'"
begin

lemma all_victims_ok: "ok s \<Longrightarrow> calls_ok entry cands cs \<Longrightarrow> victims_ok ops cs s"
  unfolding victims_ok_def
proof (induction cs arbitrary: s)
  case (Cons c cs)
  show ?case
  proof (cases c)
    case (Invalidate e)
    then show ?thesis using Cons invalidate_ok [of s e] by fastforce
  next
    case (Touch now e)
    then show ?thesis using Cons touch_ok [of s e now] by fastforce
  next
    case (Reset now e)
    then show ?thesis using Cons reset_ok [of s e now] by fastforce
  next
    case (GetVictim es)
    then obtain v s1 where v: "rp_getVictim ops es s = Inr (v, s1)" "v \<in> set es" "ok s1" using victim_ok Cons.prems by fastforce
    then obtain vs s2 where "rp_run ops cs s1 = Inr (vs, s2)" "list_all2 (\<lambda>v es. v \<in> set es) vs (asked cs)"
      using Cons.IH [OF v(3)] Cons.prems GetVictim by auto
    then show ?thesis using v GetVictim by simp
  qed
qed simp

end

text \<open>The documented purpose of \<^verbatim>\<open>invalidate\<close>: an invalidated entry becomes the next probable victim.\<close>

locale invalidating_policy = replacement_policy +
  fixes invalid :: "'a \<Rightarrow> nat \<Rightarrow> bool"
  assumes invalidate_marks: "ok s \<Longrightarrow> entry e \<Longrightarrow> rp_invalidate ops e s = Inr s' \<Longrightarrow> invalid s' e"
    and prefers_invalid: "ok s \<Longrightarrow> cands es \<Longrightarrow> e \<in> set es \<Longrightarrow> invalid s e \<Longrightarrow> rp_getVictim ops es s = Inr (v, s') \<Longrightarrow> invalid s v"
begin

lemma invalidated_next:
  assumes "ok s" "entry e" "cands es" "e \<in> set es"
  shows "\<exists>s1 v s2. rp_invalidate ops e s = Inr s1 \<and> rp_getVictim ops es s1 = Inr (v, s2) \<and> v \<in> set es \<and> invalid s1 v"
proof -
  obtain s1 where s1: "rp_invalidate ops e s = Inr s1" "ok s1" using invalidate_ok assms(1,2) by blast
  obtain v s2 where v: "rp_getVictim ops es s1 = Inr (v, s2)" "v \<in> set es" using victim_ok [OF s1(2) assms(3)] by blast
  have "invalid s1 v" using prefers_invalid [OF s1(2) assms(3,4) invalidate_marks [OF assms(1,2) s1(1)] v(1)] .
  then show ?thesis using s1(1) v by blast
qed

end

section \<open>Common parts\<close>

record 'd rp_state =
  rs_data :: "nat \<Rightarrow> 'd"
  rs_draws :: nat

definition with_data :: "nat \<Rightarrow> ('d \<Rightarrow> 'd) \<Rightarrow> ('d, 'z) rp_state_scheme \<Rightarrow> ('d, 'z) rp_state_scheme" where
  "with_data e f s = s\<lparr>rs_data := (rs_data s)(e := f (rs_data s e))\<rparr>"

text \<open>The victim search that the policies share: the first candidate is replaced whenever a later one is better.\<close>

definition search_victim :: "(nat \<Rightarrow> nat \<Rightarrow> bool) \<Rightarrow> nat list \<Rightarrow> nat res" where
  "search_victim better es = rbind (check (es \<noteq> []) Assertion) (\<lambda>_. Inr (foldl (\<lambda>v c. if better c v then c else v) (es ! 0) es))"

definition in_range :: "(nat \<Rightarrow> nat \<Rightarrow> nat \<Rightarrow> nat) \<Rightarrow> bool" where
  "in_range draw \<longleftrightarrow> (\<forall>k lo hi. lo \<le> hi \<longrightarrow> lo \<le> draw k lo hi \<and> draw k lo hi \<le> hi)"

section \<open>LRU\<close>

record lru_data =
  lastTouchTick :: tick

definition lru_invalidate :: "nat \<Rightarrow> ('d lru_data_scheme, 'z) rp_state_scheme \<Rightarrow> ('d lru_data_scheme, 'z) rp_state_scheme" where
  "lru_invalidate e = with_data e (\<lambda>d. d\<lparr>lastTouchTick := 0\<rparr>)"

definition lru_touch :: "tick \<Rightarrow> nat \<Rightarrow> ('d lru_data_scheme, 'z) rp_state_scheme \<Rightarrow> ('d lru_data_scheme, 'z) rp_state_scheme" where
  "lru_touch now e = with_data e (\<lambda>d. d\<lparr>lastTouchTick := now\<rparr>)"

definition lru_reset :: "tick \<Rightarrow> nat \<Rightarrow> ('d lru_data_scheme, 'z) rp_state_scheme \<Rightarrow> ('d lru_data_scheme, 'z) rp_state_scheme" where
  "lru_reset now e = with_data e (\<lambda>d. d\<lparr>lastTouchTick := now\<rparr>)"

definition lru_getVictim :: "nat list \<Rightarrow> ('d lru_data_scheme, 'z) rp_state_scheme \<Rightarrow> nat res" where
  "lru_getVictim es s = search_victim (\<lambda>c v. lastTouchTick (rs_data s c) < lastTouchTick (rs_data s v)) es"

definition lru_instantiateEntry :: lru_data where
  "lru_instantiateEntry = \<lparr>lastTouchTick = 0\<rparr>"

definition lru_ops :: "lru_data rp_state rp_ops" where
  "lru_ops = \<lparr>rp_invalidate = (\<lambda>e s. Inr (lru_invalidate e s)), rp_touch = (\<lambda>now e s. Inr (lru_touch now e s)),
     rp_reset = (\<lambda>now e s. Inr (lru_reset now e s)), rp_getVictim = (\<lambda>es s. rbind (lru_getVictim es s) (\<lambda>v. Inr (v, s)))\<rparr>"

section \<open>Bimodal insertion and weighted LRU\<close>

text \<open>\<open>btp\<close> is the percentage of insertions that are treated as most recently used.\<close>

definition bip_reset :: "(nat \<Rightarrow> nat \<Rightarrow> nat \<Rightarrow> nat) \<Rightarrow> nat \<Rightarrow> tick \<Rightarrow> nat \<Rightarrow> lru_data rp_state \<Rightarrow> lru_data rp_state" where
  "bip_reset draw btp now e s =
     (let s' = s\<lparr>rs_draws := rs_draws s + 1\<rparr> in
      if draw (rs_draws s) 1 100 \<le> btp then with_data e (\<lambda>d. d\<lparr>lastTouchTick := now\<rparr>) s'
      else with_data e (\<lambda>d. d\<lparr>lastTouchTick := 1\<rparr>) s')"

definition bip_ops :: "(nat \<Rightarrow> nat \<Rightarrow> nat \<Rightarrow> nat) \<Rightarrow> nat \<Rightarrow> lru_data rp_state rp_ops" where
  "bip_ops draw btp = lru_ops\<lparr>rp_reset := (\<lambda>now e s. Inr (bip_reset draw btp now e s))\<rparr>"

record weighted_data = lru_data +
  last_occ_ptr :: int

definition weighted_touch :: "tick \<Rightarrow> int \<Rightarrow> nat \<Rightarrow> weighted_data rp_state \<Rightarrow> weighted_data rp_state" where
  "weighted_touch now occupancy e s = with_data e (\<lambda>d. d\<lparr>last_occ_ptr := occupancy\<rparr>) (lru_touch now e s)"

definition weighted_better :: "weighted_data rp_state \<Rightarrow> nat \<Rightarrow> nat \<Rightarrow> bool" where
  "weighted_better s c v =
     (if last_occ_ptr (rs_data s c) < last_occ_ptr (rs_data s v) then True
      else if last_occ_ptr (rs_data s c) = last_occ_ptr (rs_data s v)
      then lastTouchTick (rs_data s c) < lastTouchTick (rs_data s v) else False)"

definition weighted_getVictim :: "nat list \<Rightarrow> weighted_data rp_state \<Rightarrow> nat res" where
  "weighted_getVictim es s = search_victim (weighted_better s) es"

definition weighted_instantiateEntry :: weighted_data where
  "weighted_instantiateEntry = \<lparr>lastTouchTick = 0, last_occ_ptr = 0\<rparr>"

text \<open>
  The other virtual functions are inherited.  An access comes through the inherited \<^verbatim>\<open>touch\<close> or through the one that takes
  an occupancy: \<open>occ k\<close> is the occupancy the \<open>k\<close>-th access passes, if it passes one.
\<close>

definition weighted_access :: "(nat \<Rightarrow> int option) \<Rightarrow> tick \<Rightarrow> nat \<Rightarrow> weighted_data rp_state \<Rightarrow> weighted_data rp_state" where
  "weighted_access occ now e s =
     (let s' = s\<lparr>rs_draws := rs_draws s + 1\<rparr> in
      case occ (rs_draws s) of None \<Rightarrow> lru_touch now e s' | Some occupancy \<Rightarrow> weighted_touch now occupancy e s')"

definition weighted_ops :: "(nat \<Rightarrow> int option) \<Rightarrow> weighted_data rp_state rp_ops" where
  "weighted_ops occ = \<lparr>rp_invalidate = (\<lambda>e s. Inr (lru_invalidate e s)), rp_touch = (\<lambda>now e s. Inr (weighted_access occ now e s)),
     rp_reset = (\<lambda>now e s. Inr (lru_reset now e s)), rp_getVictim = (\<lambda>es s. rbind (weighted_getVictim es s) (\<lambda>v. Inr (v, s)))\<rparr>"

section \<open>FIFO and second chance\<close>

record fifo_data =
  tickInserted :: tick

record 'd fifo_state = "'d rp_state" +
  timeTicks :: tick

definition fifo_stamp :: "nat \<Rightarrow> ('d fifo_data_scheme, 'z) fifo_state_scheme \<Rightarrow> ('d fifo_data_scheme, 'z) fifo_state_scheme" where
  "fifo_stamp e s = with_data e (\<lambda>d. d\<lparr>tickInserted := timeTicks s + 1\<rparr>) (s\<lparr>timeTicks := timeTicks s + 1\<rparr>)"

definition fifo_invalidate :: "nat \<Rightarrow> ('d fifo_data_scheme, 'z) fifo_state_scheme \<Rightarrow> ('d fifo_data_scheme, 'z) fifo_state_scheme" where
  "fifo_invalidate = fifo_stamp"

definition fifo_touch :: "nat \<Rightarrow> ('d fifo_data_scheme, 'z) fifo_state_scheme \<Rightarrow> ('d fifo_data_scheme, 'z) fifo_state_scheme" where
  "fifo_touch e s = s"

definition fifo_reset :: "nat \<Rightarrow> ('d fifo_data_scheme, 'z) fifo_state_scheme \<Rightarrow> ('d fifo_data_scheme, 'z) fifo_state_scheme" where
  "fifo_reset = fifo_stamp"

definition fifo_getVictim :: "nat list \<Rightarrow> ('d fifo_data_scheme, 'z) fifo_state_scheme \<Rightarrow> nat res" where
  "fifo_getVictim es s = search_victim (\<lambda>c v. tickInserted (rs_data s c) < tickInserted (rs_data s v)) es"

definition fifo_instantiateEntry :: fifo_data where
  "fifo_instantiateEntry = \<lparr>tickInserted = 0\<rparr>"

definition fifo_ops :: "fifo_data fifo_state rp_ops" where
  "fifo_ops = \<lparr>rp_invalidate = (\<lambda>e s. Inr (fifo_invalidate e s)), rp_touch = (\<lambda>now e s. Inr (fifo_touch e s)),
     rp_reset = (\<lambda>now e s. Inr (fifo_reset e s)), rp_getVictim = (\<lambda>es s. rbind (fifo_getVictim es s) (\<lambda>v. Inr (v, s)))\<rparr>"

record chance_data = fifo_data +
  hasSecondChance :: bool

type_synonym chance_state = "chance_data fifo_state"

definition sch_useSecondChance :: "nat \<Rightarrow> chance_state \<Rightarrow> chance_state" where
  "sch_useSecondChance e s = with_data e (\<lambda>d. d\<lparr>hasSecondChance := False\<rparr>) (fifo_reset e s)"

definition sch_invalidate :: "nat \<Rightarrow> chance_state \<Rightarrow> chance_state" where
  "sch_invalidate e s = with_data e (\<lambda>d. d\<lparr>hasSecondChance := False\<rparr>) (fifo_invalidate e s)"

definition sch_touch :: "nat \<Rightarrow> chance_state \<Rightarrow> chance_state" where
  "sch_touch e s = with_data e (\<lambda>d. d\<lparr>hasSecondChance := True\<rparr>) (fifo_touch e s)"

definition sch_reset :: "nat \<Rightarrow> chance_state \<Rightarrow> chance_state" where
  "sch_reset e s = with_data e (\<lambda>d. d\<lparr>hasSecondChance := False\<rparr>) (fifo_reset e s)"

lemma foldl_pick_in: "foldl (\<lambda>v c. if better c v then c else v) x es \<in> insert x (set es)"
  by (induction es arbitrary: x) auto

lemma search_victim_in: "search_victim better es = Inr v \<Longrightarrow> v \<in> set es"
  using foldl_pick_in [of better "es ! 0" es] by (cases es) (auto simp: search_victim_def check_def)

lemma fifo_getVictim_in: "fifo_getVictim es s = Inr v \<Longrightarrow> v \<in> set es"
  unfolding fifo_getVictim_def by (rule search_victim_in)

lemma chances_decrease:
  assumes "fifo_getVictim es s = Inr v" "hasSecondChance (rs_data s v)"
  shows "card {e \<in> set es. hasSecondChance (rs_data (sch_useSecondChance v s) e)} < card {e \<in> set es. hasSecondChance (rs_data s e)}"
proof (rule psubset_card_mono)
  show "{e \<in> set es. hasSecondChance (rs_data (sch_useSecondChance v s) e)} \<subset> {e \<in> set es. hasSecondChance (rs_data s e)}"
    using assms(2) fifo_getVictim_in [OF assms(1)]
    by (auto simp: sch_useSecondChance_def fifo_reset_def fifo_stamp_def with_data_def split: if_splits)
qed simp

text \<open>Each pass of the search takes the oldest entry, which loses its second chance and becomes the newest, or is the victim.\<close>

function sch_search :: "nat list \<Rightarrow> chance_state \<Rightarrow> (nat \<times> chance_state) res" where
  "sch_search es s = (case fifo_getVictim es s of Inl err \<Rightarrow> Inl err
     | Inr v \<Rightarrow> if hasSecondChance (rs_data s v) then sch_search es (sch_useSecondChance v s) else Inr (v, s))"
  by pat_completeness auto

termination
  by (relation "measure (\<lambda>(es, s). card {e \<in> set es. hasSecondChance (rs_data s e)})") (auto dest: chances_decrease)

declare sch_search.simps [simp del]

definition sch_getVictim :: "nat list \<Rightarrow> chance_state \<Rightarrow> (nat \<times> chance_state) res" where
  "sch_getVictim es s =
     rbind (check (es \<noteq> []) Assertion) (\<lambda>_.
     case find (\<lambda>c. tickInserted (rs_data s c) = 0 \<and> \<not> hasSecondChance (rs_data s c)) es of
       Some c \<Rightarrow> Inr (c, s)
     | None \<Rightarrow> sch_search es s)"

definition sch_instantiateEntry :: chance_data where
  "sch_instantiateEntry = \<lparr>tickInserted = 0, hasSecondChance = False\<rparr>"

definition sch_ops :: "chance_state rp_ops" where
  "sch_ops = \<lparr>rp_invalidate = (\<lambda>e s. Inr (sch_invalidate e s)), rp_touch = (\<lambda>now e s. Inr (sch_touch e s)),
     rp_reset = (\<lambda>now e s. Inr (sch_reset e s)), rp_getVictim = sch_getVictim\<rparr>"

section \<open>MRU, LFU and random\<close>

definition mru_invalidate :: "nat \<Rightarrow> lru_data rp_state \<Rightarrow> lru_data rp_state" where
  "mru_invalidate e = with_data e (\<lambda>d. d\<lparr>lastTouchTick := 0\<rparr>)"

definition mru_touch :: "tick \<Rightarrow> nat \<Rightarrow> lru_data rp_state \<Rightarrow> lru_data rp_state" where
  "mru_touch now e = with_data e (\<lambda>d. d\<lparr>lastTouchTick := now\<rparr>)"

definition mru_reset :: "tick \<Rightarrow> nat \<Rightarrow> lru_data rp_state \<Rightarrow> lru_data rp_state" where
  "mru_reset now e = with_data e (\<lambda>d. d\<lparr>lastTouchTick := now\<rparr>)"

fun mru_search :: "lru_data rp_state \<Rightarrow> nat \<Rightarrow> nat list \<Rightarrow> nat" where
  "mru_search s victim [] = victim"
| "mru_search s victim (c # cs) =
     (if lastTouchTick (rs_data s c) = 0 then c
      else if lastTouchTick (rs_data s victim) < lastTouchTick (rs_data s c) then mru_search s c cs
      else mru_search s victim cs)"

definition mru_getVictim :: "nat list \<Rightarrow> lru_data rp_state \<Rightarrow> nat res" where
  "mru_getVictim es s = rbind (check (es \<noteq> []) Assertion) (\<lambda>_. Inr (mru_search s (es ! 0) es))"

definition mru_instantiateEntry :: lru_data where
  "mru_instantiateEntry = \<lparr>lastTouchTick = 0\<rparr>"

definition mru_ops :: "lru_data rp_state rp_ops" where
  "mru_ops = \<lparr>rp_invalidate = (\<lambda>e s. Inr (mru_invalidate e s)), rp_touch = (\<lambda>now e s. Inr (mru_touch now e s)),
     rp_reset = (\<lambda>now e s. Inr (mru_reset now e s)), rp_getVictim = (\<lambda>es s. rbind (mru_getVictim es s) (\<lambda>v. Inr (v, s)))\<rparr>"

record lfu_data =
  refCount :: u32

definition lfu_invalidate :: "nat \<Rightarrow> lfu_data rp_state \<Rightarrow> lfu_data rp_state" where
  "lfu_invalidate e = with_data e (\<lambda>d. d\<lparr>refCount := 0\<rparr>)"

definition lfu_touch :: "nat \<Rightarrow> lfu_data rp_state \<Rightarrow> lfu_data rp_state" where
  "lfu_touch e = with_data e (\<lambda>d. d\<lparr>refCount := refCount d + 1\<rparr>)"

definition lfu_reset :: "nat \<Rightarrow> lfu_data rp_state \<Rightarrow> lfu_data rp_state" where
  "lfu_reset e = with_data e (\<lambda>d. d\<lparr>refCount := 1\<rparr>)"

definition lfu_getVictim :: "nat list \<Rightarrow> lfu_data rp_state \<Rightarrow> nat res" where
  "lfu_getVictim es s = search_victim (\<lambda>c v. refCount (rs_data s c) < refCount (rs_data s v)) es"

definition lfu_instantiateEntry :: lfu_data where
  "lfu_instantiateEntry = \<lparr>refCount = 0\<rparr>"

definition lfu_ops :: "lfu_data rp_state rp_ops" where
  "lfu_ops = \<lparr>rp_invalidate = (\<lambda>e s. Inr (lfu_invalidate e s)), rp_touch = (\<lambda>now e s. Inr (lfu_touch e s)),
     rp_reset = (\<lambda>now e s. Inr (lfu_reset e s)), rp_getVictim = (\<lambda>es s. rbind (lfu_getVictim es s) (\<lambda>v. Inr (v, s)))\<rparr>"

record random_data =
  rd_valid :: bool

definition random_invalidate :: "nat \<Rightarrow> random_data rp_state \<Rightarrow> random_data rp_state" where
  "random_invalidate e = with_data e (\<lambda>d. d\<lparr>rd_valid := False\<rparr>)"

definition random_touch :: "nat \<Rightarrow> random_data rp_state \<Rightarrow> random_data rp_state" where
  "random_touch e s = s"

definition random_reset :: "nat \<Rightarrow> random_data rp_state \<Rightarrow> random_data rp_state" where
  "random_reset e = with_data e (\<lambda>d. d\<lparr>rd_valid := True\<rparr>)"

definition random_getVictim :: "(nat \<Rightarrow> nat \<Rightarrow> nat \<Rightarrow> nat) \<Rightarrow> nat list \<Rightarrow> random_data rp_state \<Rightarrow> (nat \<times> random_data rp_state) res" where
  "random_getVictim draw es s =
     rbind (check (es \<noteq> []) Assertion) (\<lambda>_.
     rbind (vget es (draw (rs_draws s) 0 (length es - 1))) (\<lambda>victim.
     Inr (case find (\<lambda>c. \<not> rd_valid (rs_data s c)) es of Some c \<Rightarrow> c | None \<Rightarrow> victim, s\<lparr>rs_draws := rs_draws s + 1\<rparr>)))"

definition random_instantiateEntry :: random_data where
  "random_instantiateEntry = \<lparr>rd_valid = False\<rparr>"

definition random_ops :: "(nat \<Rightarrow> nat \<Rightarrow> nat \<Rightarrow> nat) \<Rightarrow> random_data rp_state rp_ops" where
  "random_ops draw = \<lparr>rp_invalidate = (\<lambda>e s. Inr (random_invalidate e s)), rp_touch = (\<lambda>now e s. Inr (random_touch e s)),
     rp_reset = (\<lambda>now e s. Inr (random_reset e s)), rp_getVictim = random_getVictim draw\<rparr>"

section \<open>BRRIP\<close>

record brrip_data =
  rrpv :: "u8 sat_counter"
  br_valid :: bool

definition brrip_new :: "nat \<Rightarrow> unit res" where
  "brrip_new numRRPVBits = check (\<not> numRRPVBits \<le> 0) Fatal"

definition brrip_invalidate :: "nat \<Rightarrow> brrip_data rp_state \<Rightarrow> brrip_data rp_state" where
  "brrip_invalidate e = with_data e (\<lambda>d. d\<lparr>br_valid := False\<rparr>)"

definition brrip_touch :: "bool \<Rightarrow> nat \<Rightarrow> brrip_data rp_state \<Rightarrow> brrip_data rp_state" where
  "brrip_touch hitPriority e =
     (if hitPriority then with_data e (\<lambda>d. d\<lparr>rrpv := sc_reset (rrpv d)\<rparr>) else with_data e (\<lambda>d. d\<lparr>rrpv := sc_dec (rrpv d)\<rparr>))"

definition brrip_reset :: "(nat \<Rightarrow> nat \<Rightarrow> nat \<Rightarrow> nat) \<Rightarrow> nat \<Rightarrow> nat \<Rightarrow> brrip_data rp_state \<Rightarrow> brrip_data rp_state" where
  "brrip_reset draw btp e s =
     (let s1 = with_data e (\<lambda>d. d\<lparr>rrpv := snd (saturate (rrpv d))\<rparr>) s;
          s2 = s1\<lparr>rs_draws := rs_draws s1 + 1\<rparr>;
          s3 = (if draw (rs_draws s1) 1 100 \<le> btp then with_data e (\<lambda>d. d\<lparr>rrpv := sc_dec (rrpv d)\<rparr>) s2 else s2)
      in with_data e (\<lambda>d. d\<lparr>br_valid := True\<rparr>) s3)"

text \<open>The search ends at the first invalid entry, and otherwise keeps the candidate with the largest prediction value.\<close>

fun brrip_search :: "brrip_data rp_state \<Rightarrow> nat \<Rightarrow> nat list \<Rightarrow> nat + nat" where
  "brrip_search s victim [] = Inr victim"
| "brrip_search s victim (c # cs) =
     (if \<not> br_valid (rs_data s c) then Inl c
      else if counter (rrpv (rs_data s victim)) < counter (rrpv (rs_data s c)) then brrip_search s c cs
      else brrip_search s victim cs)"

definition brrip_getVictim :: "nat list \<Rightarrow> brrip_data rp_state \<Rightarrow> (nat \<times> brrip_data rp_state) res" where
  "brrip_getVictim es s =
     rbind (check (es \<noteq> []) Assertion) (\<lambda>_.
     case brrip_search s (es ! 0) es of
       Inl c \<Rightarrow> Inr (c, s)
     | Inr victim \<Rightarrow>
         let diff = uint (fst (saturate (rrpv (rs_data s victim))));
             s1 = with_data victim (\<lambda>d. d\<lparr>rrpv := snd (saturate (rrpv d))\<rparr>) s
         in Inr (victim, if 0 < diff then fold (\<lambda>c. with_data c (\<lambda>d. d\<lparr>rrpv := sc_add (rrpv d) diff\<rparr>)) es s1 else s1))"

definition brrip_instantiateEntry :: "nat \<Rightarrow> brrip_data res" where
  "brrip_instantiateEntry numRRPVBits = rbind (mk_sat_counter numRRPVBits 0) (\<lambda>c. Inr \<lparr>rrpv = c, br_valid = False\<rparr>)"

definition brrip_ops :: "(nat \<Rightarrow> nat \<Rightarrow> nat \<Rightarrow> nat) \<Rightarrow> nat \<Rightarrow> bool \<Rightarrow> brrip_data rp_state rp_ops" where
  "brrip_ops draw btp hitPriority = \<lparr>rp_invalidate = (\<lambda>e s. Inr (brrip_invalidate e s)), rp_touch = (\<lambda>now e s. Inr (brrip_touch hitPriority e s)),
     rp_reset = (\<lambda>now e s. Inr (brrip_reset draw btp e s)), rp_getVictim = brrip_getVictim\<rparr>"

section \<open>Every policy keeps the contract\<close>

lemma search_victim_total: "es \<noteq> [] \<Longrightarrow> \<exists>v. search_victim better es = Inr v \<and> v \<in> set es"
  using search_victim_in [of better es] by (auto simp: search_victim_def check_def)

lemma search_victim_run:
  "es \<noteq> [] \<Longrightarrow> \<exists>v s'. rbind (search_victim better es) (\<lambda>v. Inr (v, s)) = Inr (v, s') \<and> v \<in> set es"
  using search_victim_total [of es better] by auto

lemma foldl_pick_least:
  fixes k :: "nat \<Rightarrow> 'k::linorder"
  shows "c \<in> insert x (set es) \<Longrightarrow> k (foldl (\<lambda>v c. if k c < k v then c else v) x es) \<le> k c"
proof (induction es arbitrary: x c)
  case (Cons e es)
  show ?case
  proof (cases "k e < k x")
    case True
    then show ?thesis using Cons.IH [of _ e] Cons.prems by (force intro: order.trans)
  next
    case False
    then show ?thesis using Cons.IH [of _ x] Cons.prems by (force intro: order.trans simp: not_less)
  qed
qed simp

lemma search_victim_least:
  fixes k :: "nat \<Rightarrow> 'k::linorder"
  shows "search_victim (\<lambda>c v. k c < k v) es = Inr v \<Longrightarrow> c \<in> set es \<Longrightarrow> k v \<le> k c"
  using foldl_pick_least [of c "es ! 0" es k] by (auto simp: search_victim_def check_def split: if_splits)

lemmas lru_defs = lru_ops_def lru_invalidate_def lru_touch_def lru_reset_def lru_getVictim_def with_data_def

lemma word_least_zero: "(x :: 'a::len word) \<le> y \<Longrightarrow> y = 0 \<Longrightarrow> x = 0"
  by simp

interpretation lru: invalidating_policy lru_ops "\<lambda>_. True" "\<lambda>_. True" "\<lambda>es. es \<noteq> []" "\<lambda>s e. lastTouchTick (rs_data s e) = 0"
proof
  fix s :: "lru_data rp_state" and es :: "nat list" and e v s'
  show "\<exists>v s'. rp_getVictim lru_ops es s = Inr (v, s') \<and> v \<in> set es \<and> True" if "es \<noteq> []"
    using search_victim_run [OF that] by (simp add: lru_defs)
  show "lastTouchTick (rs_data s v) = 0" if "e \<in> set es" "lastTouchTick (rs_data s e) = 0" "rp_getVictim lru_ops es s = Inr (v, s')"
    using that search_victim_least [of "\<lambda>c. lastTouchTick (rs_data s c)" es v e] by (auto simp: lru_defs rbind_eq_Inr)
qed (auto simp: lru_defs)

interpretation bip: invalidating_policy "bip_ops draw btp" "\<lambda>_. True" "\<lambda>_. True" "\<lambda>es. es \<noteq> []" "\<lambda>s e. lastTouchTick (rs_data s e) = 0" for draw btp
proof
  fix s :: "lru_data rp_state" and es :: "nat list" and e v s'
  have eq: "rp_getVictim (bip_ops draw btp) = rp_getVictim lru_ops" by (simp add: bip_ops_def)
  show "\<exists>v s'. rp_getVictim (bip_ops draw btp) es s = Inr (v, s') \<and> v \<in> set es \<and> True" if "es \<noteq> []"
    unfolding eq using lru.victim_ok [OF _ that] by simp
  show "lastTouchTick (rs_data s v) = 0" if "es \<noteq> []" "e \<in> set es" "lastTouchTick (rs_data s e) = 0" "rp_getVictim (bip_ops draw btp) es s = Inr (v, s')"
    using lru.prefers_invalid [OF _ that(1-3)] that(4) unfolding eq by blast
qed (auto simp: bip_ops_def lru_defs)

interpretation weighted: replacement_policy "weighted_ops occ" "\<lambda>_. True" "\<lambda>_. True" "\<lambda>es. es \<noteq> []" for occ
proof
  fix s :: "weighted_data rp_state" and es :: "nat list"
  show "\<exists>v s'. rp_getVictim (weighted_ops occ) es s = Inr (v, s') \<and> v \<in> set es \<and> True" if "es \<noteq> []"
    using search_victim_run [OF that] by (simp add: weighted_ops_def weighted_getVictim_def)
qed (auto simp: weighted_ops_def)

interpretation fifo: replacement_policy fifo_ops "\<lambda>_. True" "\<lambda>_. True" "\<lambda>es. es \<noteq> []"
proof
  fix s :: "fifo_data fifo_state" and es :: "nat list"
  show "\<exists>v s'. rp_getVictim fifo_ops es s = Inr (v, s') \<and> v \<in> set es \<and> True" if "es \<noteq> []"
    using search_victim_run [OF that] by (simp add: fifo_ops_def fifo_getVictim_def)
qed (auto simp: fifo_ops_def)

lemma sch_search_total:
  "es \<noteq> [] \<Longrightarrow> \<exists>v s'. sch_search es s = Inr (v, s') \<and> v \<in> set es \<and> \<not> hasSecondChance (rs_data s' v)"
proof (induction es s rule: sch_search.induct)
  case (1 es s)
  obtain v where v: "fifo_getVictim es s = Inr v" "v \<in> set es" using search_victim_total [OF 1(2)] by (fastforce simp: fifo_getVictim_def)
  show ?case
  proof (cases "hasSecondChance (rs_data s v)")
    case True
    then show ?thesis using 1(1) [OF v(1) True 1(2)] v(1) by (subst sch_search.simps) simp
  next
    case False
    then show ?thesis using v by (subst sch_search.simps) simp
  qed
qed

interpretation sch: replacement_policy sch_ops "\<lambda>_. True" "\<lambda>_. True" "\<lambda>es. es \<noteq> []"
proof
  fix s :: chance_state and es :: "nat list"
  show "\<exists>v s'. rp_getVictim sch_ops es s = Inr (v, s') \<and> v \<in> set es \<and> True" if "es \<noteq> []"
    using that sch_search_total [OF that, of s] by (auto simp: sch_ops_def sch_getVictim_def check_def find_Some_iff split: option.splits)
qed (auto simp: sch_ops_def)

lemma mru_search_in: "mru_search s x es \<in> insert x (set es)"
  by (induction es arbitrary: x) auto

lemma mru_search_zero: "e \<in> set es \<Longrightarrow> lastTouchTick (rs_data s e) = 0 \<Longrightarrow> lastTouchTick (rs_data s (mru_search s x es)) = 0"
  by (induction es arbitrary: x) auto

lemmas mru_defs = mru_ops_def mru_invalidate_def mru_touch_def mru_reset_def mru_getVictim_def with_data_def

interpretation mru: invalidating_policy mru_ops "\<lambda>_. True" "\<lambda>_. True" "\<lambda>es. es \<noteq> []" "\<lambda>s e. lastTouchTick (rs_data s e) = 0"
proof
  fix s :: "lru_data rp_state" and es :: "nat list" and e v s'
  show "\<exists>v s'. rp_getVictim mru_ops es s = Inr (v, s') \<and> v \<in> set es \<and> True" if "es \<noteq> []"
    using that mru_search_in [of s "es ! 0" es] by (cases es) (auto simp: mru_defs check_def)
  show "lastTouchTick (rs_data s v) = 0" if "e \<in> set es" "lastTouchTick (rs_data s e) = 0" "rp_getVictim mru_ops es s = Inr (v, s')"
    using that mru_search_zero [of e es s] by (auto simp: mru_defs rbind_eq_Inr)
qed (auto simp: mru_defs)

lemmas lfu_defs = lfu_ops_def lfu_invalidate_def lfu_touch_def lfu_reset_def lfu_getVictim_def with_data_def

interpretation lfu: invalidating_policy lfu_ops "\<lambda>_. True" "\<lambda>_. True" "\<lambda>es. es \<noteq> []" "\<lambda>s e. refCount (rs_data s e) = 0"
proof
  fix s :: "lfu_data rp_state" and es :: "nat list" and e v s'
  show "\<exists>v s'. rp_getVictim lfu_ops es s = Inr (v, s') \<and> v \<in> set es \<and> True" if "es \<noteq> []"
    using search_victim_run [OF that] by (simp add: lfu_defs)
  show "refCount (rs_data s v) = 0" if "e \<in> set es" "refCount (rs_data s e) = 0" "rp_getVictim lfu_ops es s = Inr (v, s')"
    using that search_victim_least [of "\<lambda>c. refCount (rs_data s c)" es v e] by (auto simp: lfu_defs rbind_eq_Inr)
qed (auto simp: lfu_defs)

lemmas random_defs = random_ops_def random_invalidate_def random_touch_def random_reset_def random_getVictim_def with_data_def

interpretation random: invalidating_policy "random_ops draw" "\<lambda>_. in_range draw" "\<lambda>_. True" "\<lambda>es. es \<noteq> []" "\<lambda>s e. \<not> rd_valid (rs_data s e)" for draw
proof
  fix s :: "random_data rp_state" and es :: "nat list" and e v s'
  show "\<exists>v s'. rp_getVictim (random_ops draw) es s = Inr (v, s') \<and> v \<in> set es \<and> in_range draw" if "in_range draw" "es \<noteq> []"
  proof -
    have "draw (rs_draws s) 0 (length es - 1) \<le> length es - 1" using that(1) by (simp add: in_range_def)
    then have "draw (rs_draws s) 0 (length es - 1) < length es" using that(2) by (cases es) simp_all
    then show ?thesis using that by (auto simp: random_defs check_def vget_def find_Some_iff split: option.splits)
  qed
  show "\<not> rd_valid (rs_data s v)" if inv: "e \<in> set es" "\<not> rd_valid (rs_data s e)" "rp_getVictim (random_ops draw) es s = Inr (v, s')"
  proof -
    obtain c where c: "find (\<lambda>c. \<not> rd_valid (rs_data s c)) es = Some c"
      using inv(1,2) by (metis (mono_tags, lifting) find_None_iff not_None_eq)
    then have "\<not> rd_valid (rs_data s c)" by (auto simp: find_Some_iff)
    then show ?thesis using inv(3) c by (auto simp: random_defs rbind_eq_Inr)
  qed
qed (auto simp: random_defs)

definition brrip_wf :: "brrip_data rp_state \<Rightarrow> bool" where
  "brrip_wf s \<longleftrightarrow> (\<forall>e. sat_wf (rrpv (rs_data s e)))"

lemma brrip_wf_with_data: "brrip_wf s \<Longrightarrow> (\<And>d. sat_wf (rrpv d) \<Longrightarrow> sat_wf (rrpv (f d))) \<Longrightarrow> brrip_wf (with_data e f s)"
  by (simp add: brrip_wf_def with_data_def)

lemma brrip_wf_draws [simp]: "brrip_wf (s\<lparr>rs_draws := n\<rparr>) \<longleftrightarrow> brrip_wf s"
  by (simp add: brrip_wf_def)

lemma brrip_wf_fold: "brrip_wf s \<Longrightarrow> brrip_wf (fold (\<lambda>c. with_data c (\<lambda>d. d\<lparr>rrpv := sc_add (rrpv d) diff\<rparr>)) es s)"
  by (induction es arbitrary: s) (simp_all add: brrip_wf_with_data sat_wf_ops)

lemma brrip_search_in: "brrip_search s x es = Inl c \<Longrightarrow> c \<in> set es \<and> \<not> br_valid (rs_data s c)"
  by (induction es arbitrary: x) (auto split: if_splits)

lemma brrip_search_best:
  "brrip_search s x es = Inr v \<Longrightarrow> v \<in> insert x (set es) \<and> (\<forall>c\<in>insert x (set es). counter (rrpv (rs_data s c)) \<le> counter (rrpv (rs_data s v))) \<and>
    (\<forall>c\<in>set es. br_valid (rs_data s c))"
  by (induction es arbitrary: x) (fastforce split: if_splits)+

lemmas brrip_ops_defs = brrip_ops_def brrip_invalidate_def brrip_touch_def brrip_reset_def Let_def

interpretation brrip: invalidating_policy "brrip_ops draw btp hitPriority" brrip_wf "\<lambda>_. True" "\<lambda>es. es \<noteq> []" "\<lambda>s e. \<not> br_valid (rs_data s e)"
  for draw btp hitPriority
proof
  fix s :: "brrip_data rp_state" and es :: "nat list" and e v s' now
  let ?ops = "brrip_ops draw btp hitPriority"
  show "\<exists>s'. rp_invalidate ?ops e s = Inr s' \<and> brrip_wf s'" "\<exists>s'. rp_touch ?ops now e s = Inr s' \<and> brrip_wf s'"
      "\<exists>s'. rp_reset ?ops now e s = Inr s' \<and> brrip_wf s'" if "brrip_wf s"
    using that by (auto simp: brrip_ops_defs sat_wf_ops intro!: brrip_wf_with_data)
  show "\<exists>v s'. rp_getVictim ?ops es s = Inr (v, s') \<and> v \<in> set es \<and> brrip_wf s'" if "brrip_wf s" "es \<noteq> []"
  proof (cases "brrip_search s (es ! 0) es")
    case (Inl c)
    then show ?thesis using that brrip_search_in [OF Inl] by (simp add: brrip_ops_def brrip_getVictim_def check_def)
  next
    case (Inr c)
    have "c \<in> set es" using brrip_search_best [OF Inr] that(2) by (cases es) auto
    then show ?thesis using that Inr
      by (auto simp: brrip_ops_def brrip_getVictim_def check_def Let_def sat_wf_ops intro!: brrip_wf_fold brrip_wf_with_data)
  qed
  show "\<not> br_valid (rs_data s' e)" if "rp_invalidate ?ops e s = Inr s'" using that by (auto simp: brrip_ops_defs with_data_def)
  show "\<not> br_valid (rs_data s v)" if "e \<in> set es" "\<not> br_valid (rs_data s e)" "rp_getVictim ?ops es s = Inr (v, s')"
    using that brrip_search_in brrip_search_best by (fastforce simp: brrip_ops_def brrip_getVictim_def rbind_eq_Inr split: sum.splits)
qed

end
