(* ===== verification/Repl_Tree.thy ===== *)
theory Repl_Tree
  imports Repl_Policy
begin

text \<open>
  The tree pseudo-LRU policy of \<^verbatim>\<open>tree_plru_rp.cc\<close>, whose entries share one tree of bits per set, for any number of leaves, and the properties of
  the replacement policies. The trees live in a store; an entry's data is the position of its leaf and the number of its tree. Indices are
  natural numbers: with a single leaf the tree is empty and every access to it is out of range, whatever the parent of index 0 wraps to.
\<close>

section \<open>The policy\<close>

record plru_data =
  pd_index :: nat
  pd_tree :: nat

record plru_state =
  tp_numLeaves :: nat
  tp_count :: nat
  tp_trees :: "bool list list"
  tp_data :: "nat \<Rightarrow> plru_data"

definition parentIndex :: "nat \<Rightarrow> nat" where
  "parentIndex index = (index - 1) div 2"

definition leftSubtreeIndex :: "nat \<Rightarrow> nat" where
  "leftSubtreeIndex index = 2 * index + 1"

definition rightSubtreeIndex :: "nat \<Rightarrow> nat" where
  "rightSubtreeIndex index = 2 * index + 2"

definition isRightSubtree :: "nat \<Rightarrow> bool" where
  "isRightSubtree index \<longleftrightarrow> index mod 2 = 0"

definition tp_new :: "nat \<Rightarrow> plru_state res" where
  "tp_new numLeaves = rbind (check (\<not> numLeaves < 1) Fatal) (\<lambda>_.
     Inr \<lparr>tp_numLeaves = numLeaves, tp_count = 0, tp_trees = [], tp_data = (\<lambda>_. \<lparr>pd_index = 0, pd_tree = 0\<rparr>)\<rparr>)"

text \<open>The walk from a leaf to the root; \<open>f\<close> tells what to write at the parent of a right or a left child.\<close>

function walk_up :: "(bool \<Rightarrow> bool) \<Rightarrow> nat \<Rightarrow> bool list \<Rightarrow> bool list res" where
  "walk_up f i tree = (case vset tree (parentIndex i) (f (isRightSubtree i)) of Inl err \<Rightarrow> Inl err
     | Inr tree \<Rightarrow> if parentIndex i \<noteq> 0 then walk_up f (parentIndex i) tree else Inr tree)"
  by pat_completeness auto

termination
  by (relation "measure (\<lambda>(f, i, tree). i)") (auto simp: parentIndex_def)

declare walk_up.simps [simp del]

definition tp_walk :: "(bool \<Rightarrow> bool) \<Rightarrow> nat \<Rightarrow> plru_state \<Rightarrow> plru_state res" where
  "tp_walk f e s =
     rbind (vget (tp_trees s) (pd_tree (tp_data s e))) (\<lambda>tree.
     rbind (walk_up f (pd_index (tp_data s e)) tree) (\<lambda>tree.
     Inr (s\<lparr>tp_trees := (tp_trees s)[pd_tree (tp_data s e) := tree]\<rparr>)))"

definition tp_invalidate :: "nat \<Rightarrow> plru_state \<Rightarrow> plru_state res" where
  "tp_invalidate = tp_walk (\<lambda>right. right)"

definition tp_touch :: "nat \<Rightarrow> plru_state \<Rightarrow> plru_state res" where
  "tp_touch = tp_walk (\<lambda>right. \<not> right)"

definition tp_reset :: "nat \<Rightarrow> plru_state \<Rightarrow> plru_state res" where
  "tp_reset e s = tp_touch e s"

function walk_down :: "bool list \<Rightarrow> nat \<Rightarrow> nat" where
  "walk_down tree i = (if i < length tree then walk_down tree (if tree ! i then rightSubtreeIndex i else leftSubtreeIndex i) else i)"
  by pat_completeness auto

termination
  by (relation "measure (\<lambda>(tree, i). length tree - i)") (auto simp: rightSubtreeIndex_def leftSubtreeIndex_def)

declare walk_down.simps [simp del]

definition tp_getVictim :: "nat list \<Rightarrow> plru_state \<Rightarrow> nat res" where
  "tp_getVictim es s =
     rbind (check (es \<noteq> []) Assertion) (\<lambda>_.
     rbind (vget (tp_trees s) (pd_tree (tp_data s (es ! 0)))) (\<lambda>tree.
     vget es (walk_down tree 0 - (tp_numLeaves s - 1))))"

definition tp_instantiateEntry :: "nat \<Rightarrow> plru_state \<Rightarrow> plru_state" where
  "tp_instantiateEntry e s =
     (let s1 = (if tp_count s mod tp_numLeaves s = 0 then s\<lparr>tp_trees := tp_trees s @ [replicate (tp_numLeaves s - 1) False]\<rparr> else s)
      in s1\<lparr>tp_count := tp_count s + 1,
            tp_data := (tp_data s)(e := \<lparr>pd_index = tp_count s mod tp_numLeaves s + tp_numLeaves s - 1, pd_tree = length (tp_trees s1) - 1\<rparr>)\<rparr>)"

definition tp_ops :: "plru_state rp_ops" where
  "tp_ops = \<lparr>rp_invalidate = tp_invalidate, rp_touch = (\<lambda>now. tp_touch), rp_reset = (\<lambda>now. tp_reset),
     rp_getVictim = (\<lambda>es s. rbind (tp_getVictim es s) (\<lambda>v. Inr (v, s)))\<rparr>"

section \<open>The walks\<close>

lemmas tree_index_defs = parentIndex_def leftSubtreeIndex_def rightSubtreeIndex_def isRightSubtree_def

lemma parent_less: "0 < i \<Longrightarrow> parentIndex i < i"
  by (simp add: parentIndex_def)

lemma child_of_parent: "0 < i \<Longrightarrow> (if isRightSubtree i then rightSubtreeIndex (parentIndex i) else leftSubtreeIndex (parentIndex i)) = i"
  by (auto simp: tree_index_defs) presburger+

lemma parent_of_child: "parentIndex (if b then rightSubtreeIndex i else leftSubtreeIndex i) = i"
    "isRightSubtree (if b then rightSubtreeIndex i else leftSubtreeIndex i) = b"
  by (auto simp: tree_index_defs)

text \<open>A walk up succeeds below the leaves, keeps the rest of the tree, and writes at every parent on its way.\<close>

lemma walk_up_value:
  assumes "0 < i" "parentIndex i < length tree"
  shows "\<exists>t. walk_up f i tree = Inr t \<and> length t = length tree \<and> (\<forall>j\<ge>i. j < length tree \<longrightarrow> t ! j = tree ! j) \<and>
    (\<forall>k. (parentIndex ^^ k) i \<noteq> 0 \<longrightarrow> t ! parentIndex ((parentIndex ^^ k) i) = f (isRightSubtree ((parentIndex ^^ k) i)))"
  using assms
proof (induction i arbitrary: tree rule: less_induct)
  case (less i)
  let ?p = "parentIndex i" and ?t = "tree[parentIndex i := f (isRightSubtree i)]"
  have set: "vset tree ?p (f (isRightSubtree i)) = Inr ?t" using less.prems by (simp add: vset_def)
  have pi: "?p < i" by (rule parent_less [OF less.prems(1)])
  show ?case
  proof (cases "?p = 0")
    case True
    have z: "(parentIndex ^^ Suc k) i = 0" for k
      by (induction k) (use True in \<open>simp_all add: parentIndex_def\<close>)
    have "t ! parentIndex ((parentIndex ^^ k) i) = f (isRightSubtree ((parentIndex ^^ k) i))" if "(parentIndex ^^ k) i \<noteq> 0" "t = ?t" for k t
      using that z less.prems by (cases k) auto
    then show ?thesis using set True less.prems pi by (subst walk_up.simps) auto
  next
    case False
    have "parentIndex ?p < length ?t" using parent_less [of ?p] False less.prems(2) by simp
    from less.IH [OF pi _ this] False obtain t where t: "walk_up f ?p ?t = Inr t" "length t = length tree"
        "\<And>j. ?p \<le> j \<Longrightarrow> j < length tree \<Longrightarrow> t ! j = ?t ! j"
        "\<And>k. (parentIndex ^^ k) ?p \<noteq> 0 \<Longrightarrow> t ! parentIndex ((parentIndex ^^ k) ?p) = f (isRightSubtree ((parentIndex ^^ k) ?p))"
      by auto
    have "t ! parentIndex ((parentIndex ^^ k) i) = f (isRightSubtree ((parentIndex ^^ k) i))" if "(parentIndex ^^ k) i \<noteq> 0" for k
      using that t(3) [of ?p] t(4) less.prems(2) by (cases k) (simp_all add: funpow_swap1)
    moreover have "\<forall>j\<ge>i. j < length tree \<longrightarrow> t ! j = tree ! j" using t(3) pi by auto
    moreover have "walk_up f i tree = Inr t" using set False t(1) by (subst walk_up.simps) simp
    ultimately show ?thesis using t(2) by blast
  qed
qed

lemma walk_down_bounds: "i \<le> 2 * length tree \<Longrightarrow> length tree \<le> walk_down tree i \<and> walk_down tree i \<le> 2 * length tree"
proof (induction tree i rule: walk_down.induct)
  case (1 tree i)
  then show ?case by (subst (1 2) walk_down.simps) (auto simp: rightSubtreeIndex_def leftSubtreeIndex_def)
qed

text \<open>A walk down ends at a leaf to which its parent's bit points.\<close>

lemma walk_down_parent:
  "i < length tree \<Longrightarrow> tree ! parentIndex (walk_down tree i) = isRightSubtree (walk_down tree i)"
proof (induction tree i rule: walk_down.induct)
  case (1 tree i)
  let ?c = "if tree ! i then rightSubtreeIndex i else leftSubtreeIndex i"
  have eq: "walk_down tree i = walk_down tree ?c" using 1(2) by (subst walk_down.simps) simp
  show ?case
  proof (cases "?c < length tree")
    case True
    then show ?thesis using 1 eq by simp
  next
    case False
    then have "walk_down tree ?c = ?c" by (subst walk_down.simps) simp
    then show ?thesis unfolding eq using parent_of_child [of "tree ! i" i] by simp
  qed
qed

text \<open>When every bit on the way from a leaf to the root points to that leaf, the walk down ends there.\<close>

lemma walk_down_follows:
  assumes leaf: "length tree \<le> l" "l \<le> 2 * length tree" and path: "\<And>k. (parentIndex ^^ k) l \<noteq> 0 \<Longrightarrow>
      tree ! parentIndex ((parentIndex ^^ k) l) = isRightSubtree ((parentIndex ^^ k) l)"
  shows "walk_down tree 0 = l"
proof -
  have "walk_down tree 0 = walk_down tree x" if "x = (parentIndex ^^ k) l" for x k
    using that
  proof (induction x arbitrary: k rule: less_induct)
    case (less x)
    show ?case
    proof (cases "x = 0")
      case False
      have p: "parentIndex x = (parentIndex ^^ Suc k) l" using less.prems by simp
      have "x \<le> l" unfolding less.prems by (induction k) (auto simp: parentIndex_def)
      then have "parentIndex x < length tree" using leaf(2) False by (auto simp: parentIndex_def)
      then have "walk_down tree (parentIndex x) = walk_down tree x"
        using path [of k] child_of_parent [of x] False less.prems by (subst walk_down.simps) auto
      then show ?thesis using less.IH [OF _ p] parent_less [of x] False by simp
    qed simp
  qed
  from this [of l 0] have "walk_down tree 0 = walk_down tree l" by simp
  also have "\<dots> = l" using leaf(1) by (subst walk_down.simps) simp
  finally show ?thesis .
qed

section \<open>The contract\<close>

text \<open>\<open>m\<close> trees with \<open>n\<close> leaves each; \<open>D\<close> is the data of the entries, which no call changes.\<close>

definition tree_wf :: "nat \<Rightarrow> nat \<Rightarrow> (nat \<Rightarrow> plru_data) \<Rightarrow> plru_state \<Rightarrow> bool" where
  "tree_wf n m D s \<longleftrightarrow> 2 \<le> n \<and> tp_numLeaves s = n \<and> length (tp_trees s) = m \<and> (\<forall>t\<in>set (tp_trees s). length t = n - 1) \<and> tp_data s = D"

definition leaf_ok :: "nat \<Rightarrow> nat \<Rightarrow> (nat \<Rightarrow> plru_data) \<Rightarrow> nat \<Rightarrow> bool" where
  "leaf_ok n m D e \<longleftrightarrow> n - 1 \<le> pd_index (D e) \<and> pd_index (D e) \<le> 2 * (n - 1) \<and> pd_tree (D e) < m"

text \<open>The candidates are the leaves of one tree, in order.\<close>

definition team :: "nat \<Rightarrow> nat \<Rightarrow> (nat \<Rightarrow> plru_data) \<Rightarrow> nat list \<Rightarrow> bool" where
  "team n m D es \<longleftrightarrow> length es = n \<and> (\<exists>t<m. \<forall>k<n. pd_index (D (es ! k)) = n - 1 + k \<and> pd_tree (D (es ! k)) = t)"

definition pointed :: "plru_state \<Rightarrow> nat \<Rightarrow> bool" where
  "pointed s e \<longleftrightarrow> walk_down (tp_trees s ! pd_tree (tp_data s e)) 0 = pd_index (tp_data s e)"

lemma team_facts:
  assumes "team n m D es" "2 \<le> n"
  shows "\<exists>t<m. length es = n \<and> es \<noteq> [] \<and> (\<forall>k<n. pd_index (D (es ! k)) = n - 1 + k \<and> pd_tree (D (es ! k)) = t) \<and> (\<forall>e\<in>set es. leaf_ok n m D e)"
proof -
  obtain t where t: "t < m" "length es = n" "\<forall>k<n. pd_index (D (es ! k)) = n - 1 + k \<and> pd_tree (D (es ! k)) = t"
    using assms(1) by (auto simp: team_def)
  have "leaf_ok n m D e" if "e \<in> set es" for e using that t assms(2) by (auto simp: leaf_ok_def in_set_conv_nth)
  then show ?thesis using t assms(2) by (intro exI [of _ t]) auto
qed

lemma tree_at: "tree_wf n m D s \<Longrightarrow> t < m \<Longrightarrow> length (tp_trees s ! t) = n - 1"
  by (auto simp: tree_wf_def)

lemma tp_walk_value:
  assumes wf: "tree_wf n m D s" and leaf: "leaf_ok n m D e"
  shows "\<exists>t. tp_walk f e s = Inr (s\<lparr>tp_trees := (tp_trees s)[pd_tree (D e) := t]\<rparr>) \<and> tree_wf n m D (s\<lparr>tp_trees := (tp_trees s)[pd_tree (D e) := t]\<rparr>) \<and>
    length t = n - 1 \<and>
    (\<forall>k. (parentIndex ^^ k) (pd_index (D e)) \<noteq> 0 \<longrightarrow>
      t ! parentIndex ((parentIndex ^^ k) (pd_index (D e))) = f (isRightSubtree ((parentIndex ^^ k) (pd_index (D e)))))"
proof -
  let ?i = "pd_index (D e)" and ?t = "pd_tree (D e)"
  have n: "2 \<le> n" and D: "tp_data s = D" and tm: "?t < length (tp_trees s)" using wf leaf by (auto simp: tree_wf_def leaf_ok_def)
  have len: "length (tp_trees s ! ?t) = n - 1" using tree_at [OF wf] leaf by (simp add: leaf_ok_def)
  have i: "0 < ?i" "parentIndex ?i < length (tp_trees s ! ?t)" using leaf n len by (auto simp: leaf_ok_def parentIndex_def)
  from walk_up_value [OF i, of f] obtain t where t: "walk_up f ?i (tp_trees s ! ?t) = Inr t" "length t = n - 1"
      "\<And>k. (parentIndex ^^ k) ?i \<noteq> 0 \<Longrightarrow> t ! parentIndex ((parentIndex ^^ k) ?i) = f (isRightSubtree ((parentIndex ^^ k) ?i))"
    using len by auto
  have "tp_walk f e s = Inr (s\<lparr>tp_trees := (tp_trees s)[?t := t]\<rparr>)" using t(1) tm D by (simp add: tp_walk_def vget_def)
  moreover have "tree_wf n m D (s\<lparr>tp_trees := (tp_trees s)[?t := t]\<rparr>)"
    using wf t(2) set_update_subset_insert [of "tp_trees s" ?t t] by (auto simp: tree_wf_def)
  ultimately show ?thesis using t(2,3) by blast
qed

lemma tp_walk_ok:
  assumes "tree_wf n m D s" "leaf_ok n m D e"
  shows "\<exists>s'. tp_walk f e s = Inr s' \<and> tree_wf n m D s'"
proof -
  obtain t where "tp_walk f e s = Inr (s\<lparr>tp_trees := (tp_trees s)[pd_tree (D e) := t]\<rparr>)" "tree_wf n m D (s\<lparr>tp_trees := (tp_trees s)[pd_tree (D e) := t]\<rparr>)"
    using tp_walk_value [OF assms, of f] by (elim exE conjE)
  then show ?thesis by (intro exI conjI)
qed

lemma tp_getVictim_value:
  assumes wf: "tree_wf n m D s" and team: "team n m D es"
  shows "\<exists>k<n. tp_getVictim es s = Inr (es ! k) \<and> es ! k \<in> set es \<and> pointed s (es ! k) \<and> (\<forall>j<n. pointed s (es ! j) \<longrightarrow> j = k)"
proof -
  have n: "2 \<le> n" "tp_numLeaves s = n" "tp_data s = D" "length (tp_trees s) = m" using wf by (auto simp: tree_wf_def)
  obtain t where t: "t < m" "length es = n" "es \<noteq> []" "\<forall>k<n. pd_index (D (es ! k)) = n - 1 + k \<and> pd_tree (D (es ! k)) = t"
    using team_facts [OF team n(1)] by blast
  define k where "k = walk_down (tp_trees s ! t) 0 - (n - 1)"
  have "n - 1 \<le> walk_down (tp_trees s ! t) 0" "walk_down (tp_trees s ! t) 0 \<le> 2 * (n - 1)"
    using walk_down_bounds [of 0 "tp_trees s ! t"] tree_at [OF wf t(1)] by simp_all
  then have k: "k < n" "walk_down (tp_trees s ! t) 0 = n - 1 + k" using n(1) by (simp_all add: k_def)
  have "pd_tree (tp_data s (es ! 0)) = t" using t(4) n by simp
  then have "tp_getVictim es s = Inr (es ! k)" using t(1,2,3) k(1) n(2,4) by (simp add: tp_getVictim_def check_def vget_def k_def)
  moreover have "pointed s (es ! j) \<longleftrightarrow> j = k" if "j < n" for j using t(4) that n(3) k(2) by (auto simp: pointed_def)
  ultimately show ?thesis using k(1) t(2) by auto
qed

interpretation tree: invalidating_policy tp_ops "tree_wf n m D" "leaf_ok n m D" "team n m D" pointed for n m D
proof
  fix s e es v s' now
  show "\<exists>s'. rp_invalidate tp_ops e s = Inr s' \<and> tree_wf n m D s'" "\<exists>s'. rp_touch tp_ops now e s = Inr s' \<and> tree_wf n m D s'"
      "\<exists>s'. rp_reset tp_ops now e s = Inr s' \<and> tree_wf n m D s'" if "tree_wf n m D s" "leaf_ok n m D e"
    by (simp_all add: tp_ops_def tp_invalidate_def tp_reset_def tp_touch_def tp_walk_ok [OF that])
  show "\<exists>v s'. rp_getVictim tp_ops es s = Inr (v, s') \<and> v \<in> set es \<and> tree_wf n m D s'" if w: "tree_wf n m D s" "team n m D es"
  proof -
    obtain k where "tp_getVictim es s = Inr (es ! k)" "es ! k \<in> set es" using tp_getVictim_value [OF w] by blast
    then show ?thesis using w(1) by (simp add: tp_ops_def)
  qed
  show "pointed s' e" if a: "tree_wf n m D s" "leaf_ok n m D e" "rp_invalidate tp_ops e s = Inr s'"
  proof -
    have "length (tp_trees s) = m" "tp_data s = D" using a(1) by (simp_all add: tree_wf_def)
    obtain t where t: "s' = s\<lparr>tp_trees := (tp_trees s)[pd_tree (D e) := t]\<rparr>" "length t = n - 1"
        "\<And>k. (parentIndex ^^ k) (pd_index (D e)) \<noteq> 0 \<Longrightarrow>
          t ! parentIndex ((parentIndex ^^ k) (pd_index (D e))) = isRightSubtree ((parentIndex ^^ k) (pd_index (D e)))"
      using tp_walk_value [OF a(1,2), of "\<lambda>right. right"] a(3) by (auto simp: tp_ops_def tp_invalidate_def)
    have "walk_down t 0 = pd_index (D e)" by (rule walk_down_follows [OF _ _ t(3)]) (use a(2) t(2) in \<open>simp_all add: leaf_ok_def\<close>)
    then show ?thesis using t(1) a(1,2) by (simp add: pointed_def tree_wf_def leaf_ok_def)
  qed
  show "pointed s v" if a: "tree_wf n m D s" "team n m D es" "e \<in> set es" "pointed s e" "rp_getVictim tp_ops es s = Inr (v, s')"
  proof -
    obtain k where k: "tp_getVictim es s = Inr (es ! k)" "pointed s (es ! k)" using tp_getVictim_value [OF a(1,2)] by blast
    have "v = es ! k" using k(1) a(5) by (simp add: tp_ops_def)
    then show ?thesis using k(2) by simp
  qed
qed

text \<open>Trees that the policy has set up itself: the entries are created one after the other.\<close>

definition tree_data :: "nat \<Rightarrow> nat \<Rightarrow> nat \<Rightarrow> plru_data" where
  "tree_data n c e = (if e < c then \<lparr>pd_index = e mod n + n - 1, pd_tree = e div n\<rparr> else \<lparr>pd_index = 0, pd_tree = 0\<rparr>)"

lemma instantiate_all:
  assumes "2 \<le> n" "tp_new n = Inr s"
  shows "fold tp_instantiateEntry [0 ..< c] s = \<lparr>tp_numLeaves = n, tp_count = c,
    tp_trees = replicate ((c + n - 1) div n) (replicate (n - 1) False), tp_data = tree_data n c\<rparr>"
proof (induction c)
  case 0
  then show ?case using assms by (auto simp: tp_new_def tree_data_def)
next
  case (Suc c)
  have d: "tree_data n (Suc c) = (tree_data n c)(c := \<lparr>pd_index = c mod n + n - 1, pd_tree = c div n\<rparr>)"
    by (auto simp: tree_data_def fun_eq_iff)
  have pos: "0 < n" using assms(1) by simp
  have q: "(c + n) div n = Suc (c div n)" using pos div_add_self2 [of n c] by simp
  have r: "(c + n - 1) div n = c div n + (if c mod n = 0 then 0 else 1)"
  proof (cases "c mod n = 0")
    case True
    then obtain k where "c = n * k" by auto
    then have "(c + n - 1) div n = ((n - 1) + k * n) div n" using pos by (simp add: ac_simps)
    also have "\<dots> = k" using pos div_mult_self1 [of n "n - 1" k] by simp
    finally show ?thesis using True \<open>c = n * k\<close> pos by simp
  next
    case False
    then have "c + n - 1 = (c mod n - 1) + Suc (c div n) * n" using div_mult_mod_eq [of c n] by (simp add: mult.commute)
    then have "(c + n - 1) div n = ((c mod n - 1) + Suc (c div n) * n) div n" by (rule arg_cong)
    also have "\<dots> = Suc (c div n)" using pos mod_less_divisor [OF pos, of c] div_mult_self1 [of n "c mod n - 1" "Suc (c div n)"] by simp
    finally show ?thesis using False by simp
  qed
  show ?case using Suc assms(1) r q by (auto simp: tp_instantiateEntry_def Let_def d replicate_append_same)
qed

lemma tree_setup:
  assumes "2 \<le> n" "tp_new n = Inr s"
  shows "tree_wf n m (tree_data n (n * m)) (fold tp_instantiateEntry [0 ..< n * m] s)"
    "e < n * m \<Longrightarrow> leaf_ok n m (tree_data n (n * m)) e" "j < m \<Longrightarrow> team n m (tree_data n (n * m)) [n * j ..< n * j + n]"
proof -
  have "(n * m + n - 1) div n = m"
  proof -
    have "n * m + n - 1 = (n - 1) + m * n" using assms(1) by (simp add: mult.commute)
    then have "(n * m + n - 1) div n = ((n - 1) + m * n) div n" by (rule arg_cong)
    also have "\<dots> = m" using assms(1) div_mult_self1 [of n "n - 1" m] by simp
    finally show ?thesis .
  qed
  then show "tree_wf n m (tree_data n (n * m)) (fold tp_instantiateEntry [0 ..< n * m] s)"
    using assms(1) unfolding instantiate_all [OF assms] tree_wf_def by simp
  have "e mod n < n" using assms(1) by simp
  then show "e < n * m \<Longrightarrow> leaf_ok n m (tree_data n (n * m)) e"
    by (auto simp: leaf_ok_def tree_data_def less_mult_imp_div_less mult.commute)
  assume j: "j < m"
  then have "n * j + n \<le> n * m" by (metis Suc_leI mult_Suc_right add.commute mult_le_mono2)
  then have "n * j + k < n * m" if "k < n" for k using that by linarith
  then show "team n m (tree_data n (n * m)) [n * j ..< n * j + n]" using j assms(1) by (auto simp: team_def tree_data_def intro!: exI [of _ j])
qed

text \<open>A set of four entries.\<close>

definition ex_tree :: plru_state where
  "ex_tree = fold tp_instantiateEntry [0 ..< 4] \<lparr>tp_numLeaves = 4, tp_count = 0, tp_trees = [], tp_data = (\<lambda>_. \<lparr>pd_index = 0, pd_tree = 0\<rparr>)\<rparr>"

lemma ex_tree_new: "tp_new 4 = Inr \<lparr>tp_numLeaves = 4, tp_count = 0, tp_trees = [], tp_data = (\<lambda>_. \<lparr>pd_index = 0, pd_tree = 0\<rparr>)\<rparr>"
  by (simp add: tp_new_def)

lemma ex_tree_wf: "tree_wf 4 1 (tree_data 4 4) ex_tree"
  using tree_setup(1) [OF _ ex_tree_new, of 1] by (simp add: ex_tree_def)

lemma ex_team: "team 4 1 (tree_data 4 4) [0, 1, 2, 3]"
  using tree_setup(3) [OF _ ex_tree_new, of 0 1] by (simp add: upt_conv_Cons numeral_2_eq_2 numeral_3_eq_3)

lemma ex_leaf: "e < 4 \<Longrightarrow> leaf_ok 4 1 (tree_data 4 4) e"
  using tree_setup(2) [OF _ ex_tree_new, of e 1] by simp

definition ex_draw :: "nat \<Rightarrow> nat \<Rightarrow> nat \<Rightarrow> nat" where
  "ex_draw k lo hi = lo + k mod (hi - lo + 1)"

lemma ex_draw_in_range: "in_range ex_draw"
  unfolding in_range_def ex_draw_def
proof (intro allI impI conjI)
  fix k lo hi :: nat
  assume "lo \<le> hi"
  moreover have "k mod (hi - lo + 1) < hi - lo + 1" by simp
  ultimately show "lo + k mod (hi - lo + 1) \<le> hi" by linarith
qed simp

definition ex_brrip :: "brrip_data rp_state" where
  "ex_brrip = \<lparr>rs_data = (\<lambda>_. \<lparr>rrpv = \<lparr>initialVal = 0, maxVal = 3, counter = 0\<rparr>, br_valid = True\<rparr>), rs_draws = 0\<rparr>"

lemma ex_brrip_wf: "brrip_wf ex_brrip"
  by (simp add: brrip_wf_def ex_brrip_def sat_wf_def)

section \<open>Properties\<close>

text \<open>C26. Under ten of the policies, all but SHiP and set dueling, after any sequence of insertions, accesses with or without an
  occupancy, invalidations and evictions, no call fails and every victim is one of the candidates it was chosen from.  The candidates
  of an eviction are not empty; those of the tree policy, which needs at least two leaves, are the leaves of one tree in order.
  Random numbers are in the range that was asked for.\<close>

theorem victims_are_candidates:
  assumes calls: "calls_ok (\<lambda>_. True) (\<lambda>es. es \<noteq> []) cs" and draw: "in_range draw" and br: "brrip_wf sb"
    and tree: "tree_wf n m D st" "calls_ok (leaf_ok n m D) (team n m D) ct"
  shows "victims_ok lru_ops cs sl \<and> victims_ok (bip_ops draw btp) cs sl \<and> victims_ok (weighted_ops occ) cs sw \<and> victims_ok fifo_ops cs sf \<and>
    victims_ok sch_ops cs sc \<and> victims_ok mru_ops cs sl \<and> victims_ok lfu_ops cs su \<and> victims_ok (random_ops draw) cs sr \<and>
    victims_ok (brrip_ops draw btp hp) cs sb \<and> victims_ok tp_ops ct st"
  by (intro conjI lru.all_victims_ok bip.all_victims_ok weighted.all_victims_ok fifo.all_victims_ok sch.all_victims_ok mru.all_victims_ok
    lfu.all_victims_ok random.all_victims_ok brrip.all_victims_ok tree.all_victims_ok [OF tree] TrueI calls draw br)

theorem victims_are_candidates_witness:
  "victims_ok sch_ops [Reset 3 0, Touch 4 0, GetVictim [0, 1]] \<lparr>rs_data = (\<lambda>_. sch_instantiateEntry), rs_draws = 0, timeTicks = 0\<rparr> \<and>
    victims_ok (random_ops ex_draw) [Reset 3 0, Touch 4 0, GetVictim [0, 1]] \<lparr>rs_data = (\<lambda>_. \<lparr>rd_valid = True\<rparr>), rs_draws = 0\<rparr> \<and>
    victims_ok (weighted_ops (\<lambda>k. Some 5)) [Reset 3 0, Touch 4 0, GetVictim [0, 1]] \<lparr>rs_data = (\<lambda>_. weighted_instantiateEntry), rs_draws = 0\<rparr> \<and>
    victims_ok tp_ops [Touch 5 2, GetVictim [0, 1, 2, 3], Invalidate 1, Reset 7 1] ex_tree"
proof -
  have c: "calls_ok (\<lambda>_. True) (\<lambda>es. es \<noteq> []) [Reset 3 0, Touch 4 0, GetVictim [0, 1]]" by simp
  have t: "calls_ok (leaf_ok 4 1 (tree_data 4 4)) (team 4 1 (tree_data 4 4)) [Touch 5 2, GetVictim [0, 1, 2, 3], Invalidate 1, Reset 7 1]"
    by (simp add: ex_team ex_leaf del: One_nat_def)
  show ?thesis using victims_are_candidates [OF c ex_draw_in_range ex_brrip_wf ex_tree_wf t] by blast
qed

text \<open>C27. For LRU, bimodal insertion, MRU, LFU, random, BRRIP and the tree policy an invalidated entry is the next victim, as the base class documents it, or
  another entry is that is just as invalid; for the tree it is that very entry.\<close>

theorem invalidated_entry_next:
  assumes e: "e \<in> set es" and draw: "in_range draw" and br: "brrip_wf sb" and tree: "tree_wf n m D st" "team n m D et" "x \<in> set et"
  shows "(\<exists>s v s'. rp_invalidate lru_ops e sl = Inr s \<and> rp_getVictim lru_ops es s = Inr (v, s') \<and> v \<in> set es \<and> lastTouchTick (rs_data s v) = 0) \<and>
    (\<exists>s v s'. rp_invalidate (bip_ops draw btp) e sl = Inr s \<and> rp_getVictim (bip_ops draw btp) es s = Inr (v, s') \<and> v \<in> set es \<and>
      lastTouchTick (rs_data s v) = 0) \<and>
    (\<exists>s v s'. rp_invalidate mru_ops e sl = Inr s \<and> rp_getVictim mru_ops es s = Inr (v, s') \<and> v \<in> set es \<and> lastTouchTick (rs_data s v) = 0) \<and>
    (\<exists>s v s'. rp_invalidate lfu_ops e su = Inr s \<and> rp_getVictim lfu_ops es s = Inr (v, s') \<and> v \<in> set es \<and> refCount (rs_data s v) = 0) \<and>
    (\<exists>s v s'. rp_invalidate (random_ops draw) e sr = Inr s \<and> rp_getVictim (random_ops draw) es s = Inr (v, s') \<and> v \<in> set es \<and>
      \<not> rd_valid (rs_data s v)) \<and>
    (\<exists>s v s'. rp_invalidate (brrip_ops draw btp hp) e sb = Inr s \<and> rp_getVictim (brrip_ops draw btp hp) es s = Inr (v, s') \<and> v \<in> set es \<and>
      \<not> br_valid (rs_data s v)) \<and>
    (\<exists>s s'. rp_invalidate tp_ops x st = Inr s \<and> rp_getVictim tp_ops et s = Inr (x, s'))"
proof -
  have es: "es \<noteq> []" using e by auto
  have n: "2 \<le> n" using tree(1) by (simp add: tree_wf_def)
  have leaf: "leaf_ok n m D x" and inj: "\<forall>k<n. pd_index (D (et ! k)) = n - 1 + k" "length et = n" using team_facts [OF tree(2) n] tree(3) by auto
  obtain s v s' where s: "rp_invalidate tp_ops x st = Inr s" "rp_getVictim tp_ops et s = Inr (v, s')" and v: "v \<in> set et" "pointed s v"
    using tree.invalidated_next [OF tree(1) leaf tree(2,3)] by blast
  have wf: "tree_wf n m D s" using tree.invalidate_ok [OF tree(1) leaf] s(1) by auto
  have p: "pointed s x" by (rule tree.invalidate_marks [OF tree(1) leaf s(1)])
  obtain k where k: "\<forall>j<n. pointed s (et ! j) \<longrightarrow> j = k" using tp_getVictim_value [OF wf tree(2)] by blast
  obtain a b where "a < n" "v = et ! a" "b < n" "x = et ! b" using v(1) tree(3) inj(2) by (auto simp: in_set_conv_nth)
  then have "v = x" using k v(2) p by metis
  then have t: "\<exists>s s'. rp_invalidate tp_ops x st = Inr s \<and> rp_getVictim tp_ops et s = Inr (x, s')" using s by blast
  show ?thesis
    by (intro conjI t lru.invalidated_next bip.invalidated_next mru.invalidated_next lfu.invalidated_next random.invalidated_next brrip.invalidated_next)
      (simp_all add: es e draw br)
qed

theorem invalidated_entry_next_witness:
  "(\<exists>s v s'. rp_invalidate lru_ops 1 \<lparr>rs_data = (\<lambda>e. \<lparr>lastTouchTick = 9\<rparr>), rs_draws = 0\<rparr> = Inr s \<and> rp_getVictim lru_ops [0, 1] s = Inr (v, s') \<and>
      v \<in> {0, 1} \<and> lastTouchTick (rs_data s v) = 0) \<and>
    (\<exists>s s'. rp_invalidate tp_ops 2 ex_tree = Inr s \<and> rp_getVictim tp_ops [0, 1, 2, 3] s = Inr (2, s'))"
  using invalidated_entry_next [where e = 1 and es = "[0, 1]" and x = 2, OF _ ex_draw_in_range ex_brrip_wf ex_tree_wf ex_team] by auto

text \<open>FIFO does the opposite of what its class documents: an invalidated entry gets a fresh stamp and so is the last to be replaced. As long as the
  stamps have not wrapped, it is never the next victim while there is another candidate.\<close>

theorem fifo_invalidated_last:
  assumes "e \<in> set es" "c \<in> set es" "c \<noteq> e" "\<forall>x\<in>set es. tickInserted (rs_data s x) \<le> timeTicks s" "timeTicks s \<noteq> - 1"
  shows "\<exists>v. fifo_getVictim es (fifo_invalidate e s) = Inr v \<and> v \<in> set es \<and> v \<noteq> e"
proof -
  let ?s = "fifo_invalidate e s"
  have "es \<noteq> []" using assms(1) by auto
  then obtain v where v: "fifo_getVictim es ?s = Inr v" "v \<in> set es"
    using search_victim_total unfolding fifo_getVictim_def by blast
  have less: "timeTicks s < timeTicks s + 1" using assms(5) unat_Suc_less [of "timeTicks s" "- 1"] by (simp add: word_order.not_eq_extremum word_less_nat_alt)
  have "tickInserted (rs_data ?s v) \<le> tickInserted (rs_data ?s c)"
    using search_victim_least [of "\<lambda>x. tickInserted (rs_data ?s x)" es v c] v(1) assms(2) by (simp add: fifo_getVictim_def)
  also have "\<dots> \<le> timeTicks s" using assms(2-4) by (simp add: fifo_invalidate_def fifo_stamp_def with_data_def)
  finally have "v \<noteq> e" using less by (auto simp: fifo_invalidate_def fifo_stamp_def with_data_def)
  then show ?thesis using v by blast
qed

theorem fifo_invalidated_last_witness:
  "\<exists>v. fifo_getVictim [0, 1] (fifo_invalidate 0 \<lparr>rs_data = (\<lambda>e. \<lparr>tickInserted = of_nat e + 1\<rparr>), rs_draws = 0, timeTicks = 2\<rparr>) = Inr v \<and> v \<in> set [0, 1] \<and> v \<noteq> 0"
  by (rule fifo_invalidated_last [of 0 _ 1]) simp_all

text \<open>In a tree with at least two leaves the entry that was just accessed is not the next victim; with a single leaf every access to the tree is out of range.\<close>

theorem tree_touch_protects:
  assumes "tree_wf n m D s" "team n m D es" "e \<in> set es"
  shows "(\<exists>s' v. tp_touch e s = Inr s' \<and> tp_getVictim es s' = Inr v \<and> v \<in> set es \<and> v \<noteq> e) \<and>
    (\<forall>x u. tp_new 1 = Inr u \<longrightarrow> tp_touch x (tp_instantiateEntry x u) = Inl OutOfRange)"
proof
  have n: "2 \<le> n" "tp_data s = D" "length (tp_trees s) = m" using assms(1) by (simp_all add: tree_wf_def)
  have leaf: "leaf_ok n m D e" using team_facts [OF assms(2) n(1)] assms(3) by auto
  let ?st = "\<lambda>t. s\<lparr>tp_trees := (tp_trees s)[pd_tree (D e) := t]\<rparr>"
  obtain t where t: "tp_touch e s = Inr (?st t)" and wf: "tree_wf n m D (?st t)" and l: "length t = n - 1"
      and up: "\<forall>k. (parentIndex ^^ k) (pd_index (D e)) \<noteq> 0 \<longrightarrow>
        t ! parentIndex ((parentIndex ^^ k) (pd_index (D e))) = (\<not> isRightSubtree ((parentIndex ^^ k) (pd_index (D e))))"
    using tp_walk_value [OF assms(1) leaf, of "\<lambda>right. \<not> right"] unfolding tp_touch_def by (elim exE conjE)
  obtain k where k: "tp_getVictim es (?st t) = Inr (es ! k)" "es ! k \<in> set es" "pointed (?st t) (es ! k)" using tp_getVictim_value [OF wf assms(2)] by blast
  have "\<not> pointed (?st t) e"
  proof
    assume "pointed (?st t) e"
    then have w: "walk_down t 0 = pd_index (D e)" using leaf n by (simp add: pointed_def leaf_ok_def)
    have "0 < length t" using l n(1) by simp
    from walk_down_parent [OF this] have "t ! parentIndex (pd_index (D e)) = isRightSubtree (pd_index (D e))" unfolding w .
    moreover have "pd_index (D e) \<noteq> 0" using leaf n(1) by (auto simp: leaf_ok_def)
    ultimately show False using up [THEN spec, of 0] by simp
  qed
  then have "es ! k \<noteq> e" using k(3) by metis
  then show "\<exists>s' v. tp_touch e s = Inr s' \<and> tp_getVictim es s' = Inr v \<and> v \<in> set es \<and> v \<noteq> e" using t k(1,2) by blast
  show "\<forall>x u. tp_new 1 = Inr u \<longrightarrow> tp_touch x (tp_instantiateEntry x u) = Inl OutOfRange"
    by (auto simp: tp_new_def tp_instantiateEntry_def Let_def tp_touch_def tp_walk_def vget_def vset_def walk_up.simps)
qed

theorem tree_touch_protects_witness:
  "\<exists>s' v. tp_touch 2 ex_tree = Inr s' \<and> tp_getVictim [0, 1, 2, 3] s' = Inr v \<and> v \<noteq> 2"
  using tree_touch_protects [OF ex_tree_wf ex_team, of 2] by auto

lemma mru_search_most:
  "(\<forall>c\<in>set es. lastTouchTick (rs_data s c) \<noteq> 0) \<Longrightarrow> c \<in> insert x (set es) \<Longrightarrow> lastTouchTick (rs_data s c) \<le> lastTouchTick (rs_data s (mru_search s x es))"
proof (induction es arbitrary: x c)
  case (Cons e es)
  show ?case
  proof (cases "lastTouchTick (rs_data s x) < lastTouchTick (rs_data s e)")
    case True
    then show ?thesis using Cons.IH [of _ e] Cons.prems by (force intro: order.trans less_imp_le)
  next
    case False
    then show ?thesis using Cons.IH [of _ x] Cons.prems by (force intro: order.trans simp: not_less)
  qed
qed simp

lemma fold_with_data: "distinct es \<Longrightarrow> rs_data (fold (\<lambda>c. with_data c f) es s) x = (if x \<in> set es then f (rs_data s x) else rs_data s x)"
  by (induction es arbitrary: s) (auto simp: with_data_def)

lemma sc_add_unat: "sat_wf c \<Longrightarrow> sc_val (sc_add c (uint d)) = min (sc_max c) (sc_val c + unat d)"
proof -
  assume wf: "sat_wf c"
  have "int (sc_val (sc_add c (uint d))) = max 0 (min (int (sc_max c)) (int (sc_val c) + int (unat d)))" using sc_add_val [OF wf, of "uint d"] by simp
  then show ?thesis by linarith
qed

lemma brrip_aging:
  assumes wf: "brrip_wf s" and valid: "\<forall>x\<in>set es. br_valid (rs_data s x)" and d: "distinct es" and c: "c \<in> set es"
  shows "\<exists>v s'. brrip_getVictim es s = Inr (v, s') \<and> v \<in> set es \<and> sc_val (rrpv (rs_data s c)) \<le> sc_val (rrpv (rs_data s v)) \<and>
    sc_val (rrpv (rs_data s' c)) = min (sc_max (rrpv (rs_data s c))) (sc_val (rrpv (rs_data s c)) + (sc_max (rrpv (rs_data s v)) - sc_val (rrpv (rs_data s v))))"
proof -
  have ne: "es \<noteq> []" using c by auto
  obtain v where b: "brrip_search s (es ! 0) es = Inr v" using brrip_search_in valid by (metis sum.exhaust)
  have v: "v \<in> set es" "counter (rrpv (rs_data s c)) \<le> counter (rrpv (rs_data s v))" using brrip_search_best [OF b] c ne by (cases es; auto)+
  have ok: "sat_wf (rrpv (rs_data s x))" for x using wf by (simp add: brrip_wf_def)
  define df where "df = fst (saturate (rrpv (rs_data s v)))"
  define s1 where "s1 = with_data v (\<lambda>d. d\<lparr>rrpv := snd (saturate (rrpv d))\<rparr>) s"
  define s2 where "s2 = (if 0 < uint df then fold (\<lambda>c. with_data c (\<lambda>d. d\<lparr>rrpv := sc_add (rrpv d) (uint df)\<rparr>)) es s1 else s1)"
  have run: "brrip_getVictim es s = Inr (v, s2)" using ne b by (simp add: brrip_getVictim_def check_def Let_def df_def s1_def s2_def)
  have un: "unat df = sc_max (rrpv (rs_data s v)) - sc_val (rrpv (rs_data s v))"
    using ok [of v] by (simp add: df_def saturate_def sat_wf_def unat_sub)
  have r1: "rrpv (rs_data s1 c) = (if c = v then snd (saturate (rrpv (rs_data s v))) else rrpv (rs_data s c))" by (simp add: s1_def with_data_def)
  then have ok1: "sat_wf (rrpv (rs_data s1 c))" using ok sat_wf_ops by auto
  have "sc_val (rrpv (rs_data s2 c)) = min (sc_max (rrpv (rs_data s1 c))) (sc_val (rrpv (rs_data s1 c)) + unat df)"
  proof (cases "0 < uint df")
    case True
    then show ?thesis using d c ok1 by (simp add: s2_def fold_with_data sc_add_unat)
  next
    case False
    then have "uint df = 0" using uint_ge_0 [of df] by linarith
    then have "unat df = 0" by (simp only: unat_eq_nat_uint nat_0)
    then show ?thesis using False sat_wf_val [OF ok1] by (simp add: s2_def)
  qed
  also have "\<dots> = min (sc_max (rrpv (rs_data s c))) (sc_val (rrpv (rs_data s c)) + unat df)"
    using sat_wf_val [OF ok, of v] un unfolding r1 by (simp add: saturate_def)
  finally show ?thesis using run v un by (auto simp: word_le_nat_alt)
qed

text \<open>The victims are the ones the policies are named after: least recently touched, least often used, first inserted; with no invalid entry among the candidates,
  most recently touched for MRU, and for BRRIP the one whose re-reference is predicted furthest away, which saturates while every other prediction ages
  by the same amount up to its maximum; the victim of the second-chance policy has no chance left.\<close>

theorem victim_choice:
  assumes c: "c \<in> set es" and touched: "\<forall>x\<in>set es. lastTouchTick (rs_data sm x) \<noteq> 0" and valid: "\<forall>x\<in>set es. br_valid (rs_data sb x)" and wf: "brrip_wf sb" and d: "distinct es"
  shows "(\<exists>v. lru_getVictim es sl = Inr v \<and> v \<in> set es \<and> lastTouchTick (rs_data (sl :: lru_data rp_state) v) \<le> lastTouchTick (rs_data sl c)) \<and>
    (\<exists>v. lfu_getVictim es su = Inr v \<and> v \<in> set es \<and> refCount (rs_data su v) \<le> refCount (rs_data su c)) \<and>
    (\<exists>v. fifo_getVictim es sf = Inr v \<and> v \<in> set es \<and> tickInserted (rs_data (sf :: fifo_data fifo_state) v) \<le> tickInserted (rs_data sf c)) \<and>
    (\<exists>v. mru_getVictim es sm = Inr v \<and> v \<in> set es \<and> lastTouchTick (rs_data sm c) \<le> lastTouchTick (rs_data sm v)) \<and>
    (\<exists>v s'. sch_getVictim es sc = Inr (v, s') \<and> v \<in> set es \<and> \<not> hasSecondChance (rs_data s' v)) \<and>
    (\<exists>v s'. brrip_getVictim es sb = Inr (v, s') \<and> v \<in> set es \<and> sc_val (rrpv (rs_data sb c)) \<le> sc_val (rrpv (rs_data sb v)) \<and>
      sc_val (rrpv (rs_data s' c)) = min (sc_max (rrpv (rs_data sb c))) (sc_val (rrpv (rs_data sb c)) + (sc_max (rrpv (rs_data sb v)) - sc_val (rrpv (rs_data sb v)))))"
proof -
  have ne: "es \<noteq> []" using c by auto
  have "\<exists>v. lru_getVictim es sl = Inr v \<and> v \<in> set es \<and> lastTouchTick (rs_data sl v) \<le> lastTouchTick (rs_data sl c)"
    using search_victim_total [OF ne] search_victim_least [of "\<lambda>c. lastTouchTick (rs_data sl c)", OF _ c] unfolding lru_getVictim_def by blast
  moreover have "\<exists>v. lfu_getVictim es su = Inr v \<and> v \<in> set es \<and> refCount (rs_data su v) \<le> refCount (rs_data su c)"
    using search_victim_total [OF ne] search_victim_least [of "\<lambda>c. refCount (rs_data su c)", OF _ c] unfolding lfu_getVictim_def by blast
  moreover have "\<exists>v. fifo_getVictim es sf = Inr v \<and> v \<in> set es \<and> tickInserted (rs_data sf v) \<le> tickInserted (rs_data sf c)"
    using search_victim_total [OF ne] search_victim_least [of "\<lambda>c. tickInserted (rs_data sf c)", OF _ c] unfolding fifo_getVictim_def by blast
  moreover have "\<exists>v. mru_getVictim es sm = Inr v \<and> v \<in> set es \<and> lastTouchTick (rs_data sm c) \<le> lastTouchTick (rs_data sm v)"
    using ne c touched mru_search_most [of es sm c "es ! 0"] mru_search_in [of sm "es ! 0" es] by (cases es) (auto simp: mru_getVictim_def check_def)
  moreover have "\<exists>v s'. sch_getVictim es sc = Inr (v, s') \<and> v \<in> set es \<and> \<not> hasSecondChance (rs_data s' v)"
    using ne sch_search_total [OF ne, of sc] by (auto simp: sch_getVictim_def check_def find_Some_iff split: option.splits)
  ultimately show ?thesis using brrip_aging [OF wf valid d c] by blast
qed

theorem victim_choice_witness:
  "\<exists>v s'. brrip_getVictim [0, 1] ex_brrip = Inr (v, s') \<and> v \<in> set [0, 1] \<and> sc_val (rrpv (rs_data s' 1)) = 3"
proof -
  have "\<exists>v s'. brrip_getVictim [0, 1] ex_brrip = Inr (v, s') \<and> v \<in> set [0, 1] \<and> sc_val (rrpv (rs_data ex_brrip 1)) \<le> sc_val (rrpv (rs_data ex_brrip v)) \<and>
      sc_val (rrpv (rs_data s' 1)) = min (sc_max (rrpv (rs_data ex_brrip 1))) (sc_val (rrpv (rs_data ex_brrip 1)) +
        (sc_max (rrpv (rs_data ex_brrip v)) - sc_val (rrpv (rs_data ex_brrip v))))"
    using victim_choice [of 1 "[0, 1]" "\<lparr>rs_data = (\<lambda>_. \<lparr>lastTouchTick = 5\<rparr>), rs_draws = 0\<rparr>" ex_brrip] ex_brrip_wf by (simp add: ex_brrip_def)
  then show ?thesis by (auto simp: ex_brrip_def)
qed

end
