(* ===== verification/Spec2Isabelle.thy ===== *)
theory Spec2Isabelle
  imports Bitfield Int_Math Sat_Counter Circular_Queue Event_Progress Phast Store_Set Mem_Dep_Safety Lsq_Dependence Core_Setup
    Commit_Threads Cache_Index Repl_Tree
begin

text \<open>
  \<^bold>\<open>What is verified\<close>

  The repository is the gem5 simulator (C++, under \<^verbatim>\<open>gem5/src\<close>) whose out-of-order core was extended by the PHAST
  memory-dependence predictor.  This development models the parts of the core around that predictor, the library code they use,
  the event queue that drives the simulation, and the placement and replacement policies of the caches.

  \<^bold>\<open>The program's parts and how they interact\<close>

  Fetched instructions are renamed (\<^verbatim>\<open>cpu/o3/rename.cc\<close>), enter the reorder buffer through the commit stage
  (\<^verbatim>\<open>rob.cc\<close>, \<^verbatim>\<open>commit.cc\<close>) and, when they access memory, the memory-dependence unit
  (\<^verbatim>\<open>mem_dep_unit.cc\<close>).  That unit asks a predictor (\<^verbatim>\<open>phast.cc\<close> or \<^verbatim>\<open>store_set.cc\<close>) which older
  store a load has to wait for, holds the instruction back until that store, the barriers and its registers are ready, and
  releases it.  A released load or store executes in the load/store queue (\<^verbatim>\<open>lsq_unit.cc\<close>): a load takes its bytes from
  an older store of the queue or from memory, a store looks for younger loads that executed too early.  When there is one, the
  queue records how far before the load the store is, and the execute stage (\<^verbatim>\<open>iew.cc\<close>) asks the commit stage for a
  squash: the reorder buffer marks the younger instructions, the rename stage undoes their renames, the load/store queue, the
  memory-dependence unit and the store-set predictor forget them.  A load that leaves the buffer marked as squashed for memory order trains the predictor.  The event
  queue (\<^verbatim>\<open>sim/eventq.cc\<close>) calls every component at its simulated time.

  \<^bold>\<open>Theories\<close>

  \<^item> \<^verbatim>\<open>Gem5_Prelude\<close>: word types, sequence numbers, the error type and the result type of fallible code, checked vector
    access, folds over fallible steps, and the shared lemmas.
  \<^item> \<^verbatim>\<open>Bitfield\<close>, \<^verbatim>\<open>Int_Math\<close>, \<^verbatim>\<open>Sat_Counter\<close>, \<^verbatim>\<open>Circular_Queue\<close>: the helpers of
    \<^verbatim>\<open>base/bitfield.hh\<close>, \<^verbatim>\<open>base/intmath.hh\<close>, \<^verbatim>\<open>base/sat_counter.hh\<close> and
    \<^verbatim>\<open>base/circular_queue.hh\<close>.  The counter satisfies the locale \<open>up_down_counter\<close>; the queue refines lists through the
    locale \<open>bounded_queue\<close>.
  \<^item> \<^verbatim>\<open>Event_Queue\<close>, \<^verbatim>\<open>Event_Service\<close>, \<^verbatim>\<open>Event_Progress\<close>: \<open>EventQueue\<close> of \<^verbatim>\<open>sim/eventq.hh\<close> and
    \<^verbatim>\<open>sim/eventq.cc\<close>: the list of bins on a store of events, then the service loop and its progress.  The locale
    \<open>agenda\<close> states what a client may rely on.
  \<^item> \<^verbatim>\<open>Dep_Predictor\<close>: the interface of a dependence predictor, as a record of operations and the locale
    \<open>dep_predictor\<close>.  \<^verbatim>\<open>Phast\<close> and \<^verbatim>\<open>Store_Set\<close> model the two predictors and interpret it.
  \<^item> \<^verbatim>\<open>Mem_Dep_Unit\<close>, \<^verbatim>\<open>Mem_Dep_Safety\<close>: \<open>MemDepUnit\<close> over any predictor of the interface, on an explicit store of its
    shared entries; then its step relation, its invariant and its properties with the PHAST predictor.
  \<^item> \<^verbatim>\<open>Lsq_Unit\<close>: \<open>LSQUnit\<close> and the parts of \<open>LSQ\<close> it runs through, on the circular queue: every operation of one thread's
    queue.  \<^verbatim>\<open>Lsq_Queue\<close> and \<^verbatim>\<open>Lsq_Invariant\<close> read the queues as lists and state the invariant; \<^verbatim>\<open>Lsq_Steps\<close>,
    \<^verbatim>\<open>Lsq_Exec\<close> and \<^verbatim>\<open>Lsq_Writeback\<close> show what each operation does to them.
  \<^item> \<^verbatim>\<open>Lsq_Order\<close>, \<^verbatim>\<open>Lsq_System\<close>, \<^verbatim>\<open>Lsq_Theorems\<close>: which store a load has its bytes from; the queue together with the
    redirects of the execute stage as a system of operations; its properties.
  \<^item> \<^verbatim>\<open>Lsq_Dependence\<close>: the load/store queue as the memory-dependence unit sees it.  The locale \<open>store_lookup\<close> states what
    that unit may rely on, and the queue of \<^verbatim>\<open>Lsq_Unit\<close> satisfies it.
  \<^item> \<^verbatim>\<open>Rename_Stage\<close>: physical registers, free lists, rename maps, scoreboard, and the operations of the rename stage that
    allocate, undo, retire and release registers.  \<^verbatim>\<open>Core_Setup\<close>: the part of the core's constructor
    (\<^verbatim>\<open>cpu/o3/cpu.cc\<close>) that checks the configuration and fills the rename maps of all active threads.
  \<^item> \<^verbatim>\<open>Rob\<close>, \<^verbatim>\<open>Commit_Stage\<close>, \<^verbatim>\<open>Commit_Threads\<close>: every operation of the reorder buffer, the control part of the
    commit stage above it, and its squash loop over several threads.
  \<^item> \<^verbatim>\<open>Cache_Index\<close>: the set-associative and skewed-associative indexing policies.
  \<^item> \<^verbatim>\<open>Repl_Policy\<close>, \<^verbatim>\<open>Repl_Tree\<close>: ten replacement policies behind the locales \<open>replacement_policy\<close> and
    \<open>invalidating_policy\<close>.

  \<^bold>\<open>How the code is represented\<close>

  A class is a record, an inherited class an extended record, an enumeration a datatype; machine integers are words of their
  width, or naturals whose wrap-around is written out where a claim depends on it.  Objects shared through pointers live in
  explicit stores or are identified by their sequence number.  A failing assertion, a panic, a null or dangling dereference and
  an access out of range are values of the error type, so that a statement that a call returns \<open>Inr\<close> says that none of them
  happens.  What a part asks of code that is not modelled is an argument of its operations; what it hands to such code is
  recorded in its state.

  \<^bold>\<open>What the lemmas show\<close>

  \<^item> Memory-dependence unit: no call fails and the invariant is kept; an instruction waits for exactly what it must and is
    released exactly when that is done; a squash removes exactly the younger instructions; drained means empty.
  \<^item> Load/store queue: no operation of an allowed run fails; loads see the stores before them; forwarding, violation check,
    squash, commit, write-back and drain do exactly what they are for; the comparison of addresses is exact below the top of the
    address space, and what it answers at the top.
  \<^item> Load/store queue, predictor and memory-dependence unit together: the recorded distance leads back to the violating store,
    and a load predicted to depend on a store waits for it.
  \<^item> Predictors: no sequence of calls fails; a violation is learned; the store-set squash is exact, and spins exactly in a
    described case; a PHAST table with a single set makes lookups diverge unless address and hash agree.
  \<^item> Renaming: no physical register is lost or shared, a squash undoes the renames, the resource check suffices, and a core
    that passes the checks of its constructor starts with the registers of all active threads mapped.
  \<^item> Reorder buffer and commit: every allowed call succeeds and keeps counts, order, iterators and head pointer; instructions
    leave in order; a squash completes in time and marks exactly the younger instructions; the cause of a squash is right on a
    single-threaded core, and on a multithreaded one it is that of this thread or of any before it; which instructions enter
    behind a squash; the two thread-selection policies.
  \<^item> Caches: an address is found where it was placed and is regenerated from its place; victims are candidates; which entry
    each policy replaces.
  \<^item> Event queue: scheduling refines an ordered agenda; service returns and reaches its time when the events that run ask for
    later ticks only, and takes one step per pending event when they ask for nothing.
  \<^item> Library code: refinement, clamping, exactness and bounds.

  \<^bold>\<open>Bounds and fuel\<close>

  Most loops are recursion on the data or on a proved measure.  An iteration that changes nothing, after which the loop would
  run forever, is the value \<open>Diverges\<close>: the folding of a history by zero bits in \<^verbatim>\<open>Phast\<close> and the squash loop of
  \<^verbatim>\<open>Store_Set\<close>.  The walks over the linked bins of the event queue carry a step budget, the number of events in the store,
  which is proved enough for a well-formed queue.  The service loop, whose events may ask for more events, takes its budget as
  an argument; one step for each event and each tick up to the end is proved enough when they ask for later ticks.
  The loops of the load/store queue that remove entries carry
  the number of entries as their budget, which is proved enough; its write-back loop runs over the list of the answers that the
  cache port gives, one for each store.  The cycles of a reorder-buffer squash are bounded by the
  number of younger instructions divided by the squash width.

  \<^bold>\<open>Not modelled\<close>

  Fetch, decode, issue and the execution of instructions that do not access memory, since they run on the decoders and execution
  functions that the build generates from instruction descriptions; of the load/store queue address translation, the packets of
  split requests, transaction identifiers and the arbitration between threads, whose outcomes are arguments; the commit of a single instruction
  (faults, interrupts, transactions) for the same reason; of the rename stage the stall and block signalling.  The branch
  predictors, the other CPU models, the caches' message protocols, devices, GPU and network models are independent of the parts
  above.  The SHiP and set-dueling policies decide on floating-point numbers.  Of the event queue the locking between threads
  is left out.  Printing, tracing, statistics registration and checkpoints are input and output.  The configuration and driver
  scripts only choose parameters.
\<close>

end
